(* ===== verification/Prelude.thy ===== *)
theory Prelude
  imports
    Main
    "HOL-Library.Word"
    "HOL-Library.AList"
    "HOL-Library.Char_ord"
    "HOL-Library.List_Lexorder"
    "HOL-Library.Multiset"
begin

text \<open>
  Shared vocabulary of the development.

  \<^item> Bytes are \<open>8 word\<close>; a Python \<open>bytes\<close> value is a list of them. A Python
    \<open>str\<close> is its UTF-8 byte sequence, kept as a HOL \<open>string\<close>; Python orders strings
    by code point, and that is the order of their UTF-8 encodings, so \<open>sorted(...)\<close>
    on strings is \<open>sort\<close> with the lexicographic order of the library.
  \<^item> A call that can raise returns a sum, \<open>Inl\<close> the exception and \<open>Inr\<close> the value;
    a method that answers \<open>(False, reason)\<close> or \<open>(True, "ok")\<close> returns \<open>Inl reason\<close> or
    \<open>Inr ()\<close>. \<open>bindR\<close> sequences such calls and \<open>foldR\<close> runs a loop whose body may raise.
  \<^item> A Python \<open>dict\<close> whose iteration order matters is an association list handled by
    \<open>AList.update\<close> and \<open>AList.delete\<close>, which keep insertion order exactly as Python
    does; a dictionary that is only looked up is a HOL map.
\<close>

named_theorems fin6_simps

type_synonym byte = "8 word"
type_synonym bytes = "byte list"
type_synonym node_id = string

datatype exn =
    ValueError
  | KeyError
  | OverflowError
  | SeatError
  | UndoError
  | LedgerInconsistent
  | CodecError
  | FrameError
  | HighWaterError
  | ContributionError
  | PoolExhausted
  | MiningFailed
  | HardeningError
  | UnicodeDecodeError
  | TypeError
  | ZeroDivisionError
  | AssertionError
  | IndexError
  | AttributeError
  | TxError
  | ProofError
  | RecursionError
  | ProtocolError
  | HaltRequired

section \<open>Results\<close>

fun bindR :: "'e + 'a \<Rightarrow> ('a \<Rightarrow> 'e + 'b) \<Rightarrow> 'e + 'b" where
  "bindR (Inl e) f = Inl e"
| "bindR (Inr x) f = f x"

fun foldR :: "('s \<Rightarrow> 'a \<Rightarrow> 'e + 's) \<Rightarrow> 's \<Rightarrow> 'a list \<Rightarrow> 'e + 's" where
  "foldR f s [] = Inr s"
| "foldR f s (x # xs) = bindR (f s x) (\<lambda>s'. foldR f s' xs)"

fun mapR :: "('a \<Rightarrow> 'e + 'b) \<Rightarrow> 'a list \<Rightarrow> 'e + 'b list" where
  "mapR f [] = Inr []"
| "mapR f (x # xs) = bindR (f x) (\<lambda>y. bindR (mapR f xs) (\<lambda>ys. Inr (y # ys)))"

definition is_ok :: "'e + 'a \<Rightarrow> bool" where
  "is_ok r = (case r of Inl _ \<Rightarrow> False | Inr _ \<Rightarrow> True)"

lemma is_ok_simps [simp]: "is_ok (Inl e) = False" "is_ok (Inr x) = True"
  by (simp_all add: is_ok_def)

lemma is_ok_iff: "is_ok r \<longleftrightarrow> (\<exists>x. r = Inr x)"
  by (cases r) auto

lemma bindR_eq_Inr [simp]: "bindR r f = Inr y \<longleftrightarrow> (\<exists>x. r = Inr x \<and> f x = Inr y)"
  by (cases r) auto

lemma bindR_eq_Inl: "bindR r f = Inl e \<longleftrightarrow> r = Inl e \<or> (\<exists>x. r = Inr x \<and> f x = Inl e)"
  by (cases r) auto

lemma mapR_eq_Inr: "mapR f xs = Inr ys \<longleftrightarrow> list_all2 (\<lambda>x y. f x = Inr y) xs ys"
  by (induction xs arbitrary: ys) (auto simp: list_all2_Cons1)

lemma mapR_mem: "mapR f xs = Inr ys \<Longrightarrow> y \<in> set ys \<Longrightarrow> \<exists>x\<in>set xs. f x = Inr y"
  by (induction xs arbitrary: ys) auto

lemma foldR_append: "foldR f s (xs @ ys) = bindR (foldR f s xs) (\<lambda>s'. foldR f s' ys)"
proof (induction xs arbitrary: s)
  case Nil
  then show ?case by simp
next
  case (Cons x xs)
  then show ?case by (cases "f s x") auto
qed

lemma foldR_snoc: "foldR f s (xs @ [x]) = bindR (foldR f s xs) (\<lambda>s'. f s' x)"
proof -
  have "foldR f s' [x] = f s' x" for s'
    by (cases "f s' x") auto
  then show ?thesis by (simp add: foldR_append)
qed

lemma foldR_invariant:
  assumes "foldR f s xs = Inr s'" and "I s"
    and "\<And>s x s'. x \<in> set xs \<Longrightarrow> I s \<Longrightarrow> f s x = Inr s' \<Longrightarrow> I s'"
  shows "I s'"
  using assms
proof (induction xs arbitrary: s)
  case Nil
  then show ?case by simp
next
  case (Cons x xs)
  from Cons.prems(1) obtain t where t: "f s x = Inr t" "foldR f t xs = Inr s'"
    by auto
  moreover have "I t" using Cons.prems(2,3) t(1) by (meson list.set_intros(1))
  ultimately show ?case using Cons.IH Cons.prems(3) by (meson list.set_intros(2))
qed

section \<open>Numbers and bytes\<close>

fun be_bytes :: "nat \<Rightarrow> nat \<Rightarrow> bytes" where
  "be_bytes 0 n = []"
| "be_bytes (Suc k) n = be_bytes k (n div 256) @ [word_of_nat (n mod 256)]"

definition be_nat :: "bytes \<Rightarrow> nat" where
  "be_nat bs = foldl (\<lambda>acc b. acc * 256 + unat b) 0 bs"

lemma unat_byte: "unat (b :: byte) < 256"
  using unsigned_less [of b, where 'a = nat] by simp

lemma length_be_bytes [simp]: "length (be_bytes k n) = k"
  by (induction k arbitrary: n) auto

lemma be_nat_Nil [simp]: "be_nat [] = 0"
  by (simp add: be_nat_def)

lemma be_nat_snoc: "be_nat (bs @ [b]) = be_nat bs * 256 + unat b"
  by (simp add: be_nat_def)

lemma be_nat_be_bytes: "n < 256 ^ k \<Longrightarrow> be_nat (be_bytes k n) = n"
proof (induction k arbitrary: n)
  case 0
  then show ?case by simp
next
  case (Suc k)
  have "n div 256 < 256 ^ k"
    using Suc.prems by (simp add: less_mult_imp_div_less mult.commute)
  with Suc.IH have "be_nat (be_bytes k (n div 256)) = n div 256" by simp
  then show ?case
    by (simp add: be_nat_snoc unat_of_nat)
qed

lemma be_nat_less: "be_nat bs < 256 ^ length bs"
proof (induction bs rule: rev_induct)
  case Nil
  then show ?case by simp
next
  case (snoc b bs)
  have "unat b < 256" by (rule unat_byte)
  moreover have "be_nat bs + 1 \<le> 256 ^ length bs" using snoc by simp
  then have "(be_nat bs + 1) * 256 \<le> 256 ^ length bs * 256" by (rule mult_le_mono1)
  ultimately show ?case by (simp add: be_nat_snoc mult.commute)
qed

lemma be_bytes_be_nat: "be_bytes (length bs) (be_nat bs) = bs"
proof (induction bs rule: rev_induct)
  case Nil
  then show ?case by simp
next
  case (snoc b bs)
  have "unat b < 256" by (rule unat_byte)
  then show ?case using snoc by (simp add: be_nat_snoc)
qed

lemma be_bytes_inj: "be_bytes k m = be_bytes k n \<Longrightarrow> m < 256 ^ k \<Longrightarrow> n < 256 ^ k \<Longrightarrow> m = n"
  by (metis be_nat_be_bytes)

text \<open>\<open>-(-k // n)\<close>.\<close>

definition ceil_div :: "nat \<Rightarrow> nat \<Rightarrow> nat" where
  "ceil_div k n = (k + n - 1) div n"

lemma ceil_div_eq:
  assumes "0 < n"
  shows "ceil_div k n = k div n + (if k mod n = 0 then 0 else 1)"
proof -
  have eq: "k + n - 1 = (k mod n + n - 1) + (k div n) * n"
    using assms div_mult_mod_eq [of k n] by linarith
  have split: "(k + n - 1) div n = k div n + (k mod n + n - 1) div n"
    unfolding eq using assms by (intro div_mult_self1) simp
  show ?thesis
  proof (cases "k mod n = 0")
    case True
    then show ?thesis unfolding ceil_div_def split using assms by simp
  next
    case False
    then have "k mod n + n - 1 = (k mod n - 1) + 1 * n" by simp
    moreover have "((k mod n - 1) + 1 * n) div n = 1 + (k mod n - 1) div n"
      using assms by (intro div_mult_self1) simp
    moreover have "(k mod n - 1) div n = 0"
      using assms by (simp add: less_imp_diff_less)
    ultimately show ?thesis unfolding ceil_div_def split using False by simp
  qed
qed

section \<open>Strings\<close>

definition byte_of_char :: "char \<Rightarrow> byte" where
  "byte_of_char c = word_of_nat (of_char c)"

definition str_bytes :: "string \<Rightarrow> bytes" where
  "str_bytes s = map byte_of_char s"

definition char_of_byte :: "byte \<Rightarrow> char" where
  "char_of_byte b = char_of (unat b)"

lemma char_of_byte_of_char [simp]: "char_of_byte (byte_of_char c) = c"
proof -
  have "of_char c < (256 :: nat)"
    by (rule nat_of_char_less_256)
  then show ?thesis by (simp add: char_of_byte_def byte_of_char_def unat_of_nat)
qed

lemma str_bytes_simps [simp]:
  "str_bytes [] = []"
  "str_bytes (c # s) = byte_of_char c # str_bytes s"
  "str_bytes (s @ t) = str_bytes s @ str_bytes t"
  "length (str_bytes s) = length s"
  by (simp_all add: str_bytes_def)

lemma bytes_str_bytes [simp]: "map char_of_byte (str_bytes s) = s"
  by (induction s) simp_all

lemma str_bytes_eq_iff [simp]: "str_bytes s = str_bytes t \<longleftrightarrow> s = t"
  by (metis bytes_str_bytes)

definition digit_char :: "nat \<Rightarrow> char" where
  "digit_char n = char_of (48 + n)"

fun str_nat :: "nat \<Rightarrow> string" where
  "str_nat n = (if n < 10 then [digit_char n] else str_nat (n div 10) @ [digit_char (n mod 10)])"

declare str_nat.simps [simp del]

text \<open>\<open>str(n)\<close> of a Python \<open>int\<close>.\<close>

definition str_int :: "int \<Rightarrow> string" where
  "str_int n = (if n < 0 then CHR ''-'' # str_nat (nat (- n)) else str_nat (nat n))"

definition nat_of_str :: "string \<Rightarrow> nat" where
  "nat_of_str s = foldl (\<lambda>acc c. acc * 10 + (of_char c - 48)) 0 s"

lemma of_char_digit_char: "n < 10 \<Longrightarrow> of_char (digit_char n) = 48 + n"
  by (simp add: digit_char_def)

lemma nat_of_str_nat [simp]: "nat_of_str (str_nat n) = n"
proof (induction n rule: str_nat.induct)
  case (1 n)
  show ?case
  proof (cases "n < 10")
    case True
    then show ?thesis
      by (subst str_nat.simps) (simp add: nat_of_str_def of_char_digit_char)
  next
    case False
    with 1 have "nat_of_str (str_nat (n div 10)) = n div 10" by simp
    moreover have "n mod 10 < 10" by simp
    ultimately show ?thesis using False
      by (subst str_nat.simps) (simp add: nat_of_str_def of_char_digit_char)
  qed
qed

lemma str_nat_inj [simp]: "str_nat m = str_nat n \<longleftrightarrow> m = n"
  by (metis nat_of_str_nat)

lemma str_nat_not_Nil [simp]: "str_nat n \<noteq> []"
  by (subst str_nat.simps) simp

lemma hd_str_nat: "hd (str_nat n) \<noteq> CHR ''-''"
proof (induction n rule: str_nat.induct)
  case (1 n)
  show ?case
  proof (cases "n < 10")
    case True
    have "of_char (digit_char n) \<noteq> (of_char (CHR ''-'') :: nat)"
      using True by (simp add: of_char_digit_char)
    then have "digit_char n \<noteq> CHR ''-''" by auto
    then show ?thesis using True by (subst str_nat.simps) simp
  next
    case False
    with 1 show ?thesis by (subst str_nat.simps) simp
  qed
qed

lemma str_int_inj [simp]: "str_int m = str_int n \<longleftrightarrow> m = n"
proof
  assume eq: "str_int m = str_int n"
  have neg: "CHR ''-'' # s \<noteq> str_nat k" for s k
    using hd_str_nat [of k] by (metis list.sel(1))
  show "m = n"
    using eq neg neg [symmetric] by (auto simp: str_int_def split: if_splits)
qed simp

section \<open>Hexadecimal\<close>

definition hex_char :: "nat \<Rightarrow> char" where
  "hex_char n = char_of (if n < 10 then 48 + n else 87 + n)"

definition hex_of :: "bytes \<Rightarrow> string" where
  "hex_of bs = concat (map (\<lambda>b. [hex_char (unat b div 16), hex_char (unat b mod 16)]) bs)"

definition hex_val :: "char \<Rightarrow> nat option" where
  "hex_val c = (let n = of_char c in
     if 48 \<le> n \<and> n \<le> 57 then Some (n - 48)
     else if 97 \<le> n \<and> n \<le> 102 then Some (n - 87)
     else if 65 \<le> n \<and> n \<le> 70 then Some (n - 55)
     else None)"

definition is_space :: "char \<Rightarrow> bool" where
  "is_space c = (of_char c \<in> {9, 10, 11, 12, 13, 32 :: nat})"

text \<open>\<open>bytes.fromhex\<close>: both cases are read, white space between bytes is skipped, and
  anything else is a \<open>ValueError\<close> (\<open>None\<close>).\<close>

fun fromhex :: "string \<Rightarrow> bytes option" where
  "fromhex [] = Some []"
| "fromhex [c] = (if is_space c then Some [] else None)"
| "fromhex (c # d # cs) =
     (if is_space c then fromhex (d # cs)
      else case (hex_val c, hex_val d) of
        (Some a, Some b) \<Rightarrow> map_option (\<lambda>bs. word_of_nat (16 * a + b) # bs) (fromhex cs)
      | _ \<Rightarrow> None)"

lemma hex_val_hex_char: "n < 16 \<Longrightarrow> hex_val (hex_char n) = Some n"
  by (auto simp: hex_val_def hex_char_def Let_def)

lemma not_space_hex_char: "n < 16 \<Longrightarrow> \<not> is_space (hex_char n)"
  by (auto simp: is_space_def hex_char_def)

lemma hex_of_simps [simp]:
  "hex_of [] = []"
  "hex_of (b # bs) = hex_char (unat b div 16) # hex_char (unat b mod 16) # hex_of bs"
  by (simp_all add: hex_of_def)

lemma length_hex_of [simp]: "length (hex_of bs) = 2 * length bs"
  by (induction bs) simp_all

lemma fromhex_hex_of [simp]: "fromhex (hex_of bs) = Some bs"
proof (induction bs)
  case Nil
  then show ?case by simp
next
  case (Cons b bs)
  have "unat b div 16 < 16" using unat_byte [of b] by simp
  then show ?case using Cons
    by (simp add: hex_val_hex_char not_space_hex_char)
qed

lemma hex_of_eq_iff [simp]: "hex_of as = hex_of bs \<longleftrightarrow> as = bs"
  by (metis fromhex_hex_of option.inject)

section \<open>Dictionaries in insertion order\<close>

definition keys :: "('k \<times> 'v) list \<Rightarrow> 'k list" where
  "keys d = map fst d"

lemma keys_simps [simp]: "keys [] = []" "keys (p # d) = fst p # keys d"
  by (simp_all add: keys_def)

lemma keys_append [simp]: "keys (d @ e) = keys d @ keys e"
  by (simp add: keys_def)

lemma set_keys: "set (keys d) = dom (map_of d)"
  by (simp add: keys_def dom_map_of_conv_image_fst)

lemma distinct_keys_update: "distinct (keys d) \<Longrightarrow> distinct (keys (AList.update k v d))"
  by (simp add: keys_def distinct_update)

lemma map_of_update [simp]: "map_of (AList.update k v d) = (map_of d)(k \<mapsto> v)"
  by (simp add: update_conv')

lemma map_of_delete [simp]: "map_of (AList.delete k d) = (map_of d)(k := None)"
  by (simp add: delete_conv')

lemma distinct_keys_delete: "distinct (keys d) \<Longrightarrow> distinct (keys (AList.delete k d))"
  by (simp add: keys_def distinct_delete)

lemma update_fresh: "k \<notin> set (keys d) \<Longrightarrow> AList.update k v d = d @ [(k, v)]"
  by (induction d) auto

lemma set_update_subset: "set (AList.update k v d) \<subseteq> insert (k, v) (set d)"
  by (induction d) auto

lemma set_delete_subset: "set (AList.delete k d) \<subseteq> set d"
  by (induction d) auto

section \<open>Sorted lists of names\<close>

text \<open>\<open>sorted(set(xs))\<close>.\<close>

definition sorted_set :: "'a :: linorder list \<Rightarrow> 'a list" where
  "sorted_set xs = sort (remdups xs)"

lemma set_sorted_set [simp]: "set (sorted_set xs) = set xs"
  by (simp add: sorted_set_def)

lemma sorted_sorted_set [simp]: "sorted (sorted_set xs)"
  by (simp add: sorted_set_def)

lemma distinct_sorted_set [simp]: "distinct (sorted_set xs)"
  by (simp add: sorted_set_def)

lemma sorted_set_cong: "set xs = set ys \<Longrightarrow> sorted_set xs = sorted_set ys"
  by (rule sorted_distinct_set_unique) simp_all

lemma sorted_set_id: "sorted xs \<Longrightarrow> distinct xs \<Longrightarrow> sorted_set xs = xs"
  by (rule sorted_distinct_set_unique) simp_all

lemma length_sorted_set: "length (sorted_set xs) = card (set xs)"
  by (metis distinct_card distinct_sorted_set set_sorted_set)

section \<open>Positions\<close>

fun index_in :: "'a \<Rightarrow> 'a list \<Rightarrow> nat option" where
  "index_in x [] = None"
| "index_in x (y # ys) = (if x = y then Some 0 else map_option Suc (index_in x ys))"

lemma index_in_Some: "index_in x xs = Some k \<Longrightarrow> k < length xs \<and> xs ! k = x"
  by (induction xs arbitrary: k) (auto split: if_splits)

lemma index_in_mem: "x \<in> set xs \<Longrightarrow> \<exists>k. index_in x xs = Some k"
  by (induction xs) auto

section \<open>Blocks of one width\<close>

lemma concat_slot:
  assumes "\<forall>ys\<in>set xss. length ys = wd" "s < length xss"
  shows "take wd (drop (s * wd) (concat xss @ zs)) = xss ! s"
  using assms
proof (induction xss arbitrary: s)
  case (Cons ys xss)
  show ?case
  proof (cases s)
    case 0
    then show ?thesis using Cons.prems by simp
  next
    case (Suc s')
    then have "drop (s * wd) (concat (ys # xss) @ zs) = drop (s' * wd) (concat xss @ zs)" using Cons.prems by simp
    then show ?thesis using Cons Suc by simp
  qed
qed simp

lemma length_concat_uniform: "\<forall>ys\<in>set xss. length ys = wd \<Longrightarrow> length (concat xss) = length xss * wd"
  by (induction xss) auto

end
