(* ===== verification/Interfaces.thy ===== *)
theory Interfaces
  imports Prelude
begin

text \<open>
  The interfaces one component relies on and another provides. Each is a locale: the
  operations are its parameters, the laws the provider promises its assumptions, and what a
  client can conclude from them is proved inside it. The providers interpret them:
  \<open>Seal\<close> the tombstone set for the accumulator (used by the ledger), \<open>Params\<close> the quorum
  system (used by the certificates and the view change).
\<close>

section \<open>An append-and-tombstone set\<close>

text \<open>\<open>items\<close> are the values ever added, in order; \<open>gone\<close> the spent ones; \<open>kind\<close> is what the
  operations never change; \<open>cap\<close> bounds the number of values.\<close>

locale tomb_set =
  fixes ok :: "'s \<Rightarrow> bool" and items :: "'s \<Rightarrow> 'v list" and gone :: "'s \<Rightarrow> 'v set"
    and kind :: "'s \<Rightarrow> 'k" and cap :: nat
    and put :: "'v \<Rightarrow> 's \<Rightarrow> exn + 's" and spend :: "'v \<Rightarrow> 's \<Rightarrow> exn + 's"
    and unspend :: "'v \<Rightarrow> 's \<Rightarrow> exn + 's" and drop_last :: "nat \<Rightarrow> 's \<Rightarrow> exn + 's"
  assumes items_distinct: "ok a \<Longrightarrow> distinct (items a)"
    and gone_items: "ok a \<Longrightarrow> gone a \<subseteq> set (items a)"
    and put_law: "ok a \<Longrightarrow> v \<notin> set (items a) \<Longrightarrow> length (items a) + 1 < cap \<Longrightarrow>
      \<exists>b. put v a = Inr b \<and> ok b \<and> items b = items a @ [v] \<and> gone b = gone a \<and> kind b = kind a"
    and put_err: "ok a \<Longrightarrow> v \<in> set (items a) \<Longrightarrow> \<exists>e. put v a = Inl e"
    and spend_law: "ok a \<Longrightarrow> v \<in> set (items a) \<Longrightarrow> v \<notin> gone a \<Longrightarrow>
      \<exists>b. spend v a = Inr b \<and> ok b \<and> items b = items a \<and> gone b = insert v (gone a) \<and> kind b = kind a"
    and spend_err: "ok a \<Longrightarrow> v \<notin> set (items a) \<or> v \<in> gone a \<Longrightarrow> \<exists>e. spend v a = Inl e"
    and unspend_law: "ok a \<Longrightarrow> v \<in> gone a \<Longrightarrow>
      \<exists>b. unspend v a = Inr b \<and> ok b \<and> items b = items a \<and> gone b = gone a - {v} \<and> kind b = kind a"
    and drop_law: "ok a \<Longrightarrow> n \<le> length (items a) \<Longrightarrow>
      \<forall>v\<in>set (drop (length (items a) - n) (items a)). v \<notin> gone a \<Longrightarrow>
      \<exists>b. drop_last n a = Inr b \<and> ok b \<and> items b = take (length (items a) - n) (items a)
        \<and> gone b = gone a \<and> kind b = kind a"
begin

definition spend_all :: "'v list \<Rightarrow> 's \<Rightarrow> exn + 's" where
  "spend_all vs a = foldR (\<lambda>a v. spend v a) a vs"

definition put_all :: "'v list \<Rightarrow> 's \<Rightarrow> exn + 's" where
  "put_all vs a = foldR (\<lambda>a v. put v a) a vs"

definition unspend_all :: "'v list \<Rightarrow> 's \<Rightarrow> exn + 's" where
  "unspend_all vs a = foldR (\<lambda>a v. unspend v a) a vs"

lemma spend_all_ok:
  "ok a \<Longrightarrow> distinct vs \<Longrightarrow> set vs \<subseteq> set (items a) - gone a \<Longrightarrow>
    \<exists>b. spend_all vs a = Inr b \<and> ok b \<and> items b = items a \<and> gone b = gone a \<union> set vs \<and> kind b = kind a"
proof (induction vs arbitrary: a)
  case Nil
  then show ?case by (simp add: spend_all_def)
next
  case (Cons v vs)
  obtain b where b: "spend v a = Inr b" "ok b" "items b = items a" "gone b = insert v (gone a)" "kind b = kind a"
    using spend_law [OF Cons.prems(1), of v] Cons.prems(3) by auto
  have "set vs \<subseteq> set (items b) - gone b" using Cons.prems(2,3) b by auto
  with Cons.IH [OF b(2)] Cons.prems(2) b show ?case by (auto simp: spend_all_def)
qed

text \<open>A run of spends that succeeds spent distinct live values.\<close>

lemma spend_all_Inr:
  "ok a \<Longrightarrow> spend_all vs a = Inr b \<Longrightarrow> distinct vs \<and> set vs \<subseteq> set (items a) - gone a
    \<and> ok b \<and> items b = items a \<and> gone b = gone a \<union> set vs \<and> kind b = kind a"
proof (induction vs arbitrary: a)
  case Nil
  then show ?case by (simp add: spend_all_def)
next
  case (Cons v vs)
  from Cons.prems(2) obtain c where c: "spend v a = Inr c" "spend_all vs c = Inr b"
    by (auto simp: spend_all_def)
  have v: "v \<in> set (items a)" "v \<notin> gone a" using spend_err [OF Cons.prems(1)] c(1) by force+
  from spend_law [OF Cons.prems(1) v] c(1)
  have c': "ok c" "items c = items a" "gone c = insert v (gone a)" "kind c = kind a" by auto
  from Cons.IH [OF c'(1) c(2)] c' v show ?case by auto
qed

lemma put_all_ok:
  "ok a \<Longrightarrow> distinct vs \<Longrightarrow> set vs \<inter> set (items a) = {} \<Longrightarrow> length (items a) + length vs < cap \<Longrightarrow>
    \<exists>b. put_all vs a = Inr b \<and> ok b \<and> items b = items a @ vs \<and> gone b = gone a \<and> kind b = kind a"
proof (induction vs arbitrary: a)
  case Nil
  then show ?case by (simp add: put_all_def)
next
  case (Cons v vs)
  obtain b where b: "put v a = Inr b" "ok b" "items b = items a @ [v]" "gone b = gone a" "kind b = kind a"
    using put_law [OF Cons.prems(1), of v] Cons.prems(3,4) by auto
  have "set vs \<inter> set (items b) = {}" "length (items b) + length vs < cap"
    using Cons.prems(2-4) b by auto
  with Cons.IH [OF b(2)] Cons.prems(2) b show ?case by (auto simp: put_all_def)
qed

lemma put_all_Inr:
  "ok a \<Longrightarrow> put_all vs a = Inr b \<Longrightarrow> length (items a) + length vs < cap \<Longrightarrow>
    distinct vs \<and> set vs \<inter> set (items a) = {} \<and> ok b \<and> items b = items a @ vs \<and> gone b = gone a \<and> kind b = kind a"
proof (induction vs arbitrary: a)
  case Nil
  then show ?case by (simp add: put_all_def)
next
  case (Cons v vs)
  from Cons.prems(2) obtain c where c: "put v a = Inr c" "put_all vs c = Inr b"
    by (auto simp: put_all_def)
  have v: "v \<notin> set (items a)" using put_err [OF Cons.prems(1)] c(1) by force
  from put_law [OF Cons.prems(1) v] c(1) Cons.prems(3)
  have c': "ok c" "items c = items a @ [v]" "gone c = gone a" "kind c = kind a" by auto
  from Cons.IH [OF c'(1) c(2)] c' v Cons.prems(3) show ?case by auto
qed

lemma unspend_all_ok:
  "ok a \<Longrightarrow> distinct vs \<Longrightarrow> set vs \<subseteq> gone a \<Longrightarrow>
    \<exists>b. unspend_all vs a = Inr b \<and> ok b \<and> items b = items a \<and> gone b = gone a - set vs \<and> kind b = kind a"
proof (induction vs arbitrary: a)
  case Nil
  then show ?case by (simp add: unspend_all_def)
next
  case (Cons v vs)
  obtain b where b: "unspend v a = Inr b" "ok b" "items b = items a" "gone b = gone a - {v}" "kind b = kind a"
    using unspend_law [OF Cons.prems(1), of v] Cons.prems(3) by auto
  have "set vs \<subseteq> gone b" using Cons.prems(2,3) b by auto
  with Cons.IH [OF b(2)] Cons.prems(2) b show ?case by (auto simp: unspend_all_def)
qed

text \<open>Spending, appending, then dropping the tail and unspending restores the set.\<close>

lemma apply_then_undo:
  assumes "ok a" "spend_all spent a = Inr b" "put_all created b = Inr c" "length (items a) + length created < cap"
  shows "\<exists>d e. drop_last (length created) c = Inr d \<and> unspend_all spent d = Inr e
    \<and> ok e \<and> items e = items a \<and> gone e = gone a \<and> kind e = kind a"
proof -
  note b = spend_all_Inr [OF assms(1,2)]
  have okb: "ok b" and room: "length (items b) + length created < cap" using b assms(4) by auto
  note c = put_all_Inr [OF okb assms(3) room]
  have okc: "ok c" using c by blast
  have "\<forall>v\<in>set (drop (length (items c) - length created) (items c)). v \<notin> gone c"
    using c gone_items [OF okb] by auto
  then obtain d where d: "drop_last (length created) c = Inr d" "ok d" "items d = items a" "gone d = gone b" "kind d = kind a"
    using drop_law [OF okc, of "length created"] b c by auto
  have "set spent \<subseteq> gone d" using b d by auto
  then obtain e where e: "unspend_all spent d = Inr e" "ok e" "items e = items d" "gone e = gone d - set spent" "kind e = kind d"
    using unspend_all_ok [OF d(2)] b by blast
  moreover have "gone d - set spent = gone a" using b d by auto
  ultimately show ?thesis using d by auto
qed

end

section \<open>Quorums\<close>

text \<open>\<open>quorum n\<close> members of \<open>n\<close> decide while at most \<open>faults n\<close> of them misbehave.\<close>

locale quorum_system =
  fixes quorum :: "nat \<Rightarrow> nat" and faults :: "nat \<Rightarrow> nat"
  assumes overlap: "0 < n \<Longrightarrow> n + faults n < 2 * quorum n"
begin

lemma honest_overlap:
  assumes "finite V" "Q \<subseteq> V" "R \<subseteq> V" "quorum (card V) \<le> card Q" "quorum (card V) \<le> card R"
    and "0 < card V" "card F \<le> faults (card V)" "finite F"
  shows "\<exists>x. x \<in> Q \<and> x \<in> R \<and> x \<notin> F"
proof -
  have fin: "finite Q" "finite R" using assms(1-3) finite_subset by blast+
  have "card (Q \<union> R) \<le> card V" using assms(1-3) by (intro card_mono) auto
  moreover have "card (Q \<union> R) + card (Q \<inter> R) = card Q + card R" by (rule card_Un_Int [OF fin, symmetric])
  ultimately have "card F < card (Q \<inter> R)" using overlap [OF assms(6)] assms(4,5,7) by linarith
  then have "\<not> Q \<inter> R \<subseteq> F" using card_mono [OF assms(8)] by (meson not_le)
  then show ?thesis by blast
qed

text \<open>Two quorums have a member in common.\<close>

lemma quorums_meet:
  assumes "finite V" "Q \<subseteq> V" "R \<subseteq> V" "quorum (card V) \<le> card Q" "quorum (card V) \<le> card R" "0 < card V"
  shows "Q \<inter> R \<noteq> {}"
  using honest_overlap [OF assms, of "{}"] by auto

end

end
