(* ===== verification/Crypto.thy ===== *)
theory Crypto
  imports Prelude
begin

text \<open>
  Hashing and signature checks: \<open>chain/crypto.py\<close>.

  The hash functions of \<open>hashlib\<close> and the Ed25519 check of the \<open>cryptography\<close> package are
  the fields of \<open>prims\<close>, an argument of every definition that hashes. No law is assumed of
  them, so a theorem holds for every choice; where collision resistance matters, the
  theorem names the two inputs the code hashed and says that they collide.

  \<open>encode_part\<close> keeps the tags of the source and the way it nests lists, and the first group
  of lemmas shows that the byte string fed to SHAKE-256 determines the tag and the parts.
  A part of $2^{32}$ bytes or more makes \<open>to_bytes(4, "big")\<close> raise \<open>OverflowError\<close>, which is
  the \<open>Inl\<close> branch of \<open>h_bytes\<close>; \<open>h_hex\<close>, which the other theories use inside pure
  formulas, reads that one branch as the empty string, and no digest is empty.
\<close>

record prims =
  shake256 :: "bytes \<Rightarrow> nat \<Rightarrow> bytes"
  shake128 :: "bytes \<Rightarrow> nat \<Rightarrow> bytes"
  sha256 :: "bytes \<Rightarrow> bytes"
  ed_verify :: "bytes \<Rightarrow> bytes \<Rightarrow> bytes \<Rightarrow> bool"

datatype part =
    PBytes bytes
  | PBool bool
  | PInt int
  | PStr string
  | PList "part list"
  | PNone

definition chain_domain :: string where
  "chain_domain = ''fin6-chain-v1''"

text \<open>\<open>mq.ms6.P\<close>, the field prime.\<close>

definition field_P :: int where
  "field_P = 2 ^ 255 - 19"

section \<open>The encoding\<close>

definition len_prefixed :: "bytes \<Rightarrow> exn + bytes" where
  "len_prefixed b = (if length b < 256 ^ 4 then Inr (be_bytes 4 (length b) @ b)
                     else Inl OverflowError)"

text \<open>\<open>b"".join(_len_prefixed(e) for e in es)\<close>, the first exception winning.\<close>

fun join_prefixed :: "(exn + bytes) list \<Rightarrow> exn + bytes" where
  "join_prefixed [] = Inr []"
| "join_prefixed (r # rs) =
     bindR r (\<lambda>e. bindR (len_prefixed e) (\<lambda>b. bindR (join_prefixed rs) (\<lambda>bs. Inr (b @ bs))))"

fun encode_part :: "part \<Rightarrow> exn + bytes" where
  "encode_part (PBytes b) = Inr (str_bytes ''b'' @ b)"
| "encode_part (PBool b) = Inr (str_bytes ''o'' @ str_bytes (if b then ''1'' else ''0''))"
| "encode_part (PInt n) = Inr (str_bytes ''i'' @ str_bytes (str_int n))"
| "encode_part (PStr s) = Inr (str_bytes ''s'' @ str_bytes s)"
| "encode_part (PList ps) =
     bindR (join_prefixed (map encode_part ps)) (\<lambda>inner. Inr (str_bytes ''l'' @ inner))"
| "encode_part PNone = Inr (str_bytes ''n'')"

text \<open>What the hash object has been fed when \<open>digest\<close> is called.\<close>

definition h_preimage :: "string \<Rightarrow> part list \<Rightarrow> exn + bytes" where
  "h_preimage tag parts =
     bindR (len_prefixed (str_bytes (chain_domain @ '':'' @ tag))) (\<lambda>d.
     bindR (join_prefixed (map encode_part parts)) (\<lambda>ps. Inr (d @ ps)))"

definition h_bytes :: "prims \<Rightarrow> string \<Rightarrow> part list \<Rightarrow> nat \<Rightarrow> exn + bytes" where
  "h_bytes P tag parts len = bindR (h_preimage tag parts) (\<lambda>b. Inr (shake256 P b len))"

definition h_hex :: "prims \<Rightarrow> string \<Rightarrow> part list \<Rightarrow> string" where
  "h_hex P tag parts = (case h_bytes P tag parts 32 of Inr d \<Rightarrow> hex_of d | Inl _ \<Rightarrow> [])"

definition h_field :: "prims \<Rightarrow> string \<Rightarrow> part list \<Rightarrow> exn + int" where
  "h_field P tag parts = bindR (h_bytes P tag parts 48) (\<lambda>d. Inr (int (be_nat d) mod field_P))"

text \<open>\<open>verify_sig\<close>: a malformed hex string is the \<open>ValueError\<close> branch; a key or signature of
  the wrong length is refused inside the library call.\<close>

definition verify_sig :: "prims \<Rightarrow> string \<Rightarrow> bytes \<Rightarrow> string \<Rightarrow> bool" where
  "verify_sig P public_hex message signature_hex =
     (case fromhex public_hex of
        None \<Rightarrow> False
      | Some pk \<Rightarrow> (case fromhex signature_hex of
          None \<Rightarrow> False
        | Some sig \<Rightarrow> ed_verify P pk sig message))"

text \<open>A signature over a message \<open>h_bytes\<close> makes. The message of a part of $2^{32}$ bytes or more
  is the \<open>OverflowError\<close> branch, and nothing verifies under it.\<close>

definition verify_msg :: "prims \<Rightarrow> string \<Rightarrow> exn + bytes \<Rightarrow> string \<Rightarrow> bool" where
  "verify_msg P public_hex message signature_hex =
     (case message of Inl _ \<Rightarrow> False | Inr m \<Rightarrow> verify_sig P public_hex m signature_hex)"

definition owner_field :: "prims \<Rightarrow> string \<Rightarrow> exn + int" where
  "owner_field P public_hex = h_field P ''owner'' [PStr public_hex]"

definition seed_from_phrase :: "prims \<Rightarrow> string \<Rightarrow> exn + bytes" where
  "seed_from_phrase P phrase = h_bytes P ''wallet-seed'' [PStr phrase] 32"

definition spend_label :: "bytes \<Rightarrow> nat \<Rightarrow> string" where
  "spend_label seed index =
     (let tag = ''wallet-spend:'' @ hex_of seed
      in if index = 0 then tag else tag @ ''/'' @ str_nat index)"

definition seed_key_bytes :: "prims \<Rightarrow> string \<Rightarrow> bytes" where
  "seed_key_bytes P seed = shake256 P (str_bytes (chain_domain @ '':seed:'' @ seed)) 32"

section \<open>The preimage determines the tag and the parts\<close>

lemma len_prefixed_Inr [simp]:
  "len_prefixed b = Inr x \<longleftrightarrow> length b < 256 ^ 4 \<and> x = be_bytes 4 (length b) @ b"
  by (auto simp: len_prefixed_def)

lemma be_bytes_append_inj:
  assumes "be_bytes 4 (length a) @ a @ s = be_bytes 4 (length b) @ b @ t"
    and "length a < 256 ^ 4" "length b < 256 ^ 4"
  shows "a = b \<and> s = t"
proof -
  from assms(1) have eq: "be_bytes 4 (length a) = be_bytes 4 (length b)" "a @ s = b @ t"
    by auto
  from eq(1) assms(2,3) have "length a = length b" by (rule be_bytes_inj)
  with eq(2) show ?thesis by simp
qed

lemma join_prefixed_Inr_inj:
  "join_prefixed rs = Inr x \<Longrightarrow> join_prefixed qs = Inr x \<Longrightarrow> rs = qs"
proof (induction rs arbitrary: qs x)
  case Nil
  have "be_bytes 4 n \<noteq> []" for n
    by (metis length_be_bytes list.size(3) zero_neq_numeral)
  with Nil show ?case by (cases qs) auto
next
  case (Cons r rs)
  from Cons.prems(1) obtain e bs where r: "r = Inr e" "length e < 256 ^ 4"
      "join_prefixed rs = Inr bs" "x = be_bytes 4 (length e) @ e @ bs"
    by auto
  show ?case
  proof (cases qs)
    case Nil
    with Cons.prems(2) r(4) show ?thesis
      by (metis append_is_Nil_conv join_prefixed.simps(1) length_be_bytes list.size(3)
          sum.inject(2) zero_neq_numeral)
  next
    case (Cons q qs')
    from Cons.prems(2)[unfolded Cons] obtain e' bs' where q: "q = Inr e'" "length e' < 256 ^ 4"
        "join_prefixed qs' = Inr bs'" "x = be_bytes 4 (length e') @ e' @ bs'"
      by auto
    have "e = e' \<and> bs = bs'"
      using r(2,4) q(2,4) by (intro be_bytes_append_inj) auto
    with Cons.IH r(3) q(3) show ?thesis using Cons r(1) q(1) by auto
  qed
qed

lemma encode_part_inj: "encode_part p = Inr x \<Longrightarrow> encode_part q = Inr x \<Longrightarrow> p = q"
proof (induction p arbitrary: q x)
  case (PList ps)
  from PList.prems(1) obtain inner where i: "join_prefixed (map encode_part ps) = Inr inner"
      "x = str_bytes ''l'' @ inner" by auto
  from PList.prems(2) i(2) obtain qs where q: "q = PList qs"
    by (cases q) (auto simp: byte_of_char_def)
  with PList.prems(2) i(2) have "join_prefixed (map encode_part qs) = Inr inner" by auto
  with i(1) have eq: "map encode_part ps = map encode_part qs"
    by (rule join_prefixed_Inr_inj)
  have "\<forall>p\<in>set ps. \<exists>y. encode_part p = Inr y"
    using i(1)
  proof (induction ps arbitrary: inner)
    case (Cons a ps)
    then show ?case by auto
  qed simp
  with eq PList.IH have "ps = qs"
    by (auto intro!: list_eq_iff_nth_eq [THEN iffD2] simp: list_eq_iff_nth_eq)
       (metis nth_mem)
  with q show ?case by simp
qed (case_tac q; force simp: byte_of_char_def split: if_splits)+

lemma map_encode_part_inj:
  assumes "join_prefixed (map encode_part ps) = Inr x" "join_prefixed (map encode_part qs) = Inr x"
  shows "ps = qs"
proof -
  have "encode_part (PList ps) = Inr (str_bytes ''l'' @ x)"
       "encode_part (PList qs) = Inr (str_bytes ''l'' @ x)"
    using assms by auto
  then have "PList ps = PList qs" by (rule encode_part_inj)
  then show ?thesis by simp
qed

lemma h_preimage_inj:
  assumes "h_preimage tag parts = Inr x" "h_preimage tag' parts' = Inr x"
  shows "tag = tag' \<and> parts = parts'"
proof -
  let ?d = "\<lambda>t. str_bytes (chain_domain @ '':'' @ t)"
  from assms obtain ps ps' where
    ps: "join_prefixed (map encode_part parts) = Inr ps"
        "x = be_bytes 4 (length (?d tag)) @ ?d tag @ ps" "length (?d tag) < 256 ^ 4" and
    ps': "join_prefixed (map encode_part parts') = Inr ps'"
        "x = be_bytes 4 (length (?d tag')) @ ?d tag' @ ps'" "length (?d tag') < 256 ^ 4"
    unfolding h_preimage_def by auto
  have "?d tag = ?d tag' \<and> ps = ps'"
    using ps(2,3) ps'(2,3) by (intro be_bytes_append_inj) auto
  then show ?thesis
    using map_encode_part_inj [of parts ps parts'] ps(1) ps'(1) by auto
qed

text \<open>Two equal hashes have equal tags and parts, or their two preimages collide.\<close>

lemma h_bytes_eq_cases:
  assumes "h_bytes P tag parts len = Inr d" "h_bytes P tag' parts' len = Inr d"
  shows "tag = tag' \<and> parts = parts' \<or>
    (\<exists>x y. h_preimage tag parts = Inr x \<and> h_preimage tag' parts' = Inr y \<and> x \<noteq> y \<and>
       shake256 P x len = shake256 P y len)"
proof -
  from assms obtain x y where
    xy: "h_preimage tag parts = Inr x" "shake256 P x len = d"
        "h_preimage tag' parts' = Inr y" "shake256 P y len = d"
    by (auto simp: h_bytes_def)
  show ?thesis
  proof (cases "x = y")
    case True
    then show ?thesis using h_preimage_inj xy(1,3) by blast
  next
    case False
    then show ?thesis using xy by auto
  qed
qed

lemma h_hex_eq:
  assumes "h_preimage tag parts = Inr x"
  shows "h_hex P tag parts = hex_of (shake256 P x 32)"
  using assms by (simp add: h_hex_def h_bytes_def)

section \<open>A sample of the primitives\<close>

text \<open>A choice of the primitives with the documented digest lengths, for the witnesses: every
  hash is the input cut or padded to length, and a signature is valid when it repeats the key.\<close>

definition pad_to :: "nat \<Rightarrow> bytes \<Rightarrow> bytes" where
  "pad_to n x = take n (x @ replicate n 0)"

definition sample_prims :: prims where
  "sample_prims = \<lparr>shake256 = (\<lambda>x n. pad_to n x), shake128 = (\<lambda>x n. pad_to n x),
     sha256 = (\<lambda>x. pad_to 32 x), ed_verify = (\<lambda>pk sig m. pk = sig)\<rparr>"

lemma length_pad_to [simp]: "length (pad_to n x) = n"
  by (simp add: pad_to_def)

text \<open>A choice of the primitives whose digests depend on the length of the input.\<close>

definition len_prims :: prims where
  "len_prims = sample_prims\<lparr>shake256 := (\<lambda>x n. be_bytes n (length x))\<rparr>"

lemma len_verify: "verify_msg len_prims ''00'' m ''00'' = (\<exists>x. m = Inr x)"
proof -
  have "fromhex ''00'' = Some [0]" by code_simp
  then show ?thesis by (auto simp: verify_msg_def verify_sig_def len_prims_def sample_prims_def split: sum.splits)
qed

section \<open>Properties\<close>

text \<open>Domain-separated hashing is unambiguous. Whatever tags and parts two calls of
  \<open>h_bytes\<close> are given, nested lists included, equal digests mean equal tags and equal parts, or
  the two byte strings the calls fed to SHAKE-256 are different and collide.\<close>

theorem h_bytes_unambiguous:
  assumes "h_bytes P tag parts n = Inr d" and "h_bytes P tag' parts' n = Inr d"
  shows "tag = tag' \<and> parts = parts' \<or>
    (\<exists>x y. h_preimage tag parts = Inr x \<and> h_preimage tag' parts' = Inr y \<and> x \<noteq> y \<and>
       shake256 P x n = shake256 P y n)"
  by (rule h_bytes_eq_cases [OF assms])

lemma h_bytes_sample:
  "h_bytes sample_prims ''t'' [PInt (- 5), PStr ''a''] 4 = Inr (be_bytes 4 (length (chain_domain @ '':t'')))"
  by (simp add: h_bytes_def h_preimage_def len_prefixed_def chain_domain_def sample_prims_def
      pad_to_def str_int_def str_nat.simps digit_char_def)

theorem h_bytes_unambiguous_witness:
  "(''t'' = ''t'' \<and> [PInt (- 5), PStr ''a''] = [PInt (- 5), PStr ''a'']) \<or>
    (\<exists>x y. h_preimage ''t'' [PInt (- 5), PStr ''a''] = Inr x \<and> h_preimage ''t'' [PInt (- 5), PStr ''a''] = Inr y \<and> x \<noteq> y \<and>
       shake256 sample_prims x 4 = shake256 sample_prims y 4)"
  by (rule h_bytes_unambiguous [OF h_bytes_sample h_bytes_sample])

end
