(* ===== verification/Params.thy ===== *)
theory Params
  imports Interfaces
begin

text \<open>
  \<open>chain/params.py\<close>: the parameter record, its construction check, the quorum size and the
  launch assessment, with the presets. The lemmas relate the assessment to what it is for: a
  set of parameters without problems has quorums that overlap in a third of the seats, which is
  the law of the interface \<open>quorum_system\<close>.
\<close>

definition NOTE_VALUE :: nat where "NOTE_VALUE = 0"
definition NOTE_ASSET :: nat where "NOTE_ASSET = 1"
definition NOTE_OWNER :: nat where "NOTE_OWNER = 2"
definition NOTE_RHO :: nat where "NOTE_RHO = 3"
definition NOTE_FIXED_COORDS :: int where "NOTE_FIXED_COORDS = 4"
definition BLINDERS_128 :: int where "BLINDERS_128 = 62"
definition RECOMMENDED_FOLDS :: int where "RECOMMENDED_FOLDS = 2"
definition GROEBNER_FLOOR :: int where "GROEBNER_FLOOR = 16"
definition RANGE_FLOOR :: int where "RANGE_FLOOR = 16"
definition RANGE_COMFORTABLE :: int where "RANGE_COMFORTABLE = 32"
definition SOUNDNESS_BITS :: int where "SOUNDNESS_BITS = 80"

record chain_params =
  name :: string
  n_note :: int
  note_folds :: int
  range_bits :: int
  zk_rounds :: int
  seal_d :: nat
  security_bits :: int
  proof_backends :: "string list"
  default_backend :: string
  attend_threshold :: int
  founding_cohort :: int
  forgiveness :: int
  admit_num :: int
  admit_den :: int
  chain_id :: string
  row_size :: int
  grid_size :: int
  quorum_num :: int
  quorum_den :: int
  proof_policy :: "(nat \<times> string) list"

definition DEMO :: chain_params where
  "DEMO = \<lparr>name = ''demo'', n_note = 8, note_folds = 4, range_bits = 12, zk_rounds = 80,
     seal_d = 8, security_bits = 80, proof_backends = [''mpcith'', ''ssh5'', ''ssh3''],
     default_backend = ''ssh5'', attend_threshold = 40, founding_cohort = 4, forgiveness = 0,
     admit_num = 1, admit_den = 4, chain_id = ''fin6-private-v1'', row_size = 5, grid_size = 5,
     quorum_num = 2, quorum_den = 3,
     proof_policy = [(0, ''mpcith''), (1, ''ssh5''), (2, ''ssh3'')]\<rparr>"

definition NO_MPCITH :: chain_params where
  "NO_MPCITH = DEMO\<lparr>name := ''no-mpcith'', proof_backends := [''ssh5'', ''ssh3''],
     proof_policy := [(0, ''ssh5''), (1, ''ssh5''), (2, ''ssh3'')]\<rparr>"

definition STRONG :: chain_params where
  "STRONG = DEMO\<lparr>name := ''strong'', n_note := 48, note_folds := 8, range_bits := 32,
     zk_rounds := 80, row_size := 8\<rparr>"

definition LOCAL :: chain_params where
  "LOCAL = DEMO\<lparr>name := ''local'', proof_backends := [''mpcith''], default_backend := ''mpcith'',
     proof_policy := [(0, ''mpcith''), (1, ''mpcith''), (2, ''mpcith'')],
     attend_threshold := 3, grid_size := 7, row_size := 5\<rparr>"

definition LAUNCH :: chain_params where
  "LAUNCH = DEMO\<lparr>name := ''launch'', n_note := NOTE_FIXED_COORDS + BLINDERS_128,
     note_folds := RECOMMENDED_FOLDS, range_bits := 48, zk_rounds := 80,
     proof_backends := [''mpcith''], default_backend := ''mpcith'',
     proof_policy := [(0, ''mpcith''), (1, ''mpcith''), (2, ''mpcith'')],
     grid_size := 7, row_size := 5\<rparr>"

text \<open>\<open>__post_init__\<close>: the construction raises unless this holds.\<close>

definition params_init :: "chain_params \<Rightarrow> exn + chain_params" where
  "params_init c =
     (if n_note c \<le> NOTE_FIXED_COORDS then Inl ValueError
      else if range_bits c < 1 then Inl ValueError
      else if row_size c < 2 then Inl ValueError
      else if \<not> (0 < quorum_num c \<and> quorum_num c \<le> quorum_den c) then Inl ValueError
      else if admit_num c \<le> 0 \<or> admit_den c \<le> 0 then Inl ValueError
      else Inr c)"

definition note_blinders :: "chain_params \<Rightarrow> int" where
  "note_blinders c = n_note c - NOTE_FIXED_COORDS"

definition max_value :: "chain_params \<Rightarrow> int" where
  "max_value c = 2 ^ nat (range_bits c)"

text \<open>\<open>dict(pairs)\<close> keeps the last pair of a key.\<close>

definition dict_of :: "('k \<times> 'v) list \<Rightarrow> 'k \<Rightarrow> 'v option" where
  "dict_of ps = foldl (\<lambda>m (k, v). m(k \<mapsto> v)) Map.empty ps"

definition backend_for :: "chain_params \<Rightarrow> nat \<Rightarrow> exn + string" where
  "backend_for c tier =
     (case dict_of (proof_policy c) tier of None \<Rightarrow> Inl KeyError | Some b \<Rightarrow> Inr b)"

definition quorum_size :: "chain_params \<Rightarrow> int \<Rightarrow> int" where
  "quorum_size c n_nodes = - (- (n_nodes * quorum_num c) div quorum_den c)"

datatype problem =
    GroebnerRange int
  | RangeTooSmall int
  | FewRounds int
  | FewSecurityBits int
  | DefaultBackendMissing string
  | NoBackendForTier nat
  | UnprovenBackend nat string
  | QuorumBelowTwoThirds
  | NoAttendance

datatype caveat =
    FewBlinders int
  | ManyFolds int
  | RangeModest int
  | SpareBackends "string list"
  | SmallCohort int
  | FastAdmission

definition assess :: "chain_params \<Rightarrow> int \<Rightarrow> problem list \<times> caveat list" where
  "assess c tiers =
     (let k = note_blinders c;
          policy = dict_of (proof_policy c);
          needed = [0..<nat (max 1 tiers)];
          spare = filter (\<lambda>b. \<not> list_ex (\<lambda>t. policy t = Some b) needed) (proof_backends c)
      in ((if k < GROEBNER_FLOOR then [GroebnerRange k] else [])
          @ (if range_bits c < RANGE_FLOOR then [RangeTooSmall (range_bits c)] else [])
          @ (if zk_rounds c < SOUNDNESS_BITS then [FewRounds (zk_rounds c)] else [])
          @ (if security_bits c < SOUNDNESS_BITS then [FewSecurityBits (security_bits c)] else [])
          @ (if default_backend c \<notin> set (proof_backends c)
             then [DefaultBackendMissing (default_backend c)] else [])
          @ concat (map (\<lambda>tier. case policy tier of
                 None \<Rightarrow> [NoBackendForTier tier]
               | Some b \<Rightarrow> if b \<notin> set (proof_backends c) then [UnprovenBackend tier b] else []) needed)
          @ (if quorum_num c * 3 < quorum_den c * 2 then [QuorumBelowTwoThirds] else [])
          @ (if attend_threshold c < 1 then [NoAttendance] else []),
          (if \<not> k < GROEBNER_FLOOR \<and> k < BLINDERS_128 then [FewBlinders k] else [])
          @ (if RECOMMENDED_FOLDS < note_folds c then [ManyFolds (note_folds c)] else [])
          @ (if \<not> range_bits c < RANGE_FLOOR \<and> range_bits c < RANGE_COMFORTABLE
             then [RangeModest (range_bits c)] else [])
          @ (if spare \<noteq> [] then [SpareBackends (sorted_set spare)] else [])
          @ (if founding_cohort c < 4 then [SmallCohort (founding_cohort c)] else [])
          @ (if admit_den c < admit_num c * 2 then [FastAdmission] else [])))"

definition launchable :: "chain_params \<Rightarrow> int \<Rightarrow> bool" where
  "launchable c tiers = (fst (assess c tiers) = [])"

section \<open>What the assessment is for\<close>

lemma quorum_size_ceil:
  assumes "0 < quorum_den c"
  shows "quorum_num c * n \<le> quorum_size c n * quorum_den c"
    and "(quorum_size c n - 1) * quorum_den c < quorum_num c * n"
proof -
  let ?a = "- (n * quorum_num c)" and ?d = "quorum_den c"
  obtain q r where q: "q = ?a div ?d" "r = ?a mod ?d" by blast
  have "q * ?d + r = ?a" unfolding q by (rule div_mult_mod_eq)
  moreover have "0 \<le> r" "r < ?d" unfolding q using assms by simp_all
  moreover have "quorum_size c n = - q" by (simp add: quorum_size_def q)
  ultimately show "quorum_num c * n \<le> quorum_size c n * quorum_den c"
    "(quorum_size c n - 1) * quorum_den c < quorum_num c * n"
    by (simp_all add: algebra_simps)
qed

lemma quorum_size_bounds:
  assumes "params_init c = Inr c" "0 \<le> n"
  shows "0 \<le> quorum_size c n" "quorum_size c n \<le> n" "0 < n \<Longrightarrow> 0 < quorum_size c n"
proof -
  have d: "0 < quorum_den c" "0 < quorum_num c" "quorum_num c \<le> quorum_den c"
    using assms(1) by (auto simp: params_init_def split: if_splits)
  note q = quorum_size_ceil [OF d(1), of n]
  have "quorum_num c * n \<le> quorum_den c * n" using d assms(2) by (simp add: mult_right_mono)
  then have "(quorum_size c n - 1) * quorum_den c < n * quorum_den c" using q(2) by (simp add: mult.commute)
  then show "quorum_size c n \<le> n" using d(1) by simp
  have "0 \<le> quorum_num c * n" using d(2) assms(2) by simp
  then have "0 \<le> quorum_size c n * quorum_den c" using q(1) by linarith
  then show "0 \<le> quorum_size c n" using d(1) by (simp add: zero_le_mult_iff)
  assume "0 < n"
  then have "0 < quorum_num c * n" using d(2) by simp
  then have "0 < quorum_size c n * quorum_den c" using q(1) by linarith
  then show "0 < quorum_size c n" using d(1) by (simp add: zero_less_mult_iff)
qed

text \<open>Two thirds: twice the quorum exceeds the seats by at least a third of them.\<close>

lemma launchable_two_thirds:
  assumes "launchable c tiers" "0 < quorum_den c" "0 \<le> n"
  shows "2 * n \<le> 3 * quorum_size c n"
proof -
  have "quorum_den c * 2 \<le> quorum_num c * 3"
    using assms(1) by (auto simp: launchable_def assess_def Let_def split: if_splits)
  then have "quorum_den c * 2 * n \<le> quorum_num c * 3 * n" using assms(3) by (rule mult_right_mono)
  also have "\<dots> \<le> 3 * (quorum_size c n * quorum_den c)"
    using quorum_size_ceil(1) [OF assms(2), of n] by (simp add: algebra_simps)
  finally have "(2 * n) * quorum_den c \<le> (3 * quorum_size c n) * quorum_den c" by (simp add: algebra_simps)
  then show ?thesis using assms(2) by simp
qed

section \<open>Properties\<close>

text \<open>The launch assessment rules out split brains. For parameters that assess without a
  problem, any two sets of attesters of quorum size among \<open>n\<close> seats share at least a third of
  the seats, so they share an honest one while fewer than a third are faulty.\<close>

theorem launchable_quorums_overlap:
  assumes "launchable c tiers" "0 < quorum_den c" "finite seats"
    "A \<subseteq> seats" "B \<subseteq> seats"
    "quorum_size c (int (card seats)) \<le> int (card A)" "quorum_size c (int (card seats)) \<le> int (card B)"
  shows "int (card seats) \<le> 3 * int (card (A \<inter> B))"
proof -
  have fin: "finite A" "finite B" using assms(3-5) finite_subset by blast+
  have "card (A \<union> B) \<le> card seats" using assms(3-5) by (simp add: card_mono)
  moreover have "card A + card B = card (A \<union> B) + card (A \<inter> B)" using fin by (rule card_Un_Int)
  ultimately have "int (card A) + int (card B) \<le> int (card seats) + int (card (A \<inter> B))" by linarith
  moreover have "2 * int (card seats) \<le> 3 * quorum_size c (int (card seats))"
    using launchable_two_thirds [OF assms(1,2)] by simp
  ultimately show ?thesis using assms(6,7) by linarith
qed

lemma LAUNCH_launchable: "launchable LAUNCH 1"
  by (simp add: launchable_def assess_def LAUNCH_def DEMO_def note_blinders_def NOTE_FIXED_COORDS_def
      BLINDERS_128_def RECOMMENDED_FOLDS_def GROEBNER_FLOOR_def RANGE_FLOOR_def RANGE_COMFORTABLE_def
      SOUNDNESS_BITS_def dict_of_def Let_def)

lemma launch_quorum_system:
  assumes "launchable c tiers" "0 < quorum_den c"
  shows "quorum_system (\<lambda>n. nat (quorum_size c (int n))) (\<lambda>n. (n - 1) div 3)"
proof
  fix n :: nat assume "0 < n"
  then show "n + (n - 1) div 3 < 2 * nat (quorum_size c (int n))"
    using launchable_two_thirds [OF assms, of "int n"] by linarith
qed

interpretation launch_quorum: quorum_system "\<lambda>n. nat (quorum_size LAUNCH (int n))" "\<lambda>n. (n - 1) div 3"
  by (rule launch_quorum_system [OF LAUNCH_launchable]) (simp add: LAUNCH_def DEMO_def)

theorem launchable_quorums_overlap_witness:
  "int (card {0 ..< 7 :: nat}) \<le> 3 * int (card ({0 ..< 5} \<inter> {2 ..< 7 :: nat}))"
  by (rule launchable_quorums_overlap [OF LAUNCH_launchable])
    (auto simp: LAUNCH_def DEMO_def quorum_size_def)

lemma DEMO_not_launchable: "\<not> launchable DEMO 1"
  by (simp add: launchable_def assess_def DEMO_def note_blinders_def NOTE_FIXED_COORDS_def
      GROEBNER_FLOOR_def Let_def)

end
