(* ===== verification/SealTree.thy ===== *)
theory SealTree
  imports Crypto
begin

text \<open>
  The seal tree of \<open>mq/ms6/core.py\<close> (\<open>_seal_hash\<close> to \<open>_SealTree\<close>) and the parts of
  \<open>mq/ms6/utils6.py\<close> it calls. A leaf is a 78-digit string. A group of at most \<open>sbs\<close> leaves
  is summarised by the number of times each digit occurs in each column, and folded into one
  number of the field; the numbers are hashed again and grouped again until one is left.

  \<open>build\<close> makes the whole tree at once; \<open>append_leaf\<close> and \<open>update_leaf\<close> change the counts on
  one path. The main lemma group shows that both leave exactly the tree \<open>build\<close> would have
  made from the changed leaves, and that the root of one group does not depend on the order
  of its leaves. The mixed last level of the source (one unhashed integer) is kept apart as
  \<open>top_cnt\<close> and \<open>top_raw\<close>; \<open>inner\<close> holds the levels between the leaves and it.
\<close>

record sparams =
  chunk_size :: nat
  fold_d :: nat
  seal_mod :: nat
  sbs :: nat

definition default_sparams :: sparams where
  "default_sparams = \<lparr>chunk_size = 100, fold_d = 8, seal_mod = 2 ^ 255 - 19, sbs = 1000\<rparr>"

section \<open>Leaf hashes and their rows\<close>

definition zfill :: "nat \<Rightarrow> string \<Rightarrow> string" where
  "zfill n s = replicate (n - length s) (CHR ''0'') @ s"

definition DOMAIN_HASH_BYTES :: nat where
  "DOMAIN_HASH_BYTES = 32"

definition DOMAIN_HASH_DIGITS :: nat where
  "DOMAIN_HASH_DIGITS = length (str_nat (256 ^ DOMAIN_HASH_BYTES - 1))"

definition domain_hash :: "prims \<Rightarrow> bytes \<Rightarrow> string" where
  "domain_hash P data =
     zfill DOMAIN_HASH_DIGITS (str_nat (be_nat (shake128 P data DOMAIN_HASH_BYTES)))"

definition seal_hash :: "prims \<Rightarrow> string \<Rightarrow> string" where
  "seal_hash P val = domain_hash P (str_bytes (''ms6-seal:'' @ val))"

text \<open>\<open>-(-DOMAIN_HASH_DIGITS // chunk_size)\<close>.\<close>

definition seal_fold_rows :: "nat \<Rightarrow> nat" where
  "seal_fold_rows cs = ceil_div DOMAIN_HASH_DIGITS cs"

text \<open>\<open>[xs[i:i+n] for i in range(0, len(xs), n)]\<close>.\<close>

definition slices :: "nat \<Rightarrow> 'a list \<Rightarrow> 'a list list" where
  "slices n xs = map (\<lambda>g. take n (drop (g * n) xs)) [0..<ceil_div (length xs) n]"

definition backward_chunk :: "string \<Rightarrow> nat \<Rightarrow> string list" where
  "backward_chunk ds n =
     (let r = length ds mod n
      in (if r = 0 then [] else [take r ds]) @ slices n (drop r ds))"

definition PAD :: char where
  "PAD = CHR '':''"

definition rjust :: "nat \<Rightarrow> string \<Rightarrow> string" where
  "rjust n s = replicate (n - length s) PAD @ s"

definition chunk_of :: "string \<Rightarrow> nat \<Rightarrow> nat \<Rightarrow> string list" where
  "chunk_of val x cs =
     (let chunks = backward_chunk val cs
      in replicate (x - length chunks) (replicate cs PAD) @ rjust cs (hd chunks) # tl chunks)"

section \<open>Digit counts\<close>

type_synonym cnt = "int list list list"

definition zero_cnt :: "nat \<Rightarrow> nat \<Rightarrow> cnt" where
  "zero_cnt rows cols = replicate rows (replicate cols (replicate 11 0))"

record acc =
  acc_rows :: nat
  acc_cols :: nat
  acc_cnt :: cnt
  acc_buf :: "string list list"

definition new_acc :: "nat \<Rightarrow> nat \<Rightarrow> acc" where
  "new_acc rows cols = \<lparr>acc_rows = rows, acc_cols = cols, acc_cnt = zero_cnt rows cols,
     acc_buf = replicate rows []\<rparr>"

definition acc_add :: "acc \<Rightarrow> string list \<Rightarrow> acc" where
  "acc_add a chunks =
     (let rows = min (acc_rows a) (length chunks)
      in a\<lparr>acc_rows := rows, acc_cnt := take rows (acc_cnt a),
           acc_buf := map (\<lambda>i. acc_buf a ! i @ [chunks ! i]) [0..<rows]\<rparr>)"

definition digit_index :: "char \<Rightarrow> nat" where
  "digit_index ch = of_char ch - 48"

text \<open>\<open>big[j::cols]\<close>.\<close>

definition stride :: "nat \<Rightarrow> nat \<Rightarrow> 'a list \<Rightarrow> 'a list" where
  "stride j cols big = map (\<lambda>t. big ! t) (filter (\<lambda>t. j \<le> t \<and> (t - j) mod cols = 0) [0..<length big])"

definition count_into :: "int list \<Rightarrow> string \<Rightarrow> int list" where
  "count_into col s = map (\<lambda>v. col ! v + int (length (filter (\<lambda>ch. digit_index ch = v) s))) [0..<length col]"

definition acc_flush :: "acc \<Rightarrow> acc" where
  "acc_flush a =
     a\<lparr>acc_cnt := map (\<lambda>i. let big = concat (acc_buf a ! i) in
         map (\<lambda>j. count_into (acc_cnt a ! i ! j) (stride j (acc_cols a) big)) [0..<acc_cols a])
         [0..<acc_rows a],
       acc_buf := replicate (acc_rows a) []\<rparr>"

definition FLUSH :: nat where
  "FLUSH = 4096"

fun counts_loop :: "nat \<Rightarrow> sparams \<Rightarrow> nat \<Rightarrow> acc \<Rightarrow> string list \<Rightarrow> acc" where
  "counts_loop x sp t a [] = acc_flush a"
| "counts_loop x sp t a (v # vs) =
     (let a1 = acc_add a (chunk_of v x (chunk_size sp));
          a2 = (if t mod FLUSH = FLUSH - 1 then acc_flush a1 else a1)
      in counts_loop x sp (Suc t) a2 vs)"

definition counts_of :: "sparams \<Rightarrow> string list \<Rightarrow> cnt" where
  "counts_of sp vals =
     (let x = seal_fold_rows (chunk_size sp)
      in acc_cnt (counts_loop x sp 0 (new_acc x (chunk_size sp)) vals))"

fun bump :: "int list \<Rightarrow> nat \<Rightarrow> int \<Rightarrow> int list" where
  "bump col k sign = col[k := col ! k + sign]"

fun apply_row :: "int list list \<Rightarrow> string \<Rightarrow> int \<Rightarrow> int list list" where
  "apply_row (col # cols) (ch # chs) sign = bump col (digit_index ch) sign # apply_row cols chs sign"
| "apply_row cols _ sign = cols"

fun apply_rows :: "cnt \<Rightarrow> string list \<Rightarrow> int \<Rightarrow> cnt" where
  "apply_rows (c # cs) (r # rs) sign = apply_row c r sign # apply_rows cs rs sign"
| "apply_rows cs _ sign = cs"

section \<open>Folding counts into a number\<close>

definition DIGIT_PRIMES :: "nat list" where
  "DIGIT_PRIMES = [2, 3, 5, 7, 11, 13, 17, 19, 23, 29]"

definition cell_product_mod :: "int list \<Rightarrow> nat \<Rightarrow> nat \<Rightarrow> nat" where
  "cell_product_mod col k m =
     foldl (\<lambda>val v. let e = nat (col ! v) * k
        in if e \<noteq> 0 then (val * ((DIGIT_PRIMES ! v) ^ e mod m)) mod m else val) 1 [0..<10]"

text \<open>One pass of \<open>for c in range(1, N + 1)\<close>, which reads the entry it has just written.\<close>

fun fold_pass :: "nat \<Rightarrow> nat \<Rightarrow> nat \<Rightarrow> nat list \<Rightarrow> nat list" where
  "fold_pass m yp prev [] = []"
| "fold_pass m yp prev (x # xs) =
     (let x' = (x + prev * yp) mod m in x' # fold_pass m yp x' xs)"

definition vsum_level_fold_fast :: "nat \<Rightarrow> nat list \<Rightarrow> nat \<Rightarrow> nat" where
  "vsum_level_fold_fast N values m =
     (let nz = filter (\<lambda>p. values ! p \<noteq> 0) [0..<length values]
      in if nz = [] then 0
         else let pmax = Max (set nz);
                  y = map (\<lambda>p. (values ! p * (10 ^ (pmax - p) mod m)) mod m) nz;
                  dp = foldl (\<lambda>dp yp. hd dp # fold_pass m yp (hd dp) (tl dp)) (1 # replicate N 0) y
              in dp ! N)"

fun pair_up :: "nat \<Rightarrow> nat list \<Rightarrow> nat list" where
  "pair_up p (a # b # cs) = (a + b * p) # pair_up p cs"
| "pair_up p cs = cs"

lemma length_pair_up: "length (pair_up p xs) = (length xs + 1) div 2"
  by (induction p xs rule: pair_up.induct) auto

function carry_sum :: "nat \<Rightarrow> nat list \<Rightarrow> nat" where
  "carry_sum p cur = (if length cur \<le> 1 then hd cur else carry_sum (p * p) (pair_up p cur))"
  by auto
termination
  by (relation "measure (\<lambda>(p, cur). length cur)") (auto simp: length_pair_up)

declare carry_sum.simps [simp del]

definition vsum_level :: "nat list \<Rightarrow> nat \<Rightarrow> nat" where
  "vsum_level values b =
     (let ks = filter (\<lambda>k. values ! k \<noteq> 0) [0..<length values]
      in if ks = [] then 0
         else let M = 10 ^ b;
                  C = Max (set ks);
                  bucket = map (\<lambda>e. values ! (C - e)) [0..<Suc C]
              in if list_all (\<lambda>a. a < M) bucket
                 then (if b = 1 then nat_of_str (concat (map str_nat (rev bucket)))
                       else nat_of_str (concat (map (\<lambda>a. zfill b (str_nat a)) (rev bucket))))
                 else carry_sum M bucket)"

definition seal_from_counts :: "sparams \<Rightarrow> cnt \<Rightarrow> nat" where
  "seal_from_counts sp c =
     (let H = map (\<lambda>row. map (\<lambda>j. cell_product_mod (row ! j) 1 (seal_mod sp)) [0..<chunk_size sp]) c;
          Hs = map (\<lambda>H1. vsum_level_fold_fast (fold_d sp) H1 (seal_mod sp)) H
      in vsum_level Hs (chunk_size sp))"

section \<open>The tree\<close>

record stree =
  leaves :: "string list"
  inner :: "(cnt list \<times> string list) list"
  top_cnt :: cnt
  top_raw :: nat

definition raw_hash :: "prims \<Rightarrow> sparams \<Rightarrow> cnt \<Rightarrow> string" where
  "raw_hash P sp c = seal_hash P (str_nat (seal_from_counts sp c))"

fun build_up :: "nat \<Rightarrow> prims \<Rightarrow> sparams \<Rightarrow> string list \<Rightarrow> (cnt list \<times> string list) list \<times> cnt \<times> nat" where
  "build_up fuel P sp level =
     (if length level \<le> sbs sp \<or> fuel = 0
      then (let c = counts_of sp level in ([], c, seal_from_counts sp c))
      else let cnts = map (counts_of sp) (slices (sbs sp) level);
               hs = map (raw_hash P sp) cnts;
               (inn, c, r) = build_up (fuel - 1) P sp hs
           in ((cnts, hs) # inn, c, r))"

declare build_up.simps [simp del]

definition build :: "prims \<Rightarrow> sparams \<Rightarrow> string list \<Rightarrow> stree" where
  "build P sp ls = (let (inn, c, r) = build_up (length ls) P sp ls
     in \<lparr>leaves = ls, inner = inn, top_cnt = c, top_raw = r\<rparr>)"

definition stree_root :: "stree \<Rightarrow> nat" where
  "stree_root t = top_raw t"

definition change :: "sparams \<Rightarrow> cnt \<Rightarrow> string option \<Rightarrow> string \<Rightarrow> cnt" where
  "change sp c old_v new_v =
     (let x = seal_fold_rows (chunk_size sp);
          c1 = (case old_v of None \<Rightarrow> c | Some old \<Rightarrow> apply_rows c (chunk_of old x (chunk_size sp)) (- 1))
      in apply_rows c1 (chunk_of new_v x (chunk_size sp)) 1)"

fun propagate :: "prims \<Rightarrow> sparams \<Rightarrow> nat \<Rightarrow> string option \<Rightarrow> string
    \<Rightarrow> (cnt list \<times> string list) list \<Rightarrow> cnt \<Rightarrow> nat
    \<Rightarrow> (cnt list \<times> string list) list \<times> cnt \<times> nat" where
  "propagate P sp idx old_v new_v [] c r =
     (if idx div sbs sp = 0
      then (let c' = change sp c old_v new_v in ([], c', seal_from_counts sp c'))
      else (let c' = change sp (counts_of sp []) old_v new_v;
                hs = [seal_hash P (str_nat r), raw_hash P sp c'];
                ct = counts_of sp hs
            in ([([c, c'], hs)], ct, seal_from_counts sp ct)))"
| "propagate P sp idx old_v new_v ((cnts, hs) # inn) c r =
     (let j = idx div sbs sp;
          fresh = (j = length hs);
          cnts1 = (if fresh then cnts @ [counts_of sp []] else cnts);
          c' = change sp (cnts1 ! j) old_v new_v;
          h' = raw_hash P sp c';
          prev = (if fresh then None else Some (hs ! j));
          hs' = (if fresh then hs @ [h'] else hs[j := h']);
          (inn', ct, rt) = propagate P sp j prev h' inn c r
      in ((cnts1[j := c'], hs') # inn', ct, rt))"

definition update_leaf :: "prims \<Rightarrow> sparams \<Rightarrow> nat \<Rightarrow> string \<Rightarrow> stree \<Rightarrow> stree" where
  "update_leaf P sp i new_val t =
     (let old = leaves t ! i
      in if old = new_val then t
         else let (inn, c, r) = propagate P sp i (Some old) new_val (inner t) (top_cnt t) (top_raw t)
              in \<lparr>leaves = (leaves t)[i := new_val], inner = inn, top_cnt = c, top_raw = r\<rparr>)"

definition append_leaf :: "prims \<Rightarrow> sparams \<Rightarrow> string \<Rightarrow> stree \<Rightarrow> stree" where
  "append_leaf P sp val t =
     (let (inn, c, r) = propagate P sp (length (leaves t)) None val (inner t) (top_cnt t) (top_raw t)
      in \<lparr>leaves = leaves t @ [val], inner = inn, top_cnt = c, top_raw = r\<rparr>)"

section \<open>Counting a group equals counting it leaf by leaf\<close>

definition tab :: "nat \<Rightarrow> nat \<Rightarrow> (nat \<Rightarrow> nat \<Rightarrow> nat \<Rightarrow> int) \<Rightarrow> cnt" where
  "tab x cs f = map (\<lambda>i. map (\<lambda>j. map (f i j) [0..<11]) [0..<cs]) [0..<x]"

definition rows_ok :: "nat \<Rightarrow> nat \<Rightarrow> string list \<Rightarrow> bool" where
  "rows_ok x cs rows = (length rows = x \<and> (\<forall>r\<in>set rows. length r = cs))"

abbreviation rows_of :: "sparams \<Rightarrow> string \<Rightarrow> string list" where
  "rows_of sp v \<equiv> chunk_of v (seal_fold_rows (chunk_size sp)) (chunk_size sp)"

definition leaf_ok :: "sparams \<Rightarrow> string \<Rightarrow> bool" where
  "leaf_ok sp v = rows_ok (seal_fold_rows (chunk_size sp)) (chunk_size sp) (rows_of sp v)"

definition hits :: "nat \<Rightarrow> nat \<Rightarrow> nat \<Rightarrow> string list \<Rightarrow> int" where
  "hits i j v rows = (if digit_index (rows ! i ! j) = v then 1 else 0)"

lemma tab_nth [simp]: "i < x \<Longrightarrow> j < cs \<Longrightarrow> tab x cs f ! i ! j = map (f i j) [0..<11]"
  by (simp add: tab_def)

lemma tab_cong:
  assumes "\<And>i j v. i < x \<Longrightarrow> j < cs \<Longrightarrow> v < 11 \<Longrightarrow> f i j v = g i j v"
  shows "tab x cs f = tab x cs g"
  using assms by (auto simp: tab_def)

lemma zero_cnt_tab: "zero_cnt x cs = tab x cs (\<lambda>i j v. 0)"
  by (simp add: zero_cnt_def tab_def map_replicate_const)

lemma length_apply_row [simp]: "length (apply_row cols r s) = length cols"
  by (induction cols r s rule: apply_row.induct) simp_all

lemma nth_apply_row:
  "j < length cols \<Longrightarrow> j < length r \<Longrightarrow>
     apply_row cols r s ! j = bump (cols ! j) (digit_index (r ! j)) s"
  by (induction cols r s arbitrary: j rule: apply_row.induct) (auto simp: nth_Cons split: nat.splits)

lemma length_apply_rows [simp]: "length (apply_rows c rows s) = length c"
  by (induction c rows s rule: apply_rows.induct) simp_all

lemma nth_apply_rows:
  "i < length c \<Longrightarrow> i < length rows \<Longrightarrow> apply_rows c rows s ! i = apply_row (c ! i) (rows ! i) s"
  by (induction c rows s arbitrary: i rule: apply_rows.induct) (auto simp: nth_Cons split: nat.splits)

lemma bump_tab:
  "bump (map g [0..<n]) k s = map (\<lambda>v. g v + (if k = v then s else 0)) [0..<n]"
  by (rule nth_equalityI) (auto simp: nth_list_update)

lemma apply_rows_tab:
  assumes "rows_ok x cs rows"
  shows "apply_rows (tab x cs f) rows s = tab x cs (\<lambda>i j v. f i j v + s * hits i j v rows)"
proof (rule nth_equalityI)
  fix i assume "i < length (apply_rows (tab x cs f) rows s)"
  then have i: "i < x" by (simp add: tab_def)
  with assms have r: "i < length rows" "length (rows ! i) = cs"
    by (auto simp: rows_ok_def)
  have row: "apply_rows (tab x cs f) rows s ! i = apply_row (tab x cs f ! i) (rows ! i) s"
    using i r by (intro nth_apply_rows) (simp_all add: tab_def)
  show "apply_rows (tab x cs f) rows s ! i = tab x cs (\<lambda>i j v. f i j v + s * hits i j v rows) ! i"
    unfolding row
  proof (rule nth_equalityI)
    fix j assume "j < length (apply_row (tab x cs f ! i) (rows ! i) s)"
    then have j: "j < cs" using i by (simp add: tab_def)
    then have "apply_row (tab x cs f ! i) (rows ! i) s ! j
        = bump (map (f i j) [0..<11]) (digit_index (rows ! i ! j)) s"
      using i r by (subst nth_apply_row) (simp_all add: tab_def)
    then show "apply_row (tab x cs f ! i) (rows ! i) s ! j =
        tab x cs (\<lambda>i j v. f i j v + s * hits i j v rows) ! i ! j"
      using i j by (simp add: bump_tab hits_def del: bump.simps)
  qed (use i in \<open>simp add: tab_def\<close>)
qed (simp add: tab_def)

lemma filter_upt_single: "j < n \<Longrightarrow> filter (\<lambda>t. j \<le> t \<and> (t - j) mod n = 0) [0..<n] = [j :: nat]"
proof -
  assume j: "j < n"
  have "filter (\<lambda>t. j \<le> t \<and> (t - j) mod n = 0) [0..<n] = filter (\<lambda>t. t = j) [0..<n]"
    by (rule filter_cong) auto
  also have "\<dots> = [j]"
    using j by (induction n) (auto simp: filter_empty_conv)
  finally show ?thesis .
qed

lemma stride_append:
  assumes "length r = cols" "j < cols"
  shows "stride j cols (r @ big) = r ! j # stride j cols big"
proof -
  let ?p = "\<lambda>t. j \<le> t \<and> (t - j) mod cols = 0"
  have split: "[0..<length (r @ big)] = [0..<cols] @ map (\<lambda>t. t + cols) [0..<length big]"
    using assms by (simp add: map_add_upt upt_add_eq_append [of 0] add.commute)
  have shift: "?p (t + cols) = ?p t" for t
  proof (cases "j \<le> t")
    case True
    then have eq: "t + cols - j = (t - j) + cols" by simp
    have "(t + cols - j) mod cols = (t - j) mod cols" unfolding eq by simp
    then show ?thesis using True by simp
  next
    case False
    then have "t + cols - j < cols" "0 < t + cols - j" using assms(2) by simp_all
    with False show ?thesis by simp
  qed
  have "filter ?p (map (\<lambda>t. t + cols) [0..<length big]) = map (\<lambda>t. t + cols) (filter ?p [0..<length big])"
    using shift by (simp add: filter_map o_def)
  then show ?thesis
    using assms unfolding stride_def split filter_append filter_upt_single [OF assms(2)]
    by (auto simp: nth_append)
qed

lemma stride_concat:
  assumes "\<forall>r\<in>set rs. length r = cols" "j < cols"
  shows "stride j cols (concat rs) = map (\<lambda>r. r ! j) rs"
  using assms(1)
proof (induction rs)
  case Nil
  then show ?case by (simp add: stride_def)
next
  case (Cons r rs)
  then show ?case using assms(2) by (simp add: stride_append)
qed

definition tally :: "(string list) list \<Rightarrow> nat \<Rightarrow> nat \<Rightarrow> nat \<Rightarrow> int" where
  "tally rs i j v = (\<Sum>r\<leftarrow>rs. hits i j v r)"

lemma tally_simps [simp]:
  "tally [] i j v = 0"
  "tally (r # rs) i j v = hits i j v r + tally rs i j v"
  "tally (rs @ qs) i j v = tally rs i j v + tally qs i j v"
  by (simp_all add: tally_def)

lemma tally_filter:
  "int (length (filter (\<lambda>ch. digit_index ch = v) (map (\<lambda>r. r ! i ! j) rs))) = tally rs i j v"
  by (induction rs) (auto simp: hits_def)

definition acc_is :: "nat \<Rightarrow> nat \<Rightarrow> (nat \<Rightarrow> nat \<Rightarrow> nat \<Rightarrow> int) \<Rightarrow> string list list \<Rightarrow> acc \<Rightarrow> bool" where
  "acc_is x cs f pend a = (acc_rows a = x \<and> acc_cols a = cs \<and> acc_cnt a = tab x cs f
     \<and> acc_buf a = map (\<lambda>i. map (\<lambda>rows. rows ! i) pend) [0..<x] \<and> (\<forall>rows\<in>set pend. rows_ok x cs rows))"

lemma acc_is_new: "acc_is x cs (\<lambda>i j v. 0) [] (new_acc x cs)"
  by (simp add: acc_is_def new_acc_def zero_cnt_tab map_replicate_const)

lemma acc_is_add:
  "acc_is x cs f pend a \<Longrightarrow> rows_ok x cs rows \<Longrightarrow> acc_is x cs f (pend @ [rows]) (acc_add a rows)"
  by (auto simp: acc_is_def acc_add_def Let_def tab_def rows_ok_def)

lemma acc_is_flush:
  assumes "acc_is x cs f pend a"
  shows "acc_is x cs (\<lambda>i j v. f i j v + tally pend i j v) [] (acc_flush a)"
proof -
  have cell: "count_into (acc_cnt a ! i ! j) (stride j cs (concat (acc_buf a ! i)))
      = map (\<lambda>v. f i j v + tally pend i j v) [0..<11]"
    if "i < x" "j < cs" for i j
  proof -
    have "stride j cs (concat (map (\<lambda>rows. rows ! i) pend)) = map (\<lambda>r. r ! j) (map (\<lambda>rows. rows ! i) pend)"
      using assms that by (intro stride_concat) (auto simp: acc_is_def rows_ok_def)
    then show ?thesis
      using assms that tally_filter [of _ i j pend]
      by (auto simp: acc_is_def count_into_def o_def)
  qed
  show ?thesis
    using assms cell
    by (auto simp: acc_is_def acc_flush_def Let_def tab_def map_replicate_const)
qed

lemma counts_loop_tab:
  assumes "acc_is x (chunk_size sp) f pend a" "x = seal_fold_rows (chunk_size sp)"
    "\<forall>v\<in>set vals. leaf_ok sp v"
  shows "acc_cnt (counts_loop x sp t a vals)
    = tab x (chunk_size sp) (\<lambda>i j v. f i j v + tally pend i j v + tally (map (rows_of sp) vals) i j v)"
  using assms
proof (induction vals arbitrary: t a f pend)
  case Nil
  then show ?case using acc_is_flush [of x "chunk_size sp" f pend a]
    by (simp add: acc_is_def)
next
  case (Cons u vals)
  have ok: "rows_ok x (chunk_size sp) (chunk_of u x (chunk_size sp))"
    using Cons.prems(2,3) by (simp add: leaf_ok_def)
  let ?a1 = "acc_add a (chunk_of u x (chunk_size sp))"
  have a1: "acc_is x (chunk_size sp) f (pend @ [chunk_of u x (chunk_size sp)]) ?a1"
    using Cons.prems(1) ok by (rule acc_is_add)
  show ?case
  proof (cases "t mod FLUSH = FLUSH - 1")
    case True
    then show ?thesis
      using Cons.IH [OF acc_is_flush [OF a1] Cons.prems(2), of "Suc t"] Cons.prems(2,3)
      by (simp add: Let_def add_ac)
  next
    case False
    then show ?thesis
      using Cons.IH [OF a1 Cons.prems(2), of "Suc t"] Cons.prems(2,3)
      by (simp add: Let_def add_ac)
  qed
qed

lemma counts_of_tab:
  assumes "\<forall>v\<in>set vals. leaf_ok sp v"
  shows "counts_of sp vals
    = tab (seal_fold_rows (chunk_size sp)) (chunk_size sp) (tally (map (rows_of sp) vals))"
  using counts_loop_tab [OF acc_is_new refl assms, of 0] by (simp add: counts_of_def Let_def)

lemma tally_perm: "mset rs = mset qs \<Longrightarrow> tally rs i j v = tally qs i j v"
  unfolding tally_def by (metis mset_map sum_mset_sum_list)

lemma counts_of_perm:
  assumes "mset vals = mset vals'" "\<forall>v\<in>set vals. leaf_ok sp v"
  shows "counts_of sp vals = counts_of sp vals'"
proof -
  have "\<forall>v\<in>set vals'. leaf_ok sp v"
    using assms by (metis mset_eq_setD)
  moreover have "tally (map (rows_of sp) vals) = tally (map (rows_of sp) vals')"
    using assms(1) by (intro ext tally_perm) simp
  ultimately show ?thesis using assms(2) by (simp add: counts_of_tab)
qed

lemma change_append:
  assumes "\<forall>v\<in>set vals. leaf_ok sp v" "leaf_ok sp u"
  shows "change sp (counts_of sp vals) None u = counts_of sp (vals @ [u])"
  using assms by (auto simp: change_def Let_def counts_of_tab apply_rows_tab leaf_ok_def intro!: tab_cong)

lemma tally_update:
  "i < length vals \<Longrightarrow> tally (map g (vals[i := u])) a b v
     = tally (map g vals) a b v - hits a b v (g (vals ! i)) + hits a b v (g u)"
proof (induction vals arbitrary: i)
  case (Cons w vals)
  then show ?case by (cases i) auto
qed simp

lemma change_update:
  assumes "\<forall>v\<in>set vals. leaf_ok sp v" "leaf_ok sp u" "i < length vals"
  shows "change sp (counts_of sp vals) (Some (vals ! i)) u = counts_of sp (vals[i := u])"
proof -
  have ok: "leaf_ok sp (vals ! i)" using assms(1,3) by simp
  have all: "\<forall>v\<in>set (vals[i := u]). leaf_ok sp v"
  proof
    fix v assume "v \<in> set (vals[i := u])"
    then have "v \<in> insert u (set vals)" using set_update_subset_insert by fast
    then show "leaf_ok sp v" using assms(1,2) by auto
  qed
  show ?thesis
    using assms(2) ok unfolding change_def Let_def counts_of_tab [OF assms(1)] counts_of_tab [OF all]
    by (auto simp: apply_rows_tab leaf_ok_def tally_update [OF assms(3)] intro!: tab_cong)
qed

section \<open>Leaf hashes have the shape the fold expects\<close>

definition digest_law :: "prims \<Rightarrow> bool" where
  "digest_law P = (\<forall>x n. length (shake128 P x n) = n)"

lemma length_slices: "length (slices n xs) = ceil_div (length xs) n"
  by (simp add: slices_def)

lemma length_str_nat_le: "n < 10 ^ k \<Longrightarrow> 0 < k \<Longrightarrow> length (str_nat n) \<le> k"
proof (induction n arbitrary: k rule: str_nat.induct)
  case (1 n)
  show ?case
  proof (cases "n < 10")
    case True
    then show ?thesis using 1(3) by (subst str_nat.simps) simp
  next
    case False
    then obtain m where k: "k = Suc m" "0 < m"
      using 1(2) by (cases k; cases "k - 1") auto
    then have "n div 10 < 10 ^ m" using 1(2) by simp
    then have "length (str_nat (n div 10)) \<le> m" using 1(1) False k(2) by blast
    then show ?thesis using False k(1) by (subst str_nat.simps) simp
  qed
qed

lemma digits_78: "DOMAIN_HASH_DIGITS = 78"
proof -
  have up: "length (str_nat (256 ^ 32 - 1)) \<le> 78"
    by (rule length_str_nat_le) simp_all
  have low: "10 ^ 77 \<le> n \<Longrightarrow> 78 \<le> length (str_nat n)" for n
  proof -
    have gen: "10 ^ k \<le> m \<Longrightarrow> Suc k \<le> length (str_nat m)" for k m :: nat
    proof (induction k arbitrary: m)
      case 0
      then show ?case using str_nat_not_Nil [of m] by (cases "str_nat m") auto
    next
      case (Suc k)
      have nl: "\<not> m < 10" using Suc.prems le_trans [of 10 "10 ^ Suc k" m] by simp
      have "10 ^ k \<le> m div 10" using Suc.prems by (simp add: less_eq_div_iff_mult_less_eq mult.commute)
      then show ?case using Suc.IH nl by (subst str_nat.simps) simp
    qed
    assume "10 ^ 77 \<le> n" then show ?thesis using gen [of 77 n] by simp
  qed
  have "78 \<le> length (str_nat (256 ^ 32 - 1))"
    by (rule low) simp
  with up show ?thesis by (simp add: DOMAIN_HASH_DIGITS_def DOMAIN_HASH_BYTES_def)
qed

lemma length_domain_hash:
  assumes "digest_law P"
  shows "length (domain_hash P d) = 78"
proof -
  let ?n = "be_nat (shake128 P d DOMAIN_HASH_BYTES)"
  have "?n < 256 ^ 32"
    using be_nat_less [of "shake128 P d DOMAIN_HASH_BYTES"] assms
    by (simp add: digest_law_def DOMAIN_HASH_BYTES_def)
  then have "length (str_nat ?n) \<le> 78"
    by (intro length_str_nat_le) simp_all
  then show ?thesis by (simp add: domain_hash_def zfill_def digits_78)
qed

lemma rows_ok_ConsI:
  "rows = p # ps \<Longrightarrow> length p = cs \<Longrightarrow> (\<And>q. q \<in> set ps \<Longrightarrow> length q = cs) \<Longrightarrow> x = Suc (length ps)
     \<Longrightarrow> rows_ok x cs rows"
  by (simp add: rows_ok_def)

lemma rows_ok_chunk_of:
  assumes "0 < cs" "0 < length val" "x = ceil_div (length val) cs"
  shows "rows_ok x cs (chunk_of val x cs)"
proof -
  let ?r = "length val mod cs"
  let ?t = "drop ?r val"
  have m: "length ?t = (length val div cs) * cs" by (metis length_drop minus_mod_eq_div_mult)
  have n: "length (slices cs ?t) = length val div cs"
    unfolding length_slices ceil_div_eq [OF assms(1)] m using assms(1) by simp
  have piece: "length p = cs" if "p \<in> set (slices cs ?t)" for p
  proof -
    from that obtain g where g: "g < length (slices cs ?t)" "p = take cs (drop (g * cs) ?t)"
      by (auto simp: slices_def)
    with n have "Suc g * cs \<le> length ?t" unfolding m by (metis Suc_leI mult_le_mono1)
    then show ?thesis using g(2) by simp
  qed
  have lt: "?r < cs" using assms(1) by simp
  show ?thesis
  proof (cases "?r = 0")
    case True
    with n have x: "x = length (slices cs ?t)" using assms by (simp add: ceil_div_eq)
    have "length val div cs \<noteq> 0" using True assms(1,2) by (metis add_cancel_left_left div_mult_mod_eq mult_0 less_irrefl)
    with n have "slices cs ?t \<noteq> []" by (metis list.size(3))
    then obtain q qs where q: "slices cs ?t = q # qs" by (cases "slices cs ?t") auto
    then have "backward_chunk val cs = q # qs"
      using True by (simp add: backward_chunk_def)
    moreover have len: "x = Suc (length qs)" using x q by simp
    moreover have q_cs: "length q = cs" using piece q by simp
    ultimately have "chunk_of val x cs = q # qs" by (simp add: chunk_of_def rjust_def)
    moreover have "\<And>p. p \<in> set qs \<Longrightarrow> length p = cs" using piece q by simp
    ultimately show ?thesis using q_cs len rows_ok_ConsI by blast
  next
    case False
    with n have x: "x = Suc (length (slices cs ?t))" using assms by (simp add: ceil_div_eq)
    have "backward_chunk val cs = take ?r val # slices cs ?t"
      using False by (simp add: backward_chunk_def Let_def)
    then have "chunk_of val x cs = rjust cs (take ?r val) # slices cs ?t"
      using x by (simp add: chunk_of_def)
    moreover have "length (rjust cs (take ?r val)) = cs"
    proof -
      have "length (rjust cs s) = cs" if "length s \<le> cs" for s
        using that by (simp add: rjust_def)
      moreover have "length (take ?r val) \<le> cs" using lt by (metis length_take less_imp_le min.coboundedI2)
      ultimately show ?thesis by blast
    qed
    ultimately show ?thesis using piece x by (rule rows_ok_ConsI)
  qed
qed

lemma leaf_ok_domain_hash:
  assumes "digest_law P" "0 < chunk_size sp"
  shows "leaf_ok sp (domain_hash P d)"
  unfolding leaf_ok_def seal_fold_rows_def digits_78
  using assms length_domain_hash [OF assms(1), of d]
  by (intro rows_ok_chunk_of) auto

lemma leaf_ok_seal_hash:
  "digest_law P \<Longrightarrow> 0 < chunk_size sp \<Longrightarrow> leaf_ok sp (seal_hash P v)"
  by (simp add: seal_hash_def leaf_ok_domain_hash)

section \<open>Growing and changing a tree equals building it\<close>

lemma length_slices_append:
  assumes "0 < n"
  shows "slices n (xs @ [v]) =
    (if length xs mod n = 0 then slices n xs @ [[v]]
     else (slices n xs)[length xs div n := slices n xs ! (length xs div n) @ [v]])"
proof -
  let ?m = "length xs"
  have suc: "ceil_div (Suc ?m) n = Suc (?m div n)"
  proof -
    have "ceil_div (Suc ?m) n = (?m + 1 * n) div n" by (simp add: ceil_div_def)
    also have "\<dots> = 1 + ?m div n" using assms by (intro div_mult_self1) simp
    finally show ?thesis by simp
  qed
  have last_piece: "take n (drop (?m div n * n) (xs @ [v])) = drop (?m div n * n) xs @ [v]"
  proof -
    have "length (drop (?m div n * n) xs) = ?m mod n" by (simp add: minus_div_mult_eq_mod)
    moreover have "?m mod n < n" using assms by simp
    moreover have "?m div n * n \<le> ?m" by simp
    ultimately show ?thesis by simp
  qed
  have early: "take n (drop (g * n) (xs @ [v])) = take n (drop (g * n) xs)" if "g < ?m div n" for g
  proof -
    have "Suc g * n \<le> ?m" using that by (metis Suc_leI div_times_less_eq_dividend le_trans mult_le_mono1)
    then show ?thesis by simp
  qed
  have "slices n (xs @ [v]) = map (\<lambda>g. take n (drop (g * n) (xs @ [v]))) [0..<Suc (?m div n)]"
    unfolding slices_def using suc by simp
  also have "\<dots> = map (\<lambda>g. take n (drop (g * n) xs)) [0..<?m div n] @ [drop (?m div n * n) xs @ [v]]"
    using early last_piece by simp
  finally have new: "slices n (xs @ [v])
    = map (\<lambda>g. take n (drop (g * n) xs)) [0..<?m div n] @ [drop (?m div n * n) xs @ [v]]" .
  show ?thesis
  proof (cases "?m mod n = 0")
    case True
    then have "?m div n * n = ?m" by auto
    then show ?thesis unfolding new using True assms by (simp add: slices_def ceil_div_eq)
  next
    case False
    have "length (drop (?m div n * n) xs) \<le> n"
      using assms by (simp add: minus_div_mult_eq_mod less_imp_le)
    then have "take n (drop (?m div n * n) xs) = drop (?m div n * n) xs" by simp
    then have "slices n xs = map (\<lambda>g. take n (drop (g * n) xs)) [0..<?m div n] @ [drop (?m div n * n) xs]"
      using False assms by (simp add: slices_def ceil_div_eq)
    then show ?thesis unfolding new using False by (simp add: list_update_append nth_append)
  qed
qed

lemma slices_update:
  assumes "0 < n" "i < length xs"
  shows "slices n (xs[i := v]) = (slices n xs)[i div n := (slices n xs ! (i div n))[i mod n := v]]"
    and "i div n < length (slices n xs)"
    and "i mod n < length (slices n xs ! (i div n))"
    and "slices n xs ! (i div n) ! (i mod n) = xs ! i"
proof -
  let ?k = "ceil_div (length xs) n"
  have lt: "i div n < ?k"
  proof -
    have "i div n * n \<le> i" by simp
    then have "i div n * n + n \<le> length xs + n - 1" using assms by linarith
    then have "(i div n + 1) * n \<le> length xs + n - 1" by (simp only: add_mult_distrib mult_1)
    then have "i div n + 1 \<le> ?k" unfolding ceil_div_def using assms(1)
      by (metis less_eq_div_iff_mult_less_eq)
    then show ?thesis by simp
  qed
  show "i div n < length (slices n xs)" using lt by (simp add: length_slices)
  have piece: "slices n xs ! (i div n) = take n (drop (i div n * n) xs)"
    using lt by (simp add: slices_def)
  have im: "i div n * n + i mod n = i" by simp
  show "i mod n < length (slices n xs ! (i div n))"
    unfolding piece using assms im by (simp add: less_diff_conv add.commute)
  show "slices n xs ! (i div n) ! (i mod n) = xs ! i"
    unfolding piece using assms im less_imp_le [OF assms(2)] by (simp add: order_trans [of _ i])
  show "slices n (xs[i := v]) = (slices n xs)[i div n := (slices n xs ! (i div n))[i mod n := v]]"
  proof (rule nth_equalityI)
    fix g assume "g < length (slices n (xs[i := v]))"
    then have g: "g < ?k" by (simp add: length_slices)
    show "slices n (xs[i := v]) ! g =
        (slices n xs)[i div n := (slices n xs ! (i div n))[i mod n := v]] ! g"
    proof (cases "g = i div n")
      case True
      have "take n (drop (g * n) (xs[i := v])) = (take n (drop (g * n) xs))[i - g * n := v]"
        using True by (simp add: drop_update_swap take_update_swap)
      moreover have "i - g * n = i mod n" using True by (simp add: minus_div_mult_eq_mod)
      ultimately show ?thesis using g True by (simp add: slices_def)
    next
      case False
      have "take n (drop (g * n) (xs[i := v])) = take n (drop (g * n) xs)"
      proof (cases "i < g * n")
        case True
        then show ?thesis by (simp add: drop_update_cancel)
      next
        case ge: False
        then have "g \<le> i div n" using assms(1) by (simp add: less_eq_div_iff_mult_less_eq)
        with False have "Suc g \<le> i div n" by simp
        then have "Suc g * n \<le> i" using assms(1) by (simp add: less_eq_div_iff_mult_less_eq)
        with ge have "n \<le> i - g * n" by simp
        then show ?thesis using ge by (simp add: drop_update_swap take_update_cancel)
      qed
      with False g show ?thesis by (simp add: slices_def)
    qed
  qed (simp add: length_slices)
qed

lemma build_up_small:
  "length level \<le> sbs sp \<Longrightarrow> build_up fuel P sp level
     = ([], counts_of sp level, seal_from_counts sp (counts_of sp level))"
  by (subst build_up.simps) (simp add: Let_def)

lemma length_slices_less:
  assumes "2 \<le> n" "n < length xs"
  shows "length (slices n xs) < length xs"
proof -
  have "ceil_div (length xs) n \<le> length xs div n + 1"
    using assms by (simp add: ceil_div_eq)
  also have "\<dots> \<le> length xs div 2 + 1"
    using assms(1) by (simp add: div_le_mono2)
  also have "\<dots> < length xs" using assms by linarith
  finally show ?thesis by (simp add: length_slices)
qed

text \<open>The fuel \<open>build\<close> passes is enough: more of it changes nothing.\<close>

lemma build_up_fuel:
  assumes "2 \<le> sbs sp" "length level \<le> f" "length level \<le> g"
  shows "build_up f P sp level = build_up g P sp level"
  using assms(2,3)
proof (induction f arbitrary: g level)
  case 0
  then show ?case using build_up_small [of level sp] by simp
next
  case (Suc f)
  show ?case
  proof (cases "length level \<le> sbs sp")
    case True
    then show ?thesis by (simp add: build_up_small)
  next
    case False
    then obtain g' where g: "g = Suc g'" using Suc.prems(2) by (cases g) auto
    have less: "length (slices (sbs sp) level) < length level"
      using False assms(1) by (intro length_slices_less) simp_all
    have "build_up f P sp hs = build_up g' P sp hs"
      if "length hs = length (slices (sbs sp) level)" for hs
      using that less Suc.prems g by (intro Suc.IH) simp_all
    then show ?thesis unfolding g
      by (subst (1 2) build_up.simps) (simp add: False Let_def)
  qed
qed

lemma build_up_big:
  assumes "2 \<le> sbs sp" "sbs sp < length level" "length level \<le> f"
    "cnts = map (counts_of sp) (slices (sbs sp) level)" "hs = map (raw_hash P sp) cnts"
  shows "build_up f P sp level =
     (case build_up f P sp hs of (inn, c, r) \<Rightarrow> ((cnts, hs) # inn, c, r))"
proof -
  obtain f' where f: "f = Suc f'" using assms(2,3) by (cases f) auto
  have "length hs < length level"
    using assms by (simp add: length_slices_less)
  then have "build_up f' P sp hs = build_up f P sp hs"
    using assms(1,3) f by (intro build_up_fuel) simp_all
  then show ?thesis
    using assms(2,4,5) f by (subst build_up.simps) (simp add: Let_def)
qed

lemma leaf_ok_slices:
  "\<forall>v\<in>set level. leaf_ok sp v \<Longrightarrow> g < length (slices n level) \<Longrightarrow> \<forall>v\<in>set (slices n level ! g). leaf_ok sp v"
  by (auto simp: slices_def dest!: in_set_takeD in_set_dropD)

lemma leaf_ok_raw_hash: "digest_law P \<Longrightarrow> 0 < chunk_size sp \<Longrightarrow> leaf_ok sp (raw_hash P sp c)"
  by (simp add: raw_hash_def leaf_ok_seal_hash)

text \<open>One change of the level below, appended (\<open>old = None\<close>) or in place.\<close>

definition edit :: "nat \<Rightarrow> string option \<Rightarrow> string \<Rightarrow> string list \<Rightarrow> string list" where
  "edit i old v level = (if old = None then level @ [v] else level[i := v])"

definition edit_ok :: "nat \<Rightarrow> string option \<Rightarrow> string list \<Rightarrow> bool" where
  "edit_ok i old level =
     (if old = None then i = length level else i < length level \<and> old = Some (level ! i))"

lemma propagate_build_up:
  assumes "digest_law P" "0 < chunk_size sp" "2 \<le> sbs sp"
  shows "\<lbrakk>\<forall>v\<in>set level. leaf_ok sp v; leaf_ok sp v; edit_ok i old level; length level < f;
      build_up f P sp level = (inn, c, r)\<rbrakk>
    \<Longrightarrow> propagate P sp i old v inn c r = build_up f P sp (edit i old v level)"
proof (induction inn arbitrary: level i old v c r)
  case Nil
  have small: "length level \<le> sbs sp"
  proof (rule ccontr)
    assume "\<not> length level \<le> sbs sp"
    with Nil.prems assms(3) show False
      by (subst (asm) build_up_big [OF assms(3) _ _ refl refl]) (auto split: prod.splits)
  qed
  then have cr: "c = counts_of sp level" "r = seal_from_counts sp (counts_of sp level)"
    using Nil.prems(5) by (auto simp: build_up_small)
  show ?case
  proof (cases "i div sbs sp = 0")
    case True
    then have i: "i < sbs sp" using assms(3) by (simp add: div_eq_0_iff)
    have c': "change sp c old v = counts_of sp (edit i old v level)"
      using Nil.prems cr change_append change_update
      by (auto simp: edit_def edit_ok_def split: if_splits)
    have "length (edit i old v level) \<le> sbs sp"
      using i small Nil.prems(3) by (auto simp: edit_def edit_ok_def split: if_splits)
    then show ?thesis using True c' by (simp add: build_up_small Let_def)
  next
    case False
    then have "sbs sp \<le> i" using div_less by (metis not_le)
    then have app: "old = None" "length level = sbs sp" "i = sbs sp"
      using small Nil.prems(3) by (auto simp: edit_ok_def split: if_splits)
    have sl: "slices (sbs sp) (level @ [v]) = [level, [v]]"
    proof -
      have "slices (sbs sp) level = [level]"
        using assms(3) app(2) by (simp add: slices_def ceil_div_eq)
      then show ?thesis using assms(3) app(2) by (simp add: length_slices_append)
    qed
    have c': "change sp (counts_of sp []) None v = counts_of sp [v]"
      using change_append [of "[]" sp v] Nil.prems(2) by simp
    have big: "build_up f P sp (level @ [v]) =
      (case build_up f P sp (map (raw_hash P sp) [counts_of sp level, counts_of sp [v]]) of
         (inn, c, r) \<Rightarrow> (([counts_of sp level, counts_of sp [v]],
           map (raw_hash P sp) [counts_of sp level, counts_of sp [v]]) # inn, c, r))"
      using assms(3) app(2) Nil.prems(4) by (intro build_up_big) (simp_all add: sl)
    show ?thesis
      using False app c' cr assms(3)
      by (simp add: edit_def big build_up_small Let_def raw_hash_def)
  qed
next
  case (Cons lv inn)
  obtain cnts hs where lv: "lv = (cnts, hs)" by force
  have big: "sbs sp < length level"
  proof (rule ccontr)
    assume "\<not> sbs sp < length level"
    with Cons.prems(5) show False by (simp add: build_up_small)
  qed
  have up: "build_up f P sp hs = (inn, c, r)"
    "cnts = map (counts_of sp) (slices (sbs sp) level)" "hs = map (raw_hash P sp) cnts"
    using Cons.prems(5) lv build_up_big [OF assms(3) big _ refl refl, of f P] Cons.prems(4)
    by (auto split: prod.splits)
  let ?n = "sbs sp"
  let ?j = "i div ?n"
  have pos: "0 < ?n" using assms(3) by simp
  have hs_ok: "\<forall>h\<in>set hs. leaf_ok sp h"
    using up(3) assms(1,2) leaf_ok_raw_hash by auto
  have lhs: "length hs < f"
    using up(2,3) big assms(3) Cons.prems(4) length_slices_less [of ?n level] by simp
  have next_level: ?case
    if new: "cnts' = map (counts_of sp) (slices ?n (edit i old v level))"
      and c': "c' = cnts' ! ?j" "?j < length cnts'"
      and upd: "(if ?j = length hs then cnts @ [counts_of sp []] else cnts)[?j := c'] = cnts'"
      and chg: "change sp ((if ?j = length hs then cnts @ [counts_of sp []] else cnts) ! ?j) old v = c'"
      and jl: "?j \<le> length hs"
    for cnts' c'
  proof -
    let ?prev = "if ?j = length hs then None else Some (hs ! ?j)"
    let ?h = "raw_hash P sp c'"
    have eok: "edit_ok ?j ?prev hs" using jl by (simp add: edit_ok_def)
    have "(if ?j = length hs then hs @ [?h] else hs[?j := ?h]) = edit ?j ?prev ?h hs"
      by (simp add: edit_def)
    moreover have "edit ?j ?prev ?h hs = map (raw_hash P sp) cnts'"
      using upd up(3) jl by (auto simp: edit_def map_update split: if_splits)
    moreover have "propagate P sp ?j ?prev ?h inn c r = build_up f P sp (edit ?j ?prev ?h hs)"
      using Cons.IH [OF hs_ok _ eok lhs up(1)] assms(1,2) leaf_ok_raw_hash by blast
    moreover have "build_up f P sp (edit i old v level) =
        (case build_up f P sp (map (raw_hash P sp) cnts') of (inn, c, r) \<Rightarrow>
           ((cnts', map (raw_hash P sp) cnts') # inn, c, r))"
      using big Cons.prems(3,4) new assms(3)
      by (intro build_up_big) (auto simp: edit_def edit_ok_def split: if_splits)
    ultimately show ?thesis
      unfolding lv using upd chg by (cases "?j = length hs") (auto simp: Let_def split: prod.splits)
  qed
  show ?case
  proof (cases "old = None")
    case True
    then have i: "i = length level" using Cons.prems(3) by (simp add: edit_ok_def)
    show ?thesis
    proof (cases "length level mod ?n = 0")
      case True': True
      have len: "length (slices ?n level) = ?j" using True' i pos by (simp add: length_slices ceil_div_eq)
      have sl: "slices ?n (edit i old v level) = slices ?n level @ [[v]]"
        using True True' pos by (simp add: edit_def length_slices_append)
      show ?thesis
        by (rule next_level [OF refl refl])
          (use True len sl up Cons.prems(2) change_append [of "[]" sp v] in \<open>simp_all add: nth_append list_update_append\<close>)
    next
      case False
      have lt: "?j < length (slices ?n level)" using False i pos by (simp add: length_slices ceil_div_eq)
      have sl: "slices ?n (edit i old v level) = (slices ?n level)[?j := slices ?n level ! ?j @ [v]]"
        using True False pos i by (simp add: edit_def length_slices_append)
      have "change sp (counts_of sp (slices ?n level ! ?j)) None v = counts_of sp (slices ?n level ! ?j @ [v])"
        using change_append leaf_ok_slices [OF Cons.prems(1) lt] Cons.prems(2) by blast
      then show ?thesis
        by (intro next_level [OF refl refl])
          (use True lt sl up in \<open>simp_all add: map_update\<close>)
    qed
  next
    case False
    then have i: "i < length level" "old = Some (level ! i)" using Cons.prems(3) by (auto simp: edit_ok_def)
    note su = slices_update [OF pos i(1)]
    have "change sp (counts_of sp (slices ?n level ! ?j)) (Some (level ! i)) v
        = counts_of sp ((slices ?n level ! ?j)[i mod ?n := v])"
      using change_update [OF leaf_ok_slices [OF Cons.prems(1) su(2)] Cons.prems(2) su(3)] su(4) by simp
    then show ?thesis
      by (intro next_level [OF refl refl])
        (use False i su(1,2) up in \<open>simp_all add: map_update edit_def\<close>)
  qed
qed

lemma build_fields:
  assumes "build_up (length ls) P sp ls = (inn, c, r)"
  shows "build P sp ls = \<lparr>leaves = ls, inner = inn, top_cnt = c, top_raw = r\<rparr>"
  using assms by (simp add: build_def)

definition tree_ok :: "prims \<Rightarrow> sparams \<Rightarrow> bool" where
  "tree_ok P sp = (digest_law P \<and> 0 < chunk_size sp \<and> 2 \<le> sbs sp)"

lemma propagate_build:
  assumes "tree_ok P sp" "\<forall>v\<in>set ls. leaf_ok sp v" "leaf_ok sp v" "edit_ok i old ls"
    "propagate P sp i old v (inner (build P sp ls)) (top_cnt (build P sp ls)) (top_raw (build P sp ls))
      = (inn, c, r)"
  shows "build P sp (edit i old v ls)
    = \<lparr>leaves = edit i old v ls, inner = inn, top_cnt = c, top_raw = r\<rparr>"
proof -
  obtain inn0 c0 r0 where b: "build_up (length ls) P sp ls = (inn0, c0, r0)"
    by (metis prod_cases3)
  have "build_up (length ls + 2) P sp ls = (inn0, c0, r0)"
    using b build_up_fuel [of sp ls "length ls" "length ls + 2" P] assms(1) by (simp add: tree_ok_def)
  then have "propagate P sp i old v inn0 c0 r0 = build_up (length ls + 2) P sp (edit i old v ls)"
    using assms(1-4) by (intro propagate_build_up) (simp_all add: tree_ok_def)
  moreover have "build_up (length ls + 2) P sp (edit i old v ls)
      = build_up (length (edit i old v ls)) P sp (edit i old v ls)"
    using assms(1) by (intro build_up_fuel) (simp_all add: tree_ok_def edit_def)
  ultimately show ?thesis
    using assms(5) by (simp add: build_fields [OF b] build_fields)
qed

lemma append_leaf_is_build:
  assumes "tree_ok P sp" "\<forall>v\<in>set ls. leaf_ok sp v" "leaf_ok sp v"
  shows "append_leaf P sp v (build P sp ls) = build P sp (ls @ [v])"
proof -
  obtain inn c r where p: "propagate P sp (length ls) None v
      (inner (build P sp ls)) (top_cnt (build P sp ls)) (top_raw (build P sp ls)) = (inn, c, r)"
    by (metis prod_cases3)
  have [simp]: "leaves (build P sp ls) = ls"
    by (simp add: build_def split: prod.splits)
  show ?thesis
    using propagate_build [OF assms _ p] by (simp add: append_leaf_def p edit_def edit_ok_def)
qed

lemma leaves_build [simp]: "leaves (build P sp ls) = ls"
  by (simp add: build_def split: prod.splits)

lemma update_leaf_is_build:
  assumes "tree_ok P sp" "\<forall>v\<in>set ls. leaf_ok sp v" "leaf_ok sp v" "i < length ls"
  shows "update_leaf P sp i v (build P sp ls) = build P sp (ls[i := v])"
proof (cases "ls ! i = v")
  case True
  then show ?thesis by (auto simp: update_leaf_def)
next
  case False
  obtain inn c r where p: "propagate P sp i (Some (ls ! i)) v
      (inner (build P sp ls)) (top_cnt (build P sp ls)) (top_raw (build P sp ls)) = (inn, c, r)"
    by (metis prod_cases3)
  show ?thesis
    using propagate_build [OF assms(1-3) _ p] False assms(4)
    by (simp add: update_leaf_def p edit_def edit_ok_def)
qed

lemma build_root_perm:
  assumes "mset ls = mset ls'" "\<forall>v\<in>set ls. leaf_ok sp v" "length ls \<le> sbs sp"
  shows "stree_root (build P sp ls) = stree_root (build P sp ls')"
proof -
  have "length ls' \<le> sbs sp" using assms(1,3) by (metis size_mset)
  then show ?thesis
    using assms(3) counts_of_perm [OF assms(1,2)]
    by (simp add: build_def stree_root_def build_up_small)
qed

section \<open>Properties\<close>

text \<open>C32: The incremental seal tree is the batch one. Appending a leaf to, or replacing a leaf of,
  the tree built from \<open>ls\<close> gives in every field (levels, digit counts and root) the tree built
  from the changed list, also when a group opens, a level grows a roof, or the change walks up
  several levels.\<close>

theorem incremental_tree_is_batch:
  assumes "tree_ok P sp" "\<forall>v\<in>set ls. leaf_ok sp v" "leaf_ok sp v"
  shows "append_leaf P sp v (build P sp ls) = build P sp (ls @ [v])
    \<and> (\<forall>i < length ls. update_leaf P sp i v (build P sp ls) = build P sp (ls[i := v]))"
  using append_leaf_is_build update_leaf_is_build assms by blast

definition tiny_sparams :: sparams where
  "tiny_sparams = \<lparr>chunk_size = 40, fold_d = 2, seal_mod = 97, sbs = 2\<rparr>"

lemma tiny_tree_ok: "tree_ok sample_prims tiny_sparams"
  by (simp add: tree_ok_def digest_law_def sample_prims_def tiny_sparams_def)

lemma tiny_leaf_ok: "leaf_ok tiny_sparams (seal_hash sample_prims v)"
  using tiny_tree_ok by (simp add: tree_ok_def leaf_ok_seal_hash)

theorem incremental_tree_is_batch_witness:
  "append_leaf sample_prims tiny_sparams (seal_hash sample_prims ''c'')
      (build sample_prims tiny_sparams [seal_hash sample_prims ''a'', seal_hash sample_prims ''b''])
    = build sample_prims tiny_sparams [seal_hash sample_prims ''a'', seal_hash sample_prims ''b'', seal_hash sample_prims ''c'']"
  using incremental_tree_is_batch [OF tiny_tree_ok, of "[seal_hash sample_prims ''a'', seal_hash sample_prims ''b'']"
      "seal_hash sample_prims ''c''"] tiny_leaf_ok by simp

end
