(* ===== verification/Witness.thy ===== *)
theory Witness
  imports Crypto
begin

text \<open>
  The witness tree of \<open>chain/seal.py\<close>: a sparse Merkle tree of fixed height over positioned
  values, with its proofs (\<open>path\<close>, \<open>path_at\<close>, \<open>verify_witness\<close>).

  \<open>wtree\<close> is \<open>WitnessTree\<close>: \<open>w_nodes\<close> is the dictionary from (level, index) to digest that
  holds only the nodes different from their level's default. \<open>sub\<close> is the abstract tree: the
  digest of a subtree computed from its leaves. The invariant \<open>w_ok\<close> says that every stored
  or defaulted node is that digest, and each operation keeps it. A proof is a record with the
  integers an outsider may choose freely, so \<open>verify_witness\<close> is modelled on every input,
  negative numbers, missing siblings and malformed hex included.
\<close>

section \<open>Digests\<close>

definition wh :: "prims \<Rightarrow> bytes list \<Rightarrow> bytes" where
  "wh P parts = sha256 P (str_bytes ''fin6-witness'' @ concat parts)"

definition leaf_digest :: "prims \<Rightarrow> string \<Rightarrow> bytes" where
  "leaf_digest P value = wh P [[0], str_bytes value]"

definition node_digest :: "prims \<Rightarrow> bytes \<Rightarrow> bytes \<Rightarrow> bytes" where
  "node_digest P left right = wh P [[1], left, right]"

fun defaults :: "prims \<Rightarrow> nat \<Rightarrow> bytes list" where
  "defaults P 0 = [wh P [[2]]]"
| "defaults P (Suc h) = (let out = defaults P h in out @ [node_digest P (last out) (last out)])"

fun wdefault :: "prims \<Rightarrow> nat \<Rightarrow> bytes" where
  "wdefault P 0 = wh P [[2]]"
| "wdefault P (Suc l) = node_digest P (wdefault P l) (wdefault P l)"

lemma defaults_map: "defaults P h = map (wdefault P) [0..<Suc h]"
  by (induction h) (simp_all add: Let_def)

lemma nth_defaults [simp]: "l \<le> h \<Longrightarrow> defaults P h ! l = wdefault P l"
  by (simp add: defaults_map nth_append del: upt_Suc)

text \<open>\<open>index ^ 1\<close>.\<close>

definition xor1 :: "nat \<Rightarrow> nat" where
  "xor1 i = (if even i then i + 1 else i - 1)"

lemma xor1_simps [simp]: "xor1 (2 * i) = 2 * i + 1" "xor1 (2 * i + 1) = 2 * i" "xor1 (Suc (2 * i)) = 2 * i"
  by (simp_all add: xor1_def)

lemma xor1_div [simp]: "xor1 i div 2 = i div 2"
  by (auto simp: xor1_def elim!: evenE oddE)

lemma xor1_neq [simp]: "xor1 i \<noteq> i"
  by (auto simp: xor1_def elim!: oddE)

text \<open>A digest and its sibling, in the order the parity of the index fixes.\<close>

definition pair_digest :: "prims \<Rightarrow> nat \<Rightarrow> bytes \<Rightarrow> bytes \<Rightarrow> bytes" where
  "pair_digest P index node sibling =
     (if index mod 2 = 0 then node_digest P node sibling else node_digest P sibling node)"

section \<open>The tree\<close>

record wtree =
  w_label :: string
  w_height :: nat
  w_nodes :: "nat \<times> nat \<Rightarrow> bytes option"
  w_size :: nat

definition WITNESS_HEIGHT :: nat where
  "WITNESS_HEIGHT = 32"

definition wtree_new :: "string \<Rightarrow> nat \<Rightarrow> wtree" where
  "wtree_new label height = \<lparr>w_label = label, w_height = height, w_nodes = (\<lambda>_. None), w_size = 0\<rparr>"

definition node_at :: "prims \<Rightarrow> nat \<Rightarrow> (nat \<times> nat \<Rightarrow> bytes option) \<Rightarrow> nat \<Rightarrow> nat \<Rightarrow> bytes" where
  "node_at P h nodes level index =
     (case nodes (level, index) of Some d \<Rightarrow> d | None \<Rightarrow> defaults P h ! level)"

definition wget :: "prims \<Rightarrow> wtree \<Rightarrow> nat \<Rightarrow> nat \<Rightarrow> bytes" where
  "wget P t = node_at P (w_height t) (w_nodes t)"

definition wroot :: "prims \<Rightarrow> wtree \<Rightarrow> bytes" where
  "wroot P t = wget P t (w_height t) 0"

definition wroot_hex :: "prims \<Rightarrow> wtree \<Rightarrow> string" where
  "wroot_hex P t = hex_of (wroot P t)"

text \<open>The loop of \<open>set\<close> and \<open>clear\<close>: \<open>n\<close> levels are left, \<open>node\<close> is the digest just written
  at \<open>level\<close>.\<close>

fun climb :: "prims \<Rightarrow> nat \<Rightarrow> nat \<Rightarrow> nat \<Rightarrow> bytes \<Rightarrow> nat \<Rightarrow> (nat \<times> nat \<Rightarrow> bytes option)
    \<Rightarrow> (nat \<times> nat \<Rightarrow> bytes option)" where
  "climb P h 0 level node index nodes = nodes"
| "climb P h (Suc n) level node index nodes =
     (let node' = pair_digest P index node (node_at P h nodes level (xor1 index));
          index' = index div 2
      in climb P h n (Suc level) node' index'
           (nodes((level + 1, index') :=
              (if node' = defaults P h ! (level + 1) then None else Some node'))))"

definition wset :: "prims \<Rightarrow> nat \<Rightarrow> string \<Rightarrow> wtree \<Rightarrow> exn + wtree" where
  "wset P pos value t =
     (if \<not> pos < 2 ^ w_height t then Inl ValueError
      else let node = leaf_digest P value;
               nodes = (w_nodes t)((0, pos) := Some node)
           in Inr (t\<lparr>w_nodes := climb P (w_height t) (w_height t) 0 node pos nodes,
                     w_size := max (w_size t) (pos + 1)\<rparr>))"

definition wclear :: "prims \<Rightarrow> nat \<Rightarrow> wtree \<Rightarrow> wtree" where
  "wclear P pos t =
     (if w_nodes t (0, pos) = None then t
      else let node = defaults P (w_height t) ! 0;
               nodes = (w_nodes t)((0, pos) := None)
           in t\<lparr>w_nodes := climb P (w_height t) (w_height t) 0 node pos nodes,
                w_size := min (w_size t) pos\<rparr>)"

definition wappend :: "prims \<Rightarrow> string \<Rightarrow> wtree \<Rightarrow> exn + wtree" where
  "wappend P value t = wset P (w_size t) value t"

definition wextend :: "prims \<Rightarrow> string list \<Rightarrow> wtree \<Rightarrow> exn + wtree" where
  "wextend P values t = foldR (\<lambda>t v. wappend P v t) t values"

section \<open>Proofs\<close>

record wproof =
  p_pos :: int
  p_height :: int
  p_present :: int
  p_siblings :: "string list"

text \<open>The loop of \<open>path\<close> and \<open>path_at\<close>; \<open>sib\<close> says which digest stands beside the path.\<close>

fun collect :: "prims \<Rightarrow> nat \<Rightarrow> (nat \<Rightarrow> nat \<Rightarrow> bytes) \<Rightarrow> nat \<Rightarrow> nat \<Rightarrow> nat \<Rightarrow> int \<Rightarrow> string list
    \<Rightarrow> int \<times> string list" where
  "collect P h sib 0 level index present siblings = (present, siblings)"
| "collect P h sib (Suc n) level index present siblings =
     (let s = sib level (xor1 index)
      in if s \<noteq> defaults P h ! level
         then collect P h sib n (Suc level) (index div 2) (set_bit level present) (siblings @ [hex_of s])
         else collect P h sib n (Suc level) (index div 2) present siblings)"

definition make_path :: "prims \<Rightarrow> wtree \<Rightarrow> (nat \<Rightarrow> nat \<Rightarrow> bytes) \<Rightarrow> nat \<Rightarrow> wproof" where
  "make_path P t sib pos =
     (let (present, siblings) = collect P (w_height t) sib (w_height t) 0 pos 0 []
      in \<lparr>p_pos = int pos, p_height = int (w_height t), p_present = present, p_siblings = siblings\<rparr>)"

definition path :: "prims \<Rightarrow> wtree \<Rightarrow> nat \<Rightarrow> wproof" where
  "path P t pos = make_path P t (wget P t) pos"

fun boundary_loop :: "prims \<Rightarrow> wtree \<Rightarrow> nat \<Rightarrow> nat \<Rightarrow> bytes \<Rightarrow> nat \<Rightarrow> bytes list" where
  "boundary_loop P t 0 level acc index = [acc]"
| "boundary_loop P t (Suc n) level acc index =
     acc # boundary_loop P t n (Suc level)
       (if odd index then node_digest P (wget P t level (index - 1)) acc
        else node_digest P acc (defaults P (w_height t) ! level)) (index div 2)"

definition boundary :: "prims \<Rightarrow> wtree \<Rightarrow> nat \<Rightarrow> bytes list" where
  "boundary P t k = boundary_loop P t (w_height t) 0 (defaults P (w_height t) ! 0) k"

definition root_at :: "prims \<Rightarrow> wtree \<Rightarrow> nat \<Rightarrow> string" where
  "root_at P t k =
     (if k = 0 then hex_of (defaults P (w_height t) ! w_height t)
      else if w_size t \<le> k then wroot_hex P t
      else hex_of (boundary P t k ! w_height t))"

definition cut_sibling :: "prims \<Rightarrow> wtree \<Rightarrow> nat \<Rightarrow> nat \<Rightarrow> nat \<Rightarrow> bytes" where
  "cut_sibling P t k level s =
     (if (s + 1) * 2 ^ level \<le> k then wget P t level s
      else if k \<le> s * 2 ^ level then defaults P (w_height t) ! level
      else boundary P t k ! level)"

definition path_at :: "prims \<Rightarrow> wtree \<Rightarrow> nat \<Rightarrow> nat \<Rightarrow> exn + wproof" where
  "path_at P t pos k =
     (if w_size t \<le> k then Inr (path P t pos)
      else if \<not> pos < k then Inl ValueError
      else Inr (make_path P t (cut_sibling P t k) pos))"

text \<open>\<open>bin(present).count("1")\<close>.\<close>

fun ones :: "nat \<Rightarrow> nat" where
  "ones n = (if n = 0 then 0 else n mod 2 + ones (n div 2))"

declare ones.simps [simp del]

fun verify_loop :: "prims \<Rightarrow> nat \<Rightarrow> nat \<Rightarrow> nat \<Rightarrow> bytes \<Rightarrow> nat \<Rightarrow> int \<Rightarrow> string list \<Rightarrow> bytes option" where
  "verify_loop P h 0 level node index present siblings = Some node"
| "verify_loop P h (Suc n) level node index present siblings =
     (if present div 2 ^ level mod 2 = 1
      then (case siblings of [] \<Rightarrow> None
        | s # rest \<Rightarrow> (case fromhex s of None \<Rightarrow> None
            | Some b \<Rightarrow> verify_loop P h n (Suc level) (pair_digest P index node b) (index div 2) present rest))
      else verify_loop P h n (Suc level) (pair_digest P index node (defaults P h ! level))
             (index div 2) present siblings)"

definition verify_witness :: "prims \<Rightarrow> string \<Rightarrow> wproof \<Rightarrow> string \<Rightarrow> bool" where
  "verify_witness P value proof root =
     (0 \<le> p_height proof \<and> 0 \<le> p_pos proof \<and> p_pos proof < 2 ^ nat (p_height proof)
      \<and> ones (nat \<bar>p_present proof\<bar>) = length (p_siblings proof)
      \<and> (case verify_loop P (nat (p_height proof)) (nat (p_height proof)) 0 (leaf_digest P value)
                (nat (p_pos proof)) (p_present proof) (p_siblings proof) of
           None \<Rightarrow> False
         | Some node \<Rightarrow> fromhex root = Some node))"

section \<open>The abstract tree\<close>

fun sub :: "prims \<Rightarrow> (nat \<Rightarrow> bytes) \<Rightarrow> nat \<Rightarrow> nat \<Rightarrow> bytes" where
  "sub P lf 0 i = lf i"
| "sub P lf (Suc l) i = node_digest P (sub P lf l (2 * i)) (sub P lf l (2 * i + 1))"

definition leaf_fun :: "prims \<Rightarrow> wtree \<Rightarrow> nat \<Rightarrow> bytes" where
  "leaf_fun P t i = wget P t 0 i"

definition w_ok :: "prims \<Rightarrow> wtree \<Rightarrow> bool" where
  "w_ok P t = ((\<forall>l i. l \<le> w_height t \<longrightarrow> wget P t l i = sub P (leaf_fun P t) l i)
     \<and> (\<forall>i. w_size t \<le> i \<longrightarrow> w_nodes t (0, i) = None))"

lemma sub_cong:
  "(\<And>j. i * 2 ^ l \<le> j \<Longrightarrow> j < (i + 1) * 2 ^ l \<Longrightarrow> lf j = lf' j) \<Longrightarrow> sub P lf l i = sub P lf' l i"
proof (induction l arbitrary: i)
  case 0
  then show ?case by simp
next
  case (Suc l)
  have "sub P lf l (2 * i) = sub P lf' l (2 * i)"
    by (rule Suc.IH) (use Suc.prems in \<open>simp add: algebra_simps\<close>)
  moreover have "sub P lf l (2 * i + 1) = sub P lf' l (2 * i + 1)"
    by (rule Suc.IH) (use Suc.prems in \<open>simp add: algebra_simps\<close>)
  ultimately show ?case by simp
qed

lemma sub_default: "(\<And>j. i * 2 ^ l \<le> j \<Longrightarrow> lf j = wdefault P 0) \<Longrightarrow> sub P lf l i = wdefault P l"
proof (induction l arbitrary: i)
  case (Suc l)
  have "sub P lf l (2 * i) = wdefault P l" "sub P lf l (2 * i + 1) = wdefault P l"
    by (rule Suc.IH; use Suc.prems in \<open>simp add: algebra_simps\<close>)+
  then show ?case by simp
qed simp

lemma sub_step: "sub P lf (Suc l) (i div 2) = pair_digest P i (sub P lf l i) (sub P lf l (xor1 i))"
proof (cases "even i")
  case True
  then obtain j where "i = 2 * j" by (elim evenE)
  then show ?thesis by (simp add: pair_digest_def)
next
  case False
  then obtain j where "i = 2 * j + 1" by (elim oddE)
  then show ?thesis by (simp add: pair_digest_def)
qed

lemma w_ok_new: "w_ok P (wtree_new label h)"
proof -
  have "sub P (leaf_fun P (wtree_new label h)) l i = wdefault P l" for l i
    by (rule sub_default) (simp add: leaf_fun_def wget_def node_at_def wtree_new_def)
  then show ?thesis by (simp add: w_ok_def wget_def node_at_def wtree_new_def)
qed

lemma div_2_power_Suc: "pos div 2 ^ l div 2 = (pos :: nat) div 2 ^ Suc l"
  by (simp add: div_mult2_eq [symmetric] mult.commute)

lemma node_at_upd: "node_at P h (nodes((l, i) := v)) l' i' =
    (if l' = l \<and> i' = i then (case v of Some d \<Rightarrow> d | None \<Rightarrow> defaults P h ! l) else node_at P h nodes l' i')"
  by (auto simp: node_at_def)

text \<open>After \<open>k\<close> turns of the loop the levels up to \<open>k\<close> are right for the new leaves, and above
  only the nodes over \<open>pos\<close> are not yet.\<close>

lemma climb_sub:
  assumes "level + n = h"
    and "node = sub P lf level (pos div 2 ^ level)"
    and "\<And>l i. l \<le> level \<Longrightarrow> node_at P h nodes l i = sub P lf l i"
    and "\<And>l i. level < l \<Longrightarrow> l \<le> h \<Longrightarrow> i \<noteq> pos div 2 ^ l \<Longrightarrow> node_at P h nodes l i = sub P lf l i"
    and "l \<le> h"
  shows "node_at P h (climb P h n level node (pos div 2 ^ level) nodes) l i = sub P lf l i"
  using assms
proof (induction n arbitrary: level node nodes)
  case 0
  then show ?case by simp
next
  case (Suc n)
  let ?i = "pos div 2 ^ level"
  let ?node = "pair_digest P ?i node (node_at P h nodes level (xor1 ?i))"
  have node: "?node = sub P lf (Suc level) (pos div 2 ^ Suc level)"
    using Suc.prems(2,3) by (simp add: sub_step [symmetric] div_2_power_Suc del: sub.simps power_Suc)
  let ?v = "if ?node = defaults P h ! (level + 1) then None else Some ?node"
  let ?nodes = "nodes((level + 1, pos div 2 ^ Suc level) := ?v)"
  have here: "node_at P h ?nodes (level + 1) (pos div 2 ^ Suc level) = ?node"
    by (simp add: node_at_upd)
  have "node_at P h (climb P h n (Suc level) ?node (pos div 2 ^ Suc level) ?nodes) l i = sub P lf l i"
  proof (rule Suc.IH)
    show "node_at P h ?nodes l i = sub P lf l i" if "l \<le> Suc level" for l i
    proof (cases "l = Suc level \<and> i = pos div 2 ^ Suc level")
      case True
      then show ?thesis using here node by simp
    next
      case False
      then have "node_at P h ?nodes l i = node_at P h nodes l i"
        by (auto simp: node_at_upd simp del: power_Suc)
      then show ?thesis
        using False that Suc.prems(1,3,4) by (cases "l = Suc level") (auto simp del: power_Suc)
    qed
    show "node_at P h ?nodes l i = sub P lf l i"
      if "Suc level < l" "l \<le> h" "i \<noteq> pos div 2 ^ l" for l i
      using Suc.prems(4) [of l i] that by (simp add: node_at_upd del: power_Suc)
  qed (use Suc.prems node in \<open>simp_all del: power_Suc\<close>)
  then show ?case by (simp add: Let_def div_2_power_Suc del: power_Suc)
qed

lemma climb_level0: "climb P h n level node index nodes (0, i) = nodes (0, i)"
  by (induction n arbitrary: level node index nodes) (simp_all add: Let_def)

text \<open>Writing the digest \<open>d\<close> (or emptying the slot) at \<open>pos\<close> and climbing.\<close>

lemma climb_ok:
  assumes "\<And>l i. l \<le> h \<Longrightarrow> node_at P h nodes l i = sub P (node_at P h nodes 0) l i"
  shows "l \<le> h \<Longrightarrow>
    node_at P h (climb P h h 0 (case v of Some d \<Rightarrow> d | None \<Rightarrow> defaults P h ! 0) pos (nodes((0, pos) := v))) l i
     = sub P (node_at P h (nodes((0, pos) := v)) 0) l i"
proof -
  let ?new = "nodes((0, pos) := v)"
  let ?lf = "node_at P h ?new 0"
  have node0: "(case v of Some d \<Rightarrow> d | None \<Rightarrow> defaults P h ! 0) = ?lf pos"
    by (simp add: node_at_upd)
  assume "l \<le> h"
  have "node_at P h (climb P h h 0 (?lf pos) (pos div 2 ^ 0) ?new) l i = sub P ?lf l i"
  proof (rule climb_sub)
    show "node_at P h ?new l i = sub P ?lf l i"
      if "0 < l" "l \<le> h" "i \<noteq> pos div 2 ^ l" for l i
    proof -
      have "node_at P h ?new l i = sub P (node_at P h nodes 0) l i"
        using that assms by (simp add: node_at_upd)
      also have "\<dots> = sub P ?lf l i"
      proof (rule sub_cong)
        fix j assume j: "i * 2 ^ l \<le> j" "j < (i + 1) * 2 ^ l"
        then have "j div 2 ^ l = i"
          by (metis add.commute div_nat_eqI mult.commute plus_1_eq_Suc)
        with that(3) have "j \<noteq> pos" by auto
        then show "node_at P h nodes 0 j = ?lf j" by (simp add: node_at_upd)
      qed
      finally show ?thesis .
    qed
  qed (use \<open>l \<le> h\<close> in simp_all)
  then show ?thesis unfolding node0 by simp
qed

lemma leaf_fun_node_at: "leaf_fun P t = node_at P (w_height t) (w_nodes t) 0"
  by (rule ext) (simp add: leaf_fun_def wget_def)

lemma w_ok_iff: "w_ok P t \<longleftrightarrow>
    (\<forall>l i. l \<le> w_height t \<longrightarrow> node_at P (w_height t) (w_nodes t) l i
        = sub P (node_at P (w_height t) (w_nodes t) 0) l i)
    \<and> (\<forall>i. w_size t \<le> i \<longrightarrow> w_nodes t (0, i) = None)"
  by (simp only: w_ok_def leaf_fun_node_at wget_def)

lemma w_ok_node_at: "w_ok P t \<Longrightarrow> l \<le> w_height t \<Longrightarrow>
    node_at P (w_height t) (w_nodes t) l i = sub P (node_at P (w_height t) (w_nodes t) 0) l i"
  by (simp only: w_ok_iff)

lemma wset_ok:
  assumes "w_ok P t" "wset P pos value t = Inr t'"
  shows "w_ok P t'"
    and "leaf_fun P t' = (leaf_fun P t)(pos := leaf_digest P value)"
    and "w_size t' = max (w_size t) (pos + 1)" "w_height t' = w_height t"
    and "w_nodes t' (0, i) = (if i = pos then Some (leaf_digest P value) else w_nodes t (0, i))"
proof -
  let ?h = "w_height t"
  let ?new = "climb P ?h ?h 0 (leaf_digest P value) pos ((w_nodes t)((0, pos) := Some (leaf_digest P value)))"
  from assms(2) have t': "t' = t\<lparr>w_nodes := ?new, w_size := max (w_size t) (pos + 1)\<rparr>"
    by (auto simp: wset_def Let_def split: if_splits)
  have z: "node_at P ?h ?new 0 = node_at P ?h ((w_nodes t)((0, pos) := Some (leaf_digest P value))) 0"
    by (rule ext) (simp add: node_at_def climb_level0)
  have "node_at P ?h ?new l i = sub P (node_at P ?h ?new 0) l i" if "l \<le> ?h" for l i
    using climb_ok [OF w_ok_node_at [OF assms(1)] that, where v = "Some (leaf_digest P value)"]
    unfolding z by simp
  then show "w_ok P t'"
    using assms(1) by (simp add: t' w_ok_iff climb_level0)
  show "leaf_fun P t' = (leaf_fun P t)(pos := leaf_digest P value)"
    by (rule ext) (simp add: t' leaf_fun_def wget_def z node_at_upd)
  show "w_size t' = max (w_size t) (pos + 1)" "w_height t' = w_height t"
    "w_nodes t' (0, i) = (if i = pos then Some (leaf_digest P value) else w_nodes t (0, i))"
    by (simp_all add: t' climb_level0)
qed

text \<open>Clearing is meant for the last occupied slot; the size claim needs that.\<close>

lemma wclear_ok:
  assumes "w_ok P t" "w_nodes t (0, pos) \<noteq> None" "w_size t = Suc pos"
  shows "w_ok P (wclear P pos t)"
    and "w_size (wclear P pos t) = pos"
    and "w_height (wclear P pos t) = w_height t"
    and "w_nodes (wclear P pos t) (0, i) = (if i = pos then None else w_nodes t (0, i))"
proof -
  let ?h = "w_height t"
  let ?new = "climb P ?h ?h 0 (defaults P ?h ! 0) pos ((w_nodes t)((0, pos) := None))"
  have t': "wclear P pos t = t\<lparr>w_nodes := ?new, w_size := pos\<rparr>"
    using assms by (auto simp: wclear_def Let_def)
  have z: "node_at P ?h ?new 0 = node_at P ?h ((w_nodes t)((0, pos) := None)) 0"
    by (rule ext) (simp add: node_at_def climb_level0)
  have "node_at P ?h ?new l i = sub P (node_at P ?h ?new 0) l i" if "l \<le> ?h" for l i
    using climb_ok [OF w_ok_node_at [OF assms(1)] that, where v = None]
    unfolding z by simp
  moreover have "?new (0, i) = None" if "pos \<le> i" for i
    using assms(1,3) that by (auto simp: w_ok_iff climb_level0)
  ultimately show "w_ok P (wclear P pos t)" unfolding t' w_ok_iff by simp
  show "w_size (wclear P pos t) = pos" "w_height (wclear P pos t) = w_height t"
    "w_nodes (wclear P pos t) (0, i) = (if i = pos then None else w_nodes t (0, i))"
    by (simp_all add: t' climb_level0)
qed

section \<open>What a tree holds\<close>

definition w_holds :: "prims \<Rightarrow> wtree \<Rightarrow> (nat \<Rightarrow> string option) \<Rightarrow> bool" where
  "w_holds P t vals = (w_ok P t \<and> (\<forall>i. w_nodes t (0, i) = map_option (leaf_digest P) (vals i)))"

definition val_leaf :: "prims \<Rightarrow> (nat \<Rightarrow> string option) \<Rightarrow> nat \<Rightarrow> bytes" where
  "val_leaf P vals i = (case vals i of Some v \<Rightarrow> leaf_digest P v | None \<Rightarrow> wdefault P 0)"

definition list_vals :: "string list \<Rightarrow> nat \<Rightarrow> string option" where
  "list_vals vs i = (if i < length vs then Some (vs ! i) else None)"

lemma w_holds_get:
  "w_holds P t vals \<Longrightarrow> l \<le> w_height t \<Longrightarrow> wget P t l i = sub P (val_leaf P vals) l i"
proof -
  assume h: "w_holds P t vals"
  then have "leaf_fun P t = val_leaf P vals"
    by (intro ext) (auto simp: leaf_fun_def wget_def node_at_def val_leaf_def w_holds_def split: option.splits)
  moreover assume "l \<le> w_height t"
  ultimately show ?thesis using h by (simp add: w_holds_def w_ok_def)
qed

lemma w_holds_root: "w_holds P t vals \<Longrightarrow> wroot P t = sub P (val_leaf P vals) (w_height t) 0"
  by (simp add: wroot_def w_holds_get)

lemma w_holds_new: "w_holds P (wtree_new label h) (\<lambda>_. None)"
  by (simp add: w_holds_def w_ok_new) (simp add: wtree_new_def)

lemma w_holds_set:
  "w_holds P t vals \<Longrightarrow> wset P pos v t = Inr t' \<Longrightarrow> w_holds P t' (vals(pos \<mapsto> v))"
  using wset_ok unfolding w_holds_def by (metis (no_types, lifting) fun_upd_apply option.simps(9))

lemma w_holds_clear:
  "w_holds P t vals \<Longrightarrow> vals pos \<noteq> None \<Longrightarrow> w_size t = Suc pos \<Longrightarrow> w_holds P (wclear P pos t) (vals(pos := None))"
  using wclear_ok [of P t pos] unfolding w_holds_def by auto

text \<open>The whole tree is its list of leaves: appending is appending to the list.\<close>

definition w_list :: "prims \<Rightarrow> nat \<Rightarrow> string list \<Rightarrow> wtree \<Rightarrow> bool" where
  "w_list P h vs t = (w_holds P t (list_vals vs) \<and> w_size t = length vs \<and> w_height t = h)"

lemma w_list_new: "w_list P h [] (wtree_new label h)"
proof -
  have "list_vals [] = (\<lambda>_. None)" by (rule ext) (simp add: list_vals_def)
  then show ?thesis using w_holds_new [of P label h] by (simp add: w_list_def wtree_new_def)
qed

lemma list_vals_snoc: "list_vals (vs @ [v]) = (list_vals vs)(length vs \<mapsto> v)"
  by (rule ext) (auto simp: list_vals_def nth_append)

lemma list_vals_update: "i < length vs \<Longrightarrow> list_vals (vs[i := v]) = (list_vals vs)(i \<mapsto> v)"
  by (rule ext) (auto simp: list_vals_def nth_list_update)

lemma list_vals_butlast: "vs \<noteq> [] \<Longrightarrow> list_vals (butlast vs) = (list_vals vs)(length vs - 1 := None)"
  by (rule ext) (auto simp: list_vals_def nth_butlast)

lemma w_list_append:
  assumes "w_list P h vs t" "length vs < 2 ^ h"
  shows "\<exists>t'. wappend P v t = Inr t' \<and> w_list P h (vs @ [v]) t'"
proof -
  obtain t' where t': "wappend P v t = Inr t'" "wset P (length vs) v t = Inr t'"
    using assms by (auto simp: wappend_def wset_def w_list_def Let_def)
  then show ?thesis
    using assms w_holds_set [OF _ t'(2)] wset_ok(3,4) [OF _ t'(2)]
    by (auto simp: w_list_def list_vals_snoc w_holds_def)
qed

lemma w_list_set:
  assumes "w_list P h vs t" "i < length vs" "length vs \<le> 2 ^ h"
  shows "\<exists>t'. wset P i v t = Inr t' \<and> w_list P h (vs[i := v]) t'"
proof -
  obtain t' where t': "wset P i v t = Inr t'"
    using assms by (auto simp: wset_def w_list_def Let_def)
  then show ?thesis
    using assms w_holds_set [OF _ t'] wset_ok(3,4) [OF _ t']
    by (auto simp: w_list_def list_vals_update w_holds_def)
qed

lemma w_list_set_end:
  assumes "w_list P h vs t" "length vs < 2 ^ h"
  shows "\<exists>t'. wset P (length vs) v t = Inr t' \<and> w_list P h (vs @ [v]) t'"
  using w_list_append [OF assms] assms(1) by (simp add: wappend_def w_list_def)

lemma w_list_extend:
  "w_list P h vs t \<Longrightarrow> length vs + length us \<le> 2 ^ h \<Longrightarrow>
     \<exists>t'. wextend P us t = Inr t' \<and> w_list P h (vs @ us) t'"
proof (induction us arbitrary: vs t)
  case Nil
  then show ?case by (simp add: wextend_def)
next
  case (Cons u us)
  obtain t1 where t1: "wappend P u t = Inr t1" "w_list P h (vs @ [u]) t1"
    using w_list_append [OF Cons.prems(1)] Cons.prems(2) by force
  from Cons.IH [OF t1(2)] Cons.prems(2) t1(1) show ?case
    by (simp add: wextend_def)
qed

lemma w_list_clear:
  assumes "w_list P h vs t" "vs \<noteq> []"
  shows "w_list P h (butlast vs) (wclear P (length vs - 1) t)"
proof -
  have v: "list_vals vs (length vs - 1) \<noteq> None" "w_size t = Suc (length vs - 1)"
    using assms by (auto simp: list_vals_def w_list_def)
  have h: "w_holds P t (list_vals vs)" "w_ok P t" "w_nodes t (0, length vs - 1) \<noteq> None"
    using assms v by (auto simp: w_list_def w_holds_def)
  show ?thesis
    using w_holds_clear [OF h(1) v] wclear_ok(2,3) [OF h(2,3) v(2)] assms
    by (simp add: w_list_def list_vals_butlast)
qed

lemma w_list_root_unique:
  "w_list P h vs t \<Longrightarrow> w_list P h vs t' \<Longrightarrow> wroot P t = wroot P t'"
  by (auto simp: w_list_def w_holds_root)

section \<open>A path verifies\<close>

fun walk :: "prims \<Rightarrow> (nat \<Rightarrow> nat \<Rightarrow> bytes) \<Rightarrow> nat \<Rightarrow> nat \<Rightarrow> bytes \<Rightarrow> nat \<Rightarrow> bytes" where
  "walk P sib 0 level node index = node"
| "walk P sib (Suc n) level node index =
     walk P sib n (Suc level) (pair_digest P index node (sib level (xor1 index))) (index div 2)"

lemma ones_0 [simp]: "ones 0 = 0"
  by (simp add: ones.simps)

lemma ones_add: "n < 2 ^ l \<Longrightarrow> ones (n + 2 ^ l) = Suc (ones n)"
proof (induction l arbitrary: n)
  case 0
  then show ?case by (simp add: ones.simps [of "Suc 0"])
next
  case (Suc l)
  have "(n + 2 ^ Suc l) div 2 = n div 2 + 2 ^ l" "(n + 2 ^ Suc l) mod 2 = n mod 2" by simp_all
  moreover have "ones (n div 2 + 2 ^ l) = Suc (ones (n div 2))"
    using Suc.prems by (intro Suc.IH) simp
  moreover have "ones m = m mod 2 + ones (m div 2)" for m
    by (cases "m = 0") (simp, subst ones.simps, simp)
  ultimately show ?case by (metis add_Suc_right)
qed

lemma nat_add_power: "0 \<le> a \<Longrightarrow> nat (a + 2 ^ l) = nat a + 2 ^ l"
  by (simp add: nat_add_distrib nat_power_eq)

lemma div_mod_2: "a div 2 ^ l mod 2 = a mod 2 ^ Suc l div (2 ^ l :: int)"
proof -
  have "a mod (2 ^ l * 2) = 2 ^ l * (a div 2 ^ l mod 2) + a mod 2 ^ l"
    by (rule zmod_zmult2_eq) simp
  then show ?thesis by (simp add: mult.commute)
qed

lemma collect_verify:
  assumes "collect P h sib n level index present siblings = (present', siblings')"
    "level + n = h" "0 \<le> present" "present < 2 ^ level"
  shows "\<exists>extra. siblings' = siblings @ extra \<and> 0 \<le> present' \<and> present' mod 2 ^ level = present
     \<and> ones (nat present') = ones (nat present) + length extra
     \<and> (\<forall>node. verify_loop P h n level node index present' extra = Some (walk P sib n level node index))"
  using assms
proof (induction n arbitrary: level index present siblings)
  case 0
  then show ?case by simp
next
  case (Suc n)
  let ?s = "sib level (xor1 index)"
  show ?case
  proof (cases "?s = defaults P h ! level")
    case True
    then obtain extra where e: "siblings' = siblings @ extra" "0 \<le> present'"
        "present' mod 2 ^ Suc level = present"
        "ones (nat present') = ones (nat present) + length extra"
        "\<forall>node. verify_loop P h n (Suc level) node (index div 2) present' extra
           = Some (walk P sib n (Suc level) node (index div 2))"
      using Suc.IH [of "Suc level" "index div 2" present siblings] Suc.prems by (auto simp: Let_def)
    have "present' mod 2 ^ level = (present' mod 2 ^ Suc level) mod 2 ^ level"
      by (simp add: mod_mod_cancel le_imp_power_dvd)
    then have m: "present' mod 2 ^ level = present" using e(3) Suc.prems(3,4) by simp
    have "present' div 2 ^ level mod 2 = 0"
      using e(3) Suc.prems(3,4) unfolding div_mod_2 by simp
    then show ?thesis using e m True by (intro exI [of _ extra]) simp
  next
    case False
    let ?p = "present + 2 ^ level"
    have "bit present level = False"
      using Suc.prems(3,4) by (simp add: bit_iff_odd)
    then have sb: "set_bit level present = ?p" by (simp add: set_bit_eq)
    then obtain extra where e: "siblings' = (siblings @ [hex_of ?s]) @ extra" "0 \<le> present'"
        "present' mod 2 ^ Suc level = ?p"
        "ones (nat present') = ones (nat ?p) + length extra"
        "\<forall>node. verify_loop P h n (Suc level) node (index div 2) present' extra
           = Some (walk P sib n (Suc level) node (index div 2))"
      using Suc.IH [of "Suc level" "index div 2" ?p "siblings @ [hex_of ?s]"] Suc.prems False
      by (auto simp: Let_def)
    have "present' mod 2 ^ level = (present' mod 2 ^ Suc level) mod 2 ^ level"
      by (simp add: mod_mod_cancel le_imp_power_dvd)
    then have m: "present' mod 2 ^ level = present" using e(3) Suc.prems(3,4) by simp
    have bit: "present' div 2 ^ level mod 2 = 1"
      using e(3) Suc.prems(3,4) unfolding div_mod_2 by (simp add: div_add_self2)
    have "nat present < 2 ^ level" using Suc.prems(3,4) by (simp add: nat_less_iff)
    then have "ones (nat ?p) = Suc (ones (nat present))"
      using Suc.prems(3) by (simp add: nat_add_power ones_add)
    then show ?thesis using e m bit by (intro exI [of _ "hex_of ?s # extra"]) simp
  qed
qed

lemma make_path_verifies:
  assumes "pos < 2 ^ w_height t" "fromhex root = Some (walk P sib (w_height t) 0 (leaf_digest P v) pos)"
  shows "verify_witness P v (make_path P t sib pos) root"
proof -
  obtain present siblings where c: "collect P (w_height t) sib (w_height t) 0 pos 0 [] = (present, siblings)"
    by force
  from collect_verify [OF c] have "0 \<le> present" "ones (nat present) = length siblings"
    "\<forall>node. verify_loop P (w_height t) (w_height t) 0 node pos present siblings
       = Some (walk P sib (w_height t) 0 node pos)"
    by auto
  moreover have "int pos < 2 ^ w_height t"
    using assms(1) by (metis of_nat_less_iff of_nat_numeral of_nat_power)
  ultimately show ?thesis using assms(2) c
    by (simp add: verify_witness_def make_path_def)
qed

lemma walk_sub:
  assumes "\<And>l. l < n \<Longrightarrow> sib (level + l) (xor1 (index div 2 ^ l)) = sub P lf (level + l) (xor1 (index div 2 ^ l))"
    and "node = sub P lf level index"
  shows "walk P sib n level node index = sub P lf (level + n) (index div 2 ^ n)"
  using assms
proof (induction n arbitrary: level node index)
  case 0
  then show ?case by simp
next
  case (Suc n)
  have node: "pair_digest P index node (sib level (xor1 index)) = sub P lf (Suc level) (index div 2)"
    using Suc.prems(1) [of 0] Suc.prems(2) by (simp add: sub_step [symmetric] del: sub.simps)
  have "sib (Suc level + l) (xor1 (index div 2 div 2 ^ l)) = sub P lf (Suc level + l) (xor1 (index div 2 div 2 ^ l))"
    if "l < n" for l
    using Suc.prems(1) [of "Suc l"] that by (simp add: div_mult2_eq)
  from Suc.IH [OF this node] show ?case
    by (simp add: div_mult2_eq del: sub.simps)
qed

lemma path_verifies:
  assumes "w_holds P t vals" "vals pos = Some v" "pos < 2 ^ w_height t"
  shows "verify_witness P v (path P t pos) (wroot_hex P t)"
proof -
  have "walk P (wget P t) (w_height t) 0 (leaf_digest P v) pos
      = sub P (val_leaf P vals) (0 + w_height t) (pos div 2 ^ w_height t)"
    using assms(2) w_holds_get [OF assms(1)] by (intro walk_sub) (auto simp: val_leaf_def)
  then have "walk P (wget P t) (w_height t) 0 (leaf_digest P v) pos = wroot P t"
    using assms(1,3) by (simp add: w_holds_root)
  then show ?thesis
    unfolding path_def using assms(3) by (intro make_path_verifies) (simp_all add: wroot_hex_def)
qed

section \<open>Roots and paths of a prefix\<close>

definition cut_vals :: "nat \<Rightarrow> (nat \<Rightarrow> string option) \<Rightarrow> nat \<Rightarrow> string option" where
  "cut_vals k vals i = (if i < k then vals i else None)"

lemma list_vals_take: "list_vals (take k vs) = cut_vals k (list_vals vs)"
  by (rule ext) (auto simp: list_vals_def cut_vals_def)

lemma sub_below:
  "(i + 1) * 2 ^ l \<le> k \<Longrightarrow> sub P (val_leaf P (cut_vals k vals)) l i = sub P (val_leaf P vals) l i"
  by (rule sub_cong) (simp add: val_leaf_def cut_vals_def)

lemma sub_above:
  "k \<le> i * 2 ^ l \<Longrightarrow> sub P (val_leaf P (cut_vals k vals)) l i = wdefault P l"
  by (rule sub_default) (simp add: val_leaf_def cut_vals_def)

lemma boundary_step:
  assumes "w_holds P t vals" "level \<le> w_height t" "index = k div 2 ^ level"
    "acc = sub P (val_leaf P (cut_vals k vals)) level index"
  shows "(if odd index then node_digest P (wget P t level (index - 1)) acc
        else node_digest P acc (defaults P (w_height t) ! level))
     = sub P (val_leaf P (cut_vals k vals)) (Suc level) (index div 2)"
proof (cases "odd index")
  case True
  then obtain j where j: "index = 2 * j + 1" by (elim oddE)
  have "index * 2 ^ level \<le> k" using assms(3) by simp
  then have "(index - 1 + 1) * 2 ^ level \<le> k" using j by simp
  then have "wget P t level (index - 1) = sub P (val_leaf P (cut_vals k vals)) level (index - 1)"
    using assms(1,2) by (simp only: w_holds_get sub_below)
  then show ?thesis using j assms(4) by simp
next
  case False
  then obtain j where j: "index = 2 * j" by (auto elim!: evenE)
  have "k < index * 2 ^ level + 2 ^ level"
    using assms(3) dividend_less_div_times [of "2 ^ level" k] by simp
  then have "k \<le> (index + 1) * 2 ^ level" by simp
  then have "sub P (val_leaf P (cut_vals k vals)) level (index + 1) = wdefault P level"
    by (rule sub_above)
  then show ?thesis using j assms(2,4) by simp
qed

lemma boundary_loop_nth:
  assumes "w_holds P t vals" "level + n = w_height t" "index = k div 2 ^ level"
    "acc = sub P (val_leaf P (cut_vals k vals)) level index" "l \<le> n"
  shows "boundary_loop P t n level acc index ! l
     = sub P (val_leaf P (cut_vals k vals)) (level + l) (k div 2 ^ (level + l))"
  using assms
proof (induction n arbitrary: level acc index l)
  case 0
  then show ?case by simp
next
  case (Suc n)
  show ?case
  proof (cases l)
    case 0
    then show ?thesis using Suc.prems by simp
  next
    case (Suc m)
    have idx: "index div 2 = k div 2 ^ Suc level" using Suc.prems(3) by (simp add: div_2_power_Suc del: power_Suc)
    have "level \<le> w_height t" using Suc.prems(2) by simp
    note acc = boundary_step [OF Suc.prems(1) this Suc.prems(3,4)]
    show ?thesis
      unfolding Suc boundary_loop.simps nth_Cons_Suc
      using Suc.IH [OF Suc.prems(1) _ idx acc, of m] Suc.prems(2,5) Suc by simp
  qed
qed

lemma boundary_nth:
  assumes "w_holds P t vals" "l \<le> w_height t"
  shows "boundary P t k ! l = sub P (val_leaf P (cut_vals k vals)) l (k div 2 ^ l)"
proof -
  have "wdefault P 0 = sub P (val_leaf P (cut_vals k vals)) 0 (k div 2 ^ 0)"
    by (simp add: val_leaf_def cut_vals_def)
  from boundary_loop_nth [OF assms(1) _ _ this, of "w_height t" l] show ?thesis
    using assms(2) by (simp add: boundary_def)
qed

lemma root_at_sub:
  assumes "w_holds P t vals" "k < 2 ^ w_height t" "\<And>i. w_size t \<le> i \<Longrightarrow> vals i = None"
  shows "root_at P t k = hex_of (sub P (val_leaf P (cut_vals k vals)) (w_height t) 0)"
proof -
  have "sub P (val_leaf P (cut_vals 0 vals)) (w_height t) 0 = wdefault P (w_height t)"
    by (rule sub_above) simp
  moreover have "cut_vals k vals = vals" if "w_size t \<le> k"
    using that assms(3) by (intro ext) (simp add: cut_vals_def)
  ultimately show ?thesis
    using assms(1,2) boundary_nth [OF assms(1) order_refl, of k]
    by (auto simp: root_at_def wroot_hex_def w_holds_root)
qed

lemma cut_sibling_sub:
  assumes "w_holds P t vals" "level \<le> w_height t"
  shows "cut_sibling P t k level s = sub P (val_leaf P (cut_vals k vals)) level s"
proof -
  consider "(s + 1) * 2 ^ level \<le> k" | "\<not> (s + 1) * 2 ^ level \<le> k" "k \<le> s * 2 ^ level"
    | "\<not> (s + 1) * 2 ^ level \<le> k" "\<not> k \<le> s * 2 ^ level" by blast
  then show ?thesis
  proof cases
    case 1
    then show ?thesis using assms by (simp only: cut_sibling_def w_holds_get sub_below if_True)
  next
    case 2
    then show ?thesis using assms(2) by (simp only: cut_sibling_def sub_above if_True if_False nth_defaults)
  next
    case 3
    then have "k div 2 ^ level = s"
      by (intro div_nat_eqI) (simp_all add: mult.commute)
    then show ?thesis using 3 boundary_nth [OF assms, of k] by (simp only: cut_sibling_def if_False)
  qed
qed

text \<open>A path against an earlier prefix verifies under the root of that prefix.\<close>

lemma path_at_verifies:
  assumes "w_list P h vs t" "pos < k" "k \<le> length vs" "length vs \<le> 2 ^ h"
  shows "\<exists>proof. path_at P t pos k = Inr proof \<and> verify_witness P (vs ! pos) proof (root_at P t k)"
proof (cases "w_size t \<le> k")
  case True
  then have "k = length vs" using assms by (simp add: w_list_def)
  then have "path_at P t pos k = Inr (path P t pos)" "root_at P t k = wroot_hex P t"
    using True assms(2) by (auto simp add: path_at_def root_at_def)
  then show ?thesis
    using assms path_verifies [of P t "list_vals vs" pos "vs ! pos"]
    by (auto simp: w_list_def list_vals_def)
next
  case False
  have h: "w_holds P t (list_vals vs)" "w_height t = h" "w_size t = length vs"
    using assms(1) by (simp_all add: w_list_def)
  let ?lf = "val_leaf P (cut_vals k (list_vals vs))"
  have "walk P (cut_sibling P t k) h 0 (leaf_digest P (vs ! pos)) pos = sub P ?lf (0 + h) (pos div 2 ^ h)"
    using assms cut_sibling_sub [OF h(1)] h(2)
    by (intro walk_sub) (auto simp: val_leaf_def cut_vals_def list_vals_def)
  moreover have "pos div 2 ^ h = 0" using assms by simp
  moreover have "root_at P t k = hex_of (sub P ?lf h 0)"
    using root_at_sub [OF h(1), of k] h False assms by (simp add: list_vals_def)
  ultimately have "verify_witness P (vs ! pos) (make_path P t (cut_sibling P t k) pos) (root_at P t k)"
    using assms h(2) by (intro make_path_verifies) simp_all
  then show ?thesis using False assms(2) by (auto simp: path_at_def)
qed

lemma root_at_prefix:
  assumes "w_list P h vs t" "k \<le> length vs" "length vs \<le> 2 ^ h" "w_list P h (take k vs) t'"
  shows "root_at P t k = wroot_hex P t'"
proof (cases "k = length vs")
  case True
  then have "wroot P t = wroot P t'" using assms(1,4) w_list_root_unique [of P h vs t t'] by simp
  moreover have "wroot P t = wdefault P h" if "vs = []"
  proof -
    have "cut_vals 0 (list_vals vs) = list_vals vs"
      using that by (intro ext) (simp add: cut_vals_def list_vals_def)
    then show ?thesis
      using assms(1) sub_above [of 0 0 h P "list_vals vs"] w_holds_root [of P t "list_vals vs"]
      by (simp add: w_list_def)
  qed
  ultimately show ?thesis using True assms(1) by (auto simp: root_at_def w_list_def wroot_hex_def)
next
  case False
  have "root_at P t k = hex_of (sub P (val_leaf P (cut_vals k (list_vals vs))) h 0)"
    using root_at_sub [of P t "list_vals vs" k] False assms by (simp add: w_list_def list_vals_def)
  then show ?thesis
    using assms(4) w_holds_root [of P t' "cut_vals k (list_vals vs)"]
    by (simp add: wroot_hex_def w_list_def list_vals_take)
qed

section \<open>No proof of a value the tree does not hold\<close>

text \<open>\<open>hashlib.sha256\<close> digests have 32 bytes.\<close>

definition sha_law :: "prims \<Rightarrow> bool" where
  "sha_law P = (\<forall>x. length (sha256 P x) = 32)"

text \<open>Two named inputs of SHA-256 that differ and hash alike.\<close>

definition sha_clash :: "prims \<Rightarrow> bytes set \<Rightarrow> bytes set \<Rightarrow> bool" where
  "sha_clash P xs ys = (\<exists>x\<in>xs. \<exists>y\<in>ys. x \<noteq> y \<and> sha256 P x = sha256 P y)"

definition leaf_input :: "string \<Rightarrow> bytes" where
  "leaf_input v = str_bytes ''fin6-witness'' @ [0] @ str_bytes v"

definition node_input :: "bytes \<Rightarrow> bytes \<Rightarrow> bytes" where
  "node_input l r = str_bytes ''fin6-witness'' @ [1] @ l @ r"

definition empty_input :: "bytes" where
  "empty_input = str_bytes ''fin6-witness'' @ [2]"

lemma digest_inputs:
  "leaf_digest P v = sha256 P (leaf_input v)"
  "node_digest P l r = sha256 P (node_input l r)"
  "wdefault P 0 = sha256 P empty_input"
  "wh P [[2]] = sha256 P empty_input"
  by (simp_all add: leaf_digest_def node_digest_def wh_def leaf_input_def node_input_def empty_input_def)

lemma pair_digest_input:
  "pair_digest P index node s = sha256 P (if index mod 2 = 0 then node_input node s else node_input s node)"
  by (simp add: pair_digest_def digest_inputs)

lemma inputs_differ:
  "leaf_input v \<noteq> node_input l r" "empty_input \<noteq> node_input l r" "empty_input \<noteq> leaf_input v"
  "node_input l r \<noteq> leaf_input v" "node_input l r \<noteq> empty_input" "leaf_input v \<noteq> empty_input"
  by (simp_all add: leaf_input_def node_input_def empty_input_def)

lemma leaf_input_inj: "leaf_input v = leaf_input w \<longleftrightarrow> v = w"
  by (simp add: leaf_input_def)

text \<open>Everything the tree hashed to make its root.\<close>

definition leaf_pre :: "(nat \<Rightarrow> string option) \<Rightarrow> nat \<Rightarrow> bytes" where
  "leaf_pre vals i = (case vals i of Some v \<Rightarrow> leaf_input v | None \<Rightarrow> empty_input)"

definition tree_inputs :: "prims \<Rightarrow> nat \<Rightarrow> (nat \<Rightarrow> string option) \<Rightarrow> bytes set" where
  "tree_inputs P h vals = {leaf_pre vals i |i. i < 2 ^ h}
     \<union> {node_input (sub P (val_leaf P vals) l (2 * i)) (sub P (val_leaf P vals) l (2 * i + 1))
          |l i. l < h \<and> i < 2 ^ (h - Suc l)}"

text \<open>Everything \<open>verify_witness\<close> hashes on the way up from the value.\<close>

fun loop_inputs :: "prims \<Rightarrow> nat \<Rightarrow> nat \<Rightarrow> nat \<Rightarrow> bytes \<Rightarrow> nat \<Rightarrow> int \<Rightarrow> string list \<Rightarrow> bytes set" where
  "loop_inputs P h 0 level node index present siblings = {}"
| "loop_inputs P h (Suc n) level node index present siblings =
     (let go = (\<lambda>s rest. insert (if index mod 2 = 0 then node_input node s else node_input s node)
            (loop_inputs P h n (Suc level) (pair_digest P index node s) (index div 2) present rest))
      in if present div 2 ^ level mod 2 = 1
         then (case siblings of [] \<Rightarrow> {}
           | s # rest \<Rightarrow> (case fromhex s of None \<Rightarrow> {} | Some b \<Rightarrow> go b rest))
         else go (defaults P h ! level) siblings)"

definition verify_inputs :: "prims \<Rightarrow> string \<Rightarrow> wproof \<Rightarrow> bytes set" where
  "verify_inputs P value proof = insert (leaf_input value)
     (loop_inputs P (nat (p_height proof)) (nat (p_height proof)) 0 (leaf_digest P value)
        (nat (p_pos proof)) (p_present proof) (p_siblings proof))"

lemma leaf_pre_in: "i < 2 ^ h \<Longrightarrow> leaf_pre vals i \<in> tree_inputs P h vals"
  unfolding tree_inputs_def by blast

lemma node_pre_in: "l < h \<Longrightarrow> i < 2 ^ (h - Suc l) \<Longrightarrow>
    node_input (sub P (val_leaf P vals) l (2 * i)) (sub P (val_leaf P vals) l (2 * i + 1)) \<in> tree_inputs P h vals"
  unfolding tree_inputs_def by blast

lemma sha_clashI: "sha256 P x = sha256 P y \<Longrightarrow> x \<noteq> y \<Longrightarrow> x \<in> xs \<Longrightarrow> y \<in> ys \<Longrightarrow> sha_clash P xs ys"
  by (auto simp: sha_clash_def)

lemma sha_clash_mono: "sha_clash P xs ys \<Longrightarrow> xs \<subseteq> xs' \<Longrightarrow> sha_clash P xs' ys"
  unfolding sha_clash_def by blast

lemma val_leaf_pre: "val_leaf P vals i = sha256 P (leaf_pre vals i)"
  by (simp add: val_leaf_def leaf_pre_def digest_inputs split: option.splits)

lemma length_sub: "sha_law P \<Longrightarrow> length (sub P (val_leaf P vals) l i) = 32"
  by (cases l) (simp_all add: val_leaf_pre digest_inputs sha_law_def)

lemma node_input_inj:
  "length l = length l' \<or> length r = length r' \<Longrightarrow> node_input l r = node_input l' r' \<longleftrightarrow> l = l' \<and> r = r'"
  by (auto simp: node_input_def)

text \<open>One level down: a digest on the path is the tree's, or the two inputs collide.\<close>

lemma level_down:
  assumes "sha_law P" "length node = 32" "Suc m \<le> h" "index div 2 < 2 ^ (h - Suc m)"
    "pair_digest P index node s = sub P (val_leaf P vals) (Suc m) (index div 2)"
  shows "node = sub P (val_leaf P vals) m index
    \<or> sha_clash P {if index mod 2 = 0 then node_input node s else node_input s node} (tree_inputs P h vals)"
proof -
  let ?S = "sub P (val_leaf P vals)"
  let ?x = "if index mod 2 = 0 then node_input node s else node_input s node"
  let ?y = "node_input (?S m (2 * (index div 2))) (?S m (2 * (index div 2) + 1))"
  have y: "?y \<in> tree_inputs P h vals"
    using assms(3,4) by (intro node_pre_in) simp_all
  have eq: "sha256 P ?x = sha256 P ?y"
    using assms(5) by (simp only: pair_digest_input sub.simps digest_inputs)
  have len: "length (?S m j) = length node" for j
    using assms(1,2) length_sub by simp
  show ?thesis
  proof (cases "?x = ?y")
    case True
    then have "node = ?S m index"
    proof (cases "index mod 2 = 0")
      case even: True
      then show ?thesis using True node_input_inj len
        by (auto elim!: evenE simp: even_iff_mod_2_eq_zero [symmetric])
    next
      case False
      then obtain j where "index = 2 * j + 1" by (metis oddE even_iff_mod_2_eq_zero)
      then show ?thesis using True False node_input_inj len by auto
    qed
    then show ?thesis by blast
  next
    case False
    then show ?thesis using eq y by (intro disjI2 sha_clashI [of P ?x ?y]) auto
  qed
qed

lemma verify_loop_down:
  assumes "sha_law P" "length node = 32"
    "verify_loop P hp n level node index present siblings = Some (sub P (val_leaf P vals) m (index div 2 ^ n))"
    "m \<le> h" "index div 2 ^ n < 2 ^ (h - m)"
  shows "n \<le> m \<and> node = sub P (val_leaf P vals) (m - n) index
    \<or> sha_clash P (loop_inputs P hp n level node index present siblings) (tree_inputs P h vals)"
  using assms(2-)
proof (induction n arbitrary: level node index siblings)
  case 0
  then show ?case by simp
next
  case (Suc n)
  from Suc.prems(2) obtain s rest where s:
    "verify_loop P hp n (Suc level) (pair_digest P index node s) (index div 2) present rest
       = Some (sub P (val_leaf P vals) m (index div 2 div 2 ^ n))"
    "loop_inputs P hp (Suc n) level node index present siblings =
       insert (if index mod 2 = 0 then node_input node s else node_input s node)
         (loop_inputs P hp n (Suc level) (pair_digest P index node s) (index div 2) present rest)"
    by (auto simp: Let_def div_mult2_eq [symmetric] mult.commute split: if_splits list.splits option.splits)
  let ?x = "if index mod 2 = 0 then node_input node s else node_input s node"
  let ?node = "pair_digest P index node s"
  have len: "length ?node = 32"
    using assms(1) by (simp add: pair_digest_def digest_inputs sha_law_def)
  have lim: "index div 2 div 2 ^ n < 2 ^ (h - m)"
    using Suc.prems(4) by (simp add: div_mult2_eq [symmetric] mult.commute)
  note IH = Suc.IH [OF len s(1) Suc.prems(3) lim]
  show ?case
  proof (cases "sha_clash P (loop_inputs P hp n (Suc level) ?node (index div 2) present rest) (tree_inputs P h vals)")
    case True
    then show ?thesis unfolding s(2) by (metis sha_clash_mono subset_insertI)
  next
    case False
    with IH have nm: "n \<le> m" and node: "?node = sub P (val_leaf P vals) (m - n) (index div 2)" by blast+
    have small: "index div 2 < 2 ^ (h - (m - n))"
    proof -
      have "index div 2 < 2 ^ (h - m) * 2 ^ n" using lim by (simp add: div_less_iff_less_mult)
      also have "\<dots> = 2 ^ (h - (m - n))" using nm Suc.prems(3) by (simp add: power_add [symmetric])
      finally show ?thesis .
    qed
    show ?thesis
    proof (cases "m = n")
      case True
      let ?y = "leaf_pre vals (index div 2)"
      have "sha256 P ?x = sha256 P ?y"
        using node True by (simp only: val_leaf_pre pair_digest_input sub.simps diff_self_eq_0)
      moreover have "?x \<noteq> ?y" using inputs_differ by (auto simp: leaf_pre_def split: option.splits)
      moreover have "?y \<in> tree_inputs P h vals" using small True by (intro leaf_pre_in) simp
      ultimately show ?thesis unfolding s(2) by (intro disjI2 sha_clashI [of P ?x ?y]) auto
    next
      case False
      then obtain k where k: "m - n = Suc k" "m - Suc n = k" using nm by (cases "m - n") auto
      have "node = sub P (val_leaf P vals) k index \<or> sha_clash P {?x} (tree_inputs P h vals)"
        using level_down [OF assms(1) Suc.prems(1), of k h index s vals] node small k Suc.prems(3) nm by simp
      then show ?thesis unfolding s(2) using k nm False
        by (metis sha_clash_mono Suc_leI insert_is_Un le_neq_implies_less Un_upper1)
    qed
  qed
qed

lemma verify_witness_sound:
  assumes "sha_law P" "w_holds P t vals" "verify_witness P value proof (wroot_hex P t)"
  shows "p_height proof = int (w_height t) \<and> vals (nat (p_pos proof)) = Some value
    \<or> sha_clash P (verify_inputs P value proof) (tree_inputs P (w_height t) vals)"
proof -
  let ?h = "w_height t" and ?H = "nat (p_height proof)" and ?pos = "nat (p_pos proof)"
  have pos: "?pos < 2 ^ ?H" using assms(3) by (simp add: verify_witness_def nat_less_iff)
  have "verify_loop P ?H ?H 0 (leaf_digest P value) ?pos (p_present proof) (p_siblings proof)
      = Some (sub P (val_leaf P vals) ?h (?pos div 2 ^ ?H))"
    using assms pos by (auto simp: verify_witness_def wroot_hex_def w_holds_root split: option.splits)
  from verify_loop_down [OF assms(1) _ this, of ?h]
  have "?H \<le> ?h \<and> leaf_digest P value = sub P (val_leaf P vals) (?h - ?H) ?pos
    \<or> sha_clash P (verify_inputs P value proof) (tree_inputs P ?h vals)"
    using assms(1) pos
    by (auto simp: digest_inputs sha_law_def verify_inputs_def intro: sha_clash_mono)
  moreover have "p_height proof = int ?h \<and> vals ?pos = Some value
    \<or> sha_clash P (verify_inputs P value proof) (tree_inputs P ?h vals)"
    if H: "?H \<le> ?h" and eq: "leaf_digest P value = sub P (val_leaf P vals) (?h - ?H) ?pos"
  proof (cases "?h - ?H")
    case 0
    then have hh: "?H = ?h" using H by simp
    have "0 \<le> p_height proof" using assms(3) by (simp add: verify_witness_def)
    then have "p_height proof = int ?h" using hh by linarith
    moreover have "sha256 P (leaf_input value) = sha256 P (leaf_pre vals ?pos)"
      using eq 0 by (simp add: val_leaf_pre digest_inputs)
    moreover have "leaf_pre vals ?pos \<in> tree_inputs P ?h vals"
      using pos hh by (intro leaf_pre_in) simp
    moreover have "vals ?pos = Some value" if "leaf_input value = leaf_pre vals ?pos"
      using that inputs_differ by (auto simp: leaf_pre_def leaf_input_inj split: option.splits)
    ultimately show ?thesis
      by (metis sha_clashI insertI1 verify_inputs_def)
  next
    case (Suc k)
    let ?y = "node_input (sub P (val_leaf P vals) k (2 * ?pos)) (sub P (val_leaf P vals) k (2 * ?pos + 1))"
    have "?h - Suc k = ?H" using Suc H by simp
    then have "?y \<in> tree_inputs P ?h vals"
      using Suc pos by (intro node_pre_in) simp_all
    moreover have "sha256 P (leaf_input value) = sha256 P ?y"
      using eq Suc by (simp add: digest_inputs)
    ultimately show ?thesis using inputs_differ
      by (metis sha_clashI insertI1 verify_inputs_def)
  qed
  ultimately show ?thesis by blast
qed

section \<open>Properties\<close>

lemma sha_law_sample: "sha_law sample_prims"
  by (simp add: sha_law_def sample_prims_def)

text \<open>Every proof the witness tree hands out verifies, against the whole tree and against any
  earlier prefix of it. For the tree of a list of values, \<open>path_at pos k\<close> verifies the value at
  \<open>pos\<close> under the root the tree had when it held exactly the first \<open>k\<close> values, and
  \<open>root_at k\<close> is that root.\<close>

theorem prefix_paths_verify:
  assumes "pos < k" "k \<le> length vs" "length vs \<le> 2 ^ h"
  shows "\<exists>t t' proof. wextend P vs (wtree_new label h) = Inr t
    \<and> wextend P (take k vs) (wtree_new label h) = Inr t'
    \<and> path_at P t pos k = Inr proof \<and> root_at P t k = wroot_hex P t'
    \<and> verify_witness P (vs ! pos) proof (wroot_hex P t')"
proof -
  obtain t where t: "wextend P vs (wtree_new label h) = Inr t" "w_list P h vs t"
    using w_list_extend [OF w_list_new, of vs h P label] assms(3) by auto
  obtain t' where t': "wextend P (take k vs) (wtree_new label h) = Inr t'" "w_list P h (take k vs) t'"
    using w_list_extend [OF w_list_new, of "take k vs" h P label] assms by auto
  show ?thesis
    using t t' path_at_verifies [OF t(2) assms] root_at_prefix [OF t(2) assms(2,3) t'(2)] by auto
qed

theorem prefix_paths_verify_witness:
  "\<exists>t t' proof. wextend sample_prims [''a'', ''b'', ''c''] (wtree_new ''w'' 2) = Inr t
    \<and> wextend sample_prims (take 2 [''a'', ''b'', ''c'']) (wtree_new ''w'' 2) = Inr t'
    \<and> path_at sample_prims t 1 2 = Inr proof \<and> root_at sample_prims t 2 = wroot_hex sample_prims t'
    \<and> verify_witness sample_prims ([''a'', ''b'', ''c''] ! 1) proof (wroot_hex sample_prims t')"
  by (rule prefix_paths_verify) simp_all

text \<open>C17: No proof verifies for a value the tree does not hold. Whatever position, height, bitmap
  and siblings a proof claims, if \<open>verify_witness\<close> accepts it under the root of a tree then it
  names the tree's height and a slot that holds exactly that value, or one of the inputs hashed
  by the check and one of the inputs hashed by the tree are different and collide.\<close>

theorem accepted_proof_is_genuine:
  assumes "sha_law P" "w_list P h vs t" "verify_witness P value proof (wroot_hex P t)"
  shows "p_height proof = int h \<and> nat (p_pos proof) < length vs \<and> vs ! nat (p_pos proof) = value
    \<or> sha_clash P (verify_inputs P value proof) (tree_inputs P h (list_vals vs))"
  using verify_witness_sound [OF assms(1) _ assms(3), of "list_vals vs"] assms(2)
  by (auto simp: w_list_def list_vals_def split: if_splits)

definition sample_tree :: wtree where
  "sample_tree = (case wextend sample_prims [''a'', ''b''] (wtree_new ''w'' 2) of Inr t \<Rightarrow> t)"

lemma sample_tree_list: "w_list sample_prims 2 [''a'', ''b''] sample_tree"
  using w_list_extend [OF w_list_new, of "[''a'', ''b'']" 2 sample_prims "''w''"]
  by (auto simp: sample_tree_def)

lemma sample_proof_verifies:
  "verify_witness sample_prims ''b'' (path sample_prims sample_tree 1) (wroot_hex sample_prims sample_tree)"
  using path_verifies [of sample_prims sample_tree "list_vals [''a'', ''b'']" 1 "''b''"] sample_tree_list
  by (simp add: w_list_def list_vals_def)

theorem accepted_proof_is_genuine_witness:
  "let proof = path sample_prims sample_tree 1 in
    (p_height proof = int 2 \<and> nat (p_pos proof) < length [''a'', ''b''] \<and> [''a'', ''b''] ! nat (p_pos proof) = ''b'')
    \<or> sha_clash sample_prims (verify_inputs sample_prims ''b'' proof) (tree_inputs sample_prims 2 (list_vals [''a'', ''b'']))"
  unfolding Let_def by (rule accepted_proof_is_genuine [OF sha_law_sample sample_tree_list sample_proof_verifies])

end
