(* ===== verification/Seal.thy ===== *)
theory Seal
  imports SealTree Witness Interfaces
begin

text \<open>
  The append-and-tombstone set and the header spine of \<open>chain/seal.py\<close>.

  \<open>accum\<close> is \<open>SealAccumulator\<close>: the values in the order they were added, the index from value
  to position, the spent positions, and two trees over the same leaves. \<open>acc_ok\<close> says that
  the index is the inverse of the list, that the spent positions exist, and that both trees
  are the trees of the leaves \<open>_rebuild\<close> would hash; every operation keeps it, so the roots
  are functions of the values and the spent set alone. The abstract view of an accumulator is
  \<open>abs_items\<close>: the values in order, each with its spent flag.

  \<open>spine\<close> is \<open>HeaderHistory\<close>, the hashes of the finalised blocks under a witness tree.

  A raise inside \<open>truncate\<close> leaves the Python object half changed; here it yields the
  exception and the state is not looked at again, as in every caller.
\<close>

definition TOMBSTONE :: string where
  "TOMBSTONE = ''fin6:spent''"

definition domain_leaf :: "prims \<Rightarrow> string \<Rightarrow> string" where
  "domain_leaf P label = seal_hash P (''__root__:'' @ label)"

definition leaf_of :: "prims \<Rightarrow> string \<Rightarrow> string \<Rightarrow> string" where
  "leaf_of P label value = seal_hash P (label @ '':'' @ value)"

definition seal_root :: "prims \<Rightarrow> string \<Rightarrow> string list \<Rightarrow> sparams \<Rightarrow> nat" where
  "seal_root P label values sp = stree_root (build P sp (domain_leaf P label # map (leaf_of P label) values))"

section \<open>The accumulator\<close>

record accum =
  a_label :: string
  a_sp :: sparams
  a_items :: "string list"
  a_index :: "string \<Rightarrow> nat option"
  a_dead :: "nat set"
  a_tree :: stree
  a_witness :: wtree

definition accum_new :: "prims \<Rightarrow> string \<Rightarrow> sparams \<Rightarrow> exn + accum" where
  "accum_new P label sp =
     bindR (wappend P (domain_leaf P label) (wtree_new label WITNESS_HEIGHT)) (\<lambda>w.
       Inr \<lparr>a_label = label, a_sp = sp, a_items = [], a_index = Map.empty, a_dead = {},
            a_tree = build P sp [domain_leaf P label], a_witness = w\<rparr>)"

definition acc_put :: "prims \<Rightarrow> string \<Rightarrow> accum \<Rightarrow> exn + accum" where
  "acc_put P value a =
     (if a_index a value \<noteq> None then Inl ValueError
      else let pos = length (a_items a);
               leaf = leaf_of P (a_label a) value
           in bindR (wset P (pos + 1) leaf (a_witness a)) (\<lambda>w.
                Inr (a\<lparr>a_items := a_items a @ [value], a_index := (a_index a)(value \<mapsto> pos),
                       a_tree := append_leaf P (a_sp a) leaf (a_tree a), a_witness := w\<rparr>)))"

definition tomb_value :: "string \<Rightarrow> string" where
  "tomb_value value = TOMBSTONE @ '':'' @ value"

definition acc_spend :: "prims \<Rightarrow> string \<Rightarrow> accum \<Rightarrow> exn + accum" where
  "acc_spend P value a =
     (case a_index a value of
        None \<Rightarrow> Inl KeyError
      | Some pos \<Rightarrow>
          if pos \<in> a_dead a then Inl ValueError
          else let tomb = leaf_of P (a_label a) (tomb_value value)
               in bindR (wset P (pos + 1) tomb (a_witness a)) (\<lambda>w.
                    Inr (a\<lparr>a_dead := insert pos (a_dead a),
                           a_tree := update_leaf P (a_sp a) (pos + 1) tomb (a_tree a), a_witness := w\<rparr>)))"

definition acc_unspend :: "prims \<Rightarrow> string \<Rightarrow> accum \<Rightarrow> exn + accum" where
  "acc_unspend P value a =
     (case a_index a value of
        None \<Rightarrow> Inl KeyError
      | Some pos \<Rightarrow>
          if pos \<notin> a_dead a then Inl ValueError
          else let live = leaf_of P (a_label a) value
               in bindR (wset P (pos + 1) live (a_witness a)) (\<lambda>w.
                    Inr (a\<lparr>a_dead := a_dead a - {pos},
                           a_tree := update_leaf P (a_sp a) (pos + 1) live (a_tree a), a_witness := w\<rparr>)))"

definition acc_leaves :: "prims \<Rightarrow> string \<Rightarrow> string list \<Rightarrow> nat set \<Rightarrow> string list" where
  "acc_leaves P label items dead = domain_leaf P label #
     map (\<lambda>(i, v). leaf_of P label (if i \<in> dead then tomb_value v else v)) (enumerate 0 items)"

definition acc_rebuild :: "prims \<Rightarrow> accum \<Rightarrow> exn + accum" where
  "acc_rebuild P a =
     (let ls = acc_leaves P (a_label a) (a_items a) (a_dead a)
      in bindR (wextend P ls (wtree_new (a_label a) WITNESS_HEIGHT)) (\<lambda>w.
           Inr (a\<lparr>a_tree := build P (a_sp a) ls, a_witness := w\<rparr>)))"

definition acc_truncate :: "prims \<Rightarrow> nat \<Rightarrow> accum \<Rightarrow> exn + accum" where
  "acc_truncate P n_drop a =
     (if \<not> n_drop \<le> length (a_items a) then Inl ValueError
      else if n_drop = 0 then Inr a
      else let cut = length (a_items a) - n_drop
           in bindR (foldR (\<lambda>idx pos. if pos \<in> a_dead a then Inl ValueError
                              else Inr (idx(a_items a ! pos := None)))
                       (a_index a) [cut..<length (a_items a)])
                (\<lambda>idx. acc_rebuild P (a\<lparr>a_items := take cut (a_items a), a_index := idx\<rparr>)))"

definition acc_live :: "accum \<Rightarrow> string \<Rightarrow> bool" where
  "acc_live a value = (case a_index a value of None \<Rightarrow> False | Some pos \<Rightarrow> pos \<notin> a_dead a)"

definition ever_contained :: "accum \<Rightarrow> string \<Rightarrow> bool" where
  "ever_contained a value = (a_index a value \<noteq> None)"

definition spent_count :: "accum \<Rightarrow> nat" where
  "spent_count a = card (a_dead a)"

definition acc_count :: "accum \<Rightarrow> nat" where
  "acc_count a = length (a_items a) - card (a_dead a)"

definition acc_size :: "accum \<Rightarrow> nat" where
  "acc_size a = length (a_items a)"

definition acc_root :: "accum \<Rightarrow> nat" where
  "acc_root a = stree_root (a_tree a)"

definition witness_root :: "prims \<Rightarrow> accum \<Rightarrow> string" where
  "witness_root P a = wroot_hex P (a_witness a)"

definition witness_path :: "prims \<Rightarrow> string \<Rightarrow> accum \<Rightarrow> wproof option" where
  "witness_path P value a =
     (case a_index a value of
        None \<Rightarrow> None
      | Some pos \<Rightarrow> if pos \<in> a_dead a then None else Some (path P (a_witness a) (pos + 1)))"

definition live_values :: "accum \<Rightarrow> string list" where
  "live_values a = map snd (filter (\<lambda>(i, v). i \<notin> a_dead a) (enumerate 0 (a_items a)))"

definition acc_dump :: "accum \<Rightarrow> string list \<times> nat list" where
  "acc_dump a = (a_items a, sorted_list_of_set (a_dead a))"

definition index_of_list :: "string list \<Rightarrow> string \<Rightarrow> nat option" where
  "index_of_list vs = foldl (\<lambda>m (i, v). m(v \<mapsto> i)) Map.empty (enumerate 0 vs)"

definition acc_load :: "prims \<Rightarrow> string \<Rightarrow> string list \<Rightarrow> nat list \<Rightarrow> sparams \<Rightarrow> wtree option \<Rightarrow> exn + accum" where
  "acc_load P label values dead sp witness =
     bindR (accum_new P label sp) (\<lambda>out.
       if length (remdups values) \<noteq> length values then Inl ValueError
       else if \<not> list_all (\<lambda>pos. pos < length values) dead then Inl ValueError
       else bindR (acc_rebuild P (out\<lparr>a_items := values, a_index := index_of_list values,
                                       a_dead := set dead\<rparr>)) (\<lambda>out.
              Inr (case witness of None \<Rightarrow> out | Some w \<Rightarrow> out\<lparr>a_witness := w\<rparr>)))"

definition acc_clone :: "prims \<Rightarrow> accum \<Rightarrow> exn + accum" where
  "acc_clone P a = acc_load P (a_label a) (a_items a) (sorted_list_of_set (a_dead a)) (a_sp a)
     (Some (a_witness a))"

section \<open>The header spine\<close>

record spine =
  h_hashes :: "string list"
  h_tree :: wtree

definition spine_empty :: spine where
  "spine_empty = \<lparr>h_hashes = [], h_tree = wtree_new ''history'' WITNESS_HEIGHT\<rparr>"

definition spine_append :: "prims \<Rightarrow> string \<Rightarrow> spine \<Rightarrow> exn + spine" where
  "spine_append P block_hash s =
     bindR (wset P (length (h_hashes s)) block_hash (h_tree s)) (\<lambda>t.
       Inr \<lparr>h_hashes = h_hashes s @ [block_hash], h_tree = t\<rparr>)"

definition spine_new :: "prims \<Rightarrow> string list \<Rightarrow> exn + spine" where
  "spine_new P hashes = foldR (\<lambda>s v. spine_append P v s) spine_empty hashes"

fun spine_pop :: "prims \<Rightarrow> nat \<Rightarrow> spine \<Rightarrow> spine" where
  "spine_pop P 0 s = s"
| "spine_pop P (Suc n) s =
     spine_pop P n \<lparr>h_hashes = butlast (h_hashes s),
                   h_tree = wclear P (length (h_hashes s) - 1) (h_tree s)\<rparr>"

text \<open>\<open>while len(self._hashes) > max(0, height)\<close> pops one hash per turn.\<close>

definition truncate_to :: "prims \<Rightarrow> int \<Rightarrow> spine \<Rightarrow> spine" where
  "truncate_to P height s = spine_pop P (length (h_hashes s) - nat (max 0 height)) s"

definition hash_at :: "spine \<Rightarrow> int \<Rightarrow> string option" where
  "hash_at s height =
     (if 1 \<le> height \<and> height \<le> int (length (h_hashes s)) then Some (h_hashes s ! nat (height - 1)) else None)"

record ancestry_proof =
  ap_path :: wproof
  ap_block_height :: int
  ap_block_hash :: string
  ap_under :: int

definition spine_proof :: "prims \<Rightarrow> int \<Rightarrow> int option \<Rightarrow> spine \<Rightarrow> exn + ancestry_proof option" where
  "spine_proof P height u_opt s =
     (if \<not> (1 \<le> height \<and> height \<le> int (length (h_hashes s))) then Inr None
      else let cut = (case u_opt of None \<Rightarrow> int (length (h_hashes s)) | Some u \<Rightarrow> u)
           in if cut < height then Inr None
              else bindR (path_at P (h_tree s) (nat (height - 1)) (nat cut)) (\<lambda>out.
                Inr (Some \<lparr>ap_path = out, ap_block_height = height,
                           ap_block_hash = h_hashes s ! nat (height - 1), ap_under = cut\<rparr>)))"

definition spine_root_at :: "prims \<Rightarrow> nat \<Rightarrow> spine \<Rightarrow> string" where
  "spine_root_at P n s = root_at P (h_tree s) n"

definition spine_root :: "prims \<Rightarrow> spine \<Rightarrow> string" where
  "spine_root P s = wroot_hex P (h_tree s)"

definition verify_ancestry :: "prims \<Rightarrow> string \<Rightarrow> ancestry_proof \<Rightarrow> string \<Rightarrow> bool" where
  "verify_ancestry P block_hash proof history_root =
     (if ap_block_hash proof \<noteq> block_hash then False
      else if p_pos (ap_path proof) \<noteq> ap_block_height proof - 1 then False
      else verify_witness P block_hash (ap_path proof) history_root)"

section \<open>The invariant\<close>

definition acc_ok :: "prims \<Rightarrow> accum \<Rightarrow> bool" where
  "acc_ok P a =
     (tree_ok P (a_sp a) \<and> distinct (a_items a)
      \<and> (\<forall>v i. a_index a v = Some i \<longleftrightarrow> i < length (a_items a) \<and> a_items a ! i = v)
      \<and> a_dead a \<subseteq> {..<length (a_items a)}
      \<and> a_tree a = build P (a_sp a) (acc_leaves P (a_label a) (a_items a) (a_dead a))
      \<and> w_list P WITNESS_HEIGHT (acc_leaves P (a_label a) (a_items a) (a_dead a)) (a_witness a)
      \<and> length (a_items a) < 2 ^ WITNESS_HEIGHT)"

definition gone :: "accum \<Rightarrow> string set" where
  "gone a = (\<lambda>i. a_items a ! i) ` a_dead a"

lemma length_acc_leaves [simp]: "length (acc_leaves P label items dead) = Suc (length items)"
  by (simp add: acc_leaves_def)

lemma nth_acc_leaves:
  "i < length items \<Longrightarrow> acc_leaves P label items dead ! Suc i
     = leaf_of P label (if i \<in> dead then tomb_value (items ! i) else items ! i)"
  by (simp add: acc_leaves_def nth_enumerate_eq)

lemma acc_leaves_0: "acc_leaves P label items dead ! 0 = domain_leaf P label"
  by (simp add: acc_leaves_def)

lemma acc_leaves_leaf_ok:
  "tree_ok P sp \<Longrightarrow> \<forall>v\<in>set (acc_leaves P label items dead). leaf_ok sp v"
  by (auto simp: acc_leaves_def domain_leaf_def leaf_of_def tree_ok_def intro!: leaf_ok_seal_hash)

lemma leaf_of_ok: "tree_ok P sp \<Longrightarrow> leaf_ok sp (leaf_of P label v)"
  by (simp add: leaf_of_def tree_ok_def leaf_ok_seal_hash)

lemma acc_leaves_snoc:
  assumes "dead \<subseteq> {..<length items}"
  shows "acc_leaves P label (items @ [v]) dead = acc_leaves P label items dead @ [leaf_of P label v]"
proof -
  have "length items \<notin> dead" using assms by auto
  then show ?thesis by (simp add: acc_leaves_def enumerate_append_eq)
qed

lemma acc_leaves_dead:
  assumes "pos < length items" "\<And>i. i \<noteq> pos \<Longrightarrow> i \<in> dead' \<longleftrightarrow> i \<in> dead"
  shows "acc_leaves P label items dead'
    = (acc_leaves P label items dead)[Suc pos :=
        leaf_of P label (if pos \<in> dead' then tomb_value (items ! pos) else items ! pos)]"
proof (rule nth_equalityI)
  fix i assume i: "i < length (acc_leaves P label items dead')"
  then show "acc_leaves P label items dead' ! i = (acc_leaves P label items dead)[Suc pos :=
        leaf_of P label (if pos \<in> dead' then tomb_value (items ! pos) else items ! pos)] ! i"
    using assms by (cases i) (auto simp: acc_leaves_0 nth_acc_leaves nth_list_update)
qed simp

lemma acc_ok_index:
  assumes "acc_ok P a"
  shows "a_index a v = None \<longleftrightarrow> v \<notin> set (a_items a)"
proof -
  have "\<forall>i. a_index a v = Some i \<longleftrightarrow> i < length (a_items a) \<and> a_items a ! i = v"
    using assms by (simp add: acc_ok_def)
  then have "a_index a v \<noteq> None \<longleftrightarrow> (\<exists>i < length (a_items a). a_items a ! i = v)"
    by (metis not_None_eq)
  then show ?thesis by (auto simp: in_set_conv_nth)
qed

lemma acc_ok_dead_gone:
  assumes "acc_ok P a" "a_index a v = Some i"
  shows "i \<in> a_dead a \<longleftrightarrow> v \<in> gone a"
proof
  assume "i \<in> a_dead a"
  then show "v \<in> gone a" using assms by (auto simp: gone_def acc_ok_def)
next
  assume "v \<in> gone a"
  then obtain j where j: "j \<in> a_dead a" "a_items a ! j = v" by (auto simp: gone_def)
  have "j < length (a_items a)" using j assms(1) by (auto simp: acc_ok_def)
  then have "a_index a v = Some j" using j assms(1) by (simp add: acc_ok_def)
  then show "i \<in> a_dead a" using j assms(2) by simp
qed

lemma gone_subset: "acc_ok P a \<Longrightarrow> gone a \<subseteq> set (a_items a)"
  by (auto simp: acc_ok_def gone_def)

lemma card_gone: "acc_ok P a \<Longrightarrow> card (gone a) = spent_count a"
  unfolding gone_def spent_count_def
  by (rule card_image) (auto simp: acc_ok_def inj_on_def nth_eq_iff_index_eq subset_iff)

lemma acc_live_iff:
  assumes "acc_ok P a"
  shows "acc_live a v \<longleftrightarrow> v \<in> set (a_items a) \<and> v \<notin> gone a"
proof (cases "a_index a v")
  case None
  then show ?thesis using acc_ok_index [OF assms, of v] by (simp add: acc_live_def)
next
  case (Some i)
  then show ?thesis
    using acc_ok_index [OF assms, of v] acc_ok_dead_gone [OF assms Some] by (auto simp: acc_live_def)
qed

lemma acc_put_present:
  "acc_ok P a \<Longrightarrow> v \<in> set (a_items a) \<Longrightarrow> acc_put P v a = Inl ValueError"
  using acc_ok_index [of P a v] by (simp add: acc_put_def)

lemma acc_put_ok:
  assumes ok: "acc_ok P a" and v: "v \<notin> set (a_items a)" and room: "length (a_items a) + 1 < 2 ^ WITNESS_HEIGHT"
  shows "\<exists>a'. acc_put P v a = Inr a' \<and> acc_ok P a' \<and> a_items a' = a_items a @ [v] \<and> gone a' = gone a
    \<and> a_label a' = a_label a \<and> a_sp a' = a_sp a"
proof -
  let ?n = "length (a_items a)" and ?leaf = "leaf_of P (a_label a) v"
  let ?ls = "acc_leaves P (a_label a) (a_items a) (a_dead a)"
  have dead: "a_dead a \<subseteq> {..<?n}" and top: "tree_ok P (a_sp a)" and w: "w_list P WITNESS_HEIGHT ?ls (a_witness a)"
    using ok by (simp_all add: acc_ok_def)
  have none: "a_index a v = None" using acc_ok_index [OF ok] v by simp
  obtain w' where w': "wset P (?n + 1) ?leaf (a_witness a) = Inr w'" "w_list P WITNESS_HEIGHT (?ls @ [?leaf]) w'"
    using w_list_set_end [OF w, of ?leaf] room by auto
  let ?a = "a\<lparr>a_items := a_items a @ [v], a_index := (a_index a)(v \<mapsto> ?n),
              a_tree := append_leaf P (a_sp a) ?leaf (a_tree a), a_witness := w'\<rparr>"
  have put: "acc_put P v a = Inr ?a" using none w'(1) by (simp add: acc_put_def Let_def)
  have tree: "append_leaf P (a_sp a) ?leaf (a_tree a) = build P (a_sp a) (?ls @ [?leaf])"
    using ok top append_leaf_is_build [OF top acc_leaves_leaf_ok [OF top] leaf_of_ok [OF top]]
    by (simp add: acc_ok_def)
  have idx: "\<forall>u i. (a_index ?a u = Some i) = (i < length (a_items ?a) \<and> a_items ?a ! i = u)"
  proof (intro allI)
    fix u i
    have "a_index a u = Some i \<longleftrightarrow> i < ?n \<and> a_items a ! i = u" using ok by (simp add: acc_ok_def)
    then show "(a_index ?a u = Some i) = (i < length (a_items ?a) \<and> a_items ?a ! i = u)"
      using v by (auto simp: nth_append less_Suc_eq)
  qed
  have "acc_ok P ?a"
    unfolding acc_ok_def
    using ok v room w'(2) tree dead idx acc_leaves_snoc [OF dead, of P "a_label a" v]
    by (auto simp: acc_ok_def)
  moreover have "gone ?a = gone a"
    using dead by (auto simp: gone_def nth_append image_iff)
  ultimately show ?thesis using put by simp
qed

text \<open>Rewriting one slot, the common part of \<open>spend\<close> and \<open>unspend\<close>.\<close>

lemma acc_flip_ok:
  assumes ok: "acc_ok P a" and idx: "a_index a v = Some pos"
    and dead: "\<And>i. i \<noteq> pos \<Longrightarrow> i \<in> dead' \<longleftrightarrow> i \<in> a_dead a"
    and leaf: "leaf = leaf_of P (a_label a) (if pos \<in> dead' then tomb_value v else v)"
  shows "\<exists>w. wset P (pos + 1) leaf (a_witness a) = Inr w
    \<and> acc_ok P (a\<lparr>a_dead := dead', a_tree := update_leaf P (a_sp a) (pos + 1) leaf (a_tree a), a_witness := w\<rparr>)"
proof -
  let ?ls = "acc_leaves P (a_label a) (a_items a) (a_dead a)"
  have pos: "pos < length (a_items a)" "a_items a ! pos = v" using ok idx by (auto simp: acc_ok_def)
  have top: "tree_ok P (a_sp a)" and w: "w_list P WITNESS_HEIGHT ?ls (a_witness a)"
    using ok by (simp_all add: acc_ok_def)
  have ls: "acc_leaves P (a_label a) (a_items a) dead' = ?ls[Suc pos := leaf]"
    using acc_leaves_dead [OF pos(1) dead] pos(2) leaf by simp
  obtain w' where w': "wset P (pos + 1) leaf (a_witness a) = Inr w'" "w_list P WITNESS_HEIGHT (?ls[Suc pos := leaf]) w'"
    using w_list_set [OF w, of "Suc pos" leaf] pos ok by (auto simp: acc_ok_def)
  have tree: "update_leaf P (a_sp a) (pos + 1) leaf (a_tree a) = build P (a_sp a) (?ls[Suc pos := leaf])"
    using ok leaf update_leaf_is_build [OF top acc_leaves_leaf_ok [OF top] leaf_of_ok [OF top], of "Suc pos"] pos
    by (simp add: acc_ok_def)
  have "dead' \<subseteq> {..<length (a_items a)}"
    using dead ok pos(1) by (auto simp: acc_ok_def) (metis lessThan_iff subsetD)
  then show ?thesis using ok w' tree ls by (auto simp: acc_ok_def)
qed

lemma acc_spend_ok:
  assumes ok: "acc_ok P a" and v: "v \<in> set (a_items a)" "v \<notin> gone a"
  shows "\<exists>a'. acc_spend P v a = Inr a' \<and> acc_ok P a' \<and> a_items a' = a_items a \<and> gone a' = insert v (gone a)
    \<and> a_label a' = a_label a \<and> a_sp a' = a_sp a"
proof -
  obtain pos where idx: "a_index a v = Some pos" using acc_ok_index [OF ok, of v] v(1) by auto
  have pos: "pos \<notin> a_dead a" using acc_ok_dead_gone [OF ok idx] v(2) by simp
  have at: "a_items a ! pos = v" using ok idx by (simp add: acc_ok_def)
  from acc_flip_ok [OF ok idx, of "insert pos (a_dead a)" "leaf_of P (a_label a) (tomb_value v)"]
  obtain w where "wset P (pos + 1) (leaf_of P (a_label a) (tomb_value v)) (a_witness a) = Inr w"
    "acc_ok P (a\<lparr>a_dead := insert pos (a_dead a),
       a_tree := update_leaf P (a_sp a) (pos + 1) (leaf_of P (a_label a) (tomb_value v)) (a_tree a), a_witness := w\<rparr>)"
    by auto
  then show ?thesis using idx pos at by (simp add: acc_spend_def Let_def gone_def)
qed

lemma acc_spend_refused:
  assumes "acc_ok P a"
  shows "v \<notin> set (a_items a) \<Longrightarrow> acc_spend P v a = Inl KeyError"
    and "v \<in> gone a \<Longrightarrow> acc_spend P v a = Inl ValueError"
proof -
  show "v \<notin> set (a_items a) \<Longrightarrow> acc_spend P v a = Inl KeyError"
    using acc_ok_index [OF assms, of v] by (simp add: acc_spend_def)
  assume v: "v \<in> gone a"
  then obtain pos where idx: "a_index a v = Some pos"
    using gone_subset [OF assms] acc_ok_index [OF assms, of v] by blast
  then show "acc_spend P v a = Inl ValueError"
    using acc_ok_dead_gone [OF assms idx] v by (simp add: acc_spend_def)
qed

lemma acc_unspend_ok:
  assumes ok: "acc_ok P a" and v: "v \<in> gone a"
  shows "\<exists>a'. acc_unspend P v a = Inr a' \<and> acc_ok P a' \<and> a_items a' = a_items a \<and> gone a' = gone a - {v}
    \<and> a_label a' = a_label a \<and> a_sp a' = a_sp a"
proof -
  obtain pos where idx: "a_index a v = Some pos"
    using gone_subset [OF ok] acc_ok_index [OF ok, of v] v by blast
  have pos: "pos \<in> a_dead a" using acc_ok_dead_gone [OF ok idx] v by simp
  have at: "a_items a ! pos = v" "pos < length (a_items a)" using ok idx by (simp_all add: acc_ok_def)
  from acc_flip_ok [OF ok idx, of "a_dead a - {pos}" "leaf_of P (a_label a) v"]
  obtain w where w: "wset P (pos + 1) (leaf_of P (a_label a) v) (a_witness a) = Inr w"
    "acc_ok P (a\<lparr>a_dead := a_dead a - {pos},
       a_tree := update_leaf P (a_sp a) (pos + 1) (leaf_of P (a_label a) v) (a_tree a), a_witness := w\<rparr>)"
    by auto
  have "(\<lambda>i. a_items a ! i) ` (a_dead a - {pos}) = gone a - {v}"
  proof -
    have "inj_on (\<lambda>i. a_items a ! i) (a_dead a)"
      using ok by (auto simp: acc_ok_def inj_on_def nth_eq_iff_index_eq subset_iff)
    then show ?thesis unfolding gone_def using at pos by (auto simp: inj_on_def)
  qed
  then show ?thesis using idx pos w by (simp add: acc_unspend_def Let_def gone_def)
qed

definition acc_core :: "prims \<Rightarrow> accum \<Rightarrow> bool" where
  "acc_core P a =
     (tree_ok P (a_sp a) \<and> distinct (a_items a)
      \<and> (\<forall>v i. a_index a v = Some i \<longleftrightarrow> i < length (a_items a) \<and> a_items a ! i = v)
      \<and> a_dead a \<subseteq> {..<length (a_items a)} \<and> length (a_items a) < 2 ^ WITNESS_HEIGHT)"

lemma acc_rebuild_ok:
  assumes "acc_core P a"
  shows "\<exists>a'. acc_rebuild P a = Inr a' \<and> acc_ok P a' \<and> a_items a' = a_items a \<and> a_index a' = a_index a
    \<and> a_dead a' = a_dead a \<and> a_label a' = a_label a \<and> a_sp a' = a_sp a"
proof -
  let ?ls = "acc_leaves P (a_label a) (a_items a) (a_dead a)"
  obtain w where w: "wextend P ?ls (wtree_new (a_label a) WITNESS_HEIGHT) = Inr w" "w_list P WITNESS_HEIGHT ?ls w"
    using w_list_extend [OF w_list_new, of ?ls WITNESS_HEIGHT P "a_label a"] assms by (auto simp: acc_core_def)
  then show ?thesis using assms by (auto simp: acc_rebuild_def Let_def acc_ok_def acc_core_def)
qed

lemma drop_index_loop:
  assumes "\<forall>pos\<in>set ps. pos \<notin> dead"
  shows "foldR (\<lambda>idx pos. if pos \<in> dead then Inl e else Inr (idx(xs ! pos := None))) idx0 ps
    = Inr (\<lambda>v. if v \<in> (\<lambda>p. xs ! p) ` set ps then None else idx0 v)"
  using assms by (induction ps arbitrary: idx0) (auto simp: fun_eq_iff)

lemma drop_index_loop_err:
  assumes "\<exists>pos\<in>set ps. pos \<in> dead"
  shows "foldR (\<lambda>idx pos. if pos \<in> dead then Inl e else Inr (idx(xs ! pos := None))) idx0 ps = Inl e"
  using assms by (induction ps arbitrary: idx0) auto

lemma acc_truncate_ok:
  assumes ok: "acc_ok P a" and n: "n \<le> length (a_items a)"
    and live: "\<forall>v\<in>set (drop (length (a_items a) - n) (a_items a)). v \<notin> gone a"
  shows "\<exists>a'. acc_truncate P n a = Inr a' \<and> acc_ok P a'
    \<and> a_items a' = take (length (a_items a) - n) (a_items a) \<and> gone a' = gone a
    \<and> a_label a' = a_label a \<and> a_sp a' = a_sp a"
proof (cases "n = 0")
  case True
  then show ?thesis using ok by (simp add: acc_truncate_def)
next
  case False
  let ?xs = "a_items a"
  let ?cut = "length ?xs - n"
  have alive: "\<forall>pos\<in>set [?cut..<length ?xs]. pos \<notin> a_dead a"
  proof
    fix pos assume p: "pos \<in> set [?cut..<length ?xs]"
    then have "?xs ! pos \<in> set (drop ?cut ?xs)"
      by (auto simp: in_set_conv_nth intro!: exI [of _ "pos - ?cut"])
    then have "?xs ! pos \<notin> gone a" using live by blast
    then show "pos \<notin> a_dead a" by (auto simp: gone_def)
  qed
  let ?idx = "\<lambda>v. if v \<in> (\<lambda>p. ?xs ! p) ` set [?cut..<length ?xs] then None else a_index a v"
  let ?a = "a\<lparr>a_items := take ?cut ?xs, a_index := ?idx\<rparr>"
  have tr: "acc_truncate P n a = acc_rebuild P ?a"
    using False n by (simp add: acc_truncate_def Let_def drop_index_loop [OF alive])
  have dead: "a_dead a \<subseteq> {..<?cut}"
  proof
    fix i assume i: "i \<in> a_dead a"
    then have "i < length ?xs" using ok by (auto simp: acc_ok_def)
    show "i \<in> {..<?cut}"
    proof (rule ccontr)
      assume "i \<notin> {..<?cut}"
      then have "i \<in> set [?cut..<length ?xs]" using \<open>i < length ?xs\<close> by simp
      then show False using alive i by blast
    qed
  qed
  have idx: "(?idx v = Some i) = (i < length (take ?cut ?xs) \<and> take ?cut ?xs ! i = v)" for v i
  proof -
    have base: "a_index a v = Some i \<longleftrightarrow> i < length ?xs \<and> ?xs ! i = v" using ok by (simp add: acc_ok_def)
    have "v \<in> (\<lambda>p. ?xs ! p) ` set [?cut..<length ?xs] \<longleftrightarrow> ?cut \<le> i" if "i < length ?xs" "?xs ! i = v"
    proof
      assume "v \<in> (\<lambda>p. ?xs ! p) ` set [?cut..<length ?xs]"
      then obtain q where q: "?cut \<le> q" "q < length ?xs" "?xs ! q = v" by auto
      then have "a_index a v = Some q" using ok by (simp add: acc_ok_def)
      then have "q = i" using base that by simp
      then show "?cut \<le> i" using q(1) by simp
    next
      assume "?cut \<le> i"
      then have "i \<in> set [?cut..<length ?xs]" using that(1) by simp
      then show "v \<in> (\<lambda>p. ?xs ! p) ` set [?cut..<length ?xs]" using that(2) by blast
    qed
    then show ?thesis using base n by auto
  qed
  have "length ?xs - n < 2 ^ WITNESS_HEIGHT" using ok by (auto simp: acc_ok_def intro: less_imp_diff_less)
  then have "acc_core P ?a"
    using ok dead idx by (simp add: acc_core_def acc_ok_def)
  from acc_rebuild_ok [OF this] obtain a' where a': "acc_rebuild P ?a = Inr a'" "acc_ok P a'"
    "a_items a' = take ?cut ?xs" "a_dead a' = a_dead a" "a_label a' = a_label a" "a_sp a' = a_sp a"
    by auto
  have "gone a' = gone a" using a'(3,4) dead by (auto simp: gone_def subset_iff)
  then show ?thesis using a' tr by auto
qed

lemma acc_truncate_refused:
  assumes ok: "acc_ok P a"
  shows "length (a_items a) < n \<Longrightarrow> acc_truncate P n a = Inl ValueError"
    and "\<exists>v\<in>set (drop (length (a_items a) - n) (a_items a)). v \<in> gone a \<Longrightarrow> acc_truncate P n a = Inl ValueError"
proof -
  show over: "length (a_items a) < n \<Longrightarrow> acc_truncate P n a = Inl ValueError"
    by (simp add: acc_truncate_def)
  assume ex: "\<exists>v\<in>set (drop (length (a_items a) - n) (a_items a)). v \<in> gone a"
  show "acc_truncate P n a = Inl ValueError"
  proof (cases "length (a_items a) < n")
    case True
    then show ?thesis by (rule over)
  next
    case False
    let ?cut = "length (a_items a) - n"
    from ex obtain v where v: "v \<in> set (drop ?cut (a_items a))" "v \<in> gone a" by blast
    obtain k where k: "k < n" "drop ?cut (a_items a) ! k = v"
      using v(1) False by (auto simp: in_set_conv_nth)
    obtain j where j: "j \<in> a_dead a" "a_items a ! j = v" using v(2) by (auto simp: gone_def)
    have "j < length (a_items a)" using j ok by (auto simp: acc_ok_def)
    then have "a_index a v = Some j" using j ok by (simp add: acc_ok_def)
    moreover have "a_index a v = Some (?cut + k)" using k False ok by (simp add: acc_ok_def)
    ultimately have "j = ?cut + k" by simp
    then have "\<exists>pos\<in>set [?cut..<length (a_items a)]. pos \<in> a_dead a"
    proof (intro bexI)
      have "?cut \<le> j" "j < length (a_items a)" using \<open>j = ?cut + k\<close> k(1) False by linarith+
      then show "j \<in> set [?cut..<length (a_items a)]" by simp
    qed (rule j(1))
    then show ?thesis
      using k(1) False by (simp add: acc_truncate_def Let_def drop_index_loop_err)
  qed
qed

lemma acc_root_canonical:
  assumes "acc_ok P a" "acc_ok P b" "a_items a = a_items b" "gone a = gone b"
    "a_label a = a_label b" "a_sp a = a_sp b"
  shows "acc_root a = acc_root b \<and> witness_root P a = witness_root P b \<and> a_index a = a_index b \<and> a_dead a = a_dead b"
proof -
  have sub: "a_dead a \<subseteq> a_dead b"
    if "acc_ok P a" "acc_ok P b" "a_items a = a_items b" "gone a = gone b" for a b
  proof
    fix i assume i: "i \<in> a_dead a"
    then have v: "a_items b ! i \<in> gone b" using that by (auto simp: gone_def)
    have "i < length (a_items b)" using i that by (auto simp: acc_ok_def)
    then have "a_index b (a_items b ! i) = Some i" using that(2) by (simp add: acc_ok_def)
    then show "i \<in> a_dead b" using acc_ok_dead_gone [OF that(2)] v by blast
  qed
  have dead: "a_dead a = a_dead b" using sub assms by (metis subset_antisym)
  moreover have "a_index a = a_index b"
  proof
    fix v
    have "\<And>i. a_index a v = Some i \<longleftrightarrow> a_index b v = Some i"
      using assms(1-3) by (simp add: acc_ok_def)
    then show "a_index a v = a_index b v" by (metis not_None_eq)
  qed
  moreover have "wroot P (a_witness a) = wroot P (a_witness b)"
    using assms dead by (auto simp: acc_ok_def intro: w_list_root_unique)
  moreover have "acc_root a = acc_root b"
    using assms dead by (simp add: acc_root_def acc_ok_def)
  ultimately show ?thesis by (simp add: witness_root_def wroot_hex_def)
qed

lemma accum_new_ok:
  assumes "tree_ok P sp"
  shows "\<exists>a. accum_new P label sp = Inr a \<and> acc_ok P a \<and> a_items a = [] \<and> gone a = {}
    \<and> a_label a = label \<and> a_sp a = sp"
proof -
  obtain w where "wappend P (domain_leaf P label) (wtree_new label WITNESS_HEIGHT) = Inr w"
    "w_list P WITNESS_HEIGHT [domain_leaf P label] w"
    using w_list_append [of P WITNESS_HEIGHT "[]" "wtree_new label WITNESS_HEIGHT" "domain_leaf P label"]
      w_list_new by auto
  then show ?thesis using assms
    by (simp add: accum_new_def acc_ok_def gone_def acc_leaves_def)
qed

lemma index_of_list_Some:
  assumes "distinct vs"
  shows "index_of_list vs v = Some i \<longleftrightarrow> i < length vs \<and> vs ! i = v"
  using assms
proof (induction vs rule: rev_induct)
  case Nil
  then show ?case by (simp add: index_of_list_def)
next
  case (snoc u vs)
  have "index_of_list (vs @ [u]) = (index_of_list vs)(u \<mapsto> length vs)"
    by (simp add: index_of_list_def enumerate_append_eq)
  then show ?case using snoc by (auto simp: nth_append less_Suc_eq in_set_conv_nth)
qed

lemma acc_load_ok:
  assumes "tree_ok P sp" "distinct values" "\<forall>pos\<in>set dead. pos < length values"
    "length values < 2 ^ WITNESS_HEIGHT"
  shows "\<exists>a. acc_load P label values dead sp None = Inr a \<and> acc_ok P a \<and> a_items a = values
    \<and> a_dead a = set dead \<and> a_label a = label \<and> a_sp a = sp"
proof -
  obtain a0 where a0: "accum_new P label sp = Inr a0" "a_label a0 = label" "a_sp a0 = sp"
    using accum_new_ok [OF assms(1)] by blast
  let ?a = "a0\<lparr>a_items := values, a_index := index_of_list values, a_dead := set dead\<rparr>"
  have "acc_core P ?a"
    using assms a0 index_of_list_Some [OF assms(2)] by (auto simp: acc_core_def)
  from acc_rebuild_ok [OF this] show ?thesis
    using assms a0 by (auto simp: acc_load_def distinct_remdups_id list_all_iff)
qed

lemma acc_load_refused: "\<not> distinct values \<Longrightarrow> tree_ok P sp \<Longrightarrow> acc_load P label values dead sp w = Inl ValueError"
  using accum_new_ok [of P sp label] by (auto simp: acc_load_def)

text \<open>\<open>load\<close> after \<open>dump\<close> gives back the same set under the same roots.\<close>

lemma acc_dump_load:
  assumes "acc_ok P a"
  shows "\<exists>b. acc_load P (a_label a) (fst (acc_dump a)) (snd (acc_dump a)) (a_sp a) None = Inr b
    \<and> acc_ok P b \<and> a_items b = a_items a \<and> a_dead b = a_dead a \<and> a_index b = a_index a
    \<and> acc_root b = acc_root a \<and> witness_root P b = witness_root P a"
proof -
  have fin: "finite (a_dead a)" using assms by (auto simp: acc_ok_def intro: finite_subset)
  have "\<exists>b. acc_load P (a_label a) (a_items a) (sorted_list_of_set (a_dead a)) (a_sp a) None = Inr b
    \<and> acc_ok P b \<and> a_items b = a_items a \<and> a_dead b = set (sorted_list_of_set (a_dead a))
    \<and> a_label b = a_label a \<and> a_sp b = a_sp a"
    using assms fin by (intro acc_load_ok) (auto simp: acc_ok_def)
  then obtain b where b: "acc_load P (a_label a) (a_items a) (sorted_list_of_set (a_dead a)) (a_sp a) None = Inr b"
    "acc_ok P b" "a_items b = a_items a" "a_dead b = a_dead a" "a_label b = a_label a" "a_sp b = a_sp a"
    using fin by auto
  have "gone b = gone a" using b by (simp add: gone_def)
  then show ?thesis using b acc_root_canonical [OF b(2) assms] by (simp add: acc_dump_def)
qed

lemma acc_clone_same:
  assumes "acc_ok P a"
  shows "acc_clone P a = Inr a"
proof -
  obtain b where b: "acc_load P (a_label a) (a_items a) (sorted_list_of_set (a_dead a)) (a_sp a) None = Inr b"
    "acc_ok P b" "a_items b = a_items a" "a_dead b = a_dead a" "a_index b = a_index a"
    using acc_dump_load [OF assms] by (auto simp: acc_dump_def)
  have load: "acc_load P l xs d sp (Some w) = (case acc_load P l xs d sp None of Inl e \<Rightarrow> Inl e
      | Inr b \<Rightarrow> Inr (b\<lparr>a_witness := w\<rparr>))" for l xs d sp w
  proof (cases "accum_new P l sp")
    case (Inr out)
    then show ?thesis
      by (cases "acc_rebuild P (out\<lparr>a_items := xs, a_index := index_of_list xs, a_dead := set d\<rparr>)")
        (simp_all add: acc_load_def)
  qed (simp add: acc_load_def)
  have lab: "a_label b = a_label a" "a_sp b = a_sp a"
    using b(1) by (auto simp: acc_load_def acc_rebuild_def accum_new_def Let_def split: if_splits)
  have "b\<lparr>a_witness := a_witness a\<rparr> = a"
    using b lab assms by (intro accum.equality) (simp_all add: acc_ok_def)
  then show ?thesis using b(1) by (simp add: acc_clone_def load)
qed

section \<open>The accumulator provides the tombstone set\<close>

lemma accum_tomb_set:
  "tomb_set (acc_ok P) a_items gone (\<lambda>a. (a_label a, a_sp a)) (2 ^ WITNESS_HEIGHT)
     (acc_put P) (acc_spend P) (acc_unspend P) (acc_truncate P)"
proof
  show "acc_ok P a \<Longrightarrow> distinct (a_items a)" for a by (simp add: acc_ok_def)
  show "acc_ok P a \<Longrightarrow> gone a \<subseteq> set (a_items a)" for a by (rule gone_subset)
  show "acc_ok P a \<Longrightarrow> v \<in> set (a_items a) \<Longrightarrow> \<exists>e. acc_put P v a = Inl e" for a v
    using acc_put_present by blast
  show "acc_ok P a \<Longrightarrow> v \<notin> set (a_items a) \<or> v \<in> gone a \<Longrightarrow> \<exists>e. acc_spend P v a = Inl e" for a v
    using acc_spend_refused by blast
qed (unfold prod.inject, (rule acc_put_ok acc_spend_ok acc_unspend_ok acc_truncate_ok; assumption)+)

interpretation acc: tomb_set "acc_ok P" a_items gone "\<lambda>a. (a_label a, a_sp a)" "2 ^ WITNESS_HEIGHT"
    "acc_put P" "acc_spend P" "acc_unspend P" "acc_truncate P" for P
  by (rule accum_tomb_set)

section \<open>The spine\<close>

definition spine_ok :: "prims \<Rightarrow> spine \<Rightarrow> bool" where
  "spine_ok P s = (w_list P WITNESS_HEIGHT (h_hashes s) (h_tree s) \<and> length (h_hashes s) \<le> 2 ^ WITNESS_HEIGHT)"

lemma spine_ok_empty: "spine_ok P spine_empty"
  by (simp add: spine_ok_def spine_empty_def w_list_new)

lemma spine_append_ok:
  assumes "spine_ok P s" "length (h_hashes s) < 2 ^ WITNESS_HEIGHT"
  shows "\<exists>s'. spine_append P h s = Inr s' \<and> spine_ok P s' \<and> h_hashes s' = h_hashes s @ [h]"
  using w_list_set_end [of P WITNESS_HEIGHT "h_hashes s" "h_tree s" h] assms
  by (auto simp: spine_append_def spine_ok_def)

lemma spine_append_Inr:
  assumes "spine_ok P s" "spine_append P h s = Inr s'"
  shows "spine_ok P s' \<and> h_hashes s' = h_hashes s @ [h]"
proof -
  have "length (h_hashes s) < 2 ^ WITNESS_HEIGHT"
    using assms by (auto simp: spine_append_def spine_ok_def w_list_def wset_def split: if_splits)
  then show ?thesis using spine_append_ok [OF assms(1), of h] assms(2) by auto
qed

lemma spine_new_ok:
  assumes "length hs \<le> 2 ^ WITNESS_HEIGHT"
  shows "\<exists>s. spine_new P hs = Inr s \<and> spine_ok P s \<and> h_hashes s = hs"
  using assms
proof (induction hs rule: rev_induct)
  case Nil
  then show ?case using spine_ok_empty by (simp add: spine_new_def) (simp add: spine_empty_def)
next
  case (snoc h hs)
  then obtain s where s: "spine_new P hs = Inr s" "spine_ok P s" "h_hashes s = hs" by auto
  obtain s' where "spine_append P h s = Inr s'" "spine_ok P s'" "h_hashes s' = hs @ [h]"
    using spine_append_ok [OF s(2)] s snoc.prems by auto
  then show ?case using s by (auto simp: spine_new_def foldR_snoc)
qed

lemma spine_pop_ok:
  "spine_ok P s \<Longrightarrow> n \<le> length (h_hashes s) \<Longrightarrow>
     spine_ok P (spine_pop P n s) \<and> h_hashes (spine_pop P n s) = take (length (h_hashes s) - n) (h_hashes s)"
proof (induction n arbitrary: s)
  case 0
  then show ?case by simp
next
  case (Suc n)
  let ?s = "\<lparr>h_hashes = butlast (h_hashes s), h_tree = wclear P (length (h_hashes s) - 1) (h_tree s)\<rparr>"
  have "h_hashes s \<noteq> []" using Suc.prems by auto
  then have "spine_ok P ?s"
    using Suc.prems w_list_clear [of P WITNESS_HEIGHT "h_hashes s" "h_tree s"] by (auto simp: spine_ok_def)
  moreover have "n \<le> length (h_hashes ?s)" using Suc.prems by simp
  ultimately show ?case using Suc.IH [of ?s] Suc.prems by (simp add: take_butlast)
qed

lemma truncate_to_ok:
  assumes "spine_ok P s"
  shows "spine_ok P (truncate_to P k s) \<and> h_hashes (truncate_to P k s) = take (nat k) (h_hashes s)"
proof -
  have "nat (max 0 k) = nat k" by simp
  then show ?thesis
    using spine_pop_ok [OF assms, of "length (h_hashes s) - nat k"]
    by (cases "nat k \<le> length (h_hashes s)") (simp_all add: truncate_to_def)
qed

lemma spine_root_unique:
  "spine_ok P s \<Longrightarrow> spine_ok P s' \<Longrightarrow> h_hashes s = h_hashes s' \<Longrightarrow> spine_root P s = spine_root P s'"
  by (auto simp: spine_ok_def spine_root_def wroot_hex_def dest: w_list_root_unique)

text \<open>A proof under a header's count verifies against the root that header commits.\<close>

lemma spine_proof_verifies:
  assumes "spine_ok P s" "1 \<le> height" "height \<le> int u" "u \<le> length (h_hashes s)"
  shows "\<exists>proof. spine_proof P height (Some (int u)) s = Inr (Some proof)
    \<and> verify_ancestry P (h_hashes s ! nat (height - 1)) proof (spine_root_at P u s)"
proof -
  have "nat (height - 1) < u" using assms by auto
  then obtain p where p: "path_at P (h_tree s) (nat (height - 1)) u = Inr p"
    "verify_witness P (h_hashes s ! nat (height - 1)) p (root_at P (h_tree s) u)"
    using path_at_verifies [of P WITNESS_HEIGHT "h_hashes s" "h_tree s" "nat (height - 1)" u] assms
    by (auto simp: spine_ok_def)
  have "p_pos p = height - 1"
    using p(1) assms(2) by (auto simp: path_at_def path_def make_path_def split: if_splits prod.splits)
  then show ?thesis using p assms
    by (auto simp: spine_proof_def verify_ancestry_def spine_root_at_def)
qed

section \<open>Properties\<close>

text \<open>A wallet can always prove an unspent note. Between a well-formed accumulator and a client
  that knows only its witness root: \<open>witness_path\<close> gives a proof exactly for the live values,
  and that proof verifies the live leaf.\<close>

theorem live_value_proves:
  assumes "acc_ok P a"
  shows "(case witness_path P v a of
      Some proof \<Rightarrow> acc_live a v \<and> verify_witness P (leaf_of P (a_label a) v) proof (witness_root P a)
    | None \<Rightarrow> \<not> acc_live a v)"
proof (cases "\<exists>i. a_index a v = Some i \<and> i \<notin> a_dead a")
  case True
  then obtain i where i: "a_index a v = Some i" "i \<notin> a_dead a" by blast
  let ?ls = "acc_leaves P (a_label a) (a_items a) (a_dead a)"
  have len: "i < length (a_items a)" "a_items a ! i = v" "length (a_items a) < 2 ^ WITNESS_HEIGHT"
    and w: "w_list P WITNESS_HEIGHT ?ls (a_witness a)"
    using assms i by (auto simp: acc_ok_def)
  have "list_vals ?ls (i + 1) = Some (leaf_of P (a_label a) v)"
    using len i(2) by (simp add: list_vals_def nth_acc_leaves)
  then have "verify_witness P (leaf_of P (a_label a) v) (path P (a_witness a) (i + 1)) (witness_root P a)"
    unfolding witness_root_def using w len
    by (intro path_verifies [of P "a_witness a" "list_vals ?ls"]) (auto simp: w_list_def)
  then show ?thesis using i by (simp add: witness_path_def acc_live_def)
next
  case False
  then show ?thesis by (auto simp: witness_path_def acc_live_def split: option.splits)
qed

definition sample_accum :: accum where
  "sample_accum = (case accum_new sample_prims ''utxo'' default_sparams of Inr a \<Rightarrow>
     (case acc_put sample_prims ''cm:a'' a of Inr a \<Rightarrow>
       (case acc_put sample_prims ''cm:b'' a of Inr a \<Rightarrow>
         (case acc_spend sample_prims ''cm:a'' a of Inr a \<Rightarrow> a))))"

lemma sample_accum_ok:
  "acc_ok sample_prims sample_accum \<and> a_items sample_accum = [''cm:a'', ''cm:b''] \<and> gone sample_accum = {''cm:a''}
    \<and> a_label sample_accum = ''utxo''"
proof -
  have big: "(4::nat) < 2 ^ WITNESS_HEIGHT" by (simp add: WITNESS_HEIGHT_def)
  have "tree_ok sample_prims default_sparams"
    by (simp add: tree_ok_def digest_law_def sample_prims_def default_sparams_def)
  then obtain a where a: "accum_new sample_prims ''utxo'' default_sparams = Inr a" "acc_ok sample_prims a"
    "a_items a = []" "gone a = {}" "a_label a = ''utxo''"
    using accum_new_ok by blast
  obtain b where b: "acc_put sample_prims ''cm:a'' a = Inr b" "acc_ok sample_prims b" "a_items b = [''cm:a'']"
    "gone b = {}" "a_label b = ''utxo''"
    using acc_put_ok [OF a(2), of "''cm:a''"] a big by auto
  obtain c where c: "acc_put sample_prims ''cm:b'' b = Inr c" "acc_ok sample_prims c" "a_items c = [''cm:a'', ''cm:b'']"
    "gone c = {}" "a_label c = ''utxo''"
    using acc_put_ok [OF b(2), of "''cm:b''"] b big by auto
  obtain d where d: "acc_spend sample_prims ''cm:a'' c = Inr d" "acc_ok sample_prims d" "a_items d = [''cm:a'', ''cm:b'']"
    "gone d = {''cm:a''}" "a_label d = ''utxo''"
    using acc_spend_ok [OF c(2), of "''cm:a''"] c by auto
  show ?thesis using a(1) b(1) c(1) d by (simp add: sample_accum_def)
qed

theorem live_value_proves_witness:
  "(case witness_path sample_prims ''cm:b'' sample_accum of
      Some proof \<Rightarrow> acc_live sample_accum ''cm:b''
        \<and> verify_witness sample_prims (leaf_of sample_prims (a_label sample_accum) ''cm:b'') proof (witness_root sample_prims sample_accum)
    | None \<Rightarrow> \<not> acc_live sample_accum ''cm:b'')"
  by (rule live_value_proves) (simp add: sample_accum_ok)

text \<open>The strings whose seal hashes are the leaves of an accumulator.\<close>

definition leaf_texts :: "accum \<Rightarrow> string set" where
  "leaf_texts a = insert (''__root__:'' @ a_label a)
     {a_label a @ '':'' @ (if i \<in> a_dead a then tomb_value (a_items a ! i) else a_items a ! i) |i. i < length (a_items a)}"

text \<open>C16: A spent note cannot be shown as live. If any proof at all convinces a client that the
  live leaf of \<open>v\<close> is under the note set's witness root, then \<open>v\<close> is in the set, unspent, at the
  position the proof names; otherwise two named inputs of SHA-256, or two named inputs of the
  seal hash, collide. (The values of the chain are \<open>cm:\<close> identifiers, never tombstone texts.)\<close>

theorem spent_value_has_no_proof:
  assumes "sha_law P" "acc_ok P a" "a_label a = ''utxo''" "\<forall>u. v \<noteq> tomb_value u"
    "verify_witness P (leaf_of P (a_label a) v) proof (witness_root P a)"
  shows "acc_live a v \<and> a_index a v = Some (nat (p_pos proof) - 1)
    \<or> sha_clash P (verify_inputs P (leaf_of P (a_label a) v) proof)
        (tree_inputs P WITNESS_HEIGHT (list_vals (acc_leaves P (a_label a) (a_items a) (a_dead a))))
    \<or> (\<exists>x\<in>leaf_texts a. x \<noteq> a_label a @ '':'' @ v \<and> seal_hash P x = seal_hash P (a_label a @ '':'' @ v))"
proof -
  let ?ls = "acc_leaves P (a_label a) (a_items a) (a_dead a)" and ?p = "nat (p_pos proof)"
  let ?t = "a_label a @ '':'' @ v"
  have w: "w_holds P (a_witness a) (list_vals ?ls)" "w_height (a_witness a) = WITNESS_HEIGHT"
    using assms(2) by (auto simp: acc_ok_def w_list_def)
  have "acc_live a v \<and> a_index a v = Some (?p - 1) \<or> (\<exists>x\<in>leaf_texts a. x \<noteq> ?t \<and> seal_hash P x = seal_hash P ?t)"
    if at: "list_vals ?ls ?p = Some (leaf_of P (a_label a) v)"
  proof (cases "?p")
    case 0
    then have "seal_hash P (''__root__:'' @ a_label a) = seal_hash P ?t"
      using at by (auto simp: list_vals_def acc_leaves_0 domain_leaf_def leaf_of_def split: if_splits)
    moreover have "''__root__:'' @ a_label a \<noteq> ?t" using assms(3) by simp
    ultimately show ?thesis unfolding leaf_texts_def by blast
  next
    case (Suc i)
    have i: "i < length (a_items a)"
      and eq: "leaf_of P (a_label a) (if i \<in> a_dead a then tomb_value (a_items a ! i) else a_items a ! i)
        = leaf_of P (a_label a) v"
      using at Suc by (auto simp: list_vals_def nth_acc_leaves split: if_splits)
    let ?x = "a_label a @ '':'' @ (if i \<in> a_dead a then tomb_value (a_items a ! i) else a_items a ! i)"
    have x: "?x \<in> leaf_texts a" using i unfolding leaf_texts_def by blast
    show ?thesis
    proof (cases "?x = ?t")
      case True
      then have "i \<notin> a_dead a \<and> a_items a ! i = v" using assms(4) by (auto split: if_splits)
      then have "a_index a v = Some i" "i \<notin> a_dead a" using i assms(2) by (auto simp: acc_ok_def)
      then show ?thesis using Suc by (simp add: acc_live_def)
    next
      case False
      have "seal_hash P ?x = seal_hash P ?t" using eq by (simp add: leaf_of_def)
      then show ?thesis using x False by blast
    qed
  qed
  then show ?thesis
    using verify_witness_sound [OF assms(1) w(1), of "leaf_of P (a_label a) v" "proof"] assms(5) w(2)
    unfolding witness_root_def by auto
qed

lemma sample_live_proof:
  "verify_witness sample_prims (leaf_of sample_prims ''utxo'' ''cm:b'')
     (path sample_prims (a_witness sample_accum) 2) (witness_root sample_prims sample_accum)"
proof -
  let ?ls = "acc_leaves sample_prims ''utxo'' (a_items sample_accum) (a_dead sample_accum)"
  have "1 \<notin> a_dead sample_accum"
  proof
    assume "1 \<in> a_dead sample_accum"
    then have "a_items sample_accum ! 1 \<in> gone sample_accum" by (simp add: gone_def)
    then show False using sample_accum_ok by simp
  qed
  then have "list_vals ?ls 2 = Some (leaf_of sample_prims ''utxo'' ''cm:b'')"
    using sample_accum_ok nth_acc_leaves [of 1 "a_items sample_accum"]
    by (simp add: list_vals_def numeral_2_eq_2)
  then show ?thesis
    unfolding witness_root_def using sample_accum_ok
    by (intro path_verifies [of _ _ "list_vals ?ls"]) (auto simp: acc_ok_def w_list_def WITNESS_HEIGHT_def)
qed

theorem spent_value_has_no_proof_witness:
  "let proof = path sample_prims (a_witness sample_accum) 2; a = sample_accum in
    acc_live a ''cm:b'' \<and> a_index a ''cm:b'' = Some (nat (p_pos proof) - 1)
    \<or> sha_clash sample_prims (verify_inputs sample_prims (leaf_of sample_prims (a_label a) ''cm:b'') proof)
        (tree_inputs sample_prims WITNESS_HEIGHT (list_vals (acc_leaves sample_prims (a_label a) (a_items a) (a_dead a))))
    \<or> (\<exists>x\<in>leaf_texts a. x \<noteq> a_label a @ '':'' @ ''cm:b''
         \<and> seal_hash sample_prims x = seal_hash sample_prims (a_label a @ '':'' @ ''cm:b''))"
  unfolding Let_def
  by (rule spent_value_has_no_proof [OF sha_law_sample])
    (use sample_accum_ok sample_live_proof in \<open>auto simp: tomb_value_def TOMBSTONE_def\<close>)

text \<open>Ancestry is provable. A spine proof for a block at some height under the first \<open>u\<close> blocks
  verifies against the root that the header of block \<open>u + 1\<close> commits.\<close>

theorem ancestry_proof_verifies:
  assumes "spine_ok P s" "1 \<le> height" "height \<le> int u" "u \<le> length (h_hashes s)"
  shows "\<exists>proof. spine_proof P height (Some (int u)) s = Inr (Some proof)
    \<and> verify_ancestry P (h_hashes s ! nat (height - 1)) proof (spine_root_at P u s)"
  by (rule spine_proof_verifies [OF assms])

definition sample_spine :: spine where
  "sample_spine = (case spine_new sample_prims [''blk:1'', ''blk:2'', ''blk:3''] of Inr s \<Rightarrow> s)"

lemma sample_spine_ok: "spine_ok sample_prims sample_spine \<and> h_hashes sample_spine = [''blk:1'', ''blk:2'', ''blk:3'']"
  using spine_new_ok [of "[''blk:1'', ''blk:2'', ''blk:3'']" sample_prims]
  by (auto simp: sample_spine_def WITNESS_HEIGHT_def)

theorem ancestry_proof_verifies_witness:
  "\<exists>proof. spine_proof sample_prims 1 (Some (int 2)) sample_spine = Inr (Some proof)
    \<and> verify_ancestry sample_prims (h_hashes sample_spine ! nat (1 - 1)) proof (spine_root_at sample_prims 2 sample_spine)"
  by (rule ancestry_proof_verifies) (simp_all add: sample_spine_ok)

text \<open>Nothing but an ancestor passes as one. A client that trusts the root over the first \<open>u\<close>
  block hashes accepts a hash only if it is the hash of the block at the height the proof
  names, or two named inputs of SHA-256 collide.\<close>

theorem accepted_ancestor_is_genuine:
  assumes "sha_law P" "spine_ok P s" "u \<le> length (h_hashes s)"
    "verify_ancestry P b proof (spine_root_at P u s)"
  shows "1 \<le> ap_block_height proof \<and> ap_block_height proof \<le> int u
      \<and> h_hashes s ! nat (ap_block_height proof - 1) = b
    \<or> sha_clash P (verify_inputs P b (ap_path proof)) (tree_inputs P WITNESS_HEIGHT (list_vals (take u (h_hashes s))))"
proof -
  have len: "length (h_hashes s) \<le> 2 ^ WITNESS_HEIGHT" using assms(2) by (simp add: spine_ok_def)
  obtain t where t: "w_list P WITNESS_HEIGHT (take u (h_hashes s)) t"
    using w_list_extend [OF w_list_new, of "take u (h_hashes s)" WITNESS_HEIGHT P "''x''"] len assms(3) by auto
  have root: "spine_root_at P u s = wroot_hex P t"
    unfolding spine_root_at_def using assms(2) root_at_prefix [OF _ assms(3) len t] by (simp add: spine_ok_def)
  have v: "verify_witness P b (ap_path proof) (wroot_hex P t)" "p_pos (ap_path proof) = ap_block_height proof - 1"
    using assms(4) root by (auto simp: verify_ancestry_def split: if_splits)
  have pos: "0 \<le> p_pos (ap_path proof)" using v(1) by (simp add: verify_witness_def)
  have "list_vals (take u (h_hashes s)) (nat (p_pos (ap_path proof))) = Some b
    \<or> sha_clash P (verify_inputs P b (ap_path proof)) (tree_inputs P WITNESS_HEIGHT (list_vals (take u (h_hashes s))))"
    using verify_witness_sound [OF assms(1) _ v(1), of "list_vals (take u (h_hashes s))"] t by (auto simp: w_list_def)
  then show ?thesis
    using pos v(2) assms(3) by (auto simp: list_vals_def split: if_splits)
qed

theorem accepted_ancestor_is_genuine_witness:
  "\<exists>proof. verify_ancestry sample_prims ''blk:1'' proof (spine_root_at sample_prims 2 sample_spine)
    \<and> (1 \<le> ap_block_height proof \<and> ap_block_height proof \<le> int 2
        \<and> h_hashes sample_spine ! nat (ap_block_height proof - 1) = ''blk:1''
      \<or> sha_clash sample_prims (verify_inputs sample_prims ''blk:1'' (ap_path proof))
          (tree_inputs sample_prims WITNESS_HEIGHT (list_vals (take 2 (h_hashes sample_spine)))))"
proof -
  have "\<exists>proof. verify_ancestry sample_prims ''blk:1'' proof (spine_root_at sample_prims 2 sample_spine)"
    using spine_proof_verifies [of sample_prims sample_spine 1 2] sample_spine_ok by auto
  then obtain q where p: "verify_ancestry sample_prims ''blk:1'' q (spine_root_at sample_prims 2 sample_spine)" ..
  have "spine_ok sample_prims sample_spine" "2 \<le> length (h_hashes sample_spine)" using sample_spine_ok by simp_all
  from accepted_ancestor_is_genuine [OF sha_law_sample this p] p show ?thesis by blast
qed

text \<open>The order of transactions is not in \<open>tx_root\<close>. For at most 999 values, \<open>seal_root\<close> of any
  permutation of a list is the \<open>seal_root\<close> of the list.\<close>

theorem seal_root_permutation:
  assumes "digest_law P" "mset vs = mset vs'" "length vs < 1000"
  shows "seal_root P label vs default_sparams = seal_root P label vs' default_sparams"
proof -
  have "leaf_ok default_sparams (seal_hash P x)" for x
    using assms(1) by (intro leaf_ok_seal_hash) (simp_all add: default_sparams_def)
  moreover have "mset (domain_leaf P label # map (leaf_of P label) vs) = mset (domain_leaf P label # map (leaf_of P label) vs')"
    using assms(2) by simp
  ultimately show ?thesis
    unfolding seal_root_def using assms(3)
    by (intro build_root_perm) (auto simp: domain_leaf_def leaf_of_def default_sparams_def)
qed

theorem seal_root_permutation_witness:
  "seal_root sample_prims ''tx'' [''tx:1'', ''tx:2''] default_sparams
    = seal_root sample_prims ''tx'' [''tx:2'', ''tx:1''] default_sparams"
  by (rule seal_root_permutation) (simp_all add: digest_law_def sample_prims_def)

end
