(* ===== verification/Ledger.thy ===== *)
theory Ledger
  imports Params Seal
begin

text \<open>
  The ledger: \<open>chain/state.py\<close>, the transaction and block records it reads
  (\<open>chain/transaction.py\<close>, \<open>chain/block.py\<close>), the nullifier partition of
  \<open>chain/locality.py\<close> and the undo records of \<open>chain/store/undo.py\<close>.

  \<open>chain_state\<close> is \<open>ChainState\<close>: the note set and the nullifier set are accumulators, the
  history is the spine. The check of one transaction's body and proof
  (\<open>verify_transaction\<close>) is the argument \<open>vt\<close> of the operations that call it; nothing is
  assumed of it. Refusals \<open>(False, reason)\<close> are the constructors of \<open>refusal\<close>, one per return
  statement. \<open>ledger_ok\<close> is the invariant: both accumulators are well formed and every spent
  note has its nullifier (\<open>cross_check\<close>), and each operation that moves the state keeps it.
\<close>

section \<open>Transactions and blocks\<close>

record tx_input =
  in_cm :: string
  in_nullifier :: string
  in_owner_pub :: string
  in_signature :: string

record transaction =
  tx_version :: int
  tx_chain_id :: string
  tx_fee :: int
  tx_inputs :: "tx_input list"
  tx_output_cms :: "string list"
  tx_v :: "int list"
  tx_binding :: int
  tx_proofs :: "(string \<times> bytes) list"
  tx_output_notes :: "bytes list"
  tx_output_tags :: "bytes list"

definition txid :: "prims \<Rightarrow> transaction \<Rightarrow> string" where
  "txid P tx = ''tx:'' @ h_hex P ''txid'' [PInt (tx_binding tx)]"

definition tx_nullifiers :: "transaction \<Rightarrow> string list" where
  "tx_nullifiers tx = map in_nullifier (tx_inputs tx)"

definition tx_input_cms :: "transaction \<Rightarrow> string list" where
  "tx_input_cms tx = map in_cm (tx_inputs tx)"

record ceremony_meta =
  cm_epoch :: int
  cm_leader_id :: node_id
  cm_rows :: int
  cm_row_size :: int
  cm_grid_seed :: string
  cm_attempt :: int

record block_header =
  bh_height :: int
  bh_prev_hash :: string
  bh_chain_id :: string
  bh_utxo_root :: nat
  bh_nf_root :: nat
  bh_tx_root :: nat
  bh_ceremony :: ceremony_meta

definition header_hash :: "prims \<Rightarrow> block_header \<Rightarrow> string" where
  "header_hash P h = ''blk:'' @ h_hex P ''block-header''
     [PInt (bh_height h), PStr (bh_prev_hash h), PStr (bh_chain_id h), PInt (int (bh_utxo_root h)),
      PInt (int (bh_nf_root h)), PInt (int (bh_tx_root h)),
      (let c = bh_ceremony h in PList [PInt (cm_epoch c), PStr (cm_leader_id c), PInt (cm_rows c),
         PInt (cm_row_size c), PStr (cm_grid_seed c), PInt (cm_attempt c)])]"

record block =
  b_header :: block_header
  b_transactions :: "transaction list"

definition compute_tx_root :: "prims \<Rightarrow> block \<Rightarrow> nat" where
  "compute_tx_root P b = seal_root P ''tx'' (map (txid P) (b_transactions b)) default_sparams"

section \<open>The partition of a nullifier\<close>

text \<open>\<open>int(s, 16)\<close>: white space around, a sign, a \<open>0x\<close> prefix and single underscores between
  digits are accepted. The flag says whether an underscore may come next.\<close>

fun hex_digits :: "nat \<Rightarrow> bool \<Rightarrow> string \<Rightarrow> nat option" where
  "hex_digits acc us [] = (if us then Some acc else None)"
| "hex_digits acc us (c # cs) =
     (if c = CHR ''_'' then (if us then hex_digits acc False cs else None)
      else case hex_val c of None \<Rightarrow> None | Some d \<Rightarrow> hex_digits (acc * 16 + d) True cs)"

definition strip :: "string \<Rightarrow> string" where
  "strip s = rev (dropWhile is_space (rev (dropWhile is_space s)))"

definition hex_unsigned :: "string \<Rightarrow> nat option" where
  "hex_unsigned s =
     (case s of
        a # b # rest \<Rightarrow> if a = CHR ''0'' \<and> (b = CHR ''x'' \<or> b = CHR ''X'')
          then (case rest of c # rest' \<Rightarrow> hex_digits 0 False (if c = CHR ''_'' then rest' else rest) | [] \<Rightarrow> None)
          else hex_digits 0 False s
      | _ \<Rightarrow> hex_digits 0 False s)"

definition int16 :: "string \<Rightarrow> exn + int" where
  "int16 s =
     (let t = strip s;
          (neg, u) = (case t of c # cs \<Rightarrow> if c = CHR ''-'' then (True, cs) else if c = CHR ''+'' then (False, cs) else (False, t)
                     | [] \<Rightarrow> (False, t))
      in case hex_unsigned u of None \<Rightarrow> Inl ValueError
         | Some n \<Rightarrow> Inr (if neg then - int n else int n))"

text \<open>\<open>s.split(":", 1)[-1]\<close>.\<close>

definition after_colon :: "string \<Rightarrow> string" where
  "after_colon s = (case dropWhile (\<lambda>c. c \<noteq> CHR '':'') s of [] \<Rightarrow> s | _ # rest \<Rightarrow> rest)"

definition partition_of_nullifier :: "string \<Rightarrow> int \<Rightarrow> exn + int" where
  "partition_of_nullifier nullifier n_partitions =
     (if n_partitions < 1 then Inl ValueError
      else bindR (int16 (after_colon nullifier)) (\<lambda>n. Inr (n mod n_partitions)))"

definition tx_partition :: "transaction \<Rightarrow> int \<Rightarrow> exn + int option" where
  "tx_partition tx n_partitions =
     bindR (foldR (\<lambda>parts nf. bindR (partition_of_nullifier nf n_partitions) (\<lambda>p. Inr (List.insert p parts)))
              [] (tx_nullifiers tx))
       (\<lambda>parts. Inr (case parts of [p] \<Rightarrow> Some p | _ \<Rightarrow> None))"

section \<open>Deltas\<close>

record utxo_delta =
  d_spent :: "string list"
  d_created :: "string list"
  d_nullifiers :: "string list"
  d_fees :: int

definition delta_empty :: utxo_delta where
  "delta_empty = \<lparr>d_spent = [], d_created = [], d_nullifiers = [], d_fees = 0\<rparr>"

definition delta_extend :: "utxo_delta \<Rightarrow> utxo_delta \<Rightarrow> utxo_delta" where
  "delta_extend a d = \<lparr>d_spent = d_spent a @ d_spent d, d_created = d_created a @ d_created d,
     d_nullifiers = d_nullifiers a @ d_nullifiers d, d_fees = d_fees a + d_fees d\<rparr>"

definition tx_delta :: "transaction \<Rightarrow> utxo_delta" where
  "tx_delta tx = \<lparr>d_spent = tx_input_cms tx, d_created = tx_output_cms tx,
     d_nullifiers = tx_nullifiers tx, d_fees = tx_fee tx\<rparr>"

definition from_txs :: "transaction list \<Rightarrow> utxo_delta" where
  "from_txs txs = foldl (\<lambda>a tx. delta_extend a (tx_delta tx)) delta_empty txs"

definition delta_digest :: "prims \<Rightarrow> utxo_delta \<Rightarrow> string" where
  "delta_digest P d = h_hex P ''utxo-delta''
     [PList (map PStr (d_spent d)), PList (map PStr (d_created d)), PList (map PStr (d_nullifiers d)), PInt (d_fees d)]"

datatype drop_reason = Collides string | SelfConflict

record merge_acc =
  ma_delta :: utxo_delta
  ma_dropped :: "(nat \<times> drop_reason) list"

text \<open>The sets \<open>seen_spent\<close>, \<open>seen_created\<close> and \<open>seen_nf\<close> of the source always hold exactly what
  the three lists do, so the model reads them off the merged delta.\<close>

definition merge_step :: "merge_acc \<Rightarrow> nat \<times> utxo_delta \<Rightarrow> merge_acc" where
  "merge_step m = (\<lambda>(i, d).
     let a = ma_delta m;
         inter = (\<lambda>xs ys. filter (\<lambda>x. x \<in> set ys) xs);
         c1 = inter (d_spent d) (d_spent a);
         c2 = inter (d_nullifiers d) (d_nullifiers a);
         c3 = inter (d_created d) (d_created a);
         clash = (if c1 \<noteq> [] then c1 else if c2 \<noteq> [] then c2 else c3)
     in if clash \<noteq> [] then m\<lparr>ma_dropped := ma_dropped m @ [(i, Collides (hd (sorted_set clash)))]\<rparr>
        else if \<not> distinct (d_spent d) \<or> \<not> distinct (d_nullifiers d)
        then m\<lparr>ma_dropped := ma_dropped m @ [(i, SelfConflict)]\<rparr>
        else m\<lparr>ma_delta := delta_extend a d\<rparr>)"

definition merge_deltas :: "utxo_delta list \<Rightarrow> utxo_delta \<times> (nat \<times> drop_reason) list" where
  "merge_deltas deltas =
     (let m = foldl merge_step \<lparr>ma_delta = delta_empty, ma_dropped = []\<rparr> (enumerate 0 deltas)
      in (ma_delta m, ma_dropped m))"

section \<open>The state\<close>

record chain_state =
  cs_params :: chain_params
  cs_chain_id :: string
  cs_utxo :: accum
  cs_nullifiers :: accum
  cs_history :: spine
  cs_height :: int
  cs_tip :: string
  cs_burned_fees :: int

definition seal_params :: "chain_params \<Rightarrow> sparams" where
  "seal_params c = default_sparams\<lparr>fold_d := seal_d c\<rparr>"

definition state_new :: "prims \<Rightarrow> chain_params \<Rightarrow> string \<Rightarrow> exn + chain_state" where
  "state_new P params cid =
     bindR (accum_new P ''utxo'' (seal_params params)) (\<lambda>u.
     bindR (accum_new P ''nf'' (seal_params params)) (\<lambda>n.
       Inr \<lparr>cs_params = params, cs_chain_id = (if cid = [] then chain_id params else cid),
            cs_utxo = u, cs_nullifiers = n, cs_history = spine_empty, cs_height = - 1,
            cs_tip = ''genesis'', cs_burned_fees = 0\<rparr>))"

datatype refusal =
    TxRefused string
  | NotUnspent string
  | SpentTwice string
  | NfPublished string
  | NfTwice string
  | OutputExists string
  | DuplicateOutput string
  | SpansPartitions
  | WrongPartition int int
  | WrongChain
  | WrongHeight
  | WrongPrev
  | TxRootMismatch
  | DuplicateTx
  | UtxoRootMismatch
  | NfRootMismatch
  | RecordsDisagree nat nat

definition cross_check :: "chain_state \<Rightarrow> refusal + unit" where
  "cross_check s =
     (if spent_count (cs_utxo s) \<noteq> acc_size (cs_nullifiers s)
      then Inl (RecordsDisagree (spent_count (cs_utxo s)) (acc_size (cs_nullifiers s)))
      else Inr ())"

definition record_block :: "prims \<Rightarrow> int \<Rightarrow> string \<Rightarrow> chain_state \<Rightarrow> exn + chain_state" where
  "record_block P height block_hash s =
     (if int (length (h_hashes (cs_history s))) \<noteq> height - 1 then Inl ValueError
      else bindR (spine_append P block_hash (cs_history s)) (\<lambda>h.
        Inr (s\<lparr>cs_history := h, cs_height := height, cs_tip := block_hash\<rparr>)))"

definition issue :: "prims \<Rightarrow> string \<Rightarrow> chain_state \<Rightarrow> exn + chain_state" where
  "issue P cm s =
     (if 0 \<le> cs_height s then Inl ValueError
      else bindR (acc_put P cm (cs_utxo s)) (\<lambda>u. Inr (s\<lparr>cs_utxo := u\<rparr>)))"

text \<open>A loop that returns at the first element refused.\<close>

definition check_each :: "('a \<Rightarrow> 'e + unit) \<Rightarrow> 'a list \<Rightarrow> 'e + unit" where
  "check_each f xs = foldR (\<lambda>_ x. f x) () xs"

definition check_transaction ::
    "(transaction \<Rightarrow> refusal + unit) \<Rightarrow> bool \<Rightarrow> string set \<Rightarrow> string set \<Rightarrow> transaction \<Rightarrow> chain_state \<Rightarrow> refusal + unit" where
  "check_transaction vt verify_proof seen_nf seen_cm tx s =
     bindR (if verify_proof then vt tx else Inr ()) (\<lambda>_.
     bindR (check_each (\<lambda>cm. if \<not> acc_live (cs_utxo s) cm then Inl (NotUnspent cm)
                              else if cm \<in> seen_cm then Inl (SpentTwice cm) else Inr ()) (tx_input_cms tx)) (\<lambda>_.
     bindR (check_each (\<lambda>nf. if acc_live (cs_nullifiers s) nf then Inl (NfPublished nf)
                              else if nf \<in> seen_nf then Inl (NfTwice nf) else Inr ()) (tx_nullifiers tx)) (\<lambda>_.
     check_each (\<lambda>cm. if ever_contained (cs_utxo s) cm then Inl (OutputExists cm) else Inr ()) (tx_output_cms tx))))"

definition apply_transaction :: "prims \<Rightarrow> transaction \<Rightarrow> chain_state \<Rightarrow> exn + chain_state" where
  "apply_transaction P tx s =
     bindR (foldR (\<lambda>u cm. acc_spend P cm u) (cs_utxo s) (tx_input_cms tx)) (\<lambda>u1.
     bindR (foldR (\<lambda>n nf. acc_put P nf n) (cs_nullifiers s) (tx_nullifiers tx)) (\<lambda>n1.
     bindR (foldR (\<lambda>u cm. acc_put P cm u) u1 (tx_output_cms tx)) (\<lambda>u2.
       Inr (s\<lparr>cs_utxo := u2, cs_nullifiers := n1, cs_burned_fees := cs_burned_fees s + tx_fee tx\<rparr>))))"

definition state_copy :: "prims \<Rightarrow> chain_state \<Rightarrow> exn + chain_state" where
  "state_copy P s =
     bindR (acc_clone P (cs_utxo s)) (\<lambda>u.
     bindR (acc_clone P (cs_nullifiers s)) (\<lambda>n.
       Inr (s\<lparr>cs_utxo := u, cs_nullifiers := n\<rparr>)))"

record shadow =
  sh_state :: chain_state
  sh_nf :: "string set"
  sh_cm :: "string set"

text \<open>One turn of the loop of \<open>check_block\<close>: the outer sum is an exception, the inner one the
  refusal that ends the loop.\<close>

definition shadow_step ::
    "prims \<Rightarrow> (transaction \<Rightarrow> refusal + unit) \<Rightarrow> (transaction \<Rightarrow> exn + bool) \<Rightarrow> refusal + shadow \<Rightarrow> transaction
       \<Rightarrow> exn + (refusal + shadow)" where
  "shadow_step P vt already r tx =
     (case r of Inl e \<Rightarrow> Inr (Inl e)
      | Inr sh \<Rightarrow> bindR (already tx) (\<lambda>verified.
          case check_transaction vt (\<not> verified) (sh_nf sh) (sh_cm sh) tx (sh_state sh) of
            Inl e \<Rightarrow> Inr (Inl e)
          | Inr _ \<Rightarrow> bindR (apply_transaction P tx (sh_state sh)) (\<lambda>s.
              Inr (Inr \<lparr>sh_state = s, sh_nf = sh_nf sh \<union> set (tx_nullifiers tx),
                        sh_cm = sh_cm sh \<union> set (tx_input_cms tx)\<rparr>))))"

definition check_block ::
    "prims \<Rightarrow> (transaction \<Rightarrow> refusal + unit) \<Rightarrow> (transaction \<Rightarrow> exn + bool) \<Rightarrow> block \<Rightarrow> chain_state \<Rightarrow> exn + (refusal + unit)" where
  "check_block P vt already b s =
     (let h = b_header b; txs = b_transactions b
      in if bh_chain_id h \<noteq> cs_chain_id s then Inr (Inl WrongChain)
         else if bh_height h \<noteq> cs_height s + 1 then Inr (Inl WrongHeight)
         else if bh_prev_hash h \<noteq> cs_tip s then Inr (Inl WrongPrev)
         else if bh_tx_root h \<noteq> compute_tx_root P b then Inr (Inl TxRootMismatch)
         else if \<not> distinct (map (txid P) txs) then Inr (Inl DuplicateTx)
         else bindR (state_copy P s) (\<lambda>c.
              bindR (foldR (shadow_step P vt already) (Inr \<lparr>sh_state = c, sh_nf = {}, sh_cm = {}\<rparr>) txs) (\<lambda>r.
                Inr (bindR r (\<lambda>sh.
                  if acc_root (cs_utxo (sh_state sh)) \<noteq> bh_utxo_root h then Inl UtxoRootMismatch
                  else if acc_root (cs_nullifiers (sh_state sh)) \<noteq> bh_nf_root h then Inl NfRootMismatch
                  else Inr ())))))"

definition apply_block :: "prims \<Rightarrow> block \<Rightarrow> chain_state \<Rightarrow> exn + (int \<times> chain_state)" where
  "apply_block P b s =
     bindR (foldR (\<lambda>s tx. apply_transaction P tx s) s (b_transactions b)) (\<lambda>s1.
       if \<not> is_ok (cross_check s1) then Inl LedgerInconsistent
       else Inr (sum_list (map tx_fee (b_transactions b)),
                 s1\<lparr>cs_height := bh_height (b_header b), cs_tip := header_hash P (b_header b)\<rparr>))"

section \<open>Deltas against the state\<close>

record seen =
  sn_nf :: "string set"
  sn_cm :: "string set"
  sn_out :: "string set"

text \<open>One turn of the loop of \<open>check_ceremony_txs\<close>.\<close>

definition ceremony_step ::
    "(transaction \<Rightarrow> refusal + unit) \<Rightarrow> (transaction \<Rightarrow> exn + bool) \<Rightarrow> chain_state \<Rightarrow> int \<Rightarrow> int \<Rightarrow> refusal + seen
       \<Rightarrow> transaction \<Rightarrow> exn + (refusal + seen)" where
  "ceremony_step vt already s home n_partitions r tx =
     (case r of Inl e \<Rightarrow> Inr (Inl e)
      | Inr sn \<Rightarrow> bindR (tx_partition tx n_partitions) (\<lambda>part.
          case part of
            None \<Rightarrow> Inr (Inl SpansPartitions)
          | Some p \<Rightarrow>
              if p \<noteq> home then Inr (Inl (WrongPartition p home))
              else bindR (already tx) (\<lambda>verified. Inr (
                   bindR (check_transaction vt (\<not> verified) (sn_nf sn) (sn_cm sn) tx s) (\<lambda>_.
                   bindR (check_each (\<lambda>cm. if cm \<in> sn_out sn then Inl (DuplicateOutput cm) else Inr ())
                            (tx_output_cms tx)) (\<lambda>_.
                     Inr \<lparr>sn_nf = sn_nf sn \<union> set (tx_nullifiers tx),
                          sn_cm = sn_cm sn \<union> set (tx_input_cms tx),
                          sn_out = sn_out sn \<union> set (tx_output_cms tx)\<rparr>))))))"

definition check_ceremony_txs ::
    "(transaction \<Rightarrow> refusal + unit) \<Rightarrow> (transaction \<Rightarrow> exn + bool) \<Rightarrow> transaction list \<Rightarrow> int \<Rightarrow> int \<Rightarrow> chain_state
       \<Rightarrow> exn + (refusal + utxo_delta)" where
  "check_ceremony_txs vt already txs home n_partitions s =
     bindR (foldR (ceremony_step vt already s home n_partitions)
              (Inr \<lparr>sn_nf = {}, sn_cm = {}, sn_out = {}\<rparr>) txs)
       (\<lambda>r. Inr (bindR r (\<lambda>_. Inr (from_txs txs))))"

definition apply_delta :: "prims \<Rightarrow> utxo_delta \<Rightarrow> chain_state \<Rightarrow> exn + chain_state" where
  "apply_delta P d s =
     bindR (foldR (\<lambda>u cm. acc_spend P cm u) (cs_utxo s) (d_spent d)) (\<lambda>u1.
     bindR (foldR (\<lambda>n nf. acc_put P nf n) (cs_nullifiers s) (d_nullifiers d)) (\<lambda>n1.
     bindR (foldR (\<lambda>u cm. acc_put P cm u) u1 (d_created d)) (\<lambda>u2.
       let s1 = s\<lparr>cs_utxo := u2, cs_nullifiers := n1, cs_burned_fees := cs_burned_fees s + d_fees d\<rparr>
       in if \<not> is_ok (cross_check s1) then Inl LedgerInconsistent else Inr s1)))"

definition can_apply_delta :: "utxo_delta \<Rightarrow> chain_state \<Rightarrow> refusal + unit" where
  "can_apply_delta d s =
     bindR (check_each (\<lambda>cm. if \<not> acc_live (cs_utxo s) cm then Inl (NotUnspent cm) else Inr ()) (d_spent d)) (\<lambda>_.
     bindR (check_each (\<lambda>nf. if acc_live (cs_nullifiers s) nf then Inl (NfPublished nf) else Inr ()) (d_nullifiers d)) (\<lambda>_.
     check_each (\<lambda>cm. if ever_contained (cs_utxo s) cm then Inl (OutputExists cm) else Inr ()) (d_created d)))"

record state_dump =
  sd_chain_id :: string
  sd_height :: int
  sd_tip :: string
  sd_burned_fees :: int
  sd_utxo :: "string list"
  sd_utxo_dead :: "nat list"
  sd_nullifiers :: "string list"
  sd_history :: "string list"

definition state_dump_of :: "chain_state \<Rightarrow> state_dump" where
  "state_dump_of s = \<lparr>sd_chain_id = cs_chain_id s, sd_height = cs_height s, sd_tip = cs_tip s,
     sd_burned_fees = cs_burned_fees s, sd_utxo = fst (acc_dump (cs_utxo s)),
     sd_utxo_dead = snd (acc_dump (cs_utxo s)), sd_nullifiers = fst (acc_dump (cs_nullifiers s)),
     sd_history = h_hashes (cs_history s)\<rparr>"

definition state_load :: "prims \<Rightarrow> chain_params \<Rightarrow> state_dump \<Rightarrow> exn + chain_state" where
  "state_load P params d =
     bindR (acc_load P ''utxo'' (sd_utxo d) (sd_utxo_dead d) (seal_params params) None) (\<lambda>u.
     bindR (acc_load P ''nf'' (sd_nullifiers d) [] (seal_params params) None) (\<lambda>n.
     bindR (spine_new P (sd_history d)) (\<lambda>h.
       Inr \<lparr>cs_params = params, cs_chain_id = sd_chain_id d, cs_utxo = u, cs_nullifiers = n,
            cs_history = h, cs_height = sd_height d, cs_tip = sd_tip d,
            cs_burned_fees = sd_burned_fees d\<rparr>)))"

section \<open>Undo records\<close>

record undo_record =
  u_height :: int
  u_block_hash :: string
  u_prev_tip :: string
  u_unspend :: "string list"
  u_created :: "string list"
  u_nullifiers :: "string list"
  u_fees :: int
  u_prev_utxo_root :: nat
  u_prev_nf_root :: nat
  u_prev_height :: int

definition capture :: "chain_state \<Rightarrow> utxo_delta \<Rightarrow> int \<Rightarrow> string \<Rightarrow> undo_record" where
  "capture s d height block_hash = \<lparr>u_height = height, u_block_hash = block_hash,
     u_prev_tip = cs_tip s, u_unspend = d_spent d, u_created = d_created d,
     u_nullifiers = d_nullifiers d, u_fees = d_fees d,
     u_prev_utxo_root = acc_root (cs_utxo s), u_prev_nf_root = acc_root (cs_nullifiers s),
     u_prev_height = cs_height s\<rparr>"

definition apply_undo :: "prims \<Rightarrow> undo_record \<Rightarrow> chain_state \<Rightarrow> exn + chain_state" where
  "apply_undo P r s =
     (if cs_height s \<noteq> u_height r then Inl UndoError
      else bindR (acc_truncate P (length (u_created r)) (cs_utxo s)) (\<lambda>u1.
           bindR (acc_truncate P (length (u_nullifiers r)) (cs_nullifiers s)) (\<lambda>n1.
           bindR (foldR (\<lambda>u cm. acc_unspend P cm u) u1 (u_unspend r)) (\<lambda>u2.
             let s1 = s\<lparr>cs_utxo := u2, cs_nullifiers := n1,
                        cs_burned_fees := cs_burned_fees s - u_fees r,
                        cs_history := truncate_to P (u_prev_height r) (cs_history s),
                        cs_height := u_prev_height r, cs_tip := u_prev_tip r\<rparr>
             in if acc_root (cs_utxo s1) \<noteq> u_prev_utxo_root r then Inl UndoError
                else if acc_root (cs_nullifiers s1) \<noteq> u_prev_nf_root r then Inl UndoError
                else Inr s1))))"

section \<open>The invariant\<close>

definition ledger_ok :: "prims \<Rightarrow> chain_state \<Rightarrow> bool" where
  "ledger_ok P s =
     (acc_ok P (cs_utxo s) \<and> acc_ok P (cs_nullifiers s) \<and> spine_ok P (cs_history s)
      \<and> gone (cs_nullifiers s) = {} \<and> cross_check s = Inr ()
      \<and> a_label (cs_utxo s) = ''utxo'' \<and> a_label (cs_nullifiers s) = ''nf''
      \<and> a_sp (cs_utxo s) = seal_params (cs_params s) \<and> a_sp (cs_nullifiers s) = seal_params (cs_params s))"

text \<open>Room left in both trees for what a delta adds.\<close>

definition has_room :: "nat \<Rightarrow> nat \<Rightarrow> chain_state \<Rightarrow> bool" where
  "has_room n_nf n_cm s = (length (a_items (cs_nullifiers s)) + n_nf < 2 ^ WITNESS_HEIGHT
     \<and> length (a_items (cs_utxo s)) + n_cm < 2 ^ WITNESS_HEIGHT)"

lemma cross_check_iff:
  "acc_ok P (cs_utxo s) \<Longrightarrow> cross_check s = Inr () \<longleftrightarrow> card (gone (cs_utxo s)) = length (a_items (cs_nullifiers s))"
  using card_gone [of P "cs_utxo s"] by (simp add: cross_check_def acc_size_def)

lemma check_each_ok [simp]: "check_each f xs = Inr () \<longleftrightarrow> (\<forall>x\<in>set xs. f x = Inr ())"
  by (induction xs) (auto simp: check_each_def)

lemma acc_live_ok: "acc_ok P a \<Longrightarrow> acc_live a v \<longleftrightarrow> v \<in> set (a_items a) - gone a"
  using acc_live_iff by auto

lemma ever_contained_ok: "acc_ok P a \<Longrightarrow> ever_contained a v \<longleftrightarrow> v \<in> set (a_items a)"
  using acc_ok_index by (auto simp: ever_contained_def)

lemma check_each_trivial: "check_each (\<lambda>_. Inr ()) xs = Inr ()"
  by simp

text \<open>A delta that has no conflict with itself or with the state.\<close>

definition delta_fits :: "utxo_delta \<Rightarrow> chain_state \<Rightarrow> bool" where
  "delta_fits d s =
     (distinct (d_spent d) \<and> distinct (d_nullifiers d) \<and> distinct (d_created d)
      \<and> set (d_spent d) \<subseteq> set (a_items (cs_utxo s)) - gone (cs_utxo s)
      \<and> set (d_nullifiers d) \<inter> set (a_items (cs_nullifiers s)) = {}
      \<and> set (d_created d) \<inter> set (a_items (cs_utxo s)) = {}
      \<and> length (d_spent d) = length (d_nullifiers d))"

lemma can_apply_delta_iff:
  assumes "ledger_ok P s"
  shows "can_apply_delta d s = Inr () \<longleftrightarrow>
     set (d_spent d) \<subseteq> set (a_items (cs_utxo s)) - gone (cs_utxo s)
      \<and> set (d_nullifiers d) \<inter> set (a_items (cs_nullifiers s)) = {}
      \<and> set (d_created d) \<inter> set (a_items (cs_utxo s)) = {}"
proof -
  have ok: "acc_ok P (cs_utxo s)" "acc_ok P (cs_nullifiers s)" "gone (cs_nullifiers s) = {}"
    using assms by (simp_all add: ledger_ok_def)
  show ?thesis
    using ok acc_live_ok [OF ok(1)] acc_live_ok [OF ok(2)] ever_contained_ok [OF ok(1)]
    by (auto simp: can_apply_delta_def split: if_splits)
qed

text \<open>What a successful delta did to the two sets.\<close>

lemma apply_delta_Inr:
  assumes "ledger_ok P s" "apply_delta P d s = Inr s'" "has_room (length (d_nullifiers d)) (length (d_created d)) s"
  shows "ledger_ok P s' \<and> delta_fits d s
    \<and> a_items (cs_utxo s') = a_items (cs_utxo s) @ d_created d
    \<and> gone (cs_utxo s') = gone (cs_utxo s) \<union> set (d_spent d)
    \<and> a_items (cs_nullifiers s') = a_items (cs_nullifiers s) @ d_nullifiers d
    \<and> cs_burned_fees s' = cs_burned_fees s + d_fees d
    \<and> cs_history s' = cs_history s \<and> cs_height s' = cs_height s \<and> cs_tip s' = cs_tip s
    \<and> cs_params s' = cs_params s \<and> cs_chain_id s' = cs_chain_id s"
proof -
  from assms(2) obtain u1 n1 u2 where st:
    "foldR (\<lambda>u cm. acc_spend P cm u) (cs_utxo s) (d_spent d) = Inr u1"
    "foldR (\<lambda>n nf. acc_put P nf n) (cs_nullifiers s) (d_nullifiers d) = Inr n1"
    "foldR (\<lambda>u cm. acc_put P cm u) u1 (d_created d) = Inr u2"
    "s' = s\<lparr>cs_utxo := u2, cs_nullifiers := n1, cs_burned_fees := cs_burned_fees s + d_fees d\<rparr>"
    "is_ok (cross_check s')"
    by (auto simp: apply_delta_def Let_def split: if_splits)
  have ok: "acc_ok P (cs_utxo s)" "acc_ok P (cs_nullifiers s)" "gone (cs_nullifiers s) = {}"
    using assms(1) by (simp_all add: ledger_ok_def)
  from acc.spend_all_Inr [OF ok(1)] st(1)
  have u1: "distinct (d_spent d)" "set (d_spent d) \<subseteq> set (a_items (cs_utxo s)) - gone (cs_utxo s)"
    "acc_ok P u1" "a_items u1 = a_items (cs_utxo s)" "gone u1 = gone (cs_utxo s) \<union> set (d_spent d)"
    "a_label u1 = a_label (cs_utxo s)" "a_sp u1 = a_sp (cs_utxo s)"
    by (auto simp: acc.spend_all_def)
  from acc.put_all_Inr [OF ok(2)] st(2) assms(3)
  have n1: "distinct (d_nullifiers d)" "set (d_nullifiers d) \<inter> set (a_items (cs_nullifiers s)) = {}"
    "acc_ok P n1" "a_items n1 = a_items (cs_nullifiers s) @ d_nullifiers d" "gone n1 = gone (cs_nullifiers s)"
    "a_label n1 = a_label (cs_nullifiers s)" "a_sp n1 = a_sp (cs_nullifiers s)"
    by (auto simp: acc.put_all_def has_room_def)
  from acc.put_all_Inr [OF u1(3)] st(3) assms(3) u1(4)
  have u2: "distinct (d_created d)" "set (d_created d) \<inter> set (a_items u1) = {}"
    "acc_ok P u2" "a_items u2 = a_items u1 @ d_created d" "gone u2 = gone u1"
    "a_label u2 = a_label u1" "a_sp u2 = a_sp u1"
    by (auto simp: acc.put_all_def has_room_def)
  have cc: "cross_check s' = Inr ()" using st(5) by (auto simp: is_ok_iff)
  have "card (gone u2) = length (a_items n1)"
    using cc cross_check_iff [of P s'] u2(3) st(4) by simp
  moreover have "card (gone u2) = card (gone (cs_utxo s)) + length (d_spent d)"
  proof -
    have "finite (gone (cs_utxo s))" using gone_subset [OF ok(1)] finite_subset by blast
    moreover have "gone (cs_utxo s) \<inter> set (d_spent d) = {}" using u1(2) by blast
    ultimately show ?thesis
      using u1(1,5) u2(5) by (simp add: card_Un_disjoint distinct_card)
  qed
  moreover have "card (gone (cs_utxo s)) = length (a_items (cs_nullifiers s))"
    using assms(1) cross_check_iff [OF ok(1)] by (simp add: ledger_ok_def)
  ultimately have "length (d_spent d) = length (d_nullifiers d)" using n1(4) by simp
  then show ?thesis
    using assms(1) u1 n1 u2 st(4) cc by (auto simp: ledger_ok_def delta_fits_def)
qed

lemma apply_delta_ok:
  assumes "ledger_ok P s" "delta_fits d s" "has_room (length (d_nullifiers d)) (length (d_created d)) s"
  shows "\<exists>s'. apply_delta P d s = Inr s'"
proof -
  have ok: "acc_ok P (cs_utxo s)" "acc_ok P (cs_nullifiers s)"
    using assms(1) by (simp_all add: ledger_ok_def)
  obtain u1 where u1: "acc.spend_all P (d_spent d) (cs_utxo s) = Inr u1" "acc_ok P u1"
    "a_items u1 = a_items (cs_utxo s)" "gone u1 = gone (cs_utxo s) \<union> set (d_spent d)"
    using acc.spend_all_ok [OF ok(1), of "d_spent d"] assms(2) by (auto simp: delta_fits_def)
  obtain n1 where n1: "acc.put_all P (d_nullifiers d) (cs_nullifiers s) = Inr n1"
    "a_items n1 = a_items (cs_nullifiers s) @ d_nullifiers d"
    using acc.put_all_ok [OF ok(2), of "d_nullifiers d"] assms(2,3) by (auto simp: delta_fits_def has_room_def)
  obtain u2 where u2: "acc.put_all P (d_created d) u1 = Inr u2" "acc_ok P u2" "gone u2 = gone u1"
    using acc.put_all_ok [OF u1(2), of "d_created d"] assms(2,3) u1(3) by (auto simp: delta_fits_def has_room_def)
  let ?s = "s\<lparr>cs_utxo := u2, cs_nullifiers := n1, cs_burned_fees := cs_burned_fees s + d_fees d\<rparr>"
  have "finite (gone (cs_utxo s))" using gone_subset [OF ok(1)] finite_subset by blast
  moreover have "gone (cs_utxo s) \<inter> set (d_spent d) = {}" using assms(2) by (auto simp: delta_fits_def)
  ultimately have "card (gone u2) = card (gone (cs_utxo s)) + length (d_spent d)"
    using u1(4) u2(3) assms(2) by (simp add: card_Un_disjoint distinct_card delta_fits_def)
  then have "cross_check ?s = Inr ()"
    using cross_check_iff [of P ?s] cross_check_iff [OF ok(1)] u2(2) n1(2) assms(1,2)
    by (simp add: ledger_ok_def delta_fits_def)
  then show ?thesis
    using u1(1) n1(1) u2(1) by (simp add: apply_delta_def acc.spend_all_def acc.put_all_def)
qed

section \<open>Undoing a block\<close>

text \<open>Two states a reader cannot tell apart: the same values, spends, counters and spine, and
  the same roots.\<close>

definition same_ledger :: "prims \<Rightarrow> chain_state \<Rightarrow> chain_state \<Rightarrow> bool" where
  "same_ledger P s t =
     (a_items (cs_utxo s) = a_items (cs_utxo t) \<and> a_dead (cs_utxo s) = a_dead (cs_utxo t)
      \<and> a_items (cs_nullifiers s) = a_items (cs_nullifiers t) \<and> a_dead (cs_nullifiers s) = a_dead (cs_nullifiers t)
      \<and> acc_root (cs_utxo s) = acc_root (cs_utxo t) \<and> acc_root (cs_nullifiers s) = acc_root (cs_nullifiers t)
      \<and> witness_root P (cs_utxo s) = witness_root P (cs_utxo t)
      \<and> witness_root P (cs_nullifiers s) = witness_root P (cs_nullifiers t)
      \<and> h_hashes (cs_history s) = h_hashes (cs_history t) \<and> spine_root P (cs_history s) = spine_root P (cs_history t)
      \<and> cs_height s = cs_height t \<and> cs_tip s = cs_tip t \<and> cs_burned_fees s = cs_burned_fees t
      \<and> cs_chain_id s = cs_chain_id t \<and> cs_params s = cs_params t)"

lemma same_ledgerI:
  assumes "ledger_ok P s" "ledger_ok P t" "cs_params s = cs_params t"
    "a_items (cs_utxo s) = a_items (cs_utxo t)" "gone (cs_utxo s) = gone (cs_utxo t)"
    "a_items (cs_nullifiers s) = a_items (cs_nullifiers t)"
    "h_hashes (cs_history s) = h_hashes (cs_history t)" "cs_height s = cs_height t" "cs_tip s = cs_tip t"
    "cs_burned_fees s = cs_burned_fees t" "cs_chain_id s = cs_chain_id t"
  shows "same_ledger P s t"
  using assms acc_root_canonical [of P "cs_utxo s" "cs_utxo t"]
    acc_root_canonical [of P "cs_nullifiers s" "cs_nullifiers t"]
    spine_root_unique [of P "cs_history s" "cs_history t"]
  by (simp add: same_ledger_def ledger_ok_def)

lemma record_block_Inr:
  assumes "ledger_ok P s" "record_block P h b s = Inr s'"
  shows "ledger_ok P s' \<and> cs_utxo s' = cs_utxo s \<and> cs_nullifiers s' = cs_nullifiers s
    \<and> h_hashes (cs_history s') = h_hashes (cs_history s) @ [b] \<and> int (length (h_hashes (cs_history s))) = h - 1
    \<and> cs_height s' = h \<and> cs_tip s' = b \<and> cs_burned_fees s' = cs_burned_fees s
    \<and> cs_params s' = cs_params s \<and> cs_chain_id s' = cs_chain_id s"
proof -
  from assms(2) obtain sp where sp: "spine_append P b (cs_history s) = Inr sp"
    "s' = s\<lparr>cs_history := sp, cs_height := h, cs_tip := b\<rparr>" "int (length (h_hashes (cs_history s))) = h - 1"
    by (auto simp: record_block_def split: if_splits)
  then show ?thesis
    using assms(1) spine_append_Inr [OF _ sp(1)] by (auto simp: ledger_ok_def cross_check_def split: if_splits)
qed

text \<open>The spine of a state holds one hash per block up to its height.\<close>

definition spine_height :: "chain_state \<Rightarrow> bool" where
  "spine_height s = (nat (cs_height s) = length (h_hashes (cs_history s)))"

lemma undo_restores:
  assumes ok: "ledger_ok P s" and room: "has_room (length (d_nullifiers d)) (length (d_created d)) s"
    and sh: "spine_height s"
    and ap: "apply_delta P d s = Inr s1" and rb: "record_block P h b s1 = Inr s2"
  shows "\<exists>s3. apply_undo P (capture s d h b) s2 = Inr s3 \<and> ledger_ok P s3 \<and> same_ledger P s3 s"
proof -
  note d = apply_delta_Inr [OF ok ap room]
  have ok1: "ledger_ok P s1" using d by blast
  note r = record_block_Inr [OF ok1 rb]
  have okU: "acc_ok P (cs_utxo s)" and okN: "acc_ok P (cs_nullifiers s)" using ok by (simp_all add: ledger_ok_def)
  from ap obtain u1 n1 u2 where st:
    "acc.spend_all P (d_spent d) (cs_utxo s) = Inr u1"
    "acc.put_all P (d_nullifiers d) (cs_nullifiers s) = Inr n1"
    "acc.put_all P (d_created d) u1 = Inr u2" "cs_utxo s1 = u2" "cs_nullifiers s1 = n1"
    by (auto simp: apply_delta_def Let_def acc.spend_all_def acc.put_all_def split: if_splits)
  obtain du eu where u: "acc_truncate P (length (d_created d)) u2 = Inr du"
    "acc.unspend_all P (d_spent d) du = Inr eu" "acc_ok P eu" "a_items eu = a_items (cs_utxo s)"
    "gone eu = gone (cs_utxo s)" "a_label eu = a_label (cs_utxo s)" "a_sp eu = a_sp (cs_utxo s)"
    using acc.apply_then_undo [OF okU st(1,3)] room by (auto simp: has_room_def)
  have "acc.spend_all P [] (cs_nullifiers s) = Inr (cs_nullifiers s)" by (simp add: acc.spend_all_def)
  from acc.apply_then_undo [OF okN this st(2)] room
  obtain n2 where n: "acc_truncate P (length (d_nullifiers d)) n1 = Inr n2" "acc_ok P n2"
    "a_items n2 = a_items (cs_nullifiers s)" "gone n2 = gone (cs_nullifiers s)"
    "a_label n2 = a_label (cs_nullifiers s)" "a_sp n2 = a_sp (cs_nullifiers s)"
    by (auto simp: has_room_def acc.unspend_all_def)
  let ?h = "truncate_to P (cs_height s) (cs_history s2)"
  have spine: "spine_ok P ?h" "h_hashes ?h = h_hashes (cs_history s)"
    using truncate_to_ok [of P "cs_history s2" "cs_height s"] r d sh
    by (auto simp: ledger_ok_def spine_height_def)
  let ?s3 = "s2\<lparr>cs_utxo := eu, cs_nullifiers := n2, cs_burned_fees := cs_burned_fees s2 - d_fees d,
      cs_history := ?h, cs_height := cs_height s, cs_tip := cs_tip s\<rparr>"
  have ok3: "ledger_ok P ?s3"
    using ok u n spine r d cross_check_iff [of P ?s3] cross_check_iff [OF okU]
    by (simp add: ledger_ok_def)
  have same: "same_ledger P ?s3 s"
    by (rule same_ledgerI [OF ok3 ok]) (use u n spine r d in simp_all)
  have "apply_undo P (capture s d h b) s2 = Inr ?s3"
    using u(1,2) n(1) r st(4,5) same
    by (simp add: apply_undo_def capture_def acc.unspend_all_def same_ledger_def)
  then show ?thesis using ok3 same by blast
qed

lemma apply_undo_other_height:
  "cs_height s \<noteq> u_height r \<Longrightarrow> apply_undo P r s = Inl UndoError"
  by (simp add: apply_undo_def)

section \<open>Persistence\<close>

lemma dump_load_same:
  assumes "ledger_ok P s"
  shows "\<exists>t. state_load P (cs_params s) (state_dump_of s) = Inr t \<and> ledger_ok P t \<and> same_ledger P t s"
proof -
  have ok: "acc_ok P (cs_utxo s)" "acc_ok P (cs_nullifiers s)" "spine_ok P (cs_history s)" "gone (cs_nullifiers s) = {}"
    "a_label (cs_utxo s) = ''utxo''" "a_label (cs_nullifiers s) = ''nf''"
    "a_sp (cs_utxo s) = seal_params (cs_params s)" "a_sp (cs_nullifiers s) = seal_params (cs_params s)"
    using assms by (simp_all add: ledger_ok_def)
  have dead: "a_dead (cs_nullifiers s) = {}" using ok(4) by (auto simp: gone_def)
  have fit: "tree_ok P (seal_params (cs_params s))" "distinct (a_items a)" "length (a_items a) < 2 ^ WITNESS_HEIGHT"
    "finite (a_dead a)" "\<forall>pos\<in>a_dead a. pos < length (a_items a)"
    if "acc_ok P a" "a_sp a = seal_params (cs_params s)" for a
    using that by (auto simp: acc_ok_def intro: finite_subset)
  obtain u where u: "acc_load P ''utxo'' (fst (acc_dump (cs_utxo s))) (snd (acc_dump (cs_utxo s))) (seal_params (cs_params s)) None = Inr u"
    "acc_ok P u" "a_items u = a_items (cs_utxo s)" "a_dead u = a_dead (cs_utxo s)" "a_label u = ''utxo''" "a_sp u = seal_params (cs_params s)"
    using acc_load_ok [of P "seal_params (cs_params s)" "a_items (cs_utxo s)" "sorted_list_of_set (a_dead (cs_utxo s))" "''utxo''"]
      fit [OF ok(1,7)] by (auto simp: acc_dump_def)
  obtain n where n: "acc_load P ''nf'' (fst (acc_dump (cs_nullifiers s))) [] (seal_params (cs_params s)) None = Inr n"
    "acc_ok P n" "a_items n = a_items (cs_nullifiers s)" "a_dead n = {}" "a_label n = ''nf''" "a_sp n = seal_params (cs_params s)"
    using acc_load_ok [of P "seal_params (cs_params s)" "a_items (cs_nullifiers s)" "[]" "''nf''"] fit [OF ok(2,8)]
    by (auto simp: acc_dump_def)
  obtain h where h: "spine_new P (h_hashes (cs_history s)) = Inr h" "spine_ok P h" "h_hashes h = h_hashes (cs_history s)"
    using spine_new_ok [of "h_hashes (cs_history s)" P] ok(3) by (auto simp: spine_ok_def)
  let ?t = "\<lparr>cs_params = cs_params s, cs_chain_id = cs_chain_id s, cs_utxo = u, cs_nullifiers = n,
            cs_history = h, cs_height = cs_height s, cs_tip = cs_tip s, cs_burned_fees = cs_burned_fees s\<rparr>"
  have ld: "state_load P (cs_params s) (state_dump_of s) = Inr ?t"
    using u(1) n(1) h(1) by (simp add: state_load_def state_dump_of_def)
  have g: "gone u = gone (cs_utxo s)" "gone n = {}" using u n by (simp_all add: gone_def)
  have okt: "ledger_ok P ?t"
    using assms ok u n h g cross_check_iff [of P ?t] cross_check_iff [OF ok(1)]
    by (simp add: ledger_ok_def)
  have "same_ledger P ?t s"
    by (rule same_ledgerI [OF okt assms]) (use u n h g in simp_all)
  then show ?thesis using ld okt by blast
qed

section \<open>Merging sibling deltas\<close>

definition delta_concat :: "utxo_delta list \<Rightarrow> utxo_delta" where
  "delta_concat ds = foldl delta_extend delta_empty ds"

lemma delta_concat_snoc [simp]: "delta_concat (ds @ [d]) = delta_extend (delta_concat ds) d"
  by (simp add: delta_concat_def)

lemma delta_concat_Nil [simp]: "delta_concat [] = delta_empty"
  by (simp add: delta_concat_def)

text \<open>The deltas the merge keeps, by index.\<close>

definition kept :: "utxo_delta list \<Rightarrow> nat set \<Rightarrow> utxo_delta list" where
  "kept ds out = map snd (filter (\<lambda>(i, d). i \<notin> out) (enumerate 0 ds))"

definition clashes :: "utxo_delta \<Rightarrow> utxo_delta \<Rightarrow> bool" where
  "clashes a d = (set (d_spent d) \<inter> set (d_spent a) \<noteq> {} \<or> set (d_nullifiers d) \<inter> set (d_nullifiers a) \<noteq> {}
     \<or> set (d_created d) \<inter> set (d_created a) \<noteq> {})"

definition mergeable :: "utxo_delta \<Rightarrow> utxo_delta \<Rightarrow> bool" where
  "mergeable a d = (\<not> clashes a d \<and> distinct (d_spent d) \<and> distinct (d_nullifiers d))"

lemma merge_step_good:
  "mergeable (ma_delta m) d \<Longrightarrow> merge_step m (i, d) = m\<lparr>ma_delta := delta_extend (ma_delta m) d\<rparr>"
  by (auto simp: mergeable_def merge_step_def clashes_def Let_def filter_empty_conv)

lemma merge_step_bad:
  "\<not> mergeable (ma_delta m) d \<Longrightarrow> \<exists>r. merge_step m (i, d) = m\<lparr>ma_dropped := ma_dropped m @ [(i, r)]\<rparr>"
  by (auto simp: mergeable_def merge_step_def clashes_def Let_def filter_empty_conv)

lemma merge_step_fields:
  "ma_delta (merge_step m (i, d)) = (if mergeable (ma_delta m) d then delta_extend (ma_delta m) d else ma_delta m)"
  "fst ` set (ma_dropped (merge_step m (i, d)))
     = (if mergeable (ma_delta m) d then fst ` set (ma_dropped m) else insert i (fst ` set (ma_dropped m)))"
proof -
  consider "mergeable (ma_delta m) d" "merge_step m (i, d) = m\<lparr>ma_delta := delta_extend (ma_delta m) d\<rparr>"
    | r where "\<not> mergeable (ma_delta m) d" "merge_step m (i, d) = m\<lparr>ma_dropped := ma_dropped m @ [(i, r)]\<rparr>"
    using merge_step_good merge_step_bad by blast
  then show "ma_delta (merge_step m (i, d)) = (if mergeable (ma_delta m) d then delta_extend (ma_delta m) d else ma_delta m)"
    "fst ` set (ma_dropped (merge_step m (i, d)))
       = (if mergeable (ma_delta m) d then fst ` set (ma_dropped m) else insert i (fst ` set (ma_dropped m)))"
    by (cases, simp_all)+
qed

lemma kept_snoc: "kept (ds @ [d]) out = kept ds out @ (if length ds \<in> out then [] else [d])"
  by (simp add: kept_def enumerate_append_eq)

lemma kept_insert_fresh: "kept ds (insert (length ds) out) = kept ds out"
proof -
  have "filter (\<lambda>(i, d). i \<notin> insert (length ds) out) (enumerate 0 ds)
      = filter (\<lambda>(i, d). i \<notin> out) (enumerate 0 ds)"
    by (rule filter_cong) (auto simp: in_set_enumerate_eq)
  then show ?thesis by (simp add: kept_def)
qed

definition merge_run :: "utxo_delta list \<Rightarrow> merge_acc" where
  "merge_run ds = foldl merge_step \<lparr>ma_delta = delta_empty, ma_dropped = []\<rparr> (enumerate 0 ds)"

lemma merge_run_snoc: "merge_run (ds @ [d]) = merge_step (merge_run ds) (length ds, d)"
  by (simp add: merge_run_def enumerate_append_eq)

lemma merge_deltas_run: "merge_deltas ds = (ma_delta (merge_run ds), ma_dropped (merge_run ds))"
  by (simp add: merge_deltas_def merge_run_def Let_def)

lemma merge_dropped_less: "i \<in> fst ` set (ma_dropped (merge_run ds)) \<Longrightarrow> i < length ds"
proof (induction ds rule: rev_induct)
  case Nil
  then show ?case by (simp add: merge_run_def)
next
  case (snoc d ds)
  have "i = length ds \<or> i \<in> fst ` set (ma_dropped (merge_run ds))"
    using snoc.prems by (simp only: merge_run_snoc merge_step_fields split: if_splits) auto
  with snoc.IH have "i = length ds \<or> i < length ds" by blast
  then show ?case by auto
qed

text \<open>The merge is the concatenation of the deltas it did not drop, in the caller's order, and
  a delta is dropped exactly when it clashes with what was kept before it or with itself.\<close>

lemma merge_run_spec:
  "ma_delta (merge_run ds) = delta_concat (kept ds (fst ` set (ma_dropped (merge_run ds))))
   \<and> (\<forall>i < length ds. i \<in> fst ` set (ma_dropped (merge_run ds)) \<longleftrightarrow>
        \<not> mergeable (ma_delta (merge_run (take i ds))) (ds ! i))"
proof (induction ds rule: rev_induct)
  case Nil
  then show ?case by (simp add: merge_run_def kept_def)
next
  case (snoc d ds)
  let ?m = "merge_run ds" and ?n = "length ds"
  let ?out = "fst ` set (ma_dropped ?m)"
  have fresh: "?n \<notin> ?out" using merge_dropped_less [of ?n ds] by auto
  have out': "fst ` set (ma_dropped (merge_run (ds @ [d]))) = (if mergeable (ma_delta ?m) d then ?out else insert ?n ?out)"
    by (simp add: merge_run_snoc merge_step_fields)
  have "ma_delta (merge_run (ds @ [d])) = delta_concat (kept (ds @ [d]) (fst ` set (ma_dropped (merge_run (ds @ [d])))))"
    unfolding out' using snoc fresh
    by (auto simp: merge_run_snoc merge_step_fields kept_snoc kept_insert_fresh)
  moreover have "i \<in> fst ` set (ma_dropped (merge_run (ds @ [d]))) \<longleftrightarrow>
        \<not> mergeable (ma_delta (merge_run (take i (ds @ [d])))) ((ds @ [d]) ! i)"
    if "i < length (ds @ [d])" for i
  proof (cases "i < ?n")
    case True
    then show ?thesis unfolding out' using snoc by (simp add: nth_append)
  next
    case False
    then have "i = ?n" using that by simp
    then show ?thesis unfolding out' using fresh by simp
  qed
  ultimately show ?case by blast
qed

lemma merge_run_distinct:
  "distinct (d_spent (ma_delta (merge_run ds))) \<and> distinct (d_nullifiers (ma_delta (merge_run ds)))"
proof (induction ds rule: rev_induct)
  case Nil
  then show ?case by (simp add: merge_run_def delta_empty_def)
next
  case (snoc d ds)
  then show ?case
    by (auto simp: merge_run_snoc merge_step_fields mergeable_def delta_extend_def clashes_def)
qed

text \<open>If every sibling fits the state, so does the merge.\<close>

lemma merge_run_fits:
  assumes "\<forall>d\<in>set ds. delta_fits d s"
  shows "delta_fits (ma_delta (merge_run ds)) s"
  using assms
proof (induction ds rule: rev_induct)
  case Nil
  then show ?case by (simp add: merge_run_def delta_empty_def delta_fits_def)
next
  case (snoc d ds)
  then have m: "delta_fits (ma_delta (merge_run ds)) s" and d: "delta_fits d s" by auto
  have "delta_fits (delta_extend (ma_delta (merge_run ds)) d) s" if "mergeable (ma_delta (merge_run ds)) d"
    using m d that by (auto simp: delta_fits_def delta_extend_def clashes_def mergeable_def)
  then show ?case using m by (simp add: merge_run_snoc merge_step_fields)
qed

section \<open>Checked transactions\<close>

text \<open>What \<open>authenticate\<close> establishes of the shape of one transaction.\<close>

definition tx_wf :: "transaction \<Rightarrow> bool" where
  "tx_wf tx = (distinct (tx_input_cms tx) \<and> distinct (tx_nullifiers tx) \<and> distinct (tx_output_cms tx))"

lemma from_txs_snoc: "from_txs (txs @ [tx]) = delta_extend (from_txs txs) (tx_delta tx)"
  by (simp add: from_txs_def)

lemma from_txs_fields:
  "d_spent (from_txs txs) = concat (map tx_input_cms txs)"
  "d_created (from_txs txs) = concat (map tx_output_cms txs)"
  "d_nullifiers (from_txs txs) = concat (map tx_nullifiers txs)"
  "d_fees (from_txs txs) = sum_list (map tx_fee txs)"
  by (induction txs rule: rev_induct)
    (simp_all add: from_txs_snoc delta_extend_def tx_delta_def, simp_all add: from_txs_def delta_empty_def)

lemma ceremony_fold_Inl:
  "foldR (ceremony_step vt already s home n) (Inl e) txs = Inr r \<Longrightarrow> r = Inl e"
  by (induction txs) (auto simp: ceremony_step_def)

lemma ceremony_fold_Inr:
  assumes "ledger_ok P s" "\<forall>tx. vt tx = Inr () \<or> already tx = Inr True \<longrightarrow> tx_wf tx"
  shows "foldR (ceremony_step vt already s home n) (Inr sn) txs = Inr (Inr sn') \<Longrightarrow>
    sn_cm sn \<subseteq> set (a_items (cs_utxo s)) - gone (cs_utxo s) \<Longrightarrow>
    distinct (concat (map tx_input_cms txs)) \<and> distinct (concat (map tx_nullifiers txs))
    \<and> distinct (concat (map tx_output_cms txs))
    \<and> set (concat (map tx_input_cms txs)) \<subseteq> set (a_items (cs_utxo s)) - gone (cs_utxo s) - sn_cm sn
    \<and> set (concat (map tx_nullifiers txs)) \<inter> (set (a_items (cs_nullifiers s)) \<union> sn_nf sn) = {}
    \<and> set (concat (map tx_output_cms txs)) \<inter> (set (a_items (cs_utxo s)) \<union> sn_out sn) = {}
    \<and> (\<forall>tx\<in>set txs. tx_partition tx n = Inr (Some home) \<and> (vt tx = Inr () \<or> already tx = Inr True))"
proof (induction txs arbitrary: sn)
  case Nil
  then show ?case by simp
next
  case (Cons tx txs)
  have ok: "acc_ok P (cs_utxo s)" "acc_ok P (cs_nullifiers s)" "gone (cs_nullifiers s) = {}"
    using assms(1) by (simp_all add: ledger_ok_def)
  from Cons.prems(1) obtain r where r: "ceremony_step vt already s home n (Inr sn) tx = Inr r"
    "foldR (ceremony_step vt already s home n) r txs = Inr (Inr sn')" by auto
  from r(2) obtain sn1 where sn1: "r = Inr sn1" using ceremony_fold_Inl by (cases r) force+
  let ?sn = "\<lparr>sn_nf = sn_nf sn \<union> set (tx_nullifiers tx), sn_cm = sn_cm sn \<union> set (tx_input_cms tx),
      sn_out = sn_out sn \<union> set (tx_output_cms tx)\<rparr>"
  obtain verified where st: "tx_partition tx n = Inr (Some home)" "sn1 = ?sn"
    "check_transaction vt (\<not> verified) (sn_nf sn) (sn_cm sn) tx s = Inr ()"
    "\<forall>cm\<in>set (tx_output_cms tx). cm \<notin> sn_out sn" and av: "already tx = Inr verified"
    using r(1) sn1 by (auto simp: ceremony_step_def split: option.splits if_splits)
  have v: "vt tx = Inr () \<or> already tx = Inr True" using st(3) av by (auto simp: check_transaction_def split: if_splits)
  have wf: "tx_wf tx" using assms(2) v by blast
  have ins: "set (tx_input_cms tx) \<subseteq> set (a_items (cs_utxo s)) - gone (cs_utxo s) - sn_cm sn"
    using st(3) acc_live_ok [OF ok(1)] by (auto simp: check_transaction_def split: if_splits)
  have nfs: "set (tx_nullifiers tx) \<inter> (set (a_items (cs_nullifiers s)) \<union> sn_nf sn) = {}"
    using st(3) acc_live_ok [OF ok(2)] ok(3) by (auto simp: check_transaction_def split: if_splits)
  have outs: "set (tx_output_cms tx) \<inter> (set (a_items (cs_utxo s)) \<union> sn_out sn) = {}"
    using st(3,4) ever_contained_ok [OF ok(1)] by (auto simp: check_transaction_def split: if_splits)
  have "sn_cm ?sn \<subseteq> set (a_items (cs_utxo s)) - gone (cs_utxo s)" using Cons.prems(2) ins by auto
  from Cons.IH [OF _ this] r(2) sn1 st(2) have IH:
    "distinct (concat (map tx_input_cms txs)) \<and> distinct (concat (map tx_nullifiers txs))
    \<and> distinct (concat (map tx_output_cms txs))
    \<and> set (concat (map tx_input_cms txs)) \<subseteq> set (a_items (cs_utxo s)) - gone (cs_utxo s) - sn_cm ?sn
    \<and> set (concat (map tx_nullifiers txs)) \<inter> (set (a_items (cs_nullifiers s)) \<union> sn_nf ?sn) = {}
    \<and> set (concat (map tx_output_cms txs)) \<inter> (set (a_items (cs_utxo s)) \<union> sn_out ?sn) = {}
    \<and> (\<forall>tx\<in>set txs. tx_partition tx n = Inr (Some home) \<and> (vt tx = Inr () \<or> already tx = Inr True))" by simp
  show ?case
    using IH wf ins nfs outs st(1) v by (auto simp: tx_wf_def)
qed

lemma check_ceremony_txs_fits:
  assumes ok: "ledger_ok P s" and wf: "\<forall>tx. vt tx = Inr () \<or> already tx = Inr True \<longrightarrow> tx_wf tx"
    and ch: "check_ceremony_txs vt already txs home n s = Inr (Inr d)"
  shows "d = from_txs txs \<and> delta_fits d s
    \<and> (\<forall>tx\<in>set txs. tx_partition tx n = Inr (Some home) \<and> (vt tx = Inr () \<or> already tx = Inr True))"
proof -
  from ch obtain sn where fr: "foldR (ceremony_step vt already s home n)
      (Inr \<lparr>sn_nf = {}, sn_cm = {}, sn_out = {}\<rparr>) txs = Inr (Inr sn)" "d = from_txs txs"
    by (auto simp: check_ceremony_txs_def)
  note f = ceremony_fold_Inr [OF ok wf fr(1)]
  have "length (concat (map tx_input_cms txs)) = length (concat (map tx_nullifiers txs))"
    by (induction txs) (simp_all add: tx_input_cms_def tx_nullifiers_def)
  then show ?thesis using f fr(2) by (auto simp: delta_fits_def from_txs_fields)
qed

text \<open>A nullifier has one home, so grids of different partitions never meet on one.\<close>

lemma tx_partition_all:
  assumes "tx_partition tx n = Inr (Some p)" "nf \<in> set (tx_nullifiers tx)"
  shows "partition_of_nullifier nf n = Inr p"
proof -
  have gen: "foldR (\<lambda>parts nf. bindR (partition_of_nullifier nf n) (\<lambda>p. Inr (List.insert p parts))) acc nfs = Inr parts
      \<Longrightarrow> set acc \<subseteq> set parts \<and> (\<forall>nf\<in>set nfs. \<exists>q. partition_of_nullifier nf n = Inr q \<and> q \<in> set parts)"
    for acc nfs parts
  proof (induction nfs arbitrary: acc)
    case (Cons a nfs)
    from Cons.prems obtain q where q: "partition_of_nullifier a n = Inr q"
      "foldR (\<lambda>parts nf. bindR (partition_of_nullifier nf n) (\<lambda>p. Inr (List.insert p parts))) (List.insert q acc) nfs = Inr parts"
      by auto
    from Cons.IH [OF q(2)] q(1) show ?case by auto
  qed simp
  have single: "parts = [p]" if "(case parts of [p] \<Rightarrow> Some p | _ \<Rightarrow> None) = Some p" for parts :: "int list"
    using that by (auto split: list.splits)
  from assms(1) obtain parts where parts:
    "foldR (\<lambda>parts nf. bindR (partition_of_nullifier nf n) (\<lambda>p. Inr (List.insert p parts))) [] (tx_nullifiers tx) = Inr parts"
    "parts = [p]"
    using single by (auto simp: tx_partition_def)
  from gen [OF parts(1)] assms(2) parts(2) show ?thesis by auto
qed

section \<open>Blocks\<close>

lemma apply_transaction_delta:
  assumes "ledger_ok P s" "apply_transaction P tx s = Inr s'"
    "has_room (length (tx_nullifiers tx)) (length (tx_output_cms tx)) s"
  shows "apply_delta P (tx_delta tx) s = Inr s'"
proof -
  from assms(2) obtain u1 n1 u2 where st:
    "acc.spend_all P (tx_input_cms tx) (cs_utxo s) = Inr u1"
    "acc.put_all P (tx_nullifiers tx) (cs_nullifiers s) = Inr n1"
    "acc.put_all P (tx_output_cms tx) u1 = Inr u2"
    "s' = s\<lparr>cs_utxo := u2, cs_nullifiers := n1, cs_burned_fees := cs_burned_fees s + tx_fee tx\<rparr>"
    by (auto simp: apply_transaction_def acc.spend_all_def acc.put_all_def)
  have ok: "acc_ok P (cs_utxo s)" "acc_ok P (cs_nullifiers s)" using assms(1) by (simp_all add: ledger_ok_def)
  note a = acc.spend_all_Inr [OF ok(1) st(1)]
  have "acc_ok P u1" using a by blast
  note b = acc.put_all_Inr [OF ok(2) st(2)] acc.put_all_Inr [OF this st(3)]
  have "delta_fits (tx_delta tx) s"
    using a b assms(3) by (auto simp: delta_fits_def tx_delta_def has_room_def tx_input_cms_def tx_nullifiers_def)
  then obtain s'' where "apply_delta P (tx_delta tx) s = Inr s''"
    using apply_delta_ok [OF assms(1), of "tx_delta tx"] assms(3) by (auto simp: tx_delta_def)
  then show ?thesis
    using st by (auto simp: apply_delta_def tx_delta_def Let_def acc.spend_all_def acc.put_all_def split: if_splits)
qed

definition txs_room :: "transaction list \<Rightarrow> chain_state \<Rightarrow> bool" where
  "txs_room txs s = has_room (length (concat (map tx_nullifiers txs))) (length (concat (map tx_output_cms txs))) s"

lemma apply_txs_Inr:
  "ledger_ok P s \<Longrightarrow> foldR (\<lambda>s tx. apply_transaction P tx s) s txs = Inr s' \<Longrightarrow> txs_room txs s \<Longrightarrow>
    ledger_ok P s'
    \<and> a_items (cs_utxo s') = a_items (cs_utxo s) @ concat (map tx_output_cms txs)
    \<and> gone (cs_utxo s') = gone (cs_utxo s) \<union> set (concat (map tx_input_cms txs))
    \<and> a_items (cs_nullifiers s') = a_items (cs_nullifiers s) @ concat (map tx_nullifiers txs)
    \<and> distinct (concat (map tx_input_cms txs)) \<and> gone (cs_utxo s) \<inter> set (concat (map tx_input_cms txs)) = {}
    \<and> cs_burned_fees s' = cs_burned_fees s + sum_list (map tx_fee txs)
    \<and> cs_history s' = cs_history s \<and> cs_height s' = cs_height s \<and> cs_tip s' = cs_tip s
    \<and> cs_params s' = cs_params s \<and> cs_chain_id s' = cs_chain_id s"
proof (induction txs arbitrary: s)
  case Nil
  then show ?case by simp
next
  case (Cons tx txs)
  from Cons.prems(2) obtain s1 where s1: "apply_transaction P tx s = Inr s1"
    "foldR (\<lambda>s tx. apply_transaction P tx s) s1 txs = Inr s'" by auto
  have room: "has_room (length (tx_nullifiers tx)) (length (tx_output_cms tx)) s"
    using Cons.prems(3) by (simp add: txs_room_def has_room_def)
  note d = apply_transaction_delta [OF Cons.prems(1) s1(1) room]
  have r: "has_room (length (d_nullifiers (tx_delta tx))) (length (d_created (tx_delta tx))) s"
    using room by (simp add: tx_delta_def)
  note e = apply_delta_Inr [OF Cons.prems(1) d r]
  have "txs_room txs s1" using Cons.prems(3) e by (simp add: txs_room_def has_room_def tx_delta_def)
  moreover have "ledger_ok P s1" using e by blast
  ultimately show ?case
    using Cons.IH [of s1] s1(2) e by (auto simp: tx_delta_def delta_fits_def)
qed

lemma shadow_fold_Inl: "foldR (shadow_step P vt already) (Inl e) txs = Inr r \<Longrightarrow> r = Inl e"
  by (induction txs) (auto simp: shadow_step_def)

text \<open>The loop of \<open>check_block\<close> that reaches its end has applied the transactions in order, and
  each passed \<open>check_transaction\<close> against the state its predecessors left.\<close>

lemma shadow_fold_Inr:
  "foldR (shadow_step P vt already) (Inr sh) txs = Inr (Inr sh') \<Longrightarrow>
    foldR (\<lambda>s tx. apply_transaction P tx s) (sh_state sh) txs = Inr (sh_state sh')
    \<and> (\<forall>tx\<in>set txs. vt tx = Inr () \<or> already tx = Inr True)"
proof (induction txs arbitrary: sh)
  case Nil
  then show ?case by simp
next
  case (Cons tx txs)
  from Cons.prems obtain r where r: "shadow_step P vt already (Inr sh) tx = Inr r"
    "foldR (shadow_step P vt already) r txs = Inr (Inr sh')" by auto
  from r(2) obtain sh1 where sh1: "r = Inr sh1" using shadow_fold_Inl by (cases r) force+
  obtain verified where v: "already tx = Inr verified" using r(1) sh1 by (auto simp: shadow_step_def)
  have c: "check_transaction vt (\<not> verified) (sh_nf sh) (sh_cm sh) tx (sh_state sh) = Inr ()"
    using r(1) sh1 v by (cases "check_transaction vt (\<not> verified) (sh_nf sh) (sh_cm sh) tx (sh_state sh)") (auto simp: shadow_step_def)
  have "apply_transaction P tx (sh_state sh) = Inr (sh_state sh1)" using r(1) sh1 v c by (auto simp: shadow_step_def)
  moreover have "vt tx = Inr () \<or> already tx = Inr True" using v c by (cases verified) (auto simp: check_transaction_def)
  ultimately show ?case using Cons.IH r(2) sh1 by auto
qed

lemma state_copy_same: "ledger_ok P s \<Longrightarrow> state_copy P s = Inr s"
  by (simp add: state_copy_def ledger_ok_def acc_clone_same)

lemma check_block_apply:
  assumes ok: "ledger_ok P s" and room: "txs_room (b_transactions b) s"
    and ch: "check_block P vt already b s = Inr (Inr ())"
  shows "\<exists>fees s'. apply_block P b s = Inr (fees, s') \<and> ledger_ok P s'
    \<and> acc_root (cs_utxo s') = bh_utxo_root (b_header b) \<and> acc_root (cs_nullifiers s') = bh_nf_root (b_header b)
    \<and> cs_height s' = cs_height s + 1 \<and> cs_tip s' = header_hash P (b_header b)
    \<and> cs_burned_fees s' = cs_burned_fees s + fees
    \<and> distinct (concat (map tx_input_cms (b_transactions b)))
    \<and> distinct (concat (map tx_nullifiers (b_transactions b)))
    \<and> gone (cs_utxo s') = gone (cs_utxo s) \<union> set (concat (map tx_input_cms (b_transactions b)))
    \<and> gone (cs_utxo s) \<inter> set (concat (map tx_input_cms (b_transactions b))) = {}
    \<and> (\<forall>tx\<in>set (b_transactions b). vt tx = Inr () \<or> already tx = Inr True)"
proof -
  let ?txs = "b_transactions b"
  from ch obtain r where r: "foldR (shadow_step P vt already) (Inr \<lparr>sh_state = s, sh_nf = {}, sh_cm = {}\<rparr>) ?txs = Inr r"
    "bindR r (\<lambda>sh. if acc_root (cs_utxo (sh_state sh)) \<noteq> bh_utxo_root (b_header b) then Inl UtxoRootMismatch
        else if acc_root (cs_nullifiers (sh_state sh)) \<noteq> bh_nf_root (b_header b) then Inl NfRootMismatch
        else Inr ()) = Inr ()"
    "bh_height (b_header b) = cs_height s + 1"
    by (auto simp: check_block_def Let_def state_copy_same [OF ok] split: if_splits)
  from r(2) obtain sh where sh: "r = Inr sh" "acc_root (cs_utxo (sh_state sh)) = bh_utxo_root (b_header b)"
    "acc_root (cs_nullifiers (sh_state sh)) = bh_nf_root (b_header b)"
    by (auto split: if_splits)
  have f: "foldR (\<lambda>s tx. apply_transaction P tx s) s ?txs = Inr (sh_state sh)"
    "\<forall>tx\<in>set ?txs. vt tx = Inr () \<or> already tx = Inr True"
    using shadow_fold_Inr r(1) sh(1) by force+
  note a = apply_txs_Inr [OF ok f(1) room]
  have cc: "cross_check (sh_state sh) = Inr ()" using a by (simp add: ledger_ok_def)
  let ?s' = "(sh_state sh)\<lparr>cs_height := bh_height (b_header b), cs_tip := header_hash P (b_header b)\<rparr>"
  have ap: "apply_block P b s = Inr (sum_list (map tx_fee ?txs), ?s')"
    using f(1) cc by (simp add: apply_block_def)
  have "ledger_ok P ?s'" using a cc by (auto simp: ledger_ok_def cross_check_def split: if_splits)
  moreover have "distinct (concat (map tx_nullifiers ?txs))"
  proof -
    have "acc_ok P (cs_nullifiers (sh_state sh))" using a by (simp add: ledger_ok_def)
    then have "distinct (a_items (cs_nullifiers (sh_state sh)))" by (simp add: acc_ok_def)
    then show ?thesis using a by simp
  qed
  ultimately show ?thesis using ap a sh f(2) r(3) by auto
qed

section \<open>A self-conflict the merge does not see\<close>

text \<open>\<open>merge_deltas\<close> tests the spent notes and the nullifiers of a delta for duplicates, and not
  its created notes; neither does \<open>can_apply_delta\<close>. Such a delta passes both, and
  \<open>apply_delta\<close> then raises at the second copy.\<close>

lemma duplicate_created_passes:
  assumes "ledger_ok P s" "cm \<notin> set (a_items (cs_utxo s))" "length (a_items (cs_utxo s)) + 1 < 2 ^ WITNESS_HEIGHT"
  shows "merge_deltas [\<lparr>d_spent = [], d_created = [cm, cm], d_nullifiers = [], d_fees = 0\<rparr>]
      = (\<lparr>d_spent = [], d_created = [cm, cm], d_nullifiers = [], d_fees = 0\<rparr>, [])"
    and "can_apply_delta \<lparr>d_spent = [], d_created = [cm, cm], d_nullifiers = [], d_fees = 0\<rparr> s = Inr ()"
    and "apply_delta P \<lparr>d_spent = [], d_created = [cm, cm], d_nullifiers = [], d_fees = 0\<rparr> s = Inl ValueError"
proof -
  show "merge_deltas [\<lparr>d_spent = [], d_created = [cm, cm], d_nullifiers = [], d_fees = 0\<rparr>]
      = (\<lparr>d_spent = [], d_created = [cm, cm], d_nullifiers = [], d_fees = 0\<rparr>, [])"
    by (simp add: merge_deltas_def merge_step_def delta_empty_def delta_extend_def Let_def)
  show "can_apply_delta \<lparr>d_spent = [], d_created = [cm, cm], d_nullifiers = [], d_fees = 0\<rparr> s = Inr ()"
    using can_apply_delta_iff [OF assms(1)] assms(2) by simp
  have ok: "acc_ok P (cs_utxo s)" using assms(1) by (simp add: ledger_ok_def)
  obtain u where u: "acc_put P cm (cs_utxo s) = Inr u" "acc_ok P u" "a_items u = a_items (cs_utxo s) @ [cm]"
    using acc_put_ok [OF ok assms(2,3)] by blast
  then have "acc_put P cm u = Inl ValueError" using acc_put_present [OF u(2), of cm] by simp
  then show "apply_delta P \<lparr>d_spent = [], d_created = [cm, cm], d_nullifiers = [], d_fees = 0\<rparr> s = Inl ValueError"
    using u(1) by (simp add: apply_delta_def)
qed

section \<open>Properties\<close>

text \<open>A small ledger for the witnesses: the genesis state with two notes issued.\<close>

definition demo_state :: "string list \<Rightarrow> chain_state" where
  "demo_state cms = (case bindR (state_new sample_prims DEMO [])
      (\<lambda>s. foldR (\<lambda>s cm. issue sample_prims cm s) s cms) of Inr s \<Rightarrow> s)"

lemma state_new_ok:
  assumes "digest_law P"
  shows "\<exists>s. state_new P c cid = Inr s \<and> ledger_ok P s \<and> a_items (cs_utxo s) = [] \<and> gone (cs_utxo s) = {}
    \<and> a_items (cs_nullifiers s) = [] \<and> cs_height s = - 1 \<and> cs_params s = c \<and> h_hashes (cs_history s) = []"
proof -
  have top: "tree_ok P (seal_params c)"
    using assms by (simp add: tree_ok_def seal_params_def default_sparams_def)
  obtain u where u: "accum_new P ''utxo'' (seal_params c) = Inr u" "acc_ok P u" "a_items u = []" "gone u = {}"
    "a_label u = ''utxo''" "a_sp u = seal_params c" using accum_new_ok [OF top] by blast
  obtain n where n: "accum_new P ''nf'' (seal_params c) = Inr n" "acc_ok P n" "a_items n = []" "gone n = {}"
    "a_label n = ''nf''" "a_sp n = seal_params c" using accum_new_ok [OF top] by blast
  have "spent_count u = 0" using card_gone [OF u(2)] u(4) by simp
  then show ?thesis using u n spine_ok_empty
    by (simp add: state_new_def ledger_ok_def cross_check_def acc_size_def) (simp add: spine_empty_def)
qed

lemma issue_ok:
  assumes "ledger_ok P s" "cs_height s < 0" "cm \<notin> set (a_items (cs_utxo s))" "length (a_items (cs_utxo s)) + 1 < 2 ^ WITNESS_HEIGHT"
  shows "\<exists>s'. issue P cm s = Inr s' \<and> ledger_ok P s' \<and> a_items (cs_utxo s') = a_items (cs_utxo s) @ [cm]
    \<and> gone (cs_utxo s') = gone (cs_utxo s) \<and> cs_nullifiers s' = cs_nullifiers s \<and> cs_height s' = cs_height s
    \<and> cs_params s' = cs_params s \<and> cs_history s' = cs_history s"
proof -
  have ok: "acc_ok P (cs_utxo s)" using assms(1) by (simp add: ledger_ok_def)
  obtain u where u: "acc_put P cm (cs_utxo s) = Inr u" "acc_ok P u" "a_items u = a_items (cs_utxo s) @ [cm]"
    "gone u = gone (cs_utxo s)" "a_label u = a_label (cs_utxo s)" "a_sp u = a_sp (cs_utxo s)"
    using acc_put_ok [OF ok assms(3,4)] by blast
  have "spent_count u = spent_count (cs_utxo s)" using card_gone [OF u(2)] card_gone [OF ok] u(4) by simp
  then show ?thesis using u assms(1,2)
    by (auto simp: issue_def ledger_ok_def cross_check_def split: if_splits)
qed

lemma demo_state_ok:
  "ledger_ok sample_prims (demo_state [''cm:a'', ''cm:b'']) \<and> a_items (cs_utxo (demo_state [''cm:a'', ''cm:b''])) = [''cm:a'', ''cm:b'']
    \<and> gone (cs_utxo (demo_state [''cm:a'', ''cm:b''])) = {} \<and> a_items (cs_nullifiers (demo_state [''cm:a'', ''cm:b''])) = []
    \<and> cs_height (demo_state [''cm:a'', ''cm:b'']) = - 1 \<and> h_hashes (cs_history (demo_state [''cm:a'', ''cm:b''])) = []
    \<and> cs_params (demo_state [''cm:a'', ''cm:b'']) = DEMO"
proof -
  have "digest_law sample_prims" by (simp add: digest_law_def sample_prims_def)
  from state_new_ok [OF this, of DEMO "[]"] obtain s0 where
    s0: "state_new sample_prims DEMO [] = Inr s0" "ledger_ok sample_prims s0" "a_items (cs_utxo s0) = []" "gone (cs_utxo s0) = {}"
    "a_items (cs_nullifiers s0) = []" "cs_height s0 = - 1" "h_hashes (cs_history s0) = []" "cs_params s0 = DEMO" by blast
  obtain s1 where s1: "issue sample_prims ''cm:a'' s0 = Inr s1" "ledger_ok sample_prims s1" "a_items (cs_utxo s1) = [''cm:a'']"
    "gone (cs_utxo s1) = {}" "cs_nullifiers s1 = cs_nullifiers s0" "cs_height s1 = - 1" "cs_history s1 = cs_history s0" "cs_params s1 = DEMO"
    using issue_ok [OF s0(2), of "''cm:a''"] s0 by (auto simp: WITNESS_HEIGHT_def)
  obtain s2 where s2: "issue sample_prims ''cm:b'' s1 = Inr s2" "ledger_ok sample_prims s2" "a_items (cs_utxo s2) = [''cm:a'', ''cm:b'']"
    "gone (cs_utxo s2) = {}" "cs_nullifiers s2 = cs_nullifiers s1" "cs_height s2 = - 1" "cs_history s2 = cs_history s1" "cs_params s2 = DEMO"
    using issue_ok [OF s1(2), of "''cm:b''"] s1 by (auto simp: WITNESS_HEIGHT_def)
  show ?thesis using s0 s1 s2 by (simp add: demo_state_def)
qed

definition demo_delta :: utxo_delta where
  "demo_delta = \<lparr>d_spent = [''cm:a''], d_created = [''cm:c''], d_nullifiers = [''nf:1''], d_fees = 3\<rparr>"

lemma demo_room: "has_room 4 4 (demo_state [''cm:a'', ''cm:b''])"
  using demo_state_ok by (simp add: has_room_def WITNESS_HEIGHT_def)

lemma demo_delta_fits: "delta_fits demo_delta (demo_state [''cm:a'', ''cm:b''])"
  using demo_state_ok by (simp add: delta_fits_def demo_delta_def)

text \<open>C29: A delta is applied exactly when it fits. On a well-formed ledger with room in its trees,
  \<open>apply_delta\<close> raises unless the spent notes are distinct live notes, the nullifiers are distinct
  and unpublished, the created notes are distinct and new, and there are as many nullifiers as
  spends; when it does not raise, the ledger stays well formed (\<open>cross_check\<close> included) and the
  sets move by exactly the delta.\<close>

theorem apply_delta_exact:
  assumes "ledger_ok P s" "has_room (length (d_nullifiers d)) (length (d_created d)) s"
  shows "(case apply_delta P d s of
      Inl _ \<Rightarrow> \<not> delta_fits d s
    | Inr s' \<Rightarrow> delta_fits d s \<and> ledger_ok P s' \<and> a_items (cs_utxo s') = a_items (cs_utxo s) @ d_created d
        \<and> gone (cs_utxo s') = gone (cs_utxo s) \<union> set (d_spent d)
        \<and> a_items (cs_nullifiers s') = a_items (cs_nullifiers s) @ d_nullifiers d
        \<and> cs_burned_fees s' = cs_burned_fees s + d_fees d)"
proof (cases "apply_delta P d s")
  case (Inl e)
  then show ?thesis using apply_delta_ok [OF assms(1) _ assms(2)] by auto
next
  case (Inr s')
  from apply_delta_Inr [OF assms(1) Inr assms(2)] show ?thesis by (simp add: Inr)
qed

theorem apply_delta_exact_witness:
  "(case apply_delta sample_prims demo_delta (demo_state [''cm:a'', ''cm:b'']) of
      Inl _ \<Rightarrow> \<not> delta_fits demo_delta (demo_state [''cm:a'', ''cm:b''])
    | Inr s' \<Rightarrow> delta_fits demo_delta (demo_state [''cm:a'', ''cm:b'']) \<and> ledger_ok sample_prims s'
        \<and> a_items (cs_utxo s') = a_items (cs_utxo (demo_state [''cm:a'', ''cm:b''])) @ d_created demo_delta
        \<and> gone (cs_utxo s') = gone (cs_utxo (demo_state [''cm:a'', ''cm:b''])) \<union> set (d_spent demo_delta)
        \<and> a_items (cs_nullifiers s') = a_items (cs_nullifiers (demo_state [''cm:a'', ''cm:b''])) @ d_nullifiers demo_delta
        \<and> cs_burned_fees s' = cs_burned_fees (demo_state [''cm:a'', ''cm:b'']) + d_fees demo_delta)"
  by (rule apply_delta_exact) (use demo_state_ok demo_room in \<open>simp_all add: demo_delta_def has_room_def\<close>)

text \<open>C10: Rolling a block back restores the ledger. After a delta is applied to a well-formed ledger
  and its block recorded, applying the undo record captured before gives a ledger with the same
  notes, spends, nullifiers, spine, height, tip and fees, and the same four roots; the checks of
  \<open>apply_undo\<close> against the stored roots never fire.\<close>

theorem undo_roundtrip:
  assumes "ledger_ok P s" "has_room (length (d_nullifiers d)) (length (d_created d)) s" "spine_height s"
    "apply_delta P d s = Inr s1" "record_block P h b s1 = Inr s2"
  shows "\<exists>s3. apply_undo P (capture s d h b) s2 = Inr s3 \<and> ledger_ok P s3 \<and> same_ledger P s3 s"
  by (rule undo_restores [OF assms])

theorem undo_roundtrip_witness:
  "\<exists>s1 s2 s3. apply_delta sample_prims demo_delta (demo_state [''cm:a'', ''cm:b'']) = Inr s1
    \<and> record_block sample_prims 1 ''net:1'' s1 = Inr s2
    \<and> apply_undo sample_prims (capture (demo_state [''cm:a'', ''cm:b'']) demo_delta 1 ''net:1'') s2 = Inr s3
    \<and> ledger_ok sample_prims s3 \<and> same_ledger sample_prims s3 (demo_state [''cm:a'', ''cm:b''])"
proof -
  let ?s = "demo_state [''cm:a'', ''cm:b'']"
  have ok: "ledger_ok sample_prims ?s" and sh: "spine_height ?s" using demo_state_ok by (simp_all add: spine_height_def)
  have room: "has_room (length (d_nullifiers demo_delta)) (length (d_created demo_delta)) ?s"
    using demo_room by (simp add: demo_delta_def has_room_def)
  obtain s1 where s1: "apply_delta sample_prims demo_delta ?s = Inr s1"
    using apply_delta_ok [OF ok demo_delta_fits room] by blast
  note d = apply_delta_Inr [OF ok s1 room]
  have "spine_ok sample_prims (cs_history s1)" "length (h_hashes (cs_history s1)) = 0"
    using d demo_state_ok by (simp_all add: ledger_ok_def)
  then obtain s2 where s2: "record_block sample_prims 1 ''net:1'' s1 = Inr s2"
    using spine_append_ok [of sample_prims "cs_history s1" "''net:1''"] by (auto simp: record_block_def WITNESS_HEIGHT_def)
  show ?thesis using s1 s2 undo_roundtrip [OF ok room sh s1 s2] by blast
qed


definition demo_tx :: transaction where
  "demo_tx = \<lparr>tx_version = 1, tx_chain_id = ''fin6-private-v1'', tx_fee = 3,
     tx_inputs = [\<lparr>in_cm = ''cm:a'', in_nullifier = ''nf:1'', in_owner_pub = [], in_signature = []\<rparr>],
     tx_output_cms = [''cm:c''], tx_v = [], tx_binding = 0, tx_proofs = [], tx_output_notes = [], tx_output_tags = []\<rparr>"

definition demo_vt :: "transaction \<Rightarrow> refusal + unit" where
  "demo_vt tx = (if tx = demo_tx then Inr () else Inl (TxRefused []))"

lemma demo_checked: "check_transaction demo_vt True {} {} demo_tx (demo_state [''cm:a'', ''cm:b'']) = Inr ()"
proof -
  let ?s = "demo_state [''cm:a'', ''cm:b'']"
  have ok: "acc_ok sample_prims (cs_utxo ?s)" "acc_ok sample_prims (cs_nullifiers ?s)"
    using demo_state_ok by (simp_all add: ledger_ok_def)
  have live: "acc_live (cs_utxo ?s) ''cm:a''" "\<not> acc_live (cs_nullifiers ?s) ''nf:1''" "\<not> ever_contained (cs_utxo ?s) ''cm:c''"
    using acc_live_ok [OF ok(1)] acc_live_ok [OF ok(2)] ever_contained_ok [OF ok(1)] demo_state_ok by simp_all
  have "demo_vt demo_tx = Inr ()" by (simp add: demo_vt_def)
  with live show ?thesis
    by (simp add: check_transaction_def tx_input_cms_def tx_nullifiers_def) (simp add: demo_tx_def)
qed

definition demo_after :: chain_state where
  "demo_after = (case apply_transaction sample_prims demo_tx (demo_state [''cm:a'', ''cm:b'']) of Inr s \<Rightarrow> s)"

lemma demo_after: "apply_transaction sample_prims demo_tx (demo_state [''cm:a'', ''cm:b'']) = Inr demo_after"
proof -
  let ?s = "demo_state [''cm:a'', ''cm:b'']"
  have ok: "ledger_ok sample_prims ?s" using demo_state_ok by simp
  have d: "tx_delta demo_tx = demo_delta"
    by (simp add: tx_delta_def demo_tx_def demo_delta_def tx_input_cms_def tx_nullifiers_def)
  have "has_room (length (d_nullifiers demo_delta)) (length (d_created demo_delta)) ?s"
    using demo_room by (simp add: demo_delta_def has_room_def)
  then obtain s1 where "apply_delta sample_prims (tx_delta demo_tx) ?s = Inr s1"
    using apply_delta_ok [OF ok demo_delta_fits] d by auto
  then have "\<exists>s1. apply_transaction sample_prims demo_tx ?s = Inr s1"
    by (auto simp: apply_delta_def apply_transaction_def tx_delta_def Let_def)
  then show ?thesis by (auto simp: demo_after_def)
qed

definition demo_block :: block where
  "demo_block = \<lparr>b_header = \<lparr>bh_height = 0, bh_prev_hash = cs_tip (demo_state [''cm:a'', ''cm:b'']),
       bh_chain_id = cs_chain_id (demo_state [''cm:a'', ''cm:b'']),
       bh_utxo_root = acc_root (cs_utxo demo_after), bh_nf_root = acc_root (cs_nullifiers demo_after),
       bh_tx_root = seal_root sample_prims ''tx'' [txid sample_prims demo_tx] default_sparams,
       bh_ceremony = \<lparr>cm_epoch = 0, cm_leader_id = ''n0'', cm_rows = 1, cm_row_size = 5, cm_grid_seed = ''s'', cm_attempt = 0\<rparr>\<rparr>,
     b_transactions = [demo_tx]\<rparr>"

lemma demo_block_checked:
  "check_block sample_prims demo_vt (\<lambda>_. Inr False) demo_block (demo_state [''cm:a'', ''cm:b'']) = Inr (Inr ())"
proof -
  have copy: "state_copy sample_prims (demo_state [''cm:a'', ''cm:b'']) = Inr (demo_state [''cm:a'', ''cm:b''])"
    using state_copy_same demo_state_ok by blast
  have h: "cs_height (demo_state [''cm:a'', ''cm:b'']) = - 1" using demo_state_ok by simp
  show ?thesis
    by (simp add: check_block_def demo_block_def compute_tx_root_def copy h shadow_step_def demo_checked demo_after)
qed



lemma demo_tx_checked:
  "check_ceremony_txs demo_vt (\<lambda>_. Inr False) [demo_tx] 1 2 (demo_state [''cm:a'', ''cm:b'']) = Inr (Inr demo_delta)"
proof -
  have part: "tx_partition demo_tx 2 = Inr (Some 1)"
    by (simp add: tx_partition_def demo_tx_def tx_nullifiers_def partition_of_nullifier_def after_colon_def int16_def
        strip_def is_space_def hex_unsigned_def hex_val_def List.insert_def)
  have "from_txs [demo_tx] = demo_delta"
    by (simp add: demo_tx_def demo_delta_def from_txs_def delta_empty_def delta_extend_def tx_delta_def tx_input_cms_def tx_nullifiers_def)
  then show ?thesis
    by (simp add: check_ceremony_txs_def ceremony_step_def part demo_checked check_each_trivial)
qed

lemma demo_merge: "fst (merge_deltas [demo_delta, demo_delta]) = demo_delta"
  by (simp add: merge_deltas_def merge_step_def delta_empty_def delta_extend_def demo_delta_def Let_def)


text \<open>The merge keeps everything it can, in the caller's order. The merged delta is the
  concatenation of the deltas that were not dropped, and a delta is dropped exactly when it
  shares a spent note, a nullifier or a created note with what was merged before it, or repeats
  one of its own spent notes or nullifiers.\<close>

theorem merge_drops_exactly_conflicts:
  "fst (merge_deltas ds) = delta_concat (kept ds (fst ` set (snd (merge_deltas ds))))
    \<and> (\<forall>i. i < length ds \<longrightarrow> (i \<in> fst ` set (snd (merge_deltas ds)) \<longleftrightarrow>
         \<not> mergeable (fst (merge_deltas (take i ds))) (ds ! i)))"
  using merge_run_spec [of ds] by (simp add: merge_deltas_run)

theorem merge_drops_exactly_conflicts_witness:
  "1 \<in> fst ` set (snd (merge_deltas [demo_delta, demo_delta])) \<and>
    \<not> mergeable (fst (merge_deltas (take 1 [demo_delta, demo_delta]))) ([demo_delta, demo_delta] ! 1)"
proof -
  have "\<not> mergeable (fst (merge_deltas (take 1 [demo_delta, demo_delta]))) ([demo_delta, demo_delta] ! 1)"
    by (simp add: merge_deltas_def merge_step_def mergeable_def clashes_def delta_empty_def delta_extend_def demo_delta_def Let_def)
  with merge_drops_exactly_conflicts [of "[demo_delta, demo_delta]"] show ?thesis by simp
qed

text \<open>Two grids of different partitions never publish the same nullifier: a nullifier has one
  home, computed from itself, and a grid's checked transactions all live in its own.\<close>

theorem partitions_share_no_nullifier:
  assumes "ledger_ok P s" "\<forall>tx. vt tx = Inr () \<or> already tx = Inr True \<longrightarrow> tx_wf tx"
    "check_ceremony_txs vt already txs1 p1 n s = Inr (Inr d1)"
    "check_ceremony_txs vt already txs2 p2 n s = Inr (Inr d2)" "p1 \<noteq> p2"
  shows "set (d_nullifiers d1) \<inter> set (d_nullifiers d2) = {}"
proof -
  have home: "partition_of_nullifier nf n = Inr p"
    if "check_ceremony_txs vt already txs p n s = Inr (Inr d)" "nf \<in> set (d_nullifiers d)" for txs p d nf
    using check_ceremony_txs_fits [OF assms(1,2) that(1)] that(2) tx_partition_all by (auto simp: from_txs_fields)
  show ?thesis using home [OF assms(3)] home [OF assms(4)] assms(5) by force
qed

theorem partitions_share_no_nullifier_witness:
  "\<exists>d2. check_ceremony_txs demo_vt (\<lambda>_. Inr False) [] 0 2 (demo_state [''cm:a'', ''cm:b'']) = Inr (Inr d2)
    \<and> set (d_nullifiers demo_delta) \<inter> set (d_nullifiers d2) = {}"
proof -
  have e: "check_ceremony_txs demo_vt (\<lambda>_. Inr False) [] 0 2 (demo_state [''cm:a'', ''cm:b'']) = Inr (Inr (from_txs []))"
    by (simp add: check_ceremony_txs_def)
  have wf: "\<forall>tx. demo_vt tx = Inr () \<or> Inr False = Inr True \<longrightarrow> tx_wf tx"
    by (simp add: demo_vt_def) (simp add: demo_tx_def tx_wf_def tx_input_cms_def tx_nullifiers_def)
  have ok: "ledger_ok sample_prims (demo_state [''cm:a'', ''cm:b''])" using demo_state_ok by simp
  show ?thesis using partitions_share_no_nullifier [OF ok wf demo_tx_checked e] e by simp
qed

text \<open>Persistence is lossless. Loading the dump of a well-formed ledger gives a well-formed
  ledger with the same values, spends, counters, spine and roots.\<close>

theorem dump_load_roundtrip:
  assumes "ledger_ok P s"
  shows "\<exists>t. state_load P (cs_params s) (state_dump_of s) = Inr t \<and> ledger_ok P t \<and> same_ledger P t s"
  by (rule dump_load_same [OF assms])

theorem dump_load_roundtrip_witness:
  "\<exists>t. state_load sample_prims (cs_params (demo_state [''cm:a'', ''cm:b''])) (state_dump_of (demo_state [''cm:a'', ''cm:b''])) = Inr t
    \<and> ledger_ok sample_prims t \<and> same_ledger sample_prims t (demo_state [''cm:a'', ''cm:b''])"
  by (rule dump_load_roundtrip) (simp add: demo_state_ok)

text \<open>A gap in the merge's self-check. A delta that creates one note twice passes
  \<open>merge_deltas\<close> and \<open>can_apply_delta\<close> on every well-formed ledger that does not hold the note,
  and \<open>apply_delta\<close> then raises half way.\<close>

theorem duplicate_output_passes_merge:
  assumes "ledger_ok P s" "cm \<notin> set (a_items (cs_utxo s))" "length (a_items (cs_utxo s)) + 1 < 2 ^ WITNESS_HEIGHT"
    "d = \<lparr>d_spent = [], d_created = [cm, cm], d_nullifiers = [], d_fees = 0\<rparr>"
  shows "merge_deltas [d] = (d, []) \<and> can_apply_delta d s = Inr () \<and> apply_delta P d s = Inl ValueError"
  using duplicate_created_passes [OF assms(1-3)] unfolding assms(4) by blast

theorem duplicate_output_passes_merge_witness:
  "let d = \<lparr>d_spent = [], d_created = [''cm:z'', ''cm:z''], d_nullifiers = [], d_fees = 0\<rparr> in
    merge_deltas [d] = (d, []) \<and> can_apply_delta d (demo_state [''cm:a'', ''cm:b'']) = Inr ()
    \<and> apply_delta sample_prims d (demo_state [''cm:a'', ''cm:b'']) = Inl ValueError"
  unfolding Let_def
  by (rule duplicate_output_passes_merge [of _ _ "''cm:z''"])
    (use demo_state_ok in \<open>simp_all add: WITNESS_HEIGHT_def\<close>)

end
