(* ===== verification/Register.thy ===== *)
theory Register
  imports Seal
begin

text \<open>
  The grid register of \<open>chain/register.py\<close>: who is seated in a grid, with what standing, and
  the update each ceremony's attendance roll makes.

  \<open>grid_register\<close> is \<open>GridRegister\<close>. Its two dictionaries are association lists in insertion
  order; every view of the source sorts, so the order is never seen, and the lemmas say so by
  going through \<open>map_of\<close>; the fractions \<open>num/den\<close> of the views have a positive denominator. \<open>reg_apply\<close> is the ceremony update, one \<open>apply_member\<close> per seated or
  faulted node in sorted order. The invariant \<open>reg_ok\<close> is that the keys are distinct and are the
  node ids of their records.

  The lemmas show what standing means: how long a node has to serve before its vote counts, that
  a suspension is never lifted, that founding and merging move records without losing or
  laundering one, and what the root leaves out.
\<close>

section \<open>Data\<close>

datatype standing = Observer | Apprentice | Attester | Suspended

fun standing_str :: "standing \<Rightarrow> string" where
  "standing_str Observer = ''observer''"
| "standing_str Apprentice = ''apprentice''"
| "standing_str Attester = ''attester''"
| "standing_str Suspended = ''suspended''"

record attendance_roll =
  ar_grid_id :: string
  ar_epoch :: int
  ar_leader_id :: string
  ar_seated :: "string list"
  ar_attended :: "string list"

definition roll_digest :: "prims \<Rightarrow> attendance_roll \<Rightarrow> string" where
  "roll_digest P r = h_hex P ''roll'' [PStr (ar_grid_id r), PInt (ar_epoch r), PStr (ar_leader_id r),
     PList (map PStr (sort (ar_seated r))), PList (map PStr (sort (ar_attended r)))]"

text \<open>\<open>from_cert\<close> reads the epoch and the attended seats of a certificate.\<close>

definition roll_from_cert :: "string \<Rightarrow> int \<Rightarrow> string list \<Rightarrow> string list \<Rightarrow> string \<Rightarrow> attendance_roll" where
  "roll_from_cert grid_id cert_epoch cert_attended members leader_id =
     \<lparr>ar_grid_id = grid_id, ar_epoch = cert_epoch, ar_leader_id = leader_id,
      ar_seated = sort members, ar_attended = cert_attended\<rparr>"

record member_record =
  mr_node_id :: string
  mr_joined_epoch :: int
  mr_standing :: standing
  mr_consecutive :: int
  mr_total_attended :: int
  mr_last_seen_epoch :: int
  mr_led_count :: int
  mr_faults :: "int list"
  mr_founded_from :: string
  mr_higher_seated :: int
  mr_higher_attended :: int
  mr_higher_led :: int

definition new_member :: "string \<Rightarrow> int \<Rightarrow> member_record" where
  "new_member nid epoch = \<lparr>mr_node_id = nid, mr_joined_epoch = epoch, mr_standing = Apprentice,
     mr_consecutive = 0, mr_total_attended = 0, mr_last_seen_epoch = -1, mr_led_count = 0,
     mr_faults = [], mr_founded_from = [], mr_higher_seated = 0, mr_higher_attended = 0, mr_higher_led = 0\<rparr>"

definition higher_missed :: "member_record \<Rightarrow> int" where
  "higher_missed r = mr_higher_seated r - mr_higher_attended r"

definition counts :: "member_record \<Rightarrow> bool" where
  "counts r = (mr_standing r = Attester)"

definition leader_eligible :: "member_record \<Rightarrow> bool" where
  "leader_eligible r = (mr_standing r = Attester \<and> mr_faults r = [])"

text \<open>\<open>repr\<close> of a string and of the tuple of \<open>as_tuple\<close>, as an f-string prints them. Bytes
  above ASCII are printed as they are, which is what \<open>repr\<close> does with printable characters.\<close>

definition repr_char :: "char \<Rightarrow> char \<Rightarrow> string" where
  "repr_char q c = (let n = of_char c :: nat in
     if c = CHR 0x5C then [CHR 0x5C, CHR 0x5C]
     else if c = q then [CHR 0x5C, q]
     else if n = 10 then [CHR 0x5C, CHR ''n'']
     else if n = 13 then [CHR 0x5C, CHR ''r'']
     else if n = 9 then [CHR 0x5C, CHR ''t'']
     else if n < 32 \<or> n = 127 then [CHR 0x5C, CHR ''x'', hex_char (n div 16), hex_char (n mod 16)]
     else [c])"

definition repr_str :: "string \<Rightarrow> string" where
  "repr_str s = (let q = (if CHR 0x27 \<in> set s \<and> CHR 0x22 \<notin> set s then CHR 0x22 else CHR 0x27)
     in q # concat (map (repr_char q) s) @ [q])"

definition join_with :: "string \<Rightarrow> string list \<Rightarrow> string" where
  "join_with sep xs = (case xs of [] \<Rightarrow> [] | x # rest \<Rightarrow> x @ concat (map (\<lambda>y. sep @ y) rest))"

definition as_tuple :: "member_record \<Rightarrow> string" where
  "as_tuple r = ''('' @ join_with '', ''
     [repr_str (mr_node_id r), str_int (mr_joined_epoch r), repr_str (standing_str (mr_standing r)),
      str_int (mr_consecutive r), str_int (mr_total_attended r), str_int (mr_last_seen_epoch r),
      str_int (mr_led_count r), str_nat (length (mr_faults r)), repr_str (mr_founded_from r),
      str_int (mr_higher_seated r), str_int (mr_higher_attended r), str_int (mr_higher_led r)] @ '')''"

record grid_register =
  rg_id :: string
  rg_epoch :: int
  rg_threshold :: int
  rg_forgiveness :: int
  rg_members :: "(string \<times> member_record) list"
  rg_misses :: "(string \<times> int) list"

definition reg_new :: "string \<Rightarrow> int \<Rightarrow> int \<Rightarrow> int \<Rightarrow> grid_register" where
  "reg_new grid_id epoch threshold forgiveness =
     \<lparr>rg_id = grid_id, rg_epoch = epoch, rg_threshold = threshold, rg_forgiveness = forgiveness,
      rg_members = [], rg_misses = []\<rparr>"

definition rec_of :: "grid_register \<Rightarrow> string \<Rightarrow> member_record option" where
  "rec_of reg nid = map_of (rg_members reg) nid"

definition set_rec :: "string \<Rightarrow> member_record \<Rightarrow> grid_register \<Rightarrow> grid_register" where
  "set_rec nid r reg = reg\<lparr>rg_members := AList.update nid r (rg_members reg)\<rparr>"

definition sorted_items :: "(string \<times> 'v) list \<Rightarrow> (string \<times> 'v) list" where
  "sorted_items d = sort_key fst d"

section \<open>Operations\<close>

definition founder :: "int \<Rightarrow> int \<Rightarrow> string \<Rightarrow> member_record" where
  "founder epoch threshold nid =
     (new_member nid epoch)\<lparr>mr_standing := Attester, mr_consecutive := threshold, mr_total_attended := threshold\<rparr>"

definition reg_genesis :: "string \<Rightarrow> string list \<Rightarrow> int \<Rightarrow> int \<Rightarrow> int \<Rightarrow> grid_register" where
  "reg_genesis grid_id founders threshold forgiveness epoch =
     foldl (\<lambda>reg nid. set_rec nid (founder epoch threshold nid) reg)
       (reg_new grid_id epoch threshold forgiveness) (sort founders)"

definition admit :: "string \<Rightarrow> int option \<Rightarrow> grid_register \<Rightarrow> exn + grid_register" where
  "admit nid epoch reg =
     (if rec_of reg nid \<noteq> None then Inl ValueError
      else Inr (set_rec nid (new_member nid (case epoch of None \<Rightarrow> rg_epoch reg | Some e \<Rightarrow> e)) reg))"

definition miss_count :: "grid_register \<Rightarrow> string \<Rightarrow> int" where
  "miss_count reg nid = (case map_of (rg_misses reg) nid of None \<Rightarrow> 0 | Some m \<Rightarrow> m)"

definition apply_member :: "attendance_roll \<Rightarrow> string list \<Rightarrow> grid_register \<Rightarrow> string \<Rightarrow> grid_register" where
  "apply_member roll faulted reg0 nid =
     (let reg = (case rec_of reg0 nid of
                   Some _ \<Rightarrow> reg0
                 | None \<Rightarrow> set_rec nid (new_member nid (ar_epoch roll)) reg0);
          r = (case rec_of reg0 nid of Some r \<Rightarrow> r | None \<Rightarrow> new_member nid (ar_epoch roll))
      in if nid \<in> set faulted then
           (set_rec nid (r\<lparr>mr_standing := Suspended, mr_consecutive := 0,
                           mr_faults := mr_faults r @ [ar_epoch roll]\<rparr>) reg)
             \<lparr>rg_misses := AList.delete nid (rg_misses reg)\<rparr>
         else if mr_standing r = Suspended then reg
         else if nid \<in> set (ar_attended roll) then
           (let c = mr_consecutive r + 1 in
            (set_rec nid (r\<lparr>mr_consecutive := c, mr_total_attended := mr_total_attended r + 1,
                            mr_last_seen_epoch := ar_epoch roll,
                            mr_standing := (if mr_standing r = Apprentice \<and> rg_threshold reg \<le> c
                                            then Attester else mr_standing r)\<rparr>) reg)
              \<lparr>rg_misses := AList.update nid 0 (rg_misses reg)\<rparr>)
         else
           (let missed = miss_count reg nid + 1 in
            (if rg_forgiveness reg < missed then set_rec nid (r\<lparr>mr_consecutive := 0\<rparr>) reg else reg)
              \<lparr>rg_misses := AList.update nid missed (rg_misses reg)\<rparr>))"

definition credit_leader :: "attendance_roll \<Rightarrow> string list \<Rightarrow> grid_register \<Rightarrow> grid_register" where
  "credit_leader roll faulted reg =
     (case rec_of reg (ar_leader_id roll) of
        None \<Rightarrow> reg
      | Some l \<Rightarrow> if ar_leader_id roll \<in> set faulted then reg
                  else set_rec (ar_leader_id roll) (l\<lparr>mr_led_count := mr_led_count l + 1\<rparr>) reg)"

definition reg_apply :: "attendance_roll \<Rightarrow> string list \<Rightarrow> grid_register \<Rightarrow> exn + grid_register" where
  "reg_apply roll faulted reg =
     (if ar_grid_id roll \<noteq> rg_id reg then Inl ValueError
      else Inr ((credit_leader roll faulted
                  (foldl (apply_member roll faulted) reg (sorted_set (ar_seated roll @ faulted))))
                \<lparr>rg_epoch := ar_epoch roll + 1\<rparr>))"

definition releasable :: "grid_register \<Rightarrow> string \<Rightarrow> exn + member_record" where
  "releasable reg nid =
     (case rec_of reg nid of
        None \<Rightarrow> Inl ValueError
      | Some r \<Rightarrow> if mr_standing r \<noteq> Attester then Inl ValueError
                  else if mr_faults r \<noteq> [] then Inl ValueError
                  else Inr r)"

definition drop_member :: "grid_register \<Rightarrow> member_record \<Rightarrow> exn + grid_register" where
  "drop_member reg r =
     (if rec_of reg (mr_node_id r) = None then Inl KeyError
      else Inr (reg\<lparr>rg_members := AList.delete (mr_node_id r) (rg_members reg),
                    rg_misses := AList.delete (mr_node_id r) (rg_misses reg)\<rparr>))"

definition release :: "string list \<Rightarrow> grid_register \<Rightarrow> exn + (member_record list \<times> grid_register)" where
  "release nids reg =
     bindR (foldR (\<lambda>moving nid. bindR (releasable reg nid) (\<lambda>r. Inr (moving @ [r]))) [] (sort nids)) (\<lambda>moving.
     bindR (foldR drop_member reg moving) (\<lambda>reg'. Inr (moving, reg')))"

definition found :: "string \<Rightarrow> member_record list \<Rightarrow> string \<Rightarrow> int \<Rightarrow> int \<Rightarrow> int \<Rightarrow> grid_register" where
  "found grid_id records donor_id epoch threshold forgiveness =
     foldl (\<lambda>reg r. set_rec (mr_node_id r) (r\<lparr>mr_founded_from := donor_id\<rparr>) reg)
       (reg_new grid_id epoch threshold forgiveness) records"

definition credit_one :: "int \<times> grid_register \<Rightarrow> string \<times> int \<times> int \<times> int \<Rightarrow> int \<times> grid_register" where
  "credit_one = (\<lambda>(touched, reg) (nid, seated, attended, led).
     case rec_of reg nid of
       None \<Rightarrow> (touched, reg)
     | Some r \<Rightarrow> (touched + 1, set_rec nid (r\<lparr>mr_higher_seated := mr_higher_seated r + seated,
         mr_higher_attended := mr_higher_attended r + attended, mr_higher_led := mr_higher_led r + led\<rparr>) reg))"

definition credit_service :: "(string \<times> int \<times> int \<times> int) list \<Rightarrow> grid_register \<Rightarrow> int \<times> grid_register" where
  "credit_service service reg = foldl credit_one (0, reg) (sorted_items service)"

definition absorb_one :: "grid_register \<Rightarrow> grid_register \<Rightarrow> string \<times> member_record \<Rightarrow> grid_register" where
  "absorb_one other reg = (\<lambda>(nid, r).
     (set_rec nid (r\<lparr>mr_founded_from := rg_id other\<rparr>) reg)
       \<lparr>rg_misses := AList.update nid (miss_count other nid) (rg_misses reg)\<rparr>)"

text \<open>The second register of the result is \<open>other\<close>, emptied.\<close>

definition absorb :: "grid_register \<Rightarrow> grid_register \<Rightarrow> exn + (grid_register \<times> grid_register)" where
  "absorb other reg =
     (if set (keys (rg_members other)) \<inter> set (keys (rg_members reg)) \<noteq> {} then Inl ValueError
      else if rg_epoch other \<noteq> rg_epoch reg then Inl ValueError
      else Inr (foldl (absorb_one other) reg (sorted_items (rg_members other)),
                other\<lparr>rg_members := [], rg_misses := []\<rparr>))"

section \<open>Views\<close>

definition standing_of :: "grid_register \<Rightarrow> string \<Rightarrow> standing" where
  "standing_of reg nid = (case rec_of reg nid of None \<Rightarrow> Observer | Some r \<Rightarrow> mr_standing r)"

definition names_where :: "(member_record \<Rightarrow> bool) \<Rightarrow> grid_register \<Rightarrow> string list" where
  "names_where Q reg = sort (map fst (filter (\<lambda>(n, r). Q r) (rg_members reg)))"

definition attesters :: "grid_register \<Rightarrow> string list" where
  "attesters = names_where counts"

definition apprentices :: "grid_register \<Rightarrow> string list" where
  "apprentices = names_where (\<lambda>r. mr_standing r = Apprentice)"

definition leader_candidates :: "grid_register \<Rightarrow> string list" where
  "leader_candidates = names_where leader_eligible"

definition seated_members :: "grid_register \<Rightarrow> string list" where
  "seated_members = names_where (\<lambda>r. mr_standing r = Attester \<or> mr_standing r = Apprentice)"

definition apprentice_cap :: "int \<Rightarrow> int \<Rightarrow> grid_register \<Rightarrow> int" where
  "apprentice_cap num den reg = max 1 (int (length (attesters reg)) * num div den)"

definition reg_has_room :: "int \<Rightarrow> int \<Rightarrow> grid_register \<Rightarrow> bool" where
  "reg_has_room num den reg = (int (length (apprentices reg)) < apprentice_cap num den reg)"

definition reg_quorum :: "int \<Rightarrow> int \<Rightarrow> grid_register \<Rightarrow> int" where
  "reg_quorum num den reg = max 1 (- (- (int (length (attesters reg)) * num) div den))"

definition reg_root :: "prims \<Rightarrow> grid_register \<Rightarrow> nat" where
  "reg_root P reg = seal_root P ''register''
     ([rg_id reg, str_int (rg_epoch reg)] @ map (\<lambda>(_, r). as_tuple r) (sorted_items (rg_members reg)))
     default_sparams"

section \<open>Persistence\<close>

record register_dump =
  rd_id :: string
  rd_epoch :: int
  rd_threshold :: int
  rd_forgiveness :: int
  rd_members :: "member_record list"
  rd_misses :: "(string \<times> int) list"

definition reg_dump :: "grid_register \<Rightarrow> register_dump" where
  "reg_dump reg = \<lparr>rd_id = rg_id reg, rd_epoch = rg_epoch reg, rd_threshold = rg_threshold reg,
     rd_forgiveness = rg_forgiveness reg, rd_members = map snd (sorted_items (rg_members reg)),
     rd_misses = sorted_items (rg_misses reg)\<rparr>"

definition reg_load :: "register_dump \<Rightarrow> grid_register" where
  "reg_load d =
     (foldl (\<lambda>reg r. set_rec (mr_node_id r) r reg)
        (reg_new (rd_id d) (rd_epoch d) (rd_threshold d) (rd_forgiveness d)) (rd_members d))
     \<lparr>rg_misses := foldl (\<lambda>m (k, v). AList.update k v m) [] (rd_misses d)\<rparr>"

definition reg_clone :: "grid_register \<Rightarrow> grid_register" where
  "reg_clone reg = (reg_new (rg_id reg) (rg_epoch reg) (rg_threshold reg) (rg_forgiveness reg))
     \<lparr>rg_members := rg_members reg, rg_misses := rg_misses reg\<rparr>"

section \<open>Lookups and the invariant\<close>

definition reg_ok :: "grid_register \<Rightarrow> bool" where
  "reg_ok reg \<longleftrightarrow> distinct (keys (rg_members reg)) \<and> (\<forall>(n, r)\<in>set (rg_members reg). mr_node_id r = n)
     \<and> distinct (keys (rg_misses reg))"

lemma rec_of_set_rec [simp]: "rec_of (set_rec nid r reg) n = (if n = nid then Some r else rec_of reg n)"
  by (simp add: rec_of_def set_rec_def)

lemma set_rec_simps [simp]:
  "rg_id (set_rec n r reg) = rg_id reg" "rg_epoch (set_rec n r reg) = rg_epoch reg"
  "rg_threshold (set_rec n r reg) = rg_threshold reg" "rg_forgiveness (set_rec n r reg) = rg_forgiveness reg"
  "rg_misses (set_rec n r reg) = rg_misses reg"
  by (simp_all add: set_rec_def)

lemma rec_of_simps [simp]:
  "rec_of (reg\<lparr>rg_misses := m\<rparr>) n = rec_of reg n" "rec_of (reg\<lparr>rg_epoch := e\<rparr>) n = rec_of reg n"
  by (simp_all add: rec_of_def)

lemma miss_count_simps [simp]:
  "miss_count (set_rec k r reg) n = miss_count reg n"
  "miss_count (reg\<lparr>rg_misses := AList.update k v m\<rparr>) n = (if n = k then v else miss_count (reg\<lparr>rg_misses := m\<rparr>) n)"
  "miss_count (reg\<lparr>rg_misses := AList.delete k m\<rparr>) n = (if n = k then 0 else miss_count (reg\<lparr>rg_misses := m\<rparr>) n)"
  "miss_count (reg\<lparr>rg_misses := rg_misses reg'\<rparr>) n = miss_count reg' n"
  "miss_count (reg\<lparr>rg_epoch := e\<rparr>) n = miss_count reg n"
  by (simp_all add: miss_count_def)

lemma reg_ok_new [simp]: "reg_ok (reg_new g e t f)"
  by (simp add: reg_ok_def reg_new_def)

lemma rec_of_new [simp]: "rec_of (reg_new g e t f) n = None"
  by (simp add: rec_of_def reg_new_def)

lemma reg_ok_set_rec [intro]: "reg_ok reg \<Longrightarrow> mr_node_id r = n \<Longrightarrow> reg_ok (set_rec n r reg)"
  using set_update_subset [of n r "rg_members reg"]
  by (auto simp: reg_ok_def set_rec_def distinct_keys_update)

lemma reg_ok_misses [intro]:
  "reg_ok reg \<Longrightarrow> reg_ok (reg\<lparr>rg_misses := AList.update k v (rg_misses reg)\<rparr>)"
  "reg_ok reg \<Longrightarrow> reg_ok (reg\<lparr>rg_misses := AList.delete k (rg_misses reg)\<rparr>)"
  by (simp_all add: reg_ok_def distinct_keys_update distinct_keys_delete)

lemma rec_of_id: "reg_ok reg \<Longrightarrow> rec_of reg n = Some r \<Longrightarrow> mr_node_id r = n"
  by (auto simp: reg_ok_def rec_of_def dest!: map_of_SomeD)

lemma rec_of_iff: "reg_ok reg \<Longrightarrow> rec_of reg n = Some r \<longleftrightarrow> (n, r) \<in> set (rg_members reg)"
  by (simp add: reg_ok_def rec_of_def keys_def)

lemma set_names_where: "reg_ok reg \<Longrightarrow> n \<in> set (names_where Q reg) \<longleftrightarrow> (\<exists>r. rec_of reg n = Some r \<and> Q r)"
  by (force simp: names_where_def rec_of_iff image_iff)

lemma distinct_names_where: "reg_ok reg \<Longrightarrow> distinct (names_where Q reg)"
  by (simp add: names_where_def reg_ok_def keys_def distinct_map_filter)

lemma set_keys_rec: "n \<in> set (keys (rg_members reg)) \<longleftrightarrow> rec_of reg n \<noteq> None"
  unfolding set_keys by (simp add: rec_of_def dom_def)

text \<open>A dictionary sorted by key is determined by its lookups.\<close>

lemma sorted_items_cong:
  assumes "distinct (keys d)" "distinct (keys e)" "map_of d = map_of e"
  shows "sorted_items d = sorted_items e"
proof -
  have "(k, v) \<in> set d \<longleftrightarrow> (k, v) \<in> set e" for k v
    using map_of_eq_Some_iff [of d k v] map_of_eq_Some_iff [of e k v] assms by (simp add: keys_def)
  then have st: "set d = set e" by auto
  have inj: "inj_on fst (set d)" "inj_on fst (set e)" using assms(1,2) by (simp_all add: keys_def distinct_map)
  have dist: "distinct (map fst (sort_key fst d))" "distinct (map fst (sort_key fst e))"
    using assms(1,2) inj by (simp_all add: distinct_map keys_def)
  show ?thesis unfolding sorted_items_def
    by (rule map_sorted_distinct_set_unique [of fst]) (use st inj dist in simp_all)
qed

section \<open>The update, member by member\<close>

text \<open>What one ceremony does to one member, on its record and its miss counter alone.\<close>

definition member_step :: "int \<Rightarrow> int \<Rightarrow> attendance_roll \<Rightarrow> string list \<Rightarrow> string
    \<Rightarrow> member_record option \<times> int \<Rightarrow> member_record option \<times> int" where
  "member_step threshold forgiveness roll faulted nid = (\<lambda>(old, misses).
     if nid \<notin> set (ar_seated roll) \<union> set faulted then (old, misses)
     else let r = (case old of Some r \<Rightarrow> r | None \<Rightarrow> new_member nid (ar_epoch roll)) in
       if nid \<in> set faulted then
         (Some (r\<lparr>mr_standing := Suspended, mr_consecutive := 0, mr_faults := mr_faults r @ [ar_epoch roll]\<rparr>), 0)
       else if mr_standing r = Suspended then (Some r, misses)
       else if nid \<in> set (ar_attended roll) then
         (Some (r\<lparr>mr_consecutive := mr_consecutive r + 1, mr_total_attended := mr_total_attended r + 1,
            mr_last_seen_epoch := ar_epoch roll,
            mr_standing := (if mr_standing r = Apprentice \<and> threshold \<le> mr_consecutive r + 1
                            then Attester else mr_standing r)\<rparr>), 0)
       else (Some (if forgiveness < misses + 1 then r\<lparr>mr_consecutive := 0\<rparr> else r), misses + 1))"

definition leader_step :: "attendance_roll \<Rightarrow> string list \<Rightarrow> string
    \<Rightarrow> member_record option \<times> int \<Rightarrow> member_record option \<times> int" where
  "leader_step roll faulted nid = (\<lambda>(r, misses).
     (if nid = ar_leader_id roll \<and> nid \<notin> set faulted
      then map_option (\<lambda>l. l\<lparr>mr_led_count := mr_led_count l + 1\<rparr>) r else r, misses))"

definition member_view :: "grid_register \<Rightarrow> string \<Rightarrow> member_record option \<times> int" where
  "member_view reg nid = (rec_of reg nid, miss_count reg nid)"

definition reg_head :: "grid_register \<Rightarrow> string \<times> int \<times> int" where
  "reg_head reg = (rg_id reg, rg_threshold reg, rg_forgiveness reg)"

lemma reg_head_simps [simp]:
  "reg_head (set_rec n r reg) = reg_head reg" "reg_head (reg\<lparr>rg_misses := m\<rparr>) = reg_head reg"
  "reg_head (reg\<lparr>rg_epoch := e\<rparr>) = reg_head reg"
  by (simp_all add: reg_head_def)

lemma mr_node_id_new [simp]: "mr_node_id (new_member n e) = n" "mr_node_id (founder e t n) = n"
  by (simp_all add: new_member_def founder_def)

lemma apply_member_other: "n \<noteq> nid \<Longrightarrow> member_view (apply_member roll faulted reg nid) n = member_view reg n"
  by (simp add: member_view_def apply_member_def Let_def split: option.split)

lemma apply_member_head [simp]: "reg_head (apply_member roll faulted reg nid) = reg_head reg"
  by (simp add: apply_member_def Let_def split: option.split)

lemma apply_member_id [simp]:
  "rg_id (apply_member roll faulted reg nid) = rg_id reg"
  "rg_threshold (apply_member roll faulted reg nid) = rg_threshold reg"
  "rg_forgiveness (apply_member roll faulted reg nid) = rg_forgiveness reg"
  using apply_member_head [of roll faulted reg nid] by (simp_all add: reg_head_def)

lemma apply_member_self:
  assumes "nid \<in> set (ar_seated roll) \<union> set faulted"
  shows "member_view (apply_member roll faulted reg nid) nid
    = member_step (rg_threshold reg) (rg_forgiveness reg) roll faulted nid (member_view reg nid)"
proof (cases "rec_of reg nid")
  case None
  then show ?thesis using assms
    by (simp add: member_view_def member_step_def apply_member_def Let_def new_member_def)
next
  case (Some r)
  then show ?thesis using assms
    by (auto simp: member_view_def member_step_def apply_member_def Let_def)
qed

lemma apply_member_ok: 
  assumes "reg_ok reg" shows "reg_ok (apply_member roll faulted reg nid)"
proof -
  define r where "r = (case rec_of reg nid of Some r \<Rightarrow> r | None \<Rightarrow> new_member nid (ar_epoch roll))"
  define reg1 where "reg1 = (case rec_of reg nid of Some _ \<Rightarrow> reg | None \<Rightarrow> set_rec nid (new_member nid (ar_epoch roll)) reg)"
  have r: "mr_node_id r = nid" using rec_of_id [OF assms] by (auto simp: r_def split: option.split)
  have 1: "reg_ok reg1" using assms by (auto simp: reg1_def split: option.split)
  then have 2: "reg_ok (set_rec nid r' reg1)" if "mr_node_id r' = nid" for r' using that by blast
  note 3 = reg_ok_misses [OF 1] reg_ok_misses [OF 2]
  show ?thesis unfolding apply_member_def
    by (simp only: Let_def r_def [symmetric] reg1_def [symmetric] split: if_split)
      (use 1 3 r in \<open>auto simp del: miss_count_simps\<close>)
qed

lemma foldl_apply_member:
  assumes "distinct xs" "set xs \<subseteq> set (ar_seated roll) \<union> set faulted"
  shows "member_view (foldl (apply_member roll faulted) reg xs) n
      = (if n \<in> set xs then member_step (rg_threshold reg) (rg_forgiveness reg) roll faulted n (member_view reg n)
         else member_view reg n)
    \<and> reg_head (foldl (apply_member roll faulted) reg xs) = reg_head reg
    \<and> (reg_ok reg \<longrightarrow> reg_ok (foldl (apply_member roll faulted) reg xs))"
  using assms
proof (induction xs arbitrary: reg)
  case Nil
  then show ?case by simp
next
  case (Cons x xs)
  note IH = Cons.IH [of "apply_member roll faulted reg x"]
  have x: "x \<notin> set xs" "x \<in> set (ar_seated roll) \<union> set faulted" using Cons.prems by auto
  show ?case
  proof (cases "n = x")
    case True
    then show ?thesis using IH Cons.prems x apply_member_self [OF x(2), of reg] by (auto simp: apply_member_ok)
  next
    case False
    then show ?thesis using IH Cons.prems by (auto simp: apply_member_ok apply_member_other)
  qed
qed

lemma credit_leader_view:
  "member_view (credit_leader roll faulted reg) n = leader_step roll faulted n (member_view reg n)"
  by (auto simp: credit_leader_def member_view_def leader_step_def split: option.split)

lemma credit_leader_head [simp]: "reg_head (credit_leader roll faulted reg) = reg_head reg"
  by (simp add: credit_leader_def split: option.split)

lemma credit_leader_ok: "reg_ok reg \<Longrightarrow> reg_ok (credit_leader roll faulted reg)"
  by (auto simp: credit_leader_def rec_of_id split: option.split)

lemma reg_ok_epoch [simp]: "reg_ok (reg\<lparr>rg_epoch := e\<rparr>) = reg_ok reg"
  by (simp add: reg_ok_def)

lemma reg_apply_view:
  assumes "reg_apply roll faulted reg = Inr reg'"
  shows "member_view reg' n = leader_step roll faulted n
      (member_step (rg_threshold reg) (rg_forgiveness reg) roll faulted n (member_view reg n))
    \<and> reg_head reg' = reg_head reg \<and> rg_epoch reg' = ar_epoch roll + 1 \<and> (reg_ok reg \<longrightarrow> reg_ok reg')"
proof -
  let ?xs = "sorted_set (ar_seated roll @ faulted)"
  let ?mid = "foldl (apply_member roll faulted) reg ?xs"
  have mid: "member_view ?mid n = member_step (rg_threshold reg) (rg_forgiveness reg) roll faulted n (member_view reg n)"
    "reg_head ?mid = reg_head reg" "reg_ok reg \<longrightarrow> reg_ok ?mid"
    using foldl_apply_member [of ?xs roll faulted reg n] by (auto simp: member_step_def split: prod.split)
  have reg': "reg' = credit_leader roll faulted ?mid\<lparr>rg_epoch := ar_epoch roll + 1\<rparr>"
    using assms by (simp add: reg_apply_def split: if_splits)
  have "member_view reg' n = leader_step roll faulted n (member_view ?mid n)"
    unfolding reg' credit_leader_view [symmetric] by (simp add: member_view_def)
  then show ?thesis using mid by (auto simp: reg' credit_leader_ok)
qed

section \<open>Runs of ceremonies\<close>

definition reg_run :: "(attendance_roll \<times> string list) list \<Rightarrow> grid_register \<Rightarrow> exn + grid_register" where
  "reg_run rs reg = foldR (\<lambda>reg (roll, faulted). reg_apply roll faulted reg) reg rs"

lemma reg_run_simps [simp]:
  "reg_run [] reg = Inr reg"
  "reg_run ((roll, faulted) # rs) reg = bindR (reg_apply roll faulted reg) (reg_run rs)"
  by (simp_all add: reg_run_def [abs_def])

definition served :: "string \<Rightarrow> (attendance_roll \<times> string list) list \<Rightarrow> nat" where
  "served nid rs = length (filter (\<lambda>(roll, faulted). nid \<in> set (ar_seated roll) \<and> nid \<in> set (ar_attended roll)
     \<and> nid \<notin> set faulted) rs)"

lemma reg_run_ok: "reg_run rs reg = Inr reg' \<Longrightarrow> reg_ok reg \<Longrightarrow> reg_ok reg' \<and> reg_head reg' = reg_head reg"
proof (induction rs arbitrary: reg)
  case Nil
  then show ?case by simp
next
  case (Cons a rs)
  then show ?case using reg_apply_view by (cases a) fastforce
qed

text \<open>\<open>k\<close> ceremonies served so far bound the streak, and reach the threshold before the vote.\<close>

definition streak_ok :: "int \<Rightarrow> nat \<Rightarrow> member_record option \<Rightarrow> bool" where
  "streak_ok threshold k old = (case old of None \<Rightarrow> True
     | Some r \<Rightarrow> mr_consecutive r \<le> int k \<and> (mr_standing r = Attester \<longrightarrow> threshold \<le> int k)
         \<and> (mr_faults r \<noteq> [] \<longrightarrow> mr_standing r = Suspended))"

lemma streak_ok_step:
  assumes "streak_ok threshold k (fst v)"
  shows "streak_ok threshold (k + served nid [(roll, faulted)])
     (fst (leader_step roll faulted nid (member_step threshold forgiveness roll faulted nid v)))"
  using assms
  by (cases v; cases "fst v")
    (auto simp: streak_ok_def member_step_def leader_step_def served_def new_member_def Let_def split: if_splits)

lemma served_Cons: "served nid (a # rs) = served nid [a] + served nid rs"
  by (simp add: served_def)

lemma streak_ok_run:
  assumes "reg_run rs reg = Inr reg'" "streak_ok (rg_threshold reg) k (rec_of reg nid)"
  shows "streak_ok (rg_threshold reg) (k + served nid rs) (rec_of reg' nid)"
  using assms
proof (induction rs arbitrary: reg k)
  case Nil
  then show ?case by (simp add: served_def)
next
  case (Cons a rs)
  obtain roll faulted where a: "a = (roll, faulted)" by force
  with Cons.prems obtain mid where mid: "reg_apply roll faulted reg = Inr mid" "reg_run rs mid = Inr reg'" by auto
  note v = reg_apply_view [OF mid(1), of nid]
  have th: "rg_threshold mid = rg_threshold reg" using v by (simp add: reg_head_def)
  have "streak_ok (rg_threshold reg) (k + served nid [a]) (rec_of mid nid)"
    using streak_ok_step [of "rg_threshold reg" k "member_view reg nid" nid roll faulted "rg_forgiveness reg"]
      Cons.prems(2) v by (metis a fst_conv member_view_def)
  then have "streak_ok (rg_threshold reg) (k + (served nid [a] + served nid rs)) (rec_of reg' nid)"
    using Cons.IH [OF mid(2), of "k + served nid [a]"] th by (simp add: add.assoc)
  then show ?case unfolding served_Cons [of nid a rs] .
qed

lemma suspended_step:
  assumes "\<exists>r. fst v = Some r \<and> mr_standing r = Suspended"
  shows "\<exists>r. fst (leader_step roll faulted nid (member_step t f roll faulted nid v)) = Some r \<and> mr_standing r = Suspended"
  using assms by (cases v) (auto simp: member_step_def leader_step_def)

lemma faulted_step:
  assumes "nid \<in> set faulted"
  shows "\<exists>r. fst (leader_step roll faulted nid (member_step t f roll faulted nid v)) = Some r \<and> mr_standing r = Suspended"
  using assms by (cases v) (auto simp: member_step_def leader_step_def Let_def)

definition suspended :: "grid_register \<Rightarrow> string \<Rightarrow> bool" where
  "suspended reg nid = (standing_of reg nid = Suspended)"

lemma suspended_iff: "suspended reg nid \<longleftrightarrow> (\<exists>r. fst (member_view reg nid) = Some r \<and> mr_standing r = Suspended)"
  by (auto simp: suspended_def standing_of_def member_view_def split: option.splits)

lemma apply_suspended: "reg_apply roll faulted reg = Inr reg' \<Longrightarrow> suspended reg nid \<or> nid \<in> set faulted \<Longrightarrow> suspended reg' nid"
  using reg_apply_view [of roll faulted reg reg' nid] suspended_step faulted_step unfolding suspended_iff by metis

section \<open>Release, founding, absorption\<close>

lemma releasable_Inr: "releasable reg nid = Inr r \<longleftrightarrow> rec_of reg nid = Some r \<and> mr_standing r = Attester \<and> mr_faults r = []"
  by (auto simp: releasable_def split: option.split)

lemma collect_releasable:
  assumes "foldR (\<lambda>moving nid. bindR (releasable reg nid) (\<lambda>r. Inr (moving @ [r]))) acc xs = Inr moved"
  shows "moved = acc @ map (\<lambda>n. the (rec_of reg n)) xs \<and> (\<forall>n\<in>set xs. releasable reg n = Inr (the (rec_of reg n)))"
  using assms
proof (induction xs arbitrary: acc)
  case Nil
  then show ?case by simp
next
  case (Cons x xs)
  then obtain r where r: "releasable reg x = Inr r"
      "foldR (\<lambda>moving nid. bindR (releasable reg nid) (\<lambda>r. Inr (moving @ [r]))) (acc @ [r]) xs = Inr moved"
    by auto
  then have "rec_of reg x = Some r" by (simp add: releasable_Inr)
  then show ?case using Cons.IH [OF r(2)] r(1) by simp
qed

lemma drop_member_Inr:
  assumes "reg_ok reg" "drop_member reg r = Inr reg'"
  shows "reg_ok reg' \<and> reg_head reg' = reg_head reg \<and> rg_epoch reg' = rg_epoch reg \<and> rec_of reg (mr_node_id r) \<noteq> None
    \<and> rec_of reg' = (rec_of reg)(mr_node_id r := None) \<and> miss_count reg' = (miss_count reg)(mr_node_id r := 0)"
proof -
  have reg': "reg' = reg\<lparr>rg_members := AList.delete (mr_node_id r) (rg_members reg),
      rg_misses := AList.delete (mr_node_id r) (rg_misses reg)\<rparr>" and some: "rec_of reg (mr_node_id r) \<noteq> None"
    using assms(2) by (auto simp: drop_member_def split: if_splits)
  have "reg_ok reg'" using assms(1) set_delete_subset [of "mr_node_id r" "rg_members reg"]
    by (auto simp: reg' reg_ok_def distinct_keys_delete)
  then show ?thesis using some
    by (auto simp: reg' reg_head_def rec_of_def [abs_def] miss_count_def [abs_def] fun_eq_iff)
qed

lemma drop_members_Inr:
  assumes "foldR drop_member reg rs = Inr reg'" "reg_ok reg"
  shows "reg_ok reg' \<and> reg_head reg' = reg_head reg \<and> rg_epoch reg' = rg_epoch reg \<and> distinct (map mr_node_id rs)
    \<and> (\<forall>r\<in>set rs. rec_of reg (mr_node_id r) \<noteq> None)
    \<and> (\<forall>n. rec_of reg' n = (if n \<in> mr_node_id ` set rs then None else rec_of reg n))
    \<and> (\<forall>n. miss_count reg' n = (if n \<in> mr_node_id ` set rs then 0 else miss_count reg n))"
  using assms
proof (induction rs arbitrary: reg)
  case Nil
  then show ?case by simp
next
  case (Cons r rs)
  then obtain mid where mid: "drop_member reg r = Inr mid" "foldR drop_member mid rs = Inr reg'" by auto
  note d = drop_member_Inr [OF Cons.prems(2) mid(1)]
  then have ok: "reg_ok mid" by simp
  note IH = Cons.IH [OF mid(2) ok]
  have "mr_node_id r \<notin> mr_node_id ` set rs" using IH d by auto
  then show ?case using IH d by (auto split: if_splits)
qed

lemma release_spec:
  assumes "reg_ok reg" "release nids reg = Inr (moved, reg')"
  shows "moved = map (\<lambda>n. the (rec_of reg n)) (sort nids)"
    and "distinct nids"
    and "\<forall>n\<in>set nids. \<exists>r. rec_of reg n = Some r \<and> mr_standing r = Attester \<and> mr_faults r = []"
    and "\<forall>n. rec_of reg' n = (if n \<in> set nids then None else rec_of reg n)"
    and "reg_ok reg'" "reg_head reg' = reg_head reg"
proof -
  have r: "foldR (\<lambda>moving nid. bindR (releasable reg nid) (\<lambda>r. Inr (moving @ [r]))) [] (sort nids) = Inr moved"
      "foldR drop_member reg moved = Inr reg'"
    using assms(2) by (auto simp: release_def)
  note c = collect_releasable [OF r(1)] and d = drop_members_Inr [OF r(2) assms(1)]
  show m: "moved = map (\<lambda>n. the (rec_of reg n)) (sort nids)" using c by simp
  show s: "\<forall>n\<in>set nids. \<exists>r. rec_of reg n = Some r \<and> mr_standing r = Attester \<and> mr_faults r = []"
    using c by (auto simp: releasable_Inr)
  then have ids: "mr_node_id (the (rec_of reg n)) = n" if "n \<in> set nids" for n
    using rec_of_id [OF assms(1)] that by force
  then have names: "map mr_node_id moved = sort nids" by (auto simp: m o_def intro!: map_idI)
  then show "distinct nids" using d by (metis distinct_sort)
  have "mr_node_id ` set moved = set nids" using names by (metis list.set_map set_sort)
  then show "\<forall>n. rec_of reg' n = (if n \<in> set nids then None else rec_of reg n)" "reg_ok reg'" "reg_head reg' = reg_head reg"
    using d by simp_all
qed

lemma foldl_set_rec:
  assumes "reg_ok reg" "\<forall>r. mr_node_id (f r) = mr_node_id r"
  shows "reg_ok (foldl (\<lambda>reg r. set_rec (mr_node_id r) (f r) reg) reg rs)
    \<and> reg_head (foldl (\<lambda>reg r. set_rec (mr_node_id r) (f r) reg) reg rs) = reg_head reg
    \<and> rg_epoch (foldl (\<lambda>reg r. set_rec (mr_node_id r) (f r) reg) reg rs) = rg_epoch reg
    \<and> rg_misses (foldl (\<lambda>reg r. set_rec (mr_node_id r) (f r) reg) reg rs) = rg_misses reg
    \<and> (distinct (map mr_node_id rs) \<longrightarrow> (\<forall>n. rec_of (foldl (\<lambda>reg r. set_rec (mr_node_id r) (f r) reg) reg rs) n
         = (case find (\<lambda>r. mr_node_id r = n) rs of Some r \<Rightarrow> Some (f r) | None \<Rightarrow> rec_of reg n)))"
  using assms(1)
proof (induction rs arbitrary: reg)
  case Nil
  then show ?case by simp
next
  case (Cons r rs)
  have ok: "reg_ok (set_rec (mr_node_id r) (f r) reg)" using Cons.prems assms(2) by blast
  have "find (\<lambda>r'. mr_node_id r' = mr_node_id r) rs = None" if d: "distinct (map mr_node_id (r # rs))"
  proof -
    have "mr_node_id r' \<noteq> mr_node_id r" if "r' \<in> set rs" for r'
      using d that by (metis distinct.simps(2) image_eqI list.set_map list.simps(9))
    then show ?thesis by (auto simp: find_None_iff)
  qed
  then show ?case using Cons.IH [OF ok] by (auto split: option.split)
qed

lemma found_spec:
  assumes "distinct (map mr_node_id rs)"
  shows "reg_ok (found g rs donor e t f)"
    and "reg_head (found g rs donor e t f) = (g, t, f)"
    and "rec_of (found g rs donor e t f) n
      = map_option (\<lambda>r. r\<lparr>mr_founded_from := donor\<rparr>) (find (\<lambda>r. mr_node_id r = n) rs)"
proof -
  have "reg_head (reg_new g e t f) = (g, t, f)" by (simp add: reg_head_def reg_new_def)
  with foldl_set_rec [OF reg_ok_new, of "\<lambda>r. r\<lparr>mr_founded_from := donor\<rparr>" g e t f rs] assms
  show "reg_ok (found g rs donor e t f)" "reg_head (found g rs donor e t f) = (g, t, f)"
    "rec_of (found g rs donor e t f) n
      = map_option (\<lambda>r. r\<lparr>mr_founded_from := donor\<rparr>) (find (\<lambda>r. mr_node_id r = n) rs)"
    by (simp_all add: found_def split: option.split)
qed

lemma find_rec:
  assumes "\<forall>n\<in>set ns. mr_node_id (g n) = n"
  shows "find (\<lambda>r. mr_node_id r = n) (map g ns) = (if n \<in> set ns then Some (g n) else None)"
  using assms by (induction ns) auto

lemma credit_one_view:
  assumes "reg_ok reg"
  shows "(\<forall>n. map_option mr_standing (rec_of (snd (credit_one (k, reg) x)) n) = map_option mr_standing (rec_of reg n)
      \<and> map_option mr_consecutive (rec_of (snd (credit_one (k, reg) x)) n) = map_option mr_consecutive (rec_of reg n))
    \<and> reg_ok (snd (credit_one (k, reg) x)) \<and> rg_epoch (snd (credit_one (k, reg) x)) = rg_epoch reg
    \<and> reg_head (snd (credit_one (k, reg) x)) = reg_head reg"
  using assms by (cases x) (auto simp: credit_one_def rec_of_id split: option.split)

lemma credit_service_view:
  assumes "reg_ok reg"
  shows "(\<forall>n. map_option mr_standing (rec_of (snd (credit_service sv reg)) n) = map_option mr_standing (rec_of reg n)
      \<and> map_option mr_consecutive (rec_of (snd (credit_service sv reg)) n) = map_option mr_consecutive (rec_of reg n))
    \<and> reg_ok (snd (credit_service sv reg)) \<and> rg_epoch (snd (credit_service sv reg)) = rg_epoch reg
    \<and> reg_head (snd (credit_service sv reg)) = reg_head reg"
proof -
  have "\<forall>k. reg_ok reg \<longrightarrow> (\<forall>n. map_option mr_standing (rec_of (snd (foldl credit_one (k, reg) xs)) n) = map_option mr_standing (rec_of reg n)
      \<and> map_option mr_consecutive (rec_of (snd (foldl credit_one (k, reg) xs)) n) = map_option mr_consecutive (rec_of reg n))
    \<and> reg_ok (snd (foldl credit_one (k, reg) xs)) \<and> rg_epoch (snd (foldl credit_one (k, reg) xs)) = rg_epoch reg
    \<and> reg_head (snd (foldl credit_one (k, reg) xs)) = reg_head reg" for xs
  proof (induction xs arbitrary: reg)
    case (Cons x xs)
    show ?case
    proof (intro allI impI)
      fix k
      assume ok: "reg_ok reg"
      obtain k' reg1 where c: "credit_one (k, reg) x = (k', reg1)" by force
      show "(\<forall>n. map_option mr_standing (rec_of (snd (foldl credit_one (k, reg) (x # xs))) n) = map_option mr_standing (rec_of reg n)
          \<and> map_option mr_consecutive (rec_of (snd (foldl credit_one (k, reg) (x # xs))) n) = map_option mr_consecutive (rec_of reg n))
        \<and> reg_ok (snd (foldl credit_one (k, reg) (x # xs))) \<and> rg_epoch (snd (foldl credit_one (k, reg) (x # xs))) = rg_epoch reg
        \<and> reg_head (snd (foldl credit_one (k, reg) (x # xs))) = reg_head reg"
        using credit_one_view [OF ok, of k x] Cons.IH [of reg1] by (simp add: c)
    qed
  qed simp
  then show ?thesis using assms by (simp add: credit_service_def)
qed

lemma absorb_one_view:
  "rec_of (absorb_one other reg (n, r)) = (rec_of reg)(n \<mapsto> r\<lparr>mr_founded_from := rg_id other\<rparr>)"
  "miss_count (absorb_one other reg (n, r)) = (miss_count reg)(n := miss_count other n)"
  "reg_head (absorb_one other reg (n, r)) = reg_head reg"
  "rg_epoch (absorb_one other reg (n, r)) = rg_epoch reg"
  by (simp_all add: absorb_one_def fun_eq_iff)

lemma absorb_one_ok:
  assumes "reg_ok reg" "mr_node_id r = n"
  shows "reg_ok (absorb_one other reg (n, r))"
  using reg_ok_misses(1) [OF reg_ok_set_rec [OF assms(1), of "r\<lparr>mr_founded_from := rg_id other\<rparr>" n]] assms(2)
  by (simp add: absorb_one_def)

lemma absorb_fold:
  assumes "reg_ok reg" "distinct (keys xs)" "\<forall>(n, r)\<in>set xs. mr_node_id r = n"
  shows "reg_ok (foldl (absorb_one other) reg xs) \<and> reg_head (foldl (absorb_one other) reg xs) = reg_head reg
    \<and> rg_epoch (foldl (absorb_one other) reg xs) = rg_epoch reg
    \<and> (\<forall>n. rec_of (foldl (absorb_one other) reg xs) n
         = (case map_of xs n of Some r \<Rightarrow> Some (r\<lparr>mr_founded_from := rg_id other\<rparr>) | None \<Rightarrow> rec_of reg n))
    \<and> (\<forall>n. miss_count (foldl (absorb_one other) reg xs) n
         = (if map_of xs n = None then miss_count reg n else miss_count other n))"
  using assms
proof (induction xs arbitrary: reg)
  case Nil
  then show ?case by simp
next
  case (Cons x xs)
  obtain n r where x: "x = (n, r)" by force
  with Cons.prems have ok: "reg_ok (absorb_one other reg x)" by (simp add: absorb_one_ok)
  have "map_of xs n = None" using Cons.prems(2) set_keys [of xs] by (auto simp: x)
  then show ?case using Cons.IH [OF ok] Cons.prems(2,3)
    by (auto simp: x absorb_one_view split: option.splits)
qed

lemma sorted_items_facts [simp]: "distinct (keys (sorted_items d)) = distinct (keys d)" "set (sorted_items d) = set d"
proof -
  have "mset (keys (sorted_items d)) = mset (keys d)" by (simp add: keys_def sorted_items_def)
  then show "distinct (keys (sorted_items d)) = distinct (keys d)" by (rule mset_eq_imp_distinct_iff)
qed (simp add: sorted_items_def)

lemma map_of_sorted_items [simp]:
  assumes "distinct (keys d)" shows "map_of (sorted_items d) = map_of d"
proof
  fix k
  have "map_of (sorted_items d) k = Some v \<longleftrightarrow> map_of d k = Some v" for v
    using map_of_eq_Some_iff [of "sorted_items d" k v] map_of_eq_Some_iff [of d k v] assms
      sorted_items_facts [of d] by (simp add: keys_def)
  then show "map_of (sorted_items d) k = map_of d k" by (metis not_None_eq)
qed

section \<open>Persistence\<close>

lemma find_items:
  assumes "\<forall>(n, r)\<in>set xs. mr_node_id r = n"
  shows "find (\<lambda>r. mr_node_id r = n) (map snd xs) = map_of xs n"
  using assms by (induction xs) auto

lemma foldl_update_fresh:
  "distinct (keys (acc @ xs)) \<Longrightarrow> foldl (\<lambda>m (k, v). AList.update k v m) acc xs = acc @ xs"
proof (induction xs arbitrary: acc)
  case Nil
  then show ?case by simp
next
  case (Cons x xs)
  then have "fst x \<notin> set (keys acc)" by (auto simp: keys_def)
  then have "AList.update (fst x) (snd x) acc = acc @ [x]" by (simp add: update_fresh)
  with Cons show ?case by (simp add: case_prod_beta keys_def)
qed

definition same_register :: "grid_register \<Rightarrow> grid_register \<Rightarrow> bool" where
  "same_register a b \<longleftrightarrow> reg_head a = reg_head b \<and> rg_epoch a = rg_epoch b
     \<and> map_of (rg_members a) = map_of (rg_members b) \<and> map_of (rg_misses a) = map_of (rg_misses b)"

lemma same_register_view: "same_register a b \<Longrightarrow> member_view a n = member_view b n"
  by (simp add: same_register_def member_view_def rec_of_def miss_count_def)

lemma same_register_root:
  assumes "same_register a b" "reg_ok a" "reg_ok b"
  shows "reg_root P a = reg_root P b"
proof -
  have "sorted_items (rg_members a) = sorted_items (rg_members b)"
    by (rule sorted_items_cong) (use assms in \<open>simp_all add: same_register_def reg_ok_def\<close>)
  then show ?thesis using assms(1) by (simp add: reg_root_def same_register_def reg_head_def)
qed

lemma load_dump:
  assumes "reg_ok reg"
  shows "reg_ok (reg_load (reg_dump reg)) \<and> same_register (reg_load (reg_dump reg)) reg"
proof -
  let ?d = "reg_dump reg" and ?xs = "sorted_items (rg_members reg)"
  let ?new = "reg_new (rg_id reg) (rg_epoch reg) (rg_threshold reg) (rg_forgiveness reg)"
  let ?mid = "foldl (\<lambda>reg r. set_rec (mr_node_id r) r reg) ?new (map snd ?xs)"
  have ids: "\<forall>(n, r)\<in>set ?xs. mr_node_id r = n" using assms by (simp add: reg_ok_def)
  have "map mr_node_id (map snd ?xs) = keys ?xs" using ids by (auto simp: keys_def)
  then have dist: "distinct (map mr_node_id (map snd ?xs))" using assms by (simp add: reg_ok_def)
  have mid: "reg_ok ?mid" "reg_head ?mid = reg_head ?new" "rg_epoch ?mid = rg_epoch ?new"
      "\<And>n. rec_of ?mid n = map_of ?xs n"
    using foldl_set_rec [OF reg_ok_new, of "\<lambda>r. r" "rg_id reg" "rg_epoch reg" "rg_threshold reg" "rg_forgiveness reg"
        "map snd ?xs"] dist find_items [OF ids] by (simp_all split: option.split)
  have miss: "foldl (\<lambda>m (k, v). AList.update k v m) [] (sorted_items (rg_misses reg)) = sorted_items (rg_misses reg)"
    using foldl_update_fresh [of "[]" "sorted_items (rg_misses reg)"] assms by (simp add: reg_ok_def)
  have load: "reg_load ?d = ?mid\<lparr>rg_misses := sorted_items (rg_misses reg)\<rparr>"
    by (simp add: reg_load_def reg_dump_def miss)
  have "reg_head ?new = reg_head reg" by (simp add: reg_head_def reg_new_def)
  moreover have "map_of (rg_members ?mid) = map_of (rg_members reg)"
    using mid(4) assms by (simp add: rec_of_def fun_eq_iff reg_ok_def)
  ultimately show ?thesis using mid assms
    by (simp add: load same_register_def reg_ok_def) (simp add: reg_new_def)
qed

section \<open>Properties\<close>

inductive reg_step :: "grid_register \<Rightarrow> grid_register \<Rightarrow> bool" where
  step_apply: "reg_apply roll faulted reg = Inr reg' \<Longrightarrow> reg_step reg reg'"
| step_admit: "admit nid epoch reg = Inr reg' \<Longrightarrow> reg_step reg reg'"
| step_release: "release nids reg = Inr (moved, reg') \<Longrightarrow> reg_step reg reg'"
| step_service: "credit_service service reg = (k, reg') \<Longrightarrow> reg_step reg reg'"
| step_absorb: "reg_ok other \<Longrightarrow> absorb other reg = Inr (reg', other') \<Longrightarrow> reg_step reg reg'"

inductive_cases reg_step_cases: "reg_step reg reg'"

lemma absorb_spec:
  assumes "reg_ok reg" "reg_ok other" "absorb other reg = Inr (reg', other')"
  shows "reg_ok reg'" "reg_head reg' = reg_head reg" "rg_epoch reg' = rg_epoch reg"
    and "rec_of other n = Some r \<Longrightarrow> rec_of reg' n = Some (r\<lparr>mr_founded_from := rg_id other\<rparr>) \<and> rec_of reg n = None
      \<and> miss_count reg' n = miss_count other n"
    and "rec_of other n = None \<Longrightarrow> member_view reg' n = member_view reg n"
    and "rg_members other' = []"
proof -
  have dis: "set (keys (rg_members other)) \<inter> set (keys (rg_members reg)) = {}"
    and reg': "reg' = foldl (absorb_one other) reg (sorted_items (rg_members other))"
    and o': "other' = other\<lparr>rg_members := [], rg_misses := []\<rparr>"
    using assms(3) by (auto simp: absorb_def split: if_splits)
  have m: "map_of (sorted_items (rg_members other)) = map_of (rg_members other)"
    using assms(2) by (simp add: reg_ok_def)
  have f: "distinct (keys (sorted_items (rg_members other)))"
      "\<forall>(n, r)\<in>set (sorted_items (rg_members other)). mr_node_id r = n"
    using assms(2) by (simp_all add: reg_ok_def)
  note fold = absorb_fold [OF assms(1) f, of other, folded reg', unfolded m]
  show "reg_ok reg'" "reg_head reg' = reg_head reg" "rg_epoch reg' = rg_epoch reg" "rg_members other' = []"
    using fold by (simp_all add: o')
  show "rec_of other n = None \<Longrightarrow> member_view reg' n = member_view reg n"
    using fold by (simp add: member_view_def rec_of_def)
  assume r: "rec_of other n = Some r"
  then have "rec_of reg n = None" using dis set_keys_rec [of n other] set_keys_rec [of n reg] by auto
  then show "rec_of reg' n = Some (r\<lparr>mr_founded_from := rg_id other\<rparr>) \<and> rec_of reg n = None
      \<and> miss_count reg' n = miss_count other n"
    using fold r by (simp add: rec_of_def)
qed

lemma reg_step_ok:
  assumes "reg_step reg reg'" "reg_ok reg"
  shows "reg_ok reg' \<and> reg_head reg' = reg_head reg \<and> (suspended reg nid \<longrightarrow> suspended reg' nid)"
  using assms
proof (cases rule: reg_step.cases)
  case (step_apply roll faulted)
  then show ?thesis using reg_apply_view [OF step_apply] apply_suspended [OF step_apply] assms(2) by blast
next
  case (step_admit n e)
  then have reg': "reg' = set_rec n (new_member n (case e of None \<Rightarrow> rg_epoch reg | Some e \<Rightarrow> e)) reg" "rec_of reg n = None"
    by (auto simp: admit_def split: if_splits)
  then show ?thesis using assms(2) by (auto simp: suspended_def standing_of_def)
next
  case (step_release nids moved)
  note r = release_spec [OF assms(2) step_release]
  have "nid \<notin> set nids" if "suspended reg nid"
    using r(3) that by (auto simp: suspended_def standing_of_def)
  then show ?thesis using r by (simp add: suspended_def standing_of_def)
next
  case (step_service service k)
  have "standing_of reg' nid = standing_of reg nid"
    using credit_service_view [OF assms(2), of service] step_service
    by (auto simp: standing_of_def map_option_case split: option.splits) (metis option.distinct(1) option.inject)+
  then show ?thesis using credit_service_view [OF assms(2), of service] step_service by (simp add: suspended_def)
next
  case (step_absorb other other')
  note a = absorb_spec [OF assms(2) step_absorb]
  have "suspended reg' nid" if "suspended reg nid"
  proof -
    have "rec_of reg nid \<noteq> None" using that by (auto simp: suspended_iff member_view_def)
    then have "rec_of other nid = None" using a(4) [of nid] by (cases "rec_of other nid") auto
    then show ?thesis using a(5) that by (simp add: suspended_iff)
  qed
  then show ?thesis using a by blast
qed

lemma run_suspended:
  assumes "reg_run rs reg = Inr reg'" "suspended reg nid \<or> (\<exists>(roll, faulted)\<in>set rs. nid \<in> set faulted)"
  shows "suspended reg' nid"
  using assms
proof (induction rs arbitrary: reg)
  case Nil
  then show ?case by simp
next
  case (Cons a rs)
  obtain roll faulted where a: "a = (roll, faulted)" by force
  with Cons.prems obtain mid where mid: "reg_apply roll faulted reg = Inr mid" "reg_run rs mid = Inr reg'" by auto
  show ?case
    using Cons.IH [OF mid(2)] apply_suspended [OF mid(1)] Cons.prems(2) by (auto simp: a)
qed

text \<open>A vote is earned. A node that was not in the grid, or was admitted at zero, and whose
  attestation counts after a run of ceremonies, attended at least \<open>attend_threshold\<close> of them while
  seated, and none of them carried a proved fault against it.\<close>

theorem vote_is_earned:
  assumes "reg_ok reg" "rec_of reg nid = None \<or> (\<exists>e. rec_of reg nid = Some (new_member nid e))"
    "reg_run rs reg = Inr reg'" "nid \<in> set (attesters reg')"
  shows "rg_threshold reg \<le> int (served nid rs) \<and> (\<forall>(roll, faulted)\<in>set rs. nid \<notin> set faulted)"
proof -
  have ok: "reg_ok reg'" using reg_run_ok [OF assms(3,1)] by simp
  obtain r where r: "rec_of reg' nid = Some r" "mr_standing r = Attester"
    using assms(4) set_names_where [OF ok] by (auto simp: attesters_def counts_def)
  have "streak_ok (rg_threshold reg) 0 (rec_of reg nid)"
    using assms(2) by (auto simp: streak_ok_def new_member_def)
  then have "rg_threshold reg \<le> int (served nid rs)"
    using streak_ok_run [OF assms(3), of 0 nid] r by (simp add: streak_ok_def)
  moreover have "\<not> suspended reg' nid" using r by (simp add: suspended_def standing_of_def)
  ultimately show ?thesis using run_suspended [OF assms(3)] by auto
qed

definition demo_roll :: "int \<Rightarrow> attendance_roll" where
  "demo_roll e = \<lparr>ar_grid_id = ''g'', ar_epoch = e, ar_leader_id = ''a'', ar_seated = [''a'', ''b''], ar_attended = [''a'']\<rparr>"

definition demo_reg :: grid_register where
  "demo_reg = \<lparr>rg_id = ''g'', rg_epoch = 2, rg_threshold = 2, rg_forgiveness = 0,
     rg_members = [(''a'', (new_member ''a'' 0)\<lparr>mr_standing := Attester, mr_consecutive := 2, mr_total_attended := 2,
         mr_last_seen_epoch := 1, mr_led_count := 2\<rparr>),
       (''b'', (new_member ''b'' 0)\<lparr>mr_standing := Suspended, mr_faults := [1]\<rparr>)],
     rg_misses = [(''a'', 0)]\<rparr>"

lemma demo_run: "reg_run [(demo_roll 0, []), (demo_roll 1, [''b''])] (reg_new ''g'' 0 2 0) = Inr demo_reg"
  by code_simp

lemma demo_reg_facts: "reg_ok demo_reg" "''a'' \<in> set (attesters demo_reg)" "standing_of demo_reg ''b'' = Suspended"
  using reg_run_ok [OF demo_run] by simp (code_simp+)

theorem vote_is_earned_witness: "(2 :: int) \<le> int (served ''a'' [(demo_roll 0, []), (demo_roll 1, [''b''])])"
proof -
  have "reg_ok (reg_new ''g'' 0 2 0)" "rec_of (reg_new ''g'' 0 2 0) ''a'' = None" by simp_all
  from vote_is_earned [OF this(1) disjI1 [OF this(2)] demo_run demo_reg_facts(2)] show ?thesis
    by (simp add: reg_new_def)
qed

text \<open>C30: A suspension is never lifted or laundered. Whatever ceremonies, admissions, releases,
  service credits and merges follow, a suspended member stays in the register and stays suspended:
  it has no seat, no vote and no leadership, cannot be released to found a grid, and is still
  suspended in a grid that absorbs this one.\<close>

theorem suspension_is_final:
  assumes "reg_ok reg" "standing_of reg nid = Suspended" "reg_step\<^sup>*\<^sup>* reg reg'"
  shows "reg_ok reg' \<and> standing_of reg' nid = Suspended
    \<and> nid \<notin> set (attesters reg') \<and> nid \<notin> set (seated_members reg') \<and> nid \<notin> set (leader_candidates reg')
    \<and> (\<forall>nids. nid \<in> set nids \<longrightarrow> \<not> is_ok (release nids reg'))
    \<and> (\<forall>into into' emptied. reg_ok into \<longrightarrow> absorb reg' into = Inr (into', emptied) \<longrightarrow> standing_of into' nid = Suspended)"
proof -
  have "reg_ok reg' \<and> suspended reg' nid" using assms(3)
  proof (induction rule: rtranclp_induct)
    case base
    then show ?case using assms(1,2) by (simp add: suspended_def)
  next
    case (step y z)
    then show ?case using reg_step_ok by blast
  qed
  then have ok: "reg_ok reg'" and s: "standing_of reg' nid = Suspended" by (simp_all add: suspended_def)
  obtain r where r: "rec_of reg' nid = Some r" "mr_standing r = Suspended"
    using s by (auto simp: standing_of_def split: option.splits)
  have "standing_of into' nid = Suspended" if "reg_ok into" "absorb reg' into = Inr (into', emptied)" for into into' emptied
    using absorb_spec(4) [OF that(1) ok that(2) r(1)] r(2) by (simp add: standing_of_def)
  moreover have "\<not> is_ok (release nids reg')" if "nid \<in> set nids" for nids
    using release_spec(3) [OF ok, of nids] r that by (force simp: is_ok_iff)
  ultimately show ?thesis using ok s r set_names_where [OF ok]
    by (auto simp: attesters_def seated_members_def leader_candidates_def counts_def leader_eligible_def)
qed

theorem suspension_is_final_witness:
  "''b'' \<notin> set (attesters demo_reg) \<and> \<not> is_ok (release [''b''] demo_reg)"
  using suspension_is_final [OF demo_reg_facts(1) demo_reg_facts(3) rtranclp.rtrancl_refl] by simp

text \<open>Founding a grid conserves the record. When a cohort is released from its grid and founds
  another, every mover was an attester without a fault, the donor keeps every other member
  unchanged, the new grid holds exactly the cohort with every counter it had, each record naming
  the donor, and all of them vote, so the new grid's quorum is that of its whole membership.\<close>

theorem founding_conserves_records:
  assumes "reg_ok reg" "release nids reg = Inr (moved, reg')"
    and "new = found gid moved (rg_id reg) epoch threshold forgiveness"
  shows "reg_ok new \<and> reg_ok reg'
    \<and> (\<forall>n. rec_of reg' n = (if n \<in> set nids then None else rec_of reg n))
    \<and> (\<forall>n. rec_of new n = (if n \<in> set nids then map_option (\<lambda>r. r\<lparr>mr_founded_from := rg_id reg\<rparr>) (rec_of reg n) else None))
    \<and> attesters new = sort nids \<and> leader_candidates new = sort nids
    \<and> reg_quorum 2 3 new = max 1 (- (- (int (length nids) * 2) div 3))"
proof -
  note r = release_spec [OF assms(1,2)]
  have ids: "\<forall>n\<in>set (sort nids). mr_node_id (the (rec_of reg n)) = n"
    using r(3) rec_of_id [OF assms(1)] by force
  have "map mr_node_id moved = sort nids" using ids by (auto simp: r(1) intro!: map_idI)
  with r(2) have dist: "distinct (map mr_node_id moved)" by simp
  note f = found_spec [OF dist, of gid "rg_id reg" epoch threshold forgiveness, folded assms(3)]
  have rec: "rec_of new n = (if n \<in> set nids then map_option (\<lambda>r. r\<lparr>mr_founded_from := rg_id reg\<rparr>) (rec_of reg n) else None)" for n
    using f(3) [of n] find_rec [OF ids, of n] r(3) by (auto simp: r(1))
  have names: "names_where Q new = sort nids"
    if "\<And>r. mr_standing r = Attester \<Longrightarrow> mr_faults r = [] \<Longrightarrow> Q r" for Q
  proof (rule sorted_distinct_set_unique)
    show "set (names_where Q new) = set (sort nids)"
      using set_names_where [OF f(1)] rec r(3) that by fastforce
  qed (use r(2) distinct_names_where [OF f(1)] in \<open>simp_all add: names_where_def\<close>)
  have a: "attesters new = sort nids" "leader_candidates new = sort nids"
    using names [of counts] names [of leader_eligible]
    by (simp_all add: attesters_def leader_candidates_def counts_def leader_eligible_def)
  show ?thesis using f(1) r(4,5) rec a by (simp add: reg_quorum_def)
qed

theorem founding_conserves_records_witness:
  "\<exists>moved reg'. release [''a''] demo_reg = Inr (moved, reg') \<and> attesters (found ''h'' moved ''g'' 2 2 0) = [''a'']"
proof -
  have "is_ok (release [''a''] demo_reg)" by code_simp
  then obtain moved reg' where r: "release [''a''] demo_reg = Inr (moved, reg')" by (auto simp: is_ok_iff)
  have "rg_id demo_reg = ''g''" by (simp add: demo_reg_def)
  then show ?thesis
    using founding_conserves_records [OF demo_reg_facts(1) r refl, of "''h''" 2 2 0] r by simp
qed

text \<open>A merge loses nobody. When one grid absorbs another, every member of either is in the
  result with its standing, counters, faults and miss count unchanged, the moved records name the
  grid they came from, and the absorbed register is empty; the same two grids cannot both list a
  node, and grids at different epochs are refused.\<close>

theorem merge_loses_nobody:
  assumes "reg_ok into" "reg_ok other" "absorb other into = Inr (merged, emptied)"
  shows "reg_ok merged \<and> rg_epoch merged = rg_epoch into \<and> rg_epoch other = rg_epoch into \<and> rg_members emptied = []
    \<and> (\<forall>n. rec_of into n = None \<or> rec_of other n = None)
    \<and> (\<forall>n. member_view merged n = (case rec_of other n of
          Some r \<Rightarrow> (Some (r\<lparr>mr_founded_from := rg_id other\<rparr>), miss_count other n)
        | None \<Rightarrow> member_view into n))"
proof -
  note a = absorb_spec [OF assms]
  have "rec_of into n = None \<or> rec_of other n = None" for n
    using a(4) [of n] by (cases "rec_of other n") auto
  moreover have "member_view merged n = (case rec_of other n of
          Some r \<Rightarrow> (Some (r\<lparr>mr_founded_from := rg_id other\<rparr>), miss_count other n)
        | None \<Rightarrow> member_view into n)" for n
    using a(4,5) [of n] by (auto simp: member_view_def split: option.split)
  moreover have "rg_epoch other = rg_epoch into" using assms(3) by (simp add: absorb_def split: if_splits)
  ultimately show ?thesis using a by blast
qed

theorem merge_loses_nobody_witness:
  "\<exists>merged emptied. absorb demo_reg (reg_new ''h'' 2 2 0) = Inr (merged, emptied)
    \<and> member_view merged ''b'' = (Some ((new_member ''b'' 0)\<lparr>mr_standing := Suspended, mr_faults := [1], mr_founded_from := ''g''\<rparr>), 0)"
proof -
  have "is_ok (absorb demo_reg (reg_new ''h'' 2 2 0))" by code_simp
  then obtain m e where a: "absorb demo_reg (reg_new ''h'' 2 2 0) = Inr (m, e)" by (auto simp: is_ok_iff)
  have "rec_of demo_reg ''b'' = Some ((new_member ''b'' 0)\<lparr>mr_standing := Suspended, mr_faults := [1]\<rparr>)"
    "miss_count demo_reg ''b'' = 0" "rg_id demo_reg = ''g''"
    by (simp_all add: demo_reg_def rec_of_def miss_count_def)
  then show ?thesis using merge_loses_nobody [OF reg_ok_new demo_reg_facts(1) a] a by simp
qed

text \<open>A stored register resumes exactly. Loading a register's dump gives one with the same
  members, miss counters, epoch and parameters and the same root, and one more ceremony applied to
  both leaves every member with the same record and miss count.\<close>

theorem register_dump_resumes:
  assumes "reg_ok reg"
  shows "same_register (reg_load (reg_dump reg)) reg \<and> reg_root P (reg_load (reg_dump reg)) = reg_root P reg
    \<and> (\<forall>roll faulted a b. reg_apply roll faulted (reg_load (reg_dump reg)) = Inr a \<longrightarrow> reg_apply roll faulted reg = Inr b
        \<longrightarrow> (\<forall>n. member_view a n = member_view b n) \<and> rg_epoch a = rg_epoch b)"
proof -
  let ?l = "reg_load (reg_dump reg)"
  have l: "reg_ok ?l" "same_register ?l reg" using load_dump [OF assms] by simp_all
  have "(\<forall>n. member_view a n = member_view b n) \<and> rg_epoch a = rg_epoch b"
    if "reg_apply roll faulted ?l = Inr a" "reg_apply roll faulted reg = Inr b" for roll faulted a b
    using reg_apply_view [OF that(1)] reg_apply_view [OF that(2)] l(2) same_register_view [OF l(2)]
    by (simp add: same_register_def reg_head_def)
  then show ?thesis using l same_register_root [OF l(2,1) assms] by blast
qed

theorem register_dump_resumes_witness: "reg_root sample_prims (reg_load (reg_dump demo_reg)) = reg_root sample_prims demo_reg"
  using register_dump_resumes [OF demo_reg_facts(1)] by blast

text \<open>What the register root leaves out. Registers that agree on the members, the grid id and
  the epoch have the same root whatever their threshold, forgiveness and miss counters, and the
  same next roll then leaves one with a vote the other does not have: a root alone does not fix the
  next standing.\<close>

theorem root_omits_threshold_and_misses:
  "\<exists>a b roll a' b'. reg_ok a \<and> reg_ok b \<and> (\<forall>P. reg_root P a = reg_root P b)
    \<and> reg_apply roll [] a = Inr a' \<and> reg_apply roll [] b = Inr b'
    \<and> attesters a' = [''a''] \<and> attesters b' = []"
proof -
  let ?a = "\<lparr>rg_id = ''g'', rg_epoch = 0, rg_threshold = 1, rg_forgiveness = 0,
     rg_members = [(''a'', new_member ''a'' 0)], rg_misses = []\<rparr>"
  let ?b = "?a\<lparr>rg_threshold := 40\<rparr>"
  have ok: "reg_ok ?a" "reg_ok ?b" by (simp_all add: reg_ok_def)
  have root: "\<forall>P. reg_root P ?a = reg_root P ?b" by (simp add: reg_root_def)
  have run: "(case reg_apply (demo_roll 0) [] ?a of Inl _ \<Rightarrow> False | Inr a' \<Rightarrow> attesters a' = [''a''])"
    "(case reg_apply (demo_roll 0) [] ?b of Inl _ \<Rightarrow> False | Inr b' \<Rightarrow> attesters b' = [])"
    by code_simp+
  then obtain a' b' where "reg_apply (demo_roll 0) [] ?a = Inr a'" "reg_apply (demo_roll 0) [] ?b = Inr b'"
      "attesters a' = [''a'']" "attesters b' = []"
    by (auto split: sum.splits)
  then show ?thesis using ok root by blast
qed

end
