(* ===== verification/Locality.thy ===== *)
theory Locality
  imports Ledger "HOL-Library.Product_Lexorder"
begin

text \<open>
  The topology of \<open>chain/locality.py\<close>: which grids exist, which nullifier partition each owns
  and who is seated where, with the operations that lay it out, seat a newcomer, found a grid
  and merge one away, and the enrolment claims of the same file.

  \<open>topology\<close> is \<open>Topology\<close>; its three dictionaries are association lists in insertion order.
  \<open>topo_ok\<close> is its invariant: the indices of the grids are exactly 0 to K-1, and the member
  lists and the assignment say the same. An operation that raises yields the exception; the
  half-changed object a raise inside \<open>found_grid\<close> leaves behind is not a state of the model.
\<close>

section \<open>The topology\<close>

record grid_spec =
  gs_grid_id :: string
  gs_region :: string
  gs_index :: nat

record topology =
  tp_grids :: "(string \<times> grid_spec) list"
  tp_assign :: "(string \<times> string) list"
  tp_members :: "(string \<times> string list) list"

definition items_sorted :: "(string \<times> 'v) list \<Rightarrow> (string \<times> 'v) list" where
  "items_sorted d = sort_key fst d"

definition add_member :: "string \<Rightarrow> string \<Rightarrow> (string \<times> string list) list \<Rightarrow> exn + (string \<times> string list) list" where
  "add_member gid nid d =
     (case map_of d gid of None \<Rightarrow> Inl KeyError | Some ms \<Rightarrow> Inr (AList.update gid (ms @ [nid]) d))"

definition topo_new :: "grid_spec list \<Rightarrow> (string \<times> string) list \<Rightarrow> exn + topology" where
  "topo_new grids assignment =
     (let gs = foldl (\<lambda>d g. AList.update (gs_grid_id g) g d) [] grids
      in bindR (foldR (\<lambda>d (nid, gid). add_member gid nid d) (map (\<lambda>(gid, _). (gid, [])) gs) (items_sorted assignment))
           (\<lambda>ms. Inr \<lparr>tp_grids = gs, tp_assign = assignment, tp_members = ms\<rparr>))"

definition grid_name :: "string \<Rightarrow> nat \<Rightarrow> string" where
  "grid_name region j = region @ ''-'' @ str_nat j"

definition by_region :: "(string \<times> string) list \<Rightarrow> (string \<times> string list) list" where
  "by_region node_regions =
     foldl (\<lambda>d (nid, region). AList.update region ((case map_of d region of None \<Rightarrow> [] | Some ns \<Rightarrow> ns) @ [nid]) d)
       [] (items_sorted node_regions)"

definition n_grids :: "nat \<Rightarrow> int \<Rightarrow> nat" where
  "n_grids k gsize = nat (max 1 (- (- int k div gsize)))"

text \<open>One region: its nodes in the order of a keyed hash, dealt round-robin into its grids.\<close>

definition deal_region :: "prims \<Rightarrow> string \<Rightarrow> int
    \<Rightarrow> (string \<times> string) list \<times> (string \<times> string) list \<Rightarrow> string \<times> string list
    \<Rightarrow> (string \<times> string) list \<times> (string \<times> string) list" where
  "deal_region P seed gsize = (\<lambda>(specs, assignment) (region, nodes).
     let k = n_grids (length nodes) gsize;
         region_grids = map (grid_name region) [0..<k];
         ordered = sort_key (\<lambda>n. h_hex P ''enrol'' [PStr seed, PStr n]) nodes
     in (specs @ map (\<lambda>gid. (region, gid)) region_grids,
         foldl (\<lambda>a (i, nid). AList.update nid (region_grids ! (i mod k)) a) assignment (enumerate 0 ordered)))"

definition topo_build :: "prims \<Rightarrow> (string \<times> string) list \<Rightarrow> int \<Rightarrow> string \<Rightarrow> exn + topology" where
  "topo_build P node_regions gsize seed =
     (if gsize = 0 \<and> node_regions \<noteq> [] then Inl ZeroDivisionError
      else let (specs, assignment) = foldl (deal_region P seed gsize) ([], []) (items_sorted (by_region node_regions));
               grids = map (\<lambda>(i, region, gid). \<lparr>gs_grid_id = gid, gs_region = region, gs_index = i\<rparr>)
                         (enumerate 0 (sort specs))
           in topo_new grids assignment)"

definition grids_in :: "topology \<Rightarrow> string \<Rightarrow> string list" where
  "grids_in t region = sort (map gs_grid_id (filter (\<lambda>g. gs_region g = region) (map snd (tp_grids t))))"

definition assign_newcomer :: "prims \<Rightarrow> string \<Rightarrow> string \<Rightarrow> string \<Rightarrow> (string \<Rightarrow> bool) option \<Rightarrow> topology
    \<Rightarrow> exn + (string \<times> topology)" where
  "assign_newcomer P nid region seed room_test t =
     (let candidates = grids_in t region
      in if candidates = [] then Inl ValueError
         else let cs = (case room_test of None \<Rightarrow> candidates | Some f \<Rightarrow> filter f candidates)
              in if cs = [] then Inl ValueError
                 else bindR (int16 (h_hex P ''enrol'' [PStr seed, PStr nid])) (\<lambda>n.
                   let gid = cs ! nat (n mod int (length cs))
                   in bindR (add_member gid nid (tp_members t)) (\<lambda>ms.
                        Inr (gid, t\<lparr>tp_assign := AList.update nid gid (tp_assign t), tp_members := ms\<rparr>))))"

definition move_member :: "string \<Rightarrow> string \<Rightarrow> topology \<Rightarrow> string \<Rightarrow> exn + topology" where
  "move_member donor_id new_id t nid =
     (if map_of (tp_assign t) nid \<noteq> Some donor_id then Inl ValueError
      else case map_of (tp_members t) donor_id of
        None \<Rightarrow> Inl KeyError
      | Some ms \<Rightarrow> if nid \<notin> set ms then Inl ValueError
          else bindR (add_member new_id nid (AList.update donor_id (remove1 nid ms) (tp_members t))) (\<lambda>ms'.
            Inr (t\<lparr>tp_assign := AList.update nid new_id (tp_assign t), tp_members := ms'\<rparr>)))"

definition found_grid :: "string \<Rightarrow> string \<Rightarrow> string list \<Rightarrow> topology \<Rightarrow> exn + (grid_spec \<times> topology)" where
  "found_grid donor_id new_id movers t =
     (if map_of (tp_grids t) new_id \<noteq> None then Inl ValueError
      else case map_of (tp_grids t) donor_id of
        None \<Rightarrow> Inl KeyError
      | Some donor \<Rightarrow>
          let spec = \<lparr>gs_grid_id = new_id, gs_region = gs_region donor, gs_index = length (tp_grids t)\<rparr>
          in bindR (foldR (move_member donor_id new_id)
                 (t\<lparr>tp_grids := AList.update new_id spec (tp_grids t), tp_members := AList.update new_id [] (tp_members t)\<rparr>)
                 (sort movers))
               (\<lambda>t'. Inr (spec, t')))"

definition renumber :: "(string \<times> grid_spec) list \<Rightarrow> (string \<times> grid_spec) list" where
  "renumber gs = foldl (\<lambda>d (i, gid, g). AList.update gid \<lparr>gs_grid_id = gid, gs_region = gs_region g, gs_index = i\<rparr> d)
     gs (enumerate 0 (sort_key (\<lambda>(gid, g). gs_index g) (items_sorted gs)))"

definition merge_grid :: "string \<Rightarrow> string \<Rightarrow> topology \<Rightarrow> exn + topology" where
  "merge_grid from_id into_id t =
     (if from_id = into_id then Inl ValueError
      else case (map_of (tp_grids t) from_id, map_of (tp_grids t) into_id) of
        (Some f, Some g) \<Rightarrow>
          if length (tp_grids t) < 2 then Inl ValueError
          else if gs_region f \<noteq> gs_region g then Inl ValueError
          else (case (map_of (tp_members t) from_id, map_of (tp_members t) into_id) of
             (Some fm, Some im) \<Rightarrow>
               Inr \<lparr>tp_grids = renumber (AList.delete from_id (tp_grids t)),
                    tp_assign = foldl (\<lambda>a nid. AList.update nid into_id a) (tp_assign t) fm,
                    tp_members = AList.delete from_id (AList.update into_id (sort (im @ fm)) (tp_members t))\<rparr>
           | _ \<Rightarrow> Inl KeyError)
      | _ \<Rightarrow> Inl ValueError)"

text \<open>The loop of \<open>next_grid_id\<close> ends because \<open>used\<close> is finite: one more step than there are
  names in use is enough fuel.\<close>

fun first_free :: "nat \<Rightarrow> string \<Rightarrow> string set \<Rightarrow> nat \<Rightarrow> nat option" where
  "first_free 0 region used i = None"
| "first_free (Suc n) region used i =
     (if grid_name region i \<in> used then first_free n region used (i + 1) else Some i)"

definition names_in :: "topology \<Rightarrow> string \<Rightarrow> string set" where
  "names_in t region = set (map gs_grid_id (filter (\<lambda>g. gs_region g = region) (map snd (tp_grids t))))"

definition next_grid_id :: "topology \<Rightarrow> string \<Rightarrow> string option" where
  "next_grid_id t region =
     map_option (grid_name region) (first_free (Suc (length (tp_grids t))) region (names_in t region) 0)"

section \<open>Views\<close>

definition topo_members :: "topology \<Rightarrow> string \<Rightarrow> exn + string list" where
  "topo_members t gid = (case map_of (tp_members t) gid of None \<Rightarrow> Inl KeyError | Some ms \<Rightarrow> Inr ms)"

definition grid_of :: "topology \<Rightarrow> string \<Rightarrow> exn + string" where
  "grid_of t nid = (case map_of (tp_assign t) nid of None \<Rightarrow> Inl KeyError | Some g \<Rightarrow> Inr g)"

definition partition_of :: "topology \<Rightarrow> string \<Rightarrow> exn + nat" where
  "partition_of t gid = (case map_of (tp_grids t) gid of None \<Rightarrow> Inl KeyError | Some g \<Rightarrow> Inr (gs_index g))"

definition n_partitions :: "topology \<Rightarrow> nat" where
  "n_partitions t = length (tp_grids t)"

definition grid_ids :: "topology \<Rightarrow> string list" where
  "grid_ids t = sort (map fst (tp_grids t))"

definition needs_split :: "topology \<Rightarrow> string \<Rightarrow> int \<Rightarrow> exn + bool" where
  "needs_split t gid gsize = bindR (topo_members t gid) (\<lambda>ms. Inr (2 * gsize < int (length ms)))"

definition needs_merge :: "topology \<Rightarrow> string \<Rightarrow> int \<Rightarrow> int option \<Rightarrow> exn + bool" where
  "needs_merge t gid gsize live =
     bindR (case live of None \<Rightarrow> bindR (topo_members t gid) (\<lambda>ms. Inr (int (length ms))) | Some n \<Rightarrow> Inr n)
       (\<lambda>n. Inr (n * 2 < gsize))"

section \<open>Enrolment claims\<close>

record enrolment =
  en_node_id :: string
  en_grid_id :: string
  en_epoch :: int
  en_public_hex :: string
  en_signature :: string

definition enrolment_message :: "prims \<Rightarrow> string \<Rightarrow> string \<Rightarrow> int \<Rightarrow> exn + bytes" where
  "enrolment_message P node_id grid_id epoch = h_bytes P ''enrolment'' [PStr node_id, PStr grid_id, PInt epoch] 32"

definition enrolment_verify :: "prims \<Rightarrow> enrolment \<Rightarrow> bool" where
  "enrolment_verify P e =
     verify_msg P (en_public_hex e) (enrolment_message P (en_node_id e) (en_grid_id e) (en_epoch e)) (en_signature e)"

definition enrol_step :: "prims \<Rightarrow> ((string \<times> int) \<rightharpoonup> enrolment) \<times> (string \<times> enrolment \<times> enrolment) list \<Rightarrow> enrolment
    \<Rightarrow> ((string \<times> int) \<rightharpoonup> enrolment) \<times> (string \<times> enrolment \<times> enrolment) list" where
  "enrol_step P = (\<lambda>(seen, faults) e.
     if \<not> enrolment_verify P e then (seen, faults)
     else case seen (en_node_id e, en_epoch e) of
            None \<Rightarrow> (seen((en_node_id e, en_epoch e) \<mapsto> e), faults)
          | Some prior \<Rightarrow> if en_grid_id prior \<noteq> en_grid_id e then (seen, faults @ [(en_node_id e, prior, e)])
                          else (seen, faults))"

definition find_double_enrolments :: "prims \<Rightarrow> enrolment list \<Rightarrow> (string \<times> enrolment \<times> enrolment) list" where
  "find_double_enrolments P es = snd (foldl (enrol_step P) (Map.empty, []) es)"

section \<open>The invariant\<close>

definition idx_ok :: "(string \<times> grid_spec) list \<Rightarrow> bool" where
  "idx_ok gs \<longleftrightarrow> distinct (map (\<lambda>(gid, g). gs_index g) gs) \<and> set (map (\<lambda>(gid, g). gs_index g) gs) = {0..<length gs}"

definition topo_ok :: "topology \<Rightarrow> bool" where
  "topo_ok t \<longleftrightarrow> distinct (keys (tp_grids t)) \<and> (\<forall>(gid, g)\<in>set (tp_grids t). gs_grid_id g = gid) \<and> idx_ok (tp_grids t)
     \<and> dom (map_of (tp_members t)) = dom (map_of (tp_grids t))
     \<and> (\<forall>gid ms. map_of (tp_members t) gid = Some ms \<longrightarrow> distinct ms \<and> set ms = {n. map_of (tp_assign t) n = Some gid})
     \<and> ran (map_of (tp_assign t)) \<subseteq> dom (map_of (tp_grids t))"

lemma str_nat_no_dash: "CHR ''-'' \<notin> set (str_nat n)"
proof (induction n rule: str_nat.induct)
  case (1 n)
  have d: "digit_char k \<noteq> CHR ''-''" if "k < 10" for k
  proof -
    have "of_char (digit_char k) \<noteq> (of_char (CHR ''-'') :: nat)" using that by (simp add: of_char_digit_char)
    then show ?thesis by metis
  qed
  show ?case
  proof (cases "n < 10")
    case True
    then show ?thesis using d [of n] by (subst str_nat.simps) simp
  next
    case False
    then show ?thesis using 1 d [of "n mod 10"] by (subst str_nat.simps) simp
  qed
qed

lemma split_last_unique:
  assumes "a @ c # x = b @ c # y" "c \<notin> set x" "c \<notin> set y"
  shows "a = b \<and> x = y"
proof -
  have tw: "takeWhile (\<lambda>z. z \<noteq> c) (zs @ c # as) = zs" if "c \<notin> set zs" for zs as :: "'a list"
    using that by (induction zs) auto
  have "rev (a @ c # x) = rev (b @ c # y)" by (simp only: assms(1))
  then have r: "rev x @ c # rev a = rev y @ c # rev b"
    by (simp only: rev.simps rev_append append.simps append_assoc)
  then have "rev x = rev y" using tw [of "rev x" "rev a"] tw [of "rev y" "rev b"] assms(2,3) by simp
  then show ?thesis using r by simp
qed

lemma grid_name_inj [simp]: "grid_name r i = grid_name r' j \<longleftrightarrow> r = r' \<and> i = j"
  using split_last_unique [of r "CHR ''-''" "str_nat i" r' "str_nat j"] str_nat_no_dash
  by (auto simp: grid_name_def)

lemma add_member_Inr:
  "add_member gid nid d = Inr d' \<longleftrightarrow> (\<exists>ms. map_of d gid = Some ms \<and> d' = AList.update gid (ms @ [nid]) d)"
  by (auto simp: add_member_def split: option.splits)

lemma add_members:
  assumes "\<forall>(n, gid)\<in>set xs. gid \<in> dom (map_of d)"
  shows "\<exists>ms. foldR (\<lambda>d (nid, gid). add_member gid nid d) d xs = Inr ms
    \<and> (\<forall>gid. map_of ms gid = map_option (\<lambda>l. l @ map fst (filter (\<lambda>(n, g). g = gid) xs)) (map_of d gid))"
  using assms
proof (induction xs arbitrary: d)
  case Nil
  then show ?case by (simp add: option.map_ident)
next
  case (Cons x xs)
  obtain n g where x: "x = (n, g)" by force
  with Cons.prems obtain l where l: "map_of d g = Some l" by auto
  let ?d = "AList.update g (l @ [n]) d"
  have "\<forall>(n, gid)\<in>set xs. gid \<in> dom (map_of ?d)" using Cons.prems by auto
  from Cons.IH [OF this] obtain ms where ms: "foldR (\<lambda>d (nid, gid). add_member gid nid d) ?d xs = Inr ms"
      "\<forall>gid. map_of ms gid = map_option (\<lambda>l. l @ map fst (filter (\<lambda>(n, g). g = gid) xs)) (map_of ?d gid)"
    by blast
  have "add_member g n d = Inr ?d" using l by (simp add: add_member_def)
  then show ?case using ms l by (intro exI [of _ ms]) (auto simp: x)
qed

lemma foldl_update_specs:
  assumes "distinct (keys acc @ map gs_grid_id grids)"
  shows "foldl (\<lambda>d g. AList.update (gs_grid_id g) g d) acc grids = acc @ map (\<lambda>g. (gs_grid_id g, g)) grids"
  using assms by (induction grids arbitrary: acc) (simp_all add: update_fresh keys_def)

lemma items_sorted_set [simp]: "set (items_sorted d) = set d" "length (items_sorted d) = length d"
  by (simp_all add: items_sorted_def)

lemma items_sorted_keys [simp]: "distinct (map fst (items_sorted d)) = distinct (map fst d)"
proof -
  have "mset (map fst (items_sorted d)) = mset (map fst d)" by (simp add: items_sorted_def)
  then show ?thesis by (rule mset_eq_imp_distinct_iff)
qed

lemma topo_new_ok:
  assumes "distinct (map gs_grid_id grids)" "map gs_index grids = [0..<length grids]" "distinct (keys assignment)"
    "\<forall>(n, gid)\<in>set assignment. gid \<in> set (map gs_grid_id grids)"
  shows "\<exists>t. topo_new grids assignment = Inr t \<and> topo_ok t \<and> tp_grids t = map (\<lambda>g. (gs_grid_id g, g)) grids
    \<and> tp_assign t = assignment"
proof -
  let ?gs = "map (\<lambda>g. (gs_grid_id g, g)) grids"
  have gs: "foldl (\<lambda>d g. AList.update (gs_grid_id g) g d) [] grids = ?gs"
    using foldl_update_specs [of "[]" grids] assms(1) by (simp add: keys_def)
  let ?d = "map (\<lambda>(gid, _). (gid, [])) ?gs :: (string \<times> string list) list"
  have d: "map_of ?d gid = (if gid \<in> set (map gs_grid_id grids) then Some [] else None)" for gid
    by (induction grids) auto
  have dom: "dom (map_of ?gs) = set (map gs_grid_id grids)" by (simp add: dom_map_of_conv_image_fst image_image)
  have "\<forall>(n, gid)\<in>set (items_sorted assignment). gid \<in> dom (map_of ?d)" using assms(4) d by auto
  from add_members [OF this] obtain ms where
    ms: "foldR (\<lambda>d (nid, gid). add_member gid nid d) ?d (items_sorted assignment) = Inr ms"
      "\<And>gid. map_of ms gid = map_option (\<lambda>l. l @ map fst (filter (\<lambda>(n, g). g = gid) (items_sorted assignment))) (map_of ?d gid)"
    by blast
  let ?t = "\<lparr>tp_grids = ?gs, tp_assign = assignment, tp_members = ms\<rparr>"
  have members: "distinct l \<and> set l = {n. map_of assignment n = Some gid}" if "map_of ms gid = Some l" for gid l
  proof -
    have l: "l = map fst (filter (\<lambda>(n, g). g = gid) (items_sorted assignment))" using that ms(2) d by (auto split: if_splits)
    have "distinct (map fst (items_sorted assignment))" using assms(3) by (simp add: keys_def)
    then have "distinct l" unfolding l by (rule distinct_map_filter)
    moreover have "n \<in> set l \<longleftrightarrow> map_of assignment n = Some gid" for n
      using map_of_eq_Some_iff [of assignment n gid] assms(3) by (force simp: l keys_def)
    ultimately show ?thesis by blast
  qed
  have idx: "map (\<lambda>(gid, g). gs_index g) ?gs = [0..<length grids]" using assms(2) by (simp add: case_prod_beta o_def)
  have 1: "dom (map_of ms) = dom (map_of ?gs)" unfolding dom using ms(2) d by (auto simp: dom_def split: if_splits)
  have 2: "ran (map_of assignment) \<subseteq> dom (map_of ?gs)"
    using assms(4) unfolding dom by (fastforce simp: ran_def dest: map_of_SomeD)
  have 3: "distinct (keys ?gs)" using assms(1) by (simp add: keys_def o_def)
  have 4: "idx_ok ?gs" unfolding idx_ok_def idx by simp
  have 5: "\<forall>(gid, g)\<in>set ?gs. gs_grid_id g = gid" by simp
  have 6: "\<forall>gid l. map_of ms gid = Some l \<longrightarrow> distinct l \<and> set l = {n. map_of assignment n = Some gid}"
    using members by blast
  have "topo_ok ?t" unfolding topo_ok_def topology.simps by (intro conjI 1 2 3 4 5 6)
  moreover have "topo_new grids assignment = Inr ?t"
    unfolding topo_new_def gs Let_def using ms(1) by simp
  ultimately show ?thesis by simp
qed

section \<open>Laying out the grids\<close>

definition deal_ok :: "string set \<Rightarrow> (string \<times> string) list \<times> (string \<times> string) list \<Rightarrow> bool" where
  "deal_ok regions sa \<longleftrightarrow> distinct (map snd (fst sa)) \<and> distinct (keys (snd sa))
     \<and> (\<forall>(region, gid)\<in>set (fst sa). region \<in> regions \<and> (\<exists>j. gid = grid_name region j))
     \<and> (\<forall>(nid, gid)\<in>set (snd sa). gid \<in> snd ` set (fst sa))"

lemma foldl_update_range:
  assumes "distinct (keys a)" "\<forall>(n, g)\<in>set a. g \<in> G" "\<forall>x\<in>set xs. h x \<in> G"
  shows "distinct (keys (foldl (\<lambda>a x. AList.update (f x) (h x) a) a xs))
    \<and> (\<forall>(n, g)\<in>set (foldl (\<lambda>a x. AList.update (f x) (h x) a) a xs). g \<in> G)"
  using assms
proof (induction xs arbitrary: a)
  case Nil
  then show ?case by simp
next
  case (Cons x xs)
  have "\<forall>(n, g)\<in>set (AList.update (f x) (h x) a). g \<in> G"
    using Cons.prems(2,3) by (auto dest!: subsetD [OF set_update_subset])
  from Cons.IH [OF distinct_keys_update [OF Cons.prems(1)] this] Cons.prems(3) show ?case by simp
qed

lemma n_grids_pos: "0 < n_grids k g"
  by (simp add: n_grids_def)

lemma deal_region_ok:
  assumes "deal_ok regions sa" "region \<notin> regions"
  shows "deal_ok (insert region regions) (deal_region P seed gsize sa (region, nodes))"
proof -
  obtain specs a where sa: "sa = (specs, a)" by force
  let ?k = "n_grids (length nodes) gsize"
  let ?names = "map (grid_name region) [0..<?k]"
  let ?ordered = "sort_key (\<lambda>n. h_hex P ''enrol'' [PStr seed, PStr n]) nodes"
  have fst': "fst (deal_region P seed gsize sa (region, nodes)) = specs @ map (\<lambda>gid. (region, gid)) ?names"
    by (simp add: sa deal_region_def Let_def)
  have snd': "snd (deal_region P seed gsize sa (region, nodes))
      = foldl (\<lambda>a x. AList.update (snd x) (?names ! (fst x mod ?k)) a) a (enumerate 0 ?ordered)"
    by (simp add: sa deal_region_def Let_def case_prod_unfold)
  have names: "?names ! (i mod ?k) \<in> set ?names" for i
    using n_grids_pos [of "length nodes" gsize] by (intro nth_mem) simp
  have d: "distinct (keys a)" "\<forall>(n, g)\<in>set a. g \<in> snd ` set specs \<union> set ?names"
    using assms(1) by (auto simp: deal_ok_def sa)
  have A: "distinct (keys (snd (deal_region P seed gsize sa (region, nodes))))
    \<and> (\<forall>(n, g)\<in>set (snd (deal_region P seed gsize sa (region, nodes))). g \<in> snd ` set specs \<union> set ?names)"
    unfolding snd' by (rule foldl_update_range [OF d]) (use names in blast)
  have img: "snd ` set (specs @ map (\<lambda>gid. (region, gid)) ?names) = snd ` set specs \<union> set ?names"
    by (simp add: image_Un image_image)
  have B: "distinct (map snd (specs @ map (\<lambda>gid. (region, gid)) ?names))"
  proof -
    have "distinct ?names" by (simp add: distinct_map inj_on_def)
    moreover have "snd ` set specs \<inter> set ?names = {}"
      using assms by (force simp: deal_ok_def sa)
    ultimately show ?thesis using assms(1) by (simp add: deal_ok_def sa o_def)
  qed
  have C: "\<forall>(r, gid)\<in>set (specs @ map (\<lambda>gid. (region, gid)) ?names). r \<in> insert region regions \<and> (\<exists>j. gid = grid_name r j)"
    using assms(1) by (auto simp: deal_ok_def sa)
  show ?thesis unfolding deal_ok_def fst' img using A B C by blast
qed

lemma deal_regions_ok:
  assumes "deal_ok regions sa" "distinct (map fst rs)" "regions \<inter> set (map fst rs) = {}"
  shows "deal_ok (regions \<union> set (map fst rs)) (foldl (deal_region P seed gsize) sa rs)"
  using assms
proof (induction rs arbitrary: sa regions)
  case Nil
  then show ?case by simp
next
  case (Cons r rs)
  obtain region nodes where r: "r = (region, nodes)" by force
  have "deal_ok (insert region regions) (deal_region P seed gsize sa r)"
    unfolding r by (rule deal_region_ok) (use Cons.prems r in auto)
  from Cons.IH [OF this] Cons.prems show ?case by (auto simp: r insert_commute)
qed

lemma distinct_by_region: "distinct (keys (by_region nr))"
proof -
  have "distinct (keys d) \<Longrightarrow> distinct (keys (foldl (\<lambda>d (nid, region).
      AList.update region ((case map_of d region of None \<Rightarrow> [] | Some ns \<Rightarrow> ns) @ [nid]) d) d xs))" for d xs
    by (induction xs arbitrary: d) (auto simp: distinct_keys_update)
  from this [of "[]"] show ?thesis by (simp add: by_region_def)
qed

lemma topo_build_ok:
  assumes "gsize \<noteq> 0"
  shows "\<exists>t. topo_build P node_regions gsize seed = Inr t \<and> topo_ok t"
proof -
  obtain specs a where sa: "foldl (deal_region P seed gsize) ([], []) (items_sorted (by_region node_regions)) = (specs, a)"
    by force
  have "deal_ok ({} \<union> set (map fst (items_sorted (by_region node_regions)))) (specs, a)"
    unfolding sa [symmetric] by (rule deal_regions_ok) (use distinct_by_region in \<open>auto simp: deal_ok_def keys_def\<close>)
  then have ok: "distinct (map snd specs)" "distinct (keys a)" "\<forall>(nid, gid)\<in>set a. gid \<in> snd ` set specs"
    by (auto simp: deal_ok_def)
  let ?grids = "map (\<lambda>(i, region, gid). \<lparr>gs_grid_id = gid, gs_region = region, gs_index = i\<rparr>) (enumerate 0 (sort specs))"
  have ids: "map gs_grid_id ?grids = map snd (sort specs)"
  proof (rule nth_equalityI)
    show "length (map gs_grid_id ?grids) = length (map snd (sort specs))" by simp
    show "map gs_grid_id ?grids ! i = map snd (sort specs) ! i" if "i < length (map gs_grid_id ?grids)" for i
      using that by (simp add: nth_enumerate_eq case_prod_beta)
  qed
  have idx: "map gs_index ?grids = [0..<length ?grids]"
    by (rule nth_equalityI) (simp_all add: nth_enumerate_eq case_prod_beta)
  have "mset (map snd (sort specs)) = mset (map snd specs)" by simp
  then have "distinct (map snd (sort specs)) = distinct (map snd specs)" by (rule mset_eq_imp_distinct_iff)
  then have dist: "distinct (map gs_grid_id ?grids)" using ok(1) ids by simp
  have dom: "\<forall>(nid, gid)\<in>set a. gid \<in> set (map gs_grid_id ?grids)"
    using ok(3) unfolding ids by simp
  from topo_new_ok [OF dist idx ok(2) dom] show ?thesis
    using assms by (auto simp: topo_build_def sa)
qed

section \<open>Newcomers, foundings and merges\<close>

lemma topo_okD:
  assumes "topo_ok t"
  shows "distinct (keys (tp_grids t))" "idx_ok (tp_grids t)" "\<forall>(gid, g)\<in>set (tp_grids t). gs_grid_id g = gid"
    "map_of (tp_members t) gid = None \<longleftrightarrow> map_of (tp_grids t) gid = None"
    "map_of (tp_members t) gid = Some ms \<Longrightarrow> distinct ms \<and> set ms = {n. map_of (tp_assign t) n = Some gid}"
    "map_of (tp_assign t) n = Some gid \<Longrightarrow> \<exists>g. map_of (tp_grids t) gid = Some g"
proof -
  note ok = assms [unfolded topo_ok_def]
  then show "distinct (keys (tp_grids t))" "idx_ok (tp_grids t)" "\<forall>(gid, g)\<in>set (tp_grids t). gs_grid_id g = gid"
    by blast+
  have d: "dom (map_of (tp_members t)) = dom (map_of (tp_grids t))" using ok by blast
  then show "map_of (tp_members t) gid = None \<longleftrightarrow> map_of (tp_grids t) gid = None" by (metis domIff)
  show "map_of (tp_members t) gid = Some ms \<Longrightarrow> distinct ms \<and> set ms = {n. map_of (tp_assign t) n = Some gid}"
    using ok by blast
  have r: "ran (map_of (tp_assign t)) \<subseteq> dom (map_of (tp_grids t))" using ok by blast
  assume "map_of (tp_assign t) n = Some gid"
  then have "gid \<in> ran (map_of (tp_assign t))" by (rule ranI)
  then show "\<exists>g. map_of (tp_grids t) gid = Some g" using r by blast
qed

lemma topo_okI:
  assumes 1: "distinct (keys (tp_grids t))" and 2: "idx_ok (tp_grids t)"
    and 3: "\<forall>(gid, g)\<in>set (tp_grids t). gs_grid_id g = gid"
    and 4: "\<And>gid. map_of (tp_members t) gid = None \<longleftrightarrow> map_of (tp_grids t) gid = None"
    and 5: "\<And>gid ms. map_of (tp_members t) gid = Some ms \<Longrightarrow> distinct ms \<and> set ms = {n. map_of (tp_assign t) n = Some gid}"
    and 6: "\<And>n gid. map_of (tp_assign t) n = Some gid \<Longrightarrow> \<exists>g. map_of (tp_grids t) gid = Some g"
  shows "topo_ok t"
proof -
  have d: "dom (map_of (tp_members t)) = dom (map_of (tp_grids t))" using 4 by (simp add: set_eq_iff domIff)
  have r: "ran (map_of (tp_assign t)) \<subseteq> dom (map_of (tp_grids t))"
  proof
    fix gid assume "gid \<in> ran (map_of (tp_assign t))"
    then obtain n where "map_of (tp_assign t) n = Some gid" by (auto simp: ran_def)
    then show "gid \<in> dom (map_of (tp_grids t))" using 6 by blast
  qed
  show ?thesis unfolding topo_ok_def using 1 2 3 d 5 r by blast
qed

lemma grids_in_known: "topo_ok t \<Longrightarrow> gid \<in> set (grids_in t region) \<Longrightarrow> \<exists>g. map_of (tp_grids t) gid = Some g \<and> gs_region g = region"
  using topo_okD(1,3) by (force simp: grids_in_def keys_def)

lemma assign_newcomer_ok:
  assumes "topo_ok t" "map_of (tp_assign t) nid = None" "assign_newcomer P nid region seed f t = Inr (gid, t')"
  shows "topo_ok t' \<and> tp_grids t' = tp_grids t \<and> gid \<in> set (grids_in t region)
    \<and> (\<forall>rt. f = Some rt \<longrightarrow> rt gid) \<and> map_of (tp_assign t') = (map_of (tp_assign t))(nid \<mapsto> gid)"
proof -
  define cs where "cs = (case f of None \<Rightarrow> grids_in t region | Some g \<Rightarrow> filter g (grids_in t region))"
  from assms(3) obtain n ms where cs: "cs \<noteq> []" and gid: "gid = cs ! nat (n mod int (length cs))"
    and ms: "add_member gid nid (tp_members t) = Inr ms"
    and t': "t' = t\<lparr>tp_assign := AList.update nid gid (tp_assign t), tp_members := ms\<rparr>"
    unfolding assign_newcomer_def Let_def cs_def [symmetric] by (auto split: if_splits)
  have "nat (n mod int (length cs)) < length cs" using cs by (simp add: nat_less_iff)
  then have "gid \<in> set cs" using gid by simp
  then have in': "gid \<in> set (grids_in t region)" "\<forall>rt. f = Some rt \<longrightarrow> rt gid"
    by (auto simp: cs_def split: option.splits)
  obtain g where g: "map_of (tp_grids t) gid = Some g" using grids_in_known [OF assms(1) in'(1)] by blast
  obtain l where l: "map_of (tp_members t) gid = Some l" "ms = AList.update gid (l @ [nid]) (tp_members t)"
    using ms by (auto simp: add_member_Inr)
  note ok = topo_okD [OF assms(1)]
  have nin: "nid \<notin> set l" using ok(5) [OF l(1)] assms(2) by simp
  have "topo_ok t'"
  proof (rule topo_okI)
    fix gid' ms' assume a: "map_of (tp_members t') gid' = Some ms'"
    show "distinct ms' \<and> set ms' = {n. map_of (tp_assign t') n = Some gid'}"
    proof (cases "gid' = gid")
      case True
      then have "ms' = l @ [nid]" using a l(2) by (simp add: t')
      then show ?thesis using ok(5) [OF l(1)] nin True by (auto simp: t')
    next
      case False
      then have "map_of (tp_members t) gid' = Some ms'" using a l(2) by (simp add: t')
      from ok(5) [OF this] show ?thesis using False assms(2) by (auto simp: t')
    qed
  next
    fix n gid' assume "map_of (tp_assign t') n = Some gid'"
    then show "\<exists>g. map_of (tp_grids t') gid' = Some g" using ok(6) g by (auto simp: t' split: if_splits)
  next
    fix gid' show "(map_of (tp_members t') gid' = None) = (map_of (tp_grids t') gid' = None)"
      using ok(4) [of gid'] g l(2) by (simp add: t')
  qed (simp_all add: t' ok(1-3))
  then show ?thesis using in' by (simp add: t')
qed

lemma move_member_ok:
  assumes "topo_ok t" "donor_id \<noteq> new_id" "move_member donor_id new_id t nid = Inr t'"
  shows "topo_ok t' \<and> tp_grids t' = tp_grids t \<and> map_of (tp_assign t) nid = Some donor_id
    \<and> map_of (tp_assign t') = (map_of (tp_assign t))(nid \<mapsto> new_id)"
proof -
  obtain ms ms' where a: "map_of (tp_assign t) nid = Some donor_id" and d: "map_of (tp_members t) donor_id = Some ms"
    and m: "add_member new_id nid (AList.update donor_id (remove1 nid ms) (tp_members t)) = Inr ms'"
    and t': "t' = t\<lparr>tp_assign := AList.update nid new_id (tp_assign t), tp_members := ms'\<rparr>"
    using assms(3) by (auto simp: move_member_def split: if_splits option.splits)
  obtain l where l: "map_of (tp_members t) new_id = Some l"
      "ms' = AList.update new_id (l @ [nid]) (AList.update donor_id (remove1 nid ms) (tp_members t))"
    using m assms(2) by (auto simp: add_member_Inr)
  note ok = topo_okD [OF assms(1)]
  obtain g where g: "map_of (tp_grids t) new_id = Some g" using ok(4) [of new_id] l(1) by auto
  have look: "map_of (tp_members t') gid = (if gid = new_id then Some (l @ [nid]) else if gid = donor_id then Some (remove1 nid ms)
      else map_of (tp_members t) gid)" for gid
    by (simp add: t' l(2))
  have "topo_ok t'"
  proof (rule topo_okI)
    fix gid ms'' assume m: "map_of (tp_members t') gid = Some ms''"
    consider "gid = new_id" "ms'' = l @ [nid]" | "gid = donor_id" "ms'' = remove1 nid ms"
      | "gid \<noteq> new_id" "gid \<noteq> donor_id" "map_of (tp_members t) gid = Some ms''"
      using m look [of gid] assms(2) by (auto split: if_splits)
    then show "distinct ms'' \<and> set ms'' = {n. map_of (tp_assign t') n = Some gid}"
    proof cases
      case 1
      then show ?thesis using ok(5) [OF l(1)] a assms(2) by (auto simp: t')
    next
      case 2
      then show ?thesis using ok(5) [OF d] assms(2) by (auto simp: t')
    next
      case 3
      then show ?thesis using ok(5) [OF 3(3)] a by (auto simp: t')
    qed
  next
    fix gid show "(map_of (tp_members t') gid = None) = (map_of (tp_grids t') gid = None)"
      using ok(4) [of gid] look [of gid] l(1) d ok(4) [of donor_id] g by (auto simp: t')
  next
    fix n gid assume "map_of (tp_assign t') n = Some gid"
    then show "\<exists>g. map_of (tp_grids t') gid = Some g" using ok(6) g by (auto simp: t' split: if_splits)
  qed (simp_all add: t' ok(1-3))
  then show ?thesis using a by (simp add: t')
qed

lemma move_members_ok:
  assumes "foldR (move_member donor_id new_id) t xs = Inr t'" "topo_ok t" "donor_id \<noteq> new_id"
  shows "topo_ok t' \<and> tp_grids t' = tp_grids t
    \<and> (\<forall>n. map_of (tp_assign t') n = (if n \<in> set xs then Some new_id else map_of (tp_assign t) n))
    \<and> (\<forall>n\<in>set xs. map_of (tp_assign t) n = Some donor_id)"
  using assms
proof (induction xs arbitrary: t)
  case Nil
  then show ?case by simp
next
  case (Cons x xs)
  then obtain mid where mid: "move_member donor_id new_id t x = Inr mid" "foldR (move_member donor_id new_id) mid xs = Inr t'"
    by auto
  note m = move_member_ok [OF Cons.prems(2,3) mid(1)]
  then have "topo_ok mid" by simp
  note IH = Cons.IH [OF mid(2) this Cons.prems(3)]
  then show ?case using m Cons.prems(3) by (auto split: if_splits)
qed

lemma found_grid_ok:
  assumes "topo_ok t" "found_grid donor_id new_id movers t = Inr (spec, t')"
  shows "topo_ok t' \<and> length (tp_grids t') = Suc (length (tp_grids t)) \<and> gs_index spec = length (tp_grids t)
    \<and> map_of (tp_grids t') = (map_of (tp_grids t))(new_id \<mapsto> spec) \<and> map_of (tp_grids t) new_id = None
    \<and> (\<forall>n. map_of (tp_assign t') n = (if n \<in> set movers then Some new_id else map_of (tp_assign t) n))
    \<and> (\<forall>n\<in>set movers. map_of (tp_assign t) n = Some donor_id)"
proof -
  from assms(2) obtain donor where new: "map_of (tp_grids t) new_id = None" and donor: "map_of (tp_grids t) donor_id = Some donor"
    and spec: "spec = \<lparr>gs_grid_id = new_id, gs_region = gs_region donor, gs_index = length (tp_grids t)\<rparr>"
    and run: "foldR (move_member donor_id new_id) (t\<lparr>tp_grids := AList.update new_id spec (tp_grids t),
        tp_members := AList.update new_id [] (tp_members t)\<rparr>) (sort movers) = Inr t'"
    by (auto simp: found_grid_def Let_def split: if_splits option.splits)
  let ?t = "t\<lparr>tp_grids := AList.update new_id spec (tp_grids t), tp_members := AList.update new_id [] (tp_members t)\<rparr>"
  note ok = topo_okD [OF assms(1)]
  have fresh: "new_id \<notin> set (keys (tp_grids t))" unfolding set_keys using new by (simp add: domIff)
  then have upd: "AList.update new_id spec (tp_grids t) = tp_grids t @ [(new_id, spec)]" by (rule update_fresh)
  have "topo_ok ?t"
  proof (rule topo_okI)
    have "idx_ok (tp_grids t @ [(new_id, spec)])" using ok(2) unfolding idx_ok_def by (simp add: spec) auto
    then show "idx_ok (tp_grids ?t)" by (simp add: upd)
    show "distinct (keys (tp_grids ?t))" using ok(1) by (simp add: distinct_keys_update)
    fix gid ms assume m: "map_of (tp_members ?t) gid = Some ms"
    have "map_of (tp_assign t) n \<noteq> Some new_id" for n using ok(6) [of n new_id] new by auto
    then show "distinct ms \<and> set ms = {n. map_of (tp_assign ?t) n = Some gid}"
      using m ok(5) [of gid ms] by (auto split: if_splits)
  next
    show "\<forall>(gid, g)\<in>set (tp_grids ?t). gs_grid_id g = gid"
    proof -
      have "gs_grid_id spec = new_id" by (simp add: spec)
      then show ?thesis using ok(3) by (simp add: upd)
    qed
  next
    fix gid show "(map_of (tp_members ?t) gid = None) = (map_of (tp_grids ?t) gid = None)"
      using ok(4) [of gid] by simp
  next
    fix n gid assume "map_of (tp_assign ?t) n = Some gid"
    then show "\<exists>g. map_of (tp_grids ?t) gid = Some g" using ok(6) [of n gid] by simp
  qed
  moreover have "donor_id \<noteq> new_id" using new donor by auto
  ultimately have m: "topo_ok t' \<and> tp_grids t' = tp_grids ?t
    \<and> (\<forall>n. map_of (tp_assign t') n = (if n \<in> set (sort movers) then Some new_id else map_of (tp_assign ?t) n))
    \<and> (\<forall>n\<in>set (sort movers). map_of (tp_assign ?t) n = Some donor_id)"
    using move_members_ok [OF run] by blast
  moreover have "gs_index spec = length (tp_grids t)" by (simp add: spec)
  ultimately show ?thesis using new by (auto simp: upd map_add_def fun_eq_iff split: option.split)
qed

lemma keys_update_old: "k \<in> set (keys d) \<Longrightarrow> keys (AList.update k v d) = keys d"
  by (induction d) (auto simp: keys_def)

text \<open>Writing the elements of \<open>xs\<close> back under their position, for keys already present.\<close>

lemma renumber_fold:
  assumes "distinct (map (fst \<circ> snd) xs)" "set (map (fst \<circ> snd) xs) \<subseteq> set (keys d)"
  shows "keys (foldl (\<lambda>d (i, gid, g). AList.update gid (f i gid g) d) d xs) = keys d
    \<and> (\<forall>k. map_of (foldl (\<lambda>d (i, gid, g). AList.update gid (f i gid g) d) d xs) k
        = (case find (\<lambda>(i, gid, g). gid = k) xs of Some (i, gid, g) \<Rightarrow> Some (f i gid g) | None \<Rightarrow> map_of d k))"
  using assms
proof (induction xs arbitrary: d)
  case Nil
  then show ?case by simp
next
  case (Cons x xs)
  obtain i gid g where x: "x = (i, gid, g)" by (cases x) auto
  have k: "keys (AList.update gid (f i gid g) d) = keys d" using Cons.prems(2) by (intro keys_update_old) (simp add: x)
  have IH: "keys (foldl (\<lambda>d (i, gid, g). AList.update gid (f i gid g) d) (AList.update gid (f i gid g) d) xs) = keys (AList.update gid (f i gid g) d)
    \<and> (\<forall>k. map_of (foldl (\<lambda>d (i, gid, g). AList.update gid (f i gid g) d) (AList.update gid (f i gid g) d) xs) k
        = (case find (\<lambda>(i, gid, g). gid = k) xs of Some (i, gid, g) \<Rightarrow> Some (f i gid g) | None \<Rightarrow> map_of (AList.update gid (f i gid g) d) k))"
    by (rule Cons.IH) (use Cons.prems k in \<open>simp_all\<close>)
  have "find (\<lambda>(j, gid', g'). gid' = gid) xs = None"
  proof -
    have "\<not> (case y of (j, gid', g') \<Rightarrow> gid' = gid)" if "y \<in> set xs" for y
      using Cons.prems(1) that by (force simp: x)
    then show ?thesis by (auto simp: find_None_iff)
  qed
  then show ?case using IH k by (auto simp: x split: option.splits)
qed

lemma nth_find:
  assumes "distinct (map g xs)" "i < length xs"
  shows "find (\<lambda>x. g x = g (xs ! i)) xs = Some (xs ! i)"
  using assms
proof (induction xs arbitrary: i)
  case Nil
  then show ?case by simp
next
  case (Cons x xs)
  show ?case
  proof (cases i)
    case 0
    then show ?thesis by simp
  next
    case (Suc j)
    then have "g x \<noteq> g (xs ! j)" using Cons.prems by auto
    then show ?thesis using Cons Suc by simp
  qed
qed

lemma renumber_spec:
  assumes d: "distinct (keys gs)" and ids: "\<forall>(gid, g)\<in>set gs. gs_grid_id g = gid"
  shows "keys (renumber gs) = keys gs \<and> (\<forall>(gid, g)\<in>set (renumber gs). gs_grid_id g = gid) \<and> idx_ok (renumber gs)
    \<and> (\<forall>gid. map_option gs_region (map_of (renumber gs) gid) = map_option gs_region (map_of gs gid))
    \<and> (\<forall>a b ga gb ha hb. map_of gs a = Some ga \<longrightarrow> map_of gs b = Some gb \<longrightarrow> gs_index ga < gs_index gb \<longrightarrow>
         map_of (renumber gs) a = Some ha \<longrightarrow> map_of (renumber gs) b = Some hb \<longrightarrow> gs_index ha < gs_index hb)"
proof -
  define ys where "ys = sort_key (\<lambda>(gid, g). gs_index g) (items_sorted gs)"
  define xs where "xs = enumerate 0 ys"
  let ?f = "\<lambda>i gid g. \<lparr>gs_grid_id = gid, gs_region = gs_region g, gs_index = i\<rparr>"
  have ren: "renumber gs = foldl (\<lambda>d (i, gid, g). AList.update gid (?f i gid g) d) gs xs"
    by (simp add: renumber_def xs_def ys_def)
  have ys: "set ys = set gs" "length ys = length gs" "sorted (map (\<lambda>(gid, g). gs_index g) ys)"
    by (simp_all add: ys_def)
  have "mset (map fst ys) = mset (map fst gs)" by (simp add: ys_def items_sorted_def)
  then have "distinct (map fst ys) = distinct (map fst gs)" by (rule mset_eq_imp_distinct_iff)
  then have dys: "distinct (map fst ys)" using d by (simp add: keys_def)
  have xk: "map (fst \<circ> snd) xs = map fst ys"
    by (rule nth_equalityI) (simp_all add: xs_def nth_enumerate_eq)
  have fold: "keys (renumber gs) = keys gs"
    "\<And>k. map_of (renumber gs) k = (case find (\<lambda>(i, gid, g). gid = k) xs of Some (i, gid, g) \<Rightarrow> Some (?f i gid g) | None \<Rightarrow> map_of gs k)"
    using renumber_fold [of xs gs ?f] dys ys(1) unfolding ren xk by (simp_all add: keys_def)
  have at: "map_of (renumber gs) (fst (ys ! i)) = Some (?f i (fst (ys ! i)) (snd (ys ! i)))" if "i < length ys" for i
  proof -
    have "find (\<lambda>x. fst (snd x) = fst (snd (xs ! i))) xs = Some (xs ! i)"
      by (rule nth_find) (use that dys xk in \<open>simp_all add: xs_def o_def\<close>)
    moreover have "xs ! i = (i, ys ! i)" using that by (simp add: xs_def nth_enumerate_eq)
    ultimately have "find (\<lambda>x. fst (snd x) = fst (ys ! i)) xs = Some (i, ys ! i)" by simp
    then show ?thesis unfolding fold(2) by (simp add: case_prod_unfold)
  qed
  have all: "\<exists>i<length ys. ys ! i = (gid, g)" if "map_of gs gid = Some g" for gid g
    using map_of_SomeD [OF that] ys(1) by (metis in_set_conv_nth)
  have dk: "distinct (keys (renumber gs))" using d fold(1) by simp
  have mem: "\<exists>i<length ys. fst (ys ! i) = gid \<and> h = ?f i gid (snd (ys ! i))" if "(gid, h) \<in> set (renumber gs)" for gid h
  proof -
    have h: "map_of (renumber gs) gid = Some h" using that dk by (simp add: keys_def)
    have "gid \<in> set (keys gs)" using that fold(1) by (metis fst_conv image_eqI keys_def list.set_map)
    then obtain g where "map_of gs gid = Some g" unfolding set_keys by blast
    from all [OF this] obtain i where "i < length ys" "ys ! i = (gid, g)" by blast
    then show ?thesis using at [of i] h by auto
  qed
  have A: "\<forall>(gid, g)\<in>set (renumber gs). gs_grid_id g = gid" using mem by fastforce
  have len: "length (renumber gs) = length ys" using fold(1) ys(2) by (metis keys_def length_map)
  have inset: "(fst (ys ! i), ?f i (fst (ys ! i)) (snd (ys ! i))) \<in> set (renumber gs)" if "i < length ys" for i
    using at [OF that] by (rule map_of_SomeD)
  have img: "set (map (\<lambda>(gid, g). gs_index g) (renumber gs)) = {0..<length (renumber gs)}"
  proof (intro set_eqI iffI)
    fix i assume "i \<in> set (map (\<lambda>(gid, g). gs_index g) (renumber gs))"
    then obtain gid h where "(gid, h) \<in> set (renumber gs)" "i = gs_index h" by auto
    then show "i \<in> {0..<length (renumber gs)}" using mem len by fastforce
  next
    fix i assume "i \<in> {0..<length (renumber gs)}"
    then show "i \<in> set (map (\<lambda>(gid, g). gs_index g) (renumber gs))" using inset [of i] len by force
  qed
  then have "card (set (map (\<lambda>(gid, g). gs_index g) (renumber gs))) = length (map (\<lambda>(gid, g). gs_index g) (renumber gs))"
    by simp
  then have B: "idx_ok (renumber gs)" unfolding idx_ok_def using img card_distinct by blast
  have C: "map_option gs_region (map_of (renumber gs) gid) = map_option gs_region (map_of gs gid)" for gid
  proof (cases "map_of gs gid")
    case None
    then have "gid \<notin> set (keys gs)" unfolding set_keys by (simp add: domIff)
    then have "gid \<notin> set (keys (renumber gs))" using fold(1) by simp
    then have "map_of (renumber gs) gid = None" unfolding set_keys by (simp add: domIff)
    then show ?thesis using None by simp
  next
    case (Some g)
    from all [OF this] obtain i where "i < length ys" "ys ! i = (gid, g)" by blast
    then show ?thesis using at [of i] Some by simp
  qed
  have D: "gs_index ha < gs_index hb"
    if "map_of gs a = Some ga" "map_of gs b = Some gb" "gs_index ga < gs_index gb"
      "map_of (renumber gs) a = Some ha" "map_of (renumber gs) b = Some hb" for a b ga gb ha hb
  proof -
    from all [OF that(1)] obtain i where i: "i < length ys" "ys ! i = (a, ga)" by blast
    from all [OF that(2)] obtain j where j: "j < length ys" "ys ! j = (b, gb)" by blast
    have "i < j"
    proof (rule ccontr)
      assume "\<not> i < j"
      then have "map (\<lambda>(gid, g). gs_index g) ys ! j \<le> map (\<lambda>(gid, g). gs_index g) ys ! i"
        using ys(3) i(1) by (intro sorted_nth_mono) simp_all
      then show False using that(3) i j by simp
    qed
    then show ?thesis using at [OF i(1)] at [OF j(1)] i(2) j(2) that(4,5) by simp
  qed
  show ?thesis using fold(1) A B C D by blast
qed

lemma foldl_assign:
  "map_of (foldl (\<lambda>a nid. AList.update nid into_id a) a xs) n = (if n \<in> set xs then Some into_id else map_of a n)"
  by (induction xs arbitrary: a) auto

lemma idx_ok_delete_keys: "distinct (keys gs) \<Longrightarrow> k \<in> set (keys gs) \<Longrightarrow> Suc (length (AList.delete k gs)) = length gs"
proof (induction gs)
  case Nil
  then show ?case by simp
next
  case (Cons x gs)
  show ?case
  proof (cases "fst x = k")
    case True
    then have "k \<notin> set (keys gs)" using Cons.prems(1) by auto
    then have "AList.delete k gs = gs" by (simp add: delete_conv' delete_id keys_def)
    then show ?thesis using True by (cases x) simp
  next
    case False
    then show ?thesis using Cons by (cases x) auto
  qed
qed

lemma merge_grid_ok:
  assumes "topo_ok t" "merge_grid from_id into_id t = Inr t'"
  shows "topo_ok t' \<and> Suc (length (tp_grids t')) = length (tp_grids t) \<and> map_of (tp_grids t') from_id = None
    \<and> (\<forall>n. map_of (tp_assign t') n = (if map_of (tp_assign t) n = Some from_id then Some into_id else map_of (tp_assign t) n))
    \<and> (\<forall>gid. gid \<noteq> from_id \<longrightarrow> map_option gs_region (map_of (tp_grids t') gid) = map_option gs_region (map_of (tp_grids t) gid))"
proof -
  from assms(2) obtain f g fm im where ne: "from_id \<noteq> into_id"
    and f: "map_of (tp_grids t) from_id = Some f" and g: "map_of (tp_grids t) into_id = Some g"
    and fm: "map_of (tp_members t) from_id = Some fm" and im: "map_of (tp_members t) into_id = Some im"
    and t': "t' = \<lparr>tp_grids = renumber (AList.delete from_id (tp_grids t)),
        tp_assign = foldl (\<lambda>a nid. AList.update nid into_id a) (tp_assign t) fm,
        tp_members = AList.delete from_id (AList.update into_id (sort (im @ fm)) (tp_members t))\<rparr>"
    by (auto simp: merge_grid_def split: if_splits option.splits)
  note ok = topo_okD [OF assms(1)]
  let ?gs = "AList.delete from_id (tp_grids t)"
  have dg: "distinct (keys ?gs)" using ok(1) by (rule distinct_keys_delete)
  have ig: "\<forall>(gid, g)\<in>set ?gs. gs_grid_id g = gid"
    using ok(3) set_delete_subset [of from_id "tp_grids t"] by blast
  note r = renumber_spec [OF dg ig]
  have fm': "distinct fm \<and> set fm = {n. map_of (tp_assign t) n = Some from_id}" by (rule ok(5) [OF fm])
  have im': "distinct im \<and> set im = {n. map_of (tp_assign t) n = Some into_id}" by (rule ok(5) [OF im])
  have look: "map_of (tp_grids t') gid = None \<longleftrightarrow> gid = from_id \<or> map_of (tp_grids t) gid = None" for gid
  proof -
    have "map_of (renumber ?gs) gid = None \<longleftrightarrow> map_of ?gs gid = None"
      using r by (metis option.map_disc_iff)
    then show ?thesis by (simp add: t')
  qed
  have as: "map_of (tp_assign t') n = (if map_of (tp_assign t) n = Some from_id then Some into_id else map_of (tp_assign t) n)" for n
    using fm' by (simp add: t' foldl_assign)
  have mem: "map_of (tp_members t') gid = (if gid = from_id then None else if gid = into_id then Some (sort (im @ fm))
      else map_of (tp_members t) gid)" for gid
    by (simp add: t')
  have "topo_ok t'"
  proof (rule topo_okI)
    show "distinct (keys (tp_grids t'))" "idx_ok (tp_grids t')" "\<forall>(gid, g)\<in>set (tp_grids t'). gs_grid_id g = gid"
      using r dg by (simp_all add: t')
  next
    fix gid show "(map_of (tp_members t') gid = None) = (map_of (tp_grids t') gid = None)"
      using ok(4) [of gid] mem [of gid] look [of gid] g ne by auto
  next
    fix gid ms assume m: "map_of (tp_members t') gid = Some ms"
    then have gid: "gid \<noteq> from_id" using mem [of gid] by auto
    show "distinct ms \<and> set ms = {n. map_of (tp_assign t') n = Some gid}"
    proof (cases "gid = into_id")
      case True
      then have "ms = sort (im @ fm)" using m mem [of gid] gid by simp
      then show ?thesis using fm' im' True ne by (auto simp: as)
    next
      case False
      then have "map_of (tp_members t) gid = Some ms" using m mem [of gid] gid by simp
      from ok(5) [OF this] show ?thesis using False gid by (auto simp: as)
    qed
  next
    fix n gid assume "map_of (tp_assign t') n = Some gid"
    then have "gid = into_id \<or> gid \<noteq> from_id \<and> map_of (tp_assign t) n = Some gid" using as [of n] by (auto split: if_splits)
    then have "map_of (tp_grids t') gid \<noteq> None" using look [of gid] ok(6) [of n gid] g ne by auto
    then show "\<exists>g. map_of (tp_grids t') gid = Some g" by auto
  qed
  moreover have "Suc (length (tp_grids t')) = length (tp_grids t)"
  proof -
    have "length (tp_grids t') = length ?gs" using r by (metis t' keys_def length_map topology.select_convs(1))
    moreover have "from_id \<in> set (keys (tp_grids t))" unfolding set_keys using f by blast
    ultimately show ?thesis using idx_ok_delete_keys [OF ok(1)] by simp
  qed
  moreover have "map_option gs_region (map_of (tp_grids t') gid) = map_option gs_region (map_of (tp_grids t) gid)"
    if "gid \<noteq> from_id" for gid
  proof -
    have "map_option gs_region (map_of (renumber ?gs) gid) = map_option gs_region (map_of ?gs gid)" using r by blast
    then show ?thesis using that by (simp add: t')
  qed
  ultimately show ?thesis using as look by blast
qed

section \<open>Double enrolments\<close>

definition first_of :: "prims \<Rightarrow> enrolment list \<Rightarrow> (string \<times> int) \<rightharpoonup> enrolment" where
  "first_of P es k = find (\<lambda>e. enrolment_verify P e \<and> (en_node_id e, en_epoch e) = k) es"

lemma find_snoc: "find Q (xs @ [x]) = (case find Q xs of Some y \<Rightarrow> Some y | None \<Rightarrow> if Q x then Some x else None)"
  by (induction xs) auto

lemma enrol_fold:
  "fst (foldl (enrol_step P) (Map.empty, []) es) = first_of P es
    \<and> (\<forall>n a b. (n, a, b) \<in> set (snd (foldl (enrol_step P) (Map.empty, []) es)) \<longleftrightarrow>
        b \<in> set es \<and> enrolment_verify P b \<and> n = en_node_id b
        \<and> first_of P es (n, en_epoch b) = Some a \<and> en_grid_id a \<noteq> en_grid_id b)"
proof (induction es rule: rev_induct)
  case Nil
  then show ?case by (auto simp: first_of_def)
next
  case (snoc e es)
  obtain seen faults where f: "foldl (enrol_step P) (Map.empty, []) es = (seen, faults)" by force
  note IH = snoc [unfolded f fst_conv snd_conv]
  have first: "first_of P (es @ [e]) = (if enrolment_verify P e \<and> first_of P es (en_node_id e, en_epoch e) = None
      then (first_of P es)((en_node_id e, en_epoch e) \<mapsto> e) else first_of P es)"
    by (rule ext) (auto simp: first_of_def find_snoc split: option.splits)
  have in': "first_of P es (en_node_id b, en_epoch b) \<noteq> None" if "b \<in> set es" "enrolment_verify P b" for b
    using that by (auto simp: first_of_def find_None_iff)
  show ?case
  proof (cases "enrolment_verify P e")
    case False
    then have "enrol_step P (seen, faults) e = (seen, faults)" by (simp add: enrol_step_def)
    then show ?thesis using IH False by (auto simp: f first)
  next
    case True
    show ?thesis
    proof (cases "first_of P es (en_node_id e, en_epoch e)")
      case None
      then have "enrol_step P (seen, faults) e = (seen((en_node_id e, en_epoch e) \<mapsto> e), faults)"
        using True IH by (simp add: enrol_step_def)
      moreover have "\<not> (b \<in> set es \<and> enrolment_verify P b \<and> en_node_id b = en_node_id e \<and> en_epoch b = en_epoch e)" for b
        using in' [of b] None by auto
      ultimately show ?thesis using IH True None by (auto simp: f first)
    next
      case (Some prior)
      then have "enrol_step P (seen, faults) e
          = (seen, if en_grid_id prior \<noteq> en_grid_id e then faults @ [(en_node_id e, prior, e)] else faults)"
        using True IH by (simp add: enrol_step_def)
      then show ?thesis using IH True Some by (auto simp: f first)
    qed
  qed
qed

lemma first_of_Some:
  "first_of P es (n, t) = Some a \<Longrightarrow> a \<in> set es \<and> enrolment_verify P a \<and> en_node_id a = n \<and> en_epoch a = t"
  by (auto simp: first_of_def find_Some_iff)

section \<open>Properties\<close>

inductive topo_step :: "prims \<Rightarrow> topology \<Rightarrow> topology \<Rightarrow> bool" for P where
  step_newcomer: "map_of (tp_assign t) nid = None \<Longrightarrow> assign_newcomer P nid region seed f t = Inr (gid, t') \<Longrightarrow> topo_step P t t'"
| step_found: "found_grid donor_id new_id movers t = Inr (spec, t') \<Longrightarrow> topo_step P t t'"
| step_merge: "merge_grid from_id into_id t = Inr t' \<Longrightarrow> topo_step P t t'"

lemma topo_step_ok:
  assumes "topo_step P t t'" "topo_ok t"
  shows "topo_ok t' \<and> dom (map_of (tp_assign t)) \<subseteq> dom (map_of (tp_assign t'))"
  using assms
proof (cases rule: topo_step.cases)
  case (step_newcomer nid region seed f gid)
  show ?thesis using assign_newcomer_ok [OF assms(2) step_newcomer] by auto
next
  case (step_found donor_id new_id movers spec)
  note f = found_grid_ok [OF assms(2) step_found]
  then show ?thesis by (metis domIff option.distinct(1) subsetI)
next
  case (step_merge from_id into_id)
  note m = merge_grid_ok [OF assms(2) step_merge]
  then show ?thesis by (metis domIff option.distinct(1) subsetI)
qed

lemma one_owner:
  assumes "topo_ok t" "p < n_partitions t"
  shows "\<exists>!gid. partition_of t gid = Inr p"
proof -
  note ok = topo_okD [OF assms(1)]
  have owner: "partition_of t gid = Inr p \<longleftrightarrow> (\<exists>g. (gid, g) \<in> set (tp_grids t) \<and> gs_index g = p)" for gid
  proof -
    have "(gid, g) \<in> set (tp_grids t) \<longleftrightarrow> map_of (tp_grids t) gid = Some g" for g
      using map_of_eq_Some_iff [of "tp_grids t" gid g] ok(1) by (simp add: keys_def)
    then show ?thesis by (auto simp: partition_of_def split: option.split)
  qed
  have "p \<in> set (map (\<lambda>(gid, g). gs_index g) (tp_grids t))"
    using ok(2) assms(2) by (simp add: idx_ok_def n_partitions_def)
  then obtain gid g where g: "(gid, g) \<in> set (tp_grids t)" "gs_index g = p" by auto
  have inj: "inj_on (\<lambda>(gid, g). gs_index g) (set (tp_grids t))" using ok(2) by (simp add: idx_ok_def distinct_map)
  show ?thesis
  proof (rule ex1I [of _ gid])
    show "partition_of t gid = Inr p" using g owner by blast
    fix gid' assume "partition_of t gid' = Inr p"
    then obtain g' where "(gid', g') \<in> set (tp_grids t)" "gs_index g' = p" using owner by blast
    then show "gid' = gid" using inj_onD [OF inj, of "(gid', g')" "(gid, g)"] g by simp
  qed
qed

text \<open>C33: Every nullifier has exactly one home. Lay the grids out, then seat newcomers, found
  grids and merge grids in any order: the partitions 0 to K-1 are each owned by exactly one grid,
  so a nullifier's partition names one grid, every seated node is listed in exactly the grid it is
  assigned to, and no node is ever dropped.\<close>

theorem every_nullifier_has_one_home:
  assumes "gsize \<noteq> 0" "topo_build P node_regions gsize seed = Inr t0" "(topo_step P)\<^sup>*\<^sup>* t0 t"
  shows "(\<forall>nf p. partition_of_nullifier nf (int (n_partitions t)) = Inr p \<longrightarrow> (\<exists>!gid. partition_of t gid = Inr (nat p)))
    \<and> (\<forall>p<n_partitions t. \<exists>!gid. partition_of t gid = Inr p)
    \<and> (\<forall>n gid. grid_of t n = Inr gid \<longleftrightarrow> (\<exists>ms. topo_members t gid = Inr ms \<and> n \<in> set ms))
    \<and> dom (map_of (tp_assign t0)) \<subseteq> dom (map_of (tp_assign t))"
proof -
  have "topo_ok t0" using topo_build_ok [OF assms(1), of P node_regions seed] assms(2) by auto
  from assms(3) this have t: "topo_ok t \<and> dom (map_of (tp_assign t0)) \<subseteq> dom (map_of (tp_assign t))"
  proof (induction rule: rtranclp_induct)
    case base
    then show ?case by simp
  next
    case (step y z)
    then show ?case using topo_step_ok by blast
  qed
  have "\<exists>!gid. partition_of t gid = Inr (nat p)" if "partition_of_nullifier nf (int (n_partitions t)) = Inr p" for nf p
  proof -
    have "1 \<le> int (n_partitions t)" "\<exists>n. p = n mod int (n_partitions t)"
      using that by (auto simp: partition_of_nullifier_def split: if_splits)
    then have p: "0 \<le> p" "nat p < n_partitions t" by (elim exE, simp add: nat_less_iff)+
    show ?thesis by (rule one_owner [OF conjunct1 [OF t] p(2)])
  qed
  moreover have "grid_of t n = Inr gid \<longleftrightarrow> (\<exists>ms. topo_members t gid = Inr ms \<and> n \<in> set ms)" for n gid
  proof -
    have ok: "topo_ok t" using t by simp
    have "\<exists>ms. map_of (tp_members t) gid = Some ms" if "map_of (tp_assign t) n = Some gid"
      using topo_okD(6) [OF ok that] topo_okD(4) [OF ok, of gid] by (cases "map_of (tp_members t) gid") auto
    moreover have "map_of (tp_assign t) n = Some gid \<longleftrightarrow> n \<in> set ms" if "map_of (tp_members t) gid = Some ms" for ms
      using topo_okD(5) [OF ok that] by simp
    moreover have "grid_of t n = Inr gid \<longleftrightarrow> map_of (tp_assign t) n = Some gid"
      by (simp add: grid_of_def split: option.split)
    moreover have "topo_members t gid = Inr ms \<longleftrightarrow> map_of (tp_members t) gid = Some ms" for ms
      by (simp add: topo_members_def split: option.split)
    ultimately show ?thesis by metis
  qed
  ultimately show ?thesis using t one_owner by blast
qed

lemma demo_build:
  "topo_build P [(''a'', ''eu'')] 2 seed = Inr \<lparr>tp_grids = [(''eu-0'', \<lparr>gs_grid_id = ''eu-0'', gs_region = ''eu'', gs_index = 0\<rparr>)],
     tp_assign = [(''a'', ''eu-0'')], tp_members = [(''eu-0'', [''a''])]\<rparr>"
proof -
  have "n_grids 1 2 = 1" by (simp add: n_grids_def)
  moreover have "grid_name ''eu'' 0 = ''eu-0''" by code_simp
  ultimately show ?thesis
    by (simp add: topo_build_def by_region_def items_sorted_def deal_region_def topo_new_def add_member_def)
qed

theorem every_nullifier_has_one_home_witness:
  "\<exists>t0 t spec. topo_build sample_prims [(''a'', ''eu'')] 2 ''s'' = Inr t0
    \<and> found_grid ''eu-0'' ''eu-1'' [''a''] t0 = Inr (spec, t) \<and> (\<exists>!gid. partition_of t gid = Inr 1)
    \<and> (grid_of t ''a'' = Inr ''eu-1'' \<longleftrightarrow> (\<exists>ms. topo_members t ''eu-1'' = Inr ms \<and> ''a'' \<in> set ms))"
proof -
  let ?t0 = "\<lparr>tp_grids = [(''eu-0'', \<lparr>gs_grid_id = ''eu-0'', gs_region = ''eu'', gs_index = 0\<rparr>)],
     tp_assign = [(''a'', ''eu-0'')], tp_members = [(''eu-0'', [''a''])]\<rparr>"
  have "\<exists>spec t. found_grid ''eu-0'' ''eu-1'' [''a''] ?t0 = Inr (spec, t) \<and> n_partitions t = 2"
    by (simp add: found_grid_def move_member_def add_member_def n_partitions_def Let_def)
  then obtain spec t where t: "found_grid ''eu-0'' ''eu-1'' [''a''] ?t0 = Inr (spec, t)" "n_partitions t = 2" by blast
  have "topo_step sample_prims ?t0 t" using t(1) by (rule step_found)
  then have "(topo_step sample_prims)\<^sup>*\<^sup>* ?t0 t" by simp
  from every_nullifier_has_one_home [OF _ demo_build this] t demo_build show ?thesis by auto
qed

lemma first_free_least:
  assumes "\<not> (\<forall>j<n. grid_name region (i + j) \<in> used)"
  shows "\<exists>k. first_free n region used i = Some k \<and> grid_name region k \<notin> used \<and> (\<forall>j. i \<le> j \<and> j < k \<longrightarrow> grid_name region j \<in> used)"
  using assms
proof (induction n arbitrary: i)
  case 0
  then show ?case by simp
next
  case (Suc n)
  show ?case
  proof (cases "grid_name region i \<in> used")
    case True
    have "\<not> (\<forall>j<n. grid_name region (Suc i + j) \<in> used)"
    proof
      assume all: "\<forall>j<n. grid_name region (Suc i + j) \<in> used"
      have "grid_name region (i + j) \<in> used" if "j < Suc n" for j
        using all True that by (cases j) auto
      then show False using Suc.prems by blast
    qed
    from Suc.IH [OF this] obtain k where "first_free n region used (Suc i) = Some k" "grid_name region k \<notin> used"
        "\<forall>j. Suc i \<le> j \<and> j < k \<longrightarrow> grid_name region j \<in> used"
      by blast
    then show ?thesis using True by (intro exI [of _ k]) (auto simp: Suc_le_eq dest!: le_imp_less_or_eq [of i])
  next
    case False
    then show ?thesis by auto
  qed
qed

text \<open>The search for a grid name ends, with the first free one. The name is not a grid of the
  region, and every smaller number of the region's series is taken.\<close>

theorem next_grid_id_ends:
  "\<exists>k. next_grid_id t region = Some (grid_name region k) \<and> grid_name region k \<notin> names_in t region
    \<and> (\<forall>j<k. grid_name region j \<in> names_in t region)"
proof -
  have "\<not> (\<forall>j<Suc (length (tp_grids t)). grid_name region (0 + j) \<in> names_in t region)"
  proof
    assume all: "\<forall>j<Suc (length (tp_grids t)). grid_name region (0 + j) \<in> names_in t region"
    have "card (grid_name region ` {..<Suc (length (tp_grids t))}) \<le> card (names_in t region)"
      using all by (intro card_mono) (auto simp: names_in_def)
    moreover have "card (grid_name region ` {..<Suc (length (tp_grids t))}) = Suc (length (tp_grids t))"
      by (simp add: card_image inj_on_def)
    moreover have "card (names_in t region) \<le> length (tp_grids t)"
      unfolding names_in_def
      by (rule le_trans [OF card_length]) (simp add: le_trans [OF length_filter_le])
    ultimately show False by simp
  qed
  from first_free_least [OF this] show ?thesis by (auto simp: next_grid_id_def)
qed

theorem next_grid_id_ends_witness:
  "\<exists>k. next_grid_id \<lparr>tp_grids = [], tp_assign = [], tp_members = []\<rparr> ''eu'' = Some (grid_name ''eu'' k)"
  using next_grid_id_ends by blast

text \<open>Double enrolment is detected exactly. A node and epoch are reported if and only if two
  verified claims of that node in that epoch name different grids, and the pair reported is such a
  pair.\<close>

theorem double_enrolments_exact:
  "(\<forall>n a b. (n, a, b) \<in> set (find_double_enrolments P es) \<longrightarrow> a \<in> set es \<and> b \<in> set es
      \<and> enrolment_verify P a \<and> enrolment_verify P b \<and> en_node_id a = n \<and> en_node_id b = n
      \<and> en_epoch a = en_epoch b \<and> en_grid_id a \<noteq> en_grid_id b)
    \<and> (\<forall>a\<in>set es. \<forall>b\<in>set es. enrolment_verify P a \<and> enrolment_verify P b \<and> en_node_id a = en_node_id b
        \<and> en_epoch a = en_epoch b \<and> en_grid_id a \<noteq> en_grid_id b
      \<longrightarrow> (\<exists>x y. (en_node_id a, x, y) \<in> set (find_double_enrolments P es) \<and> en_epoch x = en_epoch a))"
proof -
  have iff: "(n, a, b) \<in> set (find_double_enrolments P es) \<longleftrightarrow> b \<in> set es \<and> enrolment_verify P b \<and> n = en_node_id b
      \<and> first_of P es (n, en_epoch b) = Some a \<and> en_grid_id a \<noteq> en_grid_id b" for n a b
    using enrol_fold [of P es] by (simp add: find_double_enrolments_def)
  have "\<exists>x y. (en_node_id a, x, y) \<in> set (find_double_enrolments P es) \<and> en_epoch x = en_epoch a"
    if ab: "a \<in> set es" "b \<in> set es" "enrolment_verify P a" "enrolment_verify P b" "en_node_id a = en_node_id b"
      "en_epoch a = en_epoch b" "en_grid_id a \<noteq> en_grid_id b" for a b
  proof -
    have "first_of P es (en_node_id a, en_epoch a) \<noteq> None" using ab by (auto simp: first_of_def find_None_iff)
    then obtain c where c: "first_of P es (en_node_id a, en_epoch a) = Some c" by blast
    note c' = first_of_Some [OF c]
    have "en_grid_id c \<noteq> en_grid_id a \<or> en_grid_id c \<noteq> en_grid_id b" using ab(7) by auto
    then have "(en_node_id a, c, a) \<in> set (find_double_enrolments P es) \<or> (en_node_id a, c, b) \<in> set (find_double_enrolments P es)"
      using ab c unfolding iff by auto
    then show ?thesis using c' by blast
  qed
  moreover have "a \<in> set es \<and> b \<in> set es \<and> enrolment_verify P a \<and> enrolment_verify P b \<and> en_node_id a = n \<and> en_node_id b = n
      \<and> en_epoch a = en_epoch b \<and> en_grid_id a \<noteq> en_grid_id b"
    if "(n, a, b) \<in> set (find_double_enrolments P es)" for n a b
    using that first_of_Some unfolding iff by blast
  ultimately show ?thesis by blast
qed

definition demo_claim :: "string \<Rightarrow> enrolment" where
  "demo_claim g = \<lparr>en_node_id = ''n'', en_grid_id = g, en_epoch = 3, en_public_hex = ''00'', en_signature = ''00''\<rparr>"

lemma demo_claim_verifies: "length g < 100 \<Longrightarrow> enrolment_verify sample_prims (demo_claim g)"
proof -
  assume g: "length g < 100"
  have "fromhex ''00'' = Some [0]" by code_simp
  then show ?thesis
    using g by (simp add: enrolment_verify_def demo_claim_def verify_msg_def verify_sig_def sample_prims_def
        enrolment_message_def h_bytes_def h_preimage_def len_prefixed_def chain_domain_def str_int_def str_nat.simps)
qed

theorem double_enrolments_exact_witness:
  "\<exists>x y. (''n'', x, y) \<in> set (find_double_enrolments sample_prims [demo_claim ''g'', demo_claim ''h'']) \<and> en_epoch x = 3"
proof -
  have "enrolment_verify sample_prims (demo_claim ''g'')" "enrolment_verify sample_prims (demo_claim ''h'')"
    by (rule demo_claim_verifies, simp)+
  moreover have "demo_claim g \<in> set [demo_claim ''g'', demo_claim ''h'']" if "g = ''g'' \<or> g = ''h''" for g using that by auto
  moreover have "en_node_id (demo_claim g) = ''n''" "en_epoch (demo_claim g) = 3" "en_grid_id (demo_claim g) = g" for g
    by (simp_all add: demo_claim_def)
  ultimately show ?thesis
    using double_enrolments_exact [of sample_prims "[demo_claim ''g'', demo_claim ''h'']", THEN conjunct2, rule_format,
        of "demo_claim ''g''" "demo_claim ''h''"] by simp
qed

end
