(* ===== verification/Notes.thy ===== *)
theory Notes
  imports Params Crypto
begin

text \<open>
  The note commitment: the quadratic map of \<open>mq/ms6/core.py\<close> (\<open>MQSystem\<close>, in the shape the
  chain builds it: degree 2, random weights, no auxiliary variables) and \<open>chain/notes.py\<close>.

  Field elements are integers, and every definition that computes in the field takes the
  modulus \<open>q\<close>, which the code fixes as \<open>field_P\<close>; what needs \<open>q\<close> prime says so. A polynomial
  row is the sparse pair the code keeps, coefficients by monomial index and by variable.
  The lemmas tie the monomial index to the vector \<open>monomials\<close> lists, which is what lets a
  row written by index be read as a polynomial in the variables.
\<close>

unbundle bit_operations_syntax

section \<open>Monomials\<close>

text \<open>The order in which the index map numbers the products \<open>X i * X j\<close>.\<close>

definition pair_list :: "nat \<Rightarrow> (nat \<times> nat) list" where
  "pair_list L = concat (map (\<lambda>s. map (\<lambda>i. (i, s - i)) [s - (L - 1)..<s div 2 + 1]) [0..<2 * L - 1])"

text \<open>\<open>eval_level_mod_fast(2, X, mod)\<close>: the buckets, filled by the two loops of the source.\<close>

definition loop_pairs :: "nat \<Rightarrow> (nat \<times> nat) list" where
  "loop_pairs L = concat (map (\<lambda>i. map (\<lambda>j. (i, j)) [i..<L]) [0..<L])"

definition fill_bucket :: "int \<Rightarrow> int list \<Rightarrow> int list list \<Rightarrow> nat \<times> nat \<Rightarrow> int list list" where
  "fill_bucket q X B = (\<lambda>(i, j). B[i + j := B ! (i + j) @ [X ! i * X ! j mod q]])"

definition eval_level2 :: "int \<Rightarrow> int list \<Rightarrow> int list list" where
  "eval_level2 q X =
     (if length X = 1 then [[X ! 0 ^ 2 mod q]]
      else filter (\<lambda>b. b \<noteq> []) (foldl (fill_bucket q X) (replicate (2 * (length X - 1) + 1) []) (loop_pairs (length X))))"

definition monomials :: "int \<Rightarrow> int list \<Rightarrow> int list" where
  "monomials q X = concat (eval_level2 q (map (\<lambda>a. a mod q) X))"

section \<open>The quadratic map\<close>

datatype row_kind = Dense | Fold nat

record mq_row =
  mq_qs :: "(nat \<times> int) list"
  mq_lins :: "(nat \<times> int) list"
  mq_kind :: row_kind

record mq_sys =
  sy_n :: nat
  sy_W :: "int list list"
  sy_rows :: "mq_row list"

definition sparse :: "int list \<Rightarrow> (nat \<times> int) list" where
  "sparse q = filter (\<lambda>(k, c). c \<noteq> 0) (enumerate 0 q)"

definition chunk48 :: "bytes \<Rightarrow> nat \<Rightarrow> int" where
  "chunk48 raw p = int (be_nat (take 48 (drop (48 * p) raw)))"

definition fold_weights :: "prims \<Rightarrow> int \<Rightarrow> string \<Rightarrow> nat \<Rightarrow> nat \<Rightarrow> int list" where
  "fold_weights P q seed n f =
     (let raw = shake256 P (str_bytes (seed @ '':foldw:'' @ str_nat n @ '':2:'' @ str_nat f)) (48 * n)
      in map (\<lambda>p. let w = chunk48 raw p mod q in if w = 0 then 1 else w) [0..<n])"

definition random_row :: "prims \<Rightarrow> int \<Rightarrow> string \<Rightarrow> nat \<Rightarrow> nat \<Rightarrow> nat \<Rightarrow> mq_row" where
  "random_row P q seed n m_rand l =
     (let raw = shake256 P (str_bytes (seed @ '':'' @ str_nat n @ '':2:'' @ str_nat m_rand @ '':'' @ str_nat l))
                  (48 * (n * (n + 1) div 2));
          coeff = (\<lambda>p. case index_in p (loop_pairs n) of None \<Rightarrow> 0 | Some t \<Rightarrow> chunk48 raw t mod q)
      in \<lparr>mq_qs = sparse (map coeff (pair_list n)), mq_lins = [], mq_kind = Dense\<rparr>)"

definition fold_row :: "int \<Rightarrow> nat \<Rightarrow> nat \<Rightarrow> int list \<Rightarrow> mq_row" where
  "fold_row q n f w = \<lparr>mq_qs = sparse (map (\<lambda>(i, j). w ! i * w ! j mod q) (pair_list n)), mq_lins = [], mq_kind = Fold f\<rparr>"

definition mq_system :: "prims \<Rightarrow> int \<Rightarrow> nat \<Rightarrow> nat \<Rightarrow> nat \<Rightarrow> string \<Rightarrow> exn + mq_sys" where
  "mq_system P q n m_rand n_folds seed =
     (if n < 2 then Inl ValueError
      else if m_rand < n - 1 then Inl ValueError
      else let W = map (fold_weights P q seed n) [0..<n_folds]
           in Inr \<lparr>sy_n = n, sy_W = W,
                   sy_rows = map (random_row P q seed n m_rand) [0..<m_rand]
                     @ map (\<lambda>(f, w). fold_row q n f w) (enumerate 0 W)\<rparr>)"

definition half :: "int \<Rightarrow> int" where
  "half q = (q + 1) div 2"

definition fast_h2 :: "int \<Rightarrow> int list \<Rightarrow> int list \<Rightarrow> int" where
  "fast_h2 q w x =
     (let (e1, p2) = foldl (\<lambda>(e1, p2) (wi, xi). let y = wi * xi mod q in (e1 + y, p2 + y * y)) (0, 0) (zip w x)
      in ((e1 mod q) * (e1 mod q) + p2) mod q * half q mod q)"

definition eval_sparse :: "int list \<Rightarrow> (nat \<times> int) list \<Rightarrow> int" where
  "eval_sparse xs ps = foldl (\<lambda>acc (k, c). acc + c * xs ! k) 0 ps"

definition mq_eval_row :: "int \<Rightarrow> mq_sys \<Rightarrow> int list \<Rightarrow> mq_row \<Rightarrow> int" where
  "mq_eval_row q sys X r =
     (case mq_kind r of
        Fold f \<Rightarrow> fast_h2 q (sy_W sys ! f) (take (sy_n sys) X)
      | Dense \<Rightarrow> (eval_sparse (monomials q X) (mq_qs r) + eval_sparse X (mq_lins r)) mod q)"

text \<open>\<open>lift\<close> and \<open>F\<close>. The assertion on the length is an \<open>AssertionError\<close>.\<close>

definition mq_lift :: "int \<Rightarrow> mq_sys \<Rightarrow> int list \<Rightarrow> exn + int list" where
  "mq_lift q sys x = (if length x \<noteq> sy_n sys then Inl AssertionError else Inr (map (\<lambda>a. a mod q) x))"

definition mq_F :: "int \<Rightarrow> mq_sys \<Rightarrow> int list \<Rightarrow> exn + int list" where
  "mq_F q sys X0 =
     (if length X0 \<noteq> sy_n sys then Inl AssertionError
      else let X = map (\<lambda>a. a mod q) X0 in Inr (map (mq_eval_row q sys X) (sy_rows sys)))"

section \<open>Notes\<close>

definition note_seed :: string where
  "note_seed = ''fin6-note-sys''"

definition note_system :: "prims \<Rightarrow> int \<Rightarrow> chain_params \<Rightarrow> exn + mq_sys" where
  "note_system P q params = mq_system P q (nat (n_note params)) (nat (n_note params - 1)) (nat (note_folds params)) note_seed"

definition asset_field :: "prims \<Rightarrow> string \<Rightarrow> exn + int" where
  "asset_field P asset = h_field P ''asset'' [PStr asset]"

definition TAG_BYTES :: nat where
  "TAG_BYTES = 3"

definition tag_from_shared :: "prims \<Rightarrow> bytes \<Rightarrow> exn + bytes" where
  "tag_from_shared P shared = bindR (h_bytes P ''note-tag'' [PBytes shared] 32) (\<lambda>d. Inr (take TAG_BYTES d))"

text \<open>Byte \<open>whole\<close> of a tag shorter than \<open>TAG_BYTES\<close> is an \<open>IndexError\<close>.\<close>

definition tag_matches :: "bytes \<Rightarrow> bytes \<Rightarrow> int \<Rightarrow> exn + bool" where
  "tag_matches tag other bits0 =
     (let bits = nat (max 0 (min bits0 (8 * int TAG_BYTES)));
          whole = bits div 8; spare = bits mod 8
      in if bits = 0 then Inr True
         else if take whole tag \<noteq> take whole other then Inr False
         else if spare = 0 then Inr True
         else if length tag \<le> whole \<or> length other \<le> whole then Inl IndexError
         else let mask = push_bit (8 - spare) 255
              in Inr ((tag ! whole) AND mask = (other ! whole) AND mask))"

record chain_note =
  no_value :: int
  no_asset :: int
  no_owner :: int
  no_rho :: int
  no_blinders :: "int list"

text \<open>\<open>Note.create\<close> with the random draws \<open>rho\<close> and \<open>blinders\<close> as arguments and the asset
  already a field element.\<close>

definition note_create :: "prims \<Rightarrow> chain_params \<Rightarrow> int \<Rightarrow> string \<Rightarrow> int \<Rightarrow> int \<Rightarrow> int list \<Rightarrow> exn + chain_note" where
  "note_create P params v owner_pub asset_fe rho blinders =
     (if \<not> (0 \<le> v \<and> v < max_value params) then Inl ValueError
      else if int (length blinders) \<noteq> note_blinders params then Inl ValueError
      else bindR (owner_field P owner_pub) (\<lambda>f.
        Inr \<lparr>no_value = v, no_asset = asset_fe, no_owner = f, no_rho = rho, no_blinders = blinders\<rparr>))"

definition coords :: "int \<Rightarrow> chain_note \<Rightarrow> int list" where
  "coords q n = map (\<lambda>a. a mod q) ([no_value n, no_asset n, no_owner n, no_rho n] @ no_blinders n)"

definition note_vector :: "prims \<Rightarrow> int \<Rightarrow> chain_params \<Rightarrow> chain_note \<Rightarrow> exn + int list" where
  "note_vector P q params n =
     bindR (note_system P q params) (\<lambda>sys.
       let x = coords q n
       in if length x \<noteq> sy_n sys then Inl ValueError
          else bindR (mq_lift q sys x) (mq_F q sys))"

definition note_id :: "prims \<Rightarrow> int list \<Rightarrow> string" where
  "note_id P v = ''cm:'' @ h_hex P ''note-id'' [PList (map PInt v)]"

definition nf_coeff :: "prims \<Rightarrow> nat \<Rightarrow> nat \<times> nat \<Rightarrow> int" where
  "nf_coeff P n = (\<lambda>(i, j). case h_field P ''nf-coeff'' [PInt (int n), PInt (int i), PInt (int j)] of Inr c \<Rightarrow> c | Inl _ \<Rightarrow> 0)"

definition nullifier_coeffs :: "prims \<Rightarrow> nat \<Rightarrow> (nat \<times> nat \<times> int) list" where
  "nullifier_coeffs P n = filter (\<lambda>(i, j, c). c \<noteq> 0) (map (\<lambda>(i, j). (i, j, nf_coeff P n (i, j))) (loop_pairs n))"

definition nullifier_value :: "prims \<Rightarrow> int \<Rightarrow> int list \<Rightarrow> int" where
  "nullifier_value P q cs =
     (let xs = map (\<lambda>a. a mod q) cs
      in foldl (\<lambda>acc (i, j, c). acc + c * xs ! i * xs ! j) 0 (nullifier_coeffs P (length xs)) mod q)"

definition nullifier_id :: "prims \<Rightarrow> string \<Rightarrow> int \<Rightarrow> string" where
  "nullifier_id P cm fe = ''nf:'' @ h_hex P ''nf-id'' [PStr cm, PInt fe]"

definition note_commit :: "prims \<Rightarrow> int \<Rightarrow> chain_params \<Rightarrow> chain_note \<Rightarrow> exn + (string \<times> int list)" where
  "note_commit P q params n = bindR (note_vector P q params n) (\<lambda>v. Inr (note_id P v, v))"

definition note_nullifier :: "prims \<Rightarrow> int \<Rightarrow> chain_params \<Rightarrow> chain_note \<Rightarrow> exn + string" where
  "note_nullifier P q params n =
     bindR (note_vector P q params n) (\<lambda>v. Inr (nullifier_id P (note_id P v) (nullifier_value P q (coords q n))))"

section \<open>What the monomial index means\<close>

lemma filter_pairs_inner: "i \<le> L \<Longrightarrow> filter (\<lambda>j. i + j = s) [i..<L] = (if i + i \<le> s \<and> s < i + L then [s - i] else [])"
proof (induction L)
  case (Suc L)
  then show ?case by (cases "i \<le> L") (auto simp: le_Suc_eq)
qed simp

lemma concat_map_if: "concat (map (\<lambda>i. if c i then [f i] else []) xs) = map f (filter c xs)"
  by (induction xs) auto

lemma filter_loop_pairs:
  assumes "0 < L"
  shows "filter (\<lambda>(i, j). i + j = s) (loop_pairs L) = map (\<lambda>i. (i, s - i)) [s - (L - 1)..<s div 2 + 1]"
proof -
  have "filter (\<lambda>(i, j). i + j = s) (loop_pairs L)
      = concat (map (\<lambda>i. map (\<lambda>j. (i, j)) (filter (\<lambda>j. i + j = s) [i..<L])) [0..<L])"
    by (simp add: loop_pairs_def filter_concat o_def filter_map)
  also have "\<dots> = concat (map (\<lambda>i. if i + i \<le> s \<and> s < i + L then [(i, s - i)] else []) [0..<L])"
    by (intro arg_cong [of _ _ concat] map_cong) (auto simp: filter_pairs_inner)
  also have "\<dots> = map (\<lambda>i. (i, s - i)) (filter (\<lambda>i. i + i \<le> s \<and> s < i + L) [0..<L])"
    by (rule concat_map_if)
  also have "filter (\<lambda>i. i + i \<le> s \<and> s < i + L) [0..<L] = [s - (L - 1)..<s div 2 + 1]"
  proof (rule sorted_distinct_set_unique)
    show "sorted (filter (\<lambda>i. i + i \<le> s \<and> s < i + L) [0..<L])" by (rule sorted_wrt_filter) simp
  qed (use assms in \<open>auto simp del: upt_Suc\<close>)
  finally show ?thesis .
qed

lemma fill_buckets:
  assumes "\<forall>(i, j)\<in>set ps. i + j < length B"
  shows "length (foldl (fill_bucket q X) B ps) = length B
    \<and> (\<forall>s<length B. foldl (fill_bucket q X) B ps ! s
        = B ! s @ map (\<lambda>(i, j). X ! i * X ! j mod q) (filter (\<lambda>(i, j). i + j = s) ps))"
  using assms
proof (induction ps arbitrary: B)
  case Nil
  then show ?case by simp
next
  case (Cons p ps)
  obtain i j where p: "p = (i, j)" by force
  have len: "length (fill_bucket q X B p) = length B" by (simp add: p fill_bucket_def)
  have "\<forall>(i, j)\<in>set ps. i + j < length (fill_bucket q X B p)" using Cons.prems len by auto
  from Cons.IH [OF this] show ?case
    using Cons.prems by (auto simp: len p fill_bucket_def nth_list_update)
qed

lemma loop_pairs_bound: "(i, j) \<in> set (loop_pairs L) \<longleftrightarrow> i \<le> j \<and> j < L"
proof
  assume "i \<le> j \<and> j < L"
  then show "(i, j) \<in> set (loop_pairs L)" by (auto simp: loop_pairs_def intro!: bexI [of _ i])
qed (auto simp: loop_pairs_def)

lemma monomials_pairs:
  assumes "0 < length X"
  shows "monomials q X = map (\<lambda>(i, j). (X ! i mod q) * (X ! j mod q) mod q) (pair_list (length X))"
proof (cases "length X = 1")
  case True
  then have "pair_list (length X) = [(0, 0)]" by (simp add: pair_list_def)
  moreover obtain x where "X = [x]" using True by (auto simp: length_Suc_conv)
  ultimately show ?thesis by (simp add: monomials_def eval_level2_def power2_eq_square)
next
  case False
  let ?L = "length X" and ?Y = "map (\<lambda>a. a mod q) X"
  let ?B = "foldl (fill_bucket q ?Y) (replicate (2 * (?L - 1) + 1) []) (loop_pairs ?L)"
  have bound: "\<forall>(i, j)\<in>set (loop_pairs ?L). i + j < length (replicate (2 * (?L - 1) + 1) ([] :: int list))"
    by (auto simp: loop_pairs_bound)
  note f = fill_buckets [OF bound, of q ?Y]
  define F where "F = (\<lambda>s. map (\<lambda>i. ?Y ! i * ?Y ! (s - i) mod q) [s - (?L - 1)..<s div 2 + 1])"
  have B: "?B = map F [0..<2 * ?L - 1]"
  proof (rule nth_equalityI)
    show len: "length ?B = length (map F [0..<2 * ?L - 1])"
      using f assms by (simp, cases ?L) simp_all
    fix s assume "s < length ?B"
    then have s: "s < 2 * (?L - 1) + 1" using f by simp
    then have "?B ! s = map (\<lambda>(i, j). ?Y ! i * ?Y ! j mod q) (filter (\<lambda>(i, j). i + j = s) (loop_pairs ?L))"
      using f by (simp del: replicate_Suc replicate.simps)
    also have "\<dots> = F s"
      unfolding filter_loop_pairs [OF assms] F_def by (simp add: o_def del: upt_Suc)
    finally have Bs: "?B ! s = F s" .
    show "?B ! s = map F [0..<2 * ?L - 1] ! s"
    proof -
      have "s < 2 * ?L - 1" using s assms by arith
      then have "map F [0..<2 * ?L - 1] ! s = F s" by simp
      then show ?thesis using Bs by simp
    qed
  qed
  have ne: "filter (\<lambda>b. b \<noteq> []) ?B = ?B"
    unfolding B by (rule filter_True) (auto simp: F_def)
  have "monomials q X = concat ?B" using False ne by (simp add: monomials_def eval_level2_def)
  also have "\<dots> = map (\<lambda>(i, j). ?Y ! i * ?Y ! j mod q) (pair_list ?L)"
    unfolding B by (simp add: F_def pair_list_def map_concat o_def del: upt_Suc)
  also have "\<dots> = map (\<lambda>(i, j). (X ! i mod q) * (X ! j mod q) mod q) (pair_list ?L)"
  proof (rule map_cong [OF refl])
    fix p assume "p \<in> set (pair_list ?L)"
    then have "fst p < ?L" "snd p < ?L" by (auto simp: pair_list_def)
    then show "(\<lambda>(i, j). ?Y ! i * ?Y ! j mod q) p = (\<lambda>(i, j). (X ! i mod q) * (X ! j mod q) mod q) p"
      by (simp add: case_prod_beta)
  qed
  finally show ?thesis .
qed

lemma set_pair_list: "(i, j) \<in> set (pair_list L) \<longleftrightarrow> i \<le> j \<and> j < L"
proof
  assume "(i, j) \<in> set (pair_list L)"
  then show "i \<le> j \<and> j < L" by (auto simp: pair_list_def)
next
  assume ij: "i \<le> j \<and> j < L"
  then have "i + j - (L - 1) \<le> i" "i < (i + j) div 2 + 1" "i + j < 2 * L - 1" by auto
  then have "(i, i + j - i) \<in> set (pair_list L)" by (force simp: pair_list_def)
  then show "(i, j) \<in> set (pair_list L)" by simp
qed

section \<open>The fast fold\<close>

lemma distinct_blocks:
  assumes "\<And>s. distinct (g s)" "\<And>s p. p \<in> set (g s) \<Longrightarrow> h p = (s :: nat)"
  shows "distinct (concat (map g [0..<m]))"
proof (induction m)
  case (Suc m)
  have "h p < m" if "p \<in> set (concat (map g [0..<m]))" for p using that assms(2) by auto
  then have "set (concat (map g [0..<m])) \<inter> set (g m) = {}" using assms(2) [of _ m] by blast
  then show ?case using Suc assms(1) by simp
qed simp

lemma distinct_pair_list: "distinct (pair_list L)"
  unfolding pair_list_def
proof (rule distinct_blocks [where h = "\<lambda>(i, j). i + j"])
  show "distinct (map (\<lambda>i. (i, s - i)) [s - (L - 1)..<s div 2 + 1])" for s
    by (simp add: distinct_map inj_on_def del: upt_Suc)
qed (auto simp del: upt_Suc)

lemma sum_pair_list: "sum_list (map f (pair_list L)) = (\<Sum>j<L. \<Sum>i\<le>j. f (i, j) :: int)"
proof -
  have "set (pair_list L) = (\<lambda>(j, i). (i, j)) ` (SIGMA j:{..<L}. {..j})" by (force simp: set_pair_list)
  moreover have "inj_on (\<lambda>(j, i). (i, j)) (SIGMA j:{..<L}. {..j})" by (auto simp: inj_on_def)
  ultimately have "sum f (set (pair_list L)) = (\<Sum>(j, i)\<in>(SIGMA j:{..<L}. {..j}). f (i, j))"
    by (simp add: sum.reindex case_prod_unfold)
  also have "\<dots> = (\<Sum>j<L. \<Sum>i\<le>j. f (i, j))" by (subst sum.Sigma) simp_all
  finally show ?thesis by (simp add: sum.distinct_set_conv_list [OF distinct_pair_list])
qed

lemma sum_mod_cong:
  assumes "\<And>i. i \<in> A \<Longrightarrow> f i mod q = g i mod (q :: int)"
  shows "sum f A mod q = sum g A mod q"
proof -
  have "sum f A mod q = (\<Sum>i\<in>A. f i mod q) mod q" by (rule mod_sum_eq [symmetric])
  also have "(\<Sum>i\<in>A. f i mod q) = (\<Sum>i\<in>A. g i mod q)" using assms by (rule sum.cong [OF refl])
  also have "\<dots> mod q = sum g A mod q" by (rule mod_sum_eq)
  finally show ?thesis .
qed

lemma newton2:
  fixes y :: "nat \<Rightarrow> int"
  shows "2 * (\<Sum>j<L. \<Sum>i\<le>j. y i * y j) = (\<Sum>i<L. y i) * (\<Sum>i<L. y i) + (\<Sum>i<L. y i * y i)"
proof (induction L)
  case (Suc L)
  have "(\<Sum>i\<le>L. y i * y L) = (\<Sum>i<L. y i) * y L + y L * y L"
    by (simp add: lessThan_Suc_atMost [symmetric] sum_distrib_right)
  then show ?case using Suc by (simp add: algebra_simps)
qed simp

lemma fast_h2_sums:
  assumes "length w = length x"
  shows "fast_h2 q w x = (let y = \<lambda>i. w ! i * x ! i mod q in
    ((\<Sum>i<length x. y i) * (\<Sum>i<length x. y i) + (\<Sum>i<length x. y i * y i)) * half q mod q)"
proof -
  have f: "foldl (\<lambda>(e1, p2) (wi, xi). let y = wi * xi mod q in (e1 + y, p2 + y * y)) (a, b) ps
      = (a + sum_list (map (\<lambda>(wi, xi). wi * xi mod q) ps), b + sum_list (map (\<lambda>(wi, xi). (wi * xi mod q) * (wi * xi mod q)) ps))"
    for a b :: int and ps
    by (induction ps arbitrary: a b) (auto simp: Let_def add.assoc)
  have m: "((e mod q) * (e mod q) + p) mod q * h mod q = (e * e + p) * h mod q" for e p h :: int
    by (metis mod_add_left_eq mod_mult_eq mod_mult_left_eq)
  have s: "sum_list (map g (zip w x)) = (\<Sum>i<length x. g (w ! i, x ! i))" for g :: "int \<times> int \<Rightarrow> int"
    by (simp add: sum_list_sum_nth atLeast0LessThan assms)
  show ?thesis
    unfolding fast_h2_def f [unfolded Let_def] s Let_def by (simp add: m)
qed

lemma eval_sparse_dense:
  assumes "length cs = length xs"
  shows "eval_sparse xs (sparse cs) = sum_list (map2 (*) cs xs)"
proof -
  have f: "foldl (\<lambda>acc (k, c). acc + c * xs ! k) a ps = a + sum_list (map (\<lambda>(k, c). c * xs ! k) ps)" for a ps
    by (induction ps arbitrary: a) (auto simp: add.assoc)
  have "sum_list (map (\<lambda>(k, c). c * xs ! k) (filter (\<lambda>(k, c). c \<noteq> 0) ps)) = sum_list (map (\<lambda>(k, c). c * xs ! k) ps)" for ps
    by (induction ps) auto
  then have "eval_sparse xs (sparse cs) = sum_list (map (\<lambda>(k, c). c * xs ! k) (enumerate 0 cs))"
    unfolding eval_sparse_def sparse_def f by simp
  also have "\<dots> = sum_list (map2 (*) cs xs)"
    by (intro arg_cong [of _ _ sum_list] nth_equalityI) (use assms in \<open>auto simp: nth_enumerate_eq\<close>)
  finally show ?thesis .
qed

text \<open>The shortcut is the row. Over a field of odd modulus, \<open>fast_h2\<close>, which adds up the
  weighted coordinates and their squares in linear time, has the value of the fold row the
  constructor builds coefficient by coefficient over all pairs of variables, evaluated at the
  monomial vector.\<close>

theorem fast_h2_is_fold_row:
  fixes q :: int
  assumes "odd q" "0 < length x" "length w = length x"
  shows "fast_h2 q w x = eval_sparse (monomials q x) (mq_qs (fold_row q (length x) f w)) mod q"
proof -
  let ?L = "length x" and ?y = "\<lambda>i. w ! i * x ! i mod q"
  let ?c = "\<lambda>(i, j). w ! i * w ! j mod q" and ?m = "\<lambda>(i, j). (x ! i mod q) * (x ! j mod q) mod q"
  have h: "2 * half q mod q = 1 mod q"
  proof -
    have "2 * half q = 1 + q" using assms(1) unfolding half_def by presburger
    then show ?thesis by simp
  qed
  have "eval_sparse (monomials q x) (mq_qs (fold_row q ?L f w)) = sum_list (map2 (*) (map ?c (pair_list ?L)) (map ?m (pair_list ?L)))"
    unfolding fold_row_def by (simp add: monomials_pairs [OF assms(2)] eval_sparse_dense)
  also have "\<dots> = (\<Sum>j<?L. \<Sum>i\<le>j. ?c (i, j) * ?m (i, j))"
  proof -
    have "sum_list (map2 (*) (map c ps) (map m ps)) = sum_list (map (\<lambda>p. c p * m p) ps)" for c m :: "nat \<times> nat \<Rightarrow> int" and ps
      by (induction ps) auto
    then show ?thesis using sum_pair_list [of "\<lambda>p. ?c p * ?m p" ?L] by simp
  qed
  also have "\<dots> mod q = (\<Sum>j<?L. \<Sum>i\<le>j. ?y i * ?y j) mod q"
  proof -
    have "(?c (i, j) * ?m (i, j)) mod q = (?y i * ?y j) mod q" for i j
    proof -
      have "(a * b mod q) * ((c mod q) * (d mod q) mod q) mod q = (a * b) * (c * d) mod q" for a b c d
        by (metis mod_mult_eq mod_mult_right_eq mod_mod_trivial)
      moreover have "(a * c mod q) * (b * d mod q) mod q = (a * c) * (b * d) mod q" for a b c d by (rule mod_mult_eq)
      ultimately show ?thesis by (simp add: mult.assoc mult.left_commute)
    qed
    then show ?thesis by (intro sum_mod_cong)
  qed
  also have "\<dots> = (2 * half q) * (\<Sum>j<?L. \<Sum>i\<le>j. ?y i * ?y j) mod q"
    using mod_mult_cong [OF h refl] by simp
  also have "\<dots> = fast_h2 q w x"
    unfolding fast_h2_sums [OF assms(3)] Let_def newton2 [symmetric] by (simp add: algebra_simps)
  finally show ?thesis by simp
qed

theorem fast_h2_is_fold_row_witness:
  "fast_h2 7 [1, 2] [3, 4] = eval_sparse (monomials 7 [3, 4]) (mq_qs (fold_row 7 2 0 [1, 2])) mod 7"
  using fast_h2_is_fold_row [of 7 "[3, 4]" "[1, 2]" 0] by (simp add: numeral_2_eq_2)

end
