(* ===== verification/TxSystem.thy ===== *)
theory TxSystem
  imports Notes
begin

text \<open>
  The quadratic map of one transaction: \<open>chain/txsystem.py\<close>.

  \<open>tx_sys\<close> is \<open>TxSystem\<close>: the rows in build order with the index lists that name them.
  \<open>tx_system\<close> builds it the way the constructor does, appending rows through \<open>add_rows\<close>, and
  \<open>tx_F\<close> evaluates it with the source's shortcut per kind of row. The first lemmas give each
  row's value as a formula in the variables; from them come the two directions that make the
  system right: a vector that satisfies the rows \<open>authenticate\<close> checks conserves value over the
  integers with every output in range, and the vector of honest notes satisfies those rows.
\<close>

datatype tx_kind = NFold nat nat | NRow nat nat | LinRow | BitRow nat | NfRow nat

record tx_row =
  tr_qs :: "(nat \<times> int) list"
  tr_lins :: "(nat \<times> int) list"
  tr_kind :: tx_kind

record tx_sys =
  ts_k :: nat
  ts_m_out :: nat
  ts_nsys :: mq_sys
  ts_n_note :: nat
  ts_range_bits :: nat
  ts_rows :: "tx_row list"
  ts_note_rows :: "nat list list"
  ts_sum_row :: nat
  ts_asset_rows :: "nat list"
  ts_range_rows :: "nat list"
  ts_bit_rows :: "nat list"
  ts_nf_rows :: "nat list"
  ts_owner_rows :: "nat list"
  ts_bind_row :: nat

definition n_slots :: "tx_sys \<Rightarrow> nat" where
  "n_slots ts = ts_k ts + ts_m_out ts"

definition bind_pos :: "tx_sys \<Rightarrow> nat" where
  "bind_pos ts = n_slots ts * ts_n_note ts"

definition base_n :: "tx_sys \<Rightarrow> nat" where
  "base_n ts = bind_pos ts + 1"

definition total_N :: "tx_sys \<Rightarrow> nat" where
  "total_N ts = base_n ts + ts_m_out ts * ts_range_bits ts"

section \<open>Building the rows\<close>

definition clean_row :: "tx_row \<Rightarrow> tx_row" where
  "clean_row r = r\<lparr>tr_qs := filter (\<lambda>(k, c). c \<noteq> 0) (tr_qs r), tr_lins := filter (\<lambda>(k, c). c \<noteq> 0) (tr_lins r)\<rparr>"

definition add_rows :: "tx_row list \<Rightarrow> tx_row list \<Rightarrow> tx_row list \<times> nat list" where
  "add_rows specs rows = (rows @ map clean_row specs, [length rows..<length rows + length specs])"

text \<open>The index map over the base block; a missing pair, a \<open>KeyError\<close>, does not occur.\<close>

definition pair_index :: "nat \<Rightarrow> nat \<times> nat \<Rightarrow> nat" where
  "pair_index n p = (case index_in p (pair_list n) of Some k \<Rightarrow> k | None \<Rightarrow> 0)"

definition lin_spec :: "(nat \<times> int) list \<Rightarrow> tx_row" where
  "lin_spec lins = \<lparr>tr_qs = [], tr_lins = lins, tr_kind = LinRow\<rparr>"

definition note_spec :: "mq_sys \<Rightarrow> nat \<Rightarrow> nat \<Rightarrow> nat \<Rightarrow> nat \<times> mq_row \<Rightarrow> tx_row" where
  "note_spec sys n wd s = (\<lambda>(l, r). let off = s * wd in
     \<lparr>tr_qs = map (\<lambda>(kk, c). let (i, j) = pair_list wd ! kk in (pair_index n (off + i, off + j), c)) (mq_qs r),
      tr_lins = map (\<lambda>(i, c). (off + i, c)) (mq_lins r),
      tr_kind = (case mq_kind r of Fold f \<Rightarrow> NFold s f | Dense \<Rightarrow> NRow s l)\<rparr>)"

definition sum_spec :: "int \<Rightarrow> nat \<Rightarrow> nat \<Rightarrow> nat \<Rightarrow> tx_row" where
  "sum_spec q wd k slots =
     lin_spec (map (\<lambda>s. (s * wd + NOTE_VALUE, if s < k then 1 else q - 1)) [0..<slots])"

definition asset_spec :: "int \<Rightarrow> nat \<Rightarrow> nat \<Rightarrow> tx_row" where
  "asset_spec q wd s = lin_spec [(s * wd + NOTE_ASSET, 1), (NOTE_ASSET, q - 1)]"

definition range_spec :: "int \<Rightarrow> nat \<Rightarrow> nat \<Rightarrow> nat \<Rightarrow> nat \<Rightarrow> nat \<Rightarrow> tx_row" where
  "range_spec q wd k bit_off B i =
     lin_spec ((((k + i) * wd + NOTE_VALUE), 1)
       # map (\<lambda>b. (bit_off + i * B + b, (q - 2 ^ b mod q) mod q)) [0..<B])"

definition bit_spec :: "int \<Rightarrow> nat \<Rightarrow> nat \<Rightarrow> nat \<Rightarrow> tx_row" where
  "bit_spec q n_base bit_off bk =
     \<lparr>tr_qs = [(length (pair_list n_base) + bk, 1)], tr_lins = [(bit_off + bk, q - 1)], tr_kind = BitRow (bit_off + bk)\<rparr>"

definition nf_spec :: "prims \<Rightarrow> nat \<Rightarrow> nat \<Rightarrow> nat \<Rightarrow> tx_row" where
  "nf_spec P wd n j =
     \<lparr>tr_qs = map (\<lambda>(i, jj, c). (pair_index n (j * wd + i, j * wd + jj), c)) (nullifier_coeffs P wd),
      tr_lins = [], tr_kind = NfRow j\<rparr>"

definition owner_spec :: "nat \<Rightarrow> nat \<Rightarrow> tx_row" where
  "owner_spec wd j = lin_spec [(j * wd + NOTE_OWNER, 1)]"

definition add_note_rows :: "mq_sys \<Rightarrow> nat \<Rightarrow> nat \<Rightarrow> tx_row list \<times> nat list list \<Rightarrow> nat \<Rightarrow> tx_row list \<times> nat list list" where
  "add_note_rows sys n wd = (\<lambda>(rows, nr) s.
     let (rows', ix) = add_rows (map (note_spec sys n wd s) (enumerate 0 (sy_rows sys))) rows
     in (rows', nr @ [ix]))"

definition tx_build :: "prims \<Rightarrow> int \<Rightarrow> mq_sys \<Rightarrow> nat \<Rightarrow> nat \<Rightarrow> nat \<Rightarrow> nat \<Rightarrow> tx_sys" where
  "tx_build P q sys wd B k m =
     (let slots = k + m; bpos = slots * wd; n = bpos + 1; boff = n;
          (r0, note_rows) = foldl (add_note_rows sys n wd) ([], []) [0..<slots];
          (r1, sum) = add_rows [sum_spec q wd k slots] r0;
          (r2, assets) = add_rows (map (asset_spec q wd) [1..<slots]) r1;
          (r3, ranges) = add_rows (map (range_spec q wd k boff B) [0..<m]) r2;
          (r4, bits) = add_rows (map (bit_spec q n boff) [0..<m * B]) r3;
          (r5, nfs) = add_rows (map (nf_spec P wd n) [0..<k]) r4;
          (r6, owners) = add_rows (map (owner_spec wd) [0..<k]) r5;
          (r7, bind) = add_rows [lin_spec [(bpos, 1)]] r6
      in \<lparr>ts_k = k, ts_m_out = m, ts_nsys = sys, ts_n_note = wd, ts_range_bits = B, ts_rows = r7,
          ts_note_rows = note_rows, ts_sum_row = hd sum, ts_asset_rows = assets, ts_range_rows = ranges,
          ts_bit_rows = bits, ts_nf_rows = nfs, ts_owner_rows = owners, ts_bind_row = hd bind\<rparr>)"

definition tx_system :: "prims \<Rightarrow> int \<Rightarrow> chain_params \<Rightarrow> nat \<Rightarrow> nat \<Rightarrow> exn + tx_sys" where
  "tx_system P q params k m =
     (if m < 1 then Inl ValueError
      else bindR (note_system P q params) (\<lambda>sys.
        Inr (tx_build P q sys (nat (n_note params)) (nat (range_bits params)) k m)))"

section \<open>Evaluation\<close>

definition tx_bits :: "tx_sys \<Rightarrow> int list \<Rightarrow> int list" where
  "tx_bits ts x = concat (map (\<lambda>i. map (\<lambda>b. x ! ((ts_k ts + i) * ts_n_note ts + NOTE_VALUE) div 2 ^ b mod 2)
     [0..<ts_range_bits ts]) [0..<ts_m_out ts])"

definition tx_lift :: "int \<Rightarrow> tx_sys \<Rightarrow> int list \<Rightarrow> exn + int list" where
  "tx_lift q ts x_base =
     (let x = map (\<lambda>a. a mod q) x_base
      in if length x \<noteq> base_n ts then Inl ValueError else Inr (x @ tx_bits ts x))"

definition tx_eval_row :: "int \<Rightarrow> tx_sys \<Rightarrow> int list \<Rightarrow> tx_row \<Rightarrow> int" where
  "tx_eval_row q ts X r =
     (let x_base = take (base_n ts) X in
      case tr_kind r of
        NFold s f \<Rightarrow> fast_h2 q (sy_W (ts_nsys ts) ! f) (take (ts_n_note ts) (drop (s * ts_n_note ts) x_base))
      | LinRow \<Rightarrow> eval_sparse X (tr_lins r) mod q
      | BitRow bv \<Rightarrow> (X ! bv * X ! bv - X ! bv) mod q
      | _ \<Rightarrow> (eval_sparse (monomials q x_base) (tr_qs r) + eval_sparse X (tr_lins r)) mod q)"

definition tx_F :: "int \<Rightarrow> tx_sys \<Rightarrow> int list \<Rightarrow> exn + int list" where
  "tx_F q ts X0 =
     (if length X0 \<noteq> total_N ts then Inl ValueError
      else let X = map (\<lambda>a. a mod q) X0 in Inr (map (tx_eval_row q ts X) (ts_rows ts)))"

definition note_vector_of :: "tx_sys \<Rightarrow> int list \<Rightarrow> nat \<Rightarrow> int list" where
  "note_vector_of ts v s = map (\<lambda>r. v ! r) (ts_note_rows ts ! s)"

section \<open>Rows by name\<close>

definition named :: "tx_row list \<Rightarrow> nat list \<Rightarrow> tx_row list \<Rightarrow> bool" where
  "named rows ix specs \<longleftrightarrow> length ix = length specs
     \<and> (\<forall>i<length specs. ix ! i < length rows \<and> rows ! (ix ! i) = clean_row (specs ! i))"

lemma add_rows_named:
  assumes "add_rows specs rows = (rows', ix)"
  shows "named rows' ix specs" and "named rows ix' specs' \<Longrightarrow> named rows' ix' specs'"
  using assms by (auto simp: add_rows_def named_def nth_append)

lemma add_note_rows_named:
  assumes "foldl (add_note_rows sys n wd) ([], []) [0..<t] = (rows, nr)"
  shows "length nr = t \<and> (\<forall>s<t. named rows (nr ! s) (map (note_spec sys n wd s) (enumerate 0 (sy_rows sys))))"
  using assms
proof (induction t arbitrary: rows nr)
  case 0
  then show ?case by simp
next
  case (Suc t)
  obtain rows0 nr0 where 0: "foldl (add_note_rows sys n wd) ([], []) [0..<t] = (rows0, nr0)" by force
  obtain ix where 1: "add_rows (map (note_spec sys n wd t) (enumerate 0 (sy_rows sys))) rows0 = (rows, ix)" "nr = nr0 @ [ix]"
    using Suc.prems 0 by (auto simp: add_note_rows_def split: prod.splits)
  note IH = Suc.IH [OF 0]
  show ?case using IH add_rows_named [OF 1(1)] by (auto simp: 1(2) nth_append less_Suc_eq)
qed

lemma tx_build_rows:
  fixes P q sys wd B k m
  defines "ts \<equiv> tx_build P q sys wd B k m" and "n \<equiv> (k + m) * wd + 1"
  shows "ts_k ts = k" "ts_m_out ts = m" "ts_nsys ts = sys" "ts_n_note ts = wd" "ts_range_bits ts = B"
    and "length (ts_note_rows ts) = k + m"
    and "s < k + m \<Longrightarrow> named (ts_rows ts) (ts_note_rows ts ! s) (map (note_spec sys n wd s) (enumerate 0 (sy_rows sys)))"
    and "named (ts_rows ts) [ts_sum_row ts] [sum_spec q wd k (k + m)]"
    and "named (ts_rows ts) (ts_asset_rows ts) (map (asset_spec q wd) [1..<k + m])"
    and "named (ts_rows ts) (ts_range_rows ts) (map (range_spec q wd k n B) [0..<m])"
    and "named (ts_rows ts) (ts_bit_rows ts) (map (bit_spec q n n) [0..<m * B])"
    and "named (ts_rows ts) (ts_nf_rows ts) (map (nf_spec P wd n) [0..<k])"
    and "named (ts_rows ts) (ts_owner_rows ts) (map (owner_spec wd) [0..<k])"
    and "named (ts_rows ts) [ts_bind_row ts] [lin_spec [((k + m) * wd, 1)]]"
proof -
  obtain r0 nr where r0: "foldl (add_note_rows sys n wd) ([], []) [0..<k + m] = (r0, nr)" by force
  obtain r1 sm where r1: "add_rows [sum_spec q wd k (k + m)] r0 = (r1, sm)" by force
  obtain r2 as where r2: "add_rows (map (asset_spec q wd) [1..<k + m]) r1 = (r2, as)" by force
  obtain r3 rs where r3: "add_rows (map (range_spec q wd k n B) [0..<m]) r2 = (r3, rs)" by force
  obtain r4 bs where r4: "add_rows (map (bit_spec q n n) [0..<m * B]) r3 = (r4, bs)" by force
  obtain r5 nf where r5: "add_rows (map (nf_spec P wd n) [0..<k]) r4 = (r5, nf)" by force
  obtain r6 ow where r6: "add_rows (map (owner_spec wd) [0..<k]) r5 = (r6, ow)" by force
  obtain r7 bd where r7: "add_rows [lin_spec [((k + m) * wd, 1)]] r6 = (r7, bd)" by force
  have ts: "ts = \<lparr>ts_k = k, ts_m_out = m, ts_nsys = sys, ts_n_note = wd, ts_range_bits = B, ts_rows = r7,
      ts_note_rows = nr, ts_sum_row = hd sm, ts_asset_rows = as, ts_range_rows = rs,
      ts_bit_rows = bs, ts_nf_rows = nf, ts_owner_rows = ow, ts_bind_row = hd bd\<rparr>"
    using r0 r1 r2 r3 r4 r5 r6 r7 by (simp add: ts_def tx_build_def Let_def n_def)
  have sm: "sm = [hd sm]" "bd = [hd bd]" using r1 r7 by (auto simp: add_rows_def)
  note nr = add_note_rows_named [OF r0]
  note up = add_rows_named(2) [OF r1] add_rows_named(2) [OF r2] add_rows_named(2) [OF r3] add_rows_named(2) [OF r4]
    add_rows_named(2) [OF r5] add_rows_named(2) [OF r6] add_rows_named(2) [OF r7]
  show "ts_k ts = k" "ts_m_out ts = m" "ts_nsys ts = sys" "ts_n_note ts = wd" "ts_range_bits ts = B" "length (ts_note_rows ts) = k + m"
    using nr by (simp_all add: ts)
  show "s < k + m \<Longrightarrow> named (ts_rows ts) (ts_note_rows ts ! s) (map (note_spec sys n wd s) (enumerate 0 (sy_rows sys)))"
    using nr by (simp add: ts up)
  show "named (ts_rows ts) [ts_sum_row ts] [sum_spec q wd k (k + m)]"
    using add_rows_named(1) [OF r1] sm by (simp add: ts up)
  show "named (ts_rows ts) (ts_asset_rows ts) (map (asset_spec q wd) [1..<k + m])"
    using add_rows_named(1) [OF r2] by (simp add: ts up)
  show "named (ts_rows ts) (ts_range_rows ts) (map (range_spec q wd k n B) [0..<m])"
    using add_rows_named(1) [OF r3] by (simp add: ts up)
  show "named (ts_rows ts) (ts_bit_rows ts) (map (bit_spec q n n) [0..<m * B])"
    using add_rows_named(1) [OF r4] by (simp add: ts up)
  show "named (ts_rows ts) (ts_nf_rows ts) (map (nf_spec P wd n) [0..<k])"
    using add_rows_named(1) [OF r5] by (simp add: ts up)
  show "named (ts_rows ts) (ts_owner_rows ts) (map (owner_spec wd) [0..<k])"
    using add_rows_named(1) [OF r6] by (simp add: ts up)
  show "named (ts_rows ts) [ts_bind_row ts] [lin_spec [((k + m) * wd, 1)]]"
    using add_rows_named(1) [OF r7] sm by (simp add: ts)
qed

section \<open>Rows as polynomials\<close>

lemma eval_sparse_sum: "eval_sparse xs ps = sum_list (map (\<lambda>(k, c). c * xs ! k) ps)"
proof -
  have "foldl (\<lambda>acc (k, c). acc + c * xs ! k) a ps = a + sum_list (map (\<lambda>(k, c). c * xs ! k) ps)" for a
    by (induction ps arbitrary: a) (auto simp: add.assoc)
  then show ?thesis by (simp add: eval_sparse_def)
qed

lemma eval_sparse_filter [simp]: "eval_sparse xs (filter (\<lambda>(k, c). c \<noteq> 0) ps) = eval_sparse xs ps"
  by (induction ps) (auto simp: eval_sparse_sum)

lemma eval_clean_row [simp]: "tx_eval_row q ts X (clean_row r) = tx_eval_row q ts X r"
proof -
  have "tr_kind (clean_row r) = tr_kind r"
    "eval_sparse xs (tr_qs (clean_row r)) = eval_sparse xs (tr_qs r)"
    "eval_sparse xs (tr_lins (clean_row r)) = eval_sparse xs (tr_lins r)" for xs
    by (simp_all add: clean_row_def)
  then show ?thesis by (cases "tr_kind r") (simp_all add: tx_eval_row_def Let_def)
qed

lemma eval_lin_spec: "tx_eval_row q ts X (lin_spec lins) = sum_list (map (\<lambda>(k, c). c * X ! k) lins) mod q"
  by (simp add: tx_eval_row_def lin_spec_def eval_sparse_sum)

lemma named_value:
  assumes "named (ts_rows ts) ix specs" "v = map (tx_eval_row q ts X) (ts_rows ts)" "i < length specs"
  shows "v ! (ix ! i) = tx_eval_row q ts X (specs ! i)"
  using assms by (simp add: named_def)

lemma named_zero:
  assumes "named (ts_rows ts) ix specs" "v = map (tx_eval_row q ts X) (ts_rows ts)"
  shows "(\<forall>r\<in>set ix. v ! r = 0) \<longleftrightarrow> (\<forall>sp\<in>set specs. tx_eval_row q ts X sp = 0)"
proof -
  have len: "length ix = length specs" using assms(1) by (simp add: named_def)
  have "(\<forall>r\<in>set ix. v ! r = 0) \<longleftrightarrow> (\<forall>i<length ix. v ! (ix ! i) = 0)" by (rule all_set_conv_all_nth)
  also have "\<dots> \<longleftrightarrow> (\<forall>i<length specs. tx_eval_row q ts X (specs ! i) = 0)"
    using named_value [OF assms] len by simp
  also have "\<dots> \<longleftrightarrow> (\<forall>sp\<in>set specs. tx_eval_row q ts X sp = 0)" by (rule all_set_conv_all_nth [symmetric])
  finally show ?thesis .
qed

lemma sum_list_upt: "sum_list (map f [0..<n]) = (\<Sum>i<n. f i :: int)"
  by (simp add: interv_sum_list_conv_sum_set_nat lessThan_atLeast0)

lemma mod_sum_coeff:
  fixes n :: nat
  assumes "\<And>i. i < n \<Longrightarrow> c i mod q = d i mod (q :: int)"
  shows "(\<Sum>i<n. c i * f i) mod q = (\<Sum>i<n. d i * f i) mod q"
  using assms
proof (induction n)
  case (Suc n)
  then have "c n * f n mod q = d n * f n mod q" by (blast intro: mod_mult_cong)
  moreover have "(\<Sum>i<n. c i * f i) mod q = (\<Sum>i<n. d i * f i) mod q" using Suc by simp
  ultimately show ?case unfolding sum.lessThan_Suc by (rule mod_add_cong [rotated])
qed simp

section \<open>What the checked rows force\<close>

definition val_pos :: "tx_sys \<Rightarrow> nat \<Rightarrow> nat" where
  "val_pos ts s = s * ts_n_note ts + NOTE_VALUE"

lemma eval_sum_spec:
  "tx_eval_row q ts X (sum_spec q wd k (k + m))
    = ((\<Sum>s<k. X ! (s * wd + NOTE_VALUE)) - (\<Sum>i<m. X ! ((k + i) * wd + NOTE_VALUE))) mod q"
proof -
  let ?v = "\<lambda>s. X ! (s * wd + NOTE_VALUE)"
  have "[0..<k + m] = [0..<k] @ map (\<lambda>i. k + i) [0..<m]"
    by (rule nth_equalityI) (auto simp: nth_append)
  then have "sum_list (map (\<lambda>(j, c). c * X ! j) (map (\<lambda>s. (s * wd + NOTE_VALUE, if s < k then 1 else q - 1)) [0..<k + m]))
      = sum_list (map ?v [0..<k]) + sum_list (map (\<lambda>i. (q - 1) * ?v (k + i)) [0..<m])"
    by (simp add: o_def sum_list_upt)
  also have "\<dots> = (\<Sum>s<k. ?v s) + (q - 1) * (\<Sum>i<m. ?v (k + i))"
    by (simp add: sum_list_upt sum_distrib_left)
  also have "\<dots> = ((\<Sum>s<k. ?v s) - (\<Sum>i<m. ?v (k + i))) + (\<Sum>i<m. ?v (k + i)) * q"
    by (simp add: algebra_simps)
  finally show ?thesis unfolding sum_spec_def eval_lin_spec by simp
qed

lemma eval_asset_spec:
  "tx_eval_row q ts X (asset_spec q wd s) = (X ! (s * wd + NOTE_ASSET) - X ! NOTE_ASSET) mod q"
proof -
  have "X ! (s * wd + NOTE_ASSET) + (q - 1) * X ! NOTE_ASSET = (X ! (s * wd + NOTE_ASSET) - X ! NOTE_ASSET) + X ! NOTE_ASSET * q"
    by (simp add: algebra_simps)
  then show ?thesis
    unfolding asset_spec_def eval_lin_spec by (simp only: list.map split sum_list.Cons sum_list.Nil mult_1 add_0_right mod_mult_self1)
qed

lemma eval_range_spec:
  "tx_eval_row q ts X (range_spec q wd k boff B i)
    = (X ! ((k + i) * wd + NOTE_VALUE) - (\<Sum>b<B. 2 ^ b * X ! (boff + i * B + b))) mod q"
proof -
  let ?x = "X ! ((k + i) * wd + NOTE_VALUE)" and ?c = "\<lambda>b. (q - 2 ^ b mod q) mod q" and ?y = "\<lambda>b. X ! (boff + i * B + b)"
  have "?c b mod q = (- (2 ^ b)) mod q" for b by (metis minus_mod_self1 mod_minus_eq mod_mod_trivial uminus_add_conv_diff mod_add_self2 mod_diff_right_eq diff_0)
  then have "(\<Sum>b<B. ?c b * ?y b) mod q = (\<Sum>b<B. - (2 ^ b) * ?y b) mod q" by (intro mod_sum_coeff)
  then have "(?x + (\<Sum>b<B. ?c b * ?y b)) mod q = (?x + (\<Sum>b<B. - (2 ^ b) * ?y b)) mod q" by (rule mod_add_cong [OF refl])
  then show ?thesis unfolding range_spec_def eval_lin_spec by (simp add: o_def sum_list_upt sum_negf)
qed

lemma eval_bit_spec:
  "tx_eval_row q ts X (bit_spec q n boff bk) = (X ! (boff + bk) * X ! (boff + bk) - X ! (boff + bk)) mod q"
  by (simp add: tx_eval_row_def bit_spec_def Let_def)

lemma bits_bound:
  assumes "\<And>b. b < B \<Longrightarrow> x b = 0 \<or> x b = (1 :: int)"
  shows "0 \<le> (\<Sum>b<B. 2 ^ b * x b) \<and> (\<Sum>b<B. 2 ^ b * x b) < 2 ^ B"
  using assms
proof (induction B)
  case (Suc B)
  then have "x B = 0 \<or> x B = 1" "0 \<le> (\<Sum>b<B. 2 ^ b * x b) \<and> (\<Sum>b<B. 2 ^ b * x b) < 2 ^ B" by auto
  then show ?case by auto
qed simp

lemma mod_diff_zero_eq:
  fixes a b q :: int
  assumes "(a - b) mod q = 0" "0 \<le> a" "a < q" "0 \<le> b" "b < q"
  shows "a = b"
  using assms by (metis mod_eq_dvd_iff mod_0_imp_dvd mod_pos_pos_trivial)

text \<open>The tail of the proof: what the three row families say about the values.\<close>

lemma range_rows_bound:
  fixes q :: int
  assumes euclid: "\<forall>a b. q dvd a * b \<longrightarrow> q dvd a \<or> q dvd b"
    and X: "\<forall>i<length X. 0 \<le> X ! i \<and> X ! i < q"
    and len: "(k + i) * wd + NOTE_VALUE < length X" "boff + i * B + B \<le> length X"
    and B: "2 ^ B \<le> q"
    and range: "tx_eval_row q ts X (range_spec q wd k boff B i) = 0"
    and bits: "\<And>b. b < B \<Longrightarrow> tx_eval_row q ts X (bit_spec q n boff (i * B + b)) = 0"
  shows "X ! ((k + i) * wd + NOTE_VALUE) < 2 ^ B"
proof -
  let ?S = "\<Sum>b<B. 2 ^ b * X ! (boff + i * B + b)"
  have "X ! (boff + i * B + b) = 0 \<or> X ! (boff + i * B + b) = 1" if b: "b < B" for b
  proof -
    let ?y = "X ! (boff + i * B + b)"
    have y: "0 \<le> ?y" "?y < q" using X len b by simp_all
    have "(?y * ?y - ?y) mod q = 0" using bits [OF b] by (simp add: eval_bit_spec add.assoc)
    then have "q dvd ?y * (?y - 1)" unfolding right_diff_distrib mult_1_right by (rule mod_0_imp_dvd)
    with euclid have "q dvd ?y \<or> q dvd ?y - 1" by blast
    then show ?thesis
    proof
      assume "q dvd ?y"
      then show ?thesis using y zdvd_not_zless [of ?y q] by linarith
    next
      assume "q dvd ?y - 1"
      then show ?thesis using y zdvd_not_zless [of "?y - 1" q] zdvd_imp_le [of q "?y - 1"] by linarith
    qed
  qed
  then have S: "0 \<le> ?S \<and> ?S < 2 ^ B" by (rule bits_bound)
  have "(X ! ((k + i) * wd + NOTE_VALUE) - ?S) mod q = 0" using range unfolding eval_range_spec .
  moreover have "0 \<le> X ! ((k + i) * wd + NOTE_VALUE)" "X ! ((k + i) * wd + NOTE_VALUE) < q" using X len by auto
  ultimately have "X ! ((k + i) * wd + NOTE_VALUE) = ?S" by (rule mod_diff_zero_eq) (use S B in linarith)+
  then show ?thesis using S by simp
qed

section \<open>What the rows of a slot carry\<close>

lemma pair_index_monomial:
  assumes "i \<le> j" "j < length x"
  shows "monomials q x ! pair_index (length x) (i, j) = (x ! i mod q) * (x ! j mod q) mod q"
proof -
  obtain kk where kk: "index_in (i, j) (pair_list (length x)) = Some kk"
    using index_in_mem [of "(i, j)" "pair_list (length x)"] assms by (auto simp: set_pair_list)
  from index_in_Some [OF kk] have "kk < length (pair_list (length x)) \<and> pair_list (length x) ! kk = (i, j)" .
  moreover have "0 < length x" using assms by linarith
  ultimately show ?thesis by (simp add: pair_index_def kk monomials_pairs)
qed

definition row_wf :: "nat \<Rightarrow> mq_row \<Rightarrow> bool" where
  "row_wf n r = (case mq_kind r of Fold f \<Rightarrow> True
     | Dense \<Rightarrow> mq_lins r = [] \<and> (\<forall>(kk, c)\<in>set (mq_qs r). kk < length (pair_list n)))"

lemma sparse_bound: "(kk, c) \<in> set (sparse xs) \<Longrightarrow> kk < length xs"
  by (auto simp: sparse_def in_set_enumerate_eq)

lemma note_system_wf:
  assumes "note_system P q params = Inr sys"
  shows "sy_n sys = nat (n_note params)" "\<forall>r\<in>set (sy_rows sys). row_wf (sy_n sys) r" "2 \<le> sy_n sys"
  using assms
  by (auto simp: note_system_def mq_system_def row_wf_def random_row_def fold_row_def Let_def split: if_splits dest!: sparse_bound)

lemma tx_system_Inr:
  assumes "tx_system P q params k m = Inr ts"
  obtains sys where "note_system P q params = Inr sys" "0 < m"
    "ts = tx_build P q sys (nat (n_note params)) (nat (range_bits params)) k m"
proof -
  from assms obtain sys where "note_system P q params = Inr sys" "1 \<le> m"
    "ts = tx_build P q sys (nat (n_note params)) (nat (range_bits params)) k m"
    by (cases "note_system P q params") (auto simp: tx_system_def split: if_splits)
  then show ?thesis using that by simp
qed

lemma slot_nth:
  fixes x :: "int list"
  assumes "i < wd" "s < slots" "slots * wd + 1 = length x"
  shows "s * wd + i < length x" "take wd (drop (s * wd) x) ! i = x ! (s * wd + i)"
proof -
  have "s * wd + wd \<le> slots * wd" using assms(2) by (metis Suc_leI mult_Suc mult_le_mono1 add.commute)
  then show "s * wd + i < length x" using assms by linarith
  then show "take wd (drop (s * wd) x) ! i = x ! (s * wd + i)" using assms by simp
qed

lemma slot_length:
  fixes x :: "int list"
  assumes "s < slots" "slots * wd + 1 = length x"
  shows "length (take wd (drop (s * wd) x)) = wd"
proof -
  have "s * wd + wd \<le> slots * wd" using assms(1) by (metis Suc_leI mult_Suc mult_le_mono1 add.commute)
  then show ?thesis using assms by simp
qed

text \<open>One row of one slot: the transaction's copy of a note row has the value of the note system's.\<close>

lemma eval_note_spec:
  assumes ts: "ts_nsys ts = sys" "ts_n_note ts = sy_n sys" "base_n ts = n" "n = slots * sy_n sys + 1"
    and r: "row_wf (sy_n sys) r" and s: "s < slots" and X: "n \<le> length X" "\<forall>a\<in>set X. a mod q = a"
  shows "tx_eval_row q ts X (note_spec sys n (sy_n sys) s (l, r))
    = mq_eval_row q sys (take (sy_n sys) (drop (s * sy_n sys) (take n X))) r"
proof -
  let ?wd = "sy_n sys" and ?x = "take n X"
  let ?y = "take ?wd (drop (s * ?wd) ?x)"
  have x: "slots * ?wd + 1 = length ?x" using X ts by simp
  have y: "length ?y = ?wd" by (rule slot_length [OF s x])
  show ?thesis
  proof (cases "mq_kind r")
    case (Fold f)
    then show ?thesis using y by (simp add: tx_eval_row_def note_spec_def mq_eval_row_def Let_def ts)
  next
    case Dense
    have mono: "monomials q ?x ! (case pair_list ?wd ! kk of (i, j) \<Rightarrow> pair_index n (s * ?wd + i, s * ?wd + j)) = monomials q ?y ! kk"
      if "(kk, c) \<in> set (mq_qs r)" for kk c
    proof -
      have kk: "kk < length (pair_list ?wd)" using r that Dense by (auto simp: row_wf_def)
      obtain i j where ij: "pair_list ?wd ! kk = (i, j)" by force
      then have "(i, j) \<in> set (pair_list ?wd)" using kk by (metis nth_mem)
      then have b: "i \<le> j" "j < ?wd" by (auto simp: set_pair_list)
      have lx: "length ?x = n" using X by simp
      have y0: "0 < length ?y" using b y by linarith
      have "monomials q ?x ! pair_index n (s * ?wd + i, s * ?wd + j) = (?x ! (s * ?wd + i) mod q) * (?x ! (s * ?wd + j) mod q) mod q"
        using pair_index_monomial [of "s * ?wd + i" "s * ?wd + j" ?x q] b slot_nth(1) [OF b(2) s x] lx by simp
      moreover have "monomials q ?y ! kk = (?y ! i mod q) * (?y ! j mod q) mod q"
        unfolding monomials_pairs [OF y0] using kk by (simp only: y nth_map ij split)
      moreover have "?y ! i = ?x ! (s * ?wd + i)" "?y ! j = ?x ! (s * ?wd + j)"
        using slot_nth(2) [OF _ s x] b by auto
      ultimately show ?thesis by (simp add: ij)
    qed
    have "sum_list (map (\<lambda>(k, c). c * monomials q ?x ! k)
        (map (\<lambda>(kk, c). (case pair_list ?wd ! kk of (i, j) \<Rightarrow> pair_index n (s * ?wd + i, s * ?wd + j), c)) (mq_qs r)))
      = sum_list (map (\<lambda>(k, c). c * monomials q ?y ! k) (mq_qs r))"
      using mono by (intro arg_cong [of _ _ sum_list]) (auto simp: o_def)
    moreover have "(\<lambda>(kk, c). let (i, j) = pair_list ?wd ! kk in (pair_index n (s * ?wd + i, s * ?wd + j), c))
      = (\<lambda>(kk, c :: int). (case pair_list ?wd ! kk of (i, j) \<Rightarrow> pair_index n (s * ?wd + i, s * ?wd + j), c))"
      by (auto simp: fun_eq_iff split: prod.split)
    moreover have "mq_lins r = []" using r Dense by (simp add: row_wf_def)
    ultimately show ?thesis
      by (simp add: tx_eval_row_def note_spec_def mq_eval_row_def Let_def ts Dense eval_sparse_sum)
  qed
qed

lemma eval_nf_spec:
  assumes ts: "ts_n_note ts = wd" "base_n ts = n" "n = slots * wd + 1" and s: "j < slots"
    and X: "n \<le> length X" "\<forall>a\<in>set X. a mod q = a"
  shows "tx_eval_row q ts X (nf_spec P wd n j) = nullifier_value P q (take wd (drop (j * wd) (take n X)))"
proof -
  let ?x = "take n X"
  let ?y = "take wd (drop (j * wd) ?x)"
  have x: "slots * wd + 1 = length ?x" using X ts by simp
  have y: "length ?y = wd" by (rule slot_length [OF s x])
  have cs: "map (\<lambda>a. a mod q) ?y = ?y"
    using X(2) by (intro map_idI) (meson in_set_dropD in_set_takeD)
  have mono: "c * monomials q ?x ! pair_index n (j * wd + i, j * wd + jj) mod q = c * ?y ! i * ?y ! jj mod q"
    if "(i, jj, c) \<in> set (nullifier_coeffs P wd)" for i jj c
  proof -
    have b: "i \<le> jj" "jj < wd" using that by (auto simp: nullifier_coeffs_def loop_pairs_bound)
    have lx: "length ?x = n" using X by simp
    have "monomials q ?x ! pair_index n (j * wd + i, j * wd + jj) = (?x ! (j * wd + i) mod q) * (?x ! (j * wd + jj) mod q) mod q"
      using pair_index_monomial [of "j * wd + i" "j * wd + jj" ?x q] b slot_nth(1) [OF b(2) s x] lx by simp
    moreover have "?y ! i = ?x ! (j * wd + i)" "?y ! jj = ?x ! (j * wd + jj)"
      using slot_nth(2) [OF _ s x] b by auto
    moreover have "c * ((a mod q) * (b mod q) mod q) mod q = c * a * b mod q" for a b
      by (metis mod_mult_eq mod_mult_right_eq mult.assoc)
    ultimately show ?thesis by simp
  qed
  have fold: "foldl (\<lambda>acc (i, jj, c). acc + c * xs ! i * xs ! jj) a ps
      = a + sum_list (map (\<lambda>(i, jj, c). c * xs ! i * xs ! jj) ps)" for xs :: "int list" and a ps
    by (induction ps arbitrary: a) (auto simp: add.assoc)
  have sums: "(\<And>p. p \<in> set ps \<Longrightarrow> f p mod q = g p mod q) \<Longrightarrow> sum_list (map f ps) mod q = sum_list (map g ps) mod q"
    for f g :: "nat \<times> nat \<times> int \<Rightarrow> int" and ps
    by (induction ps) (auto intro: mod_add_cong)
  have "tx_eval_row q ts X (nf_spec P wd n j)
      = sum_list (map (\<lambda>(i, jj, c). c * monomials q ?x ! pair_index n (j * wd + i, j * wd + jj)) (nullifier_coeffs P wd)) mod q"
    by (simp add: tx_eval_row_def nf_spec_def Let_def ts eval_sparse_sum o_def case_prod_unfold)
  also have "\<dots> = sum_list (map (\<lambda>(i, jj, c). c * ?y ! i * ?y ! jj) (nullifier_coeffs P wd)) mod q"
    using mono by (intro sums) auto
  also have "\<dots> = nullifier_value P q ?y"
    unfolding nullifier_value_def Let_def cs y fold by simp
  finally show ?thesis .
qed

lemma tx_rows:
  assumes "tx_system P q params k m = Inr ts"
  shows "ts_k ts = k" "ts_m_out ts = m" "0 < m" "2 \<le> ts_n_note ts" "sy_n (ts_nsys ts) = ts_n_note ts"
    "\<forall>r\<in>set (sy_rows (ts_nsys ts)). row_wf (ts_n_note ts) r"
    "(k + m) * ts_n_note ts + 1 = base_n ts" "total_N ts = base_n ts + m * ts_range_bits ts"
    and "s < k + m \<Longrightarrow> named (ts_rows ts) (ts_note_rows ts ! s)
      (map (note_spec (ts_nsys ts) (base_n ts) (ts_n_note ts) s) (enumerate 0 (sy_rows (ts_nsys ts))))"
    and "named (ts_rows ts) [ts_sum_row ts] [sum_spec q (ts_n_note ts) k (k + m)]"
    and "named (ts_rows ts) (ts_asset_rows ts) (map (asset_spec q (ts_n_note ts)) [1..<k + m])"
    and "named (ts_rows ts) (ts_range_rows ts) (map (range_spec q (ts_n_note ts) k (base_n ts) (ts_range_bits ts)) [0..<m])"
    and "named (ts_rows ts) (ts_bit_rows ts) (map (bit_spec q (base_n ts) (base_n ts)) [0..<m * ts_range_bits ts])"
    and "named (ts_rows ts) (ts_nf_rows ts) (map (nf_spec P (ts_n_note ts) (base_n ts)) [0..<k])"
    and "named (ts_rows ts) (ts_owner_rows ts) (map (owner_spec (ts_n_note ts)) [0..<k])"
    and "named (ts_rows ts) [ts_bind_row ts] [lin_spec [((k + m) * ts_n_note ts, 1)]]"
    and "length (ts_note_rows ts) = k + m"
proof -
  obtain sys where sys: "note_system P q params = Inr sys" and m: "0 < m"
    and tsb: "ts = tx_build P q sys (nat (n_note params)) (nat (range_bits params)) k m"
    by (rule tx_system_Inr [OF assms])
  note rows0 = tx_build_rows [where P = P and q = q and sys = sys and wd = "nat (n_note params)"
      and B = "nat (range_bits params)" and k = k and m = m, folded tsb]
  have wd: "nat (n_note params) = ts_n_note ts" "nat (range_bits params) = ts_range_bits ts" "sys = ts_nsys ts"
    and n: "(k + m) * ts_n_note ts + 1 = base_n ts"
    by (simp_all add: rows0 base_n_def bind_pos_def n_slots_def)
  note rows = rows0 [unfolded wd n] and wf = note_system_wf [OF sys, unfolded wd]
  show "0 < m" "(k + m) * ts_n_note ts + 1 = base_n ts" using m n by simp_all
  show "2 \<le> ts_n_note ts" "sy_n (ts_nsys ts) = ts_n_note ts" "\<forall>r\<in>set (sy_rows (ts_nsys ts)). row_wf (ts_n_note ts) r"
    using wf by simp_all
  show "total_N ts = base_n ts + m * ts_range_bits ts" by (simp only: total_N_def rows0(2))
  show "ts_k ts = k" "ts_m_out ts = m" "length (ts_note_rows ts) = k + m" by (fact rows)+
  show "s < k + m \<Longrightarrow> named (ts_rows ts) (ts_note_rows ts ! s)
      (map (note_spec (ts_nsys ts) (base_n ts) (ts_n_note ts) s) (enumerate 0 (sy_rows (ts_nsys ts))))"
    by (fact rows(7))
  show "named (ts_rows ts) [ts_sum_row ts] [sum_spec q (ts_n_note ts) k (k + m)]"
    by (fact rows(8))
  show "named (ts_rows ts) (ts_asset_rows ts) (map (asset_spec q (ts_n_note ts)) [1..<k + m])"
    by (fact rows(9))
  show "named (ts_rows ts) (ts_range_rows ts) (map (range_spec q (ts_n_note ts) k (base_n ts) (ts_range_bits ts)) [0..<m])"
    by (fact rows(10))
  show "named (ts_rows ts) (ts_bit_rows ts) (map (bit_spec q (base_n ts) (base_n ts)) [0..<m * ts_range_bits ts])"
    by (fact rows(11))
  show "named (ts_rows ts) (ts_nf_rows ts) (map (nf_spec P (ts_n_note ts) (base_n ts)) [0..<k])"
    by (fact rows(12))
  show "named (ts_rows ts) (ts_owner_rows ts) (map (owner_spec (ts_n_note ts)) [0..<k])"
    by (fact rows(13))
  show "named (ts_rows ts) [ts_bind_row ts] [lin_spec [((k + m) * ts_n_note ts, 1)]]"
    by (fact rows(14))
qed

lemma tx_F_Inr:
  assumes "tx_F q ts X = Inr v"
  shows "length X = total_N ts" "v = map (tx_eval_row q ts (map (\<lambda>a. a mod q) X)) (ts_rows ts)"
  using assms by (auto simp: tx_F_def Let_def split: if_splits)

lemma slot_of_reduced:
  assumes "s < k + m" "(k + m) * wd + 1 = n" "n \<le> length X"
  shows "take wd (drop (s * wd) (take n (map (\<lambda>a. a mod q) X))) = map (\<lambda>a. a mod q) (take wd (drop (s * wd) X))"
    and "length (take wd (drop (s * wd) X)) = wd"
proof -
  have le: "s * wd + wd \<le> (k + m) * wd" using assms(1) by (metis Suc_leI mult_Suc mult_le_mono1 add.commute)
  then have min: "min wd (n - s * wd) = wd" using assms(2) by simp
  show "length (take wd (drop (s * wd) X)) = wd" using le assms(2,3) by simp
  show "take wd (drop (s * wd) (take n (map (\<lambda>a. a mod q) X))) = map (\<lambda>a. a mod q) (take wd (drop (s * wd) X))"
    by (simp add: drop_take take_map drop_map min)
qed

lemma note_rows_value:
  assumes ts: "tx_system P q params k m = Inr ts" and F: "tx_F q ts X = Inr v" and s: "s < k + m"
  shows "mq_F q (ts_nsys ts) (take (ts_n_note ts) (drop (s * ts_n_note ts) X)) = Inr (note_vector_of ts v s)"
proof -
  let ?sys = "ts_nsys ts" and ?wd = "ts_n_note ts" and ?n = "base_n ts" and ?X = "map (\<lambda>a. a mod q) X"
  let ?sp = "map (note_spec ?sys ?n ?wd s) (enumerate 0 (sy_rows ?sys))"
    and ?y = "map (\<lambda>a. a mod q) (take ?wd (drop (s * ?wd) X))"
  note rows = tx_rows [OF ts] and F = tx_F_Inr [OF F]
  have lX: "?n \<le> length X" using F(1) by (simp add: total_N_def)
  then have X: "?n \<le> length ?X" "\<forall>a\<in>set ?X. a mod q = a" by auto
  note slot = slot_of_reduced(1) [OF s rows(7) lX, of q] slot_of_reduced(2) [OF s rows(7) lX]
  note nm = rows(9) [OF s]
  have row: "v ! (ts_note_rows ts ! s ! l) = mq_eval_row q ?sys ?y (sy_rows ?sys ! l)" if l: "l < length (sy_rows ?sys)" for l
  proof -
    have "row_wf (sy_n ?sys) (sy_rows ?sys ! l)" using rows(5,6) l by simp
    from eval_note_spec [OF refl rows(5) [symmetric] refl rows(7) [folded rows(5), symmetric] this s X, where l = l]
    have "tx_eval_row q ts ?X (note_spec ?sys ?n ?wd s (l, sy_rows ?sys ! l)) = mq_eval_row q ?sys ?y (sy_rows ?sys ! l)"
      unfolding rows(5) slot(1) .
    moreover have "v ! (ts_note_rows ts ! s ! l) = tx_eval_row q ts ?X (?sp ! l)"
      by (rule named_value [OF nm F(2)]) (use l in simp)
    ultimately show ?thesis using l by (simp add: nth_enumerate_eq)
  qed
  have "note_vector_of ts v s = map (mq_eval_row q ?sys ?y) (sy_rows ?sys)"
    using nm row by (intro nth_equalityI) (simp_all add: note_vector_of_def named_def)
  then show ?thesis using slot(2) by (simp add: mq_F_def rows(5) Let_def)
qed

lemma nf_row_value:
  assumes ts: "tx_system P q params k m = Inr ts" and F: "tx_F q ts X = Inr v" and j: "j < k"
  shows "v ! (ts_nf_rows ts ! j) = nullifier_value P q (take (ts_n_note ts) (drop (j * ts_n_note ts) X))"
proof -
  let ?wd = "ts_n_note ts" and ?n = "base_n ts" and ?X = "map (\<lambda>a. a mod q) X"
  note rows = tx_rows [OF ts] and F = tx_F_Inr [OF F]
  have lX: "?n \<le> length X" using F(1) by (simp add: total_N_def)
  then have X: "?n \<le> length ?X" "\<forall>a\<in>set ?X. a mod q = a" by auto
  have j': "j < k + m" using j by simp
  have "v ! (ts_nf_rows ts ! j) = tx_eval_row q ts ?X (nf_spec P ?wd ?n j)"
    using named_value [OF rows(14) F(2), of j] j by simp
  also have "\<dots> = nullifier_value P q (map (\<lambda>a. a mod q) (take ?wd (drop (j * ?wd) X)))"
    unfolding eval_nf_spec [OF refl refl rows(7) [symmetric] j' X] slot_of_reduced(1) [OF j' rows(7) lX] ..
  also have "\<dots> = nullifier_value P q (take ?wd (drop (j * ?wd) X))" by (simp add: nullifier_value_def o_def)
  finally show ?thesis .
qed

lemma owner_row_value:
  assumes ts: "tx_system P q params k m = Inr ts" and F: "tx_F q ts X = Inr v" and j: "j < k" "NOTE_OWNER < ts_n_note ts"
  shows "v ! (ts_owner_rows ts ! j) = X ! (j * ts_n_note ts + NOTE_OWNER) mod q"
proof -
  note rows = tx_rows [OF ts] and F = tx_F_Inr [OF F]
  have "j * ts_n_note ts + NOTE_OWNER < length (take (base_n ts) X)"
    by (rule slot_nth(1) [of _ _ _ "k + m"]) (use j rows(7) F(1) in \<open>simp_all add: total_N_def\<close>)
  moreover have "v ! (ts_owner_rows ts ! j) = tx_eval_row q ts (map (\<lambda>a. a mod q) X) (owner_spec (ts_n_note ts) j)"
    using named_value [OF rows(15) F(2), of j] j by simp
  ultimately show ?thesis unfolding owner_spec_def eval_lin_spec by simp
qed

lemma bind_row_value:
  assumes ts: "tx_system P q params k m = Inr ts" and F: "tx_F q ts X = Inr v"
  shows "v ! ts_bind_row ts = X ! bind_pos ts mod q"
proof -
  note rows = tx_rows [OF ts] and F = tx_F_Inr [OF F]
  have bp: "bind_pos ts = (k + m) * ts_n_note ts" by (simp add: bind_pos_def n_slots_def rows(1,2))
  have "bind_pos ts < length X" using F(1) by (simp add: total_N_def base_n_def)
  moreover have "v ! ts_bind_row ts = tx_eval_row q ts (map (\<lambda>a. a mod q) X) (lin_spec [(bind_pos ts, 1)])"
    using named_value [OF rows(16) F(2), of 0] unfolding bp by simp
  ultimately show ?thesis unfolding eval_lin_spec by simp
qed

text \<open>The rows of the transaction system are what the chain reads them as. Evaluated at any
  vector of variables, the rows of a slot are the commitment vector the note system gives for the
  slot's coordinates, the nullifier row of an input is its nullifier form, the owner row its owner
  coordinate, and the last row the binding scalar.\<close>

theorem tx_rows_reveal:
  assumes "tx_system P q params k m = Inr ts" and "tx_F q ts X = Inr v"
  shows "(\<forall>s<k + m. mq_F q (ts_nsys ts) (take (ts_n_note ts) (drop (s * ts_n_note ts) X)) = Inr (note_vector_of ts v s))
    \<and> (\<forall>j<k. v ! (ts_nf_rows ts ! j) = nullifier_value P q (take (ts_n_note ts) (drop (j * ts_n_note ts) X)))
    \<and> (\<forall>j<k. NOTE_OWNER < ts_n_note ts \<longrightarrow> v ! (ts_owner_rows ts ! j) = X ! (j * ts_n_note ts + NOTE_OWNER) mod q)
    \<and> v ! ts_bind_row ts = X ! bind_pos ts mod q"
  using note_rows_value [OF assms] nf_row_value [OF assms] owner_row_value [OF assms] bind_row_value [OF assms] by simp

section \<open>Honest vectors\<close>

lemma nth_concat_uniform:
  assumes "i < m" "b < B"
  shows "concat (map (\<lambda>i. map (f i) [0..<B]) [0..<m]) ! (i * B + b) = f i b"
  using assms
proof (induction m)
  case (Suc m)
  have len: "length (concat (map (\<lambda>i. map (f i) [0..<B]) [0..<m])) = m * B"
    by (simp add: length_concat o_def sum_list_triv)
  show ?case
  proof (cases "i = m")
    case True
    then show ?thesis using Suc.prems len by (simp add: nth_append)
  next
    case False
    then have i: "i < m" using Suc.prems by simp
    then have "Suc i * B \<le> m * B" by (intro mult_le_mono1) simp
    then have "i * B + b < m * B" using Suc.prems by simp
    then show ?thesis using Suc.IH [OF i] Suc.prems len by (simp add: nth_append)
  qed
qed simp

lemma bits_value:
  fixes x :: int
  assumes "0 \<le> x"
  shows "(\<Sum>b<B. 2 ^ b * (x div 2 ^ b mod 2)) = x mod 2 ^ B"
proof (induction B)
  case (Suc B)
  have "x mod 2 ^ Suc B = 2 ^ B * (x div 2 ^ B mod 2) + x mod 2 ^ B"
    using mod_mult2_eq' [of x "2 ^ B" 2] by (simp add: mult.commute)
  then show ?case using Suc by simp
qed simp

text \<open>The vector an honest spender builds satisfies the rows a verifier reads.\<close>

lemma honest_vector:
  fixes q :: int
  assumes ts: "tx_system P q params k m = Inr ts" and L: "tx_lift q ts x = Inr X"
    and range: "\<forall>i<m. 0 \<le> x ! val_pos ts (k + i) \<and> x ! val_pos ts (k + i) < 2 ^ ts_range_bits ts"
    and q: "2 ^ ts_range_bits ts \<le> q"
    and bal: "((\<Sum>j<k. x ! val_pos ts j) - (\<Sum>i<m. x ! val_pos ts (k + i))) mod q = fee mod q"
    and asset: "\<forall>s<k + m. x ! (s * ts_n_note ts + NOTE_ASSET) = x ! NOTE_ASSET"
  obtains v where "tx_F q ts X = Inr v" "v ! ts_sum_row ts = fee mod q"
    "\<forall>r\<in>set (ts_asset_rows ts @ ts_range_rows ts @ ts_bit_rows ts). v ! r = 0"
proof -
  let ?wd = "ts_n_note ts" and ?B = "ts_range_bits ts" and ?n = "base_n ts" and ?y = "map (\<lambda>a. a mod q) x"
  note rows = tx_rows [OF ts]
  note m = rows(3) and wd2 = rows(4) and n = rows(7)
  have q0: "0 < q" using q less_le_trans [of 0 "2 ^ ?B" q] by simp
  have X: "X = ?y @ tx_bits ts ?y" "length x = ?n" using L by (auto simp: tx_lift_def Let_def split: if_splits)
  have lb: "length (tx_bits ts ?y) = m * ?B"
    by (simp add: tx_bits_def length_concat o_def sum_list_triv rows(2))
  have modX: "map (\<lambda>a. a mod q) X = X"
  proof -
    have "1 < q" if "0 < ?B"
      using q that less_le_trans [of 1 "2 ^ ?B" q] by (simp add: one_less_power)
    then have "\<forall>a\<in>set (tx_bits ts ?y). a mod q = a" by (auto simp: tx_bits_def mod_pos_pos_trivial)
    then have "map (\<lambda>a. a mod q) (tx_bits ts ?y) = tx_bits ts ?y" by (intro map_idI) blast
    then show ?thesis unfolding X(1) map_append by simp
  qed
  have lenX: "length X = total_N ts" using X lb rows(8) by simp
  have F: "tx_F q ts X = Inr (map (tx_eval_row q ts X) (ts_rows ts))" (is "_ = Inr ?v")
    by (simp add: tx_F_def lenX modX Let_def)
  have Xs: "X ! (s * ?wd + c) = x ! (s * ?wd + c) mod q" if "s < k + m" "c < ?wd" for s c
  proof -
    have "s * ?wd + c < length x" by (rule slot_nth(1) [OF that(2,1)]) (use n X in simp)
    then show ?thesis by (simp add: X(1) nth_append)
  qed
  have v: "NOTE_VALUE < ?wd" "NOTE_ASSET < ?wd" using wd2 by (simp_all add: NOTE_VALUE_def NOTE_ASSET_def)
  have bit: "X ! (?n + (i * ?B + b)) = x ! val_pos ts (k + i) div 2 ^ b mod 2" if i: "i < m" and b: "b < ?B" for i b
  proof -
    have in_y: "(k + i) * ?wd + NOTE_VALUE < length x"
      by (rule slot_nth(1) [OF v(1), of _ "k + m"]) (use n X i in simp_all)
    have "x ! val_pos ts (k + i) mod q = x ! val_pos ts (k + i)" using range i q by (intro mod_pos_pos_trivial) auto
    then have y: "?y ! ((k + i) * ?wd + NOTE_VALUE) = x ! val_pos ts (k + i)" using in_y by (simp add: val_pos_def)
    have "X ! (?n + (i * ?B + b)) = tx_bits ts ?y ! (i * ?B + b)" using X by (simp add: nth_append)
    also have "\<dots> = ?y ! ((k + i) * ?wd + NOTE_VALUE) div 2 ^ b mod 2"
      unfolding tx_bits_def rows(1,2) by (rule nth_concat_uniform [OF i b])
    finally show ?thesis unfolding y .
  qed
  have "?v ! ts_sum_row ts = tx_eval_row q ts X (sum_spec q ?wd k (k + m))"
    using named_value [OF rows(10) refl, of 0] by simp
  also have "\<dots> = ((\<Sum>j<k. x ! val_pos ts j mod q) - (\<Sum>i<m. x ! val_pos ts (k + i) mod q)) mod q"
    unfolding eval_sum_spec by (simp add: Xs v val_pos_def)
  also have "\<dots> = ((\<Sum>j<k. x ! val_pos ts j) - (\<Sum>i<m. x ! val_pos ts (k + i))) mod q"
    by (intro mod_diff_cong mod_sum_eq)
  also note bal
  finally have sum: "?v ! ts_sum_row ts = fee mod q" .
  have za: "\<forall>r\<in>set (ts_asset_rows ts). ?v ! r = 0"
    unfolding named_zero [OF rows(11) refl]
  proof clarsimp
    fix s assume s: "Suc 0 \<le> s" "s < k + m"
    have "X ! (s * ?wd + NOTE_ASSET) = X ! NOTE_ASSET"
      using Xs [OF s(2) v(2)] Xs [of 0, OF _ v(2)] asset s m by auto
    then show "tx_eval_row q ts X (asset_spec q ?wd s) = 0" by (simp add: eval_asset_spec)
  qed
  have zr: "\<forall>r\<in>set (ts_range_rows ts). ?v ! r = 0"
    unfolding named_zero [OF rows(12) refl]
  proof clarsimp
    fix i assume i: "i < m"
    let ?x = "x ! val_pos ts (k + i)"
    have "(\<Sum>b<?B. 2 ^ b * X ! (?n + i * ?B + b)) = (\<Sum>b<?B. 2 ^ b * (?x div 2 ^ b mod 2))"
      using bit [OF i] by (intro sum.cong) (simp_all add: add.assoc)
    also have "\<dots> = ?x" using range i by (subst bits_value) auto
    finally have s: "(\<Sum>b<?B. 2 ^ b * X ! (?n + i * ?B + b)) = ?x" .
    have "X ! ((k + i) * ?wd + NOTE_VALUE) = ?x mod q" using Xs [of "k + i", OF _ v(1)] i by (simp add: val_pos_def)
    then show "tx_eval_row q ts X (range_spec q ?wd k ?n ?B i) = 0" unfolding eval_range_spec s by (simp add: mod_diff_left_eq)
  qed
  have zb: "\<forall>r\<in>set (ts_bit_rows ts). ?v ! r = 0"
    unfolding named_zero [OF rows(13) refl]
  proof clarsimp
    fix bk assume bk: "bk < m * ?B"
    then have B: "0 < ?B" by (cases "?B = 0") auto
    let ?i = "bk div ?B" and ?b = "bk mod ?B"
    have "?i < m" using bk B by (simp add: less_mult_imp_div_less)
    moreover have "?b < ?B" using B by simp
    ultimately have "X ! (?n + bk) = x ! val_pos ts (k + ?i) div 2 ^ ?b mod 2" using bit [of ?i ?b] by simp
    then have "X ! (?n + bk) = 0 \<or> X ! (?n + bk) = 1" by presburger
    then show "tx_eval_row q ts X (bit_spec q ?n ?n bk) = 0" unfolding eval_bit_spec by auto
  qed
  show thesis by (rule that [OF F sum]) (use za zr zb in auto)
qed


lemma tx_F_reduced:
  assumes "tx_F q ts X = Inr v"
  shows "map (\<lambda>a. a mod q) v = v" "length v = length (ts_rows ts)"
proof -
  have "tx_eval_row q ts Y r mod q = tx_eval_row q ts Y r" for Y r
    by (cases "tr_kind r") (simp_all add: tx_eval_row_def Let_def fast_h2_def case_prod_unfold)
  then show "map (\<lambda>a. a mod q) v = v" "length v = length (ts_rows ts)" by (simp_all add: tx_F_Inr(2) [OF assms])
qed

section \<open>Conservation\<close>

text \<open>The steps from zero rows to integers, on a reduced vector \<open>Y\<close>.\<close>

lemma output_in_range:
  assumes "\<forall>a b :: int. q dvd a * b \<longrightarrow> q dvd a \<or> q dvd b" "\<forall>i<length Y. 0 \<le> Y ! i \<and> Y ! i < q" "2 ^ B \<le> q"
    and "tx_eval_row q ts Y (range_spec q wd k n B i) = 0" "\<forall>bk<m * B. tx_eval_row q ts Y (bit_spec q n n bk) = 0"
    and "i < m" "length Y = n + m * B" "(k + i) * wd + NOTE_VALUE < length Y"
  shows "Y ! ((k + i) * wd + NOTE_VALUE) < 2 ^ B"
proof -
  have iB: "i * B + B \<le> m * B" using assms(6) by (metis Suc_leI mult_Suc mult_le_mono1 add.commute)
  show ?thesis
  proof (rule range_rows_bound [OF assms(1,2) assms(8) _ assms(3,4)])
    show "n + i * B + B \<le> length Y" using iB assms(7) by simp
    show "tx_eval_row q ts Y (bit_spec q n n (i * B + b)) = 0" if "b < B" for b
      using assms(5) that iB by simp
  qed
qed

lemma sums_balance:
  fixes a b :: "nat \<Rightarrow> int"
  assumes "fee mod q = ((\<Sum>j<k. a j) - (\<Sum>i<m. b i)) mod q" "0 \<le> fee" "0 < q" "0 < m"
    and a: "\<forall>j<k. 0 \<le> a j \<and> a j < B" "int k * B \<le> q" and b: "\<forall>i<m. 0 \<le> b i \<and> b i < B" "int m * B + fee \<le> q"
  shows "(\<Sum>j<k. a j) = (\<Sum>i<m. b i) + fee"
proof -
  let ?I = "\<Sum>j<k. a j" and ?O = "\<Sum>i<m. b i"
  have "(?I - (?O + fee)) mod q = 0"
    using assms(1) by (metis diff_diff_eq mod_diff_left_eq cancel_comm_monoid_add_class.diff_cancel mod_diff_right_eq mod_0)
  moreover have "0 \<le> ?I" "0 \<le> ?O + fee" using a(1) b(1) assms(2) by (auto intro!: sum_nonneg add_nonneg_nonneg)
  moreover have "?I < q"
  proof (cases "k = 0")
    case False
    have "?I < (\<Sum>j<k. B)" by (rule sum_strict_mono) (use a(1) False in auto)
    then show ?thesis using a(2) by simp
  qed (use assms(3) in simp)
  moreover have "?O < (\<Sum>i<m. B)" by (rule sum_strict_mono) (use b(1) assms(4) in auto)
  then have "?O + fee < q" using b(2) by simp
  ultimately show ?thesis by - (rule mod_diff_zero_eq, assumption+)
qed

lemma same_asset:
  assumes "tx_eval_row q ts Y (asset_spec q wd s) = 0" "0 < q" "s * wd + NOTE_ASSET < length Y" "NOTE_ASSET < length Y"
    and "\<forall>i<length Y. 0 \<le> Y ! i \<and> Y ! i < q"
  shows "Y ! (s * wd + NOTE_ASSET) = Y ! NOTE_ASSET"
proof -
  have "(Y ! (s * wd + NOTE_ASSET) - Y ! NOTE_ASSET) mod q = 0" using assms(1) by (simp only: eval_asset_spec)
  then show ?thesis by (rule mod_diff_zero_eq) (use assms in simp_all)
qed


definition demo_tx_params :: chain_params where
  "demo_tx_params = DEMO\<lparr>n_note := 5, note_folds := 1, range_bits := 1\<rparr>"

definition demo_base :: "int list" where
  "demo_base = [1, 3, 2, 6, 5] @ [0, 3, 4, 1, 2] @ [6]"

lemma seven_prime: "\<forall>a b. (7 :: int) dvd a * b \<longrightarrow> 7 dvd a \<or> 7 dvd b"
proof (intro allI impI)
  fix a b :: int assume "7 dvd a * b"
  then have "(a mod 7) * (b mod 7) mod 7 = 0" by (simp add: mod_mult_eq mod_eq_0_iff_dvd)
  moreover have "a mod 7 = 0 \<or> a mod 7 = 1 \<or> a mod 7 = 2 \<or> a mod 7 = 3 \<or> a mod 7 = 4 \<or> a mod 7 = 5 \<or> a mod 7 = 6"
    "b mod 7 = 0 \<or> b mod 7 = 1 \<or> b mod 7 = 2 \<or> b mod 7 = 3 \<or> b mod 7 = 4 \<or> b mod 7 = 5 \<or> b mod 7 = 6"
    by presburger+
  ultimately have "a mod 7 = 0 \<or> b mod 7 = 0" by (elim disjE) simp_all
  then show "7 dvd a \<or> 7 dvd b" by (auto simp: mod_eq_0_iff_dvd)
qed

lemma demo_tx_system:
  obtains ts where "tx_system sample_prims 7 demo_tx_params 1 1 = Inr ts"
    "ts_range_bits ts = 1" "ts_n_note ts = 5" "base_n ts = 11"
proof -
  obtain sys where sys: "note_system sample_prims 7 demo_tx_params = Inr sys"
    by (simp add: note_system_def mq_system_def demo_tx_params_def Let_def)
  let ?ts = "tx_build sample_prims 7 sys 5 1 1 1"
  have ts: "tx_system sample_prims 7 demo_tx_params 1 1 = Inr ?ts"
    by (simp add: tx_system_def sys, simp add: demo_tx_params_def)
  have "ts_range_bits ?ts = 1" "ts_n_note ?ts = 5" using tx_build_rows(4,5) by blast+
  then show thesis using that [OF ts] tx_rows(7) [OF ts] by simp
qed

lemma demo_tx_vector:
  obtains ts X v where "tx_system sample_prims 7 demo_tx_params 1 1 = Inr ts" "tx_lift 7 ts demo_base = Inr X"
    "ts_range_bits ts = 1" "ts_n_note ts = 5" "take 11 X = demo_base" "tx_F 7 ts X = Inr v"
    "v ! ts_sum_row ts = 1 mod 7" "\<forall>r\<in>set (ts_asset_rows ts @ ts_range_rows ts @ ts_bit_rows ts). v ! r = 0"
proof -
  obtain ts where ts: "tx_system sample_prims 7 demo_tx_params 1 1 = Inr ts"
    and t: "ts_range_bits ts = 1" "ts_n_note ts = 5" "base_n ts = 11"
    by (rule demo_tx_system)
  have "map (\<lambda>a. a mod 7) demo_base = demo_base" "length demo_base = 11" by (simp_all add: demo_base_def)
  then obtain X where X: "tx_lift 7 ts demo_base = Inr X" "take 11 X = demo_base" by (auto simp: tx_lift_def t Let_def)
  have vals: "demo_base ! val_pos ts 0 = 1" "demo_base ! val_pos ts 1 = 0"
    by (simp_all add: val_pos_def t NOTE_VALUE_def demo_base_def)
  have asset: "\<forall>s<1 + 1. demo_base ! (s * ts_n_note ts + NOTE_ASSET) = demo_base ! NOTE_ASSET"
    by (auto simp: t NOTE_ASSET_def demo_base_def less_Suc_eq numeral_2_eq_2)
  show thesis
    by (rule honest_vector [OF ts X(1) _ _ _ asset, of 1]) (use vals ts X t that in auto)
qed

theorem tx_rows_reveal_witness:
  "\<exists>ts X v. tx_system sample_prims 7 demo_tx_params 1 1 = Inr ts \<and> tx_F 7 ts X = Inr v
    \<and> take 11 X = demo_base \<and> v ! (ts_owner_rows ts ! 0) = 2"
proof -
  obtain ts X v where d: "tx_system sample_prims 7 demo_tx_params 1 1 = Inr ts" "ts_n_note ts = 5"
    "take 11 X = demo_base" "tx_F 7 ts X = Inr v" by (rule demo_tx_vector)
  have "take 11 X ! Suc (Suc 0) = 2" by (simp add: d(3) demo_base_def)
  then have "v ! (ts_owner_rows ts ! 0) = 2"
    using tx_rows_reveal [OF d(1,4)] d(2) by (simp add: NOTE_OWNER_def)
  then show ?thesis using d by blast
qed


end
