(* ===== verification/Transactions.thy ===== *)
theory Transactions
  imports Ledger TxSystem
begin

text \<open>
  Building and verifying one transaction: \<open>chain/transaction.py\<close>.

  The field is \<open>field_P\<close>. The proof systems of \<open>mq\<close> are arguments: \<open>prove\<close> and \<open>rounds_for\<close> of the
  backend a name denotes, \<open>check\<close> its verifier, each in \<open>exn + _\<close> because an unknown name raises.
  \<open>sign\<close> is \<open>Signer.sign\<close> of the key with a public hex. \<open>authenticate\<close> and \<open>verify_proof\<close> never
  raise: an exception inside is the refusal \<open>Malformed\<close>. An empty chain id or backend name is the
  absent one, as \<open>or\<close> reads it.
\<close>

definition TX_VERSION :: int where
  "TX_VERSION = 1"

definition bind_parts ::
    "string \<Rightarrow> int \<Rightarrow> int \<Rightarrow> string list \<Rightarrow> string list \<Rightarrow> string list \<Rightarrow> bytes list \<Rightarrow> bytes list \<Rightarrow> part list" where
  "bind_parts cid version fee input_cms output_cms owner_pubs notes tags =
     [PStr cid, PInt version, PInt fee, PList (map PStr input_cms), PList (map PStr output_cms),
      PList (map PStr owner_pubs), PList (map (\<lambda>x. PStr (hex_of x)) notes), PList (map (\<lambda>x. PStr (hex_of x)) tags)]"

definition binding_scalar ::
    "prims \<Rightarrow> string \<Rightarrow> int \<Rightarrow> int \<Rightarrow> string list \<Rightarrow> string list \<Rightarrow> string list \<Rightarrow> bytes list \<Rightarrow> bytes list \<Rightarrow> exn + int" where
  "binding_scalar P cid version fee input_cms output_cms owner_pubs notes tags =
     h_field P ''tx-bind'' (bind_parts cid version fee input_cms output_cms owner_pubs notes tags)"

definition sig_message :: "prims \<Rightarrow> int \<Rightarrow> exn + bytes" where
  "sig_message P binding = h_bytes P ''tx-sig'' [PInt binding] 32"

section \<open>Build\<close>

definition chain_or :: "chain_params \<Rightarrow> string \<Rightarrow> string" where
  "chain_or params cid = (if cid = [] then chain_id params else cid)"

definition prove_all ::
    "(string \<Rightarrow> tx_sys \<Rightarrow> int list \<Rightarrow> int \<Rightarrow> int list \<Rightarrow> int \<Rightarrow> exn + bytes) \<Rightarrow> (string \<Rightarrow> int \<Rightarrow> exn + int)
      \<Rightarrow> chain_params \<Rightarrow> tx_sys \<Rightarrow> int list \<Rightarrow> int \<Rightarrow> int list \<Rightarrow> string list \<Rightarrow> exn + (string \<times> bytes) list" where
  "prove_all prove rounds_for params ts v beta z names =
     foldR (\<lambda>proofs nm.
       bindR (if nm = ''ssh5'' then Inr (zk_rounds params) else rounds_for nm (security_bits params)) (\<lambda>rounds.
       bindR (prove nm ts v beta z rounds) (\<lambda>p. Inr (AList.update nm p proofs)))) [] names"

definition build_transaction ::
    "prims \<Rightarrow> (string \<Rightarrow> tx_sys \<Rightarrow> int list \<Rightarrow> int \<Rightarrow> int list \<Rightarrow> int \<Rightarrow> exn + bytes) \<Rightarrow> (string \<Rightarrow> int \<Rightarrow> exn + int)
      \<Rightarrow> (string \<Rightarrow> bytes \<Rightarrow> string) \<Rightarrow> (chain_note \<times> string) list \<Rightarrow> chain_note list \<Rightarrow> int \<Rightarrow> chain_params
      \<Rightarrow> string \<Rightarrow> string list \<Rightarrow> bytes list \<Rightarrow> bytes list \<Rightarrow> exn + transaction" where
  "build_transaction P prove rounds_for sign spends outputs fee params cid0 backends sealed tags =
     (let cid = chain_or params cid0; in_notes = map fst spends; pubs = map snd spends in
      if spends = [] then Inl TxError
      else if outputs = [] then Inl TxError
      else if fee < 0 then Inl TxError
      else if sum_list (map no_value in_notes) - sum_list (map no_value outputs) \<noteq> fee then Inl TxError
      else if length (remdups (map no_asset (in_notes @ outputs))) \<noteq> 1 then Inl TxError
      else if \<exists>n\<in>set outputs. \<not> (0 \<le> no_value n \<and> no_value n < max_value params) then Inl TxError
      else
        bindR (check_each (\<lambda>(n, pk). bindR (owner_field P pk) (\<lambda>f. if no_owner n \<noteq> f then Inl TxError else Inr ())) spends) (\<lambda>_.
        bindR (mapR (note_commit P field_P params) in_notes) (\<lambda>ins. let in_cms = map fst ins in
        if \<not> distinct in_cms then Inl TxError
        else bindR (mapR (note_commit P field_P params) outputs) (\<lambda>outs. let out_cms = map fst outs in
        if sealed \<noteq> [] \<and> length sealed \<noteq> length outputs then Inl TxError
        else if tags \<noteq> [] \<and> length tags \<noteq> length outputs then Inl TxError
        else bindR (binding_scalar P cid TX_VERSION fee in_cms out_cms pubs sealed tags) (\<lambda>beta.
        bindR (tx_system P field_P params (length in_notes) (length outputs)) (\<lambda>ts.
        bindR (tx_lift field_P ts (concat (map (coords field_P) (in_notes @ outputs)) @ [beta])) (\<lambda>X.
        bindR (tx_F field_P ts X) (\<lambda>v.
        let z = map (\<lambda>i. X ! i) (filter (\<lambda>i. i \<noteq> bind_pos ts) [0..<total_N ts]);
            names = (if backends = [] then proof_backends params else backends)
        in bindR (prove_all prove rounds_for params ts v beta z names) (\<lambda>proofs.
        bindR (sig_message P beta) (\<lambda>msg.
          Inr \<lparr>tx_version = TX_VERSION, tx_chain_id = cid, tx_fee = fee,
               tx_inputs = map (\<lambda>(j, cm, pk). \<lparr>in_cm = cm, in_nullifier = nullifier_id P cm (v ! (ts_nf_rows ts ! j)),
                             in_owner_pub = pk, in_signature = sign pk msg\<rparr>) (enumerate 0 (zip in_cms pubs)),
               tx_output_cms = out_cms, tx_v = v, tx_binding = beta, tx_proofs = proofs,
               tx_output_notes = sealed, tx_output_tags = tags\<rparr>))))))))))"

section \<open>Verify\<close>

datatype tx_refusal =
    UnknownVersion int
  | ForeignChain string
  | NegativeFee int
  | NoInputOrOutput
  | DuplicateInput
  | DuplicateNullifier
  | BadOpenings
  | BadTags
  | DuplicateOutputNote
  | WrongRowCount nat nat
  | BindingMismatch
  | BindRowMismatch
  | CommitmentMismatch nat
  | ValuesNotConserved
  | MixedAssets
  | RangeInconsistent
  | NotABit
  | NullifierMismatch nat
  | NotTheOwner nat
  | BadSpendSignature nat
  | Malformed exn
  | NoSuchProof string
  | ProofFailed string
  | InputNotUnspent string
  | AlreadySpent string

definition guarded :: "exn + 'a \<Rightarrow> tx_refusal + 'a" where
  "guarded r = (case r of Inl e \<Rightarrow> Inl (Malformed e) | Inr x \<Rightarrow> Inr x)"

lemma guarded_eq_Inr [simp]: "guarded r = Inr x \<longleftrightarrow> r = Inr x"
  by (auto simp: guarded_def split: sum.splits)

definition check_shape :: "chain_params \<Rightarrow> string \<Rightarrow> transaction \<Rightarrow> tx_refusal + unit" where
  "check_shape params cid tx =
     (let k = length (tx_inputs tx); m = length (tx_output_cms tx) in
      if tx_version tx \<noteq> TX_VERSION then Inl (UnknownVersion (tx_version tx))
      else if tx_chain_id tx \<noteq> cid then Inl (ForeignChain (tx_chain_id tx))
      else if tx_fee tx < 0 then Inl (NegativeFee (tx_fee tx))
      else if k < 1 \<or> m < 1 then Inl NoInputOrOutput
      else if \<not> distinct (tx_input_cms tx) then Inl DuplicateInput
      else if \<not> distinct (tx_nullifiers tx) then Inl DuplicateNullifier
      else if tx_output_notes tx \<noteq> [] \<and> length (tx_output_notes tx) \<noteq> m then Inl BadOpenings
      else if tx_output_tags tx \<noteq> [] \<and> length (tx_output_tags tx) \<noteq> m then Inl BadTags
      else if \<not> distinct (tx_output_cms tx) then Inl DuplicateOutputNote
      else Inr ())"

definition check_rows :: "prims \<Rightarrow> tx_sys \<Rightarrow> int list \<Rightarrow> transaction \<Rightarrow> tx_refusal + unit" where
  "check_rows P ts v tx =
     bindR (check_each (\<lambda>s. if note_id P (note_vector_of ts v s) \<noteq> (tx_input_cms tx @ tx_output_cms tx) ! s
                              then Inl (CommitmentMismatch s) else Inr ()) [0..<n_slots ts]) (\<lambda>_.
     if v ! ts_sum_row ts \<noteq> tx_fee tx mod field_P then Inl ValuesNotConserved
     else if \<exists>r\<in>set (ts_asset_rows ts). v ! r \<noteq> 0 then Inl MixedAssets
     else if \<exists>r\<in>set (ts_range_rows ts). v ! r \<noteq> 0 then Inl RangeInconsistent
     else if \<exists>r\<in>set (ts_bit_rows ts). v ! r \<noteq> 0 then Inl NotABit
     else Inr ())"

definition check_spend :: "prims \<Rightarrow> tx_sys \<Rightarrow> int list \<Rightarrow> bytes \<Rightarrow> nat \<times> tx_input \<Rightarrow> tx_refusal + unit" where
  "check_spend P ts v msg = (\<lambda>(j, tin).
     if nullifier_id P (in_cm tin) (v ! (ts_nf_rows ts ! j)) \<noteq> in_nullifier tin then Inl (NullifierMismatch j)
     else bindR (guarded (owner_field P (in_owner_pub tin))) (\<lambda>f.
       if v ! (ts_owner_rows ts ! j) \<noteq> f then Inl (NotTheOwner j)
       else if \<not> verify_sig P (in_owner_pub tin) msg (in_signature tin) then Inl (BadSpendSignature j)
       else Inr ()))"

definition authenticate :: "prims \<Rightarrow> chain_params \<Rightarrow> string \<Rightarrow> transaction \<Rightarrow> tx_refusal + (tx_sys \<times> int list \<times> int)" where
  "authenticate P params cid0 tx =
     (let cid = chain_or params cid0 in
      bindR (check_shape params cid tx) (\<lambda>_.
      bindR (guarded (tx_system P field_P params (length (tx_inputs tx)) (length (tx_output_cms tx)))) (\<lambda>ts.
      let v = map (\<lambda>a. a mod field_P) (tx_v tx) in
      if length v \<noteq> length (ts_rows ts) then Inl (WrongRowCount (length v) (length (ts_rows ts)))
      else bindR (guarded (binding_scalar P cid (tx_version tx) (tx_fee tx) (tx_input_cms tx) (tx_output_cms tx)
                    (map in_owner_pub (tx_inputs tx)) (tx_output_notes tx) (tx_output_tags tx))) (\<lambda>beta.
      if beta \<noteq> tx_binding tx mod field_P then Inl BindingMismatch
      else if v ! ts_bind_row ts \<noteq> beta then Inl BindRowMismatch
      else bindR (check_rows P ts v tx) (\<lambda>_.
      bindR (guarded (sig_message P beta)) (\<lambda>msg.
      bindR (check_each (check_spend P ts v msg) (enumerate 0 (tx_inputs tx))) (\<lambda>_.
        Inr (ts, v, beta))))))))"

definition verify_proof ::
    "(string \<Rightarrow> tx_sys \<Rightarrow> int list \<Rightarrow> int \<Rightarrow> bytes \<Rightarrow> exn + bool) \<Rightarrow> chain_params \<Rightarrow> tx_sys \<times> int list \<times> int
      \<Rightarrow> string \<Rightarrow> transaction \<Rightarrow> tx_refusal + unit" where
  "verify_proof check params = (\<lambda>(ts, v, beta) backend tx.
     let nm = (if backend = [] then default_backend params else backend) in
     case map_of (tx_proofs tx) nm of
       None \<Rightarrow> Inl (NoSuchProof nm)
     | Some proof \<Rightarrow> bindR (guarded (check nm ts v beta proof)) (\<lambda>ok. if \<not> ok then Inl (ProofFailed nm) else Inr ()))"

definition verify_transaction ::
    "prims \<Rightarrow> (string \<Rightarrow> tx_sys \<Rightarrow> int list \<Rightarrow> int \<Rightarrow> bytes \<Rightarrow> exn + bool) \<Rightarrow> chain_params
      \<Rightarrow> (string \<Rightarrow> bool) option \<Rightarrow> (string \<Rightarrow> bool) option \<Rightarrow> string \<Rightarrow> string \<Rightarrow> transaction \<Rightarrow> tx_refusal + unit" where
  "verify_transaction P check params utxo_has nf_has cid backend tx =
     bindR (authenticate P params cid tx) (\<lambda>auth.
     bindR (verify_proof check params auth backend tx) (\<lambda>_.
     bindR (case utxo_has of None \<Rightarrow> Inr () | Some has \<Rightarrow>
       check_each (\<lambda>cm. if \<not> has cm then Inl (InputNotUnspent cm) else Inr ()) (tx_input_cms tx)) (\<lambda>_.
     case nf_has of None \<Rightarrow> Inr () | Some has \<Rightarrow>
       check_each (\<lambda>nf. if has nf then Inl (AlreadySpent nf) else Inr ()) (tx_nullifiers tx))))"

definition verify_transaction_vs6 ::
    "prims \<Rightarrow> (tx_sys \<Rightarrow> int list \<Rightarrow> int \<Rightarrow> bytes \<Rightarrow> exn + bool) \<Rightarrow> chain_params
      \<Rightarrow> (string \<Rightarrow> bool) option \<Rightarrow> (string \<Rightarrow> bool) option \<Rightarrow> string \<Rightarrow> transaction \<Rightarrow> tx_refusal + unit" where
  "verify_transaction_vs6 P vs6 params utxo_has nf_has cid tx =
     verify_transaction P (\<lambda>_. vs6) params utxo_has nf_has cid ''ssh5'' tx"

definition verify_transaction_everywhere ::
    "prims \<Rightarrow> (string \<Rightarrow> tx_sys \<Rightarrow> int list \<Rightarrow> int \<Rightarrow> bytes \<Rightarrow> exn + bool) \<Rightarrow> chain_params
      \<Rightarrow> (string \<Rightarrow> bool) option \<Rightarrow> (string \<Rightarrow> bool) option \<Rightarrow> string \<Rightarrow> transaction
      \<Rightarrow> bool \<times> (string \<times> (tx_refusal + unit)) list" where
  "verify_transaction_everywhere P check params utxo_has nf_has cid tx =
     (let results = map (\<lambda>nm. (nm, verify_transaction P check params utxo_has nf_has cid nm tx)) (sort (keys (tx_proofs tx)))
      in (list_all (\<lambda>(_, r). r = Inr ()) results, results))"

section \<open>What acceptance means\<close>

lemma check_each_Inr: "check_each f xs = Inr u \<longleftrightarrow> (\<forall>x\<in>set xs. f x = Inr ())"
  by (induction xs) (auto simp: check_each_def)

lemma check_shape_Inr:
  assumes "check_shape params cid tx = Inr u"
  shows "tx_wf tx" "tx_version tx = TX_VERSION" "tx_chain_id tx = cid" "0 \<le> tx_fee tx"
    "tx_inputs tx \<noteq> []" "tx_output_cms tx \<noteq> []"
  using assms by (auto simp: check_shape_def tx_wf_def Let_def split: if_splits)

lemma authenticate_Inr:
  assumes "authenticate P params cid0 tx = Inr (ts, v, beta)"
  obtains msg where "check_shape params (chain_or params cid0) tx = Inr ()"
    "tx_system P field_P params (length (tx_inputs tx)) (length (tx_output_cms tx)) = Inr ts"
    "v = map (\<lambda>a. a mod field_P) (tx_v tx)" "length v = length (ts_rows ts)"
    "binding_scalar P (chain_or params cid0) (tx_version tx) (tx_fee tx) (tx_input_cms tx) (tx_output_cms tx)
      (map in_owner_pub (tx_inputs tx)) (tx_output_notes tx) (tx_output_tags tx) = Inr beta"
    "beta = tx_binding tx mod field_P" "v ! ts_bind_row ts = beta" "check_rows P ts v tx = Inr ()"
    "sig_message P beta = Inr msg" "\<forall>p\<in>set (enumerate 0 (tx_inputs tx)). check_spend P ts v msg p = Inr ()"
  using assms by (auto simp: authenticate_def Let_def check_each_Inr split: if_splits)

lemma verified_wf:
  assumes "verify_transaction P check params uh nh cid backend tx = Inr ()"
  shows "tx_wf tx"
proof -
  from assms obtain ts v beta where "authenticate P params cid tx = Inr (ts, v, beta)"
    by (auto simp: verify_transaction_def)
  then show ?thesis by (rule authenticate_Inr) (rule check_shape_Inr(1))
qed

section \<open>What is built verifies\<close>

lemma h_field_range:
  assumes "h_field P tag parts = Inr f"
  shows "f mod field_P = f"
  using assms by (auto simp: h_field_def)

lemma tx_system_params:
  assumes "tx_system P q params k m = Inr ts"
  shows "note_system P q params = Inr (ts_nsys ts)" "ts_range_bits ts = nat (range_bits params)" "ts_n_note ts = nat (n_note params)"
  by (rule tx_system_Inr [OF assms], simp add: tx_build_rows)+

lemma note_commit_Inr:
  assumes "note_commit P q params n = Inr (cm, vec)" "note_system P q params = Inr sys"
  shows "cm = note_id P vec" "mq_F q sys (coords q n) = Inr vec" "length (coords q n) = sy_n sys"
proof -
  have "map (\<lambda>a. a mod q) (coords q n) = coords q n" by (simp add: coords_def)
  then show "cm = note_id P vec" "mq_F q sys (coords q n) = Inr vec" "length (coords q n) = sy_n sys"
    using assms by (auto simp: note_commit_def note_vector_def mq_lift_def Let_def split: if_splits)
qed

text \<open>The vector a builder evaluates, slot by slot.\<close>

lemma built_vector_slots:
  assumes ts: "tx_system P q params k m = Inr ts" and len: "length notes = k + m"
    and coords: "\<forall>n\<in>set notes. length (coords q n) = ts_n_note ts"
    and X: "tx_lift q ts (concat (map (coords q) notes) @ [beta]) = Inr X" and beta: "beta mod q = beta"
  shows "s < k + m \<Longrightarrow> take (ts_n_note ts) (drop (s * ts_n_note ts) X) = coords q (notes ! s)"
    and "s < k + m \<Longrightarrow> c < ts_n_note ts \<Longrightarrow> X ! (s * ts_n_note ts + c) = coords q (notes ! s) ! c
      \<and> (concat (map (coords q) notes) @ [beta]) ! (s * ts_n_note ts + c) = coords q (notes ! s) ! c"
    and "X ! bind_pos ts = beta"
proof -
  let ?xs = "concat (map (coords q) notes)" and ?wd = "ts_n_note ts"
  have red: "map (\<lambda>a. a mod q) (?xs @ [beta]) = ?xs @ [beta]" using beta by (auto simp: coords_def intro!: map_idI)
  have X': "X = ?xs @ [beta] @ tx_bits ts (?xs @ [beta])"
    using X by (simp only: tx_lift_def red Let_def) (simp split: if_splits)
  have wd: "\<forall>ys\<in>set (map (coords q) notes). length ys = ?wd" using coords by simp
  show slot: "take ?wd (drop (s * ?wd) X) = coords q (notes ! s)" if "s < k + m" for s
    unfolding X' using concat_slot [OF wd, of s] that len by simp
  have lx: "length ?xs = (k + m) * ?wd" using length_concat_uniform [OF wd] len by simp
  show "X ! (s * ?wd + c) = coords q (notes ! s) ! c \<and> (?xs @ [beta]) ! (s * ?wd + c) = coords q (notes ! s) ! c"
    if s: "s < k + m" and c: "c < ?wd" for s c
  proof -
    have "s * ?wd + ?wd \<le> (k + m) * ?wd" using s by (metis Suc_leI mult_Suc mult_le_mono1 add.commute)
    then have b: "s * ?wd + c < length ?xs" using c lx by linarith
    have "take ?wd (drop (s * ?wd) ?xs) ! c = coords q (notes ! s) ! c" using concat_slot [OF wd, of s "[]"] s len by simp
    then show ?thesis using b c X' by (simp add: nth_append)
  qed
  show "X ! bind_pos ts = beta" unfolding X' by (simp add: bind_pos_def n_slots_def tx_rows(1,2) [OF ts] lx nth_append)
qed

lemma build_Inr:
  assumes "build_transaction P prove rounds_for sign spends outputs fee params cid0 backends sealed tags = Inr tx"
  defines "in_notes \<equiv> map fst spends" and "names \<equiv> if backends = [] then proof_backends params else backends"
  obtains ins outs beta ts X v proofs msg where
    "spends \<noteq> []" "outputs \<noteq> []" "0 \<le> fee" "sum_list (map no_value in_notes) - sum_list (map no_value outputs) = fee"
    "length (remdups (map no_asset (in_notes @ outputs))) = 1"
    "\<forall>n\<in>set outputs. 0 \<le> no_value n \<and> no_value n < max_value params"
    "\<forall>(n, pk)\<in>set spends. owner_field P pk = Inr (no_owner n)"
    "mapR (note_commit P field_P params) in_notes = Inr ins" "distinct (map fst ins)"
    "mapR (note_commit P field_P params) outputs = Inr outs"
    "sealed = [] \<or> length sealed = length outputs" "tags = [] \<or> length tags = length outputs"
    "binding_scalar P (chain_or params cid0) TX_VERSION fee (map fst ins) (map fst outs) (map snd spends) sealed tags = Inr beta"
    "tx_system P field_P params (length spends) (length outputs) = Inr ts"
    "tx_lift field_P ts (concat (map (coords field_P) (in_notes @ outputs)) @ [beta]) = Inr X"
    "tx_F field_P ts X = Inr v"
    "prove_all prove rounds_for params ts v beta (map (\<lambda>i. X ! i) (filter (\<lambda>i. i \<noteq> bind_pos ts) [0..<total_N ts])) names = Inr proofs"
    "sig_message P beta = Inr msg"
    "tx = \<lparr>tx_version = TX_VERSION, tx_chain_id = chain_or params cid0, tx_fee = fee,
       tx_inputs = map (\<lambda>(j, cm, pk). \<lparr>in_cm = cm, in_nullifier = nullifier_id P cm (v ! (ts_nf_rows ts ! j)),
                     in_owner_pub = pk, in_signature = sign pk msg\<rparr>) (enumerate 0 (zip (map fst ins) (map snd spends))),
       tx_output_cms = map fst outs, tx_v = v, tx_binding = beta, tx_proofs = proofs,
       tx_output_notes = sealed, tx_output_tags = tags\<rparr>"
proof -
  have owners: "check_each (\<lambda>(n, pk). bindR (owner_field P pk) (\<lambda>f. if no_owner n \<noteq> f then Inl TxError else Inr ())) spends = Inr ()
      \<Longrightarrow> \<forall>(n, pk)\<in>set spends. owner_field P pk = Inr (no_owner n)"
    by (auto simp: check_each_Inr split: if_splits)
  show thesis
    using assms(1) that owners
    by (auto simp: build_transaction_def Let_def in_notes_def names_def not_less not_le split: if_splits)
qed

text \<open>The fields of the inputs a build makes.\<close>

lemma built_inputs:
  assumes "length cms = length pubs"
    and "ins = map (\<lambda>(j, cm, pk). \<lparr>in_cm = cm, in_nullifier = f j cm, in_owner_pub = pk, in_signature = g pk\<rparr>) (enumerate 0 (zip cms pubs))"
  shows "map in_cm ins = cms" "map in_owner_pub ins = pubs" "length ins = length cms"
    and "\<forall>p\<in>set (enumerate 0 ins). \<exists>j cm pk. p = (j, \<lparr>in_cm = cm, in_nullifier = f j cm, in_owner_pub = pk, in_signature = g pk\<rparr>)
      \<and> j < length pubs \<and> pk = pubs ! j"
proof -
  show "map in_cm ins = cms" "map in_owner_pub ins = pubs" "length ins = length cms"
    using assms by (auto intro!: nth_equalityI simp: nth_enumerate_eq)
  show "\<forall>p\<in>set (enumerate 0 ins). \<exists>j cm pk. p = (j, \<lparr>in_cm = cm, in_nullifier = f j cm, in_owner_pub = pk, in_signature = g pk\<rparr>)
      \<and> j < length pubs \<and> pk = pubs ! j"
    using assms by (auto simp: in_set_enumerate_eq nth_enumerate_eq)
qed

lemma commits_Inr:
  assumes "mapR (note_commit P q params) notes = Inr cvs" "note_system P q params = Inr sys" "s < length notes"
  shows "length cvs = length notes" "fst (cvs ! s) = note_id P (snd (cvs ! s))"
    "mq_F q sys (coords q (notes ! s)) = Inr (snd (cvs ! s))" "length (coords q (notes ! s)) = sy_n sys"
proof -
  have a: "list_all2 (\<lambda>n cv. note_commit P q params n = Inr cv) notes cvs" using assms(1) by (simp add: mapR_eq_Inr)
  then show len: "length cvs = length notes" by (simp add: list_all2_lengthD)
  from list_all2_nthD [OF a assms(3)]
  have "note_commit P q params (notes ! s) = Inr (fst (cvs ! s), snd (cvs ! s))" by simp
  from note_commit_Inr [OF this assms(2)] show "fst (cvs ! s) = note_id P (snd (cvs ! s))"
    "mq_F q sys (coords q (notes ! s)) = Inr (snd (cvs ! s))" "length (coords q (notes ! s)) = sy_n sys" by blast+
qed

lemma sum_nth_append:
  "(\<Sum>j<length xs. f ((xs @ ys) ! j)) = sum_list (map f xs)" "(\<Sum>i<length ys. f ((xs @ ys) ! (length xs + i))) = sum_list (map f ys :: int list)"
proof -
  show "(\<Sum>j<length xs. f ((xs @ ys) ! j)) = sum_list (map f xs)"
    by (simp add: sum_list_sum_nth atLeast0LessThan nth_append)
  show "(\<Sum>i<length ys. f ((xs @ ys) ! (length xs + i))) = sum_list (map f ys)"
    by (simp add: sum_list_sum_nth atLeast0LessThan)
qed

lemma sum_list_mod: "sum_list (map (\<lambda>n. f n mod q) ns) mod q = sum_list (map f ns) mod (q :: int)"
  by (induction ns) (auto intro: mod_add_cong)

lemma coords_nth:
  "coords q n ! NOTE_VALUE = no_value n mod q" "coords q n ! NOTE_ASSET = no_asset n mod q"
  "coords q n ! NOTE_OWNER = no_owner n mod q" "4 \<le> length (coords q n)"
  by (simp_all add: coords_def NOTE_VALUE_def NOTE_ASSET_def NOTE_OWNER_def)

text \<open>The checked rows of a vector built from notes that conserve.\<close>

lemma built_rows_pass:
  assumes ts: "tx_system P field_P params (length ins) (length outs) = Inr ts"
    and ci: "mapR (note_commit P field_P params) ins = Inr cvi" and co: "mapR (note_commit P field_P params) outs = Inr cvo"
    and X: "tx_lift field_P ts (concat (map (coords field_P) (ins @ outs)) @ [beta]) = Inr X" and beta: "beta mod field_P = beta"
    and F: "tx_F field_P ts X = Inr v"
    and bal: "sum_list (map no_value ins) - sum_list (map no_value outs) = fee"
    and asset: "length (remdups (map no_asset (ins @ outs))) = 1"
    and range: "\<forall>n\<in>set outs. 0 \<le> no_value n \<and> no_value n < max_value params" and fits: "max_value params \<le> field_P"
    and tx: "tx_input_cms tx = map fst cvi" "tx_output_cms tx = map fst cvo" "tx_fee tx = fee"
  shows "check_rows P ts v tx = Inr ()"
proof -
  let ?q = field_P and ?wd = "ts_n_note ts" and ?notes = "ins @ outs" and ?cvs = "cvi @ cvo"
  note tp = tx_system_params [OF ts] and rows = tx_rows [OF ts]
  have co_all: "length cvi = length ins" "length cvo = length outs"
    using ci co by (auto simp: mapR_eq_Inr dest: list_all2_lengthD)
  have cv: "fst (?cvs ! s) = note_id P (snd (?cvs ! s))" "mq_F ?q (ts_nsys ts) (coords ?q (?notes ! s)) = Inr (snd (?cvs ! s))"
    "length (coords ?q (?notes ! s)) = ?wd" if "s < length ins + length outs" for s
    using commits_Inr [OF ci tp(1), of s] commits_Inr [OF co tp(1), of "s - length ins"] that rows(5) co_all
    by (auto simp: nth_append)
  have len: "\<forall>n\<in>set ?notes. length (coords ?q n) = ?wd"
    using cv(3) by (metis in_set_conv_nth length_append)
  note slots = built_vector_slots [OF ts _ len X beta, simplified length_append, OF refl]
  have slot: "note_id P (note_vector_of ts v s) = (tx_input_cms tx @ tx_output_cms tx) ! s" if s: "s < length ins + length outs" for s
  proof -
    have "Inr (note_vector_of ts v s) = mq_F ?q (ts_nsys ts) (coords ?q (?notes ! s))"
      using note_rows_value [OF ts F s] slots(1) [OF s] by simp
    then have "note_vector_of ts v s = snd (?cvs ! s)" using cv(2) [OF s] by simp
    moreover have "(tx_input_cms tx @ tx_output_cms tx) ! s = fst (?cvs ! s)" using s co_all by (auto simp: tx nth_append)
    ultimately show ?thesis using cv(1) [OF s] by simp
  qed
  let ?x = "concat (map (coords ?q) ?notes) @ [beta]"
  have wd: "NOTE_VALUE < ?wd" "NOTE_ASSET < ?wd" using rows(4) by (simp_all add: NOTE_VALUE_def NOTE_ASSET_def)
  have val: "?x ! val_pos ts s = no_value (?notes ! s) mod ?q" if "s < length ins + length outs" for s
    using slots(2) [OF that wd(1)] by (simp add: val_pos_def coords_nth)
  have as: "?x ! (s * ?wd + NOTE_ASSET) = no_asset (?notes ! s) mod ?q" if "s < length ins + length outs" for s
    using slots(2) [OF that wd(2)] by (simp add: coords_nth)
  have same: "no_asset n = no_asset n'" if "n \<in> set ?notes" "n' \<in> set ?notes" for n n'
  proof -
    obtain a where "remdups (map no_asset ?notes) = [a]" using asset by (metis length_0_conv length_Suc_conv One_nat_def)
    then have "set (map no_asset ?notes) = {a}" by (metis empty_set list.simps(15) set_remdups)
    then show ?thesis using that by (metis imageI list.set_map singletonD)
  qed
  have B: "2 ^ ts_range_bits ts = max_value params" by (simp add: tp(2) max_value_def)
  have outs: "\<forall>i<length outs. 0 \<le> ?x ! val_pos ts (length ins + i) \<and> ?x ! val_pos ts (length ins + i) < 2 ^ ts_range_bits ts"
  proof (intro allI impI)
    fix i assume i: "i < length outs"
    then have "0 \<le> no_value (outs ! i) \<and> no_value (outs ! i) < max_value params" using range by simp
    then show "0 \<le> ?x ! val_pos ts (length ins + i) \<and> ?x ! val_pos ts (length ins + i) < 2 ^ ts_range_bits ts"
      using val [of "length ins + i"] i fits B by simp
  qed
  have bal': "((\<Sum>j<length ins. ?x ! val_pos ts j) - (\<Sum>i<length outs. ?x ! val_pos ts (length ins + i))) mod ?q = fee mod ?q"
  proof -
    have "(\<Sum>j<length ins. ?x ! val_pos ts j) = sum_list (map (\<lambda>n. no_value n mod ?q) ins)"
      using val by (subst sum_nth_append(1) [symmetric, of _ _ outs]) simp
    moreover have "(\<Sum>i<length outs. ?x ! val_pos ts (length ins + i)) = sum_list (map (\<lambda>n. no_value n mod ?q) outs)"
      using val by (subst sum_nth_append(2) [symmetric, of _ _ ins]) simp
    ultimately show ?thesis unfolding bal [symmetric]
      by (simp only: ) (rule mod_diff_cong [OF sum_list_mod sum_list_mod])
  qed
  have as': "\<forall>s<length ins + length outs. ?x ! (s * ?wd + NOTE_ASSET) = ?x ! NOTE_ASSET"
  proof (intro allI impI)
    fix s assume s: "s < length ins + length outs"
    have 0: "0 < length ins + length outs" using rows(3) by simp
    have "no_asset (?notes ! s) = no_asset (?notes ! 0)" using s 0 by (intro same nth_mem) simp_all
    then show "?x ! (s * ?wd + NOTE_ASSET) = ?x ! NOTE_ASSET" using as [OF s] as [OF 0] by simp
  qed
  have "v ! ts_sum_row ts = fee mod ?q \<and> (\<forall>r\<in>set (ts_asset_rows ts @ ts_range_rows ts @ ts_bit_rows ts). v ! r = 0)"
    by (rule honest_vector [OF ts X outs _ bal' as']) (use F fits B in auto)
  then show ?thesis using slot by (auto simp: check_rows_def check_each_Inr tx n_slots_def rows(1,2))
qed

lemma build_authenticates:
  assumes b: "build_transaction P prove rounds_for sign spends outputs fee params cid0 backends sealed tags = Inr tx"
    and signed: "\<forall>pk\<in>set (map snd spends). \<forall>m. verify_sig P pk m (sign pk m)"
    and fresh: "distinct (tx_nullifiers tx)" "distinct (tx_output_cms tx)" and fits: "max_value params \<le> field_P"
  obtains ts X proofs where "authenticate P params cid0 tx = Inr (ts, tx_v tx, tx_binding tx)"
    "prove_all prove rounds_for params ts (tx_v tx) (tx_binding tx)
      (map (\<lambda>i. X ! i) (filter (\<lambda>i. i \<noteq> bind_pos ts) [0..<total_N ts]))
      (if backends = [] then proof_backends params else backends) = Inr (tx_proofs tx)"
    "tx_F field_P ts X = Inr (tx_v tx)"
  using b
proof (rule build_Inr)
  fix ins outs :: "(string \<times> int list) list" and beta ts and X v :: "int list" and proofs msg
  let ?in = "map fst spends" and ?pubs = "map snd spends" and ?cid = "chain_or params cid0"
    and ?names = "if backends = [] then proof_backends params else backends"
    and ?z = "map (\<lambda>i. X ! i) (filter (\<lambda>i. i \<noteq> bind_pos ts) [0..<total_N ts])"
  assume h: "spends \<noteq> []" "outputs \<noteq> []" "0 \<le> fee" "sum_list (map no_value ?in) - sum_list (map no_value outputs) = fee"
    "length (remdups (map no_asset (?in @ outputs))) = 1"
    "\<forall>n\<in>set outputs. 0 \<le> no_value n \<and> no_value n < max_value params"
    "\<forall>(n, pk)\<in>set spends. owner_field P pk = Inr (no_owner n)"
    and ins: "mapR (note_commit P field_P params) ?in = Inr ins" "distinct (map fst ins)"
    and outs: "mapR (note_commit P field_P params) outputs = Inr outs"
    and sl: "sealed = [] \<or> length sealed = length outputs" "tags = [] \<or> length tags = length outputs"
    and bs: "binding_scalar P ?cid TX_VERSION fee (map fst ins) (map fst outs) ?pubs sealed tags = Inr beta"
    and ts: "tx_system P field_P params (length spends) (length outputs) = Inr ts"
    and X: "tx_lift field_P ts (concat (map (coords field_P) (?in @ outputs)) @ [beta]) = Inr X"
    and F: "tx_F field_P ts X = Inr v"
    and pr: "prove_all prove rounds_for params ts v beta ?z ?names = Inr proofs"
    and msg: "sig_message P beta = Inr msg"
    and tx: "tx = \<lparr>tx_version = TX_VERSION, tx_chain_id = ?cid, tx_fee = fee,
       tx_inputs = map (\<lambda>(j, cm, pk). \<lparr>in_cm = cm, in_nullifier = nullifier_id P cm (v ! (ts_nf_rows ts ! j)),
                     in_owner_pub = pk, in_signature = sign pk msg\<rparr>) (enumerate 0 (zip (map fst ins) ?pubs)),
       tx_output_cms = map fst outs, tx_v = v, tx_binding = beta, tx_proofs = proofs,
       tx_output_notes = sealed, tx_output_tags = tags\<rparr>"
  have li: "length ins = length spends" "length outs = length outputs"
    using ins outs by (auto simp: mapR_eq_Inr dest: list_all2_lengthD)
  have inputs: "map in_cm (tx_inputs tx) = map fst ins" "map in_owner_pub (tx_inputs tx) = ?pubs" "length (tx_inputs tx) = length spends"
    and each: "\<forall>p\<in>set (enumerate 0 (tx_inputs tx)). \<exists>j cm pk. p = (j, \<lparr>in_cm = cm, in_nullifier = nullifier_id P cm (v ! (ts_nf_rows ts ! j)),
        in_owner_pub = pk, in_signature = sign pk msg\<rparr>) \<and> j < length ?pubs \<and> pk = ?pubs ! j"
    using built_inputs [of "map fst ins" ?pubs "tx_inputs tx" "\<lambda>j cm. nullifier_id P cm (v ! (ts_nf_rows ts ! j))" "\<lambda>pk. sign pk msg"] li
    by (simp_all add: tx)
  have beta: "beta mod field_P = beta" using bs unfolding binding_scalar_def by (rule h_field_range)
  have ts': "tx_system P field_P params (length ?in) (length outputs) = Inr ts" using ts by simp
  note red = tx_F_reduced [OF F]
  have rowsok: "check_rows P ts v tx = Inr ()"
    by (rule built_rows_pass [OF ts' ins(1) outs X beta F h(4-6) fits]) (simp_all add: tx_input_cms_def inputs, simp_all add: tx)
  have coords: "\<forall>n\<in>set (?in @ outputs). length (coords field_P n) = ts_n_note ts"
  proof
    fix n assume "n \<in> set (?in @ outputs)"
    then have "\<exists>cv. note_commit P field_P params n = Inr cv"
      using ins(1) outs by (fastforce simp: mapR_eq_Inr list_all2_conv_all_nth in_set_conv_nth)
    then show "length (coords field_P n) = ts_n_note ts"
      using note_commit_Inr(3) [of P field_P params n] tx_system_params(1) [OF ts] tx_rows(5) [OF ts] by force
  qed
  note slots = built_vector_slots [OF ts _ coords X beta, simplified length_append length_map, OF refl]
  have own: "check_spend P ts v msg p = Inr ()" if "p \<in> set (enumerate 0 (tx_inputs tx))" for p
  proof -
    from bspec [OF each that] obtain j cm pk where p': "p = (j, \<lparr>in_cm = cm, in_nullifier = nullifier_id P cm (v ! (ts_nf_rows ts ! j)),
        in_owner_pub = pk, in_signature = sign pk msg\<rparr>)" and jk: "j < length ?pubs" "pk = ?pubs ! j" by blast
    note p = p' [unfolded jk(2)]
    have j: "j < length spends" using jk(1) by simp
    have "fst (spends ! j) \<in> set (?in @ outputs)" using j by simp
    then have "length (coords field_P (fst (spends ! j))) = ts_n_note ts" using coords by blast
    then have "4 \<le> ts_n_note ts" using coords_nth(4) [of field_P "fst (spends ! j)"] by simp
    then have o: "NOTE_OWNER < ts_n_note ts" by (simp add: NOTE_OWNER_def)
    have pk: "owner_field P (?pubs ! j) = Inr (no_owner (?in ! j))" using bspec [OF h(7) nth_mem [OF j]] j by (simp add: case_prod_unfold)
    have "v ! (ts_owner_rows ts ! j) = X ! (j * ts_n_note ts + NOTE_OWNER) mod field_P" by (rule owner_row_value [OF ts F j o])
    also have "\<dots> = no_owner (?in ! j)"
    proof -
      have "X ! (j * ts_n_note ts + NOTE_OWNER) = no_owner (?in ! j) mod field_P"
        using slots(2) [OF _ o, of j] j by (simp add: nth_append coords_nth)
      then show ?thesis using h_field_range [OF pk [unfolded owner_field_def]] by simp
    qed
    finally show ?thesis using pk signed j by (simp add: check_spend_def p guarded_def)
  qed
  have flds: "tx_chain_id tx = ?cid" "tx_v tx = v" "tx_binding tx = beta" "tx_proofs tx = proofs" "tx_version tx = TX_VERSION" "tx_fee tx = fee"
    "tx_output_cms tx = map fst outs" "tx_output_notes tx = sealed" "tx_output_tags tx = tags" by (simp_all add: tx)
  have shape: "check_shape params ?cid tx = Inr ()"
    using h(1-3) fresh ins(2) sl li inputs by (simp add: check_shape_def tx_input_cms_def Let_def flds Suc_le_eq)
  have "v ! ts_bind_row ts = beta" unfolding bind_row_value [OF ts F] slots(3) by (rule beta)
  moreover have "check_each (check_spend P ts v msg) (enumerate 0 (tx_inputs tx)) = Inr ()" using own by (simp add: check_each_Inr)
  ultimately have "authenticate P params cid0 tx = Inr (ts, tx_v tx, tx_binding tx)"
    using shape ts li inputs red bs beta rowsok msg by (simp add: authenticate_def tx_input_cms_def guarded_def flds)
  then show thesis using that pr F by (simp add: flds)
qed

lemma prove_all_lookup:
  assumes "prove_all prove rounds_for params ts v beta z names = Inr proofs" "nm \<in> set names"
  shows "\<exists>rounds p. map_of proofs nm = Some p \<and> prove nm ts v beta z rounds = Inr p"
  using assms
proof (induction names arbitrary: proofs rule: rev_induct)
  case (snoc n names)
  from snoc.prems(1) obtain pf rounds p where pf: "prove_all prove rounds_for params ts v beta z names = Inr pf"
    "prove n ts v beta z rounds = Inr p" "proofs = AList.update n p pf"
    by (auto simp: prove_all_def foldR_snoc)
  show ?case
  proof (cases "nm = n")
    case True
    then show ?thesis using pf by auto
  next
    case False
    then show ?thesis using snoc.IH [OF pf(1)] snoc.prems(2) pf(3) by simp
  qed
qed simp

text \<open>The coordinates of \<open>X\<close> the proof hides.\<close>

definition hidden_vars :: "tx_sys \<Rightarrow> int list \<Rightarrow> int list" where
  "hidden_vars ts X = map (\<lambda>i. X ! i) (filter (\<lambda>i. i \<noteq> bind_pos ts) [0..<total_N ts])"


text \<open>What the binding scalar of a transaction's own body hashes.\<close>

definition body_parts :: "transaction \<Rightarrow> part list" where
  "body_parts tx = bind_parts (tx_chain_id tx) (tx_version tx) (tx_fee tx) (tx_input_cms tx) (tx_output_cms tx)
     (map in_owner_pub (tx_inputs tx)) (tx_output_notes tx) (tx_output_tags tx)"

text \<open>A binding fixes a body. Two transactions the network authenticates under the same binding
  scalar have the same chain, version, fee, inputs, outputs, spending keys, sealed openings and
  tags, or the two byte strings hashed for them are different and reduce to the same scalar.\<close>

theorem same_binding_same_body:
  assumes "authenticate P params cid tx = Inr (ts, v, beta)" "authenticate P params cid' tx' = Inr (ts', v', beta)"
  shows "tx_chain_id tx = tx_chain_id tx' \<and> tx_version tx = tx_version tx' \<and> tx_fee tx = tx_fee tx'
      \<and> tx_input_cms tx = tx_input_cms tx' \<and> tx_output_cms tx = tx_output_cms tx'
      \<and> map in_owner_pub (tx_inputs tx) = map in_owner_pub (tx_inputs tx')
      \<and> tx_output_notes tx = tx_output_notes tx' \<and> tx_output_tags tx = tx_output_tags tx'
    \<or> (\<exists>x y. h_preimage ''tx-bind'' (body_parts tx) = Inr x \<and> h_preimage ''tx-bind'' (body_parts tx') = Inr y \<and> x \<noteq> y
      \<and> int (be_nat (shake256 P x 48)) mod field_P = int (be_nat (shake256 P y 48)) mod field_P)"
proof -
  obtain msg where a: "check_shape params (chain_or params cid) tx = Inr ()"
    "binding_scalar P (chain_or params cid) (tx_version tx) (tx_fee tx) (tx_input_cms tx) (tx_output_cms tx)
      (map in_owner_pub (tx_inputs tx)) (tx_output_notes tx) (tx_output_tags tx) = Inr beta"
    by (rule authenticate_Inr [OF assms(1)])
  obtain msg' where a': "check_shape params (chain_or params cid') tx' = Inr ()"
    "binding_scalar P (chain_or params cid') (tx_version tx') (tx_fee tx') (tx_input_cms tx') (tx_output_cms tx')
      (map in_owner_pub (tx_inputs tx')) (tx_output_notes tx') (tx_output_tags tx') = Inr beta"
    by (rule authenticate_Inr [OF assms(2)])
  note cid = check_shape_Inr(3) [OF a(1)] check_shape_Inr(3) [OF a'(1)]
  from a(2) a'(2) obtain x y where
    xy: "h_preimage ''tx-bind'' (body_parts tx) = Inr x" "h_preimage ''tx-bind'' (body_parts tx') = Inr y"
      "int (be_nat (shake256 P x 48)) mod field_P = int (be_nat (shake256 P y 48)) mod field_P"
    unfolding binding_scalar_def h_field_def h_bytes_def cid [symmetric] body_parts_def by auto
  show ?thesis
  proof (cases "x = y")
    case True
    have "body_parts tx = body_parts tx'" using h_preimage_inj [OF xy(1)] xy(2) True by blast
    moreover have "map PStr as = map PStr bs \<longleftrightarrow> as = bs" "map (\<lambda>x. PStr (hex_of x)) cs = map (\<lambda>x. PStr (hex_of x)) ds \<longleftrightarrow> cs = ds"
      for as bs cs ds by (intro inj_map_eq_map injI; simp)+
    ultimately show ?thesis by (simp del: map_map add: body_parts_def bind_parts_def)
  next
    case False
    then show ?thesis using xy by blast
  qed
qed

text \<open>The identifier is not bound. A relay that adds the field prime to the \<open>binding\<close> a
  transaction carries leaves everything the network checks intact, so the altered transaction
  authenticates too, with the same scalar; but its \<open>txid\<close> is the hash of another number, which
  differs unless SHAKE-256 collides. The mempool, the transaction root of a block and its
  duplicate check all go by \<open>txid\<close>.\<close>

theorem txid_is_malleable:
  assumes "authenticate P params cid tx = Inr (ts, v, beta)"
    and xy: "h_preimage ''txid'' [PInt (tx_binding tx)] = Inr x" "h_preimage ''txid'' [PInt (tx_binding tx + field_P)] = Inr y"
  shows "authenticate P params cid (tx\<lparr>tx_binding := tx_binding tx + field_P\<rparr>) = Inr (ts, v, beta)
    \<and> (txid P (tx\<lparr>tx_binding := tx_binding tx + field_P\<rparr>) \<noteq> txid P tx \<or> x \<noteq> y \<and> shake256 P x 32 = shake256 P y 32)"
proof -
  let ?tx = "tx\<lparr>tx_binding := tx_binding tx + field_P\<rparr>"
  have "check_shape params c ?tx = check_shape params c tx" "check_rows P ts v ?tx = check_rows P ts v tx" for c ts v
    by (simp_all add: check_shape_def check_rows_def tx_input_cms_def tx_nullifiers_def Let_def)
  then have "authenticate P params cid ?tx = authenticate P params cid tx"
    by (simp add: authenticate_def tx_input_cms_def Let_def cong: if_cong)
  moreover have "x \<noteq> y"
  proof
    assume "x = y"
    from h_preimage_inj [OF xy(1) xy(2) [folded this]] show False by (simp add: field_P_def)
  qed
  ultimately show ?thesis using assms by (auto simp: txid_def h_hex_eq)
qed

section \<open>A transaction that is built\<close>

definition demo_check :: "string \<Rightarrow> tx_sys \<Rightarrow> int list \<Rightarrow> int \<Rightarrow> bytes \<Rightarrow> exn + bool" where
  "demo_check nm ts v beta p = Inr (p = [1])"

definition demo_prove :: "string \<Rightarrow> tx_sys \<Rightarrow> int list \<Rightarrow> int \<Rightarrow> int list \<Rightarrow> int \<Rightarrow> exn + bytes" where
  "demo_prove nm ts v beta z rounds = Inr [1]"

definition demo_note :: "int \<Rightarrow> int \<Rightarrow> chain_note" where
  "demo_note val owner = \<lparr>no_value = val, no_asset = 9, no_owner = owner, no_rho = 5, no_blinders = [6]\<rparr>"

lemma demo_note_simps [simp]: "no_value (demo_note a b) = a" "no_asset (demo_note a b) = 9" "no_owner (demo_note a b) = b"
  "max_value demo_tx_params = 2"
  by (simp_all add: demo_note_def max_value_def demo_tx_params_def)

lemma h_field_ok:
  assumes "join_prefixed (map encode_part parts) = Inr bs" "length tag < 100"
  shows "\<exists>f. h_field P tag parts = Inr f"
  using assms by (simp add: h_field_def h_bytes_def h_preimage_def chain_domain_def)

lemma length_note_id: "length (note_id sample_prims v) \<le> 100"
  by (simp add: note_id_def h_hex_def sample_prims_def h_bytes_def h_preimage_def split: sum.splits) auto

lemma demo_commit:
  obtains cm v where "note_commit sample_prims field_P demo_tx_params (demo_note a b) = Inr (cm, v)" "length cm \<le> 100"
proof -
  obtain sys where sys: "note_system sample_prims field_P demo_tx_params = Inr sys" "sy_n sys = 5"
    by (simp add: note_system_def mq_system_def demo_tx_params_def Let_def)
  then obtain v where v: "note_vector sample_prims field_P demo_tx_params (demo_note a b) = Inr v"
    by (simp add: note_vector_def coords_def demo_note_def mq_lift_def mq_F_def Let_def)
  then show thesis using that [of "note_id sample_prims v" v] length_note_id by (simp add: note_commit_def)
qed

lemma length_str_nat: "n < 10 ^ Suc k \<Longrightarrow> length (str_nat n) \<le> Suc k"
proof (induction n arbitrary: k rule: str_nat.induct)
  case (1 n)
  show ?case
  proof (cases "n < 10")
    case False
    then obtain k' where k: "k = Suc k'" using "1.prems" by (cases k) auto
    have "n div 10 < 10 ^ Suc k'" using "1.prems" k by (simp add: less_mult_imp_div_less)
    then show ?thesis using "1.IH" [OF False] False k by (simp add: str_nat.simps [of n])
  qed (simp add: str_nat.simps [of n])
qed

lemma tx_lift_length:
  assumes "tx_system P q params k m = Inr ts" "tx_lift q ts x = Inr X"
  shows "length X = total_N ts"
proof -
  have "length (tx_bits ts y) = m * ts_range_bits ts" for y
    by (simp add: tx_bits_def length_concat o_def sum_list_triv tx_rows(2) [OF assms(1)])
  then show ?thesis using assms(2) tx_rows(8) [OF assms(1)] by (auto simp: tx_lift_def Let_def split: if_splits)
qed

lemma demo_built:
  obtains f tx where "build_transaction sample_prims demo_prove (\<lambda>_ _. Inr 1) (\<lambda>pk _. pk) [(demo_note 1 f, ''00'')] [demo_note 0 7] 1
    demo_tx_params [] [''ssh5''] [] [] = Inr tx" "length (tx_inputs tx) = 1" "length (tx_output_cms tx) = 1"
proof -
  obtain f where f: "owner_field sample_prims ''00'' = Inr f"
    unfolding owner_field_def using h_field_ok [of "[PStr ''00'']" _ "''owner''" sample_prims] by auto
  obtain c1 v1 where n1: "note_commit sample_prims field_P demo_tx_params (demo_note 1 f) = Inr (c1, v1)" "length c1 \<le> 100"
    by (rule demo_commit)
  obtain c2 v2 where n2: "note_commit sample_prims field_P demo_tx_params (demo_note 0 7) = Inr (c2, v2)" "length c2 \<le> 100"
    by (rule demo_commit)
  have "\<exists>b. binding_scalar sample_prims (chain_id demo_tx_params) TX_VERSION 1 [c1] [c2] [''00''] [] [] = Inr b"
    unfolding binding_scalar_def bind_parts_def
    by (rule h_field_ok) (use n1(2) n2(2) in \<open>simp_all add: demo_tx_params_def DEMO_def TX_VERSION_def str_int_def str_nat.simps\<close>)
  then obtain b where b: "binding_scalar sample_prims (chain_id demo_tx_params) TX_VERSION 1 [c1] [c2] [''00''] [] [] = Inr b" ..
  have "\<exists>sys. note_system sample_prims field_P demo_tx_params = Inr sys"
    by (simp add: note_system_def mq_system_def demo_tx_params_def Let_def)
  then obtain ts where ts: "tx_system sample_prims field_P demo_tx_params (Suc 0) (Suc 0) = Inr ts"
    by (auto simp: tx_system_def)
  have w: "ts_n_note ts = 5" using tx_system_params(3) [OF ts] by (simp add: demo_tx_params_def)
  let ?x = "concat (map (coords field_P) [demo_note 1 f, demo_note 0 7]) @ [b]"
  have "length ?x = base_n ts" using tx_rows(7) [OF ts] by (simp add: w coords_def demo_note_def)
  then obtain X where X: "tx_lift field_P ts ?x = Inr X" by (simp add: tx_lift_def Let_def)
  have "length X = total_N ts" using tx_lift_length [OF ts X] .
  then obtain v where v: "tx_F field_P ts X = Inr v" by (simp add: tx_F_def Let_def)
  have b0: "0 \<le> b" "b < field_P" using b by (auto simp: binding_scalar_def h_field_def field_P_def)
  have "length (str_int b) \<le> 77" using b0 length_str_nat [of "nat b" 76] by (simp add: str_int_def field_P_def)
  then obtain msg where msg: "sig_message sample_prims b = Inr msg"
    by (simp add: sig_message_def h_bytes_def h_preimage_def chain_domain_def)
  show thesis
    using that [of f] f n1 n2 b ts X v msg
    by (simp add: build_transaction_def check_each_def chain_or_def Let_def prove_all_def demo_prove_def cong: if_cong)
qed

lemma demo_verified:
  obtains f tx where "build_transaction sample_prims demo_prove (\<lambda>_ _. Inr 1) (\<lambda>pk _. pk) [(demo_note 1 f, ''00'')] [demo_note 0 7] 1
      demo_tx_params [] [''ssh5''] [] [] = Inr tx" "distinct (tx_nullifiers tx)" "distinct (tx_output_cms tx)"
    "\<forall>pk\<in>set (map snd [(demo_note 1 f, ''00'')]). \<forall>m. verify_sig sample_prims pk m pk" "max_value demo_tx_params \<le> field_P"
proof -
  obtain f tx where b: "build_transaction sample_prims demo_prove (\<lambda>_ _. Inr 1) (\<lambda>pk _. pk) [(demo_note 1 f, ''00'')] [demo_note 0 7] 1
      demo_tx_params [] [''ssh5''] [] [] = Inr tx" and l: "length (tx_inputs tx) = 1" "length (tx_output_cms tx) = 1"
    by (rule demo_built)
  obtain i c where ic: "tx_inputs tx = [i]" "tx_output_cms tx = [c]" using l by (auto simp: length_Suc_conv)
  have "fromhex ''00'' = Some [0]" by code_simp
  then have "\<forall>pk\<in>set (map snd [(demo_note 1 f, ''00'')]). \<forall>m. verify_sig sample_prims pk m pk"
    by (simp add: verify_sig_def sample_prims_def)
  then show thesis using that b ic by (simp add: tx_nullifiers_def field_P_def)
qed


lemma demo_authenticated:
  obtains tx ts v beta where "authenticate sample_prims demo_tx_params [] tx = Inr (ts, v, beta)" "0 \<le> tx_binding tx" "tx_binding tx < field_P"
proof -
  obtain f tx where d: "build_transaction sample_prims demo_prove (\<lambda>_ _. Inr 1) (\<lambda>pk _. pk) [(demo_note 1 f, ''00'')] [demo_note 0 7] 1
      demo_tx_params [] [''ssh5''] [] [] = Inr tx" "distinct (tx_nullifiers tx)" "distinct (tx_output_cms tx)"
    "\<forall>pk\<in>set (map snd [(demo_note 1 f, ''00'')]). \<forall>m. verify_sig sample_prims pk m pk" "max_value demo_tx_params \<le> field_P"
    by (rule demo_verified)
  from d(1) have "tx_binding tx mod field_P = tx_binding tx"
    by (rule build_Inr) (simp add: binding_scalar_def h_field_range)
  then have r: "0 \<le> tx_binding tx" "tx_binding tx < field_P"
    using pos_mod_bound [of field_P "tx_binding tx"] pos_mod_sign [of field_P "tx_binding tx"] by (simp_all add: field_P_def)
  show thesis by (rule build_authenticates [OF d(1,4,2,3,5)]) (rule that [OF _ r])
qed

theorem same_binding_same_body_witness:
  "\<exists>tx auth. authenticate sample_prims demo_tx_params [] tx = Inr auth
    \<and> authenticate sample_prims demo_tx_params [] (tx\<lparr>tx_proofs := []\<rparr>) = Inr auth
    \<and> (tx_fee tx = tx_fee (tx\<lparr>tx_proofs := []\<rparr>) \<or> body_parts tx \<noteq> body_parts (tx\<lparr>tx_proofs := []\<rparr>))"
proof -
  obtain tx ts v beta where a: "authenticate sample_prims demo_tx_params [] tx = Inr (ts, v, beta)" by (rule demo_authenticated)
  let ?tx = "tx\<lparr>tx_proofs := []\<rparr>"
  have "check_shape p c ?tx = check_shape p c tx" "check_rows sample_prims ts v ?tx = check_rows sample_prims ts v tx" for p c ts v
    by (simp_all add: check_shape_def check_rows_def tx_input_cms_def tx_nullifiers_def Let_def)
  then have "authenticate sample_prims demo_tx_params [] ?tx = authenticate sample_prims demo_tx_params [] tx"
    by (simp add: authenticate_def tx_input_cms_def Let_def cong: if_cong)
  then have a': "authenticate sample_prims demo_tx_params [] ?tx = Inr (ts, v, beta)" using a by simp
  have "tx_fee tx = tx_fee ?tx \<or> body_parts tx \<noteq> body_parts ?tx" using same_binding_same_body [OF a a'] by auto
  then show ?thesis using a a' by blast
qed

theorem txid_is_malleable_witness:
  "\<exists>tx auth. authenticate sample_prims demo_tx_params [] tx = Inr auth
    \<and> authenticate sample_prims demo_tx_params [] (tx\<lparr>tx_binding := tx_binding tx + field_P\<rparr>) = Inr auth"
proof -
  obtain tx ts v beta where a: "authenticate sample_prims demo_tx_params [] tx = Inr (ts, v, beta)"
    and b: "0 \<le> tx_binding tx" "tx_binding tx < field_P" by (rule demo_authenticated)
  have "length (str_int b) \<le> 78" if "0 \<le> b" "b < 10 ^ 78" for b :: int
    using that length_str_nat [of "nat b" 77] by (simp add: str_int_def)
  then have "\<exists>x. h_preimage ''txid'' [PInt b] = Inr x" if "0 \<le> b" "b < 10 ^ 78" for b
    using that by (fastforce simp: h_preimage_def chain_domain_def)
  moreover have "tx_binding tx < 10 ^ 78" "tx_binding tx + field_P < 10 ^ 78" "0 \<le> tx_binding tx + field_P" using b by (simp_all add: field_P_def)
  ultimately obtain x y where "h_preimage ''txid'' [PInt (tx_binding tx)] = Inr x" "h_preimage ''txid'' [PInt (tx_binding tx + field_P)] = Inr y"
    using b(1) by blast
  from txid_is_malleable [OF a this] a show ?thesis by blast
qed

end
