(* ===== verification/Seats.thy ===== *)
theory Seats
  imports Seal
begin

text \<open>
  The canonical seat order and the bitmap over it: \<open>chain/seats.py\<close>.

  A bitmap is a byte list in hex, bit \<open>i mod 8\<close> of byte \<open>i div 8\<close> for seat \<open>i\<close>. The lemmas
  read one bit of the list \<open>set_bits\<close> builds, and the round trip follows in both directions:
  what \<open>to_bits\<close> writes \<open>from_bits\<close> reads back in the order's own order, and whatever
  \<open>from_bits\<close> accepts is, but for the spelling of its hex digits, what \<open>to_bits\<close> writes.
\<close>

unbundle bit_operations_syntax

definition canonical_order :: "string list \<Rightarrow> string list" where
  "canonical_order members = sorted_set members"

definition seats_digest :: "prims \<Rightarrow> string \<Rightarrow> string list \<Rightarrow> string" where
  "seats_digest P grid_id order = h_hex P ''seats'' [PStr grid_id, PList (map PStr order)]"

text \<open>The dictionary \<open>orders\<close> as its items; keys are distinct.\<close>

definition seats_root :: "prims \<Rightarrow> (string \<times> string list) list \<Rightarrow> string" where
  "seats_root P orders = ''sr:'' @ h_hex P ''seats-root''
     [PInt (int (seal_root P ''seats'' (map (\<lambda>(gid, order). gid @ '':'' @ seats_digest P gid order) (sort_key fst orders)) default_sparams))]"

definition bitmap_bytes :: "nat \<Rightarrow> nat" where
  "bitmap_bytes n = (n + 7) div 8"

text \<open>\<open>{nid: i for i, nid in enumerate(order)}\<close>: the last occurrence wins.\<close>

definition seat_index :: "string list \<Rightarrow> string \<Rightarrow> nat option" where
  "seat_index order = foldl (\<lambda>m (i, nid). m(nid \<mapsto> i)) Map.empty (enumerate 0 order)"

definition set_seat :: "nat \<Rightarrow> bytes \<Rightarrow> bytes" where
  "set_seat i raw = raw[i div 8 := raw ! (i div 8) OR push_bit (i mod 8) 1]"

definition to_bits :: "string list \<Rightarrow> string list \<Rightarrow> exn + string" where
  "to_bits signers order =
     bindR (foldR (\<lambda>raw nid. case seat_index order nid of None \<Rightarrow> Inl SeatError | Some i \<Rightarrow> Inr (set_seat i raw))
              (replicate (bitmap_bytes (length order)) 0) signers)
       (\<lambda>raw. Inr (hex_of raw))"

definition seat_set :: "bytes \<Rightarrow> nat \<Rightarrow> bool" where
  "seat_set raw i = (drop_bit (i mod 8) (raw ! (i div 8)) AND 1 \<noteq> 0)"

definition from_bits :: "string \<Rightarrow> string list \<Rightarrow> exn + string list" where
  "from_bits bits order =
     (let width = bitmap_bytes (length order) in
      case fromhex bits of
        None \<Rightarrow> Inl SeatError
      | Some raw \<Rightarrow>
          let spare = width * 8 - length order in
          if length raw \<noteq> width then Inl SeatError
          else if spare \<noteq> 0 \<and> drop_bit (8 - spare) (last raw) \<noteq> 0 then Inl SeatError
          else Inr (map snd (filter (\<lambda>(i, nid). seat_set raw i) (enumerate 0 order))))"

section \<open>Reading a bit\<close>

lemma seat_set_bit: "seat_set raw i = bit (raw ! (i div 8)) (i mod 8)"
  by (simp add: seat_set_def bit_iff_odd_drop_bit and_one_eq odd_iff_mod_2_eq_one)

lemma seat_set_set_seat:
  assumes "i div 8 < length raw" "j div 8 < length raw"
  shows "seat_set (set_seat i raw) j \<longleftrightarrow> i = j \<or> seat_set raw j"
proof (cases "i div 8 = j div 8")
  case True
  have l: "j mod 8 < 8" "i mod 8 < 8" by simp_all
  then have "bit (push_bit (i mod 8) (1 :: byte)) (j mod 8) \<longleftrightarrow> i mod 8 = j mod 8"
    by (auto simp: push_bit_of_1 bit_exp_iff possible_bit_def)
  moreover have "i mod 8 = j mod 8 \<longleftrightarrow> i = j" using True by (metis div_mult_mod_eq)
  ultimately show ?thesis
    using assms True by (simp add: set_seat_def seat_set_bit bit_or_iff) blast
next
  case False
  then show ?thesis using assms by (auto simp: set_seat_def seat_set_bit)
qed

lemma length_set_seat [simp]: "length (set_seat i raw) = length raw"
  by (simp add: set_seat_def)

lemma seat_index_snoc: "seat_index (xs @ [x]) = (seat_index xs)(x \<mapsto> length xs)"
  by (simp add: seat_index_def enumerate_append_eq)

lemma seat_index_Some: "seat_index order nid = Some i \<Longrightarrow> i < length order \<and> order ! i = nid"
proof (induction order arbitrary: i rule: rev_induct)
  case (snoc x xs)
  then show ?case by (auto simp: seat_index_snoc nth_append less_Suc_eq split: if_splits)
qed (simp add: seat_index_def)

lemma seat_index_None: "seat_index order nid = None \<longleftrightarrow> nid \<notin> set order"
  by (induction order rule: rev_induct) (auto simp: seat_index_snoc, simp add: seat_index_def)

lemma seat_index_nth: "distinct order \<Longrightarrow> i < length order \<Longrightarrow> seat_index order (order ! i) = Some i"
proof (induction order rule: rev_induct)
  case (snoc x xs)
  then show ?case by (auto simp: seat_index_snoc nth_append less_Suc_eq)
qed simp

lemma div8_bitmap: "i < n \<Longrightarrow> i div 8 < bitmap_bytes n"
  unfolding bitmap_bytes_def by linarith

lemma to_bits_fold:
  assumes "distinct order" "length raw0 = bitmap_bytes (length order)"
    and "foldR (\<lambda>raw nid. case seat_index order nid of None \<Rightarrow> Inl SeatError | Some i \<Rightarrow> Inr (set_seat i raw)) raw0 signers = Inr raw"
  shows "length raw = length raw0 \<and> set signers \<subseteq> set order
    \<and> (\<forall>j. j div 8 < length raw0 \<longrightarrow> (seat_set raw j \<longleftrightarrow> (j < length order \<and> order ! j \<in> set signers) \<or> seat_set raw0 j))"
  using assms(2,3)
proof (induction signers arbitrary: raw0)
  case (Cons nid signers)
  then obtain i where i: "seat_index order nid = Some i"
    and f: "foldR (\<lambda>raw nid. case seat_index order nid of None \<Rightarrow> Inl SeatError | Some i \<Rightarrow> Inr (set_seat i raw)) (set_seat i raw0) signers = Inr raw"
    by (cases "seat_index order nid") auto
  note i' = seat_index_Some [OF i]
  have IH: "length raw = length raw0 \<and> set signers \<subseteq> set order
    \<and> (\<forall>j. j div 8 < length raw0 \<longrightarrow> (seat_set raw j \<longleftrightarrow> (j < length order \<and> order ! j \<in> set signers) \<or> seat_set (set_seat i raw0) j))"
    using Cons.IH [OF _ f] Cons.prems(1) by simp
  have "seat_set (set_seat i raw0) j \<longleftrightarrow> i = j \<or> seat_set raw0 j" if "j div 8 < length raw0" for j
    using seat_set_set_seat [of i raw0 j] that div8_bitmap [of i] i' Cons.prems(1) by simp
  moreover have "i = j \<longleftrightarrow> j < length order \<and> order ! j = nid" for j
    using i' assms(1) by (metis nth_eq_iff_index_eq)
  moreover have "nid \<in> set order" using i' by auto
  ultimately show ?case using IH by auto
qed simp

lemma to_bits_total:
  assumes "set signers \<subseteq> set order"
  shows "\<exists>raw. foldR (\<lambda>raw nid. case seat_index order nid of None \<Rightarrow> Inl SeatError | Some i \<Rightarrow> Inr (set_seat i raw)) raw0 signers = Inr raw"
  using assms
proof (induction signers arbitrary: raw0)
  case (Cons nid signers)
  then obtain i where "seat_index order nid = Some i" using seat_index_None [of order nid] by auto
  then show ?case using Cons by auto
qed simp

lemma filter_enumerate: "map snd (filter (\<lambda>(i, x). Q i) (enumerate 0 xs)) = map (\<lambda>i. xs ! i) (filter Q [0..<length xs])"
  by (induction xs rule: rev_induct) (auto simp: enumerate_append_eq nth_append intro!: map_cong)

lemma bits_eqI:
  assumes "length a = length (b :: bytes)" "\<And>j. j div 8 < length a \<Longrightarrow> seat_set a j \<longleftrightarrow> seat_set b j"
  shows "a = b"
proof (rule nth_equalityI [OF assms(1)])
  fix i assume i: "i < length a"
  show "a ! i = b ! i"
  proof (rule bit_eqI)
    fix n assume "possible_bit TYPE(byte) n"
    then have "n < 8" by (simp add: possible_bit_def)
    then show "bit (a ! i) n = bit (b ! i) n" using assms(2) [of "8 * i + n"] i by (simp add: seat_set_bit)
  qed
qed

lemma nonzero_bit: "(x :: byte) \<noteq> 0 \<longleftrightarrow> (\<exists>b. bit x b)"
proof
  assume "x \<noteq> 0"
  show "\<exists>b. bit x b"
  proof (rule ccontr)
    assume "\<nexists>b. bit x b"
    then have "x = 0" by (intro bit_eqI) simp
    with \<open>x \<noteq> 0\<close> show False ..
  qed
qed auto

lemma no_spare_bits:
  assumes "length raw = bitmap_bytes n"
  shows "(bitmap_bytes n * 8 - n \<noteq> 0 \<and> drop_bit (8 - (bitmap_bytes n * 8 - n)) (last raw) \<noteq> 0)
    \<longleftrightarrow> (\<exists>j. n \<le> j \<and> j div 8 < length raw \<and> seat_set raw j)"
proof -
  let ?w = "bitmap_bytes n" and ?s = "bitmap_bytes n * 8 - n"
  have w: "?w * 8 < n + 8" "n \<le> ?w * 8" unfolding bitmap_bytes_def by linarith+
  show ?thesis
  proof (cases "?s = 0")
    case True
    then have "\<not> (n \<le> j \<and> j div 8 < length raw)" for j using w assms by (simp add: div_less_iff_less_mult)
    then show ?thesis using True by blast
  next
    case False
    then have w0: "0 < ?w" by simp
    then have last: "last raw = raw ! (?w - 1)" using assms by (metis last_conv_nth length_greater_0_conv)
    have "drop_bit (8 - ?s) (last raw) \<noteq> 0 \<longleftrightarrow> (\<exists>b. bit (drop_bit (8 - ?s) (last raw)) b)"
      by (rule nonzero_bit)
    also have "\<dots> \<longleftrightarrow> (\<exists>b. bit (last raw) (8 - ?s + b))" by (simp add: bit_drop_bit_eq)
    also have "\<dots> \<longleftrightarrow> (\<exists>j. n \<le> j \<and> j div 8 < length raw \<and> seat_set raw j)"
    proof
      assume "\<exists>b. bit (last raw) (8 - ?s + b)"
      then obtain b where b: "bit (last raw) (8 - ?s + b)" ..
      then have "8 - ?s + b < 8" using bit_imp_le_length [OF b] by simp
      then have d: "((?w - 1) * 8 + (8 - ?s + b)) div 8 = ?w - 1" "((?w - 1) * 8 + (8 - ?s + b)) mod 8 = 8 - ?s + b" by auto
      have "n \<le> (?w - 1) * 8 + (8 - ?s + b)" using w w0 by (simp add: diff_mult_distrib)
      then show "\<exists>j. n \<le> j \<and> j div 8 < length raw \<and> seat_set raw j"
        using d b w0 assms by (intro exI [of _ "(?w - 1) * 8 + (8 - ?s + b)"]) (simp add: seat_set_bit last)
    next
      assume "\<exists>j. n \<le> j \<and> j div 8 < length raw \<and> seat_set raw j"
      then obtain j where j: "n \<le> j" "j div 8 < ?w" "seat_set raw j" using assms by auto
      have "j div 8 = ?w - 1" using j(1,2) w w0 by linarith
      moreover have "8 - ?s \<le> j mod 8" using j(1) w w0 calculation by (simp add: minus_mult_div_eq_mod [symmetric] diff_mult_distrib2)
      ultimately show "\<exists>b. bit (last raw) (8 - ?s + b)"
        using j(3) by (intro exI [of _ "j mod 8 - (8 - ?s)"]) (simp add: seat_set_bit last)
    qed
    finally show ?thesis using False by simp
  qed
qed

section \<open>The round trips\<close>

lemma to_bits_Inr:
  assumes "distinct order" "to_bits signers order = Inr bits"
  shows "set signers \<subseteq> set order \<and> (\<exists>raw. bits = hex_of raw \<and> length raw = bitmap_bytes (length order)
    \<and> (\<forall>j. j div 8 < length raw \<longrightarrow> (seat_set raw j \<longleftrightarrow> j < length order \<and> order ! j \<in> set signers)))"
proof -
  let ?r0 = "replicate (bitmap_bytes (length order)) 0 :: bytes"
  from assms(2) obtain raw where raw: "bits = hex_of raw"
    "foldR (\<lambda>raw nid. case seat_index order nid of None \<Rightarrow> Inl SeatError | Some i \<Rightarrow> Inr (set_seat i raw)) ?r0 signers = Inr raw"
    by (auto simp: to_bits_def)
  have z: "\<not> seat_set ?r0 j" if "j div 8 < bitmap_bytes (length order)" for j using that by (simp add: seat_set_bit)
  from to_bits_fold [OF assms(1) _ raw(2)] z raw(1) show ?thesis by auto
qed

lemma from_bits_Inr:
  assumes "from_bits bits order = Inr s"
  obtains raw where "fromhex bits = Some raw" "length raw = bitmap_bytes (length order)"
    "\<forall>j. length order \<le> j \<longrightarrow> j div 8 < length raw \<longrightarrow> \<not> seat_set raw j"
    "s = map (\<lambda>i. order ! i) (filter (seat_set raw) [0..<length order])"
proof -
  from assms obtain raw where raw: "fromhex bits = Some raw" "length raw = bitmap_bytes (length order)"
    "\<not> (bitmap_bytes (length order) * 8 - length order \<noteq> 0 \<and> drop_bit (8 - (bitmap_bytes (length order) * 8 - length order)) (last raw) \<noteq> 0)"
    "s = map snd (filter (\<lambda>(i, nid). seat_set raw i) (enumerate 0 order))"
    by (auto simp: from_bits_def Let_def split: option.splits if_splits)
  show thesis
    by (rule that [OF raw(1,2)]) (use raw(3) no_spare_bits [OF raw(2)] raw(4) in \<open>auto simp: filter_enumerate\<close>)
qed

lemma to_bits_from_bits:
  assumes "distinct order" "to_bits signers order = Inr bits"
  shows "from_bits bits order = Inr (filter (\<lambda>n. n \<in> set signers) order)"
proof -
  from to_bits_Inr [OF assms] obtain raw where raw: "bits = hex_of raw" "length raw = bitmap_bytes (length order)"
    "\<And>j. j div 8 < length raw \<Longrightarrow> seat_set raw j \<longleftrightarrow> j < length order \<and> order ! j \<in> set signers" by blast
  have "\<not> (bitmap_bytes (length order) * 8 - length order \<noteq> 0 \<and> drop_bit (8 - (bitmap_bytes (length order) * 8 - length order)) (last raw) \<noteq> 0)"
    unfolding no_spare_bits [OF raw(2)] using raw(3) by auto
  moreover have "map snd (filter (\<lambda>(i, nid). seat_set raw i) (enumerate 0 order)) = filter (\<lambda>n. n \<in> set signers) order"
  proof -
    have "filter (\<lambda>(i, nid). seat_set raw i) (enumerate 0 order) = filter (\<lambda>(i, nid). nid \<in> set signers) (enumerate 0 order)"
      using raw(2,3) div8_bitmap by (intro filter_cong) (auto simp: in_set_enumerate_eq)
    moreover have "map snd (filter (\<lambda>(i, nid). nid \<in> set signers) (enumerate k order)) = filter (\<lambda>n. n \<in> set signers) order" for k
      by (induction order arbitrary: k) auto
    ultimately show ?thesis by simp
  qed
  ultimately show ?thesis using raw(1,2) by (simp add: from_bits_def Let_def)
qed

lemma from_bits_to_bits:
  assumes "distinct order" "from_bits bits order = Inr s"
  shows "\<exists>raw. fromhex bits = Some raw \<and> to_bits s order = Inr (hex_of raw)" and "set s \<subseteq> set order" "distinct s"
proof -
  obtain raw where raw: "fromhex bits = Some raw" "length raw = bitmap_bytes (length order)"
    "\<forall>j. length order \<le> j \<longrightarrow> j div 8 < length raw \<longrightarrow> \<not> seat_set raw j"
    "s = map (\<lambda>i. order ! i) (filter (seat_set raw) [0..<length order])"
    by (rule from_bits_Inr [OF assms(2)])
  show sub: "set s \<subseteq> set order" by (auto simp: raw(4))
  show "distinct s" using assms(1) by (auto simp: raw(4) distinct_map inj_on_def nth_eq_iff_index_eq)
  obtain bits' where b: "to_bits s order = Inr bits'"
    using to_bits_total [OF sub, of "replicate (bitmap_bytes (length order)) 0"] by (auto simp: to_bits_def)
  from to_bits_Inr [OF assms(1) b] obtain raw' where raw': "bits' = hex_of raw'" "length raw' = bitmap_bytes (length order)"
    "\<And>j. j div 8 < length raw' \<Longrightarrow> seat_set raw' j \<longleftrightarrow> j < length order \<and> order ! j \<in> set s" by blast
  have "raw' = raw"
  proof (rule bits_eqI)
    show "length raw' = length raw" using raw(2) raw'(2) by simp
    fix j assume j: "j div 8 < length raw'"
    show "seat_set raw' j \<longleftrightarrow> seat_set raw j"
    proof (cases "j < length order")
      case True
      then have "order ! j \<in> set s \<longleftrightarrow> seat_set raw j"
        using assms(1) by (auto simp: raw(4) nth_eq_iff_index_eq)
      then show ?thesis using raw'(3) [OF j] True by simp
    next
      case False
      then show ?thesis using raw'(3) [OF j] raw(2,3) raw'(2) j by simp
    qed
  qed
  then show "\<exists>raw. fromhex bits = Some raw \<and> to_bits s order = Inr (hex_of raw)" using raw(1) b raw'(1) by blast
qed

end
