(* ===== verification/Signed.thy ===== *)
theory Signed
  imports Register Seats Transactions
begin

text \<open>
  The blocks of the three tiers and the signed statements about them: \<open>chain/block.py\<close>,
  \<open>chain/tiered.py\<close>, the statements of \<open>chain/viewchange.py\<close>.

  A ceremony block carries fault reports, a fault report carries proposals or a block, so the
  four types are one mutual datatype; \<open>PBlock\<close> is the plain \<open>Block\<close> of \<open>block.py\<close>. Every hash
  is of a header, so \<open>block_hash\<close> is not recursive. An attribute a Python object of another
  class does not have is the exception \<open>AttributeError\<close>. A statement whose message would not
  encode (a part of $2^{32}$ bytes) verifies under no key, see \<open>verify_msg\<close>.
\<close>

section \<open>Headers\<close>

record grid_founding =
  gf_donor_id :: string
  gf_grid_id :: string
  gf_epoch :: int
  gf_cohort :: "string list"

definition founding_digest :: "prims \<Rightarrow> grid_founding \<Rightarrow> string" where
  "founding_digest P f = h_hex P ''founding'' [PStr (gf_donor_id f), PStr (gf_grid_id f), PInt (gf_epoch f),
     PList (map PStr (sort (gf_cohort f)))]"

definition foundings_root :: "prims \<Rightarrow> grid_founding list \<Rightarrow> int" where
  "foundings_root P fs = int (seal_root P ''foundings'' (map (founding_digest P) fs) default_sparams)"

record grid_merge =
  gm_from_id :: string
  gm_into_id :: string
  gm_epoch :: int
  gm_movers :: "string list"

definition merge_digest :: "prims \<Rightarrow> grid_merge \<Rightarrow> string" where
  "merge_digest P m = h_hex P ''merge'' [PStr (gm_from_id m), PStr (gm_into_id m), PInt (gm_epoch m),
     PList (map PStr (sort (gm_movers m)))]"

definition merges_root :: "prims \<Rightarrow> grid_merge list \<Rightarrow> int" where
  "merges_root P ms = int (seal_root P ''merges'' (map (merge_digest P) ms) default_sparams)"

record ceremony_header =
  ch_grid_id :: string
  ch_partition :: int
  ch_n_partitions :: int
  ch_epoch :: int
  ch_chain_id :: string
  ch_prev_network_hash :: string
  ch_tx_root :: int
  ch_delta_digest :: string
  ch_roll_digest :: string
  ch_register_root :: int
  ch_leader_id :: string
  ch_prev_cert_digest :: string
  ch_faults_digest :: string
  ch_quorum :: int

definition ceremony_hash :: "prims \<Rightarrow> ceremony_header \<Rightarrow> string" where
  "ceremony_hash P h = ''cb:'' @ h_hex P ''ceremony-header''
     [PStr (ch_grid_id h), PInt (ch_partition h), PInt (ch_n_partitions h), PInt (ch_epoch h), PStr (ch_chain_id h),
      PStr (ch_prev_network_hash h), PInt (ch_tx_root h), PStr (ch_delta_digest h), PStr (ch_roll_digest h),
      PInt (ch_register_root h), PStr (ch_leader_id h), PStr (ch_prev_cert_digest h), PStr (ch_faults_digest h),
      PInt (ch_quorum h)]"

record group_header =
  gh_group_id :: string
  gh_epoch :: int
  gh_chain_id :: string
  gh_prev_network_hash :: string
  gh_child_root :: int
  gh_dropped_root :: int
  gh_leader_id :: string

definition group_hash :: "prims \<Rightarrow> group_header \<Rightarrow> string" where
  "group_hash P h = ''sb:'' @ h_hex P ''group-header''
     [PStr (gh_group_id h), PInt (gh_epoch h), PStr (gh_chain_id h), PStr (gh_prev_network_hash h),
      PInt (gh_child_root h), PInt (gh_dropped_root h), PStr (gh_leader_id h)]"

record network_header =
  nh_height :: int
  nh_epoch :: int
  nh_chain_id :: string
  nh_prev_hash :: string
  nh_utxo_root :: int
  nh_nf_root :: int
  nh_group_root :: int
  nh_registers_root :: int
  nh_tiers :: int
  nh_foundings_root :: int
  nh_merges_root :: int
  nh_witness_root :: string
  nh_history_root :: string
  nh_utxo_count :: int
  nh_nf_count :: int
  nh_protocol :: int
  nh_seats_root :: string
  nh_leader_id :: string
  nh_quorum :: int

definition network_hash :: "prims \<Rightarrow> network_header \<Rightarrow> string" where
  "network_hash P h = ''nb:'' @ h_hex P ''network-header''
     [PInt (nh_height h), PInt (nh_epoch h), PStr (nh_chain_id h), PStr (nh_prev_hash h), PInt (nh_utxo_root h),
      PInt (nh_nf_root h), PInt (nh_group_root h), PInt (nh_registers_root h), PInt (nh_tiers h),
      PInt (nh_foundings_root h), PInt (nh_merges_root h), PStr (nh_witness_root h), PStr (nh_history_root h),
      PInt (nh_utxo_count h), PInt (nh_nf_count h), PInt (nh_protocol h), PStr (nh_seats_root h),
      PStr (nh_leader_id h), PInt (nh_quorum h)]"

section \<open>Statements\<close>

record view_change =
  vc_node_id :: string
  vc_public_hex :: string
  vc_chain_id :: string
  vc_height :: int
  vc_epoch :: int
  vc_view :: int
  vc_locked_view :: int
  vc_locked_hash :: string
  vc_signature :: string

definition vc_locked :: "view_change \<Rightarrow> bool" where
  "vc_locked c = (0 \<le> vc_locked_view c \<and> vc_locked_hash c \<noteq> [])"

definition vc_message :: "prims \<Rightarrow> string \<Rightarrow> string \<Rightarrow> int \<Rightarrow> int \<Rightarrow> int \<Rightarrow> int \<Rightarrow> string \<Rightarrow> exn + bytes" where
  "vc_message P cid node_id height epoch view locked_view locked_hash =
     h_bytes P ''view-change'' [PStr cid, PStr node_id, PInt height, PInt epoch, PInt view, PInt locked_view, PStr locked_hash] 32"

definition vc_verify :: "prims \<Rightarrow> view_change \<Rightarrow> bool" where
  "vc_verify P c = verify_msg P (vc_public_hex c)
     (vc_message P (vc_chain_id c) (vc_node_id c) (vc_height c) (vc_epoch c) (vc_view c) (vc_locked_view c) (vc_locked_hash c))
     (vc_signature c)"

record view_cert =
  vt_view :: int
  vt_changes :: "view_change list"

definition view_cert_digest :: "prims \<Rightarrow> view_cert \<Rightarrow> string" where
  "view_cert_digest P c = h_hex P ''view-cert'' [PInt (vt_view c),
     PList (map PStr (sort (map (\<lambda>x. vc_node_id x @ '':'' @ str_int (vc_locked_view x) @ '':'' @ vc_locked_hash x) (vt_changes c))))]"

record attestation =
  at_node_id :: string
  at_public_hex :: string
  at_chain_id :: string
  at_height :: int
  at_block_hash :: string
  at_epoch :: int
  at_grid_seed :: string
  at_signature :: string

definition att_message :: "prims \<Rightarrow> string \<Rightarrow> int \<Rightarrow> string \<Rightarrow> int \<Rightarrow> string \<Rightarrow> exn + bytes" where
  "att_message P cid height bh epoch seed = h_bytes P ''attestation'' [PStr cid, PInt height, PStr bh, PInt epoch, PStr seed] 32"

definition att_digest :: "prims \<Rightarrow> attestation \<Rightarrow> string" where
  "att_digest P a = h_hex P ''att-digest'' [PStr (at_node_id a), PStr (at_chain_id a), PInt (at_height a),
     PStr (at_block_hash a), PInt (at_epoch a), PStr (at_grid_seed a), PStr (at_signature a)]"

definition att_verify :: "prims \<Rightarrow> attestation \<Rightarrow> bool" where
  "att_verify P a = verify_msg P (at_public_hex a)
     (att_message P (at_chain_id a) (at_height a) (at_block_hash a) (at_epoch a) (at_grid_seed a)) (at_signature a)"

record quorum_cert =
  qc_chain_id :: string
  qc_height :: int
  qc_block_hash :: string
  qc_epoch :: int
  qc_grid_seed :: string
  qc_signers :: "string list"
  qc_signatures :: "string list"
  qc_shadow_signers :: "string list"
  qc_shadow_signatures :: "string list"
  qc_root :: int
  qc_scheme :: string
  qc_seats_digest :: string
  qc_signer_bits :: string
  qc_shadow_bits :: string

section \<open>Blocks, proposals and fault reports\<close>

datatype chain_block =
    PBlock block "quorum_cert option"
  | CBlock ceremony_header "transaction list" utxo_delta "attendance_roll option" "quorum_cert option"
      "quorum_cert option" "fault_report list"
  | GBlock group_header "chain_block list" "(string \<times> string) list" "quorum_cert option"
  | NBlock network_header "chain_block list" "string list" "grid_founding list" "grid_merge list" "quorum_cert option"
and signed_proposal =
    SignedProposal (sp_block: chain_block) (sp_leader_id: string) (sp_public_hex: string) (sp_epoch: int)
      (sp_grid_seed: string) (sp_signature: string) (sp_view: int) (sp_view_cert: "view_cert option")
and evidence = EvProposal signed_proposal | EvAttestation attestation
and fault_report =
    FaultReport (fr_reporter: string) (fr_public_hex: string) (fr_kind: string) (fr_height: int) (fr_epoch: int)
      (fr_detail: string) (fr_evidence: "evidence list") (fr_signature: string) (fr_chain_id: string)
      (fr_subject: "chain_block option")

fun block_hash :: "prims \<Rightarrow> chain_block \<Rightarrow> string" where
  "block_hash P (PBlock b _) = header_hash P (b_header b)"
| "block_hash P (CBlock h _ _ _ _ _ _) = ceremony_hash P h"
| "block_hash P (GBlock h _ _ _) = group_hash P h"
| "block_hash P (NBlock h _ _ _ _ _) = network_hash P h"

fun block_height :: "chain_block \<Rightarrow> int" where
  "block_height (PBlock b _) = bh_height (b_header b)"
| "block_height (CBlock h _ _ _ _ _ _) = ch_epoch h"
| "block_height (GBlock h _ _ _) = gh_epoch h"
| "block_height (NBlock h _ _ _ _ _) = nh_height h"

fun block_chain_id :: "chain_block \<Rightarrow> string" where
  "block_chain_id (PBlock b _) = bh_chain_id (b_header b)"
| "block_chain_id (CBlock h _ _ _ _ _ _) = ch_chain_id h"
| "block_chain_id (GBlock h _ _ _) = gh_chain_id h"
| "block_chain_id (NBlock h _ _ _ _ _) = nh_chain_id h"

fun block_leader_id :: "chain_block \<Rightarrow> exn + string" where
  "block_leader_id (PBlock _ _) = Inl AttributeError"
| "block_leader_id (CBlock h _ _ _ _ _ _) = Inr (ch_leader_id h)"
| "block_leader_id (GBlock h _ _ _) = Inr (gh_leader_id h)"
| "block_leader_id (NBlock h _ _ _ _ _) = Inr (nh_leader_id h)"

fun block_cert :: "chain_block \<Rightarrow> quorum_cert option" where
  "block_cert (PBlock _ c) = c"
| "block_cert (CBlock _ _ _ _ c _ _) = c"
| "block_cert (GBlock _ _ _ c) = c"
| "block_cert (NBlock _ _ _ _ _ c) = c"

text \<open>\<open>sup.children\<close> of a tier-1 block.\<close>

fun block_children :: "chain_block \<Rightarrow> exn + chain_block list" where
  "block_children (GBlock _ cs _ _) = Inr cs"
| "block_children _ = Inl AttributeError"

text \<open>\<open>NetworkBlock.ceremony_blocks\<close>.\<close>

definition ceremony_blocks :: "chain_block list \<Rightarrow> exn + chain_block list" where
  "ceremony_blocks groups = bindR (mapR block_children groups) (\<lambda>css. Inr (concat css))"

definition compute_child_root :: "prims \<Rightarrow> chain_block list \<Rightarrow> int" where
  "compute_child_root P children = int (seal_root P ''group-children'' (map (block_hash P) children) default_sparams)"

definition compute_dropped_root :: "prims \<Rightarrow> (string \<times> string) list \<Rightarrow> int" where
  "compute_dropped_root P dropped = int (seal_root P ''group-dropped'' (map (\<lambda>(h, why). h @ '':'' @ why) dropped) default_sparams)"

definition compute_group_root :: "prims \<Rightarrow> chain_block list \<Rightarrow> int" where
  "compute_group_root P groups = int (seal_root P ''network-groups'' (map (block_hash P) groups) default_sparams)"

definition ceremony_tx_root :: "prims \<Rightarrow> transaction list \<Rightarrow> int" where
  "ceremony_tx_root P txs = int (seal_root P ''tx'' (map (txid P) txs) default_sparams)"

section \<open>Proposals\<close>

definition sp_block_hash :: "prims \<Rightarrow> signed_proposal \<Rightarrow> string" where
  "sp_block_hash P sp = block_hash P (sp_block sp)"

definition sp_height :: "signed_proposal \<Rightarrow> int" where
  "sp_height sp = block_height (sp_block sp)"

definition sp_message :: "prims \<Rightarrow> string \<Rightarrow> int \<Rightarrow> string \<Rightarrow> int \<Rightarrow> string \<Rightarrow> int \<Rightarrow> string \<Rightarrow> exn + bytes" where
  "sp_message P cid height bh epoch seed view cert_digest =
     h_bytes P ''proposal'' [PStr cid, PInt height, PStr bh, PInt epoch, PStr seed, PInt view, PStr cert_digest] 32"

definition sp_cert_digest :: "prims \<Rightarrow> signed_proposal \<Rightarrow> string" where
  "sp_cert_digest P sp = (case sp_view_cert sp of None \<Rightarrow> [] | Some c \<Rightarrow> view_cert_digest P c)"

definition sp_verify :: "prims \<Rightarrow> signed_proposal \<Rightarrow> bool" where
  "sp_verify P sp = verify_msg P (sp_public_hex sp)
     (sp_message P (block_chain_id (sp_block sp)) (sp_height sp) (sp_block_hash P sp) (sp_epoch sp) (sp_grid_seed sp)
       (sp_view sp) (sp_cert_digest P sp)) (sp_signature sp)"

section \<open>Digests of what a ceremony block carries\<close>

definition prev_cert_digest :: "prims \<Rightarrow> quorum_cert option \<Rightarrow> string" where
  "prev_cert_digest P cert = (case cert of None \<Rightarrow> [] | Some c \<Rightarrow>
     h_hex P ''prev-cert'' [PStr (qc_chain_id c), PInt (qc_height c), PStr (qc_block_hash c), PInt (qc_epoch c), PStr (qc_grid_seed c),
       PList (map2 (\<lambda>n s. PStr (n @ '':'' @ s)) (qc_signers c) (qc_signatures c)),
       PList (map2 (\<lambda>n s. PStr (n @ '':'' @ s)) (qc_shadow_signers c) (qc_shadow_signatures c))])"

fun ev_block_hash :: "prims \<Rightarrow> evidence \<Rightarrow> string" where
  "ev_block_hash P (EvProposal sp) = sp_block_hash P sp"
| "ev_block_hash P (EvAttestation a) = at_block_hash a"

fun ev_verify :: "prims \<Rightarrow> evidence \<Rightarrow> bool" where
  "ev_verify P (EvProposal sp) = sp_verify P sp"
| "ev_verify P (EvAttestation a) = att_verify P a"

fun ev_epoch :: "evidence \<Rightarrow> int" where
  "ev_epoch (EvProposal sp) = sp_epoch sp"
| "ev_epoch (EvAttestation a) = at_epoch a"

fun ev_node_id :: "evidence \<Rightarrow> exn + string" where
  "ev_node_id (EvProposal sp) = Inl AttributeError"
| "ev_node_id (EvAttestation a) = Inr (at_node_id a)"

definition fr_subject_hash :: "prims \<Rightarrow> fault_report \<Rightarrow> string" where
  "fr_subject_hash P fr = (case fr_subject fr of None \<Rightarrow> [] | Some b \<Rightarrow> block_hash P b)"

definition fault_message :: "prims \<Rightarrow> string \<Rightarrow> string \<Rightarrow> string \<Rightarrow> int \<Rightarrow> int \<Rightarrow> string \<Rightarrow> string list \<Rightarrow> string \<Rightarrow> exn + bytes" where
  "fault_message P cid reporter kind height epoch detail hashes subject_hash =
     h_bytes P ''fault'' [PStr cid, PStr reporter, PStr kind, PInt height, PInt epoch, PStr detail,
       PList (map PStr hashes), PStr subject_hash] 32"

definition fr_key :: "prims \<Rightarrow> fault_report \<Rightarrow> string" where
  "fr_key P fr = h_hex P ''fault-key'' [PStr (fr_chain_id fr), PStr (fr_reporter fr), PStr (fr_kind fr), PInt (fr_height fr),
     PInt (fr_epoch fr), PStr (fr_detail fr), PList (map (\<lambda>e. PStr (ev_block_hash P e)) (fr_evidence fr)), PStr (fr_subject_hash P fr)]"

definition faults_digest :: "prims \<Rightarrow> fault_report list \<Rightarrow> string" where
  "faults_digest P faults = h_hex P ''faults'' [PList (map PStr (sort (map (fr_key P) faults)))]"

definition registers_root :: "prims \<Rightarrow> (string \<times> nat) list \<Rightarrow> int" where
  "registers_root P roots = int (seal_root P ''registers'' (map (\<lambda>(gid, r). gid @ '':'' @ str_nat r) (sort_key fst roots)) default_sparams)"

end
