(* ===== verification/Faults.thy ===== *)
theory Faults
  imports Signed
begin

text \<open>
  What a block says about itself and whom a report convicts: \<open>chain/faults.py\<close>, the methods of
  \<open>FaultReport\<close> in \<open>chain/block.py\<close> and \<open>faulted_from\<close>, \<open>tier_service\<close> of \<open>chain/tiered.py\<close>.

  A check that fails is a \<open>flaw\<close>, in the order of the source; an exception inside is the flaw
  \<open>MalformedBlock\<close>, as the source's \<open>except\<close> makes it. The methods that do not catch return
  \<open>exn + _\<close>. The first group of lemmas says what a block without a flaw is; the last theorem is
  the gap between a conviction and the roster.
\<close>

section \<open>Flaws a block shows on its own\<close>

datatype flaw =
    ForeignBlock string
  | GroupRootFlaw
  | FoundingsFlaw
  | MergesFlaw
  | ChildRootFlaw string
  | NestedFlaw string flaw
  | NoPartitions int
  | PartitionOutside int
  | TxRootFlaw
  | PrevCertFlaw
  | FaultsFlaw
  | RollFlaw
  | DeltaFlaw
  | DeltaDigestFlaw
  | TxForeign nat
  | TxSpans nat
  | TxElsewhere nat int
  | SpendsTwice nat
  | NullifierTwice nat
  | CreatesTwice nat
  | TxUnauthentic nat tx_refusal
  | TxUnproven nat tx_refusal
  | MalformedBlock exn

definition or_malformed :: "exn + 'a \<Rightarrow> flaw + 'a" where
  "or_malformed r = (case r of Inl e \<Rightarrow> Inl (MalformedBlock e) | Inr x \<Rightarrow> Inr x)"

lemma or_malformed_Inr [simp]: "or_malformed r = Inr x \<longleftrightarrow> r = Inr x"
  by (auto simp: or_malformed_def split: sum.splits)

record tx_seen =
  ts_cm :: "string set"
  ts_nf :: "string set"
  ts_out :: "string set"

definition flaw_tx ::
    "prims \<Rightarrow> (string \<Rightarrow> tx_sys \<Rightarrow> int list \<Rightarrow> int \<Rightarrow> bytes \<Rightarrow> exn + bool) \<Rightarrow> chain_params \<Rightarrow> bool
      \<Rightarrow> ceremony_header \<Rightarrow> tx_seen \<Rightarrow> nat \<times> transaction \<Rightarrow> flaw + tx_seen" where
  "flaw_tx P check params check_proofs h sn = (\<lambda>(i, tx).
     if tx_chain_id tx \<noteq> ch_chain_id h then Inl (TxForeign i)
     else bindR (or_malformed (tx_partition tx (ch_n_partitions h))) (\<lambda>part.
       case part of None \<Rightarrow> Inl (TxSpans i)
       | Some p \<Rightarrow>
         if p \<noteq> ch_partition h then Inl (TxElsewhere i p)
         else if set (tx_input_cms tx) \<inter> ts_cm sn \<noteq> {} then Inl (SpendsTwice i)
         else if set (tx_nullifiers tx) \<inter> ts_nf sn \<noteq> {} then Inl (NullifierTwice i)
         else if set (tx_output_cms tx) \<inter> ts_out sn \<noteq> {} then Inl (CreatesTwice i)
         else case authenticate P params (ch_chain_id h) tx of
           Inl why \<Rightarrow> Inl (TxUnauthentic i why)
         | Inr auth \<Rightarrow>
           (case (if check_proofs then verify_proof check params auth [] tx else Inr ()) of
             Inl why \<Rightarrow> Inl (TxUnproven i why)
           | Inr _ \<Rightarrow> Inr \<lparr>ts_cm = ts_cm sn \<union> set (tx_input_cms tx), ts_nf = ts_nf sn \<union> set (tx_nullifiers tx),
                           ts_out = ts_out sn \<union> set (tx_output_cms tx)\<rparr>)))"

definition no_seen :: tx_seen where
  "no_seen = \<lparr>ts_cm = {}, ts_nf = {}, ts_out = {}\<rparr>"

definition ceremony_checks ::
    "prims \<Rightarrow> (string \<Rightarrow> tx_sys \<Rightarrow> int list \<Rightarrow> int \<Rightarrow> bytes \<Rightarrow> exn + bool) \<Rightarrow> chain_params \<Rightarrow> string option \<Rightarrow> bool
      \<Rightarrow> chain_block \<Rightarrow> flaw + unit" where
  "ceremony_checks P check params cid check_proofs b =
     (if cid \<noteq> None \<and> Some (block_chain_id b) \<noteq> cid then Inl (ForeignBlock (block_chain_id b))
      else case b of
        CBlock h txs delta roll cert prev_cert faults \<Rightarrow>
          if ch_n_partitions h < 1 then Inl (NoPartitions (ch_n_partitions h))
          else if \<not> (0 \<le> ch_partition h \<and> ch_partition h < ch_n_partitions h) then Inl (PartitionOutside (ch_partition h))
          else if ch_tx_root h \<noteq> ceremony_tx_root P txs then Inl TxRootFlaw
          else if ch_prev_cert_digest h \<noteq> prev_cert_digest P prev_cert then Inl PrevCertFlaw
          else if ch_faults_digest h \<noteq> faults_digest P faults then Inl FaultsFlaw
          else if (case roll of None \<Rightarrow> False | Some r \<Rightarrow> ch_roll_digest h \<noteq> roll_digest P r) then Inl RollFlaw
          else if delta_digest P delta \<noteq> delta_digest P (from_txs txs) then Inl DeltaFlaw
          else if ch_delta_digest h \<noteq> delta_digest P delta then Inl DeltaDigestFlaw
          else bindR (foldR (flaw_tx P check params check_proofs h) no_seen (enumerate 0 txs)) (\<lambda>_. Inr ())
      | _ \<Rightarrow> Inl (MalformedBlock AttributeError))"

definition child_root_ok :: "prims \<Rightarrow> chain_block \<Rightarrow> flaw + unit" where
  "child_root_ok P b = (case b of
     GBlock h children _ _ \<Rightarrow> if gh_child_root h \<noteq> compute_child_root P children then Inl (ChildRootFlaw (gh_group_id h)) else Inr ()
   | _ \<Rightarrow> Inl (MalformedBlock AttributeError))"

definition network_checks ::
    "prims \<Rightarrow> (string \<Rightarrow> tx_sys \<Rightarrow> int list \<Rightarrow> int \<Rightarrow> bytes \<Rightarrow> exn + bool) \<Rightarrow> chain_params \<Rightarrow> string option \<Rightarrow> bool
      \<Rightarrow> chain_block \<Rightarrow> flaw + unit" where
  "network_checks P check params cid check_proofs b = (case b of
     NBlock h groups _ foundings merges _ \<Rightarrow>
       if cid \<noteq> None \<and> Some (nh_chain_id h) \<noteq> cid then Inl (ForeignBlock (nh_chain_id h))
       else if nh_group_root h \<noteq> compute_group_root P groups then Inl GroupRootFlaw
       else if nh_foundings_root h \<noteq> foundings_root P foundings then Inl FoundingsFlaw
       else if nh_merges_root h \<noteq> merges_root P merges then Inl MergesFlaw
       else bindR (check_each (child_root_ok P) groups) (\<lambda>_.
            bindR (or_malformed (ceremony_blocks groups)) (\<lambda>children.
            check_each (\<lambda>c. case ceremony_checks P check params cid check_proofs c of
              Inl f \<Rightarrow> (case c of CBlock ch _ _ _ _ _ _ \<Rightarrow> Inl (NestedFlaw (ch_grid_id ch) f)
                         | _ \<Rightarrow> Inl (MalformedBlock AttributeError))
            | Inr _ \<Rightarrow> Inr ()) children))
   | _ \<Rightarrow> Inl (MalformedBlock AttributeError))"

definition self_evident_flaw ::
    "prims \<Rightarrow> (string \<Rightarrow> tx_sys \<Rightarrow> int list \<Rightarrow> int \<Rightarrow> bytes \<Rightarrow> exn + bool) \<Rightarrow> chain_params \<Rightarrow> string option \<Rightarrow> bool
      \<Rightarrow> chain_block \<Rightarrow> flaw option" where
  "self_evident_flaw P check params cid check_proofs b =
     (case (case b of NBlock _ _ _ _ _ _ \<Rightarrow> network_checks P check params cid check_proofs b
            | _ \<Rightarrow> ceremony_checks P check params cid check_proofs b) of
        Inl f \<Rightarrow> Some f | Inr _ \<Rightarrow> None)"

text \<open>The encoded size of a block is \<open>codec.encode\<close>, which may raise.\<close>

definition MAX_EVIDENCE_BYTES :: nat where
  "MAX_EVIDENCE_BYTES = 512 * 1024"

definition evidence_size :: "(chain_block \<Rightarrow> exn + bytes) \<Rightarrow> chain_block \<Rightarrow> nat" where
  "evidence_size encode b = (case encode b of Inl _ \<Rightarrow> MAX_EVIDENCE_BYTES + 1 | Inr bs \<Rightarrow> length bs)"

definition reportable :: "(chain_block \<Rightarrow> exn + bytes) \<Rightarrow> chain_block \<Rightarrow> bool" where
  "reportable encode b = (evidence_size encode b \<le> MAX_EVIDENCE_BYTES)"

section \<open>Fault reports\<close>

definition EQUIVOCATION :: string where "EQUIVOCATION = ''equivocation''"
definition LAZY_ATTESTATION :: string where "LAZY_ATTESTATION = ''lazy_attestation''"
definition INVALID_BLOCK :: string where "INVALID_BLOCK = ''invalid_block''"

definition lazy_well_formed :: "prims \<Rightarrow> fault_report \<Rightarrow> bool" where
  "lazy_well_formed P fr = (case fr_subject fr of None \<Rightarrow> False
     | Some b \<Rightarrow> fr_evidence fr \<noteq> []
        \<and> list_all (\<lambda>e. ev_block_hash P e = block_hash P b \<and> ev_epoch e = fr_epoch fr \<and> ev_verify P e) (fr_evidence fr))"

text \<open>The parameters are absent, or a proof checker and the parameters.\<close>

type_synonym fault_params = "((string \<Rightarrow> tx_sys \<Rightarrow> int list \<Rightarrow> int \<Rightarrow> bytes \<Rightarrow> exn + bool) \<times> chain_params) option"

definition lazy_substantiated :: "prims \<Rightarrow> fault_params \<Rightarrow> fault_report \<Rightarrow> bool" where
  "lazy_substantiated P fp fr = (case fp of None \<Rightarrow> False
     | Some (check, params) \<Rightarrow> lazy_well_formed P fr
        \<and> (case fr_subject fr of None \<Rightarrow> False
           | Some b \<Rightarrow> self_evident_flaw P check params (Some (fr_chain_id fr)) True b \<noteq> None))"

definition substantiated :: "prims \<Rightarrow> fault_params \<Rightarrow> fault_report \<Rightarrow> exn + bool" where
  "substantiated P fp fr =
     (if fr_kind fr = LAZY_ATTESTATION then Inr (lazy_substantiated P fp fr)
      else if fr_kind fr \<noteq> EQUIVOCATION then Inr False
      else case fr_evidence fr of
        [a, b] \<Rightarrow>
          if \<not> (ev_verify P a \<and> ev_verify P b) then Inr False
          else (case (a, b) of
            (EvProposal x, EvProposal y) \<Rightarrow> Inr
              (sp_leader_id x = sp_leader_id y \<and> sp_public_hex x = sp_public_hex y
               \<and> sp_height x = sp_height y \<and> sp_height y = fr_height fr
               \<and> sp_epoch x = sp_epoch y \<and> sp_epoch y = fr_epoch fr
               \<and> sp_block_hash P x \<noteq> sp_block_hash P y)
          | _ \<Rightarrow> Inl AttributeError)
      | _ \<Rightarrow> Inr False)"

definition accused :: "prims \<Rightarrow> fault_params \<Rightarrow> fault_report \<Rightarrow> exn + string list" where
  "accused P fp fr = bindR (substantiated P fp fr) (\<lambda>ok.
     if \<not> ok then Inr []
     else if fr_kind fr = EQUIVOCATION then
       (case fr_evidence fr of EvProposal x # _ \<Rightarrow> Inr [sp_leader_id x] | _ \<Rightarrow> Inl AttributeError)
     else bindR (mapR ev_node_id (fr_evidence fr)) (\<lambda>ns. Inr (sorted_set ns)))"

definition fr_verify :: "prims \<Rightarrow> fault_report \<Rightarrow> exn + bool" where
  "fr_verify P fr =
     (if \<not> verify_msg P (fr_public_hex fr)
            (fault_message P (fr_chain_id fr) (fr_reporter fr) (fr_kind fr) (fr_height fr) (fr_epoch fr) (fr_detail fr)
              (map (ev_block_hash P) (fr_evidence fr)) (fr_subject_hash P fr)) (fr_signature fr) then Inr False
      else if fr_kind fr = EQUIVOCATION then substantiated P None fr
      else if fr_kind fr = LAZY_ATTESTATION then Inr (lazy_well_formed P fr)
      else Inr True)"

definition faulted_from :: "prims \<Rightarrow> fault_params \<Rightarrow> fault_report list \<Rightarrow> exn + string list" where
  "faulted_from P fp faults =
     bindR (foldR (\<lambda>out fr. bindR (fr_verify P fr) (\<lambda>ok. if \<not> ok then Inr out
              else bindR (accused P fp fr) (\<lambda>ns. Inr (out @ ns)))) [] faults)
       (\<lambda>out. Inr (sorted_set out))"

section \<open>Service at the upper tiers\<close>

text \<open>\<open>QuorumCert.attended\<close>, which needs the seats named.\<close>

definition qc_compact :: "quorum_cert \<Rightarrow> bool" where
  "qc_compact c = (qc_seats_digest c \<noteq> [])"

fun ones :: "nat \<Rightarrow> nat" where
  "ones n = (if n = 0 then 0 else n mod 2 + ones (n div 2))"

declare ones.simps [simp del]

definition popcount :: "string \<Rightarrow> nat" where
  "popcount bits = (case int16 (if bits = [] then ''0'' else bits) of Inl _ \<Rightarrow> 0 | Inr n \<Rightarrow> ones (nat \<bar>n\<bar>))"

definition cert_len :: "quorum_cert \<Rightarrow> nat" where
  "cert_len c = (if qc_compact c then popcount (qc_signer_bits c) else length (qc_signers c))"

definition qc_attended :: "quorum_cert \<Rightarrow> exn + string list" where
  "qc_attended c = (if qc_compact c then Inl SeatError else Inr (sorted_set (qc_signers c @ qc_shadow_signers c)))"

type_synonym service = "(string \<times> (int \<times> int \<times> int)) list"

definition credit_one :: "service \<Rightarrow> string \<Rightarrow> int \<Rightarrow> int \<Rightarrow> int \<Rightarrow> service" where
  "credit_one out nid s a l =
     (if nid = [] then out
      else let (s0, a0, l0) = (case map_of out nid of None \<Rightarrow> (0, 0, 0) | Some w \<Rightarrow> w)
           in AList.update nid (s0 + s, a0 + a, l0 + l) out)"

definition seats_of :: "chain_block list \<Rightarrow> exn + string list" where
  "seats_of children = bindR (mapR block_leader_id children) (\<lambda>ls. Inr (sorted_set (filter (\<lambda>l. l \<noteq> []) ls)))"

text \<open>A certificate of length 0 is false in a condition.\<close>

definition credit_seats :: "string list \<Rightarrow> quorum_cert option \<Rightarrow> string \<Rightarrow> service \<Rightarrow> exn + service" where
  "credit_seats seats cert leader out =
     bindR (case cert of None \<Rightarrow> Inr [] | Some c \<Rightarrow> if cert_len c = 0 then Inr [] else qc_attended c) (\<lambda>signed.
       Inr (foldl (\<lambda>acc nid. credit_one acc nid 1 (if nid \<in> set signed then 1 else 0) (if nid = leader then 1 else 0)) out seats))"

definition tier_service :: "chain_block \<Rightarrow> exn + service" where
  "tier_service b = (case b of
     NBlock h groups _ _ _ cert \<Rightarrow>
       if nh_tiers h < 2 then Inr []
       else bindR (foldR (\<lambda>out g. bindR (block_children g) (\<lambda>cs. bindR (seats_of cs) (\<lambda>seats.
                     bindR (block_leader_id g) (\<lambda>l. credit_seats seats (block_cert g) l out)))) [] groups) (\<lambda>out.
            bindR (ceremony_blocks groups) (\<lambda>children. bindR (seats_of children) (\<lambda>committee.
            credit_seats committee cert (nh_leader_id h) out)))
   | _ \<Rightarrow> Inl AttributeError)"

section \<open>Who is convicted\<close>

lemma fold_collect:
  assumes "foldR (\<lambda>out x. bindR (v x) (\<lambda>ok. if \<not> ok then Inr out else bindR (a x) (\<lambda>ns. Inr (out @ ns)))) o0 xs = Inr out"
    and "n \<in> set out"
  shows "n \<in> set o0 \<or> (\<exists>x\<in>set xs. v x = Inr True \<and> (\<exists>ns. a x = Inr ns \<and> n \<in> set ns))"
  using assms
proof (induction xs arbitrary: o0)
  case (Cons x xs)
  from Cons.prems(1) obtain b where b: "v x = Inr b" by auto
  show ?case
  proof (cases b)
    case False
    then show ?thesis using Cons b by auto
  next
    case True
    then obtain ns where ns: "a x = Inr ns" using Cons.prems(1) b by auto
    then have "foldR (\<lambda>out x. bindR (v x) (\<lambda>ok. if \<not> ok then Inr out else bindR (a x) (\<lambda>ns. Inr (out @ ns)))) (o0 @ ns) xs = Inr out"
      using Cons.prems(1) b True by simp
    from Cons.IH [OF this Cons.prems(2)] show ?thesis using b True ns by auto
  qed
qed simp

lemma equivocation_cases:
  assumes "substantiated P fp fr = Inr True" "fr_kind fr = EQUIVOCATION"
  obtains x y where "fr_evidence fr = [EvProposal x, EvProposal y]" "sp_verify P x" "sp_verify P y"
    "sp_leader_id x = sp_leader_id y" "sp_public_hex x = sp_public_hex y" "sp_height x = sp_height y"
    "sp_epoch x = sp_epoch y" "sp_block_hash P x \<noteq> sp_block_hash P y"
proof -
  have k: "EQUIVOCATION \<noteq> LAZY_ATTESTATION" by (simp add: EQUIVOCATION_def LAZY_ATTESTATION_def)
  then obtain a b where ab: "fr_evidence fr = [a, b]"
    using assms by (auto simp: substantiated_def split: list.splits)
  show thesis
    using assms k ab that by (cases a; cases b) (auto simp: substantiated_def split: if_splits)
qed

lemma accused_cases:
  assumes "accused P fp fr = Inr ns" "n \<in> set ns"
  shows "(\<exists>x y. fr_evidence fr = [EvProposal x, EvProposal y] \<and> sp_leader_id x = n \<and> sp_leader_id y = n
        \<and> sp_verify P x \<and> sp_verify P y \<and> sp_public_hex x = sp_public_hex y \<and> sp_height x = sp_height y
        \<and> sp_epoch x = sp_epoch y \<and> sp_block_hash P x \<noteq> sp_block_hash P y)
    \<or> (\<exists>a b check params. EvAttestation a \<in> set (fr_evidence fr) \<and> at_node_id a = n \<and> att_verify P a
        \<and> fr_subject fr = Some b \<and> at_block_hash a = block_hash P b \<and> fp = Some (check, params)
        \<and> self_evident_flaw P check params (Some (fr_chain_id fr)) True b \<noteq> None)"
proof -
  from assms have s: "substantiated P fp fr = Inr True" by (auto simp: accused_def split: if_splits)
  show ?thesis
  proof (cases "fr_kind fr = EQUIVOCATION")
    case True
    show ?thesis
      by (rule equivocation_cases [OF s True]) (use assms True s in \<open>auto simp: accused_def\<close>)
  next
    case False
    then have lazy: "lazy_substantiated P fp fr" using s by (auto simp: substantiated_def split: if_splits)
    from assms s False obtain ids where ids: "mapR ev_node_id (fr_evidence fr) = Inr ids" "n \<in> set ids"
      by (auto simp: accused_def)
    obtain e where e: "e \<in> set (fr_evidence fr)" "ev_node_id e = Inr n"
      using mapR_mem [OF ids] by blast
    from e(2) obtain a where a: "e = EvAttestation a" "at_node_id a = n" by (cases e) auto
    from lazy e(1) show ?thesis
      by (auto simp: lazy_substantiated_def lazy_well_formed_def list_all_iff a split: option.splits prod.splits
          intro!: exI [of _ a] dest!: bspec)
  qed
qed

text \<open>C28: Nobody is convicted without signed evidence. Every name \<open>faulted_from\<close> returns is
  the leader id of two proposals in one report, for different blocks at one height and epoch, that
  verify under one key; or the node id of an attestation that verifies over a block whose own
  bytes show a flaw.\<close>

theorem conviction_is_substantiated:
  assumes "faulted_from P fp faults = Inr ns" and "n \<in> set ns"
  shows "\<exists>fr\<in>set faults. fr_verify P fr = Inr True \<and>
    ((\<exists>x y. fr_evidence fr = [EvProposal x, EvProposal y] \<and> sp_leader_id x = n \<and> sp_leader_id y = n
        \<and> sp_verify P x \<and> sp_verify P y \<and> sp_public_hex x = sp_public_hex y \<and> sp_height x = sp_height y
        \<and> sp_epoch x = sp_epoch y \<and> sp_block_hash P x \<noteq> sp_block_hash P y)
    \<or> (\<exists>a b check params. EvAttestation a \<in> set (fr_evidence fr) \<and> at_node_id a = n \<and> att_verify P a
        \<and> fr_subject fr = Some b \<and> at_block_hash a = block_hash P b \<and> fp = Some (check, params)
        \<and> self_evident_flaw P check params (Some (fr_chain_id fr)) True b \<noteq> None))"
proof -
  from assms obtain out where "foldR (\<lambda>out fr. bindR (fr_verify P fr) (\<lambda>ok. if \<not> ok then Inr out
      else bindR (accused P fp fr) (\<lambda>ns. Inr (out @ ns)))) [] faults = Inr out" "n \<in> set out"
    by (auto simp: faulted_from_def)
  from fold_collect [OF this] obtain fr ns where "fr \<in> set faults" "fr_verify P fr = Inr True" "accused P fp fr = Inr ns" "n \<in> set ns"
    by auto
  then show ?thesis using accused_cases [of P fp fr ns n] by (intro bexI [of _ fr] conjI) simp_all
qed

section \<open>A report against anybody\<close>

definition relabel :: "string \<Rightarrow> signed_proposal \<Rightarrow> signed_proposal" where
  "relabel victim sp = SignedProposal (sp_block sp) victim (sp_public_hex sp) (sp_epoch sp) (sp_grid_seed sp)
     (sp_signature sp) (sp_view sp) (sp_view_cert sp)"

definition frame_report :: "string \<Rightarrow> string \<Rightarrow> string \<Rightarrow> string \<Rightarrow> string \<Rightarrow> signed_proposal \<Rightarrow> signed_proposal \<Rightarrow> string \<Rightarrow> fault_report" where
  "frame_report reporter key cid detail sig x y victim =
     FaultReport reporter key EQUIVOCATION (sp_height x) (sp_epoch x) detail
       [EvProposal (relabel victim x), EvProposal (relabel victim y)] sig cid None"

lemma relabel_verify [simp]: "sp_verify P (relabel v x) = sp_verify P x" "sp_block_hash P (relabel v x) = sp_block_hash P x"
  "sp_height (relabel v x) = sp_height x" "sp_epoch (relabel v x) = sp_epoch x" "sp_leader_id (relabel v x) = v"
  "sp_public_hex (relabel v x) = sp_public_hex x"
  by (simp_all add: relabel_def sp_verify_def sp_height_def sp_block_hash_def sp_cert_digest_def)

text \<open>A fault report can frame anybody. Neither the statement a proposer signs nor the check
  of a report ties the leader a proposal names to the key it verifies under. Whoever holds two
  proposals for different blocks at one height under any key, its own included, can relabel them
  with the id of any node, and the one report signature then convicts that node: every victim's
  report verifies and \<open>faulted_from\<close> returns the victim.\<close>

theorem fault_report_can_frame:
  assumes "sp_verify P x" "sp_verify P y" "sp_public_hex x = sp_public_hex y" "sp_height x = sp_height y" "sp_epoch x = sp_epoch y"
    and "sp_block_hash P x \<noteq> sp_block_hash P y"
    and sig: "verify_msg P key (fault_message P cid reporter EQUIVOCATION (sp_height x) (sp_epoch x) detail
      [sp_block_hash P x, sp_block_hash P y] []) sig"
  shows "\<forall>victim. faulted_from P fp [frame_report reporter key cid detail sig x y victim] = Inr [victim]"
proof
  fix victim
  let ?fr = "frame_report reporter key cid detail sig x y victim"
  have k: "EQUIVOCATION \<noteq> LAZY_ATTESTATION" by (simp add: EQUIVOCATION_def LAZY_ATTESTATION_def)
  have s: "substantiated P fp ?fr = Inr True" for fp
    using assms k by (simp add: frame_report_def substantiated_def)
  have "fr_verify P ?fr = Inr True"
    using s [of None] sig k by (simp add: fr_verify_def frame_report_def fr_subject_hash_def)
  moreover have "accused P fp ?fr = Inr [victim]" using s by (simp add: accused_def frame_report_def)
  ultimately show "faulted_from P fp [?fr] = Inr [victim]"
    by (simp add: faulted_from_def sorted_set_def)
qed

section \<open>Instances\<close>

definition demo_header :: "string \<Rightarrow> ceremony_header" where
  "demo_header g = \<lparr>ch_grid_id = g, ch_partition = 0, ch_n_partitions = 1, ch_epoch = 1, ch_chain_id = ''c'',
     ch_prev_network_hash = [], ch_tx_root = 0, ch_delta_digest = [], ch_roll_digest = [], ch_register_root = 0,
     ch_leader_id = ''l'', ch_prev_cert_digest = [], ch_faults_digest = [], ch_quorum = 1\<rparr>"

definition demo_proposal :: "string \<Rightarrow> signed_proposal" where
  "demo_proposal g = SignedProposal (CBlock (demo_header g) [] delta_empty None None None []) ''l'' ''00'' 1 ''s'' ''00'' 0 None"

lemma demo_hash:
  "ceremony_hash len_prims (demo_header g) = ''cb:'' @ hex_of (be_bytes 32 (111 + length g))" if "length g < 100"
  using that by (simp add: ceremony_hash_def demo_header_def h_hex_def h_bytes_def h_preimage_def chain_domain_def len_prims_def
      str_int_def str_nat.simps len_prefixed_def)

lemma demo_proposal_facts:
  assumes "length g < 100"
  shows "sp_verify len_prims (demo_proposal g)" "sp_public_hex (demo_proposal g) = ''00''" "sp_height (demo_proposal g) = 1"
    "sp_epoch (demo_proposal g) = 1" "sp_block_hash len_prims (demo_proposal g) = ''cb:'' @ hex_of (be_bytes 32 (111 + length g))"
proof -
  show h: "sp_block_hash len_prims (demo_proposal g) = ''cb:'' @ hex_of (be_bytes 32 (111 + length g))"
    using assms by (simp add: sp_block_hash_def demo_proposal_def demo_hash)
  show "sp_verify len_prims (demo_proposal g)"
    unfolding sp_verify_def h
    by (simp add: demo_proposal_def len_verify sp_message_def h_bytes_def h_preimage_def chain_domain_def len_prefixed_def
        sp_height_def demo_header_def str_int_def str_nat.simps sp_cert_digest_def)
qed (simp_all add: demo_proposal_def sp_height_def demo_header_def)

lemma demo_hashes_differ: "sp_block_hash len_prims (demo_proposal ''g'') \<noteq> sp_block_hash len_prims (demo_proposal ''gg'')"
proof -
  have "be_bytes 32 112 \<noteq> be_bytes 32 113"
  proof
    assume "be_bytes 32 112 = be_bytes 32 113"
    then have "be_nat (be_bytes 32 112) = be_nat (be_bytes 32 113)" by simp
    then show False by (simp add: be_nat_be_bytes)
  qed
  then show ?thesis by (simp add: demo_proposal_facts)
qed

lemma demo_fault_signed: "verify_msg len_prims ''00'' (fault_message len_prims ''c'' ''r'' EQUIVOCATION 1 1 ''d''
    [sp_block_hash len_prims (demo_proposal ''g''), sp_block_hash len_prims (demo_proposal ''gg'')] []) ''00''"
  by (simp add: len_verify fault_message_def demo_proposal_facts h_bytes_def h_preimage_def chain_domain_def len_prefixed_def
      EQUIVOCATION_def str_int_def str_nat.simps)

lemma demo_frame: "faulted_from len_prims None [frame_report ''r'' ''00'' ''c'' ''d'' ''00'' (demo_proposal ''g'') (demo_proposal ''gg'') ''v'']
  = Inr [''v'']"
proof -
  let ?fr = "frame_report ''r'' ''00'' ''c'' ''d'' ''00'' (demo_proposal ''g'') (demo_proposal ''gg'') ''v''"
  have k: "EQUIVOCATION \<noteq> LAZY_ATTESTATION" by (simp add: EQUIVOCATION_def LAZY_ATTESTATION_def)
  have s: "substantiated len_prims None ?fr = Inr True"
    using demo_hashes_differ k by (simp add: substantiated_def frame_report_def demo_proposal_facts)
  moreover have "fr_verify len_prims ?fr = Inr True"
    using s demo_fault_signed k by (simp add: fr_verify_def frame_report_def fr_subject_hash_def demo_proposal_facts)
  ultimately show ?thesis by (simp add: faulted_from_def sorted_set_def accused_def frame_report_def)
qed

theorem fault_report_can_frame_witness:
  "faulted_from len_prims None [frame_report ''r'' ''00'' ''c'' ''d'' ''00'' (demo_proposal ''g'') (demo_proposal ''gg'') ''anyone''] = Inr [''anyone'']"
proof -
  note f = demo_proposal_facts [of "''g''"] demo_proposal_facts [of "''gg''"]
  have "verify_msg len_prims ''00'' (fault_message len_prims ''c'' ''r'' EQUIVOCATION (sp_height (demo_proposal ''g''))
      (sp_epoch (demo_proposal ''g'')) ''d'' [sp_block_hash len_prims (demo_proposal ''g''), sp_block_hash len_prims (demo_proposal ''gg'')] []) ''00''"
    using demo_fault_signed f by simp
  then show ?thesis
    using fault_report_can_frame [OF _ _ _ _ _ demo_hashes_differ, of "''00''" "''c''" "''r''" "''d''" "''00''" None] f by simp
qed

theorem conviction_is_substantiated_witness:
  "\<exists>fr\<in>{frame_report ''r'' ''00'' ''c'' ''d'' ''00'' (demo_proposal ''g'') (demo_proposal ''gg'') ''v''}. \<exists>x y.
    fr_evidence fr = [EvProposal x, EvProposal y] \<and> sp_verify len_prims x \<and> sp_leader_id x = ''v''"
  using conviction_is_substantiated [OF demo_frame, of "''v''"] by auto

end
