(* ===== verification/Certs.thy ===== *)
theory Certs
  imports Faults
begin

text \<open>
  Quorum certificates: \<open>QuorumCert\<close> of \<open>chain/block.py\<close>.

  \<open>cert_verify\<close> is \<open>verify\<close> with its refusals as constructors, in the order of the source. The
  lemmas say what a certificate that verifies contains and that the bitmap form is the same
  certificate; with the interface \<open>quorum_system\<close> this gives agreement: certificates for two
  blocks under one roster share a signer outside any third of it.
\<close>

definition ED25519 :: string where
  "ED25519 = ''ed25519''"

section \<open>Building and the two encodings\<close>

definition cert_root :: "prims \<Rightarrow> string list \<Rightarrow> string list \<Rightarrow> string \<Rightarrow> int" where
  "cert_root P signers signatures scheme = int (seal_root P ''quorum''
     ((''scheme:'' @ scheme) # map2 (\<lambda>n s. n @ '':'' @ s) signers signatures) default_sparams)"

definition cert_build :: "prims \<Rightarrow> string \<Rightarrow> int \<Rightarrow> string \<Rightarrow> int \<Rightarrow> string \<Rightarrow> attestation list \<Rightarrow> attestation list \<Rightarrow> quorum_cert" where
  "cert_build P cid height bh epoch seed attestations shadow =
     (let atts = sort_key at_node_id attestations;
          counting = set (map at_node_id atts);
          shad = sort_key at_node_id (filter (\<lambda>a. at_node_id a \<notin> counting) shadow)
      in \<lparr>qc_chain_id = cid, qc_height = height, qc_block_hash = bh, qc_epoch = epoch, qc_grid_seed = seed,
          qc_signers = map at_node_id atts, qc_signatures = map at_signature atts,
          qc_shadow_signers = map at_node_id shad, qc_shadow_signatures = map at_signature shad,
          qc_root = cert_root P (map at_node_id atts) (map at_signature atts) ED25519, qc_scheme = ED25519,
          qc_seats_digest = [], qc_signer_bits = [], qc_shadow_bits = []\<rparr>)"

definition cert_message :: "prims \<Rightarrow> quorum_cert \<Rightarrow> exn + bytes" where
  "cert_message P c = att_message P (qc_chain_id c) (qc_height c) (qc_block_hash c) (qc_epoch c) (qc_grid_seed c)"

definition cert_voters :: "quorum_cert \<Rightarrow> exn + string list" where
  "cert_voters c = (if qc_compact c then Inl SeatError else Inr (qc_signers c))"

definition compact_form :: "prims \<Rightarrow> string \<Rightarrow> string list \<Rightarrow> quorum_cert \<Rightarrow> exn + quorum_cert" where
  "compact_form P grid_id order c =
     (if qc_compact c then Inr c
      else bindR (to_bits (qc_signers c) order) (\<lambda>sb. bindR (to_bits (qc_shadow_signers c) order) (\<lambda>hb.
        Inr (c\<lparr>qc_signers := [], qc_shadow_signers := [], qc_seats_digest := seats_digest P grid_id order,
               qc_signer_bits := sb, qc_shadow_bits := hb\<rparr>))))"

definition expanded_form :: "prims \<Rightarrow> string \<Rightarrow> string list \<Rightarrow> quorum_cert \<Rightarrow> exn + quorum_cert" where
  "expanded_form P grid_id order c =
     (if \<not> qc_compact c then Inr c
      else if seats_digest P grid_id order \<noteq> qc_seats_digest c then Inl SeatError
      else bindR (from_bits (qc_signer_bits c) order) (\<lambda>ss. bindR (from_bits (qc_shadow_bits c) order) (\<lambda>hs.
        Inr (c\<lparr>qc_seats_digest := [], qc_signer_bits := [], qc_shadow_bits := [], qc_signers := ss, qc_shadow_signers := hs\<rparr>))))"

section \<open>Verification\<close>

datatype cert_refusal =
    DifferentBlock
  | NoRoster
  | UnknownScheme string
  | NeedsSeats
  | BadSeats exn
  | StraySeat string
  | SignersMismatch
  | ShadowsMismatch
  | UnknownValidator string
  | DuplicateAttestation string
  | BadAttestation string
  | BelowQuorum nat int
  | AttestedTwice string
  | BadShadow string
  | CertRootMismatch

definition vote_step ::
    "prims \<Rightarrow> (string \<rightharpoonup> string) \<Rightarrow> exn + bytes \<Rightarrow> (string \<Rightarrow> cert_refusal) \<Rightarrow> (string \<Rightarrow> cert_refusal) \<Rightarrow> string list \<Rightarrow> string \<times> string
      \<Rightarrow> cert_refusal + string list" where
  "vote_step P validators msg dup bad seen = (\<lambda>(node, sig).
     case validators node of None \<Rightarrow> Inl (UnknownValidator node)
     | Some key \<Rightarrow> if node \<in> set seen then Inl (dup node)
         else if \<not> verify_msg P key msg sig then Inl (bad node) else Inr (node # seen))"

definition cert_seated :: "prims \<Rightarrow> string list option \<Rightarrow> string \<Rightarrow> quorum_cert \<Rightarrow> cert_refusal + quorum_cert" where
  "cert_seated P seats grid_id c =
     (if qc_compact c then
        (case seats of None \<Rightarrow> Inl NeedsSeats
         | Some order \<Rightarrow> (case expanded_form P grid_id order c of Inl e \<Rightarrow> Inl (BadSeats e) | Inr c' \<Rightarrow> Inr c'))
      else case seats of None \<Rightarrow> Inr c
         | Some order \<Rightarrow> (case filter (\<lambda>n. n \<notin> set order) (qc_signers c) of [] \<Rightarrow> Inr c | n # _ \<Rightarrow> Inl (StraySeat n)))"

definition cert_verify ::
    "prims \<Rightarrow> int \<Rightarrow> string option \<Rightarrow> (string \<rightharpoonup> string) option \<Rightarrow> string list option \<Rightarrow> string \<Rightarrow> quorum_cert
      \<Rightarrow> cert_refusal + unit" where
  "cert_verify P quorum bh validators seats grid_id c0 =
     (if bh \<noteq> None \<and> bh \<noteq> Some (qc_block_hash c0) then Inl DifferentBlock
      else case validators of None \<Rightarrow> Inl NoRoster
      | Some vs \<Rightarrow>
        if qc_scheme c0 \<noteq> ED25519 then Inl (UnknownScheme (qc_scheme c0))
        else bindR (cert_seated P seats grid_id c0) (\<lambda>c.
          if length (qc_signers c) \<noteq> length (qc_signatures c) then Inl SignersMismatch
          else if length (qc_shadow_signers c) \<noteq> length (qc_shadow_signatures c) then Inl ShadowsMismatch
          else let msg = cert_message P c in
            bindR (foldR (vote_step P vs msg DuplicateAttestation BadAttestation) [] (zip (qc_signers c) (qc_signatures c))) (\<lambda>seen.
            if int (length seen) < quorum then Inl (BelowQuorum (length seen) quorum)
            else bindR (foldR (vote_step P vs msg AttestedTwice BadShadow) seen (zip (qc_shadow_signers c) (qc_shadow_signatures c))) (\<lambda>_.
            if cert_root P (qc_signers c) (qc_signatures c) (qc_scheme c) \<noteq> qc_root c then Inl CertRootMismatch
            else Inr ()))))"

section \<open>What a verified certificate contains\<close>

lemma vote_step_Inr:
  "vote_step P vs msg dup bad seen (n, s) = Inr seen'
    \<longleftrightarrow> (\<exists>key. vs n = Some key \<and> n \<notin> set seen \<and> verify_msg P key msg s) \<and> seen' = n # seen"
  by (auto simp: vote_step_def split: option.splits)

lemma vote_fold:
  assumes "foldR (vote_step P vs msg dup bad) seen ps = Inr seen'"
  shows "seen' = rev (map fst ps) @ seen \<and> (distinct seen \<longrightarrow> distinct seen')
    \<and> (\<forall>(n, s)\<in>set ps. \<exists>key. vs n = Some key \<and> verify_msg P key msg s)"
  using assms
proof (induction ps arbitrary: seen)
  case (Cons p ps)
  obtain n s where p: "p = (n, s)" by force
  from Cons.prems obtain key where k: "vs n = Some key" "n \<notin> set seen" "verify_msg P key msg s"
    and f: "foldR (vote_step P vs msg dup bad) (n # seen) ps = Inr seen'"
    by (auto simp: p vote_step_Inr)
  from Cons.IH [OF f] k show ?case by (force simp: p)
qed simp

lemma cert_verify_Inr:
  assumes "cert_verify P quorum bh (Some vs) seats grid_id c0 = Inr ()"
  obtains c where "cert_seated P seats grid_id c0 = Inr c" "qc_scheme c0 = ED25519"
    "distinct (qc_signers c @ qc_shadow_signers c)" "quorum \<le> int (length (qc_signers c))"
    "length (qc_signatures c) = length (qc_signers c)" "length (qc_shadow_signatures c) = length (qc_shadow_signers c)"
    "\<forall>(n, s)\<in>set (zip (qc_signers c) (qc_signatures c)). \<exists>key. vs n = Some key \<and> verify_msg P key (cert_message P c) s"
    "\<forall>(n, s)\<in>set (zip (qc_shadow_signers c) (qc_shadow_signatures c)). \<exists>key. vs n = Some key \<and> verify_msg P key (cert_message P c) s"
    "cert_root P (qc_signers c) (qc_signatures c) (qc_scheme c) = qc_root c" "bh = None \<or> bh = Some (qc_block_hash c0)"
proof -
  from assms obtain c seen seen' where c: "cert_seated P seats grid_id c0 = Inr c" "qc_scheme c0 = ED25519" "bh = None \<or> bh = Some (qc_block_hash c0)"
    and l: "length (qc_signers c) = length (qc_signatures c)" "length (qc_shadow_signers c) = length (qc_shadow_signatures c)"
    and f: "foldR (vote_step P vs (cert_message P c) DuplicateAttestation BadAttestation) [] (zip (qc_signers c) (qc_signatures c)) = Inr seen"
    and q: "quorum \<le> int (length seen)"
    and g: "foldR (vote_step P vs (cert_message P c) AttestedTwice BadShadow) seen (zip (qc_shadow_signers c) (qc_shadow_signatures c)) = Inr seen'"
    and r: "cert_root P (qc_signers c) (qc_signatures c) (qc_scheme c) = qc_root c"
    by (auto simp: cert_verify_def Let_def split: if_splits)
  note F = vote_fold [OF f] and G = vote_fold [OF g]
  have s: "seen = rev (qc_signers c)" "seen' = rev (qc_shadow_signers c) @ rev (qc_signers c)"
    using F G map_fst_zip [OF l(1)] map_fst_zip [OF l(2)] by simp_all
  have "distinct seen" using F by (metis distinct.simps(1))
  moreover from this have "distinct seen'" using G by blast
  ultimately have d: "distinct (qc_signers c @ qc_shadow_signers c)" by (auto simp: s)
  have q': "quorum \<le> int (length (qc_signers c))" using q s by simp
  show thesis
    by (rule that [OF c(1,2) d q' l(1) [symmetric] l(2) [symmetric] conjunct2 [OF conjunct2 [OF F]] conjunct2 [OF conjunct2 [OF G]] r c(3)])
qed

lemma cert_seated_message:
  assumes "cert_seated P seats grid_id c0 = Inr c"
  shows "cert_message P c = cert_message P c0" "qc_block_hash c = qc_block_hash c0"
  using assms
  by (auto simp: cert_seated_def expanded_form_def cert_message_def split: if_splits option.splits sum.splits list.splits)

text \<open>C2: Certificates under one roster agree in an honest seat. If the parameters pass the launch
  assessment and two certificates verify at the roster's quorum, then outside any set of fewer than
  a third of the validators there is one whose roster key verifies a signature on the attestation
  of the first certificate's block and one on the second's: finalising two blocks at a height
  takes a third of the seats to sign both.\<close>

theorem certificates_share_an_honest_signer:
  assumes "launchable params tiers" "0 < quorum_den params" "finite (dom vs)" "finite F" "3 * card F < card (dom vs)"
    and c1: "cert_verify P (quorum_size params (int (card (dom vs)))) bh (Some vs) seats g c1 = Inr ()"
    and c2: "cert_verify P (quorum_size params (int (card (dom vs)))) bh' (Some vs) seats' g' c2 = Inr ()"
  shows "\<exists>n key s t. n \<notin> F \<and> vs n = Some key \<and> verify_msg P key (cert_message P c1) s \<and> verify_msg P key (cert_message P c2) t"
proof -
  let ?q = "\<lambda>n. nat (quorum_size params (int n))"
  have signers: "\<exists>Q. Q \<subseteq> dom vs \<and> ?q (card (dom vs)) \<le> card Q
      \<and> (\<forall>n\<in>Q. \<exists>key s. vs n = Some key \<and> verify_msg P key (cert_message P c0) s)"
    if v: "cert_verify P (quorum_size params (int (card (dom vs)))) bh (Some vs) seats g c0 = Inr ()" for c0 bh seats g
  proof -
    obtain c where c: "cert_seated P seats g c0 = Inr c" "distinct (qc_signers c @ qc_shadow_signers c)"
      "quorum_size params (int (card (dom vs))) \<le> int (length (qc_signers c))" "length (qc_signatures c) = length (qc_signers c)"
      "\<forall>(n, s)\<in>set (zip (qc_signers c) (qc_signatures c)). \<exists>key. vs n = Some key \<and> verify_msg P key (cert_message P c) s"
      by (rule cert_verify_Inr [OF v])
    have each: "\<exists>key s. vs n = Some key \<and> verify_msg P key (cert_message P c0) s" if "n \<in> set (qc_signers c)" for n
    proof -
      from that have "n \<in> fst ` set (zip (qc_signers c) (qc_signatures c))" using c(4) by (simp flip: set_map)
      then show ?thesis using c(5) cert_seated_message(1) [OF c(1)] by fastforce
    qed
    have "card (set (qc_signers c)) = length (qc_signers c)" using c(2) by (simp add: distinct_card)
    then show ?thesis using each c(3) by (intro exI [of _ "set (qc_signers c)"]) (auto simp: nat_le_iff)
  qed
  from signers [OF c1] obtain Q where Q: "Q \<subseteq> dom vs" "?q (card (dom vs)) \<le> card Q"
    "\<forall>n\<in>Q. \<exists>key s. vs n = Some key \<and> verify_msg P key (cert_message P c1) s" by blast
  from signers [OF c2] obtain R where R: "R \<subseteq> dom vs" "?q (card (dom vs)) \<le> card R"
    "\<forall>n\<in>R. \<exists>key s. vs n = Some key \<and> verify_msg P key (cert_message P c2) s" by blast
  have "card F \<le> (card (dom vs) - 1) div 3" "0 < card (dom vs)" using assms(5) by linarith+
  from quorum_system.honest_overlap [OF launch_quorum_system [OF assms(1,2)] assms(3) Q(1) R(1) Q(2) R(2) this(2,1) assms(4)]
  obtain n where "n \<in> Q" "n \<in> R" "n \<notin> F" by blast
  then show ?thesis using Q(3) R(3) by (metis option.inject)
qed

lemma sorted_keys: "sorted (map f (sort_key f xs))" "distinct (map f xs) \<Longrightarrow> distinct (map f (sort_key f xs))"
  by (simp_all add: distinct_map)

lemma filter_sorted_subset:
  assumes "sorted order" "distinct order" "sorted xs" "distinct xs" "set xs \<subseteq> set order"
  shows "filter (\<lambda>n. n \<in> set xs) order = (xs :: 'a :: linorder list)"
  using assms by (intro sorted_distinct_set_unique) (auto simp: sorted_wrt_filter)

text \<open>The bitmap is the same certificate. A certificate built from attestations of distinct
  seats, put in compact form over a canonical seat order, expands to itself under that order; the two forms
  have one root, and \<open>verify\<close> answers alike for both.\<close>

theorem compact_certificate_is_the_same:
  assumes c: "c = cert_build P cid height bh epoch seed atts shadow"
    and d: "distinct (map at_node_id atts)" "distinct (map at_node_id shadow)"
    and digest: "seats_digest P g order \<noteq> []" and order: "order = canonical_order members"
    and compact: "compact_form P g order c = Inr c'"
  shows "expanded_form P g order c' = Inr c \<and> qc_root c' = qc_root c
    \<and> cert_verify P quorum bh' vs (Some order) g c' = cert_verify P quorum bh' vs (Some order) g c"
proof -
  let ?s = "qc_signers c" and ?h = "qc_shadow_signers c"
  have o: "sorted order" "distinct order" by (simp_all add: order canonical_order_def)
  have s: "sorted ?s" "distinct ?s" "sorted ?h" "distinct ?h"
    using d by (simp_all add: c cert_build_def Let_def sorted_keys distinct_map_filter)
  have empty: "qc_seats_digest c = []" "qc_signer_bits c = []" "qc_shadow_bits c = []" by (simp_all add: c cert_build_def Let_def)
  then have nc: "\<not> qc_compact c" by (simp add: qc_compact_def)
  from compact nc obtain sb hb where b: "to_bits ?s order = Inr sb" "to_bits ?h order = Inr hb"
    and c': "c' = c\<lparr>qc_signers := [], qc_shadow_signers := [], qc_seats_digest := seats_digest P g order, qc_signer_bits := sb, qc_shadow_bits := hb\<rparr>"
    by (auto simp: compact_form_def)
  have sub: "set ?s \<subseteq> set order" "set ?h \<subseteq> set order" using to_bits_Inr [OF o(2) b(1)] to_bits_Inr [OF o(2) b(2)] by blast+
  have f: "from_bits sb order = Inr ?s" "from_bits hb order = Inr ?h"
    using to_bits_from_bits [OF o(2)] b filter_sorted_subset [OF o] s sub by metis+
  have restore: "c'\<lparr>qc_seats_digest := [], qc_signer_bits := [], qc_shadow_bits := [], qc_signers := ?s, qc_shadow_signers := ?h\<rparr> = c"
    using empty by (simp add: c')
  have cc: "qc_compact c'" "qc_seats_digest c' = seats_digest P g order" "qc_signer_bits c' = sb" "qc_shadow_bits c' = hb"
    using digest by (simp_all add: c' qc_compact_def)
  have e: "expanded_form P g order c' = Inr c" using cc f restore by (simp add: expanded_form_def)
  have "cert_seated P (Some order) g c' = Inr c" using cc e by (simp add: cert_seated_def)
  moreover have "filter (\<lambda>n. n \<notin> set order) ?s = []" using sub by (auto simp: filter_empty_conv)
  then have "cert_seated P (Some order) g c = Inr c" using nc by (simp add: cert_seated_def)
  moreover have "qc_block_hash c' = qc_block_hash c" "qc_scheme c' = qc_scheme c" "qc_root c' = qc_root c" by (simp_all add: c')
  ultimately show ?thesis using e by (cases vs) (simp_all add: cert_verify_def cong: if_cong)
qed

section \<open>Instances\<close>

definition demo_att :: "string \<Rightarrow> string \<Rightarrow> attestation" where
  "demo_att bh n = \<lparr>at_node_id = n, at_public_hex = ''00'', at_chain_id = ''c'', at_height = 1, at_block_hash = bh,
     at_epoch = 1, at_grid_seed = ''s'', at_signature = ''00''\<rparr>"

definition demo_cert :: "string \<Rightarrow> quorum_cert" where
  "demo_cert bh = cert_build len_prims ''c'' 1 bh 1 ''s'' [demo_att bh ''a''] [demo_att bh ''p'']"

lemma demo_att_signed: "length bh < 100 \<Longrightarrow> verify_msg len_prims ''00'' (att_message len_prims ''c'' 1 bh 1 ''s'') ''00''"
  by (simp add: len_verify att_message_def h_bytes_def h_preimage_def chain_domain_def len_prefixed_def str_int_def str_nat.simps)

lemma demo_cert_fields:
  "qc_signers (demo_cert bh) = [''a'']" "qc_signatures (demo_cert bh) = [''00'']" "qc_shadow_signers (demo_cert bh) = [''p'']"
  "qc_shadow_signatures (demo_cert bh) = [''00'']" "qc_scheme (demo_cert bh) = ED25519" "\<not> qc_compact (demo_cert bh)"
  "qc_root (demo_cert bh) = cert_root len_prims [''a''] [''00''] ED25519"
  "cert_message P (demo_cert bh) = att_message P ''c'' 1 bh 1 ''s''" "qc_block_hash (demo_cert bh) = bh"
  by (simp_all add: demo_cert_def cert_build_def demo_att_def Let_def qc_compact_def cert_message_def)

definition demo_roster :: "string \<rightharpoonup> string" where
  "demo_roster = [''a'' \<mapsto> ''00'', ''p'' \<mapsto> ''00'']"

lemma demo_cert_verifies:
  "length bh < 100 \<Longrightarrow> q \<le> 1 \<Longrightarrow> cert_verify len_prims q (Some bh) (Some demo_roster) None [] (demo_cert bh) = Inr ()"
  using demo_att_signed [of bh]
  by (simp add: cert_verify_def cert_seated_def demo_cert_fields vote_step_def demo_roster_def Let_def)

theorem certificates_share_an_honest_signer_witness:
  "\<exists>n. n \<notin> {} \<and> (\<exists>s t. verify_msg len_prims ''00'' (cert_message len_prims (demo_cert ''x'')) s
    \<and> verify_msg len_prims ''00'' (cert_message len_prims (demo_cert ''y'')) t \<and> [''a'' \<mapsto> ''00''] n = Some ''00'')"
proof -
  let ?vs = "[''a'' \<mapsto> ''00''] :: string \<rightharpoonup> string"
  have q: "quorum_size LAUNCH (int (card (dom ?vs))) = 1" by (simp add: quorum_size_def LAUNCH_def DEMO_def)
  have noshadow: "cert_verify len_prims 1 None (Some ?vs) None [] ((demo_cert bh)\<lparr>qc_shadow_signers := [], qc_shadow_signatures := []\<rparr>) = Inr ()"
    if "length bh < 100" for bh
    using demo_att_signed [OF that] demo_cert_fields(6) [of bh]
    by (simp add: cert_verify_def cert_seated_def demo_cert_fields vote_step_def Let_def qc_compact_def)
      (simp add: cert_message_def demo_cert_def cert_build_def Let_def)
  have m: "cert_message len_prims ((demo_cert bh)\<lparr>qc_shadow_signers := [], qc_shadow_signatures := []\<rparr>) = cert_message len_prims (demo_cert bh)" for bh
    by (simp add: cert_message_def)
  from certificates_share_an_honest_signer [OF LAUNCH_launchable _ _ _ _
      noshadow [of "''x''", folded q] noshadow [of "''y''", folded q], of "{}"]
  show ?thesis unfolding m by (fastforce simp: LAUNCH_def DEMO_def split: if_splits)
qed

theorem compact_certificate_is_the_same_witness:
  "\<exists>c'. compact_form len_prims ''g'' [''a'', ''p''] (demo_cert ''x'') = Inr c'
    \<and> cert_verify len_prims 1 (Some ''x'') (Some demo_roster) (Some [''a'', ''p'']) ''g'' c' = Inr ()"
proof -
  have order: "[''a'', ''p''] = canonical_order [''p'', ''a'', ''a'']" by code_simp
  have dg: "seats_digest len_prims ''g'' [''a'', ''p''] \<noteq> []"
    by (simp add: seats_digest_def h_hex_def h_bytes_def h_preimage_def chain_domain_def len_prefixed_def len_prims_def
        flip: length_greater_0_conv)
  have "to_bits [''a''] [''a'', ''p''] = Inr ''01''" "to_bits [''p''] [''a'', ''p''] = Inr ''02''" by code_simp+
  then obtain c' where c': "compact_form len_prims ''g'' [''a'', ''p''] (demo_cert ''x'') = Inr c'"
    by (simp add: compact_form_def demo_cert_fields)
  have d: "distinct (map at_node_id [demo_att ''x'' ''a''])" "distinct (map at_node_id [demo_att ''x'' ''p''])" by simp_all
  from compact_certificate_is_the_same [OF demo_cert_def d dg order c', of 1 "Some ''x''" "Some demo_roster"]
  have "cert_verify len_prims 1 (Some ''x'') (Some demo_roster) (Some [''a'', ''p'']) ''g'' c'
      = cert_verify len_prims 1 (Some ''x'') (Some demo_roster) (Some [''a'', ''p'']) ''g'' (demo_cert ''x'')" by simp
  also have "\<dots> = Inr ()"
    using demo_att_signed [of "''x''"]
    by (simp add: cert_verify_def cert_seated_def demo_cert_fields vote_step_def demo_roster_def Let_def)
  finally show ?thesis using c' by blast
qed

end
