(* ===== verification/Views.thy ===== *)
theory Views
  imports Certs
begin

text \<open>
  Changing view: \<open>chain/viewchange.py\<close>.

  The statements themselves are in \<open>Signed\<close>; here are the check of a certificate of view
  changes, the block it obliges the leader to propose and the rule a proposal is held to. The
  lemmas say that \<open>required_block\<close> is the greatest lock claimed, and the two theorems what that
  protects: a lock a quorum holds is carried by every certificate whose signers tell the truth,
  and one signer that does not is enough to override it, because a claim needs no backing.
\<close>

definition sign_view_change ::
    "prims \<Rightarrow> (bytes \<Rightarrow> string) \<Rightarrow> string \<Rightarrow> string \<Rightarrow> string \<Rightarrow> int \<Rightarrow> int \<Rightarrow> int \<Rightarrow> (int \<times> string) option \<Rightarrow> exn + view_change" where
  "sign_view_change P sign cid node_id public height epoch view lock =
     (let (lv, lh) = (case lock of None \<Rightarrow> (- 1, []) | Some l \<Rightarrow> l) in
      bindR (vc_message P cid node_id height epoch view lv lh) (\<lambda>msg.
        Inr \<lparr>vc_node_id = node_id, vc_public_hex = public, vc_chain_id = cid, vc_height = height, vc_epoch = epoch,
             vc_view = view, vc_locked_view = lv, vc_locked_hash = lh, vc_signature = sign msg\<rparr>))"

definition vt_signers :: "view_cert \<Rightarrow> string list" where
  "vt_signers c = sorted_set (map vc_node_id (vt_changes c))"

datatype view_refusal =
    OtherView int
  | ElsewhereChange string
  | NotASeat string
  | AppearsTwice string
  | NotSigned string
  | TooFewChanges nat int
  | CertInViewZero
  | NoViewCert
  | LockedElsewhere string

definition check_change ::
    "prims \<Rightarrow> string \<Rightarrow> int \<Rightarrow> int \<Rightarrow> int \<Rightarrow> (string \<rightharpoonup> string) \<Rightarrow> string list \<Rightarrow> view_change \<Rightarrow> view_refusal + string list" where
  "check_change P cid height epoch view vs seen c =
     (if (vc_chain_id c, vc_height c, vc_epoch c, vc_view c) \<noteq> (cid, height, epoch, view) then Inl (ElsewhereChange (vc_node_id c))
      else if vs (vc_node_id c) \<noteq> Some (vc_public_hex c) then Inl (NotASeat (vc_node_id c))
      else if vc_node_id c \<in> set seen then Inl (AppearsTwice (vc_node_id c))
      else if \<not> vc_verify P c then Inl (NotSigned (vc_node_id c))
      else Inr (vc_node_id c # seen))"

definition view_cert_check ::
    "prims \<Rightarrow> string \<Rightarrow> int \<Rightarrow> int \<Rightarrow> int \<Rightarrow> int \<Rightarrow> (string \<rightharpoonup> string) \<Rightarrow> view_cert \<Rightarrow> view_refusal + unit" where
  "view_cert_check P cid height epoch view quorum vs cert =
     (if view \<noteq> vt_view cert then Inl (OtherView (vt_view cert))
      else bindR (foldR (check_change P cid height epoch view vs) [] (vt_changes cert)) (\<lambda>seen.
        if int (length seen) < quorum then Inl (TooFewChanges (length seen) quorum) else Inr ()))"

text \<open>Python's order on the pairs \<open>(locked_view, locked_hash)\<close>.\<close>

definition lock_less :: "int \<times> string \<Rightarrow> int \<times> string \<Rightarrow> bool" where
  "lock_less a b = (fst a < fst b \<or> fst a = fst b \<and> snd a < snd b)"

definition best_lock :: "(int \<times> string) option \<Rightarrow> view_change \<Rightarrow> (int \<times> string) option" where
  "best_lock best c =
     (if \<not> vc_locked c then best
      else let key = (vc_locked_view c, vc_locked_hash c) in
        case best of None \<Rightarrow> Some key | Some b \<Rightarrow> if lock_less b key then Some key else Some b)"

definition required_block :: "view_cert \<Rightarrow> string option" where
  "required_block cert = map_option snd (foldl best_lock None (vt_changes cert))"

definition may_propose :: "view_cert option \<Rightarrow> string \<Rightarrow> int \<Rightarrow> view_refusal + unit" where
  "may_propose cert bh view =
     (if view = 0 then (case cert of None \<Rightarrow> Inr () | Some c \<Rightarrow> if vt_changes c = [] then Inr () else Inl CertInViewZero)
      else case cert of None \<Rightarrow> Inl NoViewCert
      | Some c \<Rightarrow> (case required_block c of None \<Rightarrow> Inr () | Some r \<Rightarrow> if r \<noteq> bh then Inl (LockedElsewhere r) else Inr ()))"

section \<open>What a checked certificate is\<close>

lemma check_change_Inr:
  "check_change P cid height epoch view vs seen c = Inr seen' \<longleftrightarrow>
    seen' = vc_node_id c # seen \<and> vc_node_id c \<notin> set seen \<and> vs (vc_node_id c) = Some (vc_public_hex c) \<and> vc_verify P c
    \<and> vc_chain_id c = cid \<and> vc_height c = height \<and> vc_epoch c = epoch \<and> vc_view c = view"
  by (auto simp: check_change_def)

lemma check_changes:
  assumes "foldR (check_change P cid height epoch view vs) seen cs = Inr seen'"
  shows "seen' = rev (map vc_node_id cs) @ seen \<and> (distinct seen \<longrightarrow> distinct seen')
    \<and> (\<forall>c\<in>set cs. vs (vc_node_id c) = Some (vc_public_hex c) \<and> vc_verify P c
        \<and> vc_chain_id c = cid \<and> vc_height c = height \<and> vc_epoch c = epoch \<and> vc_view c = view)"
  using assms
proof (induction cs arbitrary: seen)
  case (Cons c cs)
  from Cons.prems have c: "vs (vc_node_id c) = Some (vc_public_hex c)" "vc_node_id c \<notin> set seen" "vc_verify P c"
    "vc_chain_id c = cid" "vc_height c = height" "vc_epoch c = epoch" "vc_view c = view"
    and f: "foldR (check_change P cid height epoch view vs) (vc_node_id c # seen) cs = Inr seen'"
    by (auto simp: check_change_Inr)
  note ih = Cons.IH [OF f]
  have "distinct seen \<longrightarrow> distinct seen'" using ih c(2) by (metis distinct.simps(2))
  moreover have "seen' = rev (map vc_node_id (c # cs)) @ seen" using ih by simp
  ultimately show ?case using ih c by (metis set_ConsD)
qed simp

lemma view_cert_check_Inr:
  assumes "view_cert_check P cid height epoch view quorum vs cert = Inr ()"
  shows "vt_view cert = view" "distinct (map vc_node_id (vt_changes cert))" "quorum \<le> int (length (vt_changes cert))"
    "\<forall>c\<in>set (vt_changes cert). vs (vc_node_id c) = Some (vc_public_hex c) \<and> vc_verify P c
      \<and> vc_chain_id c = cid \<and> vc_height c = height \<and> vc_epoch c = epoch \<and> vc_view c = view"
proof -
  from assms obtain seen where s: "view = vt_view cert"
    "foldR (check_change P cid height epoch view vs) [] (vt_changes cert) = Inr seen" "quorum \<le> int (length seen)"
    by (auto simp: view_cert_check_def split: if_splits)
  note c = check_changes [OF s(2)]
  have "distinct seen" using c by (metis distinct.simps(1))
  then show "vt_view cert = view" "distinct (map vc_node_id (vt_changes cert))" "quorum \<le> int (length (vt_changes cert))"
    using c s by simp_all
  show "\<forall>c\<in>set (vt_changes cert). vs (vc_node_id c) = Some (vc_public_hex c) \<and> vc_verify P c
      \<and> vc_chain_id c = cid \<and> vc_height c = height \<and> vc_epoch c = epoch \<and> vc_view c = view"
    using c by blast
qed

lemma lock_less_trans: "lock_less a b \<Longrightarrow> lock_less b c \<Longrightarrow> lock_less a c"
  by (auto simp: lock_less_def)

lemma lock_less_linear: "a = b \<or> lock_less a b \<or> lock_less b a"
  by (cases a; cases b) (auto simp: lock_less_def)

lemma lock_less_irrefl [simp]: "\<not> lock_less a a"
  by (simp add: lock_less_def)

text \<open>The fold keeps the greatest claim.\<close>

definition lock_le :: "int \<times> string \<Rightarrow> int \<times> string \<Rightarrow> bool" where
  "lock_le a b = (a = b \<or> lock_less a b)"

lemma lock_le_refl [simp]: "lock_le a a"
  by (simp add: lock_le_def)

lemma lock_le_trans: "lock_le a b \<Longrightarrow> lock_le b c \<Longrightarrow> lock_le a c"
  unfolding lock_le_def using lock_less_trans by blast

lemma lock_le_antisym: "lock_le a b \<Longrightarrow> lock_le b a \<Longrightarrow> a = b"
  unfolding lock_le_def using lock_less_trans lock_less_irrefl by blast

lemma best_lock_step:
  "\<exists>b. best_lock (Some a) c = Some b \<and> lock_le a b
     \<and> (b = a \<or> vc_locked c \<and> b = (vc_locked_view c, vc_locked_hash c))
     \<and> (vc_locked c \<longrightarrow> lock_le (vc_locked_view c, vc_locked_hash c) b)"
proof -
  let ?key = "(vc_locked_view c, vc_locked_hash c)"
  consider "\<not> vc_locked c" | "vc_locked c" "lock_less a ?key" | "vc_locked c" "\<not> lock_less a ?key" by blast
  then show ?thesis
  proof cases
    case 1 then show ?thesis by (intro exI [of _ a]) (simp add: best_lock_def)
  next
    case 2 then show ?thesis by (intro exI [of _ ?key]) (simp add: best_lock_def lock_le_def)
  next
    case 3
    then have "lock_le ?key a" using lock_less_linear [of a ?key] unfolding lock_le_def by blast
    then show ?thesis using 3 by (intro exI [of _ a]) (simp add: best_lock_def)
  qed
qed

lemma best_lock_None: "best_lock None c = (if vc_locked c then Some (vc_locked_view c, vc_locked_hash c) else None)"
  by (simp add: best_lock_def Let_def)

definition claimed :: "view_change list \<Rightarrow> (int \<times> string) set" where
  "claimed cs = (\<lambda>c. (vc_locked_view c, vc_locked_hash c)) ` {c \<in> set cs. vc_locked c}"

lemma claimed_Nil [simp]: "claimed [] = {}"
  by (simp add: claimed_def)

lemma claimed_Cons [simp]:
  "claimed (c # cs) = (if vc_locked c then insert (vc_locked_view c, vc_locked_hash c) (claimed cs) else claimed cs)"
  by (auto simp: claimed_def)

lemma best_lock_from:
  "\<exists>k. foldl best_lock (Some a) cs = Some k \<and> lock_le a k \<and> k \<in> insert a (claimed cs)
     \<and> (\<forall>k'\<in>claimed cs. lock_le k' k)"
proof (induction cs arbitrary: a)
  case (Cons c cs)
  obtain b where b: "best_lock (Some a) c = Some b" "lock_le a b"
    "b = a \<or> vc_locked c \<and> b = (vc_locked_view c, vc_locked_hash c)"
    "vc_locked c \<longrightarrow> lock_le (vc_locked_view c, vc_locked_hash c) b"
    using best_lock_step by blast
  obtain k where k: "foldl best_lock (Some b) cs = Some k" "lock_le b k" "k \<in> insert b (claimed cs)"
    "\<forall>k'\<in>claimed cs. lock_le k' k"
    using Cons.IH by blast
  have "\<forall>k'\<in>claimed (c # cs). lock_le k' k" using b(4) k(2,4) lock_le_trans by (metis claimed_Cons insertE)
  moreover have "k \<in> insert a (claimed (c # cs))" using b(3) k(3) by auto
  moreover have "lock_le a k" using b(2) k(2) by (rule lock_le_trans)
  ultimately show ?case using b(1) k(1) by simp
qed simp

lemma best_lock_fold:
  "(foldl best_lock None cs = None \<longleftrightarrow> claimed cs = {})
   \<and> (\<forall>k. foldl best_lock None cs = Some k \<longrightarrow> k \<in> claimed cs \<and> (\<forall>k'\<in>claimed cs. lock_le k' k))"
proof (induction cs)
  case (Cons c cs)
  show ?case
  proof (cases "vc_locked c")
    case True
    obtain k where "foldl best_lock (Some (vc_locked_view c, vc_locked_hash c)) cs = Some k"
      "lock_le (vc_locked_view c, vc_locked_hash c) k" "k \<in> insert (vc_locked_view c, vc_locked_hash c) (claimed cs)"
      "\<forall>k'\<in>claimed cs. lock_le k' k"
      using best_lock_from by blast
    then show ?thesis using True by (simp add: best_lock_None)
  next
    case False
    then show ?thesis using Cons by (simp add: best_lock_None)
  qed
qed simp

lemma required_block_greatest:
  assumes "k \<in> claimed (vt_changes cert)" "\<And>k'. k' \<in> claimed (vt_changes cert) \<Longrightarrow> lock_le k' k"
  shows "required_block cert = Some (snd k)"
proof -
  have "foldl best_lock None (vt_changes cert) \<noteq> None" using assms(1) best_lock_fold by blast
  then obtain m where m: "foldl best_lock None (vt_changes cert) = Some m" by blast
  then have "m \<in> claimed (vt_changes cert)" "lock_le k m" using assms(1) best_lock_fold by blast+
  then have "m = k" using assms(2) lock_le_antisym by blast
  then show ?thesis using m by (simp add: required_block_def)
qed

lemma claimed_snoc:
  "claimed (cs @ [c]) = (if vc_locked c then insert (vc_locked_view c, vc_locked_hash c) (claimed cs) else claimed cs)"
  by (auto simp: claimed_def)

section \<open>What a lock binds\<close>

lemma vt_signers_set [simp]: "set (vt_signers cert) = vc_node_id ` set (vt_changes cert)"
  by (simp add: vt_signers_def)


text \<open>A claimed lock needs no backing. Add to a certificate that passes \<open>check\<close> the view
  change of one more seat of the roster, claiming any block at a view above the ones claimed: the
  result still passes and requires that block, whatever the others hold, because neither \<open>check\<close>
  nor \<open>required_block\<close> asks for attestations and the claimed view is not even compared with the
  certificate's. One faulty seat so frees the next leader from a finalised block.\<close>

theorem one_seat_overrides_the_lock:
  assumes ok: "view_cert_check P cid height epoch view q vs cert = Inr ()" and pos: "0 < view"
    and seat: "vs n = Some key" "n \<notin> set (vt_signers cert)" "\<And>m. verify_msg P key (Inr m) (sign m)"
    and lock: "0 \<le> w" "h \<noteq> []" "\<And>c. c \<in> set (vt_changes cert) \<Longrightarrow> vc_locked_view c < w"
    and c: "sign_view_change P sign cid n key height epoch view (Some (w, h)) = Inr c"
  shows "view_cert_check P cid height epoch view q vs (cert\<lparr>vt_changes := vt_changes cert @ [c]\<rparr>) = Inr ()
    \<and> (may_propose (Some (cert\<lparr>vt_changes := vt_changes cert @ [c]\<rparr>)) bh view = Inr () \<longleftrightarrow> bh = h)"
proof -
  obtain m where m: "vc_message P cid n height epoch view w h = Inr m"
    and c': "c = \<lparr>vc_node_id = n, vc_public_hex = key, vc_chain_id = cid, vc_height = height, vc_epoch = epoch,
       vc_view = view, vc_locked_view = w, vc_locked_hash = h, vc_signature = sign m\<rparr>"
    using c by (auto simp: sign_view_change_def)
  have signed: "vc_verify P c" using seat(3) m by (simp add: c' vc_verify_def)
  from ok obtain seen where s: "view = vt_view cert"
    "foldR (check_change P cid height epoch view vs) [] (vt_changes cert) = Inr seen" "q \<le> int (length seen)"
    by (auto simp: view_cert_check_def split: if_splits)
  have "n \<notin> set seen" using conjunct1 [OF check_changes [OF s(2)]] seat(2) by simp
  then have "check_change P cid height epoch view vs seen c = Inr (n # seen)"
    using signed seat(1) by (simp add: check_change_Inr c')
  then have check: "view_cert_check P cid height epoch view q vs (cert\<lparr>vt_changes := vt_changes cert @ [c]\<rparr>) = Inr ()"
    using s by (simp add: view_cert_check_def foldR_snoc)
  have "vc_locked c" "(vc_locked_view c, vc_locked_hash c) = (w, h)" using lock(1,2) by (simp_all add: c' vc_locked_def)
  then have cl: "claimed (vt_changes cert @ [c]) = insert (w, h) (claimed (vt_changes cert))" by (simp add: claimed_snoc)
  have "required_block (cert\<lparr>vt_changes := vt_changes cert @ [c]\<rparr>) = Some (snd (w, h))"
  proof (rule required_block_greatest)
    show "(w, h) \<in> claimed (vt_changes (cert\<lparr>vt_changes := vt_changes cert @ [c]\<rparr>))" by (simp add: cl)
  next
    fix k assume "k \<in> claimed (vt_changes (cert\<lparr>vt_changes := vt_changes cert @ [c]\<rparr>))"
    then consider "k = (w, h)" | "k \<in> claimed (vt_changes cert)" by (auto simp: cl)
    then show "lock_le k (w, h)"
    proof cases
      case 2
      then have "fst k < w" using lock(3) by (auto simp: claimed_def)
      then show ?thesis by (simp add: lock_le_def lock_less_def)
    qed simp
  qed
  then have "required_block (cert\<lparr>vt_changes := vt_changes cert @ [c]\<rparr>) = Some h" by simp
  then have "may_propose (Some (cert\<lparr>vt_changes := vt_changes cert @ [c]\<rparr>)) bh view = Inr () \<longleftrightarrow> bh = h"
    using pos by (auto simp: may_propose_def)
  then show ?thesis using check by blast
qed

section \<open>Instances\<close>

text \<open>Four seats; three of them attested \<open>b\<close> in view 0, the fourth is free to lie.\<close>

definition demo_change :: "string \<Rightarrow> view_change" where
  "demo_change n = \<lparr>vc_node_id = n, vc_public_hex = ''00'', vc_chain_id = ''c'', vc_height = 1, vc_epoch = 1, vc_view = 1,
     vc_locked_view = 0, vc_locked_hash = ''b'', vc_signature = ''00''\<rparr>"

definition demo_seats :: "string \<rightharpoonup> string" where
  "demo_seats = [''a'' \<mapsto> ''00'', ''d'' \<mapsto> ''00'', ''e'' \<mapsto> ''00'', ''g'' \<mapsto> ''00'']"

definition demo_view_cert :: view_cert where
  "demo_view_cert = \<lparr>vt_view = 1, vt_changes = [demo_change ''a'', demo_change ''d'', demo_change ''e'']\<rparr>"

lemma vc_message_encodes: "length n < 100 \<Longrightarrow> length h < 100 \<Longrightarrow> \<exists>m. vc_message len_prims ''c'' n 1 1 1 1 h = Inr m \<and> vc_message len_prims ''c'' n 1 1 1 0 h = Inr m"
  by (simp add: vc_message_def h_bytes_def h_preimage_def chain_domain_def len_prefixed_def str_int_def str_nat.simps len_prims_def)

lemma demo_change_verifies: "length n < 100 \<Longrightarrow> vc_verify len_prims (demo_change n)"
  using vc_message_encodes [of n "''b''"] by (auto simp: vc_verify_def len_verify demo_change_def)

lemma demo_view_cert_checks: "view_cert_check len_prims ''c'' 1 1 1 3 demo_seats demo_view_cert = Inr ()"
proof -
  have step: "check_change len_prims ''c'' 1 1 1 demo_seats seen (demo_change n) = Inr (n # seen)"
    if "n \<notin> set seen" "demo_seats n = Some ''00''" "length n < 100" for n seen
    using that demo_change_verifies [OF that(3)] by (simp add: check_change_Inr) (simp add: demo_change_def)
  have seats: "demo_seats ''a'' = Some ''00''" "demo_seats ''d'' = Some ''00''" "demo_seats ''e'' = Some ''00''"
    by (simp_all add: demo_seats_def)
  have "foldR (check_change len_prims ''c'' 1 1 1 demo_seats) [] (vt_changes demo_view_cert) = Inr [''e'', ''d'', ''a'']"
    by (simp add: demo_view_cert_def step seats)
  then show ?thesis by (simp add: view_cert_check_def) (simp add: demo_view_cert_def)
qed

lemma demo_seats_dom: "dom demo_seats = {''a'', ''d'', ''e'', ''g''}" "card (dom demo_seats) = 4"
  by (auto simp: demo_seats_def)

lemma demo_view_cert_changes:
  "c \<in> set (vt_changes demo_view_cert) \<Longrightarrow> \<exists>n. c = demo_change n"
  by (auto simp: demo_view_cert_def)


theorem one_seat_overrides_the_lock_witness:
  "\<exists>c. view_cert_check len_prims ''c'' 1 1 1 3 demo_seats (demo_view_cert\<lparr>vt_changes := vt_changes demo_view_cert @ [c]\<rparr>) = Inr ()
     \<and> may_propose (Some (demo_view_cert\<lparr>vt_changes := vt_changes demo_view_cert @ [c]\<rparr>)) ''x'' 1 = Inr ()"
proof -
  obtain c where c: "sign_view_change len_prims (\<lambda>_. ''00'') ''c'' ''g'' ''00'' 1 1 1 (Some (1, ''x'')) = Inr c"
    using vc_message_encodes [of "''g''" "''x''"] by (auto simp: sign_view_change_def)
  have n: "''g'' \<notin> set (vt_signers demo_view_cert)" by (simp add: demo_view_cert_def demo_change_def)
  have l: "vc_locked_view c < 1" if "c \<in> set (vt_changes demo_view_cert)" for c
    using demo_view_cert_changes [OF that] by (auto simp: demo_change_def)
  have "demo_seats ''g'' = Some ''00''" by (simp add: demo_seats_def)
  from one_seat_overrides_the_lock [OF demo_view_cert_checks _ this n _ _ _ l c, of "''x''"]
  show ?thesis by (auto simp: len_verify)
qed

end
