(* ===== verification/Grid.thy ===== *)
theory Grid
  imports Crypto "HOL-Library.Product_Lexorder"
begin

text \<open>
  The seating of a ceremony: \<open>Grid\<close> of \<open>chain/ceremony.py\<close>.

  \<open>mk_grid\<close> is the constructor, \<open>grid_seat\<close> the class method that seats a list of nodes by a seed,
  the rest the topology. \<open>gr_seats\<close> is the dictionary in insertion order. The set a node's
  neighbours are kept in is iterated in sorted order, Python leaves that order open; the distances
  \<open>bfs\<close> finds do not depend on it. The lemmas give the shape of a seated grid: who sits where,
  that every front is an earlier seat, that the search ends and that the graph is connected.
\<close>

section \<open>Seats\<close>

record grid =
  gr_leader :: string
  gr_rows :: "string list list"
  gr_row_size :: int
  gr_seed :: string
  gr_seats :: "(string \<times> (nat \<times> nat)) list"

definition row_seats :: "nat \<times> string list \<Rightarrow> (string \<times> (nat \<times> nat)) list" where
  "row_seats = (\<lambda>(r, row). map (\<lambda>(c, n). (n, (r, c))) (enumerate 0 row))"

definition put_seat :: "(string \<times> (nat \<times> nat)) list \<Rightarrow> string \<times> (nat \<times> nat) \<Rightarrow> (string \<times> (nat \<times> nat)) list" where
  "put_seat d = (\<lambda>(n, s). AList.update n s d)"

definition mk_grid :: "string \<Rightarrow> string list list \<Rightarrow> int \<Rightarrow> string \<Rightarrow> grid" where
  "mk_grid leader rows row_size seed = \<lparr>gr_leader = leader, gr_rows = rows, gr_row_size = row_size, gr_seed = seed,
     gr_seats = foldl put_seat [(leader, (0, 0))] (concat (map row_seats (enumerate 1 rows)))\<rparr>"

text \<open>\<open>range(0, n, step)\<close> raises for step 0 and is empty for a negative one.\<close>

definition chunk_rows :: "int \<Rightarrow> 'a list \<Rightarrow> exn + 'a list list" where
  "chunk_rows row_size rest =
     (if row_size = 0 then Inl ValueError
      else if row_size < 0 then Inr []
      else let k = nat row_size in Inr (map (\<lambda>i. take k (drop (i * k) rest)) [0 ..< ceil_div (length rest) k]))"

definition seat_key :: "prims \<Rightarrow> string \<Rightarrow> string \<Rightarrow> string" where
  "seat_key P seed nid = h_hex P ''seat'' [PStr seed, PStr nid]"

definition ATTESTER :: string where "ATTESTER = ''attester''"

definition seat_order ::
    "prims \<Rightarrow> string list \<Rightarrow> string \<Rightarrow> string list \<Rightarrow> (string \<rightharpoonup> string) option \<Rightarrow> string \<Rightarrow> exn + (string \<times> string list)" where
  "seat_order P ids seed exclude standing counting =
     (let order = sort_key (seat_key P seed) ids in
      case standing of
        Some st \<Rightarrow>
          let front = filter (\<lambda>n. st n = Some counting) order;
              back = filter (\<lambda>n. st n \<noteq> Some counting) order
          in (case filter (\<lambda>n. n \<notin> set exclude) front of [] \<Rightarrow> Inl ValueError
              | leader # _ \<Rightarrow> Inr (leader, filter (\<lambda>n. n \<noteq> leader) front @ back))
      | None \<Rightarrow>
          (case filter (\<lambda>n. n \<notin> set exclude) order of [] \<Rightarrow> Inl ValueError
           | leader # _ \<Rightarrow> Inr (leader, filter (\<lambda>n. n \<noteq> leader) order)))"

definition grid_seat ::
    "prims \<Rightarrow> string list \<Rightarrow> int \<Rightarrow> string \<Rightarrow> string list \<Rightarrow> (string \<rightharpoonup> string) option \<Rightarrow> string \<Rightarrow> exn + grid" where
  "grid_seat P ids row_size seed exclude standing counting =
     (if length ids < 2 then Inl ValueError
      else bindR (seat_order P ids seed exclude standing counting) (\<lambda>(leader, rest).
           bindR (chunk_rows row_size rest) (\<lambda>rows. Inr (mk_grid leader rows row_size seed))))"

section \<open>Topology\<close>

definition item :: "'a list \<Rightarrow> nat \<Rightarrow> exn + 'a" where
  "item xs i = (if i < length xs then Inr (xs ! i) else Inl IndexError)"

definition grid_front :: "grid \<Rightarrow> string \<Rightarrow> exn + string option" where
  "grid_front g nid = (case map_of (gr_seats g) nid of None \<Rightarrow> Inl KeyError
     | Some (r, c) \<Rightarrow>
         if r = 0 then Inr None
         else if r = 1 then Inr (Some (gr_leader g))
         else bindR (item (gr_rows g) (r - 2)) (\<lambda>row. bindR (item row c) (\<lambda>p. Inr (Some p))))"

definition grid_right :: "grid \<Rightarrow> string \<Rightarrow> exn + string option" where
  "grid_right g nid = (case map_of (gr_seats g) nid of None \<Rightarrow> Inl KeyError
     | Some (r, c) \<Rightarrow>
         if r = 0 then Inr None
         else bindR (item (gr_rows g) (r - 1)) (\<lambda>row.
           if length row < 2 then Inr None else bindR (item row ((c + 1) mod length row)) (\<lambda>p. Inr (Some p))))"

definition grid_neighbours :: "grid \<Rightarrow> string \<Rightarrow> exn + string list" where
  "grid_neighbours g nid = bindR (grid_front g nid) (\<lambda>f. bindR (grid_right g nid) (\<lambda>r.
     Inr (filter (\<lambda>p. p \<noteq> nid) (List.map_filter id [f, r]))))"

definition edge_of :: "string \<Rightarrow> string \<Rightarrow> string \<times> string" where
  "edge_of a b = (min a b, max a b)"

definition grid_edges :: "grid \<Rightarrow> exn + (string \<times> string) list" where
  "grid_edges g = bindR (mapR (\<lambda>nid. bindR (grid_neighbours g nid) (\<lambda>ps. Inr (map (edge_of nid) ps))) (keys (gr_seats g)))
     (\<lambda>ess. Inr (sorted_set (concat ess)))"

definition adjacent :: "(string \<times> string) list \<Rightarrow> string \<Rightarrow> string list" where
  "adjacent es n = sorted_set (map snd (filter (\<lambda>e. fst e = n) es) @ map fst (filter (\<lambda>e. snd e = n) es))"

definition grid_adjacency :: "grid \<Rightarrow> exn + (string \<times> string list) list" where
  "grid_adjacency g = bindR (grid_edges g) (\<lambda>es. Inr (map (\<lambda>n. (n, adjacent es n)) (keys (gr_seats g))))"

text \<open>The inner loop of the breadth-first search.\<close>

fun visit :: "nat \<Rightarrow> (string \<times> nat) list \<Rightarrow> string list \<Rightarrow> string list \<Rightarrow> (string \<times> nat) list \<times> string list" where
  "visit d seen q [] = (seen, q)"
| "visit d seen q (n # ns) = (if n \<in> set (keys seen) then visit d seen q ns else visit d (seen @ [(n, d)]) (q @ [n]) ns)"

definition nodes_of :: "(string \<times> string list) list \<Rightarrow> string set" where
  "nodes_of adj = set (keys adj) \<union> \<Union> (set ` snd ` set adj)"

lemma finite_nodes_of [simp]: "finite (nodes_of adj)"
  by (simp add: nodes_of_def)

lemma visit_measure:
  assumes "set ns \<subseteq> U" "finite U"
  shows "2 * card (U - set (keys (fst (visit d seen q ns)))) + length (snd (visit d seen q ns)) \<le> 2 * card (U - set (keys seen)) + length q"
  using assms(1)
proof (induction d seen q ns rule: visit.induct)
  case (2 d seen q n ns)
  show ?case
  proof (cases "n \<in> set (keys seen)")
    case True
    then show ?thesis using 2 by simp
  next
    case False
    have "U - set (keys (seen @ [(n, d)])) = (U - set (keys seen)) - {n}" by (auto simp: keys_def)
    moreover have "n \<in> U - set (keys seen)" using False 2(3) by simp
    ultimately have "Suc (card (U - set (keys (seen @ [(n, d)])))) = card (U - set (keys seen))"
      using assms(2) by (metis card_Suc_Diff1 finite_Diff)
    then show ?thesis using 2(2) [OF False] 2(3) False by simp
  qed
qed simp

function bfs :: "(string \<times> string list) list \<Rightarrow> (string \<times> nat) list \<Rightarrow> string list \<Rightarrow> exn + (string \<times> nat) list" where
  "bfs adj seen [] = Inr seen"
| "bfs adj seen (cur # q) =
     (case map_of adj cur of None \<Rightarrow> Inl KeyError
      | Some ns \<Rightarrow> let (seen', q') = visit (the (map_of seen cur) + 1) seen q ns in bfs adj seen' q')"
  by pat_completeness auto

termination
proof (relation "measure (\<lambda>(adj, seen, q). 2 * card (nodes_of adj - set (keys seen)) + length q)", goal_cases)
  case (2 adj seen cur q ns p seen' q')
  then have "set ns \<subseteq> nodes_of adj" by (force simp: nodes_of_def dest: map_of_SomeD)
  from visit_measure [OF this finite_nodes_of, of "the (map_of seen cur) + 1" seen q]
  have "2 * card (nodes_of adj - set (keys (fst p))) + length (snd p) \<le> 2 * card (nodes_of adj - set (keys seen)) + length q"
    using 2 by simp
  moreover have "p = (seen', q')" using 2 by simp
  ultimately show ?case by simp
qed simp

fun diameter_from :: "(string \<times> string list) list \<Rightarrow> string list \<Rightarrow> nat \<Rightarrow> exn + int" where
  "diameter_from adj [] best = Inr (int best)"
| "diameter_from adj (src # srcs) best = bindR (bfs adj [(src, 0)] [src]) (\<lambda>seen.
     if length seen \<noteq> length adj then Inr (- 1)
     else diameter_from adj srcs (max best (Max (snd ` set seen))))"

definition grid_diameter :: "grid \<Rightarrow> exn + int" where
  "grid_diameter g = bindR (grid_adjacency g) (\<lambda>adj. diameter_from adj (keys adj) 0)"

definition n_rows :: "grid \<Rightarrow> nat" where
  "n_rows g = length (gr_rows g)"

definition grid_len :: "grid \<Rightarrow> nat" where
  "grid_len g = length (gr_seats g)"

section \<open>The shape of a seated grid\<close>

lemma foldl_put_seat:
  "distinct (keys d @ map fst xs) \<Longrightarrow> foldl put_seat d xs = d @ xs"
proof (induction xs arbitrary: d)
  case (Cons x xs)
  obtain n s where x: "x = (n, s)" by (cases x)
  have "put_seat d x = d @ [x]" using Cons.prems x by (simp add: put_seat_def update_fresh)
  moreover have "distinct (keys (d @ [x]) @ map fst xs)" using Cons.prems x by (auto simp: keys_def)
  ultimately show ?case using Cons.IH by simp
qed simp

definition seat_at :: "nat \<Rightarrow> nat \<Rightarrow> nat \<times> nat" where
  "seat_at k j = (j div k + 1, j mod k)"

lemma chunk_seats:
  assumes "0 < k"
  shows "concat (map row_seats (enumerate 1 (map (\<lambda>i. take k (drop (i * k) rest)) [0 ..< m])))
    = map (\<lambda>j. (rest ! j, seat_at k j)) [0 ..< min (m * k) (length rest)]"
proof (induction m)
  case (Suc m)
  have row: "row_seats (Suc m, take k (drop (m * k) rest)) = map (\<lambda>j. (rest ! j, seat_at k j)) [m * k ..< min (Suc m * k) (length rest)]"
    if "m * k \<le> length rest"
  proof (rule nth_equalityI, goal_cases)
    case 1
    show ?case using that by (auto simp: row_seats_def)
  next
    case (2 i)
    then have i: "i < k" "m * k + i < length rest" by (auto simp: row_seats_def)
    then have "seat_at k (m * k + i) = (Suc m, i)" by (simp add: seat_at_def)
    moreover have "[m * k ..< min (Suc m * k) (length rest)] ! i = m * k + i" using i by (intro nth_upt) auto
    moreover have "i < length [m * k ..< min (Suc m * k) (length rest)]" using i by auto
    ultimately show ?case using i 2 by (simp add: row_seats_def nth_enumerate_eq del: nth_upt)
  qed
  have "concat (map row_seats (enumerate 1 (map (\<lambda>i. take k (drop (i * k) rest)) [0 ..< Suc m])))
      = map (\<lambda>j. (rest ! j, seat_at k j)) [0 ..< min (m * k) (length rest)] @ row_seats (Suc m, take k (drop (m * k) rest))"
    using Suc by (simp add: enumerate_append_eq)
  also have "\<dots> = map (\<lambda>j. (rest ! j, seat_at k j)) [0 ..< min (Suc m * k) (length rest)]"
  proof (cases "m * k \<le> length rest")
    case True
    then have "[0 ..< min (Suc m * k) (length rest)] = [0 ..< min (m * k) (length rest)] @ [m * k ..< min (Suc m * k) (length rest)]"
      using upt_add_eq_append [of 0 "m * k" "min (Suc m * k) (length rest) - m * k"] by simp
    then show ?thesis using row [OF True] by simp
  next
    case False
    then show ?thesis by (simp add: row_seats_def)
  qed
  finally show ?case .
qed simp

text \<open>A seated grid: a leader, the rest in reading order in rows of \<open>k\<close>.\<close>

definition seated_as :: "nat \<Rightarrow> string list \<Rightarrow> grid \<Rightarrow> bool" where
  "seated_as k rest g =
     (0 < k \<and> distinct (gr_leader g # rest)
      \<and> gr_rows g = map (\<lambda>i. take k (drop (i * k) rest)) [0 ..< ceil_div (length rest) k]
      \<and> gr_seats g = (gr_leader g, (0, 0)) # map (\<lambda>j. (rest ! j, seat_at k j)) [0 ..< length rest])"

lemma ceil_div_covers: "0 < k \<Longrightarrow> n \<le> ceil_div n k * k" "0 < k \<Longrightarrow> j < n \<Longrightarrow> j div k < ceil_div n k"
proof -
  show *: "n \<le> ceil_div n k * k" if "0 < k" for n
  proof -
    have "n \<le> (n + k - 1) div k * k" using that div_mult_mod_eq [of "n + k - 1" k] mod_less_divisor [of k "n + k - 1"] by linarith
    then show ?thesis by (simp add: ceil_div_def)
  qed
  show "j div k < ceil_div n k" if "0 < k" "j < n"
    using that * [OF that(1), of n] by (metis less_le_trans less_mult_imp_div_less)
qed

lemma mk_grid_seated:
  assumes "0 < row_size" "distinct (leader # rest)" "chunk_rows row_size rest = Inr rows"
  shows "seated_as (nat row_size) rest (mk_grid leader rows row_size seed)"
proof -
  let ?k = "nat row_size" and ?n = "length rest"
  have k: "0 < ?k" using assms(1) by simp
  have rows: "rows = map (\<lambda>i. take ?k (drop (i * ?k) rest)) [0 ..< ceil_div ?n ?k]"
    using assms(1,3) by (simp add: chunk_rows_def Let_def)
  have "min (ceil_div ?n ?k * ?k) ?n = ?n" using ceil_div_covers(1) [OF k, of ?n] by simp
  then have cs: "concat (map row_seats (enumerate 1 rows)) = map (\<lambda>j. (rest ! j, seat_at ?k j)) [0 ..< ?n]"
    unfolding rows chunk_seats [OF k] by simp
  have "map fst (map (\<lambda>j. (rest ! j, seat_at ?k j)) [0 ..< ?n]) = rest" by (simp add: comp_def map_nth)
  then have "foldl put_seat [(leader, (0, 0))] (map (\<lambda>j. (rest ! j, seat_at ?k j)) [0 ..< ?n])
      = (leader, (0, 0)) # map (\<lambda>j. (rest ! j, seat_at ?k j)) [0 ..< ?n]"
    using assms(2) by (subst foldl_put_seat) simp_all
  then show ?thesis using k assms(2) unfolding seated_as_def mk_grid_def cs by (simp add: rows)
qed

lemma seated_keys:
  assumes "seated_as k rest g"
  shows "keys (gr_seats g) = gr_leader g # rest"
proof -
  have "map fst (map (\<lambda>j. (rest ! j, seat_at k j)) [0 ..< length rest]) = rest" by (simp add: comp_def map_nth)
  then show ?thesis using assms by (simp add: seated_as_def keys_def)
qed

lemma seated_map_of:
  assumes "seated_as k rest g"
  shows "map_of (gr_seats g) (gr_leader g) = Some (0, 0)"
    and "j < length rest \<Longrightarrow> map_of (gr_seats g) (rest ! j) = Some (seat_at k j)"
proof -
  show "map_of (gr_seats g) (gr_leader g) = Some (0, 0)" using assms by (simp add: seated_as_def)
  assume j: "j < length rest"
  have "distinct (map fst (gr_seats g))" using assms seated_keys [OF assms] by (simp add: seated_as_def keys_def)
  moreover have "(rest ! j, seat_at k j) \<in> set (gr_seats g)" using assms j by (auto simp: seated_as_def)
  ultimately show "map_of (gr_seats g) (rest ! j) = Some (seat_at k j)" by simp
qed

text \<open>The row of seat \<open>j\<close> and the seats in it.\<close>

lemma seated_row:
  assumes "seated_as k rest g" "i * k \<le> j" "j < i * k + k" "j < length rest"
  shows "item (gr_rows g) i = Inr (take k (drop (i * k) rest))"
    and "item (take k (drop (i * k) rest)) (j - i * k) = Inr (rest ! j)"
proof -
  have k: "0 < k" using assms(1) by (simp add: seated_as_def)
  have "j div k = i" by (rule div_nat_eqI) (use assms(2,3) in \<open>simp_all add: mult.commute\<close>)
  then have "i < ceil_div (length rest) k" using ceil_div_covers(2) [OF k assms(4)] by simp
  then show "item (gr_rows g) i = Inr (take k (drop (i * k) rest))" using assms(1) by (simp add: item_def seated_as_def)
  show "item (take k (drop (i * k) rest)) (j - i * k) = Inr (rest ! j)" using assms(2-4) by (auto simp: item_def)
qed

lemma seat_at_bounds:
  fixes j k :: nat
  shows "0 < k \<Longrightarrow> (j div k) * k \<le> j" "0 < k \<Longrightarrow> j < (j div k) * k + k" "j - (j div k) * k = j mod k"
  using div_mult_mod_eq [of j k] mod_less_divisor [of k j] by linarith+

text \<open>The seat in front is \<open>k\<close> places earlier in the order.\<close>

lemma front_of:
  assumes g: "seated_as k rest g" and j: "j < length rest"
  shows "grid_front g (rest ! j) = Inr (Some (if j < k then gr_leader g else rest ! (j - k)))"
proof -
  have k: "0 < k" using g by (simp add: seated_as_def)
  note m = seated_map_of(2) [OF g j]
  show ?thesis
  proof (cases "j < k")
    case True
    then show ?thesis using m by (simp add: grid_front_def seat_at_def)
  next
    case False
    then have d: "j div k = (j - k) div k + 1" "j mod k = (j - k) mod k"
      using k by (simp_all add: le_div_geq le_mod_geq)
    have "j - k < length rest" using j by simp
    note r = seated_row [OF g seat_at_bounds(1,2) [OF k] this]
    show ?thesis using m False r(1) r(2) d by (simp add: grid_front_def seat_at_def seat_at_bounds(3))
  qed
qed

lemma front_leader: "seated_as k rest g \<Longrightarrow> grid_front g (gr_leader g) = Inr None"
  by (simp add: grid_front_def seated_map_of(1))

lemma right_leader: "seated_as k rest g \<Longrightarrow> grid_right g (gr_leader g) = Inr None"
  by (simp add: grid_right_def seated_map_of(1))

lemma right_of:
  assumes g: "seated_as k rest g" and j: "j < length rest"
  shows "\<exists>p. grid_right g (rest ! j) = Inr p \<and> (\<forall>x. p = Some x \<longrightarrow> x \<in> set rest)"
proof -
  have k: "0 < k" using g by (simp add: seated_as_def)
  let ?i = "j div k" and ?row = "take k (drop (j div k * k) rest)"
  note m = seated_map_of(2) [OF g j]
  note r = seated_row(1) [OF g seat_at_bounds(1,2) [OF k] j]
  show ?thesis
  proof (cases "length ?row < 2")
    case True
    then show ?thesis using m r by (simp add: grid_right_def seat_at_def)
  next
    case False
    then have "(j mod k + 1) mod length ?row < length ?row" by (intro mod_less_divisor) linarith
    then have "item ?row ((j mod k + 1) mod length ?row) = Inr (?row ! ((j mod k + 1) mod length ?row))"
      "?row ! ((j mod k + 1) mod length ?row) \<in> set ?row"
      by (simp only: item_def if_True, rule nth_mem)
    moreover have "set ?row \<subseteq> set rest" by (meson order_trans set_drop_subset set_take_subset)
    ultimately show ?thesis using m r False by (auto simp: grid_right_def seat_at_def)
  qed
qed

lemma seated_cases:
  assumes "seated_as k rest g" "n \<in> set (keys (gr_seats g))"
  obtains "n = gr_leader g" | j where "j < length rest" "n = rest ! j"
  using assms seated_keys [OF assms(1)] by (auto simp: in_set_conv_nth)

lemma neighbours_of:
  assumes g: "seated_as k rest g" and n: "n \<in> set (keys (gr_seats g))"
  shows "\<exists>ps. grid_neighbours g n = Inr ps \<and> set ps \<subseteq> set (keys (gr_seats g))
    \<and> (\<forall>p. grid_front g n = Inr (Some p) \<longrightarrow> p \<noteq> n \<longrightarrow> p \<in> set ps)"
  using g n
proof (cases rule: seated_cases)
  case 1
  then show ?thesis using front_leader [OF g] right_leader [OF g] by (simp add: grid_neighbours_def)
next
  case (2 j)
  obtain p where p: "grid_right g (rest ! j) = Inr p" "\<forall>x. p = Some x \<longrightarrow> x \<in> set rest" using right_of [OF g 2(1)] by blast
  let ?f = "if j < k then gr_leader g else rest ! (j - k)"
  have "?f \<in> set (keys (gr_seats g))" using 2 seated_keys [OF g] by auto
  then show ?thesis
    using front_of [OF g 2(1)] p 2 seated_keys [OF g]
    by (cases p) (auto simp: grid_neighbours_def map_filter_simps simp del: if_image_distrib)
qed

section \<open>The search\<close>

inductive walk :: "(string \<times> string list) list \<Rightarrow> nat \<Rightarrow> string \<Rightarrow> string \<Rightarrow> bool" for adj where
  walk_refl: "walk adj 0 a a"
| walk_step: "walk adj d a b \<Longrightarrow> map_of adj b = Some ns \<Longrightarrow> c \<in> set ns \<Longrightarrow> walk adj (Suc d) a c"

definition closed_graph :: "(string \<times> string list) list \<Rightarrow> bool" where
  "closed_graph adj = (\<forall>n ns. map_of adj n = Some ns \<longrightarrow> set ns \<subseteq> set (keys adj))"

lemma visit_spec:
  assumes "visit d seen q ns = (seen', q')"
  shows "set (keys seen') = set (keys seen) \<union> set ns \<and> set q' = set q \<union> (set ns - set (keys seen))
    \<and> (distinct (keys seen) \<longrightarrow> distinct (keys seen')) \<and> (\<exists>new. seen' = seen @ new \<and> (\<forall>(n, e)\<in>set new. e = d \<and> n \<in> set ns))"
  using assms
proof (induction d seen q ns rule: visit.induct)
  case (2 d seen q n ns)
  show ?case
  proof (cases "n \<in> set (keys seen)")
    case True
    then show ?thesis using 2(1) [OF True] 2(3) by auto
  next
    case False
    have "visit d (seen @ [(n, d)]) (q @ [n]) ns = (seen', q')" using 2(3) False by simp
    note ih = 2(2) [OF False this]
    obtain new where new: "seen' = (seen @ [(n, d)]) @ new" "\<forall>(m, e)\<in>set new. e = d \<and> m \<in> set ns"
      using ih by blast
    then have "seen' = seen @ ((n, d) # new) \<and> (\<forall>(m, e)\<in>set ((n, d) # new). e = d \<and> m \<in> set (n # ns))" by auto
    moreover have "set (keys seen') = set (keys seen) \<union> set (n # ns)" "set q' = set q \<union> (set (n # ns) - set (keys seen))"
      "distinct (keys seen) \<longrightarrow> distinct (keys seen')"
      using ih False by auto
    ultimately show ?thesis by blast
  qed
qed simp

text \<open>What the search keeps: every distance it noted is that of a walk, every node off the queue
  has its neighbours noted.\<close>

definition bfs_inv :: "(string \<times> string list) list \<Rightarrow> string \<Rightarrow> (string \<times> nat) list \<Rightarrow> string list \<Rightarrow> bool" where
  "bfs_inv adj src seen q =
     (distinct (keys seen) \<and> src \<in> set (keys seen) \<and> set q \<subseteq> set (keys seen) \<and> set (keys seen) \<subseteq> set (keys adj)
      \<and> (\<forall>(n, d)\<in>set seen. walk adj d src n)
      \<and> (\<forall>n\<in>set (keys seen) - set q. \<forall>ns. map_of adj n = Some ns \<longrightarrow> set ns \<subseteq> set (keys seen)))"

lemma bfs_inv_step:
  assumes "bfs_inv adj src seen (cur # q)" "closed_graph adj" "map_of adj cur = Some ns"
    and v: "visit (the (map_of seen cur) + 1) seen q ns = (seen', q')"
  shows "bfs_inv adj src seen' q'"
proof -
  note vs = visit_spec [OF v]
  obtain new where new: "seen' = seen @ new" "\<forall>(n, e)\<in>set new. e = the (map_of seen cur) + 1 \<and> n \<in> set ns" using vs by blast
  have keys': "set (keys seen') = set (keys seen) \<union> set ns" and q': "set q' = set q \<union> (set ns - set (keys seen))" using vs by auto
  have ns: "set ns \<subseteq> set (keys adj)" using assms(2,3) by (auto simp: closed_graph_def)
  have inv: "distinct (keys seen)" "src \<in> set (keys seen)" "cur \<in> set (keys seen)" "set q \<subseteq> set (keys seen)"
    "set (keys seen) \<subseteq> set (keys adj)" "\<forall>(n, d)\<in>set seen. walk adj d src n"
    "\<forall>n\<in>set (keys seen) - set (cur # q). \<forall>ns. map_of adj n = Some ns \<longrightarrow> set ns \<subseteq> set (keys seen)"
    using assms(1) by (auto simp: bfs_inv_def)
  obtain d where d: "map_of seen cur = Some d" using inv(3) by (auto simp: set_keys)
  then have "walk adj d src cur" using inv(6) by (auto dest: map_of_SomeD)
  then have "\<forall>(n, e)\<in>set new. walk adj e src n" using new(2) d assms(3) by (auto intro: walk_step)
  then have "\<forall>(n, d)\<in>set seen'. walk adj d src n" using inv(6) new(1) by auto
  moreover have "\<forall>n\<in>set (keys seen') - set q'. \<forall>ms. map_of adj n = Some ms \<longrightarrow> set ms \<subseteq> set (keys seen')"
  proof (intro ballI allI impI)
    fix n ms assume n: "n \<in> set (keys seen') - set q'" and ms: "map_of adj n = Some ms"
    show "set ms \<subseteq> set (keys seen')"
    proof (cases "n = cur")
      case True
      then show ?thesis using ms assms(3) keys' by simp
    next
      case False
      then have "n \<in> set (keys seen) - set (cur # q)" using n keys' q' by auto
      then show ?thesis using inv(7) ms keys' by blast
    qed
  qed
  moreover have "distinct (keys seen')" using vs inv(1) by blast
  moreover have "src \<in> set (keys seen')" "set q' \<subseteq> set (keys seen')" "set (keys seen') \<subseteq> set (keys adj)"
    using inv(2,4,5) ns keys' q' by auto
  ultimately show ?thesis by (simp add: bfs_inv_def)
qed

lemma bfs_runs:
  assumes "bfs_inv adj src seen q" "closed_graph adj"
  shows "\<exists>seen'. bfs adj seen q = Inr seen' \<and> bfs_inv adj src seen' []"
  using assms
proof (induction adj seen q rule: bfs.induct)
  case (2 adj seen cur q)
  then have "cur \<in> set (keys adj)" by (auto simp: bfs_inv_def)
  then obtain ns where ns: "map_of adj cur = Some ns" by (auto simp: set_keys)
  obtain seen' q' where v: "visit (the (map_of seen cur) + 1) seen q ns = (seen', q')" by fastforce
  have inv: "bfs_inv adj src seen' q'" by (rule bfs_inv_step [OF 2(2,3) ns v])
  have "bfs adj seen (cur # q) = bfs adj seen' q'" using ns v by simp
  moreover have "\<exists>s. bfs adj seen' q' = Inr s \<and> bfs_inv adj src s []" using 2(1) [OF ns v [symmetric] refl inv 2(3)] .
  ultimately show ?case by simp
qed simp

lemma bfs_reaches:
  assumes "src \<in> set (keys adj)" "closed_graph adj"
  obtains seen where "bfs adj [(src, 0)] [src] = Inr seen" "distinct (keys seen)" "set (keys seen) \<subseteq> set (keys adj)"
    "\<And>n d. (n, d) \<in> set seen \<Longrightarrow> walk adj d src n" "\<And>n d. walk adj d src n \<Longrightarrow> n \<in> set (keys seen)"
proof -
  have "bfs_inv adj src [(src, 0)] [src]" using assms(1) by (auto simp: bfs_inv_def intro: walk_refl)
  from bfs_runs [OF this assms(2)] obtain seen where s: "bfs adj [(src, 0)] [src] = Inr seen" "bfs_inv adj src seen []" by blast
  have src: "src \<in> set (keys seen)" and cl: "\<And>n ns. n \<in> set (keys seen) \<Longrightarrow> map_of adj n = Some ns \<Longrightarrow> set ns \<subseteq> set (keys seen)"
    using s(2) by (auto simp: bfs_inv_def)
  have "n \<in> set (keys seen)" if "walk adj d a n" "a = src" for a n d
    using that by induction (use src cl in blast)+
  then show thesis by (intro that [OF s(1)]) (use s(2) in \<open>auto simp: bfs_inv_def\<close>)
qed

lemma diameter_from_walks:
  assumes "closed_graph adj" "distinct (keys adj)" "set srcs \<subseteq> set (keys adj)" "diameter_from adj srcs best = Inr (int d)"
  shows "best \<le> d \<and> (\<forall>a\<in>set srcs. \<forall>b\<in>set (keys adj). \<exists>e\<le>d. walk adj e a b)"
  using assms(3,4)
proof (induction srcs arbitrary: best)
  case (Cons a srcs)
  obtain seen where s: "bfs adj [(a, 0)] [a] = Inr seen" "distinct (keys seen)" "set (keys seen) \<subseteq> set (keys adj)"
    "\<And>n d. (n, d) \<in> set seen \<Longrightarrow> walk adj d a n" "\<And>n d. walk adj d a n \<Longrightarrow> n \<in> set (keys seen)"
    by (rule bfs_reaches [of a adj]) (use Cons.prems(1) assms(1) in auto)
  have rest: "diameter_from adj srcs (max best (Max (snd ` set seen))) = Inr (int d)" and len: "length seen = length adj"
    using Cons.prems(2) s(1) by (auto split: if_splits)
  note ih = Cons.IH [OF _ rest]
  have "card (set (keys seen)) = card (set (keys adj))" using len s(2) assms(2) by (metis distinct_card keys_def length_map)
  then have eq: "set (keys seen) = set (keys adj)" using s(3) by (simp add: card_subset_eq)
  have le: "best \<le> d" "Max (snd ` set seen) \<le> d" using ih Cons.prems(1) by auto
  have "\<exists>e\<le>d. walk adj e a b" if "b \<in> set (keys adj)" for b
  proof -
    from that eq obtain e where e: "(b, e) \<in> set seen" by (force simp: keys_def)
    then have "e \<le> Max (snd ` set seen)" by (intro Max_ge) (auto intro: image_eqI [of _ snd "(b, e)"])
    then show ?thesis using s(4) [OF e] le(2) le_trans by blast
  qed
  then show ?case using le ih Cons.prems(1) by auto
qed simp

lemma diameter_from_total:
  assumes "closed_graph adj" "distinct (keys adj)" "set srcs \<subseteq> set (keys adj)"
    and "\<And>a b. a \<in> set (keys adj) \<Longrightarrow> b \<in> set (keys adj) \<Longrightarrow> \<exists>e. walk adj e a b"
  shows "\<exists>d. diameter_from adj srcs best = Inr (int d)"
  using assms(3)
proof (induction srcs arbitrary: best)
  case (Cons a srcs)
  obtain seen where s: "bfs adj [(a, 0)] [a] = Inr seen" "distinct (keys seen)" "set (keys seen) \<subseteq> set (keys adj)"
    "\<And>n d. walk adj d a n \<Longrightarrow> n \<in> set (keys seen)"
    by (rule bfs_reaches [of a adj]) (use Cons.prems assms(1) in auto)
  have "b \<in> set (keys seen)" if "b \<in> set (keys adj)" for b
    using assms(4) [of a b] that s(4) Cons.prems by auto
  then have "set (keys seen) = set (keys adj)" using s(3) by blast
  then have "length seen = length adj" using s(2) assms(2) by (metis distinct_card keys_def length_map)
  then show ?case using s(1) Cons by simp
qed simp

section \<open>A seated grid is connected\<close>

lemma edge_of_iff: "edge_of a b = (x, y) \<Longrightarrow> (a = x \<and> b = y) \<or> (a = y \<and> b = x)"
  by (auto simp: edge_of_def min_def max_def split: if_splits)

lemma edges_adjacent:
  assumes "grid_edges g = Inr es" "grid_neighbours g n = Inr ps" "p \<in> set ps" "n \<in> set (keys (gr_seats g))"
  shows "p \<in> set (adjacent es n)" "n \<in> set (adjacent es p)"
proof -
  obtain ess where ess: "mapR (\<lambda>nid. bindR (grid_neighbours g nid) (\<lambda>ps. Inr (map (edge_of nid) ps))) (keys (gr_seats g)) = Inr ess"
    "es = sorted_set (concat ess)"
    using assms(1) by (auto simp: grid_edges_def)
  have "\<exists>es'\<in>set ess. edge_of n p \<in> set es'"
    using ess(1) assms(2-4) by (auto simp: mapR_eq_Inr list_all2_conv_all_nth in_set_conv_nth) (metis imageI image_set in_set_conv_nth nth_mem sum.inject(2) list.set_map)
  then have "edge_of n p \<in> set es" using ess(2) by auto
  then show "p \<in> set (adjacent es n)" "n \<in> set (adjacent es p)"
    by (auto simp: adjacent_def edge_of_def min_def max_def image_iff split: if_splits)
qed

lemma adjacency_edges:
  assumes "grid_edges g = Inr es" "q \<in> set (adjacent es n)"
  shows "\<exists>m\<in>set (keys (gr_seats g)). \<exists>ps. grid_neighbours g m = Inr ps \<and> ((m = n \<and> q \<in> set ps) \<or> (m = q \<and> n \<in> set ps))"
proof -
  obtain ess where ess: "mapR (\<lambda>nid. bindR (grid_neighbours g nid) (\<lambda>ps. Inr (map (edge_of nid) ps))) (keys (gr_seats g)) = Inr ess"
    "es = sorted_set (concat ess)"
    using assms(1) by (auto simp: grid_edges_def)
  from assms(2) have "(n, q) \<in> set es \<or> (q, n) \<in> set es" by (auto simp: adjacent_def)
  then obtain e es' where e: "es' \<in> set ess" "e \<in> set es'" "e = (n, q) \<or> e = (q, n)" using ess(2) by auto
  obtain m ps where m: "m \<in> set (keys (gr_seats g))" "grid_neighbours g m = Inr ps" "es' = map (edge_of m) ps"
    using mapR_mem [OF ess(1) e(1)] by auto
  from e(2) m(3) obtain p where p: "p \<in> set ps" "e = edge_of m p" by auto
  have "(m = n \<and> p = q) \<or> (m = q \<and> p = n)" using e(3) p(2) edge_of_iff [of m p] by (metis edge_of_iff)
  then show ?thesis using m p by blast
qed

lemma grid_edges_total:
  assumes g: "seated_as k rest g"
  obtains es where "grid_edges g = Inr es"
proof -
  have "\<exists>es. mapR (\<lambda>nid. bindR (grid_neighbours g nid) (\<lambda>ps. Inr (map (edge_of nid) ps))) ns = Inr es"
    if "set ns \<subseteq> set (keys (gr_seats g))" for ns
    using that
  proof (induction ns)
    case (Cons n ns)
    then show ?case using neighbours_of [OF g, of n] by auto
  qed simp
  then show thesis using that by (force simp: grid_edges_def)
qed

lemma map_of_tabulate: "map_of (map (\<lambda>n. (n, f n)) xs) n = (if n \<in> set xs then Some (f n) else None)"
  by (induction xs) auto

lemma adjacency_of:
  assumes g: "seated_as k rest g" and es: "grid_edges g = Inr es"
  defines "adj \<equiv> map (\<lambda>n. (n, adjacent es n)) (keys (gr_seats g))"
  shows "grid_adjacency g = Inr adj" "keys adj = keys (gr_seats g)" "distinct (keys adj)" "closed_graph adj"
    "n \<in> set (keys adj) \<Longrightarrow> map_of adj n = Some (adjacent es n)"
proof -
  show "grid_adjacency g = Inr adj" using es by (simp add: grid_adjacency_def adj_def)
  show ks: "keys adj = keys (gr_seats g)" by (simp add: keys_def adj_def comp_def)
  show "distinct (keys adj)" unfolding ks seated_keys [OF g] using g by (simp add: seated_as_def)
  have of: "map_of adj n = (if n \<in> set (keys (gr_seats g)) then Some (adjacent es n) else None)" for n
    by (simp add: adj_def map_of_tabulate)
  then show "n \<in> set (keys adj) \<Longrightarrow> map_of adj n = Some (adjacent es n)" by (simp add: ks)
  show "closed_graph adj"
    unfolding closed_graph_def
  proof (intro allI impI subsetI)
    fix n ns q assume "map_of adj n = Some ns" "q \<in> set ns"
    then have "n \<in> set (keys (gr_seats g))" "q \<in> set (adjacent es n)" by (auto simp: of split: if_splits)
    from adjacency_edges [OF es this(2)] this(1) neighbours_of [OF g] show "q \<in> set (keys adj)" by (fastforce simp: ks)
  qed
qed

lemma adjacent_sym: "a \<in> set (adjacent es b) \<longleftrightarrow> b \<in> set (adjacent es a)"
  by (auto simp: adjacent_def image_iff)

lemma walk_trans: "walk adj e b c \<Longrightarrow> walk adj d a b \<Longrightarrow> walk adj (d + e) a c"
  by (induction rule: walk.induct) (auto intro: walk_step)

lemma walk_sym:
  assumes "\<And>a b as. map_of adj a = Some as \<Longrightarrow> b \<in> set as \<Longrightarrow> \<exists>bs. map_of adj b = Some bs \<and> a \<in> set bs"
    and "walk adj d a b"
  shows "walk adj d b a"
  using assms(2)
proof (induction rule: walk.induct)
  case (walk_step d a b ns c)
  obtain cs where "map_of adj c = Some cs" "b \<in> set cs" using assms(1) walk_step(2,3) by blast
  then have "walk adj 1 c b" using walk.walk_step [OF walk.walk_refl] by (metis One_nat_def)
  then show ?case using walk_trans [OF walk_step(4)] by (metis plus_1_eq_Suc)
qed (rule walk.walk_refl)

lemma seated_connected:
  assumes g: "seated_as k rest g" and es: "grid_edges g = Inr es" and adj: "grid_adjacency g = Inr adj"
    and ab: "a \<in> set (keys adj)" "b \<in> set (keys adj)"
  shows "\<exists>d. walk adj d a b"
proof -
  have adj_eq: "adj = map (\<lambda>n. (n, adjacent es n)) (keys (gr_seats g))" using adjacency_of(1) [OF g es] adj by simp
  note A = adjacency_of(2-5) [OF g es, folded adj_eq]
  have sym: "\<exists>bs. map_of adj b = Some bs \<and> a \<in> set bs" if "map_of adj a = Some as" "b \<in> set as" for a b as
  proof -
    have a: "a \<in> set (keys adj)" using that(1) by (auto simp: set_keys)
    then have "b \<in> set (keys adj)" using A(3) that by (auto simp: closed_graph_def)
    then show ?thesis using A(4) a that adjacent_sym [of a es b] by auto
  qed
  have rest: "\<exists>d. walk adj d (rest ! j) (gr_leader g)" if "j < length rest" for j
    using that
  proof (induction j rule: less_induct)
    case (less j)
    let ?f = "if j < k then gr_leader g else rest ! (j - k)"
    have k: "0 < k" using g by (simp add: seated_as_def)
    have d: "distinct (gr_leader g # rest)" using g by (simp add: seated_as_def)
    have n: "rest ! j \<in> set (keys (gr_seats g))" using less(2) seated_keys [OF g] by simp
    obtain ps where ps: "grid_neighbours g (rest ! j) = Inr ps"
      "\<forall>p. grid_front g (rest ! j) = Inr (Some p) \<longrightarrow> p \<noteq> rest ! j \<longrightarrow> p \<in> set ps"
      using neighbours_of [OF g n] by blast
    have "?f \<noteq> rest ! j"
    proof (cases "j < k")
      case True
      then show ?thesis using d less(2) by (metis distinct.simps(2) nth_mem)
    next
      case False
      then show ?thesis using d less(2) k by (simp add: nth_eq_iff_index_eq)
    qed
    then have "?f \<in> set ps" using ps(2) front_of [OF g less(2)] by blast
    then have "?f \<in> set (adjacent es (rest ! j))" by (rule edges_adjacent(1) [OF es ps(1) _ n])
    moreover have "map_of adj (rest ! j) = Some (adjacent es (rest ! j))" using A(1,4) n by simp
    ultimately have step: "walk adj 1 (rest ! j) ?f" using walk_step [OF walk_refl] by (metis One_nat_def)
    show ?case
    proof (cases "j < k")
      case True
      then show ?thesis using step by auto
    next
      case False
      then have "\<exists>d. walk adj d (rest ! (j - k)) (gr_leader g)" using less k by simp
      then show ?thesis using step False walk_trans by (metis (full_types))
    qed
  qed
  have to_leader: "\<exists>d. walk adj d n (gr_leader g)" if "n \<in> set (keys adj)" for n
  proof -
    have "n \<in> set (keys (gr_seats g))" using that A(1) by simp
    from g this show ?thesis
    proof (cases rule: seated_cases)
      case 1
      then show ?thesis using walk_refl by blast
    next
      case (2 j)
      then show ?thesis using rest by simp
    qed
  qed
  obtain d where "walk adj d a (gr_leader g)" using to_leader [OF ab(1)] by blast
  moreover obtain e where "walk adj e b (gr_leader g)" using to_leader [OF ab(2)] by blast
  then have "walk adj e (gr_leader g) b" by (rule walk_sym [rotated]) (erule (1) sym)
  ultimately show ?thesis using walk_trans by blast
qed

lemma seated_diameter:
  assumes g: "seated_as k rest g"
  obtains adj d where "grid_adjacency g = Inr adj" "grid_diameter g = Inr (int d)"
    "\<And>a b. a \<in> set (keys adj) \<Longrightarrow> b \<in> set (keys adj) \<Longrightarrow> \<exists>e\<le>d. walk adj e a b"
proof -
  obtain es where es: "grid_edges g = Inr es" by (rule grid_edges_total [OF g])
  define adj where "adj = map (\<lambda>n. (n, adjacent es n)) (keys (gr_seats g))"
  note A = adjacency_of [OF g es, folded adj_def]
  have "\<exists>d. diameter_from adj (keys adj) 0 = Inr (int d)"
    by (rule diameter_from_total [OF A(4,3)]) (use seated_connected [OF g es A(1)] in auto)
  then obtain d where d: "diameter_from adj (keys adj) 0 = Inr (int d)" by blast
  have "\<exists>e\<le>d. walk adj e a b" if "a \<in> set (keys adj)" "b \<in> set (keys adj)" for a b
    using diameter_from_walks [OF A(4,3) subset_refl d] that by blast
  then show thesis using that [OF A(1)] d A(1) by (simp add: grid_diameter_def)
qed

section \<open>Seating by a seed\<close>

lemma seat_order_spec:
  assumes "seat_order P ids seed exclude standing counting = Inr (leader, rest)" "distinct ids"
  shows "distinct (leader # rest)" "set (leader # rest) = set ids" "leader \<notin> set exclude"
    and "standing = Some st \<Longrightarrow> st leader = Some counting
      \<and> (\<exists>front back. rest = front @ back \<and> (\<forall>n\<in>set front. st n = Some counting) \<and> (\<forall>n\<in>set back. st n \<noteq> Some counting))"
proof -
  let ?order = "sort_key (seat_key P seed) ids"
  have o: "distinct ?order" "set ?order = set ids" using assms(2) by simp_all
  have hd: "x \<in> set xs \<and> p x" if "filter p xs = x # ys" for p and xs ys :: "string list" and x
    using that using filter_set [of p xs] by (auto simp: that)
  have "distinct (leader # rest) \<and> set (leader # rest) = set ids \<and> leader \<notin> set exclude
    \<and> (\<forall>st. standing = Some st \<longrightarrow> st leader = Some counting
      \<and> (\<exists>front back. rest = front @ back \<and> (\<forall>n\<in>set front. st n = Some counting) \<and> (\<forall>n\<in>set back. st n \<noteq> Some counting)))"
  proof (cases standing)
    case None
    then obtain ys where "filter (\<lambda>n. n \<notin> set exclude) ?order = leader # ys" "rest = filter (\<lambda>n. n \<noteq> leader) ?order"
      using assms(1) by (auto simp: seat_order_def Let_def split: list.splits)
    then show ?thesis using hd [of "\<lambda>n. n \<notin> set exclude" ?order leader ys] o None by auto
  next
    case (Some st)
    let ?F = "filter (\<lambda>n. n \<noteq> leader) (filter (\<lambda>n. st n = Some counting) ?order)" and ?B = "filter (\<lambda>n. st n \<noteq> Some counting) ?order"
    obtain ys where f: "filter (\<lambda>n. n \<notin> set exclude) (filter (\<lambda>n. st n = Some counting) ?order) = leader # ys" and r: "rest = ?F @ ?B"
      using assms(1) Some by (auto simp: seat_order_def Let_def split: list.splits)
    have l: "leader \<in> set ids" "st leader = Some counting" "leader \<notin> set exclude"
      using hd [OF f] o(2) by auto
    have "\<exists>front back. rest = front @ back \<and> (\<forall>n\<in>set front. st n = Some counting) \<and> (\<forall>n\<in>set back. st n \<noteq> Some counting)"
      by (intro exI [of _ ?F] exI [of _ ?B]) (simp add: r)
    moreover have "distinct (leader # rest)" using o(1) l by (auto simp: r)
    moreover have "set (leader # rest) = set ids" using o(2) l(1,2) by (auto simp: r)
    ultimately show ?thesis using Some l by simp
  qed
  note all = this
  show "distinct (leader # rest)" by (rule conjunct1 [OF all])
  show "set (leader # rest) = set ids" by (rule conjunct1 [OF conjunct2 [OF all]])
  show "leader \<notin> set exclude" by (rule conjunct1 [OF conjunct2 [OF conjunct2 [OF all]]])
  show "standing = Some st \<Longrightarrow> st leader = Some counting
      \<and> (\<exists>front back. rest = front @ back \<and> (\<forall>n\<in>set front. st n = Some counting) \<and> (\<forall>n\<in>set back. st n \<noteq> Some counting))"
    by (rule mp [OF spec [OF conjunct2 [OF conjunct2 [OF conjunct2 [OF all]]]]])
qed

lemma grid_seat_seated:
  assumes "grid_seat P ids row_size seed exclude standing counting = Inr g" "distinct ids" "0 < row_size"
  obtains rest where "seated_as (nat row_size) rest g" "set (gr_leader g # rest) = set ids" "gr_seed g = seed"
    "seat_order P ids seed exclude standing counting = Inr (gr_leader g, rest)"
proof -
  obtain leader rest rows where o: "seat_order P ids seed exclude standing counting = Inr (leader, rest)"
    "chunk_rows row_size rest = Inr rows" "g = mk_grid leader rows row_size seed"
    using assms(1) by (auto simp: grid_seat_def split: if_splits)
  have g: "gr_leader g = leader" "gr_seed g = seed" using o(3) by (simp_all add: mk_grid_def)
  show thesis
    by (rule that [of rest]) (use seat_order_spec(1,2) [OF o(1) assms(2)] mk_grid_seated [OF assms(3) _ o(2), of leader] o g in auto)
qed

lemma grid_seat_connected:
  assumes "grid_seat P ids row_size seed exclude standing counting = Inr g" "distinct ids" "0 < row_size"
  shows "distinct (keys (gr_seats g)) \<and> set (keys (gr_seats g)) = set ids
    \<and> (\<exists>adj d. grid_adjacency g = Inr adj \<and> keys adj = keys (gr_seats g) \<and> grid_diameter g = Inr (int d)
        \<and> (\<forall>a\<in>set ids. \<forall>b\<in>set ids. \<exists>e\<le>d. walk adj e a b))"
proof -
  obtain rest where r: "seated_as (nat row_size) rest g" "set (gr_leader g # rest) = set ids"
    by (rule grid_seat_seated [OF assms])
  have k: "keys (gr_seats g) = gr_leader g # rest" by (rule seated_keys [OF r(1)])
  obtain es where "grid_edges g = Inr es" by (rule grid_edges_total [OF r(1)])
  note A = adjacency_of(1,2) [OF r(1) this]
  obtain adj d where d: "grid_adjacency g = Inr adj" "grid_diameter g = Inr (int d)"
    "\<And>a b. a \<in> set (keys adj) \<Longrightarrow> b \<in> set (keys adj) \<Longrightarrow> \<exists>e\<le>d. walk adj e a b"
    by (rule seated_diameter [OF r(1)], blast)
  have "keys adj = keys (gr_seats g)" using A d(1) by simp
  moreover have "distinct (keys (gr_seats g))" using k r(1) by (simp add: seated_as_def)
  ultimately show ?thesis using d k r(2) by auto
qed

text \<open>C26: Every seating is one connected graph. Seating distinct nodes in rows of positive length
  gives each exactly one seat, and \<open>diameter\<close> ends with a length within which any two seats are
  joined over the edges; it never returns the -1 of a disconnected grid.\<close>

theorem seating_is_connected:
  assumes "grid_seat P ids row_size seed exclude standing counting = Inr g" "distinct ids" "0 < row_size"
  shows "distinct (keys (gr_seats g)) \<and> set (keys (gr_seats g)) = set ids
    \<and> (\<exists>adj d. grid_adjacency g = Inr adj \<and> keys adj = keys (gr_seats g) \<and> grid_diameter g = Inr (int d)
        \<and> (\<forall>a\<in>set ids. \<forall>b\<in>set ids. \<exists>e\<le>d. walk adj e a b))"
  using assms by (rule grid_seat_connected)

text \<open>C27: An attester never waits on an apprentice. When the seating knows the standings, the
  leader has the counting standing, and so has the seat in front of every counting seat, which is
  in an earlier row: following fronts from a counting seat leads to the leader over counting
  seats only, so a withholding apprentice cannot cut one off.\<close>

theorem attesters_never_wait_on_apprentices:
  assumes g: "grid_seat P ids row_size seed exclude (Some st) counting = Inr g" "distinct ids" "0 < row_size"
    and n: "n \<in> set ids" "st n = Some counting" "n \<noteq> gr_leader g"
  shows "st (gr_leader g) = Some counting
    \<and> (\<exists>p r c r' c'. grid_front g n = Inr (Some p) \<and> st p = Some counting
         \<and> map_of (gr_seats g) n = Some (r, c) \<and> map_of (gr_seats g) p = Some (r', c') \<and> r' < r)"
proof -
  obtain rest where r: "seated_as (nat row_size) rest g" "set (gr_leader g # rest) = set ids"
    "seat_order P ids seed exclude (Some st) counting = Inr (gr_leader g, rest)"
    by (rule grid_seat_seated [OF g])
  let ?k = "nat row_size"
  note o = seat_order_spec(4) [OF r(3) g(2) refl]
  then obtain front others where fo: "rest = front @ others" "\<forall>n\<in>set front. st n = Some counting" "\<forall>n\<in>set others. st n \<noteq> Some counting"
    by blast
  have "n \<in> set front" using n r(2) fo by auto
  then obtain j where j: "j < length front" "n = front ! j" by (auto simp: in_set_conv_nth)
  then have jr: "j < length rest" "n = rest ! j" using fo(1) by (simp_all add: nth_append)
  have k: "0 < ?k" using g(3) by simp
  let ?p = "if j < ?k then gr_leader g else rest ! (j - ?k)"
  have "st ?p = Some counting" using o fo(1,2) j k by (auto simp: nth_append)
  moreover have "\<exists>r' c'. map_of (gr_seats g) ?p = Some (r', c') \<and> r' < j div ?k + 1"
  proof (cases "j < ?k")
    case True
    then show ?thesis using seated_map_of(1) [OF r(1)] by simp
  next
    case False
    then show ?thesis using seated_map_of(2) [OF r(1), of "j - ?k"] jr(1) k by (simp add: seat_at_def le_div_geq)
  qed
  ultimately show ?thesis
    using o front_of [OF r(1) jr(1)] seated_map_of(2) [OF r(1) jr(1)] jr(2) by (simp add: seat_at_def)
qed

section \<open>Instances\<close>

definition demo_ids :: "string list" where
  "demo_ids = [''a'', ''d'', ''e'', ''g'']"

definition demo_standing :: "string \<rightharpoonup> string" where
  "demo_standing = [''a'' \<mapsto> ATTESTER, ''d'' \<mapsto> ATTESTER, ''e'' \<mapsto> ATTESTER, ''g'' \<mapsto> ''apprentice'']"

text \<open>The sample hash depends on the length alone, so the order of the list stays.\<close>

lemma demo_sorted: "sort_key (seat_key len_prims ''s'') demo_ids = demo_ids"
proof -
  have "seat_key len_prims ''s'' [c] = seat_key len_prims ''s'' ''a''" for c
    by (simp add: seat_key_def h_hex_def h_bytes_def h_preimage_def len_prefixed_def len_prims_def)
  then have "map (seat_key len_prims ''s'') demo_ids = replicate 4 (seat_key len_prims ''s'' ''a'')"
    by (simp add: demo_ids_def eval_nat_numeral)
  then show ?thesis by (intro sort_key_id_if_sorted) simp
qed

lemma demo_seated:
  "grid_seat len_prims demo_ids 1 ''s'' [] (Some demo_standing) ATTESTER
    = Inr (mk_grid ''a'' [[''d''], [''e''], [''g'']] 1 ''s'')"
proof -
  have "seat_order len_prims demo_ids ''s'' [] (Some demo_standing) ATTESTER = Inr (''a'', [''d'', ''e'', ''g''])"
    unfolding seat_order_def demo_sorted by (simp add: demo_ids_def demo_standing_def ATTESTER_def)
  moreover have "chunk_rows 1 [''d'', ''e'', ''g''] = Inr [[''d''], [''e''], [''g'']]"
    by (simp add: chunk_rows_def ceil_div_def upt_rec)
  ultimately show ?thesis by (simp add: grid_seat_def) (simp add: demo_ids_def)
qed

lemma demo_ids_ok: "distinct demo_ids" "0 < (1::int)"
  by (simp_all add: demo_ids_def)

theorem seating_is_connected_witness:
  "\<exists>d. grid_diameter (mk_grid ''a'' [[''d''], [''e''], [''g'']] 1 ''s'') = Inr (int d)"
  using seating_is_connected [OF demo_seated demo_ids_ok] by blast

theorem attesters_never_wait_on_apprentices_witness:
  "\<exists>p. grid_front (mk_grid ''a'' [[''d''], [''e''], [''g'']] 1 ''s'') ''e'' = Inr (Some p) \<and> demo_standing p = Some ATTESTER"
proof -
  have "''e'' \<in> set demo_ids" "demo_standing ''e'' = Some ATTESTER" "''e'' \<noteq> gr_leader (mk_grid ''a'' [[''d''], [''e''], [''g'']] 1 ''s'')"
    by (simp_all add: demo_ids_def demo_standing_def mk_grid_def)
  from attesters_never_wait_on_apprentices [OF demo_seated demo_ids_ok this] show ?thesis by blast
qed

end
