(* ===== verification/Envelope.thy ===== *)
theory Envelope
  imports Views
begin

text \<open>
  What a seat holds and exchanges: the \<open>Envelope\<close> of \<open>chain/ceremony.py\<close> and the three statements
  a node signs in \<open>chain/node.py\<close>.

  The four dictionaries are association lists in insertion order; \<open>add_*\<close> return the envelope and
  whether it changed. Checking a fault report may raise, and so may everything that absorbs one.
  The lemmas say what an envelope admits (\<open>env_ok\<close>), that a certificate built from it verifies
  against the roster it was checked with, and that absorbing is a union of what is known.
\<close>

section \<open>Signed by a node\<close>

record node =
  nd_id :: string
  nd_public_hex :: string
  nd_chain_id :: string
  nd_sign :: "bytes \<Rightarrow> string"

definition node_propose ::
    "prims \<Rightarrow> node \<Rightarrow> chain_block \<Rightarrow> int \<Rightarrow> string \<Rightarrow> int \<Rightarrow> view_cert option \<Rightarrow> exn + signed_proposal" where
  "node_propose P nd b epoch seed view cert =
     bindR (sp_message P (nd_chain_id nd) (block_height b) (block_hash P b) epoch seed view
              (case cert of None \<Rightarrow> [] | Some c \<Rightarrow> view_cert_digest P c)) (\<lambda>msg.
       Inr (SignedProposal b (nd_id nd) (nd_public_hex nd) epoch seed (nd_sign nd msg) view cert))"

definition node_attest :: "prims \<Rightarrow> node \<Rightarrow> string \<Rightarrow> int \<Rightarrow> int \<Rightarrow> string \<Rightarrow> exn + attestation" where
  "node_attest P nd bh height epoch seed =
     bindR (att_message P (nd_chain_id nd) height bh epoch seed) (\<lambda>msg.
       Inr \<lparr>at_node_id = nd_id nd, at_public_hex = nd_public_hex nd, at_chain_id = nd_chain_id nd, at_height = height,
            at_block_hash = bh, at_epoch = epoch, at_grid_seed = seed, at_signature = nd_sign nd msg\<rparr>)"

definition node_report ::
    "prims \<Rightarrow> node \<Rightarrow> string \<Rightarrow> int \<Rightarrow> int \<Rightarrow> string \<Rightarrow> evidence list \<Rightarrow> chain_block option \<Rightarrow> exn + fault_report" where
  "node_report P nd kind height epoch detail evidence subject =
     bindR (fault_message P (nd_chain_id nd) (nd_id nd) kind height epoch detail (map (ev_block_hash P) evidence)
              (case subject of None \<Rightarrow> [] | Some b \<Rightarrow> block_hash P b)) (\<lambda>msg.
       Inr (FaultReport (nd_id nd) (nd_public_hex nd) kind height epoch detail evidence (nd_sign nd msg) (nd_chain_id nd) subject))"

section \<open>Envelopes\<close>

record envelope =
  en_height :: int
  en_epoch :: int
  en_seed :: string
  en_leader :: string
  en_chain :: string
  en_validators :: "string \<rightharpoonup> string"
  en_counting :: "string set"
  en_proposals :: "(string \<times> signed_proposal) list"
  en_attestations :: "(string \<times> attestation) list"
  en_shadow :: "(string \<times> attestation) list"
  en_faults :: "(string \<times> fault_report) list"

definition new_envelope ::
    "int \<Rightarrow> int \<Rightarrow> string \<Rightarrow> string \<Rightarrow> string \<Rightarrow> (string \<rightharpoonup> string) \<Rightarrow> string set option \<Rightarrow> envelope" where
  "new_envelope height epoch seed leader chain validators counting =
     \<lparr>en_height = height, en_epoch = epoch, en_seed = seed, en_leader = leader, en_chain = chain,
      en_validators = validators, en_counting = (case counting of None \<Rightarrow> dom validators | Some c \<Rightarrow> c),
      en_proposals = [], en_attestations = [], en_shadow = [], en_faults = []\<rparr>"

definition add_proposal :: "prims \<Rightarrow> signed_proposal \<Rightarrow> envelope \<Rightarrow> envelope \<times> bool" where
  "add_proposal P sp e =
     (if sp_block_hash P sp \<in> set (keys (en_proposals e)) then (e, False)
      else if sp_height sp \<noteq> en_height e \<or> sp_epoch sp \<noteq> en_epoch e \<or> sp_grid_seed sp \<noteq> en_seed e
              \<or> sp_leader_id sp \<noteq> en_leader e \<or> block_chain_id (sp_block sp) \<noteq> en_chain e then (e, False)
      else if en_validators e (sp_leader_id sp) \<noteq> Some (sp_public_hex sp) then (e, False)
      else if \<not> sp_verify P sp then (e, False)
      else (e\<lparr>en_proposals := AList.update (sp_block_hash P sp) sp (en_proposals e)\<rparr>, True))"

definition add_attestation :: "prims \<Rightarrow> attestation \<Rightarrow> envelope \<Rightarrow> envelope \<times> bool" where
  "add_attestation P a e =
     (let counts = at_node_id a \<in> en_counting e;
          target = (if counts then en_attestations e else en_shadow e)
      in if at_node_id a \<in> set (keys target) then (e, False)
      else if at_height a \<noteq> en_height e \<or> at_epoch a \<noteq> en_epoch e \<or> at_grid_seed a \<noteq> en_seed e
              \<or> at_chain_id a \<noteq> en_chain e then (e, False)
      else if en_validators e (at_node_id a) \<noteq> Some (at_public_hex a) then (e, False)
      else if \<not> att_verify P a then (e, False)
      else if counts then (e\<lparr>en_attestations := AList.update (at_node_id a) a (en_attestations e)\<rparr>, True)
      else (e\<lparr>en_shadow := AList.update (at_node_id a) a (en_shadow e)\<rparr>, True))"

definition add_fault :: "prims \<Rightarrow> fault_report \<Rightarrow> envelope \<Rightarrow> exn + (envelope \<times> bool)" where
  "add_fault P fr e =
     (if fr_key P fr \<in> set (keys (en_faults e)) then Inr (e, False)
      else if fr_height fr \<noteq> en_height e \<or> fr_epoch fr \<noteq> en_epoch e then Inr (e, False)
      else if en_validators e (fr_reporter fr) \<noteq> Some (fr_public_hex fr) then Inr (e, False)
      else bindR (fr_verify P fr) (\<lambda>ok.
        if \<not> ok then Inr (e, False)
        else Inr (e\<lparr>en_faults := AList.update (fr_key P fr) fr (en_faults e)\<rparr>, True)))"

definition counted :: "('a \<Rightarrow> envelope \<Rightarrow> envelope \<times> bool) \<Rightarrow> envelope \<times> nat \<Rightarrow> 'a \<Rightarrow> envelope \<times> nat" where
  "counted f = (\<lambda>(e, n) x. let (e', b) = f x e in (e', n + (if b then 1 else 0)))"

definition counted_fault :: "prims \<Rightarrow> envelope \<times> nat \<Rightarrow> fault_report \<Rightarrow> exn + (envelope \<times> nat)" where
  "counted_fault P = (\<lambda>(e, n) fr. bindR (add_fault P fr e) (\<lambda>(e', b). Inr (e', n + (if b then 1 else 0))))"

definition env_absorb :: "prims \<Rightarrow> envelope \<Rightarrow> envelope \<Rightarrow> exn + (envelope \<times> nat)" where
  "env_absorb P e other =
     foldR (counted_fault P)
       (foldl (counted (add_attestation P))
         (foldl (counted (add_attestation P))
           (foldl (counted (add_proposal P)) (e, 0) (map snd (en_proposals other)))
           (map snd (en_attestations other)))
         (map snd (en_shadow other)))
       (map snd (en_faults other))"

section \<open>Queries\<close>

definition equivocation_evidence :: "envelope \<Rightarrow> (signed_proposal \<times> signed_proposal) option" where
  "equivocation_evidence e =
     (if length (en_proposals e) < 2 then None
      else case sort (keys (en_proposals e)) of
        a # b # _ \<Rightarrow> (case (map_of (en_proposals e) a, map_of (en_proposals e) b) of
           (Some x, Some y) \<Rightarrow> Some (x, y) | _ \<Rightarrow> None)
      | _ \<Rightarrow> None)"

fun first_equivocation :: "prims \<Rightarrow> fault_report list \<Rightarrow> exn + fault_report option" where
  "first_equivocation P [] = Inr None"
| "first_equivocation P (fr # frs) =
     (if fr_kind fr = EQUIVOCATION
      then bindR (substantiated P None fr) (\<lambda>ok. if ok then Inr (Some fr) else first_equivocation P frs)
      else first_equivocation P frs)"

definition substantiated_equivocation :: "prims \<Rightarrow> envelope \<Rightarrow> exn + fault_report option" where
  "substantiated_equivocation P e = first_equivocation P (map snd (en_faults e))"

definition sole_proposal :: "envelope \<Rightarrow> signed_proposal option" where
  "sole_proposal e = (case en_proposals e of [p] \<Rightarrow> Some (snd p) | _ \<Rightarrow> None)"

definition attestations_for :: "envelope \<Rightarrow> string \<Rightarrow> attestation list" where
  "attestations_for e bh = filter (\<lambda>a. at_block_hash a = bh) (map snd (en_attestations e))"

definition shadows_for :: "envelope \<Rightarrow> string \<Rightarrow> attestation list" where
  "shadows_for e bh = filter (\<lambda>a. at_block_hash a = bh) (map snd (en_shadow e))"

definition env_attended :: "envelope \<Rightarrow> string set" where
  "env_attended e = set (keys (en_attestations e)) \<union> set (keys (en_shadow e))"

section \<open>What an envelope admits\<close>

definition proposal_admissible :: "prims \<Rightarrow> envelope \<Rightarrow> signed_proposal \<Rightarrow> bool" where
  "proposal_admissible P e sp =
     (sp_height sp = en_height e \<and> sp_epoch sp = en_epoch e \<and> sp_grid_seed sp = en_seed e \<and> sp_leader_id sp = en_leader e
      \<and> block_chain_id (sp_block sp) = en_chain e \<and> en_validators e (sp_leader_id sp) = Some (sp_public_hex sp) \<and> sp_verify P sp)"

definition attestation_admissible :: "prims \<Rightarrow> envelope \<Rightarrow> attestation \<Rightarrow> bool" where
  "attestation_admissible P e a =
     (at_height a = en_height e \<and> at_epoch a = en_epoch e \<and> at_grid_seed a = en_seed e \<and> at_chain_id a = en_chain e
      \<and> en_validators e (at_node_id a) = Some (at_public_hex a) \<and> att_verify P a)"

definition fault_admissible :: "prims \<Rightarrow> envelope \<Rightarrow> fault_report \<Rightarrow> bool" where
  "fault_admissible P e fr =
     (fr_height fr = en_height e \<and> fr_epoch fr = en_epoch e \<and> en_validators e (fr_reporter fr) = Some (fr_public_hex fr)
      \<and> fr_verify P fr = Inr True)"

definition env_frame :: "envelope \<Rightarrow> int \<times> int \<times> string \<times> string \<times> string \<times> (string \<rightharpoonup> string) \<times> string set" where
  "env_frame e = (en_height e, en_epoch e, en_seed e, en_leader e, en_chain e, en_validators e, en_counting e)"

definition env_ok :: "prims \<Rightarrow> envelope \<Rightarrow> bool" where
  "env_ok P e =
     (distinct (keys (en_proposals e)) \<and> distinct (keys (en_attestations e)) \<and> distinct (keys (en_shadow e)) \<and> distinct (keys (en_faults e))
      \<and> (\<forall>(k, sp)\<in>set (en_proposals e). k = sp_block_hash P sp \<and> proposal_admissible P e sp)
      \<and> (\<forall>(k, a)\<in>set (en_attestations e). k = at_node_id a \<and> k \<in> en_counting e \<and> attestation_admissible P e a)
      \<and> (\<forall>(k, a)\<in>set (en_shadow e). k = at_node_id a \<and> k \<notin> en_counting e \<and> attestation_admissible P e a)
      \<and> (\<forall>(k, fr)\<in>set (en_faults e). k = fr_key P fr \<and> fault_admissible P e fr))"

lemma admissible_update [simp]:
  "proposal_admissible P (e\<lparr>en_proposals := x\<rparr>) = proposal_admissible P e"
  "proposal_admissible P (e\<lparr>en_attestations := y\<rparr>) = proposal_admissible P e"
  "proposal_admissible P (e\<lparr>en_shadow := y\<rparr>) = proposal_admissible P e"
  "proposal_admissible P (e\<lparr>en_faults := z\<rparr>) = proposal_admissible P e"
  "attestation_admissible P (e\<lparr>en_proposals := x\<rparr>) = attestation_admissible P e"
  "attestation_admissible P (e\<lparr>en_attestations := y\<rparr>) = attestation_admissible P e"
  "attestation_admissible P (e\<lparr>en_shadow := y\<rparr>) = attestation_admissible P e"
  "attestation_admissible P (e\<lparr>en_faults := z\<rparr>) = attestation_admissible P e"
  "fault_admissible P (e\<lparr>en_proposals := x\<rparr>) = fault_admissible P e"
  "fault_admissible P (e\<lparr>en_attestations := y\<rparr>) = fault_admissible P e"
  "fault_admissible P (e\<lparr>en_shadow := y\<rparr>) = fault_admissible P e"
  "fault_admissible P (e\<lparr>en_faults := z\<rparr>) = fault_admissible P e"
  by (simp_all add: fun_eq_iff proposal_admissible_def attestation_admissible_def fault_admissible_def)

lemma env_frame_admissible:
  assumes "env_frame e = env_frame e'"
  shows "proposal_admissible P e = proposal_admissible P e'" "attestation_admissible P e = attestation_admissible P e'"
    "fault_admissible P e = fault_admissible P e'" "en_counting e = en_counting e'"
  using assms by (auto simp: env_frame_def proposal_admissible_def attestation_admissible_def fault_admissible_def fun_eq_iff)

lemma new_envelope_ok [simp]: "env_ok P (new_envelope h ep s l c vs cs)"
  by (simp add: env_ok_def new_envelope_def)

text \<open>Each addition in one equation: what is known or not admissible changes nothing, the rest is
  appended.\<close>

lemma add_proposal_eq:
  "add_proposal P sp e =
     (if sp_block_hash P sp \<in> set (keys (en_proposals e)) \<or> \<not> proposal_admissible P e sp then (e, False)
      else (e\<lparr>en_proposals := en_proposals e @ [(sp_block_hash P sp, sp)]\<rparr>, True))"
  by (auto simp: add_proposal_def proposal_admissible_def update_fresh)

definition att_known :: "envelope \<Rightarrow> string \<Rightarrow> bool" where
  "att_known e n = (if n \<in> en_counting e then n \<in> set (keys (en_attestations e)) else n \<in> set (keys (en_shadow e)))"

lemma add_attestation_eq:
  "add_attestation P a e =
     (if att_known e (at_node_id a) \<or> \<not> attestation_admissible P e a then (e, False)
      else if at_node_id a \<in> en_counting e then (e\<lparr>en_attestations := en_attestations e @ [(at_node_id a, a)]\<rparr>, True)
      else (e\<lparr>en_shadow := en_shadow e @ [(at_node_id a, a)]\<rparr>, True))"
  by (auto simp: add_attestation_def att_known_def attestation_admissible_def update_fresh Let_def)

lemma add_fault_cases:
  assumes "add_fault P fr e = Inr (e', b)"
  obtains "e' = e" "\<not> b" "fr_key P fr \<in> set (keys (en_faults e)) \<or> \<not> fault_admissible P e fr"
  | "e' = e\<lparr>en_faults := en_faults e @ [(fr_key P fr, fr)]\<rparr>" b "fr_key P fr \<notin> set (keys (en_faults e))" "fault_admissible P e fr"
proof (cases "fr_key P fr \<in> set (keys (en_faults e)) \<or> \<not> fault_admissible P e fr")
  case True
  then have "e' = e \<and> \<not> b" using assms by (auto simp: add_fault_def fault_admissible_def split: if_splits)
  then show ?thesis using that(1) True by blast
next
  case False
  then have "e' = e\<lparr>en_faults := en_faults e @ [(fr_key P fr, fr)]\<rparr> \<and> b"
    using assms by (simp add: add_fault_def fault_admissible_def update_fresh)
  then show ?thesis using that(2) False by blast
qed

lemma add_frame [simp]:
  "env_frame (fst (add_proposal P sp e)) = env_frame e"
  "env_frame (fst (add_attestation P a e)) = env_frame e"
  by (simp_all add: add_proposal_eq add_attestation_eq env_frame_def)

lemma add_fault_frame: "add_fault P fr e = Inr (e', b) \<Longrightarrow> env_frame e' = env_frame e"
  by (erule add_fault_cases) (simp_all add: env_frame_def)

lemma add_proposal_ok: "env_ok P e \<Longrightarrow> env_ok P (fst (add_proposal P sp e))"
  by (simp add: add_proposal_eq env_ok_def)

lemma add_attestation_ok: "env_ok P e \<Longrightarrow> env_ok P (fst (add_attestation P a e))"
  by (simp add: add_attestation_eq env_ok_def att_known_def)

lemma add_fault_ok: "add_fault P fr e = Inr (e', b) \<Longrightarrow> env_ok P e \<Longrightarrow> env_ok P e'"
  by (erule add_fault_cases) (simp_all add: env_ok_def)

lemmas add_ok = add_proposal_ok add_attestation_ok add_fault_ok

text \<open>An invariant of the three additions is one of \<open>env_absorb\<close>.\<close>

lemma foldl_counted_invariant:
  assumes "I e" "\<And>e x. I e \<Longrightarrow> x \<in> set xs \<Longrightarrow> I (fst (f x e))"
  shows "I (fst (foldl (counted f) (e, n) xs))"
  using assms
proof (induction xs arbitrary: e n)
  case (Cons x xs)
  obtain e' b where eb: "f x e = (e', b)" by fastforce
  then have "I e'" using Cons.prems(2) [OF Cons.prems(1), of x] by simp
  then show ?case using Cons.IH Cons.prems(2) eb by (simp add: counted_def)
qed simp

lemma env_absorb_invariant:
  assumes abs: "env_absorb P e other = Inr (e', n)" and e: "I e"
    and p: "\<And>e sp. I e \<Longrightarrow> sp \<in> snd ` set (en_proposals other) \<Longrightarrow> I (fst (add_proposal P sp e))"
    and a: "\<And>e x. I e \<Longrightarrow> x \<in> snd ` set (en_attestations other) \<union> snd ` set (en_shadow other) \<Longrightarrow> I (fst (add_attestation P x e))"
    and f: "\<And>e fr e' b. I e \<Longrightarrow> fr \<in> snd ` set (en_faults other) \<Longrightarrow> add_fault P fr e = Inr (e', b) \<Longrightarrow> I e'"
  shows "I e'"
proof -
  let ?p = "foldl (counted (add_proposal P)) (e, 0) (map snd (en_proposals other))"
  let ?a = "foldl (counted (add_attestation P)) ?p (map snd (en_attestations other))"
  let ?s = "foldl (counted (add_attestation P)) ?a (map snd (en_shadow other))"
  have "I (fst ?p)" by (rule foldl_counted_invariant [where I = I, OF e]) (use p in auto)
  then have "I (fst ?a)" using foldl_counted_invariant [of I "fst ?p" "map snd (en_attestations other)" "add_attestation P" "snd ?p"] a by auto
  then have s: "I (fst ?s)" using foldl_counted_invariant [of I "fst ?a" "map snd (en_shadow other)" "add_attestation P" "snd ?a"] a by auto
  have "foldR (counted_fault P) ?s (map snd (en_faults other)) = Inr (e', n)" using abs by (simp add: env_absorb_def)
  then have "I (fst (e', n))"
    by (rule foldR_invariant [where I = "\<lambda>s. I (fst s)"]) (use s in simp, use f in \<open>force simp: counted_fault_def split: prod.splits\<close>)
  then show ?thesis by simp
qed

lemma env_absorb_frame: "env_absorb P e other = Inr (e', n) \<Longrightarrow> env_frame e' = env_frame e"
  by (rule env_absorb_invariant [where I = "\<lambda>x. env_frame x = env_frame e"]) (auto dest: add_fault_frame)

lemma env_absorb_ok: "env_absorb P e other = Inr (e', n) \<Longrightarrow> env_ok P e \<Longrightarrow> env_ok P e'"
  by (rule env_absorb_invariant [where I = "env_ok P"]) (auto intro: add_ok)

section \<open>Absorbing is a union of what is known\<close>

text \<open>The abstraction: the set of what an envelope knows of.\<close>

datatype known_item = KProposal string | KVote string | KShadow string | KFault string

definition known :: "envelope \<Rightarrow> known_item set" where
  "known e = KProposal ` set (keys (en_proposals e)) \<union> KVote ` set (keys (en_attestations e))
     \<union> KShadow ` set (keys (en_shadow e)) \<union> KFault ` set (keys (en_faults e))"

definition proposal_items :: "prims \<Rightarrow> envelope \<Rightarrow> signed_proposal \<Rightarrow> known_item set" where
  "proposal_items P e sp = (if proposal_admissible P e sp then {KProposal (sp_block_hash P sp)} else {})"

definition attestation_items :: "prims \<Rightarrow> envelope \<Rightarrow> attestation \<Rightarrow> known_item set" where
  "attestation_items P e a =
     (if \<not> attestation_admissible P e a then {}
      else if at_node_id a \<in> en_counting e then {KVote (at_node_id a)} else {KShadow (at_node_id a)})"

definition fault_items :: "prims \<Rightarrow> envelope \<Rightarrow> fault_report \<Rightarrow> known_item set" where
  "fault_items P e fr = (if fault_admissible P e fr then {KFault (fr_key P fr)} else {})"

definition admitted :: "prims \<Rightarrow> envelope \<Rightarrow> envelope \<Rightarrow> known_item set" where
  "admitted P e other =
     \<Union> (proposal_items P e ` snd ` set (en_proposals other))
     \<union> \<Union> (attestation_items P e ` snd ` (set (en_attestations other) \<union> set (en_shadow other)))
     \<union> \<Union> (fault_items P e ` snd ` set (en_faults other))"

lemma frame_items:
  assumes "env_frame e = env_frame e'"
  shows "proposal_items P e = proposal_items P e'" "attestation_items P e = attestation_items P e'" "fault_items P e = fault_items P e'"
  using assms
  by (simp_all add: env_frame_def fun_eq_iff proposal_items_def attestation_items_def fault_items_def
      proposal_admissible_def attestation_admissible_def fault_admissible_def)

lemma frame_admitted: "env_frame e = env_frame e' \<Longrightarrow> admitted P e other = admitted P e' other"
  by (simp add: admitted_def frame_items [of e e'])

lemma add_proposal_known: "known (fst (add_proposal P sp e)) = known e \<union> proposal_items P e sp"
  by (auto simp: add_proposal_eq known_def proposal_items_def)

lemma add_attestation_known: "known (fst (add_attestation P a e)) = known e \<union> attestation_items P e a"
  by (auto simp: add_attestation_eq known_def att_known_def attestation_items_def)

lemma add_fault_known: "add_fault P fr e = Inr (e', b) \<Longrightarrow> known e' = known e \<union> fault_items P e fr"
  by (erule add_fault_cases) (auto simp: known_def fault_items_def)

lemma foldl_counted_known:
  assumes step: "\<And>e x. env_frame e = env_frame e0 \<Longrightarrow> env_frame (fst (f x e)) = env_frame e0 \<and> known (fst (f x e)) = known e \<union> k x"
    and "env_frame e = env_frame e0"
  shows "env_frame (fst (foldl (counted f) (e, n) xs)) = env_frame e0
    \<and> known (fst (foldl (counted f) (e, n) xs)) = known e \<union> \<Union> (k ` set xs)"
  using assms(2)
proof (induction xs arbitrary: e n)
  case (Cons x xs)
  obtain e' b where eb: "f x e = (e', b)" by fastforce
  have e': "env_frame e' = env_frame e0" "known e' = known e \<union> k x" using step [OF Cons.prems, of x] eb by auto
  have "foldl (counted f) (e, n) (x # xs) = foldl (counted f) (e', n + (if b then 1 else 0)) xs" by (simp add: counted_def eb)
  then show ?case using Cons.IH [OF e'(1)] e'(2) by (simp add: Un_assoc)
qed simp

lemma foldR_fault_known:
  assumes "foldR (counted_fault P) (e, n) frs = Inr (e', m)"
  shows "env_frame e' = env_frame e \<and> known e' = known e \<union> \<Union> (fault_items P e ` set frs)"
  using assms
proof (induction frs arbitrary: e n)
  case (Cons fr frs)
  from Cons.prems obtain e1 b where e1: "add_fault P fr e = Inr (e1, b)"
    and r: "foldR (counted_fault P) (e1, n + (if b then 1 else 0)) frs = Inr (e', m)"
    by (auto simp: counted_fault_def)
  have "env_frame e1 = env_frame e" by (rule add_fault_frame [OF e1])
  then show ?case using Cons.IH [OF r] add_fault_known [OF e1] frame_items(3) [of e1 e] by (simp add: Un_assoc)
qed simp

lemma absorb_statements_known:
  fixes e other P
  defines "s \<equiv> foldl (counted (add_attestation P))
      (foldl (counted (add_attestation P))
        (foldl (counted (add_proposal P)) (e, 0) (map snd (en_proposals other)))
        (map snd (en_attestations other))) (map snd (en_shadow other))"
  shows "env_frame (fst s) = env_frame e
    \<and> known (fst s) = known e \<union> \<Union> (proposal_items P e ` snd ` set (en_proposals other))
        \<union> \<Union> (attestation_items P e ` snd ` (set (en_attestations other) \<union> set (en_shadow other)))"
proof -
  have p: "env_frame (fst (add_proposal P x e')) = env_frame e \<and> known (fst (add_proposal P x e')) = known e' \<union> proposal_items P e x"
    if "env_frame e' = env_frame e" for e' x
    using that frame_items(1) [OF that] add_proposal_known by simp
  have a: "env_frame (fst (add_attestation P x e')) = env_frame e \<and> known (fst (add_attestation P x e')) = known e' \<union> attestation_items P e x"
    if "env_frame e' = env_frame e" for e' x
    using that frame_items(2) [OF that] add_attestation_known by simp
  let ?p = "foldl (counted (add_proposal P)) (e, 0) (map snd (en_proposals other))"
  let ?a = "foldl (counted (add_attestation P)) ?p (map snd (en_attestations other))"
  note P1 = foldl_counted_known [where f = "add_proposal P", OF p refl, of 0 "map snd (en_proposals other)"]
  note A1 = foldl_counted_known [where f = "add_attestation P", OF a conjunct1 [OF P1], of "snd ?p" "map snd (en_attestations other)"]
  note A2 = foldl_counted_known [where f = "add_attestation P", OF a, of "fst ?a" "snd ?a" "map snd (en_shadow other)"]
  show ?thesis using P1 A1 A2 unfolding s_def by (simp add: image_Un Un_assoc)
qed

lemma env_absorb_known:
  assumes "env_absorb P e other = Inr (e', n)"
  shows "env_frame e' = env_frame e" "known e' = known e \<union> admitted P e other"
proof -
  note S = absorb_statements_known [of P e other]
  define s where "s = foldl (counted (add_attestation P))
      (foldl (counted (add_attestation P))
        (foldl (counted (add_proposal P)) (e, 0) (map snd (en_proposals other)))
        (map snd (en_attestations other))) (map snd (en_shadow other))"
  obtain e1 n1 where s1: "s = (e1, n1)" by fastforce
  have "foldR (counted_fault P) (e1, n1) (map snd (en_faults other)) = Inr (e', n)" using assms s1 by (simp add: env_absorb_def s_def)
  note F = foldR_fault_known [OF this]
  have "env_frame e1 = env_frame e" using S s1 by (simp add: s_def)
  then show "env_frame e' = env_frame e" "known e' = known e \<union> admitted P e other"
    using F S s1 frame_items(3) [of e1 e] by (simp_all add: s_def admitted_def Un_assoc)
qed

text \<open>Absorbing what is known already changes nothing.\<close>

lemma known_iff [simp]:
  "KProposal k \<in> known e \<longleftrightarrow> k \<in> set (keys (en_proposals e))" "KVote k \<in> known e \<longleftrightarrow> k \<in> set (keys (en_attestations e))"
  "KShadow k \<in> known e \<longleftrightarrow> k \<in> set (keys (en_shadow e))" "KFault k \<in> known e \<longleftrightarrow> k \<in> set (keys (en_faults e))"
  by (auto simp: known_def)

lemma foldl_counted_stays: "(\<And>x. x \<in> set xs \<Longrightarrow> f x e = (e, False)) \<Longrightarrow> foldl (counted f) (e, n) xs = (e, n)"
  by (induction xs) (simp_all add: counted_def)

lemma add_known:
  "proposal_items P e sp \<subseteq> known e \<Longrightarrow> add_proposal P sp e = (e, False)"
  "attestation_items P e a \<subseteq> known e \<Longrightarrow> add_attestation P a e = (e, False)"
  by (auto simp: proposal_items_def add_proposal_eq attestation_items_def add_attestation_eq att_known_def split: if_splits)

lemma add_fault_again:
  assumes "add_fault P fr e = Inr (e1, b)" "env_frame e2 = env_frame e" "known e1 \<subseteq> known e2"
  shows "add_fault P fr e2 = Inr (e2, False)"
  using assms(1)
proof (cases rule: add_fault_cases)
  case 1
  show ?thesis
  proof (cases "fr_key P fr \<in> set (keys (en_faults e2))")
    case True
    then show ?thesis by (simp add: add_fault_def)
  next
    case False
    then have "fr_key P fr \<notin> set (keys (en_faults e))" using assms(3) 1(1) known_iff(4) by blast
    then show ?thesis using assms(1,2) 1(1,2) False by (auto simp: add_fault_def env_frame_def split: if_splits)
  qed
next
  case 2
  then have "KFault (fr_key P fr) \<in> known e1" by simp
  then have "fr_key P fr \<in> set (keys (en_faults e2))" using assms(3) known_iff(4) by blast
  then show ?thesis by (simp add: add_fault_def)
qed

lemma foldR_fault_again:
  assumes "foldR (counted_fault P) (e, n) frs = Inr (e', m)" "env_frame e2 = env_frame e" "known e' \<subseteq> known e2"
  shows "foldR (counted_fault P) (e2, i) frs = Inr (e2, i)"
  using assms
proof (induction frs arbitrary: e n)
  case (Cons fr frs)
  from Cons.prems obtain e1 b where e1: "add_fault P fr e = Inr (e1, b)"
    and r: "foldR (counted_fault P) (e1, n + (if b then 1 else 0)) frs = Inr (e', m)"
    by (auto simp: counted_fault_def)
  have "known e1 \<subseteq> known e2" using foldR_fault_known [OF r] Cons.prems(3) by blast
  then have "add_fault P fr e2 = Inr (e2, False)" by (rule add_fault_again [OF e1 Cons.prems(2)])
  moreover have "env_frame e2 = env_frame e1" using add_fault_frame [OF e1] Cons.prems(2) by simp
  ultimately show ?case using Cons.IH [OF r _ Cons.prems(3)] by (simp add: counted_fault_def)
qed simp

lemma env_absorb_again:
  assumes abs: "env_absorb P e other = Inr (e', n)" and e2: "env_frame e2 = env_frame e" "known e' \<subseteq> known e2"
  shows "env_absorb P e2 other = Inr (e2, 0)"
proof -
  have adm: "admitted P e2 other \<subseteq> known e2"
    using env_absorb_known(2) [OF abs] e2 frame_admitted [OF e2(1), of P other] by simp
  have "foldl (counted (add_proposal P)) (e2, 0) (map snd (en_proposals other)) = (e2, 0)"
    by (rule foldl_counted_stays) (use adm in \<open>force intro: add_known simp: admitted_def\<close>)
  moreover have "foldl (counted (add_attestation P)) (e2, 0) (map snd (en_attestations other)) = (e2, 0)"
    by (rule foldl_counted_stays) (use adm in \<open>force intro: add_known simp: admitted_def\<close>)
  moreover have "foldl (counted (add_attestation P)) (e2, 0) (map snd (en_shadow other)) = (e2, 0)"
    by (rule foldl_counted_stays) (use adm in \<open>force intro: add_known simp: admitted_def\<close>)
  moreover obtain e1 n1 where s: "foldl (counted (add_attestation P))
      (foldl (counted (add_attestation P))
        (foldl (counted (add_proposal P)) (e, 0) (map snd (en_proposals other)))
        (map snd (en_attestations other))) (map snd (en_shadow other)) = (e1, n1)" by fastforce
  have "foldR (counted_fault P) (e1, n1) (map snd (en_faults other)) = Inr (e', n)" using abs s by (simp add: env_absorb_def)
  moreover have "env_frame e2 = env_frame e1" using absorb_statements_known [of P e other] e2(1) by (simp add: s)
  ultimately show ?thesis using foldR_fault_again [OF _ _ e2(2)] by (simp add: env_absorb_def)
qed

text \<open>C25: Absorbing envelopes is a union. Whichever of two envelopes a seat absorbs first, it
  knows the same blocks, attesters and faults afterwards: what it knew and what of the two the
  roster and the signatures admit, and absorbing either again changes nothing. Only the knowledge
  is a union: of two attestations one seat signed for different blocks, the first to arrive is the
  one that is kept.\<close>

theorem absorb_is_union:
  assumes "env_absorb P e a = Inr (e1, n1)" "env_absorb P e1 b = Inr (e2, n2)"
    and "env_absorb P e b = Inr (f1, m1)" "env_absorb P f1 a = Inr (f2, m2)"
  shows "known e2 = known e \<union> admitted P e a \<union> admitted P e b \<and> known f2 = known e2
    \<and> env_absorb P e2 a = Inr (e2, 0) \<and> env_absorb P e2 b = Inr (e2, 0)"
proof -
  note E1 = env_absorb_known [OF assms(1)] and E2 = env_absorb_known [OF assms(2)]
    and F1 = env_absorb_known [OF assms(3)] and F2 = env_absorb_known [OF assms(4)]
  have k: "known e2 = known e \<union> admitted P e a \<union> admitted P e b" using E1 E2 frame_admitted [OF E1(1), of P b] by simp
  moreover have "known f2 = known e2" using k F1 F2 frame_admitted [OF F1(1), of P a] by auto
  moreover have "env_absorb P e2 a = Inr (e2, 0)" by (rule env_absorb_again [OF assms(1)]) (use E1 E2 in auto)
  moreover have "env_absorb P e2 b = Inr (e2, 0)" by (rule env_absorb_again [OF assms(2)]) (use E1 E2 in auto)
  ultimately show ?thesis by blast
qed

section \<open>A certificate of what was admitted verifies\<close>

lemma vote_fold_ok:
  assumes "distinct (map fst ps)" "set (map fst ps) \<inter> set seen = {}"
    and "\<And>n s. (n, s) \<in> set ps \<Longrightarrow> \<exists>key. vs n = Some key \<and> verify_msg P key msg s"
  shows "foldR (vote_step P vs msg dup bad) seen ps = Inr (rev (map fst ps) @ seen)"
  using assms
proof (induction ps arbitrary: seen)
  case (Cons p ps)
  obtain n s where p: "p = (n, s)" by fastforce
  have "\<exists>key. vs n = Some key \<and> verify_msg P key msg s" using Cons.prems(3) [of n s] p by simp
  then have "vote_step P vs msg dup bad seen p = Inr (n # seen)" using Cons.prems(2) by (auto simp: p vote_step_Inr)
  moreover have "foldR (vote_step P vs msg dup bad) (n # seen) ps = Inr (rev (map fst ps) @ n # seen)"
    by (rule Cons.IH) (use Cons.prems p in auto)
  ultimately show ?case by (simp add: p)
qed simp

definition att_for :: "prims \<Rightarrow> (string \<rightharpoonup> string) \<Rightarrow> string \<Rightarrow> int \<Rightarrow> string \<Rightarrow> int \<Rightarrow> string \<Rightarrow> attestation \<Rightarrow> bool" where
  "att_for P vs cid height bh epoch seed a =
     (at_chain_id a = cid \<and> at_height a = height \<and> at_block_hash a = bh \<and> at_epoch a = epoch \<and> at_grid_seed a = seed
      \<and> vs (at_node_id a) = Some (at_public_hex a) \<and> att_verify P a)"

lemma att_for_vote: "att_for P vs cid height bh epoch seed a \<Longrightarrow>
    \<exists>key. vs (at_node_id a) = Some key \<and> verify_msg P key (att_message P cid height bh epoch seed) (at_signature a)"
  by (auto simp: att_for_def att_verify_def)

lemma cert_build_verifies:
  assumes A: "\<And>a. a \<in> set atts \<union> set shadow \<Longrightarrow> att_for P vs cid height bh epoch seed a"
    and d: "distinct (map at_node_id atts)" "distinct (map at_node_id shadow)" and q: "quorum \<le> int (length atts)"
  shows "cert_verify P quorum (Some bh) (Some vs) None g (cert_build P cid height bh epoch seed atts shadow) = Inr ()"
proof -
  let ?A = "sort_key at_node_id atts" and ?S = "sort_key at_node_id (filter (\<lambda>a. at_node_id a \<notin> set (map at_node_id (sort_key at_node_id atts))) shadow)"
  let ?c = "cert_build P cid height bh epoch seed atts shadow" and ?m = "att_message P cid height bh epoch seed"
  have c: "qc_signers ?c = map at_node_id ?A" "qc_signatures ?c = map at_signature ?A" "qc_shadow_signers ?c = map at_node_id ?S"
    "qc_shadow_signatures ?c = map at_signature ?S" "qc_scheme ?c = ED25519" "qc_root ?c = cert_root P (map at_node_id ?A) (map at_signature ?A) ED25519"
    "qc_block_hash ?c = bh" "cert_message P ?c = ?m" "\<not> qc_compact ?c"
    by (simp_all add: cert_build_def cert_message_def qc_compact_def Let_def)
  have ids: "mset (map at_node_id ?A) = mset (map at_node_id atts)" by simp
  have dA: "distinct (map at_node_id ?A)" using d(1) ids by (metis mset_eq_imp_distinct_iff)
  have dS: "distinct (map at_node_id ?S)"
    using distinct_map_filter [OF d(2)] mset_eq_imp_distinct_iff [of "map at_node_id ?S" "map at_node_id (filter (\<lambda>a. at_node_id a \<notin> set (map at_node_id ?A)) shadow)"]
    by simp
  have zip: "zip (map at_node_id xs) (map at_signature xs) = map (\<lambda>a. (at_node_id a, at_signature a)) xs" for xs
    by (induction xs) auto
  have "foldR (vote_step P vs ?m DuplicateAttestation BadAttestation) [] (zip (map at_node_id ?A) (map at_signature ?A))
      = Inr (rev (map at_node_id ?A) @ [])"
    unfolding zip by (subst vote_fold_ok) (use dA A att_for_vote in \<open>auto simp: comp_def\<close>)
  moreover have "foldR (vote_step P vs ?m AttestedTwice BadShadow) (rev (map at_node_id ?A)) (zip (map at_node_id ?S) (map at_signature ?S))
      = Inr (rev (map at_node_id ?S) @ rev (map at_node_id ?A))"
    unfolding zip by (subst vote_fold_ok) (use dS A att_for_vote in \<open>auto simp: comp_def\<close>)
  moreover have "cert_seated P None g ?c = Inr ?c" using c(9) by (simp add: cert_seated_def)
  ultimately show ?thesis using q by (simp add: cert_verify_def c Let_def)
qed

lemma env_att_for:
  assumes "env_ok P e"
  shows "a \<in> set (attestations_for e bh) \<union> set (shadows_for e bh) \<Longrightarrow>
      att_for P (en_validators e) (en_chain e) (en_height e) bh (en_epoch e) (en_seed e) a"
    and "distinct (map at_node_id (attestations_for e bh))" "distinct (map at_node_id (shadows_for e bh))"
    and "set (map at_node_id (attestations_for e bh)) \<subseteq> en_counting e"
proof -
  have ids: "map at_node_id (map snd xs) = keys xs" if "\<forall>(k, a)\<in>set xs. k = at_node_id a" for xs :: "(string \<times> attestation) list"
    using that by (induction xs) (auto simp: keys_def)
  have A: "map at_node_id (map snd (en_attestations e)) = keys (en_attestations e)" "map at_node_id (map snd (en_shadow e)) = keys (en_shadow e)"
    using assms by (intro ids, fastforce simp: env_ok_def)+
  show "distinct (map at_node_id (attestations_for e bh))" "distinct (map at_node_id (shadows_for e bh))"
    unfolding attestations_for_def shadows_for_def by (rule distinct_map_filter, use A assms in \<open>simp add: env_ok_def\<close>)+
  show "set (map at_node_id (attestations_for e bh)) \<subseteq> en_counting e"
    using assms by (fastforce simp: attestations_for_def env_ok_def)
  show "a \<in> set (attestations_for e bh) \<union> set (shadows_for e bh) \<Longrightarrow>
      att_for P (en_validators e) (en_chain e) (en_height e) bh (en_epoch e) (en_seed e) a"
    using assms by (fastforce simp: attestations_for_def shadows_for_def env_ok_def att_for_def attestation_admissible_def)
qed

lemma node_attest_admissible:
  assumes "node_attest P nd bh (en_height e) (en_epoch e) (en_seed e) = Inr a" "nd_chain_id nd = en_chain e"
    and "en_validators e (nd_id nd) = Some (nd_public_hex nd)" "\<And>m. verify_msg P (nd_public_hex nd) (Inr m) (nd_sign nd m)"
  shows "attestation_admissible P e a" "at_node_id a = nd_id nd" "at_block_hash a = bh"
  using assms by (auto simp: node_attest_def attestation_admissible_def att_verify_def)

lemma node_propose_admissible:
  assumes "node_propose P nd b (en_epoch e) (en_seed e) view cert = Inr sp" "nd_chain_id nd = en_chain e" "block_chain_id b = en_chain e"
    and "block_height b = en_height e" "nd_id nd = en_leader e"
    and "en_validators e (nd_id nd) = Some (nd_public_hex nd)" "\<And>m. verify_msg P (nd_public_hex nd) (Inr m) (nd_sign nd m)"
  shows "proposal_admissible P e sp" "sp_block_hash P sp = block_hash P b" "sp_block sp = b"
  using assms
  by (auto simp: node_propose_def proposal_admissible_def sp_verify_def sp_height_def sp_block_hash_def sp_cert_digest_def)

section \<open>Instances\<close>

definition demo_envelope :: "attestation list \<Rightarrow> envelope" where
  "demo_envelope atts = foldl (\<lambda>e a. fst (add_attestation len_prims a e))
     (new_envelope 1 1 ''s'' ''l'' ''c'' [''a'' \<mapsto> ''00'', ''d'' \<mapsto> ''00''] None) atts"

lemma demo_attestation_admissible:
  "attestation_admissible len_prims (demo_envelope []) (demo_att ''x'' ''a'')" "attestation_admissible len_prims (demo_envelope []) (demo_att ''y'' ''d'')"
  using demo_att_signed [of "''x''"] demo_att_signed [of "''y''"]
  by (simp_all add: attestation_admissible_def demo_envelope_def new_envelope_def demo_att_def att_verify_def)

theorem absorb_is_union_witness:
  "\<exists>e. known e = {KVote ''a'', KVote ''d''} \<and> env_absorb len_prims e (demo_envelope [demo_att ''x'' ''a'']) = Inr (e, 0)"
proof -
  let ?e = "demo_envelope []" and ?a = "demo_envelope [demo_att ''x'' ''a'']" and ?b = "demo_envelope [demo_att ''y'' ''d'']"
  have frame: "env_frame ?a = env_frame ?e" "env_frame ?b = env_frame ?e" by (simp_all add: demo_envelope_def)
  have fields: "at_node_id (demo_att h n) = n" for h n by (simp add: demo_att_def)
  have e: "en_attestations ?e = []" "en_shadow ?e = []" "en_faults ?e = []" "en_proposals ?e = []" "en_counting ?e = {''a'', ''d''}"
    by (auto simp: demo_envelope_def new_envelope_def)
  have step: "demo_envelope [x] = fst (add_attestation len_prims x ?e)" for x by (simp add: demo_envelope_def)
  have ab: "?a = ?e\<lparr>en_attestations := [(''a'', demo_att ''x'' ''a'')]\<rparr>" "?b = ?e\<lparr>en_attestations := [(''d'', demo_att ''y'' ''d'')]\<rparr>"
    using demo_attestation_admissible by (simp_all add: step add_attestation_eq att_known_def e fields)
  let ?ab = "?e\<lparr>en_attestations := [(''a'', demo_att ''x'' ''a''), (''d'', demo_att ''y'' ''d'')]\<rparr>"
  let ?ba = "?e\<lparr>en_attestations := [(''d'', demo_att ''y'' ''d''), (''a'', demo_att ''x'' ''a'')]\<rparr>"
  have r: "env_absorb len_prims ?e ?a = Inr (?a, 1)" "env_absorb len_prims ?a ?b = Inr (?ab, 1)"
    "env_absorb len_prims ?e ?b = Inr (?b, 1)" "env_absorb len_prims ?b ?a = Inr (?ba, 1)"
    using demo_attestation_admissible
    by (simp_all add: ab env_absorb_def e counted_def add_attestation_eq att_known_def fields)
  have "known ?ab = {KVote ''a'', KVote ''d''}" by (auto simp: known_def e)
  moreover have "env_absorb len_prims ?ab ?a = Inr (?ab, 0)" using absorb_is_union [OF r] by blast
  ultimately show ?thesis by blast
qed

end
