(* ===== verification/Ceremony.thy ===== *)
theory Ceremony
  imports Envelope Grid
begin

text \<open>
  One ceremony over one grid, and the epoch that retries it: \<open>Ceremony\<close>, the leader behaviours and
  \<open>run_epoch\<close> of \<open>chain/ceremony.py\<close>.

  \<open>react\<close>, \<open>exchange\<close> and \<open>decide\<close> are the methods, on the state of all seats: an envelope per
  seat, what each validated and who has reacted. What a leader builds and how a node validates a
  block is the \<open>workload\<close>, an argument, as it is in the source. An exception in any of them ends
  the ceremony. Reasons are constructors; the printed join of several is the list of them.
\<close>

section \<open>Workloads and leaders\<close>

record workload =
  wl_build :: "node \<Rightarrow> ceremony_meta \<Rightarrow> int option \<Rightarrow> exn + chain_block"
  wl_validate :: "node \<Rightarrow> chain_block \<Rightarrow> exn + (bool \<times> string)"

type_synonym behaviour = "node \<Rightarrow> grid \<Rightarrow> ceremony_meta \<Rightarrow> int option \<Rightarrow> workload \<Rightarrow> exn + (string \<times> signed_proposal) list"

definition row_one :: "grid \<Rightarrow> string list" where
  "row_one g = (case gr_rows g of [] \<Rightarrow> [] | row # _ \<Rightarrow> row)"

definition honest_leader :: "prims \<Rightarrow> behaviour" where
  "honest_leader P leader g meta limit wl =
     bindR (wl_build wl leader meta limit) (\<lambda>b.
     bindR (node_propose P leader b (cm_epoch meta) (cm_grid_seed meta) 0 None) (\<lambda>sp.
       Inr (foldl (\<lambda>t nid. AList.update nid sp t) [(nd_id leader, sp)] (row_one g))))"

definition silent_leader :: behaviour where
  "silent_leader leader g meta limit wl = Inr []"

definition equivocating_leader :: "prims \<Rightarrow> behaviour" where
  "equivocating_leader P leader g meta limit wl =
     bindR (wl_build wl leader meta limit) (\<lambda>b1. bindR (wl_build wl leader meta (Some 0)) (\<lambda>b2.
     if block_hash P b1 = block_hash P b2 then Inl ValueError
     else bindR (node_propose P leader b1 (cm_epoch meta) (cm_grid_seed meta) 0 None) (\<lambda>sp1.
          bindR (node_propose P leader b2 (cm_epoch meta) (cm_grid_seed meta) 0 None) (\<lambda>sp2.
            Inr (foldl (\<lambda>t (c, nid). AList.update nid (if c mod 2 = 0 then sp1 else sp2) t) [(nd_id leader, sp1)]
                   (enumerate 0 (row_one g)))))))"

section \<open>A ceremony\<close>

record ceremony =
  ce_grid :: grid
  ce_nodes :: "string \<rightharpoonup> node"
  ce_height :: int
  ce_epoch :: int
  ce_rounds :: int
  ce_quorum :: int
  ce_workload :: workload
  ce_counting :: "string set"
  ce_grid_id :: string

definition ce_seats :: "ceremony \<Rightarrow> string list" where
  "ce_seats ce = keys (gr_seats (ce_grid ce))"

definition new_ceremony ::
    "grid \<Rightarrow> (string \<rightharpoonup> node) \<Rightarrow> chain_params \<Rightarrow> int \<Rightarrow> int \<Rightarrow> int option \<Rightarrow> int option \<Rightarrow> workload \<Rightarrow> string set option \<Rightarrow> string
      \<Rightarrow> exn + ceremony" where
  "new_ceremony g nodes params height epoch rounds quorum wl counting grid_id =
     (let counts = (case counting of None \<Rightarrow> set (keys (gr_seats g)) | Some c \<Rightarrow> c) in
      bindR (grid_diameter g) (\<lambda>d.
        Inr \<lparr>ce_grid = g, ce_nodes = nodes, ce_height = height, ce_epoch = epoch,
             ce_rounds = (case rounds of None \<Rightarrow> max 2 (2 * d) | Some r \<Rightarrow> r),
             ce_quorum = (case quorum of None \<Rightarrow> quorum_size params (int (card counts)) | Some q \<Rightarrow> q),
             ce_workload = wl, ce_counting = counts, ce_grid_id = grid_id\<rparr>))"

record ceremony_state =
  ct_env :: "string \<Rightarrow> envelope"
  ct_validated :: "string \<rightharpoonup> string \<times> bool \<times> string"
  ct_reacted :: "string set"

definition react :: "prims \<Rightarrow> ceremony \<Rightarrow> ceremony_state \<Rightarrow> string \<Rightarrow> exn + ceremony_state" where
  "react P ce st nid =
     (let e = ct_env st nid; node = the (ce_nodes ce nid) in
      case (if nid \<in> ct_reacted st then None else equivocation_evidence e) of
        Some (a, b) \<Rightarrow>
          bindR (node_report P node EQUIVOCATION (ce_height ce) (ce_epoch ce) ''leader proposed two blocks'' [EvProposal a, EvProposal b] None) (\<lambda>fr.
          bindR (add_fault P fr e) (\<lambda>(e', _).
            Inr (st\<lparr>ct_env := (ct_env st)(nid := e'\<lparr>en_attestations := AList.delete nid (en_attestations e')\<rparr>),
                    ct_reacted := insert nid (ct_reacted st)\<rparr>)))
      | None \<Rightarrow>
          if nid \<in> ct_reacted st then Inr st
          else (case sole_proposal e of None \<Rightarrow> Inr st
            | Some sp \<Rightarrow>
                if ct_validated st nid \<noteq> None then Inr st
                else bindR (wl_validate (ce_workload ce) node (sp_block sp)) (\<lambda>(ok, why).
                  let st1 = st\<lparr>ct_validated := (ct_validated st)(nid \<mapsto> (sp_block_hash P sp, ok, why))\<rparr> in
                  if ok then
                    bindR (node_attest P node (sp_block_hash P sp) (ce_height ce) (ce_epoch ce) (gr_seed (ce_grid ce))) (\<lambda>a.
                      Inr (st1\<lparr>ct_env := (ct_env st)(nid := fst (add_attestation P a e))\<rparr>))
                  else
                    bindR (node_report P node INVALID_BLOCK (ce_height ce) (ce_epoch ce) (take 120 why) [EvProposal sp] None) (\<lambda>fr.
                    bindR (add_fault P fr e) (\<lambda>(e', _).
                      Inr (st1\<lparr>ct_env := (ct_env st)(nid := e'), ct_reacted := insert nid (ct_reacted st)\<rparr>))))))"

definition react_all :: "prims \<Rightarrow> ceremony \<Rightarrow> ceremony_state \<Rightarrow> exn + ceremony_state" where
  "react_all P ce st = foldR (react P ce) st (ce_seats ce)"

text \<open>One edge of a round: both ends absorb what the other had when the round began.\<close>

definition exchange_edge :: "prims \<Rightarrow> (string \<Rightarrow> envelope) \<Rightarrow> (string \<Rightarrow> envelope) \<Rightarrow> string \<times> string \<Rightarrow> exn + (string \<Rightarrow> envelope)" where
  "exchange_edge P snap env = (\<lambda>(a, b).
     bindR (env_absorb P (env a) (snap b)) (\<lambda>(ea, _).
     bindR (env_absorb P ((env(a := ea)) b) (snap a)) (\<lambda>(eb, _). Inr (env(a := ea, b := eb)))))"

definition exchange :: "prims \<Rightarrow> (string \<times> string) list \<Rightarrow> ceremony_state \<Rightarrow> exn + ceremony_state" where
  "exchange P edges st = bindR (foldR (exchange_edge P (ct_env st)) (ct_env st) edges) (\<lambda>env. Inr (st\<lparr>ct_env := env\<rparr>))"

fun run_rounds :: "prims \<Rightarrow> ceremony \<Rightarrow> (string \<times> string) list \<Rightarrow> nat \<Rightarrow> ceremony_state \<Rightarrow> exn + ceremony_state" where
  "run_rounds P ce edges 0 st = Inr st"
| "run_rounds P ce edges (Suc t) st = bindR (exchange P edges st) (\<lambda>st1. bindR (react_all P ce st1) (run_rounds P ce edges t))"

section \<open>The decision rule\<close>

datatype decision_reason =
    LeaderEquivocated
  | NoProposal
  | ConflictingProposals
  | BlockRejected string
  | TooFewAttestations nat int
  | SeatAccepts

record decision =
  sd_node :: string
  sd_seat :: "nat \<times> nat"
  sd_accept :: bool
  sd_reason :: decision_reason
  sd_block_hash :: "string option"
  sd_attestations :: nat

definition decide_seat :: "prims \<Rightarrow> ceremony \<Rightarrow> ceremony_state \<Rightarrow> string \<times> (nat \<times> nat) \<Rightarrow> exn + decision" where
  "decide_seat P ce st = (\<lambda>(nid, seat).
     let e = ct_env st nid;
         abort = (\<lambda>why h n. \<lparr>sd_node = nid, sd_seat = seat, sd_accept = False, sd_reason = why, sd_block_hash = h, sd_attestations = n\<rparr>)
     in bindR (substantiated_equivocation P e) (\<lambda>equiv.
        if equiv \<noteq> None then Inr (abort LeaderEquivocated None (length (en_attestations e)))
        else case sole_proposal e of
          None \<Rightarrow> Inr (abort (if en_proposals e = [] then NoProposal else ConflictingProposals) None (length (en_attestations e)))
        | Some sp \<Rightarrow>
            let bh = sp_block_hash P sp; n = length (attestations_for e bh) in
            (case ct_validated st nid of
               None \<Rightarrow> Inr (abort (BlockRejected ''not validated'') (Some bh) (length (en_attestations e)))
             | Some (_, ok, why) \<Rightarrow>
                 if \<not> ok then Inr (abort (BlockRejected why) (Some bh) (length (en_attestations e)))
                 else if int n < ce_quorum ce then Inr (abort (TooFewAttestations n (ce_quorum ce)) (Some bh) n)
                 else Inr \<lparr>sd_node = nid, sd_seat = seat, sd_accept = True, sd_reason = SeatAccepts,
                          sd_block_hash = Some bh, sd_attestations = n\<rparr>)))"

datatype ceremony_reason =
    SplitAcceptance
  | NobodyAccepted "decision_reason list"
  | OnlySome nat int
  | CeremonyOk

record ceremony_result =
  cr_finalised :: bool
  cr_reason :: ceremony_reason
  cr_block :: "chain_block option"
  cr_cert :: "quorum_cert option"
  cr_decisions :: "decision list"
  cr_faults :: "fault_report list"
  cr_messages :: nat
  cr_roll :: attendance_roll

fun with_cert :: "quorum_cert \<Rightarrow> chain_block \<Rightarrow> chain_block" where
  "with_cert c (PBlock b _) = PBlock b (Some c)"
| "with_cert c (CBlock h txs d r _ pc fs) = CBlock h txs d r (Some c) pc fs"
| "with_cert c (GBlock h cs ds _) = GBlock h cs ds (Some c)"
| "with_cert c (NBlock h gs os fs ms _) = NBlock h gs os fs ms (Some c)"

definition merged :: "(string \<times> 'a) list list \<Rightarrow> 'a list" where
  "merged dicts = map snd (foldl (\<lambda>d (k, v). AList.update k v d) [] (concat dicts))"

definition by_node :: "attestation list \<Rightarrow> (string \<times> attestation) list" where
  "by_node as = map (\<lambda>a. (at_node_id a, a)) as"

definition ceremony_roll :: "ceremony \<Rightarrow> ceremony_state \<Rightarrow> attendance_roll" where
  "ceremony_roll ce st = \<lparr>ar_grid_id = ce_grid_id ce, ar_epoch = ce_epoch ce, ar_leader_id = gr_leader (ce_grid ce),
     ar_seated = sort (ce_seats ce),
     ar_attended = sorted_set (concat (map (\<lambda>n. keys (en_attestations (ct_env st n)) @ keys (en_shadow (ct_env st n))) (ce_seats ce)))\<rparr>"

definition accepting :: "decision list \<Rightarrow> decision list" where
  "accepting ds = filter sd_accept ds"

definition accepted_hashes :: "decision list \<Rightarrow> string list" where
  "accepted_hashes ds = remdups (List.map_filter sd_block_hash (accepting ds))"

definition decide :: "prims \<Rightarrow> ceremony \<Rightarrow> ceremony_state \<Rightarrow> nat \<Rightarrow> exn + ceremony_result" where
  "decide P ce st messages =
     bindR (mapR (decide_seat P ce st) (gr_seats (ce_grid ce))) (\<lambda>ds.
     let acc = accepting ds;
         base = \<lparr>cr_finalised = False, cr_reason = CeremonyOk, cr_block = None, cr_cert = None, cr_decisions = ds,
                 cr_faults = merged (map (\<lambda>n. en_faults (ct_env st n)) (ce_seats ce)), cr_messages = messages,
                 cr_roll = ceremony_roll ce st\<rparr>
     in if 1 < length (accepted_hashes ds) then Inr (base\<lparr>cr_reason := SplitAcceptance\<rparr>)
        else if acc = [] then Inr (base\<lparr>cr_reason := NobodyAccepted (remdups (map sd_reason ds))\<rparr>)
        else if int (length acc) < ce_quorum ce then Inr (base\<lparr>cr_reason := OnlySome (length acc) (ce_quorum ce)\<rparr>)
        else case sole_proposal (ct_env st (sd_node (hd acc))) of
          None \<Rightarrow> Inl AttributeError
        | Some winner \<Rightarrow>
          let bh = hd (accepted_hashes ds);
              atts = merged (map (\<lambda>d. by_node (attestations_for (ct_env st (sd_node d)) bh)) acc);
              shad = merged (map (\<lambda>d. by_node (shadows_for (ct_env st (sd_node d)) bh)) acc);
              cert = cert_build P (block_chain_id (sp_block winner)) (ce_height ce) bh (ce_epoch ce) (gr_seed (ce_grid ce)) atts shad
          in Inr (base\<lparr>cr_finalised := True, cr_block := Some (with_cert cert (sp_block winner)), cr_cert := Some cert\<rparr>))"

section \<open>The schedule\<close>

definition ceremony_validators :: "ceremony \<Rightarrow> string \<rightharpoonup> string" where
  "ceremony_validators ce n = (if n \<in> set (ce_seats ce) then map_option nd_public_hex (ce_nodes ce n) else None)"

definition seed_proposals :: "prims \<Rightarrow> ceremony \<Rightarrow> (string \<Rightarrow> envelope) \<Rightarrow> (string \<times> signed_proposal) list \<Rightarrow> string \<Rightarrow> envelope" where
  "seed_proposals P ce = foldl (\<lambda>env (target, sp).
     if target \<in> set (ce_seats ce) then env(target := fst (add_proposal P sp (env target))) else env)"

definition ceremony_meta_of :: "ceremony \<Rightarrow> ceremony_meta" where
  "ceremony_meta_of ce = \<lparr>cm_epoch = ce_epoch ce, cm_leader_id = gr_leader (ce_grid ce), cm_rows = int (n_rows (ce_grid ce)),
     cm_row_size = gr_row_size (ce_grid ce), cm_grid_seed = gr_seed (ce_grid ce), cm_attempt = 0\<rparr>"

definition run_ceremony :: "prims \<Rightarrow> ceremony \<Rightarrow> behaviour \<Rightarrow> int option \<Rightarrow> exn + ceremony_result" where
  "run_ceremony P ce beh limit =
     (case ce_nodes ce (gr_leader (ce_grid ce)) of None \<Rightarrow> Inl KeyError
      | Some leader \<Rightarrow>
        if \<not> list_all (\<lambda>n. ce_nodes ce n \<noteq> None) (ce_seats ce) then Inl KeyError
        else bindR (beh leader (ce_grid ce) (ceremony_meta_of ce) limit (ce_workload ce)) (\<lambda>targets.
          let fresh = new_envelope (ce_height ce) (ce_epoch ce) (gr_seed (ce_grid ce)) (gr_leader (ce_grid ce)) (nd_chain_id leader)
                        (ceremony_validators ce) (Some (ce_counting ce));
              st0 = \<lparr>ct_env = seed_proposals P ce (\<lambda>_. fresh) targets, ct_validated = Map.empty, ct_reacted = {}\<rparr>
          in bindR (react_all P ce st0) (\<lambda>st1.
             bindR (grid_edges (ce_grid ce)) (\<lambda>edges.
             bindR (run_rounds P ce edges (nat (ce_rounds ce)) st1) (\<lambda>st2.
               decide P ce st2 (2 * length edges * nat (ce_rounds ce)))))))"

section \<open>An epoch\<close>

fun epoch_attempts ::
    "prims \<Rightarrow> string list \<Rightarrow> (string \<rightharpoonup> node) \<Rightarrow> chain_params \<Rightarrow> workload \<Rightarrow> int \<Rightarrow> int \<Rightarrow> string \<Rightarrow> (string \<rightharpoonup> behaviour) \<Rightarrow> int option
      \<Rightarrow> int option \<Rightarrow> nat \<Rightarrow> nat \<Rightarrow> string list \<Rightarrow> ceremony_result list \<Rightarrow> exn + ceremony_result list" where
  "epoch_attempts P ids nodes params wl height epoch base_seed behs rounds limit attempt 0 tried results = Inr results"
| "epoch_attempts P ids nodes params wl height epoch base_seed behs rounds limit attempt (Suc left) tried results =
     (let seed = h_hex P ''view'' [PStr base_seed, PInt epoch, PInt (int attempt)] in
      bindR (grid_seat P ids (row_size params) seed tried None ATTESTER) (\<lambda>g.
      bindR (new_ceremony g nodes params height epoch rounds None wl None ''grid'') (\<lambda>ce.
      bindR (run_ceremony P ce (case behs (gr_leader g) of None \<Rightarrow> honest_leader P | Some b \<Rightarrow> b) limit) (\<lambda>r.
        if cr_finalised r then Inr (results @ [r])
        else epoch_attempts P ids nodes params wl height epoch base_seed behs rounds limit (attempt + 1) left
               (tried @ [gr_leader g]) (results @ [r])))))"

text \<open>The result of an epoch is its last attempt; with no attempt there is none to return.\<close>

definition run_epoch ::
    "prims \<Rightarrow> string list \<Rightarrow> (string \<rightharpoonup> node) \<Rightarrow> chain_params \<Rightarrow> workload \<Rightarrow> int \<Rightarrow> int \<Rightarrow> string \<Rightarrow> (string \<rightharpoonup> behaviour) \<Rightarrow> int option
      \<Rightarrow> int option \<Rightarrow> int option \<Rightarrow> exn + (ceremony_result \<times> ceremony_result list)" where
  "run_epoch P ids nodes params wl height epoch base_seed behs max_attempts rounds limit =
     bindR (epoch_attempts P ids nodes params wl height epoch base_seed behs rounds limit 0
              (case max_attempts of None \<Rightarrow> length ids | Some m \<Rightarrow> nat m) [] []) (\<lambda>rs.
       if rs = [] then Inl IndexError else Inr (last rs, rs))"

section \<open>What every round keeps\<close>

definition votes :: "envelope \<Rightarrow> attestation set" where
  "votes e = snd ` set (en_attestations e) \<union> snd ` set (en_shadow e)"

definition votes_match :: "(string \<rightharpoonup> string \<times> bool \<times> string) \<Rightarrow> envelope \<Rightarrow> bool" where
  "votes_match V e = (\<forall>a\<in>votes e. \<exists>ok why. V (at_node_id a) = Some (at_block_hash a, ok, why))"

lemma votes_match_mono: "votes_match V e \<Longrightarrow> votes e' \<subseteq> votes e \<Longrightarrow> votes_match V e'"
  by (auto simp: votes_match_def)

lemma votes_add:
  "votes (fst (add_proposal P sp e)) = votes e" "votes (fst (add_attestation P a e)) \<subseteq> insert a (votes e)"
  "add_fault P fr e = Inr (e', b) \<Longrightarrow> votes e' = votes e"
proof -
  show "votes (fst (add_proposal P sp e)) = votes e" by (simp add: votes_def add_proposal_eq)
  show "votes (fst (add_attestation P a e)) \<subseteq> insert a (votes e)" by (auto simp: votes_def add_attestation_eq)
  assume "add_fault P fr e = Inr (e', b)"
  then show "votes e' = votes e" by (cases rule: add_fault_cases) (simp_all add: votes_def)
qed

lemma votes_pop: "votes (e\<lparr>en_attestations := AList.delete n (en_attestations e)\<rparr>) \<subseteq> votes e"
  using set_delete_subset [of n "en_attestations e"] by (auto simp: votes_def)

definition env_good :: "prims \<Rightarrow> envelope \<Rightarrow> (string \<rightharpoonup> string \<times> bool \<times> string) \<Rightarrow> envelope \<Rightarrow> bool" where
  "env_good P e0 V e = (env_ok P e \<and> env_frame e = env_frame e0 \<and> votes_match V e)"

definition ct_ok :: "prims \<Rightarrow> envelope \<Rightarrow> ceremony_state \<Rightarrow> bool" where
  "ct_ok P e0 st = (\<forall>n. env_good P e0 (ct_validated st) (ct_env st n))"

definition nodes_named :: "ceremony \<Rightarrow> bool" where
  "nodes_named ce = (\<forall>n\<in>set (ce_seats ce). \<forall>nd. ce_nodes ce n = Some nd \<longrightarrow> nd_id nd = n)"

lemma votes_match_later: "votes_match V e \<Longrightarrow> V n = None \<Longrightarrow> votes_match (V(n \<mapsto> x)) e"
  unfolding votes_match_def by (metis fun_upd_apply option.distinct(1))

lemma env_good_later: "env_good P e0 V e \<Longrightarrow> V n = None \<Longrightarrow> env_good P e0 (V(n \<mapsto> x)) e"
  by (simp add: env_good_def votes_match_later)

lemma env_good_add:
  assumes e: "env_good P e0 V e"
  shows "env_good P e0 V (fst (add_proposal P sp e))"
    and "V (at_node_id a) = Some (at_block_hash a, ok, why) \<Longrightarrow> env_good P e0 V (fst (add_attestation P a e))"
    and "add_fault P fr e = Inr (e', b) \<Longrightarrow> env_good P e0 V e'"
proof -
  have ok: "env_ok P e" "env_frame e = env_frame e0" "votes_match V e" using e by (simp_all add: env_good_def)
  show "env_good P e0 V (fst (add_proposal P sp e))"
    using ok add_proposal_ok votes_match_mono [OF ok(3)] votes_add(1) by (simp add: env_good_def)
  show "env_good P e0 V (fst (add_attestation P a e))" if "V (at_node_id a) = Some (at_block_hash a, ok, why)"
  proof -
    have "votes_match V (fst (add_attestation P a e))"
      unfolding votes_match_def
    proof
      fix x assume "x \<in> votes (fst (add_attestation P a e))"
      then have "x = a \<or> x \<in> votes e" using votes_add(2) by blast
      then show "\<exists>ok why. V (at_node_id x) = Some (at_block_hash x, ok, why)" using that ok(3) by (auto simp: votes_match_def)
    qed
    then show ?thesis using ok add_attestation_ok by (simp add: env_good_def)
  qed
  show "env_good P e0 V e'" if f: "add_fault P fr e = Inr (e', b)"
    using ok add_fault_ok [OF f] add_fault_frame [OF f] votes_match_mono [OF ok(3)] votes_add(3) [OF f] by (simp add: env_good_def)
qed

lemma env_good_absorb:
  assumes "env_absorb P e other = Inr (e', n)" "env_good P e0 V e" "env_good P e0 V other"
  shows "env_good P e0 V e'"
proof (rule env_absorb_invariant [where I = "env_good P e0 V", OF assms(1,2)])
  fix e x assume e: "env_good P e0 V e" and x: "x \<in> snd ` set (en_attestations other) \<union> snd ` set (en_shadow other)"
  have "votes_match V other" using assms(3) by (simp add: env_good_def)
  then obtain ok why where "V (at_node_id x) = Some (at_block_hash x, ok, why)"
    using x unfolding votes_match_def votes_def by blast
  then show "env_good P e0 V (fst (add_attestation P x e))" by (rule env_good_add(2) [OF e])
qed (auto intro: env_good_add)

lemma env_good_pop:
  assumes "env_good P e0 V e"
  shows "env_good P e0 V (e\<lparr>en_attestations := AList.delete n (en_attestations e)\<rparr>)"
proof -
  have sub: "set (AList.delete n (en_attestations e)) \<subseteq> set (en_attestations e)" by (rule set_delete_subset)
  have "env_ok P (e\<lparr>en_attestations := AList.delete n (en_attestations e)\<rparr>)"
    using assms sub distinct_keys_delete [of "en_attestations e" n] by (simp add: env_good_def env_ok_def) blast
  then show ?thesis using assms votes_match_mono votes_pop by (auto simp: env_good_def env_frame_def)
qed

lemma react_ok:
  assumes st: "ct_ok P e0 st" and r: "react P ce st n = Inr st'" and n: "n \<in> set (ce_seats ce)"
    and names: "nodes_named ce" and some: "ce_nodes ce n = Some nd"
  shows "ct_ok P e0 st'"
proof -
  let ?e = "ct_env st n"
  have good: "\<And>m. env_good P e0 (ct_validated st) (ct_env st m)" using st by (simp add: ct_ok_def)
  consider (equiv) a b where "n \<notin> ct_reacted st" "equivocation_evidence ?e = Some (a, b)"
    | (stay) "st' = st"
    | (val) sp ok why where "sole_proposal ?e = Some sp" "ct_validated st n = None" "wl_validate (ce_workload ce) nd (sp_block sp) = Inr (ok, why)"
        "n \<notin> ct_reacted st" "equivocation_evidence ?e = None"
    using r some by (cases "n \<in> ct_reacted st"; cases "equivocation_evidence ?e"; cases "sole_proposal ?e"; cases "ct_validated st n")
      (auto simp: react_def Let_def)
  then show ?thesis
  proof cases
    case equiv
    then obtain fr e' b' where "add_fault P fr ?e = Inr (e', b')"
      "st' = st\<lparr>ct_env := (ct_env st)(n := e'\<lparr>en_attestations := AList.delete n (en_attestations e')\<rparr>), ct_reacted := insert n (ct_reacted st)\<rparr>"
      using r some by (auto simp: react_def Let_def)
    then show ?thesis using good env_good_pop [OF env_good_add(3) [OF good]] by (auto simp: ct_ok_def)
  next
    case stay
    then show ?thesis using st by simp
  next
    case val
    let ?V = "(ct_validated st)(n \<mapsto> (sp_block_hash P sp, ok, why))"
    have good': "\<And>m. env_good P e0 ?V (ct_env st m)" using good val(2) by (auto intro: env_good_later)
    show ?thesis
    proof (cases ok)
      case True
      then obtain a where a: "node_attest P nd (sp_block_hash P sp) (ce_height ce) (ce_epoch ce) (gr_seed (ce_grid ce)) = Inr a"
        "st' = st\<lparr>ct_validated := ?V, ct_env := (ct_env st)(n := fst (add_attestation P a ?e))\<rparr>"
        using r some val by (auto simp: react_def Let_def)
      have "at_node_id a = n" "at_block_hash a = sp_block_hash P sp"
        using a(1) names n some by (auto simp: node_attest_def nodes_named_def)
      then have "?V (at_node_id a) = Some (at_block_hash a, ok, why)" by simp
      then have "env_good P e0 ?V (fst (add_attestation P a ?e))" by (rule env_good_add(2) [OF good'])
      then show ?thesis using a(2) good' by (simp add: ct_ok_def)
    next
      case False
      then obtain fr e' b where "add_fault P fr ?e = Inr (e', b)"
        "st' = st\<lparr>ct_validated := ?V, ct_env := (ct_env st)(n := e'), ct_reacted := insert n (ct_reacted st)\<rparr>"
        using r some val by (auto simp: react_def Let_def)
      then show ?thesis using good' env_good_add(3) [OF good'] by (simp add: ct_ok_def)
    qed
  qed
qed

lemma react_all_ok:
  assumes "ct_ok P e0 st" "react_all P ce st = Inr st'" "nodes_named ce" "list_all (\<lambda>n. ce_nodes ce n \<noteq> None) (ce_seats ce)"
  shows "ct_ok P e0 st'"
  using assms(2) unfolding react_all_def
  by (rule foldR_invariant [where I = "ct_ok P e0"]) (use assms react_ok in \<open>auto simp: list_all_iff\<close>)

lemma exchange_ok:
  assumes "ct_ok P e0 st" "exchange P edges st = Inr st'"
  shows "ct_ok P e0 st'"
proof -
  obtain env where env: "foldR (exchange_edge P (ct_env st)) (ct_env st) edges = Inr env" "st' = st\<lparr>ct_env := env\<rparr>"
    using assms(2) by (auto simp: exchange_def)
  let ?I = "\<lambda>env. \<forall>n. env_good P e0 (ct_validated st) (env n)"
  have snap: "?I (ct_env st)" using assms(1) by (simp add: ct_ok_def)
  have "?I env"
  proof (rule foldR_invariant [where I = ?I, OF env(1) snap])
    fix env edge env' assume I: "?I env" and e: "exchange_edge P (ct_env st) env edge = Inr env'"
    obtain a b where ab: "edge = (a, b)" by fastforce
    from e ab obtain ea na eb nb where ea: "env_absorb P (env a) (ct_env st b) = Inr (ea, na)"
      and eb: "env_absorb P ((env(a := ea)) b) (ct_env st a) = Inr (eb, nb)" and env': "env' = env(a := ea, b := eb)"
      by (auto simp: exchange_edge_def)
    have ga: "env_good P e0 (ct_validated st) ea" by (rule env_good_absorb [OF ea]) (use I snap in auto)
    have "env_good P e0 (ct_validated st) eb" by (rule env_good_absorb [OF eb]) (use I snap ga in auto)
    then show "?I env'" using I ga env' by simp
  qed
  then show ?thesis by (simp add: env(2) ct_ok_def)
qed

lemma run_rounds_ok:
  assumes "run_rounds P ce edges t st = Inr st'" "ct_ok P e0 st" "nodes_named ce" "list_all (\<lambda>n. ce_nodes ce n \<noteq> None) (ce_seats ce)"
  shows "ct_ok P e0 st'"
  using assms(1,2)
proof (induction t arbitrary: st)
  case (Suc t)
  then obtain st1 st2 where "exchange P edges st = Inr st1" "react_all P ce st1 = Inr st2" "run_rounds P ce edges t st2 = Inr st'"
    by auto
  then show ?case using Suc exchange_ok react_all_ok [OF _ _ assms(3,4)] by blast
qed simp

section \<open>Safety\<close>

text \<open>More than half of the counting seats is a quorum system.\<close>

interpretation majority: quorum_system "\<lambda>n. n div 2 + 1" "\<lambda>_. 0"
  by unfold_locales presburger

lemma decide_seat_accepts:
  assumes "decide_seat P ce st ns = Inr d" "sd_accept d"
  obtains sp where "sole_proposal (ct_env st (sd_node d)) = Some sp" "sd_block_hash d = Some (sp_block_hash P sp)" "sd_node d = fst ns"
    "ce_quorum ce \<le> int (length (attestations_for (ct_env st (sd_node d)) (sp_block_hash P sp)))"
proof -
  obtain n seat where ns: "ns = (n, seat)" by (cases ns)
  from assms(1) obtain eq where "substantiated_equivocation P (ct_env st n) = Inr eq"
    by (auto simp: decide_seat_def ns Let_def)
  then show thesis
    using assms that
    by (cases "sole_proposal (ct_env st n)"; cases "ct_validated st n") (auto simp: decide_seat_def ns Let_def split: if_splits)
qed

lemma accepting_mem: "d \<in> set (accepting ds) \<longleftrightarrow> d \<in> set ds \<and> sd_accept d"
  by (auto simp: accepting_def)

definition accepts :: "prims \<Rightarrow> ceremony \<Rightarrow> ceremony_state \<Rightarrow> decision \<Rightarrow> string \<Rightarrow> bool" where
  "accepts P ce st d bh = (\<exists>sp. sole_proposal (ct_env st (sd_node d)) = Some sp \<and> bh = sp_block_hash P sp \<and> sd_block_hash d = Some bh
     \<and> ce_quorum ce \<le> int (length (attestations_for (ct_env st (sd_node d)) bh)))"

lemma accepting_accepts:
  assumes "mapR (decide_seat P ce st) seats = Inr ds" "d \<in> set (accepting ds)"
  shows "\<exists>bh. accepts P ce st d bh"
proof -
  have "d \<in> set ds" "sd_accept d" using assms(2) by (simp_all add: accepting_mem)
  then obtain ns where "decide_seat P ce st ns = Inr d" using mapR_mem [OF assms(1)] by blast
  then show ?thesis by (rule decide_seat_accepts [OF _ \<open>sd_accept d\<close>]) (auto simp: accepts_def)
qed

text \<open>Two seats that accept have counted a common attester, who validated one block.\<close>

lemma accepts_agree:
  assumes st: "ct_ok P e0 st" and fin: "finite (en_counting e0)" and q: "int (card (en_counting e0)) < 2 * ce_quorum ce"
    and a: "accepts P ce st d bh" "accepts P ce st d' bh'"
  shows "bh = bh'"
proof -
  let ?N = "\<lambda>d bh. set (map at_node_id (attestations_for (ct_env st (sd_node d)) bh))"
  have N: "?N x h \<subseteq> en_counting e0 \<and> card (en_counting e0) div 2 + 1 \<le> card (?N x h)
      \<and> (\<forall>n\<in>?N x h. \<exists>ok why. ct_validated st n = Some (h, ok, why))" if "accepts P ce st x h" for x h
  proof -
    have good: "env_ok P (ct_env st (sd_node x))" "env_frame (ct_env st (sd_node x)) = env_frame e0"
      "votes_match (ct_validated st) (ct_env st (sd_node x))"
      using st by (simp_all add: ct_ok_def env_good_def)
    have "card (?N x h) = length (attestations_for (ct_env st (sd_node x)) h)"
      using env_att_for(2) [OF good(1), of h] by (metis distinct_card length_map)
    moreover have "ce_quorum ce \<le> int (length (attestations_for (ct_env st (sd_node x)) h))" using that by (auto simp: accepts_def)
    ultimately have "card (en_counting e0) div 2 + 1 \<le> card (?N x h)" using q by linarith
    moreover have "?N x h \<subseteq> en_counting e0" using env_att_for(4) [OF good(1), of h] good(2) by (simp add: env_frame_def)
    moreover have "\<exists>ok why. ct_validated st n = Some (h, ok, why)" if n: "n \<in> ?N x h" for n
    proof -
      from n obtain v where "v \<in> votes (ct_env st (sd_node x))" "at_block_hash v = h" "at_node_id v = n"
        by (auto simp: attestations_for_def votes_def)
      then show ?thesis using good(3) by (auto simp: votes_match_def)
    qed
    ultimately show ?thesis by blast
  qed
  have "?N d bh \<inter> ?N d' bh' \<noteq> {}"
  proof (rule majority.quorums_meet [OF fin])
    have "card (en_counting e0) div 2 + 1 \<le> card (?N d bh)" "card (?N d bh) \<le> card (en_counting e0)"
      using N [OF a(1)] by (blast, intro card_mono fin, blast)
    then show "0 < card (en_counting e0)" by linarith
  qed (use N a in blast)+
  then obtain n where "n \<in> ?N d bh" "n \<in> ?N d' bh'" by blast
  then show ?thesis using N [OF a(1)] N [OF a(2)] by fastforce
qed

lemma accepted_hashes_single:
  assumes m: "mapR (decide_seat P ce st) seats = Inr ds"
    and agree: "\<And>d d' bh bh'. accepts P ce st d bh \<Longrightarrow> accepts P ce st d' bh' \<Longrightarrow> bh = bh'"
  shows "length (accepted_hashes ds) \<le> 1"
    and "d \<in> set (accepting ds) \<Longrightarrow> \<exists>bh. accepted_hashes ds = [bh] \<and> accepts P ce st d bh"
proof -
  have mem: "h \<in> set (accepted_hashes ds) \<longleftrightarrow> (\<exists>d\<in>set (accepting ds). sd_block_hash d = Some h)" for h
    by (auto simp: accepted_hashes_def List.map_filter_def image_iff)
  have acc: "\<exists>d. accepts P ce st d h" if "h \<in> set (accepted_hashes ds)" for h
  proof -
    from that obtain d where d: "d \<in> set (accepting ds)" "sd_block_hash d = Some h" using mem by blast
    from accepting_accepts [OF m d(1)] d(2) show ?thesis by (auto simp: accepts_def)
  qed
  have one: "h = h'" if "h \<in> set (accepted_hashes ds)" "h' \<in> set (accepted_hashes ds)" for h h'
    using acc [OF that(1)] acc [OF that(2)] agree by blast
  have "distinct (accepted_hashes ds)" by (simp add: accepted_hashes_def)
  then show le: "length (accepted_hashes ds) \<le> 1"
    using one card_le_Suc0_iff_eq [of "set (accepted_hashes ds)"] by (simp add: distinct_card)
  show "\<exists>bh. accepted_hashes ds = [bh] \<and> accepts P ce st d bh" if d: "d \<in> set (accepting ds)"
  proof -
    obtain bh where bh: "accepts P ce st d bh" using accepting_accepts [OF m d] by blast
    then have "bh \<in> set (accepted_hashes ds)" using mem d by (auto simp: accepts_def)
    then have "accepted_hashes ds = [bh]" using le by (cases "accepted_hashes ds") auto
    then show ?thesis using bh by blast
  qed
qed

text \<open>The state a ceremony decides on.\<close>

definition fresh_envelope :: "ceremony \<Rightarrow> node \<Rightarrow> envelope" where
  "fresh_envelope ce leader = new_envelope (ce_height ce) (ce_epoch ce) (gr_seed (ce_grid ce)) (gr_leader (ce_grid ce))
     (nd_chain_id leader) (ceremony_validators ce) (Some (ce_counting ce))"

lemma seed_proposals_good:
  "(\<And>n. env_good P e0 V (env n)) \<Longrightarrow> env_good P e0 V (seed_proposals P ce env targets n)"
  unfolding seed_proposals_def
proof (induction targets arbitrary: env)
  case (Cons t targets)
  have "env_good P e0 V ((case t of (target, sp) \<Rightarrow> if target \<in> set (ce_seats ce) then env(target := fst (add_proposal P sp (env target))) else env) m)" for m
    using Cons.prems env_good_add(1) by (cases t) auto
  then show ?case using Cons.IH by simp
qed simp

lemma run_ceremony_decides:
  assumes run: "run_ceremony P ce beh limit = Inr r" and names: "nodes_named ce"
  obtains leader st n where "ce_nodes ce (gr_leader (ce_grid ce)) = Some leader" "ct_ok P (fresh_envelope ce leader) st"
    "decide P ce st n = Inr r"
proof -
  obtain leader where leader: "ce_nodes ce (gr_leader (ce_grid ce)) = Some leader"
    using run by (auto simp: run_ceremony_def split: option.splits)
  have all: "list_all (\<lambda>n. ce_nodes ce n \<noteq> None) (ce_seats ce)"
    using run leader by (auto simp: run_ceremony_def split: if_splits)
  let ?e0 = "fresh_envelope ce leader"
  obtain targets where "beh leader (ce_grid ce) (ceremony_meta_of ce) limit (ce_workload ce) = Inr targets"
    using run leader all by (auto simp: run_ceremony_def)
  define st0 where "st0 = \<lparr>ct_env = seed_proposals P ce (\<lambda>_. ?e0) targets, ct_validated = Map.empty, ct_reacted = {}\<rparr>"
  obtain st1 edges st2 where st: "react_all P ce st0 = Inr st1" "grid_edges (ce_grid ce) = Inr edges"
    "run_rounds P ce edges (nat (ce_rounds ce)) st1 = Inr st2" "decide P ce st2 (2 * length edges * nat (ce_rounds ce)) = Inr r"
    using run leader all \<open>beh _ _ _ _ _ = _\<close> by (auto simp: run_ceremony_def Let_def st0_def fresh_envelope_def)
  have "env_good P ?e0 Map.empty ?e0" by (simp add: env_good_def fresh_envelope_def votes_match_def votes_def new_envelope_def env_ok_def)
  then have "ct_ok P ?e0 st0" by (simp add: ct_ok_def st0_def seed_proposals_good)
  from react_all_ok [OF this st(1) names all] have "ct_ok P ?e0 st1" .
  from run_rounds_ok [OF st(3) this names all] show thesis using that leader st(4) by blast
qed

text \<open>C4: A ceremony never splits. If the quorum is more than half of the counting seats, the
  branch the source marks as impossible is: whatever the leader sends to whom, whatever the
  workload says and however many rounds are run, no two seats accept different blocks.\<close>

theorem ceremony_never_splits:
  assumes "run_ceremony P ce beh limit = Inr r" "nodes_named ce"
    and "finite (ce_counting ce)" "int (card (ce_counting ce)) < 2 * ce_quorum ce"
  shows "cr_reason r \<noteq> SplitAcceptance \<and> length (accepted_hashes (cr_decisions r)) \<le> 1"
proof -
  obtain leader st n where st: "ct_ok P (fresh_envelope ce leader) st" "decide P ce st n = Inr r"
    by (rule run_ceremony_decides [OF assms(1,2)])
  then obtain ds where ds: "mapR (decide_seat P ce st) (gr_seats (ce_grid ce)) = Inr ds" by (auto simp: decide_def)
  have c: "en_counting (fresh_envelope ce leader) = ce_counting ce" by (simp add: fresh_envelope_def new_envelope_def)
  have le: "length (accepted_hashes ds) \<le> 1"
    by (rule accepted_hashes_single(1) [OF ds]) (rule accepts_agree [OF st(1)], use assms(3,4) c in simp_all)
  have "cr_decisions r = ds \<and> cr_reason r \<noteq> SplitAcceptance"
    using st(2) le by (auto simp: decide_def ds Let_def split: if_splits option.splits)
  then show ?thesis using le by simp
qed

section \<open>The certificate of a finalised ceremony\<close>

lemma merged_dict:
  defines "put \<equiv> \<lambda>d :: (string \<times> 'a) list. \<lambda>(k, v). AList.update k v d"
  shows "distinct (keys d) \<Longrightarrow> distinct (keys (foldl put d kvs))" "set (foldl put d kvs) \<subseteq> set d \<union> set kvs"
    "set (keys (foldl put d kvs)) = set (keys d) \<union> fst ` set kvs"
proof (induction kvs arbitrary: d)
  case (Cons kv kvs)
  obtain k v where kv: "kv = (k, v)" by fastforce
  have p: "put d kv = AList.update k v d" for d by (simp add: put_def kv)
  { case 1 then show ?case using Cons(1) p distinct_keys_update by (metis foldl_Cons) }
  { case 2 show ?case using Cons(2) [of "AList.update k v d"] set_update_subset [of k v d] p kv by auto }
  { case 3 show ?case using Cons(3) [of "AList.update k v d"] p kv by (auto simp: set_keys) }
qed simp_all

lemma merged_by_node:
  fixes g :: "decision \<Rightarrow> attestation list" and ds :: "decision list"
  defines "as \<equiv> merged (map (\<lambda>d. by_node (g d)) ds)"
  shows "distinct (map at_node_id as)" "set as \<subseteq> (\<Union>d\<in>set ds. set (g d))" "d \<in> set ds \<Longrightarrow> at_node_id ` set (g d) \<subseteq> at_node_id ` set as"
proof -
  let ?kvs = "concat (map (\<lambda>d. by_node (g d)) ds)"
  let ?d = "foldl (\<lambda>d (k, v). AList.update k v d) [] ?kvs"
  note M = merged_dict [of "[]" ?kvs]
  have kvs: "(k, a) \<in> set ?kvs \<longleftrightarrow> k = at_node_id a \<and> (\<exists>d\<in>set ds. a \<in> set (g d))" for k a
    by (auto simp: by_node_def)
  have sub: "set ?d \<subseteq> set ?kvs" using M(2) by simp
  have as: "as = map snd ?d" by (simp add: as_def merged_def)
  have ids: "map at_node_id as = keys ?d"
  proof -
    have "at_node_id (snd p) = fst p" if "p \<in> set ?d" for p using sub that kvs [of "fst p" "snd p"] by auto
    then show ?thesis by (simp add: as keys_def)
  qed
  then show "distinct (map at_node_id as)" using M(1) by simp
  show "set as \<subseteq> (\<Union>d\<in>set ds. set (g d))"
  proof
    fix a assume "a \<in> set as"
    then obtain p where "p \<in> set ?d" "a = snd p" unfolding as by auto
    then have "(fst p, a) \<in> set ?kvs" using sub by auto
    then show "a \<in> (\<Union>d\<in>set ds. set (g d))" using kvs [of "fst p" a] by blast
  qed
  show "at_node_id ` set (g d) \<subseteq> at_node_id ` set as" if "d \<in> set ds"
  proof -
    have "set (map at_node_id as) = fst ` set ?kvs" unfolding ids using M(3) by simp
    then have "at_node_id ` set as = fst ` set ?kvs" by simp
    moreover have "at_node_id a \<in> fst ` set ?kvs" if "a \<in> set (g d)" for a
      using kvs [of "at_node_id a" a] \<open>d \<in> set ds\<close> that by (metis fst_conv image_eqI)
    ultimately show ?thesis by auto
  qed
qed

lemma with_cert_simps [simp]:
  "block_hash P (with_cert c b) = block_hash P b" "block_cert (with_cert c b) = Some c" "block_chain_id (with_cert c b) = block_chain_id b"
  by (cases b; simp)+

lemma fresh_frame:
  assumes "env_frame e = env_frame (fresh_envelope ce leader)"
  shows "en_height e = ce_height ce" "en_epoch e = ce_epoch ce" "en_seed e = gr_seed (ce_grid ce)" "en_chain e = nd_chain_id leader"
    "en_validators e = ceremony_validators ce" "en_counting e = ce_counting ce"
  using assms by (simp_all add: env_frame_def fresh_envelope_def new_envelope_def)

text \<open>The certificate of a ceremony: the union of what the accepting seats hold.\<close>

lemma union_cert_verifies:
  fixes env :: "string \<Rightarrow> envelope" and bh :: string and ds :: "decision list"
  defines "atts \<equiv> merged (map (\<lambda>d. by_node (attestations_for (env (sd_node d)) bh)) ds)"
    and "shad \<equiv> merged (map (\<lambda>d. by_node (shadows_for (env (sd_node d)) bh)) ds)"
  assumes ok: "\<And>m. env_ok P (env m)"
    and att: "\<And>m a. a \<in> set (attestations_for (env m) bh) \<union> set (shadows_for (env m) bh) \<Longrightarrow> att_for P vs cid height bh epoch seed a"
    and first: "d \<in> set ds" "quorum \<le> int (length (attestations_for (env (sd_node d)) bh))"
  shows "cert_verify P quorum (Some bh) (Some vs) None g (cert_build P cid height bh epoch seed atts shad) = Inr ()"
proof (rule cert_build_verifies)
  fix a assume "a \<in> set atts \<union> set shad"
  then have "\<exists>m. a \<in> set (attestations_for (env m) bh) \<union> set (shadows_for (env m) bh)"
    using merged_by_node(2) [where g = "\<lambda>d. attestations_for (env (sd_node d)) bh" and ds = ds]
      merged_by_node(2) [where g = "\<lambda>d. shadows_for (env (sd_node d)) bh" and ds = ds]
    unfolding atts_def shad_def by blast
  then show "att_for P vs cid height bh epoch seed a" using att by blast
next
  show "distinct (map at_node_id atts)" "distinct (map at_node_id shad)" unfolding atts_def shad_def by (rule merged_by_node(1))+
  let ?first = "attestations_for (env (sd_node d)) bh"
  have "at_node_id ` set ?first \<subseteq> at_node_id ` set atts"
    using merged_by_node(3) [where g = "\<lambda>d. attestations_for (env (sd_node d)) bh" and d = d and ds = ds] first(1)
    unfolding atts_def by blast
  then have "card (at_node_id ` set ?first) \<le> card (at_node_id ` set atts)" by (intro card_mono) simp_all
  moreover have "card (at_node_id ` set ?first) = length ?first"
    using distinct_card [OF env_att_for(2) [OF ok]] by simp
  moreover have "card (at_node_id ` set atts) \<le> length atts" using card_length [of "map at_node_id atts"] by simp
  ultimately show "quorum \<le> int (length atts)" using first(2) by linarith
qed

text \<open>C5: A finalised ceremony carries a certificate that verifies. With a majority quorum, the
  block of a finalised result holds the returned certificate, the certificate names that block,
  and \<open>verify\<close> accepts it at the ceremony's quorum against the keys of the seated nodes, shadows
  included.\<close>

theorem finalised_certificate_verifies:
  assumes run: "run_ceremony P ce beh limit = Inr r" "nodes_named ce"
    and q: "finite (ce_counting ce)" "int (card (ce_counting ce)) < 2 * ce_quorum ce"
    and fin: "cr_finalised r"
  shows "\<exists>c b. cr_cert r = Some c \<and> cr_block r = Some b \<and> block_cert b = Some c \<and> qc_block_hash c = block_hash P b
    \<and> cert_verify P (ce_quorum ce) (Some (block_hash P b)) (Some (ceremony_validators ce)) None g c = Inr ()"
proof -
  obtain leader st n where st: "ct_ok P (fresh_envelope ce leader) st" "decide P ce st n = Inr r"
    by (rule run_ceremony_decides [OF run])
  then obtain ds where ds: "mapR (decide_seat P ce st) (gr_seats (ce_grid ce)) = Inr ds" by (auto simp: decide_def)
  let ?acc = "accepting ds"
  have ne: "?acc \<noteq> []" using st(2) fin by (auto simp: decide_def ds Let_def split: if_splits)
  have c: "en_counting (fresh_envelope ce leader) = ce_counting ce" by (simp add: fresh_envelope_def new_envelope_def)
  have agree: "\<And>d d' bh bh'. accepts P ce st d bh \<Longrightarrow> accepts P ce st d' bh' \<Longrightarrow> bh = bh'"
    by (rule accepts_agree [OF st(1)]) (use q c in simp_all)
  obtain bh where bh: "accepted_hashes ds = [bh]" "accepts P ce st (hd ?acc) bh"
  proof -
    have "\<exists>bh. accepted_hashes ds = [bh] \<and> accepts P ce st (hd ?acc) bh"
      by (rule accepted_hashes_single(2) [OF ds]) (use agree ne in auto)
    then show thesis using that by blast
  qed
  then obtain sp where sp: "sole_proposal (ct_env st (sd_node (hd ?acc))) = Some sp" "bh = sp_block_hash P sp"
    and len: "ce_quorum ce \<le> int (length (attestations_for (ct_env st (sd_node (hd ?acc))) bh))"
    by (auto simp: accepts_def)
  define atts where "atts = merged (map (\<lambda>d. by_node (attestations_for (ct_env st (sd_node d)) bh)) ?acc)"
  define shad where "shad = merged (map (\<lambda>d. by_node (shadows_for (ct_env st (sd_node d)) bh)) ?acc)"
  let ?cid = "block_chain_id (sp_block sp)"
  define cert where "cert = cert_build P ?cid (ce_height ce) bh (ce_epoch ce) (gr_seed (ce_grid ce)) atts shad"
  have good: "env_ok P (ct_env st m)" "env_frame (ct_env st m) = env_frame (fresh_envelope ce leader)" for m
    using st(1) by (simp_all add: ct_ok_def env_good_def)
  have "en_proposals (ct_env st (sd_node (hd ?acc))) \<noteq> [] \<and> sp = snd (hd (en_proposals (ct_env st (sd_node (hd ?acc)))))"
    using sp(1) by (auto simp: sole_proposal_def split: list.splits)
  then have "sp \<in> snd ` set (en_proposals (ct_env st (sd_node (hd ?acc))))" by auto
  then have "proposal_admissible P (ct_env st (sd_node (hd ?acc))) sp" using good(1) by (fastforce simp: env_ok_def)
  then have cid: "?cid = nd_chain_id leader" using fresh_frame(4) [OF good(2)] by (simp add: proposal_admissible_def)
  have att: "att_for P (ceremony_validators ce) ?cid (ce_height ce) bh (ce_epoch ce) (gr_seed (ce_grid ce)) a"
    if "a \<in> set (attestations_for (ct_env st m) bh) \<union> set (shadows_for (ct_env st m) bh)" for a m
    using env_att_for(1) [OF good(1) that] fresh_frame [OF good(2)] cid by simp
  have "cert_verify P (ce_quorum ce) (Some bh) (Some (ceremony_validators ce)) None g cert = Inr ()"
    unfolding cert_def atts_def shad_def
    by (rule union_cert_verifies) (use good(1) att len ne in \<open>simp_all add: hd_in_set\<close>)
  moreover have "cr_cert r = Some cert" "cr_block r = Some (with_cert cert (sp_block sp))"
    using st(2) fin sp(1) bh(1) by (auto simp: decide_def ds Let_def cert_def atts_def shad_def split: if_splits)
  moreover have "qc_block_hash cert = bh" by (simp add: cert_def cert_build_def Let_def)
  ultimately show ?thesis using sp(2) by (simp add: sp_block_hash_def)
qed

section \<open>Liveness\<close>

definition honest_node :: "prims \<Rightarrow> ceremony \<Rightarrow> string \<Rightarrow> chain_block \<Rightarrow> string \<Rightarrow> bool" where
  "honest_node P ce chain b n = (\<exists>nd. ce_nodes ce n = Some nd \<and> nd_id nd = n \<and> nd_chain_id nd = chain
     \<and> (\<forall>m. verify_msg P (nd_public_hex nd) (Inr m) (nd_sign nd m))
     \<and> (\<exists>why. wl_validate (ce_workload ce) nd b = Inr (True, why))
     \<and> (\<exists>a. node_attest P nd (block_hash P b) (ce_height ce) (ce_epoch ce) (gr_seed (ce_grid ce)) = Inr a))"

text \<open>What an honest ceremony's envelopes hold: one proposal at most, votes for it, no faults.\<close>

definition one_block :: "prims \<Rightarrow> signed_proposal \<Rightarrow> envelope \<Rightarrow> bool" where
  "one_block P sp e = (set (en_proposals e) \<subseteq> {(sp_block_hash P sp, sp)} \<and> (\<forall>a\<in>votes e. at_block_hash a = sp_block_hash P sp) \<and> en_faults e = [])"

definition vote_item :: "ceremony \<Rightarrow> string \<Rightarrow> known_item" where
  "vote_item ce n = (if n \<in> ce_counting ce then KVote n else KShadow n)"

definition honest_state :: "prims \<Rightarrow> ceremony \<Rightarrow> node \<Rightarrow> signed_proposal \<Rightarrow> ceremony_state \<Rightarrow> bool" where
  "honest_state P ce leader sp st =
     (ct_ok P (fresh_envelope ce leader) st \<and> (\<forall>n. one_block P sp (ct_env st n)) \<and> ct_reacted st = {}
      \<and> (\<forall>n v. ct_validated st n = Some v \<longrightarrow> (\<exists>why. v = (sp_block_hash P sp, True, why)) \<and> vote_item ce n \<in> known (ct_env st n)))"

lemma one_block_proposals:
  assumes "one_block P sp e" "env_ok P e"
  shows "en_proposals e = (if KProposal (sp_block_hash P sp) \<in> known e then [(sp_block_hash P sp, sp)] else [])"
proof (cases "en_proposals e")
  case (Cons p ps)
  then have p: "p = (sp_block_hash P sp, sp)" "set ps \<subseteq> {(sp_block_hash P sp, sp)}" using assms(1) by (auto simp: one_block_def)
  have "ps = []" using assms(2) Cons p by (cases ps) (auto simp: env_ok_def)
  then show ?thesis using Cons p by simp
qed simp

lemma one_block_absorb:
  assumes "one_block P sp e" "one_block P sp other"
  shows "\<exists>e' n. env_absorb P e other = Inr (e', n) \<and> one_block P sp e'"
proof -
  have "en_faults other = []" using assms(2) by (simp add: one_block_def)
  then obtain e' n where a: "env_absorb P e other = Inr (e', n)" by (force simp: env_absorb_def)
  have "one_block P sp e'"
  proof (rule env_absorb_invariant [where I = "one_block P sp", OF a assms(1)])
    fix e x assume e: "one_block P sp e" and "x \<in> snd ` set (en_proposals other)"
    then have "x = sp" using assms(2) by (auto simp: one_block_def)
    then show "one_block P sp (fst (add_proposal P x e))"
      using e votes_add(1) [of P sp e] by (auto simp: one_block_def add_proposal_eq)
  next
    fix e x assume e: "one_block P sp e" and "x \<in> snd ` set (en_attestations other) \<union> snd ` set (en_shadow other)"
    then have "at_block_hash x = sp_block_hash P sp" using assms(2) by (auto simp: one_block_def votes_def)
    moreover have "en_proposals (fst (add_attestation P x e)) = en_proposals e" "en_faults (fst (add_attestation P x e)) = en_faults e"
      by (simp_all add: add_attestation_eq)
    ultimately show "one_block P sp (fst (add_attestation P x e))"
      using e votes_add(2) [of P x e] by (auto simp: one_block_def)
  next
    fix e fr e' b assume "fr \<in> snd ` set (en_faults other)"
    then show "one_block P sp e'" using assms(2) by (simp add: one_block_def)
  qed
  then show ?thesis using a by blast
qed

lemma admitted_known:
  assumes "env_ok P other" "env_frame e = env_frame other"
  shows "known other \<subseteq> admitted P e other"
proof -
  have "known other \<subseteq> admitted P other other"
  proof
    fix i assume "i \<in> known other"
    then consider k x where "(k, x) \<in> set (en_proposals other)" "i = KProposal k"
      | k x where "(k, x) \<in> set (en_attestations other)" "i = KVote k"
      | k x where "(k, x) \<in> set (en_shadow other)" "i = KShadow k"
      | k x where "(k, x) \<in> set (en_faults other)" "i = KFault k"
      unfolding known_def keys_def by auto
    then show "i \<in> admitted P other other"
    proof cases
      case 1
      then have "i \<in> proposal_items P other x" using assms(1) by (auto simp: env_ok_def proposal_items_def)
      then show ?thesis using 1(1) unfolding admitted_def by force
    next
      case 2
      then have "i \<in> attestation_items P other x" using assms(1) by (auto simp: env_ok_def attestation_items_def)
      then show ?thesis using 2(1) unfolding admitted_def by force
    next
      case 3
      then have "i \<in> attestation_items P other x" using assms(1) by (auto simp: env_ok_def attestation_items_def)
      then show ?thesis using 3(1) unfolding admitted_def by force
    next
      case 4
      then have "i \<in> fault_items P other x" using assms(1) by (auto simp: env_ok_def fault_items_def)
      then show ?thesis using 4(1) unfolding admitted_def by force
    qed
  qed
  then show ?thesis using frame_admitted [OF assms(2)] by simp
qed

text \<open>An exchange carries everything known one hop along every edge.\<close>

lemma exchange_honest:
  assumes st: "honest_state P ce leader sp st"
  shows "\<exists>st'. exchange P edges st = Inr st' \<and> honest_state P ce leader sp st'
    \<and> (\<forall>n. known (ct_env st n) \<subseteq> known (ct_env st' n)) \<and> ct_validated st' = ct_validated st
    \<and> (\<forall>(a, b)\<in>set edges. known (ct_env st b) \<subseteq> known (ct_env st' a) \<and> known (ct_env st a) \<subseteq> known (ct_env st' b))"
proof -
  let ?snap = "ct_env st" and ?V = "ct_validated st" and ?e0 = "fresh_envelope ce leader"
  have snap: "env_good P ?e0 ?V (?snap n)" "one_block P sp (?snap n)" for n
    using st by (simp_all add: honest_state_def ct_ok_def)
  have "\<exists>env'. foldR (exchange_edge P ?snap) env edges = Inr env' \<and> (\<forall>n. env_good P ?e0 ?V (env' n) \<and> one_block P sp (env' n))
      \<and> (\<forall>n. known (env n) \<subseteq> known (env' n)) \<and> (\<forall>(a, b)\<in>set edges. known (?snap b) \<subseteq> known (env' a) \<and> known (?snap a) \<subseteq> known (env' b))"
    if "\<And>n. env_good P ?e0 ?V (env n)" "\<And>n. one_block P sp (env n)" for env
    using that
  proof (induction edges arbitrary: env)
    case (Cons edge edges)
    obtain a b where ab: "edge = (a, b)" by fastforce
    obtain ea na where ea: "env_absorb P (env a) (?snap b) = Inr (ea, na)" "one_block P sp ea"
      using one_block_absorb Cons.prems(2) snap(2) by blast
    have "one_block P sp ((env(a := ea)) b)" using ea(2) Cons.prems(2) by simp
    then obtain eb nb where eb: "env_absorb P ((env(a := ea)) b) (?snap a) = Inr (eb, nb)" "one_block P sp eb"
      using one_block_absorb snap(2) by blast
    let ?env = "env(a := ea, b := eb)"
    have ga: "env_good P ?e0 ?V ea" by (rule env_good_absorb [OF ea(1)]) (use Cons.prems(1) snap(1) in auto)
    have gb: "env_good P ?e0 ?V eb" by (rule env_good_absorb [OF eb(1)]) (use Cons.prems(1) snap(1) ga in auto)
    have frame: "env_frame (?snap n) = env_frame ?e0" "env_ok P (?snap n)" "env_frame (env n) = env_frame ?e0" for n
      using snap(1) Cons.prems(1) by (simp_all add: env_good_def)
    have ka: "known (env a) \<subseteq> known ea" "known (?snap b) \<subseteq> known ea"
      using env_absorb_known(2) [OF ea(1)] admitted_known [of P "?snap b" "env a"] frame by auto
    have "env_frame ((env(a := ea)) b) = env_frame (?snap a)" using frame ga by (simp add: env_good_def)
    then have kb: "known ((env(a := ea)) b) \<subseteq> known eb" "known (?snap a) \<subseteq> known eb"
      using env_absorb_known(2) [OF eb(1)] admitted_known [of P "?snap a" "(env(a := ea)) b"] frame by auto
    have mono: "known (env n) \<subseteq> known (?env n)" for n using ka(1) kb(1) by (auto split: if_splits)
    have here: "known (?snap b) \<subseteq> known (?env a)" "known (?snap a) \<subseteq> known (?env b)" using ka kb by (auto split: if_splits)
    have P1: "env_good P ?e0 ?V (?env n)" and P2: "one_block P sp (?env n)" for n using ga gb ea(2) eb(2) Cons.prems by simp_all
    from Cons.IH [where env = ?env, OF P1 P2] obtain env' where env': "foldR (exchange_edge P ?snap) ?env edges = Inr env'"
      "\<forall>n. env_good P ?e0 ?V (env' n) \<and> one_block P sp (env' n)" "\<forall>n. known (?env n) \<subseteq> known (env' n)"
      "\<forall>(a, b)\<in>set edges. known (?snap b) \<subseteq> known (env' a) \<and> known (?snap a) \<subseteq> known (env' b)"
      by blast
    have "exchange_edge P ?snap env edge = Inr ?env" using ea(1) eb(1) by (simp add: exchange_edge_def ab)
    moreover have "known (env n) \<subseteq> known (env' n)" for n using mono env'(3) by blast
    moreover have "known (?snap b) \<subseteq> known (env' a)" "known (?snap a) \<subseteq> known (env' b)" using here env'(3) by blast+
    ultimately show ?case using env'(1,2,4) ab by auto
  qed auto
  from this [of ?snap] snap obtain env' where env': "foldR (exchange_edge P ?snap) ?snap edges = Inr env'"
    "\<forall>n. env_good P ?e0 ?V (env' n) \<and> one_block P sp (env' n)" "\<forall>n. known (?snap n) \<subseteq> known (env' n)"
    "\<forall>(a, b)\<in>set edges. known (?snap b) \<subseteq> known (env' a) \<and> known (?snap a) \<subseteq> known (env' b)"
    by auto
  have "honest_state P ce leader sp (st\<lparr>ct_env := env'\<rparr>)"
    using st env'(2,3) by (fastforce simp: honest_state_def ct_ok_def)
  then show ?thesis using env' by (intro exI [of _ "st\<lparr>ct_env := env'\<rparr>"]) (simp add: exchange_def)
qed

lemma honest_known:
  assumes "honest_state P ce leader sp st"
  shows "env_ok P (ct_env st n)" "env_frame (ct_env st n) = env_frame (fresh_envelope ce leader)" "one_block P sp (ct_env st n)"
    "n \<notin> ct_reacted st" "equivocation_evidence (ct_env st n) = None"
    "sole_proposal (ct_env st n) = (if KProposal (sp_block_hash P sp) \<in> known (ct_env st n) then Some sp else None)"
proof -
  show ok: "env_ok P (ct_env st n)" and "env_frame (ct_env st n) = env_frame (fresh_envelope ce leader)"
    and one: "one_block P sp (ct_env st n)" and "n \<notin> ct_reacted st"
    using assms by (simp_all add: honest_state_def ct_ok_def env_good_def)
  note p = one_block_proposals [OF one ok]
  show "equivocation_evidence (ct_env st n) = None" using p by (simp add: equivocation_evidence_def split: if_splits)
  show "sole_proposal (ct_env st n) = (if KProposal (sp_block_hash P sp) \<in> known (ct_env st n) then Some sp else None)"
    using p by (simp add: sole_proposal_def del: known_iff)
qed

lemma react_honest:
  assumes st: "honest_state P ce leader sp st" and n: "n \<in> set (ce_seats ce)"
    and h: "honest_node P ce (nd_chain_id leader) (sp_block sp) n" and names: "nodes_named ce"
  shows "\<exists>st'. react P ce st n = Inr st' \<and> honest_state P ce leader sp st'
    \<and> (\<forall>m. known (ct_env st m) \<subseteq> known (ct_env st' m)) \<and> (\<forall>m. ct_validated st m \<noteq> None \<longrightarrow> ct_validated st' m \<noteq> None)
    \<and> (KProposal (sp_block_hash P sp) \<in> known (ct_env st n) \<longrightarrow> ct_validated st' n \<noteq> None)"
proof -
  let ?h = "sp_block_hash P sp" and ?e = "ct_env st n"
  note K = honest_known [OF st, of n]
  obtain nd why a where nd: "ce_nodes ce n = Some nd" "nd_id nd = n" "nd_chain_id nd = nd_chain_id leader"
    "\<And>m. verify_msg P (nd_public_hex nd) (Inr m) (nd_sign nd m)" "wl_validate (ce_workload ce) nd (sp_block sp) = Inr (True, why)"
    "node_attest P nd ?h (ce_height ce) (ce_epoch ce) (gr_seed (ce_grid ce)) = Inr a"
    using h by (auto simp: honest_node_def sp_block_hash_def)
  show ?thesis
  proof (cases "KProposal ?h \<in> known ?e \<and> ct_validated st n = None")
    case False
    then have "react P ce st n = Inr st" using K(4-6) nd(1) by (auto simp: react_def Let_def)
    then show ?thesis using st False by auto
  next
    case True
    let ?e' = "fst (add_attestation P a ?e)"
    let ?st = "st\<lparr>ct_validated := (ct_validated st)(n \<mapsto> (?h, True, why)), ct_env := (ct_env st)(n := ?e')\<rparr>"
    have r: "react P ce st n = Inr ?st" using True K(4-6) nd by (simp add: react_def Let_def)
    have "node_attest P nd ?h (en_height ?e) (en_epoch ?e) (en_seed ?e) = Inr a" "nd_chain_id nd = en_chain ?e"
      "en_validators ?e (nd_id nd) = Some (nd_public_hex nd)"
      using nd n fresh_frame [OF K(2)] by (simp_all add: ceremony_validators_def)
    note na = node_attest_admissible [OF this nd(4)]
    have a: "attestation_admissible P ?e a" "at_node_id a = n" "at_block_hash a = ?h" using na nd(2) by simp_all
    have kn: "known ?e' = known ?e \<union> {vote_item ce n}"
      using a fresh_frame(6) [OF K(2)] by (simp add: add_attestation_known attestation_items_def vote_item_def)
    have one: "one_block P sp ?e'"
      using K(3) votes_add(2) [of P a ?e] a(3) by (auto simp: one_block_def add_attestation_eq)
    have ct: "ct_ok P (fresh_envelope ce leader) ?st"
      by (rule react_ok [OF _ r n names nd(1)]) (use st in \<open>simp add: honest_state_def\<close>)
    have "honest_state P ce leader sp ?st"
      unfolding honest_state_def
    proof (intro conjI allI impI)
      fix m v assume v: "ct_validated ?st m = Some v"
      have "(\<exists>why. v = (?h, True, why)) \<and> vote_item ce m \<in> known (ct_env ?st m)"
      proof (cases "m = n")
        case True
        then show ?thesis using v kn by auto
      next
        case False
        then have "ct_validated st m = Some v" using v by simp
        then have "(\<exists>why. v = (?h, True, why)) \<and> vote_item ce m \<in> known (ct_env st m)"
          using st unfolding honest_state_def by blast
        then show ?thesis using False by simp
      qed
      then show "\<exists>why. v = (?h, True, why)" "vote_item ce m \<in> known (ct_env ?st m)" by blast+
    qed (use ct one st in \<open>auto simp: honest_state_def\<close>)
    then show ?thesis using r kn by auto
  qed
qed

lemma react_all_honest:
  assumes st: "honest_state P ce leader sp st" and names: "nodes_named ce"
    and h: "\<forall>n\<in>set (ce_seats ce). honest_node P ce (nd_chain_id leader) (sp_block sp) n"
  shows "\<exists>st'. react_all P ce st = Inr st' \<and> honest_state P ce leader sp st'
    \<and> (\<forall>m. known (ct_env st m) \<subseteq> known (ct_env st' m))
    \<and> (\<forall>n\<in>set (ce_seats ce). KProposal (sp_block_hash P sp) \<in> known (ct_env st n) \<longrightarrow> ct_validated st' n \<noteq> None)
    \<and> (\<forall>m. ct_validated st m \<noteq> None \<longrightarrow> ct_validated st' m \<noteq> None)"
proof -
  have "\<exists>st'. foldR (react P ce) st ns = Inr st' \<and> honest_state P ce leader sp st'
    \<and> (\<forall>m. known (ct_env st m) \<subseteq> known (ct_env st' m))
    \<and> (\<forall>n\<in>set ns. KProposal (sp_block_hash P sp) \<in> known (ct_env st n) \<longrightarrow> ct_validated st' n \<noteq> None)
    \<and> (\<forall>m. ct_validated st m \<noteq> None \<longrightarrow> ct_validated st' m \<noteq> None)" if "set ns \<subseteq> set (ce_seats ce)" for ns
    using st that
  proof (induction ns arbitrary: st)
    case (Cons n ns)
    then have n: "n \<in> set (ce_seats ce)" by simp
    obtain st1 where s1: "react P ce st n = Inr st1" "honest_state P ce leader sp st1" "\<forall>m. known (ct_env st m) \<subseteq> known (ct_env st1 m)"
      "\<forall>m. ct_validated st m \<noteq> None \<longrightarrow> ct_validated st1 m \<noteq> None" "KProposal (sp_block_hash P sp) \<in> known (ct_env st n) \<longrightarrow> ct_validated st1 n \<noteq> None"
      using react_honest [OF Cons.prems(1) n bspec [OF h n] names] by blast
    obtain st2 where s2: "foldR (react P ce) st1 ns = Inr st2" "honest_state P ce leader sp st2" "\<forall>m. known (ct_env st1 m) \<subseteq> known (ct_env st2 m)"
      "\<forall>n\<in>set ns. KProposal (sp_block_hash P sp) \<in> known (ct_env st1 n) \<longrightarrow> ct_validated st2 n \<noteq> None"
      "\<forall>m. ct_validated st1 m \<noteq> None \<longrightarrow> ct_validated st2 m \<noteq> None"
      using Cons.IH [OF s1(2)] Cons.prems(2) by auto
    have "foldR (react P ce) st (n # ns) = Inr st2" using s1(1) s2(1) by simp
    moreover have "\<forall>m. known (ct_env st m) \<subseteq> known (ct_env st2 m)" using s1(3) s2(3) by blast
    moreover have "\<forall>m\<in>set (n # ns). KProposal (sp_block_hash P sp) \<in> known (ct_env st m) \<longrightarrow> ct_validated st2 m \<noteq> None"
      using s1(3,5) s2(4,5) by (metis set_ConsD subsetD)
    ultimately show ?case using s2(2) s1(4) s2(5) by blast
  qed auto
  then show ?thesis unfolding react_all_def by blast
qed

text \<open>How far news has travelled: the proposal as far as \<open>t\<close> steps from the leader, and a vote
  over as many steps as are left after it was cast.\<close>

definition spread :: "prims \<Rightarrow> ceremony \<Rightarrow> signed_proposal \<Rightarrow> (string \<times> string list) list \<Rightarrow> nat \<Rightarrow> ceremony_state \<Rightarrow> bool" where
  "spread P ce sp adj t st =
     ((\<forall>k n. walk adj k (gr_leader (ce_grid ce)) n \<longrightarrow> k \<le> t \<longrightarrow> KProposal (sp_block_hash P sp) \<in> known (ct_env st n) \<and> ct_validated st n \<noteq> None)
      \<and> (\<forall>k j m n. walk adj k (gr_leader (ce_grid ce)) m \<longrightarrow> walk adj j m n \<longrightarrow> k + j \<le> t \<longrightarrow> vote_item ce m \<in> known (ct_env st n)))"

definition covers :: "(string \<times> string list) list \<Rightarrow> (string \<times> string) list \<Rightarrow> bool" where
  "covers adj edges = (\<forall>b ns c. map_of adj b = Some ns \<longrightarrow> c \<in> set ns \<longrightarrow> (b, c) \<in> set edges \<or> (c, b) \<in> set edges)"

lemma walk_last: "walk adj (Suc d) a c \<Longrightarrow> \<exists>b ns. walk adj d a b \<and> map_of adj b = Some ns \<and> c \<in> set ns"
  by (erule walk.cases) auto

lemma walk_keys:
  assumes "closed_graph adj" "walk adj d a b" "a \<in> set (keys adj)"
  shows "b \<in> set (keys adj)"
  using assms(2,3) by (induction rule: walk.induct) (use assms(1) in \<open>auto simp: closed_graph_def\<close>)

lemma round_spreads:
  assumes st: "honest_state P ce leader sp st" and s: "spread P ce sp adj t st" and names: "nodes_named ce"
    and h: "\<forall>n\<in>set (ce_seats ce). honest_node P ce (nd_chain_id leader) (sp_block sp) n"
    and adj: "closed_graph adj" "set (keys adj) = set (ce_seats ce)" "gr_leader (ce_grid ce) \<in> set (keys adj)"
    and edges: "covers adj edges"
  shows "\<exists>st1 st2. exchange P edges st = Inr st1 \<and> react_all P ce st1 = Inr st2 \<and> honest_state P ce leader sp st2
    \<and> spread P ce sp adj (Suc t) st2"
proof -
  let ?l = "gr_leader (ce_grid ce)" and ?p = "KProposal (sp_block_hash P sp)"
  obtain st1 where s1: "exchange P edges st = Inr st1" "honest_state P ce leader sp st1" "\<And>n. known (ct_env st n) \<subseteq> known (ct_env st1 n)"
    "ct_validated st1 = ct_validated st"
    "\<And>a b. (a, b) \<in> set edges \<Longrightarrow> known (ct_env st b) \<subseteq> known (ct_env st1 a) \<and> known (ct_env st a) \<subseteq> known (ct_env st1 b)"
    using exchange_honest [OF st, of edges] by blast
  obtain st2 where s2: "react_all P ce st1 = Inr st2" "honest_state P ce leader sp st2" "\<And>m. known (ct_env st1 m) \<subseteq> known (ct_env st2 m)"
    "\<And>n. n \<in> set (ce_seats ce) \<Longrightarrow> ?p \<in> known (ct_env st1 n) \<Longrightarrow> ct_validated st2 n \<noteq> None"
    using react_all_honest [OF s1(2) names h] by blast
  have hop: "known (ct_env st b) \<subseteq> known (ct_env st1 c)" if "map_of adj b = Some ns" "c \<in> set ns" for b ns c
    using edges that s1(5) unfolding covers_def by blast
  have news: "?p \<in> known (ct_env st1 n)" if w: "walk adj k ?l n" "k \<le> Suc t" for k n
  proof (cases k)
    case 0
    then show ?thesis using that s s1(3) unfolding spread_def by blast
  next
    case (Suc k')
    then obtain b ns where b: "walk adj k' ?l b" "map_of adj b = Some ns" "n \<in> set ns"
      using walk_last [of adj k' ?l n] w(1) by blast
    have "?p \<in> known (ct_env st b)" using s b(1) that(2) Suc unfolding spread_def by auto
    then show ?thesis using hop [OF b(2,3)] by blast
  qed
  have valid: "ct_validated st2 n \<noteq> None" if "walk adj k ?l n" "k \<le> Suc t" for k n
    using s2(4) news [OF that] walk_keys [OF adj(1) that(1) adj(3)] adj(2) by blast
  have vote: "vote_item ce m \<in> known (ct_env st2 n)" if w: "walk adj k ?l m" "walk adj j m n" "k + j \<le> Suc t" for k j m n
  proof (cases j)
    case 0
    then have "m = n" using that(2) by (auto elim: walk.cases)
    moreover have "ct_validated st2 m \<noteq> None" using valid that(1,3) by (metis add_leE)
    ultimately show ?thesis using s2(2) by (auto simp: honest_state_def)
  next
    case (Suc j')
    then obtain b ns where b: "walk adj j' m b" "map_of adj b = Some ns" "n \<in> set ns"
      using walk_last [of adj j' m n] w(2) by blast
    have "vote_item ce m \<in> known (ct_env st b)" using s b(1) that(1,3) Suc unfolding spread_def by auto
    then show ?thesis using hop [OF b(2,3)] s2(3) by blast
  qed
  have "spread P ce sp adj (Suc t) st2" using news valid vote s2(3) unfolding spread_def by blast
  then show ?thesis using s1(1) s2(1,2) by blast
qed

lemma rounds_spread:
  assumes "honest_state P ce leader sp st" "spread P ce sp adj t st" and names: "nodes_named ce"
    and h: "\<forall>n\<in>set (ce_seats ce). honest_node P ce (nd_chain_id leader) (sp_block sp) n"
    and adj: "closed_graph adj" "set (keys adj) = set (ce_seats ce)" "gr_leader (ce_grid ce) \<in> set (keys adj)"
    and edges: "covers adj edges"
  shows "\<exists>st'. run_rounds P ce edges k st = Inr st' \<and> honest_state P ce leader sp st' \<and> spread P ce sp adj (t + k) st'"
  using assms(1,2)
proof (induction k arbitrary: st t)
  case (Suc k)
  obtain st1 st2 where "exchange P edges st = Inr st1" "react_all P ce st1 = Inr st2" "honest_state P ce leader sp st2"
    "spread P ce sp adj (Suc t) st2"
    using round_spreads [OF Suc.prems names h adj edges] by blast
  then show ?case using Suc.IH [of st2 "Suc t"] by auto
qed auto

lemma seed_honest:
  assumes "\<forall>(t, x)\<in>set targets. x = sp" "proposal_admissible P e0 sp" "env_good P e0 Map.empty e0"
    and "\<forall>n. env_good P e0 Map.empty (env n) \<and> one_block P sp (env n)"
  shows "(\<forall>n. env_good P e0 Map.empty (seed_proposals P ce env targets n) \<and> one_block P sp (seed_proposals P ce env targets n)
      \<and> known (env n) \<subseteq> known (seed_proposals P ce env targets n))
    \<and> (\<forall>(t, x)\<in>set targets. t \<in> set (ce_seats ce) \<longrightarrow> KProposal (sp_block_hash P sp) \<in> known (seed_proposals P ce env targets t))"
  using assms(1,4)
proof (induction targets arbitrary: env)
  case (Cons p targets)
  obtain t where p: "p = (t, sp)" using Cons.prems(1) by (cases p) auto
  let ?env = "if t \<in> set (ce_seats ce) then env(t := fst (add_proposal P sp (env t))) else env"
  have step: "seed_proposals P ce env (p # targets) = seed_proposals P ce ?env targets" by (simp add: seed_proposals_def p)
  have one: "one_block P sp (fst (add_proposal P sp (env t)))"
    using Cons.prems(2) votes_add(1) [of P sp "env t"] by (auto simp: one_block_def add_proposal_eq)
  have kn: "known (fst (add_proposal P sp (env t))) = known (env t) \<union> {KProposal (sp_block_hash P sp)}"
  proof -
    have "env_frame (env t) = env_frame e0" using Cons.prems(2) by (simp add: env_good_def)
    then have "proposal_admissible P (env t) sp" using assms(2) by (auto simp: env_frame_def proposal_admissible_def)
    then show ?thesis by (simp add: add_proposal_known proposal_items_def)
  qed
  have all: "\<forall>n. env_good P e0 Map.empty (?env n) \<and> one_block P sp (?env n)"
    using Cons.prems(2) one env_good_add(1) by (auto simp: env_good_add(1))
  have "\<forall>(t, x)\<in>set targets. x = sp" using Cons.prems(1) by simp
  note ih = Cons.IH [OF this all]
  have mono: "known (env n) \<subseteq> known (?env n)" for n using kn by auto
  have here: "t \<in> set (ce_seats ce) \<Longrightarrow> KProposal (sp_block_hash P sp) \<in> known (?env t)" using kn by auto
  show ?case unfolding step
  proof (intro conjI allI ballI)
    fix n
    show "env_good P e0 Map.empty (seed_proposals P ce ?env targets n)" "one_block P sp (seed_proposals P ce ?env targets n)" using ih by blast+
    show "known (env n) \<subseteq> known (seed_proposals P ce ?env targets n)" using ih mono by blast
  next
    fix q assume q: "q \<in> set (p # targets)"
    have hd: "KProposal (sp_block_hash P sp) \<in> known (seed_proposals P ce ?env targets t)" if "t \<in> set (ce_seats ce)"
      using here [OF that] ih by blast
    show "case q of (t, x) \<Rightarrow> t \<in> set (ce_seats ce) \<longrightarrow> KProposal (sp_block_hash P sp) \<in> known (seed_proposals P ce ?env targets t)"
    proof (cases "q = p")
      case True
      then show ?thesis using hd p by (simp del: known_iff)
    next
      case False
      then have "q \<in> set targets" using q by simp
      then show ?thesis by (rule bspec [OF conjunct2 [OF ih]])
    qed
  qed
qed (auto simp: seed_proposals_def)

lemma first_spread:
  assumes "honest_state P ce leader sp st" "KProposal (sp_block_hash P sp) \<in> known (ct_env st (gr_leader (ce_grid ce)))"
    and "ct_validated st (gr_leader (ce_grid ce)) \<noteq> None"
  shows "spread P ce sp adj 0 st"
proof -
  have "n = a" if "walk adj 0 a n" for a n using that by (auto elim: walk.cases)
  moreover have "vote_item ce (gr_leader (ce_grid ce)) \<in> known (ct_env st (gr_leader (ce_grid ce)))"
    using assms(1,3) unfolding honest_state_def by blast
  ultimately show ?thesis using assms(2,3) unfolding spread_def by (metis add_is_0 le_zero_eq)
qed

lemma honest_decision:
  assumes st: "honest_state P ce leader sp st" and s: "spread P ce sp adj t st" and n: "n \<in> set ids"
    and walks: "\<forall>a\<in>set ids. \<forall>b\<in>set ids. \<exists>e\<le>d. walk adj e a b" and l: "gr_leader (ce_grid ce) \<in> set ids" and t: "2 * d \<le> t"
    and q: "ce_quorum ce \<le> int (card (ce_counting ce \<inter> set ids))"
  shows "\<exists>dn. decide_seat P ce st (n, seat) = Inr dn \<and> sd_accept dn \<and> sd_node dn = n \<and> sd_block_hash dn = Some (sp_block_hash P sp)"
    and "sole_proposal (ct_env st n) = Some sp"
proof -
  let ?e = "ct_env st n" and ?h = "sp_block_hash P sp"
  note K = honest_known [OF st, of n]
  obtain k where k: "k \<le> d" "walk adj k (gr_leader (ce_grid ce)) n" using walks n l by blast
  then have p: "KProposal ?h \<in> known ?e" "ct_validated st n \<noteq> None" using s t unfolding spread_def by (metis le_trans mult_2 trans_le_add1)+
  then show sole: "sole_proposal ?e = Some sp" using K(6) by (simp del: known_iff)
  obtain why where v: "ct_validated st n = Some (?h, True, why)" using p(2) st unfolding honest_state_def by blast
  have faults: "substantiated_equivocation P ?e = Inr None" using K(3) by (simp add: substantiated_equivocation_def one_block_def)
  have "ce_counting ce \<inter> set ids \<subseteq> set (keys (en_attestations ?e))"
  proof
    fix m assume m: "m \<in> ce_counting ce \<inter> set ids"
    obtain i where i: "i \<le> d" "walk adj i (gr_leader (ce_grid ce)) m" using walks l m by blast
    obtain j where j: "j \<le> d" "walk adj j m n" using walks n m by blast
    have "i + j \<le> t" using i(1) j(1) t by linarith
    then have "vote_item ce m \<in> known ?e" using s i(2) j(2) unfolding spread_def by blast
    then show "m \<in> set (keys (en_attestations ?e))" using m by (simp add: vote_item_def)
  qed
  then have "card (ce_counting ce \<inter> set ids) \<le> card (set (keys (en_attestations ?e)))" by (intro card_mono) simp_all
  moreover have "card (set (keys (en_attestations ?e))) \<le> length (en_attestations ?e)" using card_length [of "keys (en_attestations ?e)"] by (simp add: keys_def)
  moreover have "attestations_for ?e ?h = map snd (en_attestations ?e)"
    using K(3) by (auto simp: attestations_for_def one_block_def votes_def filter_id_conv)
  ultimately have "\<not> int (length (attestations_for ?e ?h)) < ce_quorum ce" using q by simp
  then show "\<exists>dn. decide_seat P ce st (n, seat) = Inr dn \<and> sd_accept dn \<and> sd_node dn = n \<and> sd_block_hash dn = Some ?h"
    using faults sole v by (simp add: decide_seat_def Let_def)
qed

lemma remdups_replicate: "remdups (replicate m x) = (if m = 0 then [] else [x])"
  by (induction m) auto

lemma decide_unanimous:
  assumes all: "\<forall>(n, seat)\<in>set (gr_seats (ce_grid ce)).
      (\<exists>dn. decide_seat P ce st (n, seat) = Inr dn \<and> sd_accept dn \<and> sd_node dn = n \<and> sd_block_hash dn = Some (sp_block_hash P sp))
      \<and> sole_proposal (ct_env st n) = Some sp"
    and ne: "gr_seats (ce_grid ce) \<noteq> []" and q: "ce_quorum ce \<le> int (length (gr_seats (ce_grid ce)))"
  shows "\<exists>r c. decide P ce st msgs = Inr r \<and> cr_finalised r \<and> cr_cert r = Some c \<and> cr_block r = Some (with_cert c (sp_block sp))
    \<and> length (accepting (cr_decisions r)) = length (gr_seats (ce_grid ce))"
proof -
  let ?seats = "gr_seats (ce_grid ce)" and ?h = "sp_block_hash P sp"
  have "\<exists>ds. mapR (decide_seat P ce st) ss = Inr ds \<and> map sd_node ds = map fst ss
      \<and> (\<forall>d\<in>set ds. sd_accept d \<and> sd_block_hash d = Some ?h)" if "set ss \<subseteq> set ?seats" for ss
    using that
  proof (induction ss)
    case (Cons s ss)
    obtain n seat where s: "s = (n, seat)" by (cases s)
    then obtain dn where "decide_seat P ce st s = Inr dn" "sd_accept dn" "sd_node dn = n" "sd_block_hash dn = Some ?h"
      using all Cons.prems by auto
    then show ?case using Cons s by auto
  qed simp
  then obtain ds where ds: "mapR (decide_seat P ce st) ?seats = Inr ds" "map sd_node ds = map fst ?seats"
    "\<forall>d\<in>set ds. sd_accept d \<and> sd_block_hash d = Some ?h" by blast
  have acc: "accepting ds = ds" using ds(3) by (simp add: accepting_def filter_id_conv)
  have len: "length ds = length ?seats" using ds(2) by (metis length_map)
  have ne': "ds \<noteq> []" using len ne by auto
  have "List.map_filter sd_block_hash ds = replicate (length ds) ?h"
    using ds(3) by (induction ds) (auto simp: map_filter_simps)
  then have "accepted_hashes ds = remdups (replicate (length ds) ?h)" unfolding accepted_hashes_def acc by simp
  then have hs: "accepted_hashes ds = [?h]" using ne' by (simp add: remdups_replicate)
  obtain s where "s \<in> set ?seats" "sd_node (hd ds) = fst s"
    using ds(2) ne' by (metis (no_types, lifting) hd_in_set hd_map list.map_disc_iff)
  then have "sole_proposal (ct_env st (sd_node (hd ds))) = Some sp" using all by (cases s) auto
  then show ?thesis using ds(1) hs acc ne' len q by (simp add: decide_def Let_def)
qed

lemma honest_targets:
  assumes "t \<in> set (foldl (\<lambda>t nid. AList.update nid sp t) d ns)" "\<forall>(n, x)\<in>set d. x = sp"
  shows "snd t = sp"
  using assms
proof (induction ns arbitrary: d)
  case (Cons n ns)
  have "\<forall>(m, x)\<in>set (AList.update n sp d). x = sp" using Cons.prems(2) set_update_subset [of n sp d] by auto
  then show ?case using Cons.IH Cons.prems(1) by simp
qed auto

lemma targets_keep: "k \<in> set (keys d) \<Longrightarrow> k \<in> set (keys (foldl (\<lambda>t nid. AList.update nid sp t) d ns))"
  by (induction ns arbitrary: d) (simp_all add: set_keys)

lemma honest_run:
  assumes g: "grid_seat P ids width seed exclude standing counting_standing = Inr g" "distinct ids" "0 < width"
    and ce: "new_ceremony g nodes params height epoch None quorum wl counting gid = Inr ce"
    and leader: "nodes (gr_leader g) = Some leader" "wl_build wl leader (ceremony_meta_of ce) limit = Inr b"
      "node_propose P leader b epoch (gr_seed g) 0 None = Inr sp" "block_chain_id b = nd_chain_id leader" "block_height b = height"
    and nodes: "\<forall>n\<in>set ids. honest_node P ce (nd_chain_id leader) b n"
    and q: "ce_quorum ce \<le> int (card (ce_counting ce \<inter> set ids))"
  shows "\<exists>r c. run_ceremony P ce (honest_leader P) limit = Inr r \<and> cr_finalised r \<and> cr_cert r = Some c
    \<and> cr_block r = Some (with_cert c b) \<and> length (accepting (cr_decisions r)) = length ids"
proof -
  from grid_seat_connected [OF g] obtain adj d where adj: "grid_adjacency g = Inr adj" "keys adj = keys (gr_seats g)"
    "grid_diameter g = Inr (int d)" "\<forall>a\<in>set ids. \<forall>b\<in>set ids. \<exists>e\<le>d. walk adj e a b"
    and seats: "distinct (keys (gr_seats g))" "set (keys (gr_seats g)) = set ids" by blast
  obtain rest where rest: "seated_as (nat width) rest g" by (rule grid_seat_seated [OF g])
  obtain es where es: "grid_edges g = Inr es" by (rule grid_edges_total [OF rest])
  note A = adjacency_of [OF rest es]
  have adj_eq: "map (\<lambda>n. (n, adjacent es n)) (keys (gr_seats g)) = adj" using A(1) adj(1) by simp
  note A' = A [unfolded adj_eq]
  have closed: "closed_graph adj" by (rule A'(4))
  have cov: "covers adj es"
    unfolding covers_def
  proof (intro allI impI)
    fix b ns c assume b: "map_of adj b = Some ns" and c: "c \<in> set ns"
    then have "b \<in> set (keys adj)" by (auto simp: set_keys)
    then have "ns = adjacent es b" using A'(5) b by simp
    then show "(b, c) \<in> set es \<or> (c, b) \<in> set es" using c by (auto simp: adjacent_def)
  qed
  have F: "ce_grid ce = g" "ce_nodes ce = nodes" "ce_height ce = height" "ce_epoch ce = epoch" "ce_workload ce = wl" "ce_rounds ce = max 2 (2 * int d)"
    using ce adj(3) by (auto simp: new_ceremony_def Let_def)
  have ids: "set (ce_seats ce) = set ids" using seats(2) by (simp add: ce_seats_def F)
  have l: "gr_leader g \<in> set ids" using seated_keys [OF rest] seats(2) by auto
  let ?e0 = "fresh_envelope ce leader" and ?h = "sp_block_hash P sp"
  have h: "\<forall>n\<in>set (ce_seats ce). honest_node P ce (nd_chain_id leader) b n" using nodes ids by simp
  have named: "nodes_named ce" using h by (auto simp: nodes_named_def honest_node_def)
  have some: "list_all (\<lambda>n. ce_nodes ce n \<noteq> None) (ce_seats ce)" using h by (auto simp: list_all_iff honest_node_def)
  have hl: "nd_id leader = gr_leader g" "\<And>m. verify_msg P (nd_public_hex leader) (Inr m) (nd_sign leader m)"
    using nodes l leader(1) by (auto simp: honest_node_def F)
  have e0: "en_epoch ?e0 = epoch" "en_seed ?e0 = gr_seed g" "en_chain ?e0 = nd_chain_id leader" "en_height ?e0 = height"
    "en_leader ?e0 = gr_leader g" "en_validators ?e0 = ceremony_validators ce"
    by (simp_all add: fresh_envelope_def new_envelope_def F)
  have "ceremony_validators ce (nd_id leader) = Some (nd_public_hex leader)" using l ids leader(1) by (simp add: ceremony_validators_def hl F)
  then have sp: "proposal_admissible P ?e0 sp" "?h = block_hash P b" "sp_block sp = b"
    using node_propose_admissible [of P leader b ?e0 0 None sp] leader(3-5) hl e0 by simp_all
  define targets where "targets = foldl (\<lambda>t nid. AList.update nid sp t) [(nd_id leader, sp)] (row_one g)"
  have beh: "honest_leader P leader (ce_grid ce) (ceremony_meta_of ce) limit (ce_workload ce) = Inr targets"
    using leader(2,3) by (simp add: honest_leader_def F targets_def) (simp add: ceremony_meta_of_def F)
  have tsp: "\<forall>(t, x)\<in>set targets. x = sp" using honest_targets [of _ sp "[(nd_id leader, sp)]" "row_one g"] by (fastforce simp: targets_def)
  have "gr_leader g \<in> set (keys targets)" using targets_keep [of "gr_leader g" "[(nd_id leader, sp)]" sp "row_one g"] by (simp add: targets_def hl)
  then have lt: "(gr_leader g, sp) \<in> set targets" using tsp by (fastforce simp: keys_def)
  define st0 where "st0 = \<lparr>ct_env = seed_proposals P ce (\<lambda>_. ?e0) targets, ct_validated = Map.empty, ct_reacted = {}\<rparr>"
  have fresh: "env_good P ?e0 Map.empty ?e0" "one_block P sp ?e0"
    by (simp_all add: env_good_def one_block_def fresh_envelope_def votes_match_def votes_def new_envelope_def env_ok_def)
  have S: "(\<forall>n. env_good P ?e0 Map.empty (ct_env st0 n) \<and> one_block P sp (ct_env st0 n))
      \<and> (\<forall>(t, x)\<in>set targets. t \<in> set (ce_seats ce) \<longrightarrow> KProposal ?h \<in> known (ct_env st0 t))"
    using seed_honest [OF tsp sp(1) fresh(1), where env = "\<lambda>_. ?e0" and ce = ce] fresh unfolding st0_def by auto
  then have st0: "honest_state P ce leader sp st0" by (simp add: honest_state_def ct_ok_def st0_def)
  have lp: "KProposal ?h \<in> known (ct_env st0 (gr_leader g))" using S lt l ids by blast
  obtain st1 where st1: "react_all P ce st0 = Inr st1" "honest_state P ce leader sp st1" "KProposal ?h \<in> known (ct_env st1 (gr_leader g))"
    "ct_validated st1 (gr_leader g) \<noteq> None"
    using react_all_honest [OF st0 named h [folded sp(3)]] lp l ids by blast
  have sp1: "spread P ce sp adj 0 st1" by (rule first_spread [OF st1(2)]) (use st1(3,4) F in auto)
  obtain st2 where st2: "run_rounds P ce es (nat (ce_rounds ce)) st1 = Inr st2" "honest_state P ce leader sp st2"
    "spread P ce sp adj (nat (ce_rounds ce)) st2"
    using rounds_spread [OF st1(2) sp1 named h [folded sp(3)] closed _ _ cov, of "nat (ce_rounds ce)"] adj(2) seats(2) ids l F by auto
  have t: "2 * d \<le> nat (ce_rounds ce)" by (simp add: F)
  have dec1: "(\<exists>dn. decide_seat P ce st2 (n, seat) = Inr dn \<and> sd_accept dn \<and> sd_node dn = n \<and> sd_block_hash dn = Some ?h)
      \<and> sole_proposal (ct_env st2 n) = Some sp" if "(n, seat) \<in> set (gr_seats (ce_grid ce))" for n seat
  proof -
    have n: "n \<in> set ids" using that seats(2) by (force simp: keys_def F)
    have "gr_leader (ce_grid ce) \<in> set ids" using l by (simp add: F)
    note dec = honest_decision [OF st2(2,3) n adj(4) this t q]
    show ?thesis using dec(1) dec(2) by blast
  qed
  have dec: "\<forall>(n, seat)\<in>set (gr_seats (ce_grid ce)).
      (\<exists>dn. decide_seat P ce st2 (n, seat) = Inr dn \<and> sd_accept dn \<and> sd_node dn = n \<and> sd_block_hash dn = Some (sp_block_hash P sp))
      \<and> sole_proposal (ct_env st2 n) = Some sp"
    using dec1 by blast
  have len: "length (gr_seats g) = length ids" using seats distinct_card [OF seats(1)] distinct_card [OF g(2)] by (simp add: keys_def)
  have "card (ce_counting ce \<inter> set ids) \<le> length ids" by (meson List.finite_set Int_lower2 card_length card_mono le_trans)
  then have q': "ce_quorum ce \<le> int (length (gr_seats (ce_grid ce)))" using q len by (simp add: F)
  have "gr_seats (ce_grid ce) \<noteq> []" using l seats(2) by (auto simp: F keys_def)
  from decide_unanimous [OF dec this q', where msgs = "2 * length es * nat (ce_rounds ce)"]
  show ?thesis using st1(1) st2(1) beh some leader(1) es len sp(3)
    by (simp add: run_ceremony_def F Let_def st0_def fresh_envelope_def)
qed

text \<open>C6: An honest ceremony finalises. Seat distinct nodes on a grid, give the ceremony its default
  number of rounds, twice the diameter, and a quorum the counting seats can reach. If the leader
  builds and signs a block for this chain and height, and every seated node finds it valid and can
  sign, then the run returns: it is finalised, with that block and a certificate, and every seat
  accepts. Twice the diameter is enough because the proposal reaches each seat within one diameter
  and each seat's vote any other within one more.\<close>

theorem honest_ceremony_finalises:
  assumes g: "grid_seat P ids width seed exclude standing counting_standing = Inr g" "distinct ids" "0 < width"
    and ce: "new_ceremony g nodes params height epoch None quorum wl counting gid = Inr ce"
    and leader: "nodes (gr_leader g) = Some leader" "wl_build wl leader (ceremony_meta_of ce) limit = Inr b"
      "node_propose P leader b epoch (gr_seed g) 0 None = Inr sp" "block_chain_id b = nd_chain_id leader" "block_height b = height"
    and nodes: "\<forall>n\<in>set ids. honest_node P ce (nd_chain_id leader) b n"
    and q: "ce_quorum ce \<le> int (card (ce_counting ce \<inter> set ids))"
  shows "\<exists>r c. run_ceremony P ce (honest_leader P) limit = Inr r \<and> cr_finalised r \<and> cr_cert r = Some c
    \<and> cr_block r = Some (with_cert c b) \<and> length (accepting (cr_decisions r)) = length ids"
  using assms by (rule honest_run)

section \<open>Instances\<close>

definition demo_node :: "string \<Rightarrow> node" where
  "demo_node n = \<lparr>nd_id = n, nd_public_hex = ''00'', nd_chain_id = ''c'', nd_sign = (\<lambda>_. ''00'')\<rparr>"

definition demo_workload :: workload where
  "demo_workload = \<lparr>wl_build = (\<lambda>_ _ _. Inr (sp_block (demo_proposal ''g''))), wl_validate = (\<lambda>_ _. Inr (True, []))\<rparr>"

definition demo_grid :: grid where
  "demo_grid = mk_grid ''a'' [[''d''], [''e''], [''g'']] 1 ''s''"

text \<open>Four seats in single file, all counting, quorum three.\<close>

lemma demo_ceremony:
  obtains ce where "new_ceremony demo_grid (\<lambda>n. Some (demo_node n)) DEMO 1 1 None (Some 3) demo_workload None ''g'' = Inr ce"
    "ce_seats ce = demo_ids" "ce_counting ce = set demo_ids" "ce_quorum ce = 3" "ce_nodes ce = (\<lambda>n. Some (demo_node n))"
    "ce_height ce = 1" "ce_epoch ce = 1" "gr_seed (ce_grid ce) = ''s''" "ce_workload ce = demo_workload" "nodes_named ce"
proof -
  obtain d where d: "grid_diameter demo_grid = Inr d"
    using grid_seat_connected [OF demo_seated demo_ids_ok] unfolding demo_grid_def by blast
  have ks: "keys (gr_seats demo_grid) = demo_ids"
    by (simp add: demo_grid_def mk_grid_def row_seats_def put_seat_def demo_ids_def)
  have "gr_seed demo_grid = ''s''" by (simp add: demo_grid_def mk_grid_def)
  then show thesis using d ks by (intro that) (auto simp: new_ceremony_def Let_def ce_seats_def nodes_named_def demo_node_def)
qed

lemma demo_attests: "length h < 100 \<Longrightarrow> \<exists>a. node_attest len_prims (demo_node n) h 1 1 ''s'' = Inr a"
  by (simp add: node_attest_def att_message_def demo_node_def h_bytes_def h_preimage_def chain_domain_def len_prefixed_def str_int_def str_nat.simps)

lemma demo_ceremony_run:
  assumes "new_ceremony demo_grid (\<lambda>n. Some (demo_node n)) DEMO 1 1 None (Some 3) demo_workload None ''g'' = Inr ce"
    and "ce_counting ce = set demo_ids" "ce_quorum ce = 3" "ce_nodes ce = (\<lambda>n. Some (demo_node n))" "ce_height ce = 1" "ce_epoch ce = 1"
    "gr_seed (ce_grid ce) = ''s''" "ce_workload ce = demo_workload"
  shows "wl_build demo_workload (demo_node ''a'') (ceremony_meta_of ce) None = Inr (sp_block (demo_proposal ''g''))"
    and "\<exists>sp. node_propose len_prims (demo_node ''a'') (sp_block (demo_proposal ''g'')) 1 (gr_seed demo_grid) 0 None = Inr sp"
    and "block_chain_id (sp_block (demo_proposal ''g'')) = nd_chain_id (demo_node ''a'')" "block_height (sp_block (demo_proposal ''g'')) = 1"
    and "\<forall>n\<in>set demo_ids. honest_node len_prims ce (nd_chain_id (demo_node ''a'')) (sp_block (demo_proposal ''g'')) n"
    and "ce_quorum ce \<le> int (card (ce_counting ce \<inter> set demo_ids))"
proof -
  have h: "block_hash len_prims (sp_block (demo_proposal ''g'')) = ''cb:'' @ hex_of (be_bytes 32 112)"
    using demo_hash [of "''g''"] by (simp add: demo_proposal_def)
  show "wl_build demo_workload (demo_node ''a'') (ceremony_meta_of ce) None = Inr (sp_block (demo_proposal ''g''))" by (simp add: demo_workload_def)
  show "block_chain_id (sp_block (demo_proposal ''g'')) = nd_chain_id (demo_node ''a'')" "block_height (sp_block (demo_proposal ''g'')) = 1"
    by (simp_all add: demo_proposal_def demo_header_def demo_node_def)
  show "\<exists>sp. node_propose len_prims (demo_node ''a'') (sp_block (demo_proposal ''g'')) 1 (gr_seed demo_grid) 0 None = Inr sp"
    unfolding node_propose_def h
    by (simp add: sp_message_def h_bytes_def h_preimage_def chain_domain_def len_prefixed_def str_int_def str_nat.simps
        demo_proposal_def demo_header_def demo_node_def demo_grid_def mk_grid_def)
  have att: "\<exists>a. node_attest len_prims (demo_node n) (block_hash len_prims (sp_block (demo_proposal ''g''))) 1 1 ''s'' = Inr a" for n
    unfolding h by (rule demo_attests) simp
  have key: "nd_public_hex (demo_node n) = ''00''" "nd_sign (demo_node n) m = ''00''" "nd_id (demo_node n) = n" "nd_chain_id (demo_node n) = ''c''" for n m
    by (simp_all add: demo_node_def)
  have wl: "wl_validate demo_workload nd b = Inr (True, [])" for nd b by (simp add: demo_workload_def)
  show "\<forall>n\<in>set demo_ids. honest_node len_prims ce (nd_chain_id (demo_node ''a'')) (sp_block (demo_proposal ''g'')) n"
    using assms(4-8) att by (simp add: honest_node_def key wl len_verify)
  show "ce_quorum ce \<le> int (card (ce_counting ce \<inter> set demo_ids))" using assms(2,3) by (simp add: demo_ids_def)
qed

theorem honest_ceremony_finalises_witness:
  "\<exists>ce r. new_ceremony demo_grid (\<lambda>n. Some (demo_node n)) DEMO 1 1 None (Some 3) demo_workload None ''g'' = Inr ce
    \<and> run_ceremony len_prims ce (honest_leader len_prims) None = Inr r \<and> cr_finalised r \<and> length (accepting (cr_decisions r)) = 4"
proof -
  obtain ce where ce: "new_ceremony demo_grid (\<lambda>n. Some (demo_node n)) DEMO 1 1 None (Some 3) demo_workload None ''g'' = Inr ce"
    "ce_counting ce = set demo_ids" "ce_quorum ce = 3" "ce_nodes ce = (\<lambda>n. Some (demo_node n))" "ce_height ce = 1" "ce_epoch ce = 1"
    "gr_seed (ce_grid ce) = ''s''" "ce_workload ce = demo_workload"
    by (rule demo_ceremony) blast
  note R = demo_ceremony_run [OF ce]
  obtain sp where sp: "node_propose len_prims (demo_node ''a'') (sp_block (demo_proposal ''g'')) 1 (gr_seed demo_grid) 0 None = Inr sp"
    using R(2) by blast
  have "Some (demo_node (gr_leader demo_grid)) = Some (demo_node ''a'')" by (simp add: demo_grid_def mk_grid_def)
  from honest_ceremony_finalises [OF demo_seated [folded demo_grid_def] demo_ids_ok ce(1) this R(1) sp R(3-6)]
  show ?thesis using ce(1) by (auto simp: demo_ids_def)
qed

lemma demo_finalises:
  obtains ce r where "run_ceremony len_prims ce (honest_leader len_prims) None = Inr r" "nodes_named ce" "finite (ce_counting ce)"
    "int (card (ce_counting ce)) < 2 * ce_quorum ce" "cr_finalised r" "ce_quorum ce = 3"
proof -
  obtain ce where ce: "new_ceremony demo_grid (\<lambda>n. Some (demo_node n)) DEMO 1 1 None (Some 3) demo_workload None ''g'' = Inr ce"
    "ce_counting ce = set demo_ids" "ce_quorum ce = 3" "ce_nodes ce = (\<lambda>n. Some (demo_node n))" "ce_height ce = 1" "ce_epoch ce = 1"
    "gr_seed (ce_grid ce) = ''s''" "ce_workload ce = demo_workload" and named: "nodes_named ce"
    by (rule demo_ceremony) blast
  note R = demo_ceremony_run [OF ce]
  obtain sp where sp: "node_propose len_prims (demo_node ''a'') (sp_block (demo_proposal ''g'')) 1 (gr_seed demo_grid) 0 None = Inr sp"
    using R(2) by blast
  have "Some (demo_node (gr_leader demo_grid)) = Some (demo_node ''a'')" by (simp add: demo_grid_def mk_grid_def)
  from honest_run [OF demo_seated [folded demo_grid_def] demo_ids_ok ce(1) this R(1) sp R(3-6)]
  obtain r where r: "run_ceremony len_prims ce (honest_leader len_prims) None = Inr r" "cr_finalised r" by blast
  show thesis by (rule that [OF r(1) named _ _ r(2) ce(3)]) (use ce(2,3) in \<open>simp_all add: demo_ids_def\<close>)
qed

theorem ceremony_never_splits_witness:
  "\<exists>ce r. run_ceremony len_prims ce (honest_leader len_prims) None = Inr r \<and> cr_finalised r \<and> length (accepted_hashes (cr_decisions r)) \<le> 1"
  by (rule demo_finalises) (metis ceremony_never_splits)

theorem finalised_certificate_verifies_witness:
  "\<exists>ce r c b. run_ceremony len_prims ce (honest_leader len_prims) None = Inr r \<and> cr_cert r = Some c \<and> cr_block r = Some b
    \<and> cert_verify len_prims 3 (Some (block_hash len_prims b)) (Some (ceremony_validators ce)) None [] c = Inr ()"
  by (rule demo_finalises) (metis finalised_certificate_verifies)

end
