(* ===== verification/SeatNode.thy ===== *)
theory SeatNode
  imports Ceremony
begin

text \<open>
  One node's seat in one view of one height, driven by messages: \<open>Seat\<close> of \<open>chain/net/seat.py\<close>.

  One definition per method, on the record of its attributes; \<open>react\<close> also returns the attestation
  it signed, which the source leaves in the envelope, so that a run can say what was signed. A
  frame from a peer is a list of statements with \<open>None\<close> for an item of the wrong type; a header
  that lacks a field is such an item. Where the class defines a method twice (\<open>why_not\<close>, \<open>roll\<close>)
  the later definition is the one Python keeps and the one modelled.
\<close>

section \<open>The state of a seat\<close>

record proposal_header =
  hd_leader_id :: string
  hd_public_hex :: string
  hd_epoch :: int
  hd_grid_seed :: string
  hd_signature :: string
  hd_height :: int
  hd_block_hash :: string
  hd_view :: int
  hd_view_cert :: "view_cert option"

definition header_of :: "prims \<Rightarrow> signed_proposal \<Rightarrow> proposal_header" where
  "header_of P sp = \<lparr>hd_leader_id = sp_leader_id sp, hd_public_hex = sp_public_hex sp, hd_epoch = sp_epoch sp,
     hd_grid_seed = sp_grid_seed sp, hd_signature = sp_signature sp, hd_height = sp_height sp,
     hd_block_hash = sp_block_hash P sp, hd_view = sp_view sp, hd_view_cert = sp_view_cert sp\<rparr>"

definition proposal_with :: "proposal_header \<Rightarrow> chain_block \<Rightarrow> signed_proposal" where
  "proposal_with h b = SignedProposal b (hd_leader_id h) (hd_public_hex h) (hd_epoch h) (hd_grid_seed h) (hd_signature h)
     (hd_view h) (hd_view_cert h)"

record frame =
  fm_proposals :: "proposal_header option list"
  fm_attestations :: "attestation option list"
  fm_faults :: "fault_report option list"
  fm_viewchanges :: "view_change option list"

datatype seat_refusal = WrongView int int | ChangeRefused view_refusal

record seat =
  st_node :: node
  st_grid :: grid
  st_workload :: workload
  st_epoch :: int
  st_height :: int
  st_quorum :: int
  st_grid_id :: string
  st_chain :: string
  st_env :: envelope
  st_blocks :: "(string \<times> chain_block) list"
  st_pending :: "(string \<times> proposal_header) list"
  st_signed_height :: int
  st_reported :: "string set"
  st_lazy :: bool
  st_validated :: "(string \<times> bool \<times> string) option"
  st_reacted :: bool
  st_view :: int
  st_locked :: "(int \<times> string) option"
  st_changes :: "(string \<times> view_change) list"
  st_refusal :: "seat_refusal option"

definition new_seat ::
    "node \<Rightarrow> grid \<Rightarrow> workload \<Rightarrow> int \<Rightarrow> int \<Rightarrow> (string \<rightharpoonup> string) \<Rightarrow> string set option \<Rightarrow> string \<Rightarrow> string option \<Rightarrow> int option
      \<Rightarrow> bool \<Rightarrow> int \<Rightarrow> (int \<times> string) option \<Rightarrow> seat" where
  "new_seat nd g wl epoch quorum validators counting grid_id chain height lazy view lock =
     (let h = (case height of None \<Rightarrow> epoch | Some x \<Rightarrow> x);
          cid = (case chain of None \<Rightarrow> nd_chain_id nd | Some c \<Rightarrow> if c = [] then nd_chain_id nd else c)
      in \<lparr>st_node = nd, st_grid = g, st_workload = wl, st_epoch = epoch, st_height = h, st_quorum = quorum, st_grid_id = grid_id,
          st_chain = cid, st_env = new_envelope h epoch (gr_seed g) (gr_leader g) cid validators counting,
          st_blocks = [], st_pending = [], st_signed_height = 0, st_reported = {}, st_lazy = lazy, st_validated = None,
          st_reacted = False, st_view = view, st_locked = lock, st_changes = [], st_refusal = None\<rparr>)"

definition is_leader :: "seat \<Rightarrow> bool" where
  "is_leader s = (gr_leader (st_grid s) = nd_id (st_node s))"

section \<open>Proposing and receiving\<close>

definition seat_adopt :: "prims \<Rightarrow> chain_block \<Rightarrow> int \<Rightarrow> view_cert option \<Rightarrow> seat \<Rightarrow> exn + (seat \<times> signed_proposal)" where
  "seat_adopt P b view cert s =
     bindR (node_propose P (st_node s) b (st_epoch s) (gr_seed (st_grid s)) view cert) (\<lambda>sp.
       Inr (s\<lparr>st_blocks := AList.update (sp_block_hash P sp) b (st_blocks s),
              st_env := fst (add_proposal P sp (st_env s))\<rparr>, sp))"

definition seat_propose ::
    "prims \<Rightarrow> ceremony_meta \<Rightarrow> int option \<Rightarrow> int \<Rightarrow> view_cert option \<Rightarrow> seat \<Rightarrow> exn + (seat \<times> signed_proposal)" where
  "seat_propose P meta limit view cert s =
     bindR (wl_build (st_workload s) (st_node s) meta limit) (\<lambda>b. seat_adopt P b view cert s)"

definition offer_block :: "prims \<Rightarrow> chain_block \<Rightarrow> seat \<Rightarrow> seat \<times> bool" where
  "offer_block P b s =
     (let digest = block_hash P b in
      case map_of (st_pending s) digest of None \<Rightarrow> (s, False)
      | Some h \<Rightarrow>
          if digest \<in> set (keys (st_blocks s)) then (s, False)
          else let (e, ok) = add_proposal P (proposal_with h b) (st_env s) in
            if \<not> ok then (s, False)
            else (s\<lparr>st_env := e, st_blocks := AList.update digest b (st_blocks s), st_pending := AList.delete digest (st_pending s)\<rparr>, True))"

definition take_header :: "prims \<Rightarrow> proposal_header option \<Rightarrow> seat \<Rightarrow> seat \<times> nat" where
  "take_header P it s = (case it of None \<Rightarrow> (s, 0)
     | Some h \<Rightarrow>
         let digest = hd_block_hash h; e = st_env s in
         if digest \<in> set (keys (en_proposals e)) \<or> digest \<in> set (keys (st_pending s)) then (s, 0)
         else if en_validators e (hd_leader_id h) \<noteq> Some (hd_public_hex h) then (s, 0)
         else if hd_leader_id h \<noteq> en_leader e then (s, 0)
         else if hd_epoch h \<noteq> st_epoch s \<or> hd_grid_seed h \<noteq> gr_seed (st_grid s) then (s, 0)
         else if \<not> verify_msg P (hd_public_hex h)
                     (sp_message P (st_chain s) (hd_height h) digest (hd_epoch h) (hd_grid_seed h) (hd_view h)
                       (case hd_view_cert h of None \<Rightarrow> [] | Some c \<Rightarrow> view_cert_digest P c)) (hd_signature h) then (s, 0)
         else let s1 = s\<lparr>st_signed_height := max (st_signed_height s) (hd_height h)\<rparr> in
           (case map_of (st_blocks s) digest of
              Some body \<Rightarrow> (let (e', ok) = add_proposal P (proposal_with h body) e in (s1\<lparr>st_env := e'\<rparr>, if ok then 1 else 0))
            | None \<Rightarrow> (s1\<lparr>st_pending := AList.update digest h (st_pending s)\<rparr>, 1)))"

definition missing :: "seat \<Rightarrow> string list" where
  "missing s = sort (keys (st_pending s))"

section \<open>Changing view\<close>

definition seat_view_change :: "prims \<Rightarrow> seat \<Rightarrow> exn + (seat \<times> view_change)" where
  "seat_view_change P s = (case map_of (st_changes s) (nd_id (st_node s)) of Some mine \<Rightarrow> Inr (s, mine)
     | None \<Rightarrow>
         bindR (sign_view_change P (nd_sign (st_node s)) (nd_chain_id (st_node s)) (nd_id (st_node s)) (nd_public_hex (st_node s))
                  (st_height s) (st_epoch s) (st_view s) (st_locked s)) (\<lambda>mine.
           Inr (s\<lparr>st_changes := AList.update (vc_node_id mine) mine (st_changes s)\<rparr>, mine)))"

definition add_view_change :: "prims \<Rightarrow> view_change option \<Rightarrow> seat \<Rightarrow> seat \<times> nat" where
  "add_view_change P it s = (case it of None \<Rightarrow> (s, 0)
     | Some vc \<Rightarrow>
         if (vc_chain_id vc, vc_height vc, vc_epoch vc, vc_view vc) \<noteq> (st_chain s, st_height s, st_epoch s, st_view s) then (s, 0)
         else if en_validators (st_env s) (vc_node_id vc) \<noteq> Some (vc_public_hex vc) then (s, 0)
         else if vc_node_id vc \<in> set (keys (st_changes s)) \<or> \<not> vc_verify P vc then (s, 0)
         else (s\<lparr>st_changes := AList.update (vc_node_id vc) vc (st_changes s)\<rparr>, 1))"

definition seat_view_cert :: "seat \<Rightarrow> view_cert option" where
  "seat_view_cert s =
     (if int (length (st_changes s)) < st_quorum s then None
      else Some \<lparr>vt_view = st_view s,
                 vt_changes = map (\<lambda>nid. the (map_of (st_changes s) nid))
                   (let ids = sort (keys (st_changes s)) in
                    if 0 \<le> st_quorum s then take (nat (st_quorum s)) ids else take (nat (int (length ids) + st_quorum s)) ids)\<rparr>)"

definition acceptable :: "prims \<Rightarrow> signed_proposal \<Rightarrow> seat \<Rightarrow> seat_refusal + unit" where
  "acceptable P sp s =
     (if sp_view sp \<noteq> st_view s then Inl (WrongView (sp_view sp) (st_view s))
      else let propose = (case may_propose (sp_view_cert sp) (sp_block_hash P sp) (st_view s) of
                            Inl r \<Rightarrow> Inl (ChangeRefused r) | Inr _ \<Rightarrow> Inr ()) in
        if 0 < st_view s then
          (case sp_view_cert sp of None \<Rightarrow> Inl (ChangeRefused NoViewCert)
           | Some cert \<Rightarrow>
               (case view_cert_check P (st_chain s) (st_height s) (st_epoch s) (st_view s) (st_quorum s) (en_validators (st_env s)) cert of
                  Inl r \<Rightarrow> Inl (ChangeRefused r) | Inr _ \<Rightarrow> propose))
        else propose)"

definition release_or_keep :: "view_cert option \<Rightarrow> seat \<Rightarrow> seat \<times> bool" where
  "release_or_keep cert s =
     (case st_locked s of None \<Rightarrow> (s, False)
      | Some (_, bh) \<Rightarrow>
          if (case cert of None \<Rightarrow> None | Some c \<Rightarrow> required_block c) \<noteq> Some bh then (s\<lparr>st_locked := None\<rparr>, True) else (s, False))"

definition seat_absorb :: "prims \<Rightarrow> frame \<Rightarrow> seat \<Rightarrow> exn + (seat \<times> nat)" where
  "seat_absorb P f s =
     (let (s1, n1) = foldl (\<lambda>(s, n) h. let (s', k) = take_header P h s in (s', n + k)) (s, 0) (fm_proposals f);
          (e2, n2) = foldl (counted (add_attestation P)) (st_env s1, n1) (List.map_filter id (fm_attestations f))
      in bindR (foldR (counted_fault P) (e2, n2) (List.map_filter id (fm_faults f))) (\<lambda>(e3, n3).
         Inr (foldl (\<lambda>(s, n) v. let (s', k) = add_view_change P v s in (s', n + k)) (s1\<lparr>st_env := e3\<rparr>, n3) (fm_viewchanges f))))"

section \<open>Reacting\<close>

definition seat_attest :: "prims \<Rightarrow> signed_proposal \<Rightarrow> string \<Rightarrow> seat \<Rightarrow> exn + (seat \<times> attestation option)" where
  "seat_attest P sp why s =
     bindR (node_attest P (st_node s) (sp_block_hash P sp) (st_height s) (st_epoch s) (gr_seed (st_grid s))) (\<lambda>a.
       Inr (s\<lparr>st_validated := Some (sp_block_hash P sp, True, why), st_locked := Some (st_view s, sp_block_hash P sp),
              st_env := fst (add_attestation P a (st_env s))\<rparr>, Some a))"

definition seat_react :: "prims \<Rightarrow> seat \<Rightarrow> exn + (seat \<times> attestation option)" where
  "seat_react P s =
     (case (if st_reacted s then None else equivocation_evidence (st_env s)) of
        Some (a, b) \<Rightarrow>
          bindR (node_report P (st_node s) EQUIVOCATION (st_height s) (st_epoch s) ''leader proposed two blocks'' [EvProposal a, EvProposal b] None) (\<lambda>fr.
          bindR (add_fault P fr (st_env s)) (\<lambda>(e, _).
            Inr (s\<lparr>st_env := e\<lparr>en_attestations := AList.delete (nd_id (st_node s)) (en_attestations e)\<rparr>, st_reacted := True\<rparr>, None)))
      | None \<Rightarrow>
          if st_reacted s then Inr (s, None)
          else case sole_proposal (st_env s) of None \<Rightarrow> Inr (s, None)
            | Some sp \<Rightarrow>
                if st_validated s \<noteq> None then Inr (s, None)
                else case acceptable P sp s of
                  Inl why \<Rightarrow> Inr (s\<lparr>st_refusal := Some why\<rparr>, None)
                | Inr _ \<Rightarrow>
                    if st_lazy s then seat_attest P sp ''not checked'' s
                    else bindR (wl_validate (st_workload s) (st_node s) (sp_block sp)) (\<lambda>(ok, why).
                      if ok then seat_attest P sp why s
                      else
                        bindR (node_report P (st_node s) INVALID_BLOCK (st_height s) (st_epoch s) (take 120 why) [EvProposal sp] None) (\<lambda>fr.
                        bindR (add_fault P fr (st_env s)) (\<lambda>(e, _).
                          Inr (s\<lparr>st_validated := Some (sp_block_hash P sp, False, why), st_env := e, st_reacted := True\<rparr>, None)))))"

definition seat_wire :: "prims \<Rightarrow> seat \<Rightarrow> frame" where
  "seat_wire P s = \<lparr>fm_proposals = map (Some \<circ> header_of P \<circ> snd) (en_proposals (st_env s)) @ map (Some \<circ> snd) (st_pending s),
     fm_attestations = map (Some \<circ> snd) (en_attestations (st_env s)) @ map (Some \<circ> snd) (en_shadow (st_env s)),
     fm_faults = map (Some \<circ> snd) (en_faults (st_env s)), fm_viewchanges = map (Some \<circ> snd) (st_changes s)\<rparr>"

definition seat_neighbours :: "seat \<Rightarrow> exn + string list" where
  "seat_neighbours s = bindR (grid_adjacency (st_grid s)) (\<lambda>adj.
     Inr (case map_of adj (nd_id (st_node s)) of None \<Rightarrow> [] | Some ns \<Rightarrow> sort ns))"

section \<open>Deciding\<close>

definition seat_accepted :: "prims \<Rightarrow> seat \<Rightarrow> exn + (chain_block \<times> quorum_cert) option" where
  "seat_accepted P s =
     bindR (substantiated_equivocation P (st_env s)) (\<lambda>eq.
     if eq \<noteq> None then Inr None
     else case (sole_proposal (st_env s), st_validated s) of
       (Some sp, Some (_, True, _)) \<Rightarrow>
         let bh = sp_block_hash P sp; atts = attestations_for (st_env s) bh in
         if int (length atts) < st_quorum s then Inr None
         else let cert = cert_build P (st_chain s) (st_height s) bh (st_epoch s) (gr_seed (st_grid s)) atts (shadows_for (st_env s) bh) in
           (case map_of (st_blocks s) bh of None \<Rightarrow> Inl KeyError | Some b \<Rightarrow> Inr (Some (with_cert cert b, cert)))
     | _ \<Rightarrow> Inr None)"

datatype seat_reason =
    SeatSawEquivocation
  | WaitingHeader nat
  | NothingArrived
  | SeatConflict
  | WaitingBody nat
  | NotValidatedYet
  | SeatRejected string
  | SeatShort nat int

definition seat_why_not :: "prims \<Rightarrow> seat \<Rightarrow> exn + seat_reason" where
  "seat_why_not P s =
     bindR (substantiated_equivocation P (st_env s)) (\<lambda>eq.
     if eq \<noteq> None then Inr SeatSawEquivocation
     else if en_proposals (st_env s) = [] then
       Inr (if st_pending s \<noteq> [] then WaitingHeader (length (st_pending s)) else NothingArrived)
     else if 1 < length (en_proposals (st_env s)) then Inr SeatConflict
     else if st_pending s \<noteq> [] then Inr (WaitingBody (length (st_pending s)))
     else case st_validated s of None \<Rightarrow> Inr NotValidatedYet
       | Some (_, ok, why) \<Rightarrow>
           if \<not> ok then Inr (SeatRejected why)
           else case sole_proposal (st_env s) of None \<Rightarrow> Inl AttributeError
             | Some sp \<Rightarrow> Inr (SeatShort (length (attestations_for (st_env s) (sp_block_hash P sp))) (st_quorum s)))"

definition seat_roll :: "seat \<Rightarrow> attendance_roll" where
  "seat_roll s = \<lparr>ar_grid_id = st_grid_id s, ar_epoch = st_epoch s, ar_leader_id = gr_leader (st_grid s),
     ar_seated = sort (keys (gr_seats (st_grid s))), ar_attended = sort (keys (gr_seats (st_grid s)))\<rparr>"

section \<open>Catching the lazy\<close>

definition lazy_step :: "string \<Rightarrow> string \<Rightarrow> string set \<times> attestation list \<Rightarrow> attestation \<Rightarrow> string set \<times> attestation list" where
  "lazy_step bh me = (\<lambda>(seen, cs) a.
     if at_block_hash a \<noteq> bh \<or> at_node_id a = me \<or> at_node_id a \<in> seen then (seen, cs)
     else (insert (at_node_id a) seen, cs @ [a]))"

text \<open>The detail quotes the flaw, whose text is the argument \<open>show\<close>.\<close>

definition catch_lazy ::
    "prims \<Rightarrow> (string \<Rightarrow> tx_sys \<Rightarrow> int list \<Rightarrow> int \<Rightarrow> bytes \<Rightarrow> exn + bool) \<Rightarrow> chain_params \<Rightarrow> (chain_block \<Rightarrow> exn + bytes) \<Rightarrow> (flaw \<Rightarrow> string)
      \<Rightarrow> seat \<Rightarrow> exn + (seat \<times> string list)" where
  "catch_lazy P check params encode show_flaw s =
     (case st_validated s of
        Some (bh, False, _) \<Rightarrow>
          let (seen, culprits) = foldl (lazy_step bh (nd_id (st_node s))) (st_reported s, [])
                                   (map snd (en_attestations (st_env s)) @ map snd (en_shadow (st_env s)));
              s1 = s\<lparr>st_reported := seen\<rparr>
          in if culprits = [] then Inr (s1, [])
             else let block = map_of (st_blocks s) bh;
                      found = (case block of None \<Rightarrow> None
                               | Some b \<Rightarrow> self_evident_flaw P check params (Some (st_chain s)) True b)
                  in (case (found, block) of
                        (Some f, Some b) \<Rightarrow>
                          if reportable encode b then
                            bindR (node_report P (st_node s) LAZY_ATTESTATION (st_height s) (st_epoch s)
                                     (''attested to a block that contradicts itself: '' @ take 70 (show_flaw f)) (map EvAttestation culprits) (Some b)) (\<lambda>fr.
                            bindR (add_fault P fr (st_env s1)) (\<lambda>(e, _). Inr (s1\<lparr>st_env := e\<rparr>, map at_node_id culprits)))
                          else Inr (s1, map at_node_id culprits)
                      | _ \<Rightarrow> Inr (s1, map at_node_id culprits))
      | _ \<Rightarrow> Inr (s, []))"

section \<open>Runs of a seat\<close>

text \<open>The methods in any order with any arguments; \<open>note_height\<close> is the assignment of
  \<open>net/node.py\<close>. A step is labelled with what it signed.\<close>

inductive seat_step :: "prims \<Rightarrow> seat \<Rightarrow> attestation option \<Rightarrow> seat \<Rightarrow> bool" for P where
  adopt: "seat_adopt P b view cert s = Inr (s', sp) \<Longrightarrow> seat_step P s None s'"
| propose: "seat_propose P meta limit view cert s = Inr (s', sp) \<Longrightarrow> seat_step P s None s'"
| offer: "offer_block P b s = (s', ok) \<Longrightarrow> seat_step P s None s'"
| absorb: "seat_absorb P f s = Inr (s', n) \<Longrightarrow> seat_step P s None s'"
| change: "seat_view_change P s = Inr (s', vc) \<Longrightarrow> seat_step P s None s'"
| release: "release_or_keep cert s = (s', r) \<Longrightarrow> seat_step P s None s'"
| lazy: "catch_lazy P check params encode show_flaw s = Inr (s', ns) \<Longrightarrow> seat_step P s None s'"
| note_height: "seat_step P s None (s\<lparr>st_signed_height := k\<rparr>)"
| react: "seat_react P s = Inr (s', a) \<Longrightarrow> seat_step P s a s'"

inductive seat_run :: "prims \<Rightarrow> seat \<Rightarrow> attestation list \<Rightarrow> seat \<Rightarrow> bool" for P s0 where
  start: "seat_run P s0 [] s0"
| step: "seat_run P s0 as s \<Longrightarrow> seat_step P s a s' \<Longrightarrow> seat_run P s0 (as @ (case a of None \<Rightarrow> [] | Some x \<Rightarrow> [x])) s'"

inductive_cases seat_run_emptyE: "seat_run P s0 [] s"

definition blocks_ok :: "prims \<Rightarrow> seat \<Rightarrow> bool" where
  "blocks_ok P s = (\<forall>(k, b)\<in>set (st_blocks s). block_hash P b = k)"

text \<open>What no method touches, and what every method keeps. Proposals are never forgotten.\<close>

definition proposed :: "envelope \<Rightarrow> string set" where
  "proposed e = set (keys (en_proposals e))"

definition env_grows :: "prims \<Rightarrow> envelope \<Rightarrow> envelope \<Rightarrow> bool" where
  "env_grows P e e' = (env_frame e' = env_frame e \<and> (env_ok P e \<longrightarrow> env_ok P e') \<and> proposed e \<subseteq> proposed e')"

lemma env_grows_refl [simp]: "env_grows P e e"
  by (simp add: env_grows_def)

lemma env_grows_trans: "env_grows P e e' \<Longrightarrow> env_grows P e' e'' \<Longrightarrow> env_grows P e e''"
  by (auto simp: env_grows_def)

lemma add_proposal_grows: "env_grows P e (fst (add_proposal P sp e))"
  by (auto simp: env_grows_def add_proposal_ok) (auto simp: proposed_def add_proposal_eq keys_def)

lemma add_attestation_grows: "env_grows P e (fst (add_attestation P a e))"
  by (auto simp: env_grows_def add_attestation_ok) (simp add: proposed_def add_attestation_eq)

lemma add_fault_grows: "add_fault P fr e = Inr (e', b) \<Longrightarrow> env_grows P e e'"
  using add_fault_frame [of P fr e] add_fault_ok [of P fr e]
  by (auto simp: env_grows_def) (erule add_fault_cases; simp add: proposed_def)

definition seat_kept :: "prims \<Rightarrow> seat \<Rightarrow> seat \<Rightarrow> bool" where
  "seat_kept P s s' =
     (st_node s' = st_node s \<and> st_grid s' = st_grid s \<and> st_workload s' = st_workload s \<and> st_epoch s' = st_epoch s
      \<and> st_height s' = st_height s \<and> st_quorum s' = st_quorum s \<and> st_chain s' = st_chain s \<and> st_view s' = st_view s \<and> st_lazy s' = st_lazy s
      \<and> env_grows P (st_env s) (st_env s') \<and> (blocks_ok P s \<longrightarrow> blocks_ok P s'))"

lemma seat_kept_refl [simp]: "seat_kept P s s"
  by (simp add: seat_kept_def)

lemma seat_kept_trans: "seat_kept P s s' \<Longrightarrow> seat_kept P s' s'' \<Longrightarrow> seat_kept P s s''"
  using env_grows_trans by (simp add: seat_kept_def) blast

lemma seat_kept_env: "env_grows P (st_env s) e \<Longrightarrow> seat_kept P s (s\<lparr>st_env := e\<rparr>)"
  by (simp add: seat_kept_def blocks_ok_def)

lemma seat_kept_fields [simp]:
  "seat_kept P s (s'\<lparr>st_pending := p\<rparr>) = seat_kept P s s'" "seat_kept P s (s'\<lparr>st_signed_height := h\<rparr>) = seat_kept P s s'"
  "seat_kept P s (s'\<lparr>st_reported := rs\<rparr>) = seat_kept P s s'" "seat_kept P s (s'\<lparr>st_validated := v\<rparr>) = seat_kept P s s'"
  "seat_kept P s (s'\<lparr>st_reacted := b\<rparr>) = seat_kept P s s'" "seat_kept P s (s'\<lparr>st_locked := l\<rparr>) = seat_kept P s s'"
  "seat_kept P s (s'\<lparr>st_changes := c\<rparr>) = seat_kept P s s'" "seat_kept P s (s'\<lparr>st_refusal := w\<rparr>) = seat_kept P s s'"
  by (simp_all add: seat_kept_def blocks_ok_def)

lemma seat_kept_block:
  assumes "seat_kept P s s'" "block_hash P b = k"
  shows "seat_kept P s (s'\<lparr>st_blocks := AList.update k b (st_blocks s')\<rparr>)"
  using assms set_update_subset [of k b "st_blocks s'"] by (auto simp: seat_kept_def blocks_ok_def)

lemma seat_kept_proposal: "seat_kept P s (s\<lparr>st_env := fst (add_proposal P sp (st_env s))\<rparr>)"
  by (rule seat_kept_env) (rule add_proposal_grows)

lemma seat_kept_attestation: "seat_kept P s (s\<lparr>st_env := fst (add_attestation P a (st_env s))\<rparr>)"
  by (rule seat_kept_env) (rule add_attestation_grows)

lemma seat_kept_fault: "add_fault P fr (st_env s) = Inr (e, b) \<Longrightarrow> seat_kept P s (s\<lparr>st_env := e\<rparr>)"
  by (rule seat_kept_env) (rule add_fault_grows)

lemma pop_grows: "env_grows P e (e\<lparr>en_attestations := AList.delete n (en_attestations e)\<rparr>)"
proof -
  have "env_ok P (e\<lparr>en_attestations := AList.delete n (en_attestations e)\<rparr>)" if "env_ok P e"
    using that set_delete_subset [of n "en_attestations e"] distinct_keys_delete [of "en_attestations e" n]
    by (simp add: env_ok_def) blast
  then show ?thesis by (simp add: env_grows_def env_frame_def proposed_def)
qed

lemma adopt_kept: "seat_adopt P b view cert s = Inr (s', sp) \<Longrightarrow> seat_kept P s s' \<and> st_validated s' = st_validated s"
proof -
  assume a: "seat_adopt P b view cert s = Inr (s', sp)"
  then have sp: "node_propose P (st_node s) b (st_epoch s) (gr_seed (st_grid s)) view cert = Inr sp"
    and s': "s' = s\<lparr>st_blocks := AList.update (sp_block_hash P sp) b (st_blocks s), st_env := fst (add_proposal P sp (st_env s))\<rparr>"
    by (auto simp: seat_adopt_def)
  have "block_hash P b = sp_block_hash P sp" using sp by (auto simp: node_propose_def sp_block_hash_def)
  from seat_kept_block [OF seat_kept_proposal [of P s sp] this]
  have "seat_kept P s (s\<lparr>st_env := fst (add_proposal P sp (st_env s)), st_blocks := AList.update (sp_block_hash P sp) b (st_blocks s)\<rparr>)"
    by simp
  moreover have "s\<lparr>st_env := fst (add_proposal P sp (st_env s)), st_blocks := AList.update (sp_block_hash P sp) b (st_blocks s)\<rparr> = s'"
    by (simp add: s')
  ultimately show ?thesis by (simp add: s')
qed

lemma offer_kept: "offer_block P b s = (s', ok) \<Longrightarrow> seat_kept P s s' \<and> st_validated s' = st_validated s"
proof (cases "map_of (st_pending s) (block_hash P b)")
  case (Some h)
  assume a: "offer_block P b s = (s', ok)"
  let ?e = "fst (add_proposal P (proposal_with h b) (st_env s))"
  have "seat_kept P s (s\<lparr>st_env := ?e\<rparr>)" by (rule seat_kept_proposal)
  from seat_kept_block [OF this refl] a Some show ?thesis
    by (cases "add_proposal P (proposal_with h b) (st_env s)") (auto simp: offer_block_def Let_def split: if_splits)
qed (simp add: offer_block_def Let_def)

lemma take_header_kept: "seat_kept P s (fst (take_header P h s)) \<and> st_validated (fst (take_header P h s)) = st_validated s"
proof (cases "fst (take_header P h s) = s")
  case False
  then obtain hd where h: "h = Some hd" by (cases h) (auto simp: take_header_def)
  let ?s1 = "s\<lparr>st_signed_height := max (st_signed_height s) (hd_height hd)\<rparr>"
  show ?thesis
  proof (cases "map_of (st_blocks s) (hd_block_hash hd)")
    case None
    then show ?thesis by (simp add: take_header_def h Let_def)
  next
    case (Some body)
    obtain e ok where eo: "add_proposal P (proposal_with hd body) (st_env s) = (e, ok)" by fastforce
    have "fst (take_header P h s) = s \<or> fst (take_header P h s) = ?s1\<lparr>st_env := e\<rparr>"
      by (simp add: take_header_def h Let_def Some eo)
    then have new: "fst (take_header P h s) = ?s1\<lparr>st_env := e\<rparr>" using False by blast
    have "seat_kept P ?s1 (?s1\<lparr>st_env := e\<rparr>)" using seat_kept_proposal [of P ?s1 "proposal_with hd body"] eo by simp
    moreover have "seat_kept P s ?s1" by simp
    ultimately show ?thesis unfolding new using seat_kept_trans by fastforce
  qed
qed simp

lemma add_view_change_kept: "seat_kept P s (fst (add_view_change P it s)) \<and> st_validated (fst (add_view_change P it s)) = st_validated s"
  by (simp add: add_view_change_def split: option.split)

lemma foldl_kept:
  assumes "\<And>x s. seat_kept P s (fst (f x s)) \<and> st_validated (fst (f x s)) = st_validated s"
  shows "seat_kept P s (fst (foldl (\<lambda>(s, n) x. let (s', k) = f x s in (s', n + k)) (s, n :: nat) xs))
    \<and> st_validated (fst (foldl (\<lambda>(s, n) x. let (s', k) = f x s in (s', n + k)) (s, n) xs)) = st_validated s"
proof (induction xs arbitrary: s n)
  case (Cons x xs)
  obtain s' k where sk: "f x s = (s', k)" by fastforce
  then have "seat_kept P s s'" "st_validated s' = st_validated s" using assms [of s x] by simp_all
  then show ?case using Cons.IH [of s' "n + k"] sk seat_kept_trans by fastforce
qed simp

lemma absorb_kept:
  assumes "seat_absorb P f s = Inr (s', n)"
  shows "seat_kept P s s' \<and> st_validated s' = st_validated s"
proof -
  obtain s1 n1 where s1: "foldl (\<lambda>(s, n) h. let (s', k) = take_header P h s in (s', n + k)) (s, 0) (fm_proposals f) = (s1, n1)" by fastforce
  have k1: "seat_kept P s s1 \<and> st_validated s1 = st_validated s"
    using foldl_kept [of P "take_header P" s 0 "fm_proposals f"] take_header_kept s1 by simp
  obtain e2 n2 where e2: "foldl (counted (add_attestation P)) (st_env s1, n1) (List.map_filter id (fm_attestations f)) = (e2, n2)" by fastforce
  obtain e3 n3 where e3: "foldR (counted_fault P) (e2, n2) (List.map_filter id (fm_faults f)) = Inr (e3, n3)"
    and s': "(s', n) = foldl (\<lambda>(s, n) v. let (s', k) = add_view_change P v s in (s', n + k)) (s1\<lparr>st_env := e3\<rparr>, n3) (fm_viewchanges f)"
    using assms s1 e2 by (auto simp: seat_absorb_def)
  let ?I = "env_grows P (st_env s1)"
  have step: "?I e \<Longrightarrow> x \<in> set (List.map_filter id (fm_attestations f)) \<Longrightarrow> ?I (fst (add_attestation P x e))" for e x
    using env_grows_trans add_attestation_grows by blast
  have i2: "?I e2" using foldl_counted_invariant [where I = ?I and f = "add_attestation P" and n = n1 and xs = "List.map_filter id (fm_attestations f)", OF env_grows_refl step] by (simp add: e2)
  have i: "?I (fst y)" if "?I (fst x)" "counted_fault P x fr = Inr y" for x fr y
    using that env_grows_trans add_fault_grows [of P fr "fst x"] by (cases x) (auto simp: counted_fault_def)
  have "?I (fst (e3, n3))"
    by (rule foldR_invariant [where I = "\<lambda>x. ?I (fst x)", OF e3]) (use i2 in simp, erule i, assumption)
  then have k3: "seat_kept P s1 (s1\<lparr>st_env := e3\<rparr>)" by (intro seat_kept_env) simp
  have k4: "seat_kept P (s1\<lparr>st_env := e3\<rparr>) s' \<and> st_validated s' = st_validated s1"
    using foldl_kept [of P "add_view_change P" "s1\<lparr>st_env := e3\<rparr>" n3 "fm_viewchanges f"] add_view_change_kept
    by (simp add: Let_def flip: s' [unfolded Let_def])
  have "seat_kept P s s'" by (rule seat_kept_trans [OF _ seat_kept_trans]) (use k1 k3 k4 in auto)
  then show ?thesis using k1 k4 by simp
qed

lemma change_kept: "seat_view_change P s = Inr (s', vc) \<Longrightarrow> seat_kept P s s' \<and> st_validated s' = st_validated s"
  by (auto simp: seat_view_change_def split: option.splits)

lemma release_kept: "release_or_keep cert s = (s', r) \<Longrightarrow> seat_kept P s s' \<and> st_validated s' = st_validated s"
  by (auto simp: release_or_keep_def split: option.splits if_splits)

lemma catch_lazy_kept:
  assumes "catch_lazy P check params encode show_flaw s = Inr (s', ns)"
  shows "seat_kept P s s' \<and> st_validated s' = st_validated s"
proof -
  have "\<exists>seen e. s' = s\<lparr>st_reported := seen, st_env := e\<rparr> \<and> (e = st_env s \<or> (\<exists>fr b. add_fault P fr (st_env s) = Inr (e, b)))"
  proof (cases "\<exists>bh why. st_validated s = Some (bh, False, why)")
    case False
    then consider "st_validated s = None" | h w where "st_validated s = Some (h, True, w)" by (metis option.exhaust prod_cases3)
    then have "catch_lazy P check params encode show_flaw s = Inr (s, [])" by cases (simp_all add: catch_lazy_def)
    then have "s' = s" using assms by simp
    then have "s' = s\<lparr>st_reported := st_reported s, st_env := st_env s\<rparr>" by simp
    then show ?thesis by blast
  next
    case True
    then obtain bh why where v: "st_validated s = Some (bh, False, why)" by blast
    obtain seen cs where sc: "foldl (lazy_step bh (nd_id (st_node s))) (st_reported s, [])
        (map snd (en_attestations (st_env s)) @ map snd (en_shadow (st_env s))) = (seen, cs)" by fastforce
    have "\<exists>e. s' = s\<lparr>st_reported := seen\<rparr>\<lparr>st_env := e\<rparr> \<and> (e = st_env s \<or> (\<exists>fr b. add_fault P fr (st_env s) = Inr (e, b)))"
    proof (cases "s' = s\<lparr>st_reported := seen\<rparr>")
      case False
      note assms = assms [unfolded catch_lazy_def v option.case prod.case bool.case sc Let_def]
      from False assms have "cs \<noteq> []" by (cases "cs = []") simp_all
      note assms = assms [unfolded if_not_P [OF this]]
      from False assms obtain b where b: "map_of (st_blocks s) bh = Some b" by (cases "map_of (st_blocks s) bh") simp_all
      note assms = assms [unfolded b option.case]
      from False assms obtain f where f: "self_evident_flaw P check params (Some (st_chain s)) True b = Some f"
        by (cases "self_evident_flaw P check params (Some (st_chain s)) True b") simp_all
      note assms = assms [unfolded f option.case]
      from False assms have "reportable encode b" by (cases "reportable encode b") simp_all
      note assms = assms [unfolded if_P [OF this]]
      from assms show ?thesis unfolding bindR_eq_Inr by fastforce
    qed (auto intro!: exI [of _ "st_env s"])
    then show ?thesis by auto
  qed
  then obtain seen e where s': "s' = s\<lparr>st_reported := seen, st_env := e\<rparr>" "seat_kept P s (s\<lparr>st_env := e\<rparr>)"
    using seat_kept_fault by fastforce
  then show ?thesis by (simp add: seat_kept_def blocks_ok_def)
qed

text \<open>The three outcomes of \<open>react\<close>: it signs, it leaves what was validated alone, or it records
  a rejection.\<close>

lemma react_signs:
  assumes "seat_react P s = Inr (s', Some a)"
  obtains sp why where "st_validated s = None" "sole_proposal (st_env s) = Some sp" "acceptable P sp s = Inr ()"
    "st_lazy s \<or> wl_validate (st_workload s) (st_node s) (sp_block sp) = Inr (True, why)"
    "node_attest P (st_node s) (sp_block_hash P sp) (st_height s) (st_epoch s) (gr_seed (st_grid s)) = Inr a"
    "seat_attest P sp why s = Inr (s', Some a)"
proof -
  have quiet: "(if st_reacted s then None else equivocation_evidence (st_env s)) = None"
    using assms by (cases "if st_reacted s then None else equivocation_evidence (st_env s)") (auto simp: seat_react_def)
  have v: "st_validated s = None" using assms quiet by (cases "st_validated s") (auto simp: seat_react_def split: if_splits option.splits)
  then obtain sp where sole: "sole_proposal (st_env s) = Some sp"
    using assms quiet by (cases "sole_proposal (st_env s)") (auto simp: seat_react_def split: if_splits)
  have "acceptable P sp s = Inr ()"
    using assms quiet v sole by (cases "acceptable P sp s") (auto simp: seat_react_def split: if_splits)
  note sp = v sole this
  have att: "node_attest P (st_node s) (sp_block_hash P sp) (st_height s) (st_epoch s) (gr_seed (st_grid s)) = Inr a"
    if "seat_attest P sp why s = Inr (s', Some a)" for why
    using that by (auto simp: seat_attest_def)
  show thesis
  proof (cases "st_lazy s")
    case True
    then have "seat_attest P sp ''not checked'' s = Inr (s', Some a)"
      using assms quiet sp by (simp add: seat_react_def split: if_splits)
    with True show thesis using that [OF sp] att by blast
  next
    case False
    then obtain why where "wl_validate (st_workload s) (st_node s) (sp_block sp) = Inr (True, why)" "seat_attest P sp why s = Inr (s', Some a)"
      using assms quiet sp by (auto simp: seat_react_def split: if_splits)
    then show thesis using that [OF sp] att by blast
  qed
qed

lemma attest_kept:
  assumes "seat_attest P sp why s = Inr (s', x)"
  shows "seat_kept P s s'" "st_validated s' = Some (sp_block_hash P sp, True, why)" "st_locked s' = Some (st_view s, sp_block_hash P sp)"
proof -
  obtain a where s': "s' = s\<lparr>st_validated := Some (sp_block_hash P sp, True, why), st_locked := Some (st_view s, sp_block_hash P sp),
      st_env := fst (add_attestation P a (st_env s))\<rparr>"
    using assms by (auto simp: seat_attest_def)
  have "seat_kept P s (s\<lparr>st_env := fst (add_attestation P a (st_env s))\<rparr>)" by (rule seat_kept_attestation)
  then show "seat_kept P s s'" by (simp add: s' seat_kept_def blocks_ok_def)
  show "st_validated s' = Some (sp_block_hash P sp, True, why)" "st_locked s' = Some (st_view s, sp_block_hash P sp)" by (simp_all add: s')
qed

lemma react_kept_quiet:
  assumes "seat_react P s = Inr (s', None)"
  shows "seat_kept P s s' \<and> (st_validated s' = st_validated s \<or> st_validated s = None \<and> (\<exists>h why. st_validated s' = Some (h, False, why)))"
proof (cases "if st_reacted s then None else equivocation_evidence (st_env s)")
  case (Some ab)
  then obtain fr e n where e: "add_fault P fr (st_env s) = Inr (e, n)"
    and s': "s' = s\<lparr>st_env := e\<lparr>en_attestations := AList.delete (nd_id (st_node s)) (en_attestations e)\<rparr>, st_reacted := True\<rparr>"
    using assms by (cases ab) (auto simp: seat_react_def)
  have "seat_kept P s (s\<lparr>st_env := e\<lparr>en_attestations := AList.delete (nd_id (st_node s)) (en_attestations e)\<rparr>\<rparr>)"
    by (rule seat_kept_env) (rule env_grows_trans [OF add_fault_grows [OF e] pop_grows])
  then show ?thesis by (simp add: s')
next
  case None
  show ?thesis
  proof (cases "s' = s \<or> (\<exists>w. s' = s\<lparr>st_refusal := w\<rparr>)")
    case False
    then have ne: "s' \<noteq> s" "s\<lparr>st_refusal := w\<rparr> \<noteq> s'" for w by blast+
    have live: "\<not> st_reacted s" using assms None ne(1) by (simp add: seat_react_def split: if_splits)
    then obtain sp where sp: "sole_proposal (st_env s) = Some sp"
      using assms None ne(1) by (cases "sole_proposal (st_env s)") (simp_all add: seat_react_def)
    have v: "st_validated s = None" using assms None ne(1) live sp by (cases "st_validated s") (simp_all add: seat_react_def)
    have ok: "acceptable P sp s = Inr ()"
      using assms None ne(2) live sp v by (cases "acceptable P sp s") (simp_all add: seat_react_def)
    have att: "seat_attest P sp w s \<noteq> Inr (s', None)" for w by (auto simp: seat_attest_def)
    obtain h why fr e n where e: "add_fault P fr (st_env s) = Inr (e, n)"
        "s' = s\<lparr>st_validated := Some (h, False, why), st_env := e, st_reacted := True\<rparr>"
      using assms None live sp v ok att by (auto simp: seat_react_def split: if_splits)
    then show ?thesis using seat_kept_fault [OF e(1)] v by (simp add: seat_kept_def blocks_ok_def)
  qed auto
qed

lemma step_kept: "seat_step P s a s' \<Longrightarrow> seat_kept P s s'"
proof (induction rule: seat_step.induct)
  case (react s s' a)
  then show ?case using react_kept_quiet [of P s s'] attest_kept(1) react_signs [of P s s'] by (cases a) metis+
qed (auto simp: seat_propose_def dest: adopt_kept offer_kept absorb_kept change_kept release_kept catch_lazy_kept)

text \<open>Once validated, always validated the same.\<close>

lemma step_quiet:
  assumes "seat_step P s None s'"
  shows "st_validated s' = st_validated s \<or> st_validated s = None \<and> (\<exists>h why. st_validated s' = Some (h, False, why))"
  using assms
proof cases
  case (propose meta limit view cert sp)
  then show ?thesis using adopt_kept by (auto simp: seat_propose_def)
next
  case react
  then show ?thesis using react_kept_quiet by blast
qed (auto dest: adopt_kept offer_kept absorb_kept change_kept release_kept catch_lazy_kept)

lemma step_signs:
  assumes "seat_step P s (Some a) s'"
  shows "seat_react P s = Inr (s', Some a)"
  using assms by cases auto

lemma run_kept: "seat_run P s as s' \<Longrightarrow> seat_kept P s s'"
  by (induction rule: seat_run.induct) (auto intro: seat_kept_trans step_kept)

lemma new_seat_fields [simp]:
  "st_node (new_seat nd g wl epoch quorum vs counting gid chain height lz view lock) = nd"
  "st_workload (new_seat nd g wl epoch quorum vs counting gid chain height lz view lock) = wl"
  "st_grid (new_seat nd g wl epoch quorum vs counting gid chain height lz view lock) = g"
  "st_quorum (new_seat nd g wl epoch quorum vs counting gid chain height lz view lock) = quorum"
  "st_view (new_seat nd g wl epoch quorum vs counting gid chain height lz view lock) = view"
  "st_lazy (new_seat nd g wl epoch quorum vs counting gid chain height lz view lock) = lz"
  "st_validated (new_seat nd g wl epoch quorum vs counting gid chain height lz view lock) = None"
  "env_ok P (st_env (new_seat nd g wl epoch quorum vs counting gid chain height lz view lock))"
  "blocks_ok P (new_seat nd g wl epoch quorum vs counting gid chain height lz view lock)"
  by (simp_all add: new_seat_def Let_def blocks_ok_def)

text \<open>The state in which a seat signed, and everything it signed.\<close>

definition signed_in :: "prims \<Rightarrow> seat \<Rightarrow> attestation list \<Rightarrow> seat \<Rightarrow> bool" where
  "signed_in P s0 as s = (\<exists>s1 sp a why. as = [a] \<and> seat_run P s0 [] s1 \<and> sole_proposal (st_env s1) = Some sp \<and> acceptable P sp s1 = Inr ()
     \<and> (st_lazy s0 \<or> wl_validate (st_workload s0) (st_node s0) (sp_block sp) = Inr (True, why))
     \<and> at_block_hash a = sp_block_hash P sp \<and> at_node_id a = nd_id (st_node s0) \<and> sp_block_hash P sp \<in> proposed (st_env s)
     \<and> st_validated s = Some (sp_block_hash P sp, True, why))"

lemma signed_in_mono:
  "signed_in P s0 as s \<Longrightarrow> st_validated s' = st_validated s \<Longrightarrow> proposed (st_env s) \<subseteq> proposed (st_env s') \<Longrightarrow> signed_in P s0 as s'"
  unfolding signed_in_def by (metis subsetD)

lemma sole_proposed: "env_ok P e \<Longrightarrow> sole_proposal e = Some sp \<Longrightarrow> proposed e = {sp_block_hash P sp}"
  by (auto simp: sole_proposal_def env_ok_def proposed_def split: list.splits)

lemma run_signs_once:
  assumes "seat_run P s0 as s" "st_validated s0 = None" "env_ok P (st_env s0)"
  shows "(as = [] \<and> (\<forall>h why. st_validated s \<noteq> Some (h, True, why))) \<or> signed_in P s0 as s"
  using assms(1)
proof (induction rule: seat_run.induct)
  case start
  then show ?case using assms(2) by simp
next
  case (step as s a s')
  have kept: "seat_kept P s0 s" by (rule run_kept [OF step.hyps(1)])
  have grows: "proposed (st_env s) \<subseteq> proposed (st_env s')" using step_kept [OF step.hyps(2)] by (simp add: seat_kept_def env_grows_def)
  show ?case
  proof (cases a)
    case None
    with step.hyps(2) have q: "st_validated s' = st_validated s \<or> st_validated s = None \<and> (\<exists>h why. st_validated s' = Some (h, False, why))"
      by (intro step_quiet) simp
    from step.IH show ?thesis
    proof
      assume "as = [] \<and> (\<forall>h why. st_validated s \<noteq> Some (h, True, why))"
      with q None show ?thesis by auto
    next
      assume signed: "signed_in P s0 as s"
      then have "st_validated s' = st_validated s" using q by (auto simp: signed_in_def)
      then have "signed_in P s0 as s'" using signed grows signed_in_mono by blast
      with None show ?thesis by simp
    qed
  next
    case (Some x)
    then have r: "seat_react P s = Inr (s', Some x)" using step.hyps(2) step_signs by blast
    then obtain sp why where R: "st_validated s = None" "sole_proposal (st_env s) = Some sp" "acceptable P sp s = Inr ()"
      "st_lazy s \<or> wl_validate (st_workload s) (st_node s) (sp_block sp) = Inr (True, why)"
      "node_attest P (st_node s) (sp_block_hash P sp) (st_height s) (st_epoch s) (gr_seed (st_grid s)) = Inr x"
      "seat_attest P sp why s = Inr (s', Some x)"
      by (rule react_signs)
    have "as = []" using step.IH R(1) by (auto simp: signed_in_def)
    moreover have "at_block_hash x = sp_block_hash P sp" "at_node_id x = nd_id (st_node s)" using R(5) by (auto simp: node_attest_def)
    moreover have "sp_block_hash P sp \<in> proposed (st_env s')"
      using sole_proposed [OF _ R(2)] kept assms(3) grows by (auto simp: seat_kept_def env_grows_def)
    ultimately have "signed_in P s0 [x] s'"
      using step.hyps(1) R(2-4) attest_kept(2) [OF R(6)] kept by (fastforce simp: signed_in_def seat_kept_def)
    then show ?thesis using Some \<open>as = []\<close> by simp
  qed
qed

text \<open>C7: A seat signs at most one attestation. Whatever messages reach it and in whatever order
  its methods are called, a seat signs nothing or exactly one attestation, in its own name. What it
  signs is the only proposal it holds at that moment, in its own view and allowed by the locks its
  certificate reports, and a block its workload found valid unless the seat is lazy. The block is
  then what the seat remembers as validated for good.\<close>

theorem seat_attests_once:
  assumes "seat_run P s0 as s" "s0 = new_seat nd g wl epoch quorum vs counting gid chain height lz view lock"
  shows "as = [] \<or> (\<exists>s1 sp a why. as = [a] \<and> seat_run P s0 [] s1 \<and> sole_proposal (st_env s1) = Some sp
    \<and> acceptable P sp s1 = Inr () \<and> sp_view sp = view \<and> (lz \<or> wl_validate wl nd (sp_block sp) = Inr (True, why))
    \<and> at_block_hash a = sp_block_hash P sp \<and> at_node_id a = nd_id nd \<and> st_validated s = Some (sp_block_hash P sp, True, why))"
proof (cases "as = []")
  case False
  have "signed_in P s0 as s" using run_signs_once [OF assms(1)] False assms(2) by simp
  then obtain s1 sp a why where S: "as = [a]" "seat_run P s0 [] s1" "sole_proposal (st_env s1) = Some sp" "acceptable P sp s1 = Inr ()"
    "lz \<or> wl_validate wl nd (sp_block sp) = Inr (True, why)" "at_block_hash a = sp_block_hash P sp" "at_node_id a = nd_id nd"
    "st_validated s = Some (sp_block_hash P sp, True, why)"
    using assms(2) by (auto simp: signed_in_def)
  have "st_view s1 = view" using run_kept [OF S(2)] assms(2) by (simp add: seat_kept_def)
  then have "sp_view sp = view" using S(4) by (simp add: acceptable_def split: if_splits)
  with S show ?thesis by blast
qed simp

text \<open>C18: What a seat takes as final is final for anybody. After any run of a seat, the block it
  accepts is the one it validated, carries the certificate returned with it, and that certificate
  names the block and verifies against the seat's roster at its quorum.\<close>

theorem accepted_certificate_verifies:
  assumes run: "seat_run P s0 as s" "s0 = new_seat nd g wl epoch quorum vs counting gid chain height lz view lock"
    and acc: "seat_accepted P s = Inr (Some (b, c))"
  shows "block_cert b = Some c \<and> qc_block_hash c = block_hash P b \<and> (\<exists>why. st_validated s = Some (block_hash P b, True, why))
    \<and> cert_verify P quorum (Some (block_hash P b)) (Some vs) None gid c = Inr ()"
proof -
  have kept: "seat_kept P s0 s" by (rule run_kept [OF run(1)])
  then have ok: "env_ok P (st_env s)" "blocks_ok P s" using run(2) by (simp_all add: seat_kept_def env_grows_def)
  have frame: "en_chain (st_env s) = st_chain s" "en_height (st_env s) = st_height s" "en_epoch (st_env s) = st_epoch s"
    "en_seed (st_env s) = gr_seed (st_grid s)" "en_validators (st_env s) = vs" "st_quorum s = quorum"
    using kept run(2) by (simp_all add: seat_kept_def env_grows_def env_frame_def new_seat_def new_envelope_def Let_def)
  obtain sp h why where sp: "sole_proposal (st_env s) = Some sp" "st_validated s = Some (h, True, why)"
    using acc by (auto simp: seat_accepted_def split: option.splits bool.splits if_splits)
  let ?bh = "sp_block_hash P sp"
  let ?atts = "attestations_for (st_env s) ?bh" and ?shadow = "shadows_for (st_env s) ?bh"
  let ?c = "cert_build P (st_chain s) (st_height s) ?bh (st_epoch s) (gr_seed (st_grid s)) ?atts ?shadow"
  have q: "quorum \<le> int (length ?atts)" and "\<exists>b0. map_of (st_blocks s) ?bh = Some b0 \<and> b = with_cert c b0 \<and> c = ?c"
    using acc sp frame by (auto simp: seat_accepted_def Let_def split: if_splits option.splits)
  then obtain b0 where b0: "map_of (st_blocks s) ?bh = Some b0" "b = with_cert c b0" "c = ?c" by blast
  have "block_hash P b0 = ?bh" using ok(2) b0(1) by (auto simp: blocks_ok_def dest: map_of_SomeD)
  moreover have "h = ?bh"
    using run_signs_once [OF run(1)] run(2) sp sole_proposed [OF ok(1) sp(1)] by (auto simp: signed_in_def)
  moreover have "qc_block_hash c = ?bh" by (simp add: b0(3) cert_build_def Let_def)
  moreover have "cert_verify P quorum (Some ?bh) (Some vs) None gid c = Inr ()" unfolding b0(3)
    by (rule cert_build_verifies) (use env_att_for(1) [OF ok(1)] env_att_for(2-3) [OF ok(1)] q in \<open>simp_all add: frame\<close>)
  ultimately show ?thesis using sp(2) b0(2) by simp
qed

definition demo_seat :: seat where
  "demo_seat = new_seat (demo_node ''a'') demo_grid demo_workload 1 1 [''a'' \<mapsto> ''00''] None ''g'' None None False 0 None"

lemma demo_seat_run:
  "\<exists>s1 s2 a b c. seat_run len_prims demo_seat [] s1 \<and> seat_run len_prims demo_seat [a] s2 \<and> seat_accepted len_prims s2 = Inr (Some (b, c))"
proof -
  let ?b = "sp_block (demo_proposal ''g'')" and ?P = len_prims
  let ?e0 = "st_env demo_seat" and ?h = "block_hash len_prims (sp_block (demo_proposal ''g''))"
  have h: "?h = ''cb:'' @ hex_of (be_bytes 32 112)" using demo_hash [of "''g''"] by (simp add: demo_proposal_def)
  have nd: "nd_id (demo_node n) = n" "nd_public_hex (demo_node n) = ''00''" "nd_sign (demo_node n) m = ''00''" "nd_chain_id (demo_node n) = ''c''" for n m
    by (simp_all add: demo_node_def)
  have seat: "st_node demo_seat = demo_node ''a''" "st_epoch demo_seat = 1" "st_height demo_seat = 1" "gr_seed (st_grid demo_seat) = ''s''"
    "st_workload demo_seat = demo_workload" "st_reacted demo_seat = False" "st_validated demo_seat = None" "st_view demo_seat = 0"
    "st_lazy demo_seat = False" "st_blocks demo_seat = []" "st_quorum demo_seat = 1" "st_chain demo_seat = ''c''"
    by (simp_all add: demo_seat_def new_seat_def Let_def demo_grid_def mk_grid_def nd)
  have e0: "en_height ?e0 = 1" "en_epoch ?e0 = 1" "en_seed ?e0 = ''s''" "en_leader ?e0 = ''a''" "en_chain ?e0 = ''c''"
    "en_validators ?e0 = [''a'' \<mapsto> ''00'']" "en_counting ?e0 = {''a''}" "en_proposals ?e0 = []" "en_attestations ?e0 = []" "en_shadow ?e0 = []"
    "en_faults ?e0 = []"
    by (auto simp: demo_seat_def new_seat_def new_envelope_def Let_def demo_grid_def mk_grid_def nd)
  have "\<exists>sp. node_propose ?P (demo_node ''a'') ?b 1 ''s'' 0 None = Inr sp"
    unfolding node_propose_def h
    by (simp add: sp_message_def h_bytes_def h_preimage_def chain_domain_def len_prefixed_def str_int_def str_nat.simps
        demo_proposal_def demo_header_def nd)
  then obtain sp where sp: "node_propose ?P (demo_node ''a'') ?b 1 ''s'' 0 None = Inr sp" by blast
  have b: "block_chain_id ?b = ''c''" "block_height ?b = 1" by (simp_all add: demo_proposal_def demo_header_def)
  have adm: "proposal_admissible ?P ?e0 sp" "sp_block_hash ?P sp = ?h" "sp_block sp = ?b"
    using node_propose_admissible [of ?P "demo_node ''a''" ?b ?e0 0 None sp] sp by (simp_all add: e0 nd b len_verify)
  have view: "sp_view sp = 0" "sp_view_cert sp = None" using sp by (auto simp: node_propose_def)
  let ?s1 = "demo_seat\<lparr>st_blocks := [(?h, ?b)], st_env := ?e0\<lparr>en_proposals := [(?h, sp)]\<rparr>\<rparr>"
  have add1: "add_proposal ?P sp ?e0 = (?e0\<lparr>en_proposals := [(?h, sp)]\<rparr>, True)" by (simp add: add_proposal_eq adm e0)
  have "seat_adopt ?P ?b 0 None demo_seat = Inr (?s1, sp)" by (simp add: seat_adopt_def seat sp adm add1)
  then have run1: "seat_run ?P demo_seat [] ?s1" using seat_run.step [OF seat_run.start seat_step.adopt, of ?P ?b 0 None demo_seat] by simp
  let ?e1 = "st_env ?s1"
  obtain a where a: "node_attest ?P (demo_node ''a'') ?h 1 1 ''s'' = Inr a" using demo_attests [of ?h "''a''"] h by auto
  have att: "attestation_admissible ?P ?e1 a" "at_node_id a = ''a''" "at_block_hash a = ?h"
    using node_attest_admissible [of ?P "demo_node ''a''" ?h ?e1 a] a by (simp_all add: e0 nd len_verify)
  let ?s2 = "?s1\<lparr>st_validated := Some (?h, True, []), st_locked := Some (0, ?h), st_env := ?e1\<lparr>en_attestations := [(''a'', a)]\<rparr>\<rparr>"
  have add2: "add_attestation ?P a ?e1 = (?e1\<lparr>en_attestations := [(''a'', a)]\<rparr>, True)" using att by (simp add: add_attestation_eq att_known_def e0)
  have "seat_react ?P ?s1 = Inr (?s2, Some a)"
    using a add2 by (simp add: seat_react_def seat_attest_def equivocation_evidence_def sole_proposal_def acceptable_def may_propose_def view
        seat demo_workload_def adm)
  then have run2: "seat_run ?P demo_seat [a] ?s2" using seat_run.step [OF run1 seat_step.react] by fastforce
  have "\<exists>c. seat_accepted ?P ?s2 = Inr (Some (with_cert c ?b, c))"
    by (simp add: seat_accepted_def substantiated_equivocation_def e0 sole_proposal_def adm attestations_for_def att seat Let_def)
  with run1 run2 show ?thesis by blast
qed

theorem seat_attests_once_witness:
  "\<exists>a (s1 :: seat) s sp. seat_run len_prims demo_seat [a] s \<and> sole_proposal (st_env s1) = Some sp \<and> sp_view sp = 0
    \<and> at_block_hash a = sp_block_hash len_prims sp \<and> at_node_id a = ''a''"
proof -
  obtain s a where r: "seat_run len_prims demo_seat [a] s" using demo_seat_run by blast
  from seat_attests_once [OF this demo_seat_def] show ?thesis using r by (auto simp: demo_node_def)
qed

theorem accepted_certificate_verifies_witness:
  "\<exists>s b c. seat_accepted len_prims s = Inr (Some (b, c))
    \<and> cert_verify len_prims 1 (Some (block_hash len_prims b)) (Some [''a'' \<mapsto> ''00'']) None ''g'' c = Inr ()"
proof -
  obtain s a b c where r: "seat_run len_prims demo_seat [a] s" "seat_accepted len_prims s = Inr (Some (b, c))" using demo_seat_run by blast
  from accepted_certificate_verifies [OF r(1) demo_seat_def r(2)] show ?thesis using r(2) by blast
qed

end
