(* ===== verification/Mempool.thy ===== *)
theory Mempool
  imports Transactions "HOL-Library.Sublist"
begin

text \<open>
  A node's mempool, the blocks it builds and the blocks it checks: \<open>Node\<close> of \<open>chain/node.py\<close>.

  The record holds the attributes of \<open>Node\<close> that these methods read, the dictionaries as
  association lists. The encoding of a proof, its size under a named backend and the proof check
  itself are arguments; all three may raise. A method that raises after it has changed the node
  returns the changed node beside the exception: the first component is the outcome. Two methods
  do not: \<open>validate_block\<close> raises only in the check, before it changes anything (every fingerprint it
  stores was computed there), and what \<open>apply\<close> leaves when the ledger raises is not modelled.
  The lemmas show what the pool holds when nothing raises, that a block built from it passes the
  check of any node with the same ledger, and the ways around these guarantees.
\<close>

section \<open>Fingerprints\<close>

datatype proof_blob = OneProof "bytes option" | AllProofs "(string \<times> bytes) list"

type_synonym proof_encoder = "proof_blob \<Rightarrow> exn + bytes"
type_synonym proof_sizer = "string \<Rightarrow> bytes \<Rightarrow> exn + nat"
type_synonym proof_checker = "string \<Rightarrow> tx_sys \<Rightarrow> int list \<Rightarrow> int \<Rightarrow> bytes \<Rightarrow> exn + bool"
type_synonym authenticated = "tx_sys \<times> int list \<times> int"

definition proof_fingerprint :: "prims \<Rightarrow> proof_encoder \<Rightarrow> transaction \<Rightarrow> string option \<Rightarrow> exn + string" where
  "proof_fingerprint P encode tx backend =
     (let proof = map_of (tx_proofs tx) (case backend of None \<Rightarrow> [] | Some b \<Rightarrow> b);
          tag = (case backend of None \<Rightarrow> ''*'' | Some b \<Rightarrow> if b = [] then ''*'' else b)
      in bindR (if proof = None \<and> backend = None
                then encode (AllProofs (map (\<lambda>n. (n, the (map_of (tx_proofs tx) n))) (sort (keys (tx_proofs tx)))))
                else encode (OneProof proof)) (\<lambda>blob.
           Inr (h_hex P ''proof-fingerprint'' [PStr (txid P tx), PStr tag, PList (map PInt (tx_v tx)), PBytes blob])))"

definition proof_bytes :: "proof_sizer \<Rightarrow> string \<Rightarrow> transaction \<Rightarrow> exn + nat" where
  "proof_bytes psize backend tx =
     bindR (mapR (\<lambda>n. case map_of (tx_proofs tx) n of None \<Rightarrow> Inl KeyError | Some p \<Rightarrow> psize n p)
             (if backend = [] then sort (keys (tx_proofs tx)) else [backend])) (\<lambda>ns. Inr (sum_list ns))"

definition tx_fingerprint :: "prims \<Rightarrow> proof_sizer \<Rightarrow> transaction \<Rightarrow> exn + string" where
  "tx_fingerprint P psize tx = bindR (proof_bytes psize [] tx) (\<lambda>n.
     Inr (h_hex P ''tx-fingerprint'' [PStr (txid P tx), PInt (int n), PList (map PInt (tx_v tx))]))"

section \<open>The state of a node\<close>

definition MAX_INPUTS :: nat where "MAX_INPUTS = 16"
definition MAX_OUTPUTS :: nat where "MAX_OUTPUTS = 16"
definition MAX_REFUSED_PROOFS :: nat where "MAX_REFUSED_PROOFS = 4096"
definition MAX_MEMPOOL :: int where "MAX_MEMPOOL = 4096"
definition PROOF_STRIKES :: nat where "PROOF_STRIKES = 3"

record pool =
  pl_state :: chain_state
  pl_params :: chain_params
  pl_mempool :: "(string \<times> transaction) list"
  pl_max :: int
  pl_evicted :: nat
  pl_verified :: "(string \<times> string) list"
  pl_admitted :: nat
  pl_refused :: nat
  pl_bad_proofs :: nat
  pl_unauthenticated :: nat
  pl_stale_proofs :: nat
  pl_refused_proofs :: "(string \<times> bool) list"
  pl_strikes :: "(string \<times> nat) list"
  pl_reserved_nf :: "(string \<times> string) list"
  pl_reserved_cm :: "(string \<times> string) list"

definition new_pool :: "chain_params \<Rightarrow> chain_state \<Rightarrow> int \<Rightarrow> pool" where
  "new_pool params st cap = \<lparr>pl_state = st, pl_params = params, pl_mempool = [], pl_max = cap, pl_evicted = 0, pl_verified = [],
     pl_admitted = 0, pl_refused = 0, pl_bad_proofs = 0, pl_unauthenticated = 0, pl_stale_proofs = 0, pl_refused_proofs = [],
     pl_strikes = [], pl_reserved_nf = [], pl_reserved_cm = []\<rparr>"

definition bounded_put :: "string \<Rightarrow> 'v \<Rightarrow> (string \<times> 'v) list \<Rightarrow> (string \<times> 'v) list" where
  "bounded_put key v store =
     AList.update key v
       (if key \<notin> set (keys store) \<and> MAX_REFUSED_PROOFS \<le> length store
        then foldl (\<lambda>d k. AList.delete k d) store (take (length store - MAX_REFUSED_PROOFS + 1) (keys store))
        else store)"

definition cheapest :: "pool \<Rightarrow> (string \<times> int) option" where
  "cheapest pl = foldl (\<lambda>best (tid, tx). case best of None \<Rightarrow> Some (tid, tx_fee tx)
     | Some (_, fee) \<Rightarrow> if tx_fee tx < fee then Some (tid, tx_fee tx) else best) None (pl_mempool pl)"

definition evict :: "string \<Rightarrow> pool \<Rightarrow> pool" where
  "evict tid pl = (case map_of (pl_mempool pl) tid of None \<Rightarrow> pl
     | Some tx \<Rightarrow> pl\<lparr>pl_mempool := AList.delete tid (pl_mempool pl),
         pl_reserved_nf := foldl (\<lambda>d nf. AList.delete nf d) (pl_reserved_nf pl) (tx_nullifiers tx),
         pl_reserved_cm := foldl (\<lambda>d cm. AList.delete cm d) (pl_reserved_cm pl) (tx_input_cms tx)\<rparr>)"

section \<open>Admission\<close>

datatype pool_refusal =
    OtherChain string
  | AlreadyHeld
  | FeeNegative
  | NothingSpent
  | OutsideShape nat nat
  | LedgerSays refusal
  | NfClaimed string string
  | CmClaimed string string
  | PoolIsFull
  | FeeTooLow int int
  | ProofRefusedBefore
  | NotAuthentic tx_refusal
  | ProofFails tx_refusal

definition admissible :: "prims \<Rightarrow> pool \<Rightarrow> transaction \<Rightarrow> pool_refusal + unit" where
  "admissible P pl tx =
     (if tx_chain_id tx \<noteq> cs_chain_id (pl_state pl) then Inl (OtherChain (tx_chain_id tx))
      else if txid P tx \<in> set (keys (pl_mempool pl)) then Inl AlreadyHeld
      else if tx_fee tx < 0 then Inl FeeNegative
      else if tx_inputs tx = [] \<or> tx_output_cms tx = [] then Inl NothingSpent
      else if MAX_INPUTS < length (tx_inputs tx) \<or> MAX_OUTPUTS < length (tx_output_cms tx)
      then Inl (OutsideShape (length (tx_inputs tx)) (length (tx_output_cms tx)))
      else case check_transaction (\<lambda>_. Inr ()) False {} {} tx (pl_state pl) of Inl e \<Rightarrow> Inl (LedgerSays e)
      | Inr _ \<Rightarrow>
        bindR (check_each (\<lambda>nf. case map_of (pl_reserved_nf pl) nf of Some h \<Rightarrow> Inl (NfClaimed h nf) | None \<Rightarrow> Inr ()) (tx_nullifiers tx)) (\<lambda>_.
        bindR (check_each (\<lambda>cm. case map_of (pl_reserved_cm pl) cm of Some h \<Rightarrow> Inl (CmClaimed h cm) | None \<Rightarrow> Inr ()) (tx_input_cms tx)) (\<lambda>_.
        if pl_max pl \<le> int (length (pl_mempool pl)) then
          (case cheapest pl of None \<Rightarrow> Inl PoolIsFull
           | Some (_, fee) \<Rightarrow> if tx_fee tx \<le> fee then Inl (FeeTooLow (tx_fee tx) fee) else Inr ())
        else Inr ())))"

definition backend_name :: "pool \<Rightarrow> string \<Rightarrow> string" where
  "backend_name pl backend = (if backend = [] then default_backend (pl_params pl) else backend)"

definition strikes_against :: "prims \<Rightarrow> pool \<Rightarrow> transaction \<Rightarrow> nat" where
  "strikes_against P pl tx = (case map_of (pl_strikes pl) (txid P tx) of None \<Rightarrow> 0 | Some n \<Rightarrow> n)"

definition suspect :: "prims \<Rightarrow> pool \<Rightarrow> transaction \<Rightarrow> bool" where
  "suspect P pl tx = (PROOF_STRIKES \<le> strikes_against P pl tx)"

definition authenticate_tx ::
    "prims \<Rightarrow> proof_encoder \<Rightarrow> string \<Rightarrow> transaction \<Rightarrow> pool \<Rightarrow> (exn + (pool_refusal + authenticated)) \<times> pool" where
  "authenticate_tx P encode backend tx pl =
     (case admissible P pl tx of Inl e \<Rightarrow> (Inr (Inl e), pl\<lparr>pl_refused := pl_refused pl + 1\<rparr>)
      | Inr _ \<Rightarrow>
        (case (if strikes_against P pl tx = 0 then Inr False
               else bindR (proof_fingerprint P encode tx (Some (backend_name pl backend))) (\<lambda>fp. Inr (fp \<in> set (keys (pl_refused_proofs pl))))) of
           Inl x \<Rightarrow> (Inl x, pl)
         | Inr True \<Rightarrow> (Inr (Inl ProofRefusedBefore), pl\<lparr>pl_refused := pl_refused pl + 1, pl_stale_proofs := pl_stale_proofs pl + 1\<rparr>)
         | Inr False \<Rightarrow>
           (case authenticate P (pl_params pl) (cs_chain_id (pl_state pl)) tx of
              Inl e \<Rightarrow> (Inr (Inl (NotAuthentic e)),
                         pl\<lparr>pl_refused := pl_refused pl + 1, pl_unauthenticated := pl_unauthenticated pl + 1\<rparr>)
            | Inr auth \<Rightarrow> (Inr (Inr auth), pl))))"

definition remember_refusal :: "prims \<Rightarrow> proof_encoder \<Rightarrow> transaction \<Rightarrow> string \<Rightarrow> pool \<Rightarrow> (exn + unit) \<times> pool" where
  "remember_refusal P encode tx nm pl =
     (let n = strikes_against P pl tx + 1;
          s1 = AList.update (txid P tx) n (pl_strikes pl);
          pl1 = pl\<lparr>pl_strikes := bounded_put (txid P tx) n s1\<rparr>
      in case proof_fingerprint P encode tx (Some nm) of Inl x \<Rightarrow> (Inl x, pl1)
         | Inr fp \<Rightarrow> (Inr (), pl1\<lparr>pl_refused_proofs := bounded_put fp True (pl_refused_proofs pl1)\<rparr>))"

lemma foldl_cheapest:
  "foldl (\<lambda>best (tid, tx). case best of None \<Rightarrow> Some (tid, tx_fee tx)
     | Some (_, fee) \<Rightarrow> if tx_fee tx < fee then Some (tid, tx_fee tx) else best) b xs = Some (i, f) \<Longrightarrow>
   b = Some (i, f) \<or> (\<exists>tx. (i, tx) \<in> set xs \<and> tx_fee tx = f)"
  by (induction xs arbitrary: b) (force split: option.splits if_splits)+

lemma cheapest_mem: "cheapest pl = Some (i, f) \<Longrightarrow> \<exists>tx. (i, tx) \<in> set (pl_mempool pl) \<and> tx_fee tx = f"
  using foldl_cheapest by (fastforce simp: cheapest_def)

lemma foldl_cheapest_Some:
  "foldl (\<lambda>best (tid, tx). case best of None \<Rightarrow> Some (tid, tx_fee tx)
     | Some (_, fee) \<Rightarrow> if tx_fee tx < fee then Some (tid, tx_fee tx) else best) (Some b) xs \<noteq> None"
  by (induction xs arbitrary: b) (auto split: prod.split)

lemma cheapest_None: "cheapest pl = None \<Longrightarrow> pl_mempool pl = []"
  by (cases "pl_mempool pl") (auto simp add: cheapest_def foldl_cheapest_Some)

lemma length_delete: "k \<in> set (keys d) \<Longrightarrow> length (AList.delete k d) < length d"
  unfolding AList.delete_eq keys_def by (auto intro!: length_filter_less)

lemma evict_shrinks: "cheapest pl = Some (i, f) \<Longrightarrow> length (pl_mempool (evict i pl)) < length (pl_mempool pl)"
proof -
  assume "cheapest pl = Some (i, f)"
  then obtain tx where "(i, tx) \<in> set (pl_mempool pl)" using cheapest_mem by blast
  then have k: "i \<in> set (keys (pl_mempool pl))" by (force simp: keys_def)
  then obtain tx' where "map_of (pl_mempool pl) i = Some tx'" by (auto simp: set_keys)
  then show ?thesis using length_delete [OF k] by (simp add: evict_def)
qed

function make_room :: "string \<Rightarrow> pool \<Rightarrow> pool" where
  "make_room tid pl =
     (if int (length (pl_mempool pl)) < pl_max pl then pl
      else case cheapest pl of None \<Rightarrow> pl
        | Some (low, _) \<Rightarrow> if low = tid then pl
            else make_room tid ((evict low pl)\<lparr>pl_evicted := pl_evicted (evict low pl) + 1\<rparr>))"
  by pat_completeness auto
termination
  by (relation "measure (\<lambda>(_, pl). length (pl_mempool pl))") (auto dest: evict_shrinks)

declare make_room.simps [simp del]

definition verify_and_admit ::
    "prims \<Rightarrow> proof_checker \<Rightarrow> proof_encoder \<Rightarrow> proof_sizer \<Rightarrow> authenticated \<Rightarrow> string \<Rightarrow> transaction \<Rightarrow> pool
      \<Rightarrow> (exn + (pool_refusal + unit)) \<times> pool" where
  "verify_and_admit P check encode psize auth backend tx pl =
     (case verify_proof check (pl_params pl) auth backend tx of
        Inl e \<Rightarrow>
          let (r, pl2) = remember_refusal P encode tx (backend_name pl backend)
                           (pl\<lparr>pl_refused := pl_refused pl + 1, pl_bad_proofs := pl_bad_proofs pl + 1\<rparr>)
          in (bindR r (\<lambda>_. Inr (Inl (ProofFails e))), pl2)
      | Inr _ \<Rightarrow>
          let tid = txid P tx;
              pl1 = make_room tid pl;
              pl2 = pl1\<lparr>pl_mempool := AList.update tid tx (pl_mempool pl1), pl_admitted := pl_admitted pl1 + 1\<rparr>
          in case tx_fingerprint P psize tx of Inl x \<Rightarrow> (Inl x, pl2)
             | Inr fp \<Rightarrow> (Inr (Inr ()),
                 pl2\<lparr>pl_verified := AList.update tid fp (pl_verified pl2),
                     pl_reserved_nf := foldl (\<lambda>d nf. AList.update nf tid d) (pl_reserved_nf pl2) (tx_nullifiers tx),
                     pl_reserved_cm := foldl (\<lambda>d cm. AList.update cm tid d) (pl_reserved_cm pl2) (tx_input_cms tx)\<rparr>))"

definition submit ::
    "prims \<Rightarrow> proof_checker \<Rightarrow> proof_encoder \<Rightarrow> proof_sizer \<Rightarrow> string \<Rightarrow> transaction \<Rightarrow> pool \<Rightarrow> (exn + (pool_refusal + unit)) \<times> pool" where
  "submit P check encode psize backend tx pl =
     (case authenticate_tx P encode backend tx pl of
        (Inl x, pl1) \<Rightarrow> (Inl x, pl1)
      | (Inr (Inl e), pl1) \<Rightarrow> (Inr (Inl e), pl1)
      | (Inr (Inr auth), pl1) \<Rightarrow> verify_and_admit P check encode psize auth backend tx pl1)"

definition already_verified :: "prims \<Rightarrow> proof_sizer \<Rightarrow> pool \<Rightarrow> transaction \<Rightarrow> exn + bool" where
  "already_verified P psize pl tx = bindR (tx_fingerprint P psize tx) (\<lambda>fp. Inr (map_of (pl_verified pl) (txid P tx) = Some fp))"

section \<open>Blocks\<close>

record building =
  bd_chosen :: "transaction list"
  bd_shadow :: shadow

definition build_step :: "prims \<Rightarrow> int option \<Rightarrow> building \<Rightarrow> transaction \<Rightarrow> exn + building" where
  "build_step P limit bd tx =
     (if (case limit of None \<Rightarrow> False | Some n \<Rightarrow> n \<le> int (length (bd_chosen bd))) then Inr bd
      else let sh = bd_shadow bd in
        case check_transaction (\<lambda>_. Inr ()) False (sh_nf sh) (sh_cm sh) tx (sh_state sh) of Inl _ \<Rightarrow> Inr bd
        | Inr _ \<Rightarrow> bindR (apply_transaction P tx (sh_state sh)) (\<lambda>s.
            Inr \<lparr>bd_chosen = bd_chosen bd @ [tx],
                 bd_shadow = \<lparr>sh_state = s, sh_nf = sh_nf sh \<union> set (tx_nullifiers tx), sh_cm = sh_cm sh \<union> set (tx_input_cms tx)\<rparr>\<rparr>))"

definition build_block :: "prims \<Rightarrow> ceremony_meta \<Rightarrow> int option \<Rightarrow> pool \<Rightarrow> exn + block" where
  "build_block P meta limit pl =
     bindR (state_copy P (pl_state pl)) (\<lambda>c.
     bindR (foldR (build_step P limit) \<lparr>bd_chosen = [], bd_shadow = \<lparr>sh_state = c, sh_nf = {}, sh_cm = {}\<rparr>\<rparr> (map snd (pl_mempool pl))) (\<lambda>bd.
       let s = sh_state (bd_shadow bd) in
       Inr \<lparr>b_header = \<lparr>bh_height = cs_height (pl_state pl) + 1, bh_prev_hash = cs_tip (pl_state pl), bh_chain_id = cs_chain_id (pl_state pl),
              bh_utxo_root = acc_root (cs_utxo s), bh_nf_root = acc_root (cs_nullifiers s),
              bh_tx_root = seal_root P ''tx'' (map (txid P) (bd_chosen bd)) default_sparams, bh_ceremony = meta\<rparr>,
            b_transactions = bd_chosen bd\<rparr>))"

text \<open>The check a ledger makes of a transaction; the reason it gives is the argument \<open>why\<close>.\<close>

definition chain_vt :: "prims \<Rightarrow> proof_checker \<Rightarrow> (tx_refusal \<Rightarrow> string) \<Rightarrow> chain_state \<Rightarrow> transaction \<Rightarrow> refusal + unit" where
  "chain_vt P check why st tx = (case verify_transaction P check (cs_params st) None None (cs_chain_id st) [] tx of
     Inl e \<Rightarrow> Inl (TxRefused (why e)) | Inr _ \<Rightarrow> Inr ())"

definition validate_block ::
    "prims \<Rightarrow> proof_checker \<Rightarrow> (tx_refusal \<Rightarrow> string) \<Rightarrow> proof_sizer \<Rightarrow> block \<Rightarrow> pool \<Rightarrow> exn + ((refusal + unit) \<times> pool)" where
  "validate_block P check why psize b pl =
     bindR (check_block P (chain_vt P check why (pl_state pl)) (already_verified P psize pl) b (pl_state pl)) (\<lambda>r.
       case r of Inl e \<Rightarrow> Inr (Inl e, pl)
       | Inr _ \<Rightarrow> bindR (foldR (\<lambda>d tx. bindR (tx_fingerprint P psize tx) (\<lambda>fp.
             Inr (if txid P tx \<in> set (keys d) then d else AList.update (txid P tx) fp d))) (pl_verified pl) (b_transactions b)) (\<lambda>d.
           Inr (Inr (), pl\<lparr>pl_verified := d\<rparr>)))"

text \<open>The sweep after a block keeps what still checks.\<close>

definition sweep :: "pool \<Rightarrow> string \<times> transaction \<Rightarrow> pool" where
  "sweep q = (\<lambda>(tid, tx). if is_ok (check_transaction (\<lambda>_. Inr ()) False {} {} tx (pl_state q)) then q else evict tid q)"

definition node_apply :: "prims \<Rightarrow> block \<Rightarrow> pool \<Rightarrow> exn + (int \<times> pool)" where
  "node_apply P b pl =
     bindR (apply_block P b (pl_state pl)) (\<lambda>(fees, st).
       let pl1 = foldl (\<lambda>q tx. evict (txid P tx) q) (pl\<lparr>pl_state := st\<rparr>) (b_transactions b);
           pl2 = foldl sweep pl1 (pl_mempool pl1)
       in Inr (fees, pl2))"

section \<open>What a pool holds\<close>

definition reserves :: "(transaction \<Rightarrow> string list) \<Rightarrow> (string \<times> transaction) list \<Rightarrow> (string \<times> string) list \<Rightarrow> bool" where
  "reserves f mem res = (\<forall>k tid. map_of res k = Some tid \<longleftrightarrow> (\<exists>tx. (tid, tx) \<in> set mem \<and> k \<in> set (f tx)))"

lemma map_of_drop_all: "map_of (foldl (\<lambda>d k. AList.delete k d) d ks) k = (if k \<in> set ks then None else map_of d k)"
  by (induction ks arbitrary: d) auto

lemma map_of_put_all: "map_of (foldl (\<lambda>d k. AList.update k v d) d ks) k = (if k \<in> set ks then Some v else map_of d k)"
  by (induction ks arbitrary: d) auto

lemma keys_mem: "(k, v) \<in> set d \<Longrightarrow> k \<in> set (keys d)"
  by (force simp: keys_def)

lemma set_delete: "set (AList.delete k d) = {(j, v) \<in> set d. j \<noteq> k}"
  by (auto simp: AList.delete_eq)

lemma reserves_unique:
  "reserves f mem res \<Longrightarrow> (i, x) \<in> set mem \<Longrightarrow> (j, y) \<in> set mem \<Longrightarrow> k \<in> set (f x) \<Longrightarrow> k \<in> set (f y) \<Longrightarrow> i = j"
  unfolding reserves_def by (metis option.inject)

lemma reserves_evict:
  assumes "distinct (keys mem)" "reserves f mem res" "map_of mem tid = Some tx"
  shows "reserves f (AList.delete tid mem) (foldl (\<lambda>d k. AList.delete k d) res (f tx))"
proof -
  have tx: "(tid, tx) \<in> set mem" using assms(3) by (rule map_of_SomeD)
  have only: "x = tx" if "(tid, x) \<in> set mem" for x
    using that assms(1,3) by (metis keys_def map_of_eq_Some_iff option.inject)
  show ?thesis unfolding reserves_def map_of_drop_all set_delete
  proof (intro allI)
    fix k i
    show "((if k \<in> set (f tx) then None else map_of res k) = Some i) = (\<exists>x. (i, x) \<in> {(j, v). (j, v) \<in> set mem \<and> j \<noteq> tid} \<and> k \<in> set (f x))"
    proof (cases "k \<in> set (f tx)")
      case True
      have False if "(i, x) \<in> set mem" "i \<noteq> tid" "k \<in> set (f x)" for x
        using reserves_unique [OF assms(2) that(1) tx that(3) True] that(2) by simp
      with True show ?thesis by auto
    next
      case False
      have "i \<noteq> tid" if "(i, x) \<in> set mem" "k \<in> set (f x)" for x using only that False by auto
      then show ?thesis using False assms(2) by (auto simp: reserves_def)
    qed
  qed
qed

lemma reserves_add:
  assumes "reserves f mem res" "\<forall>k\<in>set (f tx). map_of res k = None"
  shows "reserves f (mem @ [(tid, tx)]) (foldl (\<lambda>d k. AList.update k tid d) res (f tx))"
  unfolding reserves_def map_of_put_all
proof (intro allI)
  fix k i
  show "((if k \<in> set (f tx) then Some tid else map_of res k) = Some i) = (\<exists>x. (i, x) \<in> set (mem @ [(tid, tx)]) \<and> k \<in> set (f x))"
  proof (cases "k \<in> set (f tx)")
    case True
    then have "\<nexists>x. (i, x) \<in> set mem \<and> k \<in> set (f x)" using assms by (metis option.distinct(1) reserves_def)
    with True show ?thesis by auto
  next
    case False
    then show ?thesis using assms(1) by (auto simp: reserves_def)
  qed
qed

definition authentic :: "prims \<Rightarrow> proof_checker \<Rightarrow> pool \<Rightarrow> transaction \<Rightarrow> bool" where
  "authentic P check pl tx = (\<exists>auth backend. authenticate P (pl_params pl) (cs_chain_id (pl_state pl)) tx = Inr auth
     \<and> verify_proof check (pl_params pl) auth backend tx = Inr ())"

definition pool_ok :: "prims \<Rightarrow> proof_checker \<Rightarrow> proof_sizer \<Rightarrow> pool \<Rightarrow> bool" where
  "pool_ok P check psize pl =
     (distinct (keys (pl_mempool pl)) \<and> reserves tx_nullifiers (pl_mempool pl) (pl_reserved_nf pl)
      \<and> reserves tx_input_cms (pl_mempool pl) (pl_reserved_cm pl) \<and> int (length (pl_mempool pl)) \<le> max 0 (pl_max pl)
      \<and> (\<forall>(tid, tx)\<in>set (pl_mempool pl). tid = txid P tx \<and> authentic P check pl tx
          \<and> (\<exists>fp. tx_fingerprint P psize tx = Inr fp \<and> map_of (pl_verified pl) tid = Some fp)))"

definition live_pool :: "pool \<Rightarrow> bool" where
  "live_pool pl = (\<forall>(tid, tx)\<in>set (pl_mempool pl). check_transaction (\<lambda>_. Inr ()) False {} {} tx (pl_state pl) = Inr ())"

lemma evict_fields [simp]:
  "pl_state (evict tid pl) = pl_state pl" "pl_params (evict tid pl) = pl_params pl" "pl_max (evict tid pl) = pl_max pl"
  "pl_verified (evict tid pl) = pl_verified pl"
  by (simp_all add: evict_def split: option.split)

lemma evict_mempool: "pl_mempool (evict tid pl) = AList.delete tid (pl_mempool pl)"
proof (cases "map_of (pl_mempool pl) tid")
  case None
  then have "tid \<notin> set (keys (pl_mempool pl))" by (simp add: set_keys domIff)
  then have "\<forall>p\<in>set (pl_mempool pl). fst p \<noteq> tid" by (force simp: keys_def)
  then have "AList.delete tid (pl_mempool pl) = pl_mempool pl"
    unfolding AList.delete_eq by (intro filter_True) auto
  then show ?thesis using None by (simp add: evict_def)
qed (simp add: evict_def)

lemma authentic_cong: "pl_params q = pl_params p \<Longrightarrow> cs_chain_id (pl_state q) = cs_chain_id (pl_state p) \<Longrightarrow>
    authentic P check q tx = authentic P check p tx"
  by (simp add: authentic_def)

lemma evict_ok: "pool_ok P check psize pl \<Longrightarrow> pool_ok P check psize (evict tid pl)"
proof (cases "map_of (pl_mempool pl) tid")
  case (Some tx)
  assume ok: "pool_ok P check psize pl"
  have "length (AList.delete tid (pl_mempool pl)) \<le> length (pl_mempool pl)" by (rule length_delete_le)
  moreover have "authentic P check (evict tid pl) x = authentic P check pl x" for x by (rule authentic_cong) simp_all
  moreover have "reserves tx_nullifiers (pl_mempool (evict tid pl)) (pl_reserved_nf (evict tid pl))"
    "reserves tx_input_cms (pl_mempool (evict tid pl)) (pl_reserved_cm (evict tid pl))"
    using ok Some reserves_evict by (simp_all add: pool_ok_def evict_def)
  ultimately show ?thesis using ok distinct_keys_delete
    by (auto simp: pool_ok_def evict_mempool set_delete)
qed (simp add: evict_def)

lemma pool_ok_counter [simp]: "pool_ok P check psize (pl\<lparr>pl_evicted := n\<rparr>) = pool_ok P check psize pl"
  by (simp add: pool_ok_def authentic_def)

lemma make_room_spec:
  "pool_ok P check psize pl \<Longrightarrow> tid \<notin> set (keys (pl_mempool pl)) \<Longrightarrow>
    pool_ok P check psize (make_room tid pl) \<and> set (pl_mempool (make_room tid pl)) \<subseteq> set (pl_mempool pl)
    \<and> pl_state (make_room tid pl) = pl_state pl \<and> pl_params (make_room tid pl) = pl_params pl \<and> pl_max (make_room tid pl) = pl_max pl
    \<and> (int (length (pl_mempool (make_room tid pl))) < pl_max pl \<or> pl_mempool (make_room tid pl) = [])
    \<and> (int (length (pl_mempool pl)) < pl_max pl \<longrightarrow> make_room tid pl = pl)"
proof (induction tid pl rule: make_room.induct)
  case (1 tid pl)
  show ?case
  proof (cases "int (length (pl_mempool pl)) < pl_max pl")
    case True
    then show ?thesis using 1(2) by (simp add: make_room.simps [of tid pl])
  next
    case full: False
    show ?thesis
    proof (cases "cheapest pl")
      case None
      then have "pl_mempool pl = []" by (rule cheapest_None)
      then show ?thesis using None full 1(2) by (simp add: make_room.simps [of tid pl])
    next
      case (Some lf)
      obtain low f where lf: "lf = (low, f)" by fastforce
      obtain tx where "(low, tx) \<in> set (pl_mempool pl)" using cheapest_mem Some lf by blast
      then have ne: "low \<noteq> tid" using 1(3) keys_mem by metis
      let ?q = "(evict low pl)\<lparr>pl_evicted := pl_evicted (evict low pl) + 1\<rparr>"
      have "make_room tid pl = make_room tid ?q" using full Some lf ne by (simp add: make_room.simps [of tid pl])
      moreover have "pool_ok P check psize ?q" using evict_ok 1(2) by simp
      moreover have "tid \<notin> set (keys (pl_mempool ?q))"
        using 1(3) set_delete_subset [of low "pl_mempool pl"] by (auto simp: evict_mempool keys_def)
      moreover have "set (pl_mempool ?q) \<subseteq> set (pl_mempool pl)" using set_delete_subset by (simp add: evict_mempool)
      ultimately show ?thesis using 1(1) [OF full Some lf [symmetric] ne] full by auto
    qed
  qed
qed

text \<open>Counters and caches aside, a refusal leaves the node as it was.\<close>

definition same_pool :: "pool \<Rightarrow> pool \<Rightarrow> bool" where
  "same_pool p q = (pl_state q = pl_state p \<and> pl_params q = pl_params p \<and> pl_mempool q = pl_mempool p \<and> pl_max q = pl_max p
     \<and> pl_verified q = pl_verified p \<and> pl_reserved_nf q = pl_reserved_nf p \<and> pl_reserved_cm q = pl_reserved_cm p)"

lemma same_pool_refl [simp]: "same_pool p p"
  by (simp add: same_pool_def)

lemma same_pool_ok: "same_pool p q \<Longrightarrow> pool_ok P check psize q = pool_ok P check psize p"
  by (simp add: same_pool_def pool_ok_def authentic_def)

lemma same_pool_live: "same_pool p q \<Longrightarrow> live_pool q = live_pool p"
  by (simp add: same_pool_def live_pool_def)

lemma authenticate_tx_same: "authenticate_tx P encode backend tx pl = (r, q) \<Longrightarrow> same_pool pl q"
  by (auto simp: authenticate_tx_def same_pool_def split: sum.splits bool.splits)

lemma authenticate_tx_Inr:
  assumes "authenticate_tx P encode backend tx pl = (Inr (Inr auth), q)"
  shows "q = pl" "admissible P pl tx = Inr ()" "authenticate P (pl_params pl) (cs_chain_id (pl_state pl)) tx = Inr auth"
proof -
  obtain u where u: "admissible P pl tx = Inr u" using assms by (cases "admissible P pl tx") (simp_all add: authenticate_tx_def)
  then show "admissible P pl tx = Inr ()" by simp
  show "q = pl" "authenticate P (pl_params pl) (cs_chain_id (pl_state pl)) tx = Inr auth"
    using assms u by (simp_all add: authenticate_tx_def split: sum.splits bool.splits)
qed

lemma remember_refusal_same: "remember_refusal P encode tx nm pl = (r, q) \<Longrightarrow> same_pool pl q"
  by (auto simp: remember_refusal_def same_pool_def Let_def split: sum.splits)

lemma admissible_Inr:
  assumes "admissible P pl tx = Inr ()"
  shows "txid P tx \<notin> set (keys (pl_mempool pl))" "check_transaction (\<lambda>_. Inr ()) False {} {} tx (pl_state pl) = Inr ()"
    "\<forall>nf\<in>set (tx_nullifiers tx). map_of (pl_reserved_nf pl) nf = None"
    "\<forall>cm\<in>set (tx_input_cms tx). map_of (pl_reserved_cm pl) cm = None"
    "pl_max pl \<le> int (length (pl_mempool pl)) \<Longrightarrow> pl_mempool pl \<noteq> []"
proof -
  obtain u where c: "check_transaction (\<lambda>_. Inr ()) False {} {} tx (pl_state pl) = Inr u"
    using assms by (cases "check_transaction (\<lambda>_. Inr ()) False {} {} tx (pl_state pl)") (auto simp: admissible_def split: if_splits)
  then show "check_transaction (\<lambda>_. Inr ()) False {} {} tx (pl_state pl) = Inr ()" by simp
  show "txid P tx \<notin> set (keys (pl_mempool pl))" using assms by (auto simp: admissible_def split: if_splits)
  show "\<forall>nf\<in>set (tx_nullifiers tx). map_of (pl_reserved_nf pl) nf = None" "\<forall>cm\<in>set (tx_input_cms tx). map_of (pl_reserved_cm pl) cm = None"
    using assms c by (auto simp: admissible_def split: if_splits option.splits)
  show "pl_mempool pl \<noteq> []" if "pl_max pl \<le> int (length (pl_mempool pl))"
    using assms c that by (auto simp: admissible_def cheapest_def split: if_splits)
qed

lemma reserves_free:
  "reserves f mem res \<Longrightarrow> reserves f mem' res' \<Longrightarrow> set mem' \<subseteq> set mem \<Longrightarrow> map_of res k = None \<Longrightarrow> map_of res' k = None"
  unfolding reserves_def by (metis not_None_eq subsetD)

lemma admit_ok:
  assumes ok: "pool_ok P check psize pl" and adm: "admissible P pl tx = Inr ()"
    and auth: "authenticate P (pl_params pl) (cs_chain_id (pl_state pl)) tx = Inr auth"
    and ver: "verify_proof check (pl_params pl) auth backend tx = Inr ()"
    and v: "verify_and_admit P check encode psize auth backend tx pl = (Inr r, q)"
  shows "pool_ok P check psize q" "live_pool pl \<Longrightarrow> live_pool q" "pl_state q = pl_state pl" "pl_params q = pl_params pl"
    "pl_max q = pl_max pl" "(txid P tx, tx) \<in> set (pl_mempool q)"
proof -
  note A = admissible_Inr [OF adm]
  let ?m = "make_room (txid P tx) pl"
  note M = make_room_spec [OF ok A(1)]
  then have okm: "pool_ok P check psize ?m" and sub: "set (pl_mempool ?m) \<subseteq> set (pl_mempool pl)"
    and same: "pl_state ?m = pl_state pl" "pl_params ?m = pl_params pl" "pl_max ?m = pl_max pl" by auto
  have fresh: "txid P tx \<notin> set (keys (pl_mempool ?m))" using A(1) sub by (auto simp: keys_def)
  obtain fp where fp: "tx_fingerprint P psize tx = Inr fp" using v ver by (auto simp: verify_and_admit_def Let_def split: sum.splits)
  let ?q = "?m\<lparr>pl_mempool := pl_mempool ?m @ [(txid P tx, tx)], pl_admitted := pl_admitted ?m + 1,
      pl_verified := AList.update (txid P tx) fp (pl_verified ?m),
      pl_reserved_nf := foldl (\<lambda>d nf. AList.update nf (txid P tx) d) (pl_reserved_nf ?m) (tx_nullifiers tx),
      pl_reserved_cm := foldl (\<lambda>d cm. AList.update cm (txid P tx) d) (pl_reserved_cm ?m) (tx_input_cms tx)\<rparr>"
  have q: "q = ?q" using v ver fp fresh by (simp add: verify_and_admit_def Let_def update_fresh)
  show "pl_state q = pl_state pl" "pl_params q = pl_params pl" "pl_max q = pl_max pl" "(txid P tx, tx) \<in> set (pl_mempool q)"
    using same by (simp_all add: q)
  show "live_pool q" if "live_pool pl" using that sub A(2) same by (auto simp: q live_pool_def)
  have R: "reserves tx_nullifiers (pl_mempool q) (pl_reserved_nf q)" "reserves tx_input_cms (pl_mempool q) (pl_reserved_cm q)"
  proof -
    note r = ok [unfolded pool_ok_def, THEN conjunct2, THEN conjunct1] ok [unfolded pool_ok_def, THEN conjunct2, THEN conjunct2, THEN conjunct1]
    note m = okm [unfolded pool_ok_def, THEN conjunct2, THEN conjunct1] okm [unfolded pool_ok_def, THEN conjunct2, THEN conjunct2, THEN conjunct1]
    have "\<forall>nf\<in>set (tx_nullifiers tx). map_of (pl_reserved_nf ?m) nf = None" "\<forall>cm\<in>set (tx_input_cms tx). map_of (pl_reserved_cm ?m) cm = None"
      using A(3,4) reserves_free [OF r(1) m(1) sub] reserves_free [OF r(2) m(2) sub] by blast+
    then show "reserves tx_nullifiers (pl_mempool q) (pl_reserved_nf q)" "reserves tx_input_cms (pl_mempool q) (pl_reserved_cm q)"
      using okm by (simp_all add: q reserves_add pool_ok_def)
  qed
  have room: "int (length (pl_mempool q)) \<le> max 0 (pl_max q)"
  proof (cases "int (length (pl_mempool pl)) < pl_max pl")
    case True
    then have "?m = pl" using M by blast
    with True show ?thesis by (simp add: q)
  next
    case False
    then have "0 < pl_max pl" using A(5) ok by (cases "pl_mempool pl") (auto simp: pool_ok_def)
    then show ?thesis using M same by (auto simp: q)
  qed
  have "authentic P check q tx" using auth ver same by (auto simp: q authentic_def)
  moreover have "authentic P check q x = authentic P check ?m x" for x by (rule authentic_cong) (simp_all add: q)
  moreover have "distinct (keys (pl_mempool q))" using okm fresh by (simp add: q pool_ok_def keys_append)
  moreover have "map_of (pl_verified q) tid = map_of (pl_verified ?m) tid" if "(tid, x) \<in> set (pl_mempool ?m)" for tid x
    using that fresh keys_mem by (fastforce simp: q)
  ultimately show "pool_ok P check psize q"
    using okm R room fp unfolding pool_ok_def by (fastforce simp: q)
qed

lemma submit_cases:
  assumes "submit P check encode psize backend tx pl = (Inr r, q)"
  obtains "same_pool pl q" "\<exists>e. r = Inl e"
  | auth where "r = Inr ()" "admissible P pl tx = Inr ()" "authenticate P (pl_params pl) (cs_chain_id (pl_state pl)) tx = Inr auth"
      "verify_proof check (pl_params pl) auth backend tx = Inr ()" "verify_and_admit P check encode psize auth backend tx pl = (Inr (Inr ()), q)"
proof -
  obtain r1 p1 where a: "authenticate_tx P encode backend tx pl = (Inr r1, p1)"
    using assms by (auto simp: submit_def split: prod.splits sum.splits)
  show thesis
  proof (cases r1)
    case (Inl e)
    show thesis by (rule that(1)) (use assms a Inl authenticate_tx_same [OF a] in \<open>auto simp: submit_def\<close>)
  next
    case (Inr auth)
    note A = authenticate_tx_Inr [OF a [unfolded Inr]]
    have v: "verify_and_admit P check encode psize auth backend tx pl = (Inr r, q)" using assms a Inr A(1) by (simp add: submit_def)
    show thesis
    proof (cases "verify_proof check (pl_params pl) auth backend tx")
      case (Inl e)
      obtain r2 p2 where rr: "remember_refusal P encode tx (backend_name pl backend)
          (pl\<lparr>pl_refused := pl_refused pl + 1, pl_bad_proofs := pl_bad_proofs pl + 1\<rparr>) = (r2, p2)" by fastforce
      with remember_refusal_same [OF this] v Inl show thesis
        by (intro that(1)) (auto simp: verify_and_admit_def same_pool_def)
    next
      case (Inr u)
      then have "r = Inr ()" using v by (auto simp: verify_and_admit_def Let_def split: sum.splits)
      then show thesis using that(2) A v Inr by simp
    qed
  qed
qed

lemma submit_ok:
  assumes "submit P check encode psize backend tx pl = (Inr r, q)" "pool_ok P check psize pl"
  shows "pool_ok P check psize q" "live_pool pl \<Longrightarrow> live_pool q" "pl_max q = pl_max pl" "pl_params q = pl_params pl"
    "pl_state q = pl_state pl"
proof -
  have "pool_ok P check psize q \<and> (live_pool pl \<longrightarrow> live_pool q) \<and> pl_max q = pl_max pl \<and> pl_params q = pl_params pl \<and> pl_state q = pl_state pl"
    using assms(1)
  proof (cases rule: submit_cases)
    case 1
    then show ?thesis using assms(2) same_pool_ok [OF 1(1)] same_pool_live [OF 1(1)] by (simp add: same_pool_def)
  next
    case (2 auth)
    show ?thesis using admit_ok [OF assms(2) 2(2-5)] by simp
  qed
  then show "pool_ok P check psize q" "live_pool pl \<Longrightarrow> live_pool q" "pl_max q = pl_max pl" "pl_params q = pl_params pl"
    "pl_state q = pl_state pl" by simp_all
qed

lemma validate_block_pool:
  assumes "validate_block P check why psize b pl = Inr (r, q)" "pool_ok P check psize pl"
  shows "pool_ok P check psize q" "live_pool pl \<Longrightarrow> live_pool q" "pl_max q = pl_max pl"
proof -
  let ?f = "\<lambda>d tx. bindR (tx_fingerprint P psize tx) (\<lambda>fp. Inr (if txid P tx \<in> set (keys d) then d else AList.update (txid P tx) fp d))"
  have grow: "map_of d k = Some v \<longrightarrow> map_of d' k = Some v" if "foldR ?f d txs = Inr d'" for d d' txs k v
    by (rule foldR_invariant [where I = "\<lambda>x. map_of d k = Some v \<longrightarrow> map_of x k = Some v", OF that]) (auto simp: set_keys)
  have "\<exists>d. q = pl\<lparr>pl_verified := d\<rparr> \<and> (\<forall>k v. map_of (pl_verified pl) k = Some v \<longrightarrow> map_of d k = Some v)"
  proof (cases r)
    case (Inl e)
    obtain u where "check_block P (chain_vt P check why (pl_state pl)) (already_verified P psize pl) b (pl_state pl) = Inr u"
      using assms(1) by (auto simp: validate_block_def)
    with Inl have "q = pl\<lparr>pl_verified := pl_verified pl\<rparr>" using assms(1) by (cases u) (auto simp: validate_block_def)
    then show ?thesis by blast
  next
    case (Inr u)
    obtain w where w: "check_block P (chain_vt P check why (pl_state pl)) (already_verified P psize pl) b (pl_state pl) = Inr w"
      using assms(1) by (auto simp: validate_block_def)
    then obtain d where "foldR ?f (pl_verified pl) (b_transactions b) = Inr d" "q = pl\<lparr>pl_verified := d\<rparr>"
      using assms(1) Inr by (cases w) (auto simp: validate_block_def)
    then show ?thesis using grow by blast
  qed
  then obtain d where d: "q = pl\<lparr>pl_verified := d\<rparr>" "\<forall>k v. map_of (pl_verified pl) k = Some v \<longrightarrow> map_of d k = Some v" by blast
  then show "pool_ok P check psize q" using assms(2) by (fastforce simp: pool_ok_def authentic_def)
  show "live_pool pl \<Longrightarrow> live_pool q" "pl_max q = pl_max pl" using d(1) by (simp_all add: live_pool_def)
qed

lemma apply_block_kept: "apply_block P b s = Inr (fees, s') \<Longrightarrow> cs_chain_id s' = cs_chain_id s \<and> cs_params s' = cs_params s"
proof -
  have "cs_chain_id y = cs_chain_id s \<and> cs_params y = cs_params s" if "foldR (\<lambda>s tx. apply_transaction P tx s) s txs = Inr y" for y txs
    by (rule foldR_invariant [where I = "\<lambda>x. cs_chain_id x = cs_chain_id s \<and> cs_params x = cs_params s", OF that])
      (auto simp: apply_transaction_def)
  then show "apply_block P b s = Inr (fees, s') \<Longrightarrow> ?thesis" by (force simp: apply_block_def split: if_splits)
qed

lemma evict_all:
  "pool_ok P check psize q \<Longrightarrow> pool_ok P check psize (foldl (\<lambda>q tx. evict (txid P tx) q) q txs)
    \<and> pl_state (foldl (\<lambda>q tx. evict (txid P tx) q) q txs) = pl_state q \<and> pl_max (foldl (\<lambda>q tx. evict (txid P tx) q) q txs) = pl_max q"
  by (induction txs arbitrary: q) (simp_all add: evict_ok)

lemma sweep_all:
  assumes "pool_ok P check psize q" "set (pl_mempool q) \<subseteq> set done \<union> set xs"
    and "\<forall>(tid, tx)\<in>set (pl_mempool q) \<inter> set done. is_ok (check_transaction (\<lambda>_. Inr ()) False {} {} tx (pl_state q))"
  shows "pool_ok P check psize (foldl sweep q xs) \<and> live_pool (foldl sweep q xs) \<and> pl_max (foldl sweep q xs) = pl_max q"
  using assms
proof (induction xs arbitrary: q "done")
  case Nil
  then have "set (pl_mempool q) \<inter> set done = set (pl_mempool q)" by auto
  with Nil show ?case by (fastforce simp: live_pool_def is_ok_iff)
next
  case (Cons x xs)
  obtain tid tx where x: "x = (tid, tx)" by fastforce
  have st: "pl_state (sweep q x) = pl_state q" "pl_max (sweep q x) = pl_max q" by (simp_all add: sweep_def x)
  have ok: "pool_ok P check psize (sweep q x)" using Cons.prems(1) evict_ok by (simp add: sweep_def x)
  have sub: "set (pl_mempool (sweep q x)) \<subseteq> set (pl_mempool q)" by (auto simp: sweep_def x evict_mempool set_delete)
  have "x \<notin> set (pl_mempool (sweep q x)) \<or> is_ok (check_transaction (\<lambda>_. Inr ()) False {} {} tx (pl_state q))"
    by (simp add: sweep_def x evict_mempool set_delete)
  then have "\<forall>(i, y)\<in>set (pl_mempool (sweep q x)) \<inter> set (done @ [x]). is_ok (check_transaction (\<lambda>_. Inr ()) False {} {} y (pl_state (sweep q x)))"
    using Cons.prems(3) sub x st by auto
  moreover have "set (pl_mempool (sweep q x)) \<subseteq> set (done @ [x]) \<union> set xs" using Cons.prems(2) sub by auto
  ultimately show ?case using Cons.IH [OF ok, of "done @ [x]"] st by simp
qed

lemma node_apply_ok:
  assumes "node_apply P b pl = Inr (fees, q)" "pool_ok P check psize pl"
  shows "pool_ok P check psize q \<and> live_pool q \<and> pl_max q = pl_max pl"
proof -
  obtain st where st: "apply_block P b (pl_state pl) = Inr (fees, st)" using assms(1) by (auto simp: node_apply_def Let_def)
  let ?p = "foldl (\<lambda>q tx. evict (txid P tx) q) (pl\<lparr>pl_state := st\<rparr>) (b_transactions b)"
  have "pool_ok P check psize (pl\<lparr>pl_state := st\<rparr>)" using assms(2) apply_block_kept [OF st] by (simp add: pool_ok_def authentic_def)
  then have p: "pool_ok P check psize ?p" "pl_max ?p = pl_max pl" using evict_all [of P check psize "pl\<lparr>pl_state := st\<rparr>"] by simp_all
  have q: "q = foldl sweep ?p (pl_mempool ?p)" using assms(1) st by (simp add: node_apply_def Let_def)
  show ?thesis unfolding q using sweep_all [OF p(1), of "[]" "pl_mempool ?p"] p(2) by simp
qed

section \<open>Runs of a node\<close>

inductive pool_step :: "prims \<Rightarrow> proof_checker \<Rightarrow> proof_encoder \<Rightarrow> proof_sizer \<Rightarrow> pool \<Rightarrow> pool \<Rightarrow> bool"
  for P check encode psize where
  submitted: "submit P check encode psize backend tx pl = (Inr r, q) \<Longrightarrow> pool_step P check encode psize pl q"
| evicted: "pool_step P check encode psize pl (evict tid pl)"
| validated: "validate_block P check why psize b pl = Inr (r, q) \<Longrightarrow> pool_step P check encode psize pl q"
| applied: "node_apply P b pl = Inr (fees, q) \<Longrightarrow> pool_step P check encode psize pl q"

inductive pool_run :: "prims \<Rightarrow> proof_checker \<Rightarrow> proof_encoder \<Rightarrow> proof_sizer \<Rightarrow> pool \<Rightarrow> pool \<Rightarrow> bool"
  for P check encode psize p0 where
  start: "pool_run P check encode psize p0 p0"
| step: "pool_run P check encode psize p0 p \<Longrightarrow> pool_step P check encode psize p q \<Longrightarrow> pool_run P check encode psize p0 q"

lemma new_pool_ok [simp]: "pool_ok P check psize (new_pool params st cap)" "live_pool (new_pool params st cap)"
  "pl_max (new_pool params st cap) = cap"
  by (simp_all add: new_pool_def pool_ok_def reserves_def live_pool_def)

lemma evict_live: "live_pool pl \<Longrightarrow> live_pool (evict tid pl)"
  by (auto simp: live_pool_def evict_mempool set_delete)

lemma step_ok:
  assumes "pool_step P check encode psize pl q" "pool_ok P check psize pl" "live_pool pl"
  shows "pool_ok P check psize q \<and> live_pool q \<and> pl_max q = pl_max pl"
  using assms(1)
proof cases
  case (submitted backend tx r)
  then show ?thesis using submit_ok [OF submitted assms(2)] assms(3) by simp
next
  case (evicted tid)
  then show ?thesis using assms(2,3) by (simp add: evict_ok evict_live)
next
  case (validated why b r)
  then show ?thesis using validate_block_pool [OF validated assms(2)] assms(3) by simp
next
  case (applied b fees)
  then show ?thesis using node_apply_ok [OF applied assms(2)] by simp
qed

lemma run_ok:
  assumes "pool_run P check encode psize (new_pool params st cap) pl"
  shows "pool_ok P check psize pl \<and> live_pool pl \<and> pl_max pl = cap"
  using assms
proof induction
  case (step p q)
  then show ?case using step_ok by metis
qed simp

text \<open>C9: What a mempool holds is consistent. Whatever is submitted, evicted, validated and applied,
  in any order and as long as no call raises, a node holds at most \<open>max_mempool\<close> transactions; each
  is held under its own id, authenticates under the chain's parameters, passed a proof check and
  is still spendable against the node's ledger; and no two of them spend one note or publish one
  nullifier.\<close>

theorem mempool_never_conflicts:
  assumes "pool_run P check encode psize (new_pool params st cap) pl"
  shows "int (length (pl_mempool pl)) \<le> max 0 cap
    \<and> (\<forall>(tid, tx)\<in>set (pl_mempool pl). tid = txid P tx \<and> authentic P check pl tx
        \<and> check_transaction (\<lambda>_. Inr ()) False {} {} tx (pl_state pl) = Inr ())
    \<and> (\<forall>(i, x)\<in>set (pl_mempool pl). \<forall>(j, y)\<in>set (pl_mempool pl). i \<noteq> j \<longrightarrow>
        set (tx_nullifiers x) \<inter> set (tx_nullifiers y) = {} \<and> set (tx_input_cms x) \<inter> set (tx_input_cms y) = {})"
proof -
  have ok: "pool_ok P check psize pl" "live_pool pl" "pl_max pl = cap" using run_ok [OF assms] by simp_all
  have "i = j" if "(i, x) \<in> set (pl_mempool pl)" "(j, y) \<in> set (pl_mempool pl)"
    "k \<in> set (tx_nullifiers x) \<inter> set (tx_nullifiers y) \<or> k \<in> set (tx_input_cms x) \<inter> set (tx_input_cms y)" for i x j y k
    using that ok(1) reserves_unique by (fastforce simp: pool_ok_def)
  then show ?thesis using ok by (fastforce simp: pool_ok_def live_pool_def)
qed

section \<open>Blocks that are built check\<close>

lemma subseq_mem: "subseq xs ys \<Longrightarrow> x \<in> set xs \<Longrightarrow> x \<in> set ys"
  by (metis subseq_conv_nths set_nths_subset subsetD)

lemma build_chosen:
  "foldR (build_step P limit) bd txs = Inr bd' \<Longrightarrow> \<exists>xs. bd_chosen bd' = bd_chosen bd @ xs \<and> subseq xs txs"
proof (induction txs arbitrary: bd)
  case (Cons tx txs)
  obtain bd1 where b1: "build_step P limit bd tx = Inr bd1" "foldR (build_step P limit) bd1 txs = Inr bd'" using Cons.prems by auto
  have "bd_chosen bd1 = bd_chosen bd \<or> bd_chosen bd1 = bd_chosen bd @ [tx]"
    using b1(1) by (auto simp: build_step_def Let_def split: if_splits sum.splits)
  with Cons.IH [OF b1(2)] show ?case by force
qed simp

lemma build_loop:
  assumes "foldR (build_step P limit) bd txs = Inr bd'"
    and "foldR (shadow_step P vt already) (Inr sh0) (bd_chosen bd) = Inr (Inr (bd_shadow bd))"
    and "\<forall>tx\<in>set (bd_chosen bd'). already tx = Inr True \<or> already tx = Inr False \<and> vt tx = Inr ()"
  shows "foldR (shadow_step P vt already) (Inr sh0) (bd_chosen bd') = Inr (Inr (bd_shadow bd'))"
  using assms
proof (induction txs arbitrary: bd)
  case (Cons tx txs)
  obtain bd1 where b1: "build_step P limit bd tx = Inr bd1" "foldR (build_step P limit) bd1 txs = Inr bd'" using Cons.prems(1) by auto
  have "foldR (shadow_step P vt already) (Inr sh0) (bd_chosen bd1) = Inr (Inr (bd_shadow bd1))"
  proof (cases "bd1 = bd")
    case False
    let ?sh = "bd_shadow bd" and ?full = "case limit of None \<Rightarrow> False | Some n \<Rightarrow> n \<le> int (length (bd_chosen bd))"
    have f: "\<not> ?full" using b1(1) False by (auto simp: build_step_def)
    have c: "check_transaction (\<lambda>_. Inr ()) False (sh_nf ?sh) (sh_cm ?sh) tx (sh_state ?sh) = Inr ()"
      using b1(1) False f by (cases "check_transaction (\<lambda>_. Inr ()) False (sh_nf ?sh) (sh_cm ?sh) tx (sh_state ?sh)") (auto simp: build_step_def Let_def)
    obtain s where s: "apply_transaction P tx (sh_state ?sh) = Inr s" and
      bd1: "bd1 = \<lparr>bd_chosen = bd_chosen bd @ [tx],
         bd_shadow = \<lparr>sh_state = s, sh_nf = sh_nf ?sh \<union> set (tx_nullifiers tx), sh_cm = sh_cm ?sh \<union> set (tx_input_cms tx)\<rparr>\<rparr>"
      using b1(1) f c by (auto simp: build_step_def Let_def)
    have "tx \<in> set (bd_chosen bd')" using build_chosen [OF b1(2)] bd1 by auto
    then obtain v where v: "already tx = Inr v" "v \<or> vt tx = Inr ()" using Cons.prems(3) by blast
    then have "check_transaction vt (\<not> v) (sh_nf ?sh) (sh_cm ?sh) tx (sh_state ?sh) = Inr ()" using c by (auto simp: check_transaction_def)
    then have "shadow_step P vt already (Inr ?sh) tx = Inr (Inr (bd_shadow bd1))" using v(1) s by (simp add: shadow_step_def bd1)
    then show ?thesis using Cons.prems(2) by (simp add: bd1 foldR_snoc)
  qed (use Cons.prems(2) in simp)
  then show ?case using Cons.IH [OF b1(2)] Cons.prems(3) by simp
qed simp

lemma verified_loop:
  "\<forall>tx\<in>set txs. \<exists>fp. tx_fingerprint P psize tx = Inr fp \<Longrightarrow>
    \<exists>d. foldR (\<lambda>d tx. bindR (tx_fingerprint P psize tx) (\<lambda>fp.
      Inr (if txid P tx \<in> set (keys d) then d else AList.update (txid P tx) fp d))) d0 txs = Inr d"
proof (induction txs arbitrary: d0)
  case (Cons tx txs)
  then obtain fp where "tx_fingerprint P psize tx = Inr fp" by auto
  moreover obtain d where "foldR (\<lambda>d tx. bindR (tx_fingerprint P psize tx) (\<lambda>fp.
      Inr (if txid P tx \<in> set (keys d) then d else AList.update (txid P tx) fp d)))
      (if txid P tx \<in> set (keys d0) then d0 else AList.update (txid P tx) fp d0) txs = Inr d"
    using Cons by fastforce
  ultimately show ?case by simp
qed simp

lemma validate_accepts:
  assumes "check_block P (chain_vt P check why (pl_state pl)) (already_verified P psize pl) b (pl_state pl) = Inr (Inr ())"
    and "\<forall>tx\<in>set (b_transactions b). \<exists>fp. tx_fingerprint P psize tx = Inr fp"
  shows "\<exists>q. validate_block P check why psize b pl = Inr (Inr (), q)"
  using assms(1) verified_loop [OF assms(2), of "pl_verified pl"] by (auto simp: validate_block_def)


lemma length_update_new: "length (AList.update k v d) = (if k \<in> set (keys d) then length d else length d + 1)"
  by (induction d) (auto simp: keys_def)

lemma verify_and_admit_Inr:
  assumes "verify_proof check (pl_params pl) auth backend tx = Inr ()" "int (length (pl_mempool pl)) < pl_max pl"
    "tx_fingerprint P psize tx = Inr fp"
  obtains q where "verify_and_admit P check encode psize auth backend tx pl = (Inr (Inr ()), q)"
    "pl_mempool q = AList.update (txid P tx) tx (pl_mempool pl)" "pl_params q = pl_params pl" "pl_state q = pl_state pl" "pl_verified q = AList.update (txid P tx) fp (pl_verified pl)" "pl_max q = pl_max pl"
    "pl_reserved_nf q = foldl (\<lambda>d nf. AList.update nf (txid P tx) d) (pl_reserved_nf pl) (tx_nullifiers tx)"
  using assms by (auto simp: verify_and_admit_def Let_def make_room.simps [of _ pl])

section \<open>Ways around the guarantees\<close>

lemma same_fingerprint:
  assumes "tx_binding tx' = tx_binding tx" "tx_v tx' = tx_v tx" "tx_proofs tx' = tx_proofs tx"
  shows "txid P tx' = txid P tx" "tx_fingerprint P psize tx' = tx_fingerprint P psize tx"
    "already_verified P psize pl tx' = already_verified P psize pl tx"
proof -
  show t: "txid P tx' = txid P tx" using assms by (simp add: txid_def)
  show f: "tx_fingerprint P psize tx' = tx_fingerprint P psize tx"
    using assms by (simp add: tx_fingerprint_def proof_bytes_def t cong: map_cong)
  show "already_verified P psize pl tx' = already_verified P psize pl tx" by (simp add: already_verified_def t f)
qed

text \<open>C31: The cache of verified transactions lets altered bodies into blocks. Once a node has verified
  a transaction, any other body with the same \<open>binding\<close>, vector and proofs counts as verified too,
  whatever its inputs, outputs, fee and signatures are; so if the ledger can apply that body, a
  block with it is accepted by the node although no proof check, not even one that refuses
  everything, would pass it.\<close>

theorem verified_cache_admits_forged_body:
  assumes ok: "ledger_ok P (pl_state pl)" and v: "already_verified P psize pl tx = Inr True"
    and same: "tx_binding tx' = tx_binding tx" "tx_v tx' = tx_v tx" "tx_proofs tx' = tx_proofs tx"
    and fits: "check_transaction (\<lambda>_. Inr ()) False {} {} tx' (pl_state pl) = Inr ()" "apply_transaction P tx' (pl_state pl) = Inr s"
  shows "\<exists>b. b_transactions b = [tx'] \<and> (\<forall>check why. \<exists>q. validate_block P check why psize b pl = Inr (Inr (), q))"
proof -
  let ?st = "pl_state pl"
  define b where "b = \<lparr>b_header = \<lparr>bh_height = cs_height ?st + 1, bh_prev_hash = cs_tip ?st, bh_chain_id = cs_chain_id ?st,
      bh_utxo_root = acc_root (cs_utxo s), bh_nf_root = acc_root (cs_nullifiers s),
      bh_tx_root = seal_root P ''tx'' [txid P tx'] default_sparams, bh_ceremony = bh_ceremony (b_header demo_block)\<rparr>,
      b_transactions = [tx']\<rparr>"
  have v': "already_verified P psize pl tx' = Inr True" using v same_fingerprint(3) [OF same] by simp
  then obtain fp where fp: "tx_fingerprint P psize tx' = Inr fp" by (auto simp: already_verified_def)
  have "check_transaction vt False {} {} tx' ?st = Inr ()" for vt using fits(1) by (simp add: check_transaction_def)
  then have "check_block P vt (already_verified P psize pl) b ?st = Inr (Inr ())" for vt
    using v' fits(2) by (simp add: check_block_def b_def compute_tx_root_def state_copy_same [OF ok] shadow_step_def)
  then have "\<forall>check why. \<exists>q. validate_block P check why psize b pl = Inr (Inr (), q)"
    using fp by (intro allI validate_accepts) (simp_all add: b_def)
  then show ?thesis by (intro exI [of _ b]) (simp add: b_def)
qed

text \<open>Two transactions that spend one note both get in when they are verified later than they
  are authenticated, which is what a networked node does with its work queue: nothing looks at
  the reservations again between \<open>authenticate\<close> and the pool. Evicting one of the two then drops
  the reservation the other still needs.\<close>

theorem queued_submissions_conflict:
  assumes auth: "authenticate_tx P encode bx x pl = (Inr (Inr ax), pl)" "authenticate_tx P encode bx y pl = (Inr (Inr ay), pl)"
    and proofs: "verify_proof check (pl_params pl) ax bx x = Inr ()" "verify_proof check (pl_params pl) ay bx y = Inr ()"
    and fps: "tx_fingerprint P psize x = Inr fx" "tx_fingerprint P psize y = Inr fy"
    and ne: "txid P x \<noteq> txid P y" and nf: "nf \<in> set (tx_nullifiers x) \<inter> set (tx_nullifiers y)"
    and room: "int (length (pl_mempool pl)) + 1 < pl_max pl"
  shows "\<exists>q1 q2. verify_and_admit P check encode psize ax bx x pl = (Inr (Inr ()), q1)
    \<and> verify_and_admit P check encode psize ay bx y q1 = (Inr (Inr ()), q2)
    \<and> map_of (pl_mempool q2) (txid P x) = Some x \<and> map_of (pl_mempool q2) (txid P y) = Some y
    \<and> map_of (pl_mempool (evict (txid P x) q2)) (txid P y) = Some y \<and> map_of (pl_reserved_nf (evict (txid P x) q2)) nf = None"
proof -
  have r1: "int (length (pl_mempool pl)) < pl_max pl" using room by simp
  obtain q1 where q1: "verify_and_admit P check encode psize ax bx x pl = (Inr (Inr ()), q1)"
    "pl_mempool q1 = AList.update (txid P x) x (pl_mempool pl)" "pl_params q1 = pl_params pl" "pl_max q1 = pl_max pl"
    by (rule verify_and_admit_Inr [OF proofs(1) r1 fps(1)])
  have r2: "int (length (pl_mempool q1)) < pl_max q1" "verify_proof check (pl_params q1) ay bx y = Inr ()"
    using room proofs(2) by (auto simp: q1 length_update_new)
  obtain q2 where q2: "verify_and_admit P check encode psize ay bx y q1 = (Inr (Inr ()), q2)"
    "pl_mempool q2 = AList.update (txid P y) y (pl_mempool q1)"
    by (rule verify_and_admit_Inr [OF r2(2,1) fps(2)])
  have "map_of (pl_mempool q2) (txid P x) = Some x" "map_of (pl_mempool q2) (txid P y) = Some y"
    using ne by (simp_all add: q2(2) q1(2) update_conv')
  moreover from this have "map_of (pl_mempool (evict (txid P x) q2)) (txid P y) = Some y"
    "map_of (pl_reserved_nf (evict (txid P x) q2)) nf = None"
    using ne nf by (simp_all add: evict_mempool delete_conv') (simp add: evict_def map_of_drop_all)
  ultimately show ?thesis using q1(1) q2(1) by blast
qed

text \<open>A proof under an unknown name leaves a transaction in the pool without its reservations.
  A transaction that is admissible, authentic and proved under the backend asked for is in the
  pool when the size of another of its proofs raises, but the call raises before anything is
  reserved, and the transaction is not counted as verified.\<close>

theorem unknown_proof_leaves_no_reservation:
  assumes "authenticate_tx P encode backend tx pl = (Inr (Inr auth), pl)"
    and "verify_proof check (pl_params pl) auth backend tx = Inr ()" "tx_fingerprint P psize tx = Inl e"
    and "int (length (pl_mempool pl)) < pl_max pl" "nf \<in> set (tx_nullifiers tx)" "cm \<in> set (tx_input_cms tx)"
  shows "\<exists>q. submit P check encode psize backend tx pl = (Inl e, q) \<and> map_of (pl_mempool q) (txid P tx) = Some tx
    \<and> map_of (pl_reserved_nf q) nf = None \<and> map_of (pl_reserved_cm q) cm = None \<and> pl_verified q = pl_verified pl"
proof -
  have "admissible P pl tx = Inr ()"
    using assms(1) by (cases "admissible P pl tx") (auto simp: authenticate_tx_def)
  then have none: "map_of (pl_reserved_nf pl) nf = None" "map_of (pl_reserved_cm pl) cm = None"
    using assms(5,6) by (auto simp: admissible_def check_each_Inr split: if_splits sum.splits option.splits prod.splits)
  let ?q = "pl\<lparr>pl_mempool := AList.update (txid P tx) tx (pl_mempool pl), pl_admitted := pl_admitted pl + 1\<rparr>"
  have "submit P check encode psize backend tx pl = (Inl e, ?q)"
    using assms(1-4) by (simp add: submit_def verify_and_admit_def Let_def make_room.simps [of _ pl])
  with none show ?thesis by (simp add: update_conv')
qed

lemma delete_all: "foldl (\<lambda>d k. AList.delete k d) d ks = filter (\<lambda>(k, _). k \<notin> set ks) d"
proof (induction ks arbitrary: d)
  case Nil
  show ?case by (simp add: case_prod_beta')
next
  case (Cons k ks)
  then show ?case by (auto simp: AList.delete_eq case_prod_beta' intro: filter_cong)
qed

lemma bounded_put_bound:
  assumes "length d \<le> MAX_REFUSED_PROOFS"
  shows "length (bounded_put k v d) \<le> MAX_REFUSED_PROOFS"
proof -
  let ?n = "length d - MAX_REFUSED_PROOFS + 1"
  let ?f = "filter (\<lambda>(k, _). k \<notin> set (take ?n (keys d)))"
  have "?f (take ?n d) = []" by (force simp: filter_empty_conv keys_def take_map)
  then have "?f d = ?f (drop ?n d)" by (metis append_Nil append_take_drop_id filter_append)
  also have "length \<dots> \<le> length d - ?n" by (metis length_drop length_filter_le)
  finally have "length (?f d) \<le> length d - ?n" .
  moreover have "0 < MAX_REFUSED_PROOFS" by (simp add: MAX_REFUSED_PROOFS_def)
  ultimately show ?thesis using assms by (auto simp: bounded_put_def delete_all length_update_new)
qed

text \<open>One of the two refusal caches is bounded. However many refused proofs a node remembers, it
  keeps at most \<open>MAX_REFUSED_PROOFS\<close> fingerprints; but the strike counts grow by one entry for
  every new transaction, because the count is stored before the function that bounds the cache
  looks whether the key is new.\<close>

theorem refusals_bounded_strikes_not:
  assumes "length (pl_refused_proofs pl) \<le> MAX_REFUSED_PROOFS"
    and "distinct (map (txid P) txs)" "\<forall>tx\<in>set txs. txid P tx \<notin> set (keys (pl_strikes pl))"
  shows "length (pl_refused_proofs (foldl (\<lambda>pl tx. snd (remember_refusal P encode tx nm pl)) pl txs)) \<le> MAX_REFUSED_PROOFS
    \<and> length (pl_strikes (foldl (\<lambda>pl tx. snd (remember_refusal P encode tx nm pl)) pl txs)) = length (pl_strikes pl) + length txs"
  using assms
proof (induction txs arbitrary: pl)
  case (Cons tx txs)
  let ?q = "snd (remember_refusal P encode tx nm pl)"
  have "pl_strikes ?q = bounded_put (txid P tx) (strikes_against P pl tx + 1) (AList.update (txid P tx) (strikes_against P pl tx + 1) (pl_strikes pl))"
    by (simp add: remember_refusal_def Let_def split: sum.split)
  then have "pl_strikes ?q = AList.update (txid P tx) (strikes_against P pl tx + 1) (AList.update (txid P tx) (strikes_against P pl tx + 1) (pl_strikes pl))"
    by (simp add: bounded_put_def set_keys update_conv')
  then have s: "length (pl_strikes ?q) = length (pl_strikes pl) + 1" "set (keys (pl_strikes ?q)) = insert (txid P tx) (set (keys (pl_strikes pl)))"
    using Cons.prems(3) by (auto simp: length_update_new set_keys update_conv')
  have r: "length (pl_refused_proofs ?q) \<le> MAX_REFUSED_PROOFS"
    using Cons.prems(1) bounded_put_bound by (auto simp: remember_refusal_def Let_def split: sum.split)
  have d: "distinct (map (txid P) txs)" and new: "\<forall>x\<in>set txs. txid P x \<notin> set (keys (pl_strikes ?q))"
    using Cons.prems(2,3) by (auto simp: s(2)) (metis imageI)
  show ?case using Cons.IH [OF r d new] s(1) by simp
qed simp

section \<open>A transaction that is admitted\<close>

text \<open>Primitives whose digests show the end of what was hashed, and a transaction whose vector passes
  the rows: they run every operation above on a concrete input.\<close>

definition rev_prims :: prims where
  "rev_prims = sample_prims\<lparr>shake256 := (\<lambda>x n. pad_to n (rev x))\<rparr>"

lemma last_note_id:
  "\<exists>w. h_preimage ''note-id'' [PList (map PInt [0, 0, 0, 0, 0])] = Inr (w @ [48])"
  "\<exists>w. h_preimage ''note-id'' [PList (map PInt [0, 0, 0, 0, 1])] = Inr (w @ [49])"
  by (simp_all add: h_preimage_def len_prefixed_def chain_domain_def str_int_def str_nat.simps digit_char_def byte_of_char_def)

lemma rev_hex:
  assumes "h_preimage tag ps = Inr (w @ [a])"
  shows "\<exists>t. h_hex rev_prims tag ps = [hex_char (unat a div 16), hex_char (unat a mod 16)] @ t"
  using h_hex_eq [OF assms, of rev_prims] by (simp add: rev_prims_def sample_prims_def pad_to_def hex_of_def)

lemma rev_note_ids: "note_id rev_prims [0, 0, 0, 0, 0] \<noteq> note_id rev_prims [0, 0, 0, 0, 1]"
proof -
  obtain u w where "h_preimage ''note-id'' [PList (map PInt [0, 0, 0, 0, 0])] = Inr (u @ [48])"
    "h_preimage ''note-id'' [PList (map PInt [0, 0, 0, 0, 1])] = Inr (w @ [49])" using last_note_id by blast
  from rev_hex [OF this(1)] rev_hex [OF this(2)] show ?thesis unfolding note_id_def by (auto simp: hex_char_def)
qed

lemma demo_layout:
  assumes "length (sy_rows sys) = 5" and ts: "ts = tx_build P q sys 5 1 1 1"
  shows "length (ts_rows ts) = 17" "ts_note_rows ts = [[0,1,2,3,4],[5,6,7,8,9]]" "ts_sum_row ts = 10" "ts_asset_rows ts = [11]"
   "ts_range_rows ts = [12]" "ts_bit_rows ts = [13]" "ts_nf_rows ts = [14]" "ts_owner_rows ts = [15]" "ts_bind_row ts = 16"
   "ts_k ts = 1" "ts_m_out ts = 1"
  using assms(1) unfolding ts by (simp_all add: tx_build_def add_rows_def add_note_rows_def upt_rec)

definition demo_slip :: "int \<Rightarrow> int \<Rightarrow> int \<Rightarrow> (string \<times> bytes) list \<Rightarrow> transaction" where
  "demo_slip f beta k ps = \<lparr>tx_version = TX_VERSION, tx_chain_id = chain_id demo_tx_params, tx_fee = 0,
     tx_inputs = [\<lparr>in_cm = note_id rev_prims [0, 0, 0, 0, 0],
       in_nullifier = nullifier_id rev_prims (note_id rev_prims [0, 0, 0, 0, 0]) 0, in_owner_pub = ''00'', in_signature = ''00''\<rparr>],
     tx_output_cms = [note_id rev_prims [0, 0, 0, 0, 1]],
     tx_v = [0, 0, 0, 0, 0, 0, 0, 0, 0, 1, 0, 0, 0, 0, 0, f, beta], tx_binding = beta + k * field_P, tx_proofs = (''ssh5'', [1]) # ps,
     tx_output_notes = [], tx_output_tags = []\<rparr>"

lemma length_rev_note_id: "length (note_id rev_prims v) \<le> 100"
  by (simp add: note_id_def h_hex_def rev_prims_def sample_prims_def h_bytes_def h_preimage_def split: sum.splits) auto

lemma demo_slip_authentic:
  obtains f beta ts v where
    "\<forall>k ps. authenticate rev_prims demo_tx_params (chain_id demo_tx_params) (demo_slip f beta k ps) = Inr (ts, v, beta)" "0 \<le> beta" "beta < field_P"
proof -
  obtain sys where sys: "note_system rev_prims field_P demo_tx_params = Inr sys" "length (sy_rows sys) = 5"
    by (simp add: note_system_def mq_system_def demo_tx_params_def Let_def)
  define ts where "ts = tx_build rev_prims field_P sys 5 1 1 1"
  note l = demo_layout [OF sys(2) ts_def]
  have ts: "tx_system rev_prims field_P demo_tx_params (Suc 0) (Suc 0) = Inr ts"
    by (simp add: tx_system_def sys(1)) (simp add: demo_tx_params_def ts_def)
  obtain f where f: "owner_field rev_prims ''00'' = Inr f"
    unfolding owner_field_def using h_field_ok [of "[PStr ''00'']" _ "''owner''" rev_prims] by auto
  let ?c = "note_id rev_prims [0, 0, 0, 0, 0]" and ?d = "note_id rev_prims [0, 0, 0, 0, 1]"
  have "\<exists>b. binding_scalar rev_prims (chain_id demo_tx_params) TX_VERSION 0 [?c] [?d] [''00''] [] [] = Inr b"
    unfolding binding_scalar_def bind_parts_def
    by (rule h_field_ok) (use length_rev_note_id [of "[0, 0, 0, 0, 0]"] length_rev_note_id [of "[0, 0, 0, 0, 1]"] in \<open>simp_all add: demo_tx_params_def DEMO_def TX_VERSION_def str_int_def str_nat.simps\<close>)
  then obtain b where b: "binding_scalar rev_prims (chain_id demo_tx_params) TX_VERSION 0 [?c] [?d] [''00''] [] [] = Inr b" ..
  have b0: "0 \<le> b" "b < field_P" "b mod field_P = b" using b by (auto simp: binding_scalar_def h_field_def field_P_def)
  have f0: "f mod field_P = f" using f by (auto simp: owner_field_def h_field_def)
  have "length (str_int b) \<le> 77" using b0 length_str_nat [of "nat b" 76] by (simp add: str_int_def field_P_def)
  then obtain msg where msg: "sig_message rev_prims b = Inr msg"
    by (simp add: sig_message_def h_bytes_def h_preimage_def chain_domain_def)
  have "fromhex ''00'' = Some [0]" by code_simp
  then have sig: "verify_sig rev_prims ''00'' m ''00''" for m by (simp add: verify_sig_def rev_prims_def sample_prims_def)
  have "authenticate rev_prims demo_tx_params (chain_id demo_tx_params) (demo_slip f b k ps)
      = Inr (ts, [0, 0, 0, 0, 0, 0, 0, 0, 0, 1, 0, 0, 0, 0, 0, f, b], b)" for k ps
  proof -
    let ?tx = "demo_slip f b k ps"
    have v: "map (\<lambda>a. a mod field_P) (tx_v ?tx) = tx_v ?tx" using b0(3) f0 by (simp add: demo_slip_def) (simp add: field_P_def)
    have shape: "check_shape demo_tx_params (chain_id demo_tx_params) ?tx = Inr ()"
      by (simp add: check_shape_def demo_slip_def tx_input_cms_def tx_nullifiers_def)
    have slots: "[0..<n_slots ts] = [0, 1]" by (simp add: n_slots_def l(10,11) upt_conv_Cons)
    have rows: "check_rows rev_prims ts (tx_v ?tx) ?tx = Inr ()"
      unfolding check_rows_def slots by (simp add: note_vector_of_def check_each_def l demo_slip_def tx_input_cms_def)
    have spend: "check_spend rev_prims ts (tx_v ?tx) msg (0, hd (tx_inputs ?tx)) = Inr ()"
      by (simp add: check_spend_def l demo_slip_def f sig)
    have fields: "tx_version ?tx = TX_VERSION" "tx_fee ?tx = 0" "tx_input_cms ?tx = [?c]" "tx_output_cms ?tx = [?d]"
      "map in_owner_pub (tx_inputs ?tx) = [''00'']" "tx_output_notes ?tx = []" "tx_output_tags ?tx = []" "tx_binding ?tx = b + k * field_P"
      "length (tx_inputs ?tx) = Suc 0" "enumerate 0 (tx_inputs ?tx) = [(0, hd (tx_inputs ?tx))]" "length (tx_v ?tx) = 17" "tx_v ?tx ! 16 = b"
      by (simp_all add: demo_slip_def tx_input_cms_def)
    have c: "chain_or demo_tx_params (chain_id demo_tx_params) = chain_id demo_tx_params" by (simp add: chain_or_def)
    have "authenticate rev_prims demo_tx_params (chain_id demo_tx_params) ?tx = Inr (ts, tx_v ?tx, b)"
      unfolding authenticate_def Let_def c v fields
      using shape rows spend ts b b0(3) msg fields(12) by (simp add: check_each_def l(1,9))
    then show ?thesis by (simp add: demo_slip_def)
  qed
  then show thesis using that b0 by blast
qed

lemma demo_ledger:
  obtains st where "ledger_ok rev_prims st" "cs_params st = demo_tx_params" "cs_chain_id st = chain_id demo_tx_params"
    "a_items (cs_utxo st) = [note_id rev_prims [0, 0, 0, 0, 0]]" "gone (cs_utxo st) = {}" "a_items (cs_nullifiers st) = []"
proof -
  have "digest_law rev_prims" by (simp add: digest_law_def rev_prims_def sample_prims_def)
  from state_new_ok [OF this, of demo_tx_params "[]"] obtain s0 where
    s0: "state_new rev_prims demo_tx_params [] = Inr s0" "ledger_ok rev_prims s0" "a_items (cs_utxo s0) = []" "gone (cs_utxo s0) = {}"
    "a_items (cs_nullifiers s0) = []" "cs_height s0 = - 1" "cs_params s0 = demo_tx_params" by blast
  obtain s1 where s1: "issue rev_prims (note_id rev_prims [0, 0, 0, 0, 0]) s0 = Inr s1" "ledger_ok rev_prims s1"
    "a_items (cs_utxo s1) = [note_id rev_prims [0, 0, 0, 0, 0]]" "gone (cs_utxo s1) = {}" "cs_nullifiers s1 = cs_nullifiers s0"
    "cs_params s1 = demo_tx_params"
    using issue_ok [OF s0(2), of "note_id rev_prims [0, 0, 0, 0, 0]"] s0 by (auto simp: WITNESS_HEIGHT_def)
  have "cs_chain_id s0 = chain_id demo_tx_params" using s0(1) by (auto simp: state_new_def)
  moreover have "cs_chain_id s1 = cs_chain_id s0" using s1(1) by (auto simp: issue_def split: if_splits)
  ultimately show thesis using that s1 s0 by simp
qed
lemma demo_fits:
  assumes "ledger_ok rev_prims st" "a_items (cs_utxo st) = [c]" "gone (cs_utxo st) = {}" "a_items (cs_nullifiers st) = []"
    and tx: "tx_input_cms tx = [c]" "tx_output_cms tx = [d]" "d \<noteq> c" "tx_nullifiers tx = [n]"
  shows "check_transaction (\<lambda>_. Inr ()) False {} {} tx st = Inr ()"
    and "\<exists>s. apply_transaction rev_prims tx st = Inr s"
proof -
  have ok: "acc_ok rev_prims (cs_utxo st)" "acc_ok rev_prims (cs_nullifiers st)" using assms(1) by (simp_all add: ledger_ok_def)
  show "check_transaction (\<lambda>_. Inr ()) False {} {} tx st = Inr ()"
    using acc_live_ok [OF ok(1)] acc_live_ok [OF ok(2)] ever_contained_ok [OF ok(1)] assms(2-4) tx
    by (simp add: check_transaction_def)
  have "delta_fits (tx_delta tx) st" "has_room (length (d_nullifiers (tx_delta tx))) (length (d_created (tx_delta tx))) st"
    using assms by (auto simp: delta_fits_def has_room_def tx_delta_def WITNESS_HEIGHT_def)
  then obtain s where "apply_delta rev_prims (tx_delta tx) st = Inr s" using apply_delta_ok [OF assms(1)] by blast
  then show "\<exists>s. apply_transaction rev_prims tx st = Inr s"
    by (auto simp: apply_delta_def apply_transaction_def tx_delta_def Let_def)
qed

lemma demo_slip_cms: "tx_input_cms (demo_slip f beta k ps) = [note_id rev_prims [0, 0, 0, 0, 0]]"
  "tx_output_cms (demo_slip f beta k ps) = [note_id rev_prims [0, 0, 0, 0, 1]]"
  "tx_nullifiers (demo_slip f beta k ps) = [nullifier_id rev_prims (note_id rev_prims [0, 0, 0, 0, 0]) 0]"
  by (simp_all add: demo_slip_def tx_input_cms_def tx_nullifiers_def)

lemma demo_slip_fits:
  assumes "ledger_ok rev_prims st" "a_items (cs_utxo st) = [note_id rev_prims [0, 0, 0, 0, 0]]" "gone (cs_utxo st) = {}"
    "a_items (cs_nullifiers st) = []"
  shows "check_transaction (\<lambda>_. Inr ()) False {} {} (demo_slip f beta k ps) st = Inr ()"
    and "\<exists>s. apply_transaction rev_prims (demo_slip f beta k ps) st = Inr s"
  using demo_fits [OF assms demo_slip_cms(1,2) rev_note_ids [symmetric] demo_slip_cms(3)] by simp_all

abbreviation demo_size :: proof_sizer where
  "demo_size \<equiv> (\<lambda>nm p. if nm = ''ssh5'' then Inr (length p) else Inl ProofError)"

abbreviation "demo_encode \<equiv> (\<lambda>_. Inr []) :: proof_encoder"

lemma demo_fingerprint: "\<exists>fp. tx_fingerprint rev_prims demo_size (demo_slip f beta k []) = Inr fp"
  by (simp add: tx_fingerprint_def proof_bytes_def, simp add: demo_slip_def keys_def)

text \<open>A ledger that holds the note the transaction spends, and a node that has only just started on it.\<close>

lemma demo_node:
  obtains f beta auth st where "ledger_ok rev_prims st" "a_items (cs_utxo st) = [note_id rev_prims [0, 0, 0, 0, 0]]"
    "gone (cs_utxo st) = {}" "a_items (cs_nullifiers st) = []" "0 \<le> beta" "beta < field_P"
    "\<forall>k ps. authenticate_tx rev_prims demo_encode [] (demo_slip f beta k ps) (new_pool demo_tx_params st 4) = (Inr (Inr auth), new_pool demo_tx_params st 4)"
    "\<forall>k ps. verify_proof demo_check demo_tx_params auth [] (demo_slip f beta k ps) = Inr ()"
proof -
  obtain st where st: "ledger_ok rev_prims st" "cs_params st = demo_tx_params" "cs_chain_id st = chain_id demo_tx_params"
    "a_items (cs_utxo st) = [note_id rev_prims [0, 0, 0, 0, 0]]" "gone (cs_utxo st) = {}" "a_items (cs_nullifiers st) = []"
    by (rule demo_ledger)
  obtain f beta ts v where a: "\<forall>k ps. authenticate rev_prims demo_tx_params (chain_id demo_tx_params) (demo_slip f beta k ps) = Inr (ts, v, beta)"
    "0 \<le> beta" "beta < field_P" by (rule demo_slip_authentic)
  have "admissible rev_prims (new_pool demo_tx_params st 4) (demo_slip f beta k ps) = Inr ()" for k ps
    using demo_slip_fits(1) [OF st(1,4,5,6), of f beta k ps]
    by (simp add: admissible_def new_pool_def st(3) demo_slip_cms(2))
      (simp add: demo_slip_def check_each_def tx_nullifiers_def tx_input_cms_def MAX_INPUTS_def MAX_OUTPUTS_def)
  then have "authenticate_tx rev_prims demo_encode [] (demo_slip f beta k ps) (new_pool demo_tx_params st 4)
      = (Inr (Inr (ts, v, beta)), new_pool demo_tx_params st 4)" for k ps
    using a(1) by (simp add: authenticate_tx_def strikes_against_def) (simp add: new_pool_def st(3))
  moreover have "verify_proof demo_check demo_tx_params (ts, v, beta) [] (demo_slip f beta k ps) = Inr ()" for k ps
    by (simp add: verify_proof_def demo_check_def demo_slip_def guarded_def demo_tx_params_def DEMO_def Let_def)
  ultimately show thesis using that st a(2,3) by metis
qed

lemma demo_submitted:
  obtains f beta st pl where "ledger_ok rev_prims st" "a_items (cs_utxo st) = [note_id rev_prims [0, 0, 0, 0, 0]]"
    "gone (cs_utxo st) = {}" "a_items (cs_nullifiers st) = []"
    "submit rev_prims demo_check demo_encode demo_size [] (demo_slip f beta 0 []) (new_pool demo_tx_params st 4) = (Inr (Inr ()), pl)"
    "pl_mempool pl = [(txid rev_prims (demo_slip f beta 0 []), demo_slip f beta 0 [])]" "pl_state pl = st"
    "already_verified rev_prims demo_size pl (demo_slip f beta 0 []) = Inr True"
proof -
  obtain f beta auth st where st: "ledger_ok rev_prims st" "a_items (cs_utxo st) = [note_id rev_prims [0, 0, 0, 0, 0]]"
    "gone (cs_utxo st) = {}" "a_items (cs_nullifiers st) = []"
    and a: "\<forall>k ps. authenticate_tx rev_prims demo_encode [] (demo_slip f beta k ps) (new_pool demo_tx_params st 4) = (Inr (Inr auth), new_pool demo_tx_params st 4)"
    and v: "\<forall>k ps. verify_proof demo_check demo_tx_params auth [] (demo_slip f beta k ps) = Inr ()" by (rule demo_node)
  let ?tx = "demo_slip f beta 0 []" and ?pl = "new_pool demo_tx_params st 4"
  have new: "verify_proof demo_check (pl_params ?pl) auth [] ?tx = Inr ()" "int (length (pl_mempool ?pl)) < pl_max ?pl"
    "pl_mempool ?pl = []" "pl_state ?pl = st"
    using v by (simp_all add: new_pool_def)
  obtain fp where fp: "tx_fingerprint rev_prims demo_size ?tx = Inr fp" using demo_fingerprint by blast
  obtain pl where pl: "verify_and_admit rev_prims demo_check demo_encode demo_size auth [] ?tx ?pl = (Inr (Inr ()), pl)"
    "pl_mempool pl = AList.update (txid rev_prims ?tx) ?tx (pl_mempool ?pl)" "pl_state pl = pl_state ?pl"
    "pl_verified pl = AList.update (txid rev_prims ?tx) fp (pl_verified ?pl)"
    by (rule verify_and_admit_Inr [OF new(1,2) fp])
  show thesis by (rule that [OF st, of f beta pl]) (use a pl fp new in \<open>simp_all add: submit_def already_verified_def\<close>)
qed

theorem mempool_never_conflicts_witness:
  "\<exists>st pl. pool_run rev_prims demo_check demo_encode demo_size (new_pool demo_tx_params st 4) pl \<and> pl_mempool pl \<noteq> []
    \<and> int (length (pl_mempool pl)) \<le> 4"
proof -
  obtain f beta st pl where s: "submit rev_prims demo_check demo_encode demo_size [] (demo_slip f beta 0 []) (new_pool demo_tx_params st 4) = (Inr (Inr ()), pl)"
    "pl_mempool pl = [(txid rev_prims (demo_slip f beta 0 []), demo_slip f beta 0 [])]" by (rule demo_submitted)
  from pool_run.step [OF pool_run.start pool_step.submitted [OF s(1)]]
  have run: "pool_run rev_prims demo_check demo_encode demo_size (new_pool demo_tx_params st 4) pl" .
  have "int (length (pl_mempool pl)) \<le> max 0 4" using mempool_never_conflicts [OF run] by blast
  moreover have "pl_mempool pl \<noteq> []" using s(2) by simp
  ultimately show ?thesis using run by auto
qed


theorem verified_cache_admits_forged_body_witness:
  "\<exists>pl tx b q. already_verified rev_prims demo_size pl tx = Inr True \<and> b_transactions b = [tx\<lparr>tx_output_cms := [''mine'']\<rparr>]
    \<and> validate_block rev_prims (\<lambda>_ _ _ _ _. Inr False) (\<lambda>_. []) demo_size b pl = Inr (Inr (), q)"
proof -
  obtain f beta st pl where st: "ledger_ok rev_prims st" "a_items (cs_utxo st) = [note_id rev_prims [0, 0, 0, 0, 0]]"
      "gone (cs_utxo st) = {}" "a_items (cs_nullifiers st) = []"
    and pl: "pl_state pl = st" "already_verified rev_prims demo_size pl (demo_slip f beta 0 []) = Inr True" by (rule demo_submitted)
  let ?tx = "demo_slip f beta 0 []" and ?tx' = "demo_slip f beta 0 []\<lparr>tx_output_cms := [''mine'']\<rparr>"
  have cms: "tx_input_cms ?tx' = [note_id rev_prims [0, 0, 0, 0, 0]]" "tx_output_cms ?tx' = [''mine'']" "''mine'' \<noteq> note_id rev_prims [0, 0, 0, 0, 0]"
    "tx_nullifiers ?tx' = [nullifier_id rev_prims (note_id rev_prims [0, 0, 0, 0, 0]) 0]"
    using demo_slip_cms by (simp_all add: tx_input_cms_def tx_nullifiers_def) (simp add: note_id_def)
  obtain s where "apply_transaction rev_prims ?tx' st = Inr s" using demo_fits(2) [OF st cms] by blast
  then obtain b where "b_transactions b = [?tx']" "\<forall>check why. \<exists>q. validate_block rev_prims check why demo_size b pl = Inr (Inr (), q)"
    using verified_cache_admits_forged_body [OF _ pl(2), of ?tx'] demo_fits(1) [OF st cms] st(1) pl(1) by auto
  then show ?thesis using pl(2) by blast
qed

lemma last_str_nat: "\<exists>t. str_nat n = t @ [digit_char (n mod 10)]"
  by (cases "n < 10") (simp_all add: str_nat.simps [of n])

lemma rev_txid:
  assumes "txid rev_prims x = txid rev_prims y" "0 \<le> tx_binding x" "tx_binding x < 10 ^ 78" "0 \<le> tx_binding y" "tx_binding y < 10 ^ 78"
  shows "tx_binding x mod 10 = tx_binding y mod 10"
proof -
  have "\<exists>w. h_preimage ''txid'' [PInt b] = Inr (w @ [byte_of_char (digit_char (nat b mod 10))])" if b: "0 \<le> b" "b < 10 ^ 78" for b :: int
  proof -
    obtain t where t: "str_nat (nat b) = t @ [digit_char (nat b mod 10)]" using last_str_nat by blast
    have "length (str_nat (nat b)) \<le> Suc 77" using b by (intro length_str_nat) simp
    then show ?thesis using b(1) t by (simp add: h_preimage_def chain_domain_def str_int_def)
  qed
  then obtain u w where u: "h_preimage ''txid'' [PInt (tx_binding x)] = Inr (u @ [byte_of_char (digit_char (nat (tx_binding x) mod 10))])"
    and w: "h_preimage ''txid'' [PInt (tx_binding y)] = Inr (w @ [byte_of_char (digit_char (nat (tx_binding y) mod 10))])"
    using assms(2-5) by blast
  have "hex_of (shake256 rev_prims (u @ [byte_of_char (digit_char (nat (tx_binding x) mod 10))]) 32)
      = hex_of (shake256 rev_prims (w @ [byte_of_char (digit_char (nat (tx_binding y) mod 10))]) 32)"
    using assms(1) h_hex_eq [OF u] h_hex_eq [OF w] by (simp add: txid_def)
  then have "shake256 rev_prims (u @ [byte_of_char (digit_char (nat (tx_binding x) mod 10))]) 32
      = shake256 rev_prims (w @ [byte_of_char (digit_char (nat (tx_binding y) mod 10))]) 32" unfolding hex_of_eq_iff .
  then have "byte_of_char (digit_char (nat (tx_binding x) mod 10)) = byte_of_char (digit_char (nat (tx_binding y) mod 10))"
    by (simp add: rev_prims_def sample_prims_def pad_to_def)
  then have "digit_char (nat (tx_binding x) mod 10) = digit_char (nat (tx_binding y) mod 10)"
    using str_bytes_eq_iff [of "[digit_char (nat (tx_binding x) mod 10)]" "[digit_char (nat (tx_binding y) mod 10)]"] by simp
  then have "nat (tx_binding x) mod 10 = nat (tx_binding y) mod 10"
    by (metis add_left_cancel mod_less_divisor of_char_digit_char zero_less_numeral)
  then have "int (nat (tx_binding x) mod 10) = int (nat (tx_binding y) mod 10)" by (rule arg_cong)
  then show ?thesis using assms(2,4) by (simp add: zmod_int)
qed

lemma shift_mod_10: "p mod 10 = 9 \<Longrightarrow> b mod 10 = (b + p) mod (10 :: int) \<Longrightarrow> False"
  by presburger

lemma demo_ids_differ:
  assumes "0 \<le> beta" "beta < field_P"
  shows "txid rev_prims (demo_slip f beta 0 []) \<noteq> txid rev_prims (demo_slip f beta 1 [])"
proof
  assume same: "txid rev_prims (demo_slip f beta 0 []) = txid rev_prims (demo_slip f beta 1 [])"
  have b: "tx_binding (demo_slip f beta 0 []) = beta" "tx_binding (demo_slip f beta 1 []) = beta + field_P" by (simp_all add: demo_slip_def)
  have "field_P < 10 ^ 77" "0 < field_P" by (simp_all add: field_P_def)
  then have "0 \<le> beta" "beta < 10 ^ 78" "0 \<le> beta + field_P" "beta + field_P < 10 ^ 78" using assms by simp_all
  then have "beta mod 10 = (beta + field_P) mod 10" using rev_txid [OF same] unfolding b by blast
  moreover have "field_P mod 10 = 9" by (simp add: field_P_def)
  ultimately show False by (rule shift_mod_10 [rotated])
qed

theorem queued_submissions_conflict_witness:
  "\<exists>pl x y ax ay q1 q2. txid rev_prims x \<noteq> txid rev_prims y \<and> tx_nullifiers x = tx_nullifiers y
    \<and> verify_and_admit rev_prims demo_check demo_encode demo_size ax [] x pl = (Inr (Inr ()), q1)
    \<and> verify_and_admit rev_prims demo_check demo_encode demo_size ay [] y q1 = (Inr (Inr ()), q2)
    \<and> map_of (pl_mempool q2) (txid rev_prims x) = Some x \<and> map_of (pl_mempool q2) (txid rev_prims y) = Some y"
proof -
  obtain f beta auth st where b: "0 \<le> beta" "beta < field_P"
    and a: "\<forall>k ps. authenticate_tx rev_prims demo_encode [] (demo_slip f beta k ps) (new_pool demo_tx_params st 4) = (Inr (Inr auth), new_pool demo_tx_params st 4)"
    and v: "\<forall>k ps. verify_proof demo_check demo_tx_params auth [] (demo_slip f beta k ps) = Inr ()" by (rule demo_node)
  let ?x = "demo_slip f beta 0 []" and ?y = "demo_slip f beta 1 []" and ?pl = "new_pool demo_tx_params st 4"
  obtain fx fy where f: "tx_fingerprint rev_prims demo_size ?x = Inr fx" "tx_fingerprint rev_prims demo_size ?y = Inr fy"
    using demo_fingerprint by blast
  have new: "pl_params ?pl = demo_tx_params" "int (length (pl_mempool ?pl)) + 1 < pl_max ?pl" by (simp_all add: new_pool_def)
  have v': "verify_proof demo_check (pl_params ?pl) auth [] ?x = Inr ()" "verify_proof demo_check (pl_params ?pl) auth [] ?y = Inr ()"
    using v new(1) by simp_all
  have n: "hd (tx_nullifiers ?x) \<in> set (tx_nullifiers ?x) \<inter> set (tx_nullifiers ?y)" by (simp add: demo_slip_cms)
  have same: "tx_nullifiers ?x = tx_nullifiers ?y" by (simp add: demo_slip_cms)
  from queued_submissions_conflict [OF a [rule_format] a [rule_format] v' f demo_ids_differ [OF b] n new(2)]
    demo_ids_differ [OF b] same show ?thesis by blast
qed

theorem unknown_proof_leaves_no_reservation_witness:
  "\<exists>pl tx q. submit rev_prims demo_check demo_encode demo_size [] tx pl = (Inl ProofError, q) \<and> map_of (pl_mempool q) (txid rev_prims tx) = Some tx
    \<and> map_of (pl_reserved_nf q) (hd (tx_nullifiers tx)) = None"
proof -
  obtain f beta auth st where
    a: "\<forall>k ps. authenticate_tx rev_prims demo_encode [] (demo_slip f beta k ps) (new_pool demo_tx_params st 4) = (Inr (Inr auth), new_pool demo_tx_params st 4)"
    and v: "\<forall>k ps. verify_proof demo_check demo_tx_params auth [] (demo_slip f beta k ps) = Inr ()" by (rule demo_node)
  let ?tx = "demo_slip f beta 0 [(''xx'', [])]" and ?pl = "new_pool demo_tx_params st 4"
  have new: "pl_params ?pl = demo_tx_params" "int (length (pl_mempool ?pl)) < pl_max ?pl" by (simp_all add: new_pool_def)
  have v': "verify_proof demo_check (pl_params ?pl) auth [] ?tx = Inr ()" using v new(1) by simp
  have fp: "tx_fingerprint rev_prims demo_size ?tx = Inl ProofError"
    by (simp add: tx_fingerprint_def proof_bytes_def, simp add: demo_slip_def keys_def list_less_def)
  have "hd (tx_nullifiers ?tx) \<in> set (tx_nullifiers ?tx)" "hd (tx_input_cms ?tx) \<in> set (tx_input_cms ?tx)" by (simp_all add: demo_slip_cms)
  from unknown_proof_leaves_no_reservation [OF a [rule_format] v' fp new(2) this] show ?thesis by blast
qed

theorem refusals_bounded_strikes_not_witness:
  "\<forall>st. length (pl_strikes (foldl (\<lambda>pl tx. snd (remember_refusal rev_prims demo_encode tx ''ssh5'' pl)) (new_pool demo_tx_params st 4)
     [demo_slip 0 0 0 [], demo_slip 0 0 1 []])) = 2"
proof -
  have "txid rev_prims (demo_slip 0 0 0 []) \<noteq> txid rev_prims (demo_slip 0 0 1 [])" by (rule demo_ids_differ) (simp_all add: field_P_def)
  then show ?thesis
    using refusals_bounded_strikes_not [of "new_pool demo_tx_params _ 4" rev_prims "[demo_slip 0 0 0 [], demo_slip 0 0 1 []]" demo_encode "''ssh5''"]
    by (simp add: new_pool_def)
qed

end
