(* ===== verification/Codec.thy ===== *)
theory Codec
  imports Prelude
begin

text \<open>
  The canonical encoding: \<open>chain/store/codec.py\<close>.

  \<open>pyval\<close> is the values that have an encoding; an object of one of the 22 classes of \<open>TYPES\<close> is its
  index and the list of its fields. The encoder writes into lists of bytes, the decoder reads from
  what is left of the buffer, so a position is a suffix. Python's recursion limit is the argument
  \<open>limit\<close> of the decoder: one level per nested value, \<open>RecursionError\<close> when it is used up; the
  encoder is only ever given values the program built, and no limit is modelled there.
  The lemmas show that decoding an encoding gives the value back up to the order of mappings, that
  this order is all that is lost, and in what ways the decoder does less than refuse bad input.
\<close>

section \<open>Values\<close>

datatype pyval =
    VNone
  | VBool bool
  | VInt int
  | VBytes bytes
  | VStr string
  | VTuple "pyval list"
  | VList "pyval list"
  | VDict "(pyval \<times> pyval) list"
  | VObj nat "pyval list"

text \<open>The fields of each class of \<open>TYPES\<close>, and the classes compared by identity (\<open>eq=False\<close>).\<close>

definition FIELDS :: "nat list" where
  "FIELDS = [4, 10, 6, 7, 3, 8, 14, 10, 8, 5, 4, 14, 7, 7, 4, 19, 6, 4, 10, 9, 2, 7]"

definition BY_IDENTITY :: "nat list" where
  "BY_IDENTITY = [4, 12, 14, 16]"

text \<open>Python's \<open>hash\<close> and \<open>==\<close> on keys: lists and mappings have no hash, \<open>True == 1\<close>, and two
  objects that were decoded separately are never identical.\<close>

fun hashable :: "pyval \<Rightarrow> bool" where
  "hashable (VTuple xs) = list_all hashable xs"
| "hashable (VList xs) = False"
| "hashable (VDict kvs) = False"
| "hashable (VObj i xs) = (i \<in> set BY_IDENTITY \<or> list_all hashable xs)"
| "hashable _ = True"

fun py_eq :: "pyval \<Rightarrow> pyval \<Rightarrow> bool" where
  "py_eq (VBool a) (VInt n) = (n = (if a then 1 else 0))"
| "py_eq (VInt n) (VBool a) = (n = (if a then 1 else 0))"
| "py_eq (VTuple xs) (VTuple ys) = list_all2 py_eq xs ys"
| "py_eq (VObj i xs) (VObj j ys) = (i = j \<and> i \<notin> set BY_IDENTITY \<and> list_all2 py_eq xs ys)"
| "py_eq a b = (a = b)"

text \<open>\<open>out[k] = v\<close>: an equal key keeps its place and its spelling.\<close>

fun dict_put :: "pyval \<Rightarrow> pyval \<Rightarrow> (pyval \<times> pyval) list \<Rightarrow> (pyval \<times> pyval) list" where
  "dict_put k v [] = [(k, v)]"
| "dict_put k v ((j, w) # d) = (if py_eq j k then (j, v) # d else (j, w) # dict_put k v d)"

section \<open>Varints\<close>

definition FORMAT_VERSION :: nat where "FORMAT_VERSION = 1"
definition FIELD_BYTES :: nat where "FIELD_BYTES = 32"
definition FE_MAX :: nat where "FE_MAX = 2 ^ (8 * FIELD_BYTES)"

text \<open>Every caller passes a length, an index or a magnitude, so the refusal of negative numbers is
  in the type.\<close>

fun put_uint :: "nat \<Rightarrow> bytes" where
  "put_uint n =
     (let b = n mod 128; m = n div 128
      in if m = 0 then [word_of_nat b] else word_of_nat (128 + b) # put_uint m)"

declare put_uint.simps [simp del]

fun get_uint_from :: "nat \<Rightarrow> nat \<Rightarrow> bytes \<Rightarrow> exn + nat \<times> bytes" where
  "get_uint_from n shift [] = Inl CodecError"
| "get_uint_from n shift (b # bs) =
     (let n' = or n (push_bit shift (unat b mod 128))
      in if unat b < 128 then Inr (n', bs)
         else if 4096 < shift + 7 then Inl CodecError
         else get_uint_from n' (shift + 7) bs)"

definition get_uint :: "bytes \<Rightarrow> exn + nat \<times> bytes" where
  "get_uint bs = get_uint_from 0 0 bs"

definition take_bytes :: "nat \<Rightarrow> bytes \<Rightarrow> exn + bytes \<times> bytes" where
  "take_bytes n bs = (if length bs < n then Inl CodecError else Inr (take n bs, drop n bs))"

section \<open>Strings\<close>

text \<open>The check of \<open>bytes.decode("utf-8")\<close>: no overlong form, no surrogate, nothing above U+10FFFF.\<close>

definition cont_byte :: "nat \<Rightarrow> nat \<Rightarrow> byte \<Rightarrow> bool" where
  "cont_byte lo hi b = (lo \<le> unat b \<and> unat b \<le> hi)"

fun utf8_ok :: "bytes \<Rightarrow> bool" where
  "utf8_ok [] = True"
| "utf8_ok (b # bs) =
     (let n = unat b; any = cont_byte 128 191 in
      if n < 128 then utf8_ok bs
      else if 194 \<le> n \<and> n \<le> 223 then
        (case bs of c # cs \<Rightarrow> any c \<and> utf8_ok cs | _ \<Rightarrow> False)
      else if 224 \<le> n \<and> n \<le> 239 then
        (case bs of c # d # cs \<Rightarrow>
           cont_byte (if n = 224 then 160 else 128) (if n = 237 then 159 else 191) c \<and> any d \<and> utf8_ok cs | _ \<Rightarrow> False)
      else if 240 \<le> n \<and> n \<le> 244 then
        (case bs of c # d # e # cs \<Rightarrow>
           cont_byte (if n = 240 then 144 else 128) (if n = 244 then 143 else 191) c \<and> any d \<and> any e \<and> utf8_ok cs | _ \<Rightarrow> False)
      else False)"

definition utf8_decode :: "bytes \<Rightarrow> exn + string" where
  "utf8_decode bs = (if utf8_ok bs then Inr (map char_of_byte bs) else Inl UnicodeDecodeError)"

definition is_hex :: "char \<Rightarrow> bool" where
  "is_hex c = (let n = of_char c :: nat in 48 \<le> n \<and> n \<le> 57 \<or> 97 \<le> n \<and> n \<le> 102)"

text \<open>A lower-case body of even length always has a \<open>fromhex\<close> (\<open>lower_hex\<close>), so \<open>None\<close> only means
  that packing does not pay.\<close>

definition hex_split :: "string \<Rightarrow> (string \<times> bytes) option" where
  "hex_split s =
     (let tail = length (takeWhile is_hex (rev s));
          i = length s - tail;
          j = (if odd tail then i + 1 else i);
          body = drop j s
      in if length body < 32 then None
         else case fromhex body of None \<Rightarrow> None | Some packed \<Rightarrow> Some (take j s, packed))"

definition dump_string :: "string \<Rightarrow> bytes" where
  "dump_string s =
     (case hex_split s of
        None \<Rightarrow> 0 # put_uint (length (str_bytes s)) @ str_bytes s
      | Some (prefix, packed) \<Rightarrow>
          1 # put_uint (length (str_bytes prefix)) @ str_bytes prefix @ put_uint (length packed) @ packed)"

text \<open>The table is \<open>sorted(set(strings))\<close>; the index of a string is its position.\<close>

definition string_id :: "string list \<Rightarrow> string \<Rightarrow> exn + nat" where
  "string_id order s = (case index_in s order of None \<Rightarrow> Inl CodecError | Some i \<Rightarrow> Inr i)"

definition dump_strings :: "string list \<Rightarrow> bytes" where
  "dump_strings order = put_uint (length order) @ concat (map dump_string order)"

definition load_string :: "bytes \<Rightarrow> exn + string \<times> bytes" where
  "load_string buf =
     (case buf of [] \<Rightarrow> Inl CodecError
      | flag # bs \<Rightarrow>
        if flag = 0 then
          bindR (get_uint bs) (\<lambda>(n, bs). bindR (take_bytes n bs) (\<lambda>(raw, bs).
          bindR (utf8_decode raw) (\<lambda>s. Inr (s, bs))))
        else if flag = 1 then
          bindR (get_uint bs) (\<lambda>(n, bs). bindR (take_bytes n bs) (\<lambda>(prefix, bs).
          bindR (get_uint bs) (\<lambda>(n, bs). bindR (take_bytes n bs) (\<lambda>(packed, bs).
          bindR (utf8_decode prefix) (\<lambda>s. Inr (s @ hex_of packed, bs))))))
        else Inl CodecError)"

fun load_table :: "nat \<Rightarrow> bytes \<Rightarrow> exn + string list \<times> bytes" where
  "load_table 0 bs = Inr ([], bs)"
| "load_table (Suc n) bs =
     bindR (load_string bs) (\<lambda>(s, bs). bindR (load_table n bs) (\<lambda>(ss, bs). Inr (s # ss, bs)))"

definition load_strings :: "bytes \<Rightarrow> exn + string list \<times> bytes" where
  "load_strings bs = bindR (get_uint bs) (\<lambda>(n, bs). load_table n bs)"

section \<open>Encoding\<close>

fun bit_length :: "nat \<Rightarrow> nat" where
  "bit_length n = (if n = 0 then 0 else Suc (bit_length (n div 2)))"

declare bit_length.simps [simp del]

definition put_magnitude :: "nat \<Rightarrow> bytes" where
  "put_magnitude n = (let l = max 1 ((bit_length n + 7) div 8) in put_uint l @ be_bytes l n)"

definition put_int :: "int \<Rightarrow> bytes" where
  "put_int n =
     (if n < 0 then 4 # put_magnitude (nat (- n))
      else if n < 2 ^ 64 then 3 # put_uint (nat n)
      else if n < int FE_MAX then 5 # be_bytes FIELD_BYTES (nat n)
      else 6 # put_magnitude (nat n))"

definition fe_of :: "pyval \<Rightarrow> nat option" where
  "fe_of v = (case v of VInt n \<Rightarrow> if 0 \<le> n \<and> n < int FE_MAX then Some (nat n) else None | _ \<Rightarrow> None)"

definition is_fe_vec :: "pyval list \<Rightarrow> bool" where
  "is_fe_vec xs = (2 \<le> length xs \<and> list_all (\<lambda>x. fe_of x \<noteq> None) xs)"

definition bytes_of :: "pyval \<Rightarrow> bytes" where
  "bytes_of v = (case v of VBytes b \<Rightarrow> b | _ \<Rightarrow> [])"

definition is_bytes :: "pyval \<Rightarrow> bool" where
  "is_bytes v = (case v of VBytes _ \<Rightarrow> True | _ \<Rightarrow> False)"

definition is_byte_vec :: "pyval list \<Rightarrow> bool" where
  "is_byte_vec xs =
     (2 \<le> length xs \<and> list_all is_bytes xs
      \<and> 0 < length (bytes_of (hd xs)) \<and> list_all (\<lambda>x. length (bytes_of x) = length (bytes_of (hd xs))) xs)"

text \<open>The last lines of \<open>_put_seq\<close>, given the encodings of the items.\<close>

definition put_items :: "bool \<Rightarrow> pyval list \<Rightarrow> bytes list \<Rightarrow> bytes" where
  "put_items tuple xs encs =
     (let plain = (if tuple then 10 else 9) # put_uint (length xs) @ concat encs
      in if is_fe_vec xs then
           (let packed = (if tuple then 13 else 12) # put_uint (length xs)
                           @ concat (map (\<lambda>x. be_bytes FIELD_BYTES (the (fe_of x))) xs)
            in if length packed < length plain then packed else plain)
         else plain)"

definition put_vec :: "bool \<Rightarrow> pyval list \<Rightarrow> bytes" where
  "put_vec tuple xs =
     (if tuple then 15 else 14) # put_uint (length xs) @ put_uint (length (bytes_of (hd xs))) @ concat (map bytes_of xs)"

text \<open>The entries of a mapping are encoded key by key and written in the order of the encoded keys;
  encoding the value beside its key instead of later raises the same \<open>CodecError\<close>.\<close>

definition put_entries :: "nat \<Rightarrow> (bytes \<times> bytes) list \<Rightarrow> bytes" where
  "put_entries n items = 11 # put_uint n @ concat (map (\<lambda>(kb, vb). kb @ vb) (sort_key fst items))"

lemma mapR_cong [fundef_cong]: "xs = ys \<Longrightarrow> (\<And>x. x \<in> set ys \<Longrightarrow> f x = g x) \<Longrightarrow> mapR f xs = mapR g ys"
  by (induction xs arbitrary: ys) auto

fun put :: "string list \<Rightarrow> pyval \<Rightarrow> exn + bytes" where
  "put order VNone = Inr [0]"
| "put order (VBool b) = Inr [if b then 2 else 1]"
| "put order (VInt n) = Inr (put_int n)"
| "put order (VStr s) = bindR (string_id order s) (\<lambda>i. Inr (8 # put_uint i))"
| "put order (VBytes b) = Inr (7 # put_uint (length b) @ b)"
| "put order (VTuple xs) =
     (if is_byte_vec xs then Inr (put_vec True xs)
      else bindR (mapR (put order) xs) (\<lambda>encs. Inr (put_items True xs encs)))"
| "put order (VList xs) =
     (if is_byte_vec xs then Inr (put_vec False xs)
      else bindR (mapR (put order) xs) (\<lambda>encs. Inr (put_items False xs encs)))"
| "put order (VDict kvs) =
     bindR (mapR (\<lambda>(k, v). bindR (put order k) (\<lambda>kb. bindR (put order v) (\<lambda>vb. Inr (kb, vb)))) kvs)
       (\<lambda>items. Inr (put_entries (length kvs) items))"
| "put order (VObj i xs) = bindR (mapR (put order) xs) (\<lambda>encs. Inr (16 # put_uint i @ concat encs))"

fun collect :: "pyval \<Rightarrow> string list" where
  "collect (VStr s) = [s]"
| "collect (VTuple xs) = concat (map collect xs)"
| "collect (VList xs) = concat (map collect xs)"
| "collect (VDict kvs) = concat (map (\<lambda>(k, v). collect k @ collect v) kvs)"
| "collect (VObj i xs) = concat (map collect xs)"
| "collect _ = []"

definition encode :: "pyval \<Rightarrow> exn + bytes" where
  "encode v = (let order = sorted_set (collect v) in
     bindR (put order v) (\<lambda>body. Inr (put_uint FORMAT_VERSION @ dump_strings order @ body)))"

section \<open>Decoding\<close>

text \<open>What does not call \<open>_get\<close> again.\<close>

definition get_leaf :: "string list \<Rightarrow> nat \<Rightarrow> bytes \<Rightarrow> exn + pyval \<times> bytes" where
  "get_leaf table tag bs =
     (if tag = 0 then Inr (VNone, bs)
      else if tag = 2 then Inr (VBool True, bs)
      else if tag = 1 then Inr (VBool False, bs)
      else if tag = 3 then bindR (get_uint bs) (\<lambda>(n, bs). Inr (VInt (int n), bs))
      else if tag = 4 then bindR (get_uint bs) (\<lambda>(n, bs). bindR (take_bytes n bs) (\<lambda>(raw, bs). Inr (VInt (- int (be_nat raw)), bs)))
      else if tag = 5 then bindR (take_bytes FIELD_BYTES bs) (\<lambda>(raw, bs). Inr (VInt (int (be_nat raw)), bs))
      else if tag = 6 then bindR (get_uint bs) (\<lambda>(n, bs). bindR (take_bytes n bs) (\<lambda>(raw, bs). Inr (VInt (int (be_nat raw)), bs)))
      else if tag = 7 then bindR (get_uint bs) (\<lambda>(n, bs). bindR (take_bytes n bs) (\<lambda>(raw, bs). Inr (VBytes raw, bs)))
      else if tag = 8 then bindR (get_uint bs) (\<lambda>(i, bs). if length table \<le> i then Inl CodecError else Inr (VStr (table ! i), bs))
      else if tag = 12 \<or> tag = 13 then
        bindR (get_uint bs) (\<lambda>(n, bs). bindR (take_bytes (n * FIELD_BYTES) bs) (\<lambda>(raw, bs).
          let items = map (\<lambda>i. VInt (int (be_nat (take FIELD_BYTES (drop (i * FIELD_BYTES) raw))))) [0..<n]
          in Inr (if tag = 13 then VTuple items else VList items, bs)))
      else if tag = 14 \<or> tag = 15 then
        bindR (get_uint bs) (\<lambda>(n, bs). bindR (get_uint bs) (\<lambda>(width, bs). bindR (take_bytes (n * width) bs) (\<lambda>(raw, bs).
          let items = map (\<lambda>i. VBytes (take width (drop (i * width) raw))) [0..<n]
          in Inr (if tag = 15 then VTuple items else VList items, bs))))
      else Inl CodecError)"

function (sequential) get :: "nat \<Rightarrow> string list \<Rightarrow> bytes \<Rightarrow> exn + pyval \<times> bytes"
  and get_items :: "nat \<Rightarrow> string list \<Rightarrow> nat \<Rightarrow> bytes \<Rightarrow> exn + pyval list \<times> bytes"
  and get_entries :: "nat \<Rightarrow> string list \<Rightarrow> nat \<Rightarrow> (pyval \<times> pyval) list \<Rightarrow> bytes \<Rightarrow> exn + (pyval \<times> pyval) list \<times> bytes" where
  "get 0 table buf = Inl RecursionError"
| "get (Suc limit) table [] = Inl CodecError"
| "get (Suc limit) table (b # bs) =
     (let tag = unat b in
      if tag = 9 \<or> tag = 10 then
        bindR (get_uint bs) (\<lambda>(n, bs). bindR (get_items limit table n bs) (\<lambda>(items, bs).
          Inr (if tag = 10 then VTuple items else VList items, bs)))
      else if tag = 11 then
        bindR (get_uint bs) (\<lambda>(n, bs). bindR (get_entries limit table n [] bs) (\<lambda>(d, bs). Inr (VDict d, bs)))
      else if tag = 16 then
        bindR (get_uint bs) (\<lambda>(i, bs). if length FIELDS \<le> i then Inl CodecError
          else bindR (get_items limit table (FIELDS ! i) bs) (\<lambda>(items, bs). Inr (VObj i items, bs)))
      else get_leaf table tag bs)"
| "get_items limit table 0 bs = Inr ([], bs)"
| "get_items limit table (Suc n) bs =
     bindR (get limit table bs) (\<lambda>(x, bs). bindR (get_items limit table n bs) (\<lambda>(xs, bs). Inr (x # xs, bs)))"
| "get_entries limit table 0 d bs = Inr (d, bs)"
| "get_entries limit table (Suc n) d bs =
     bindR (get limit table bs) (\<lambda>(k, bs). bindR (get limit table bs) (\<lambda>(v, bs).
       if hashable k then get_entries limit table n (dict_put k v d) bs else Inl TypeError))"
  by pat_completeness auto
termination
  by (relation "inv_image (less_than <*lex*> less_than <*lex*> less_than)
       (\<lambda>c. case c of Inl (limit, _) \<Rightarrow> (limit, 0, 0) | Inr (Inl (limit, _, n, _)) \<Rightarrow> (limit, 1, n)
         | Inr (Inr (limit, _, n, _)) \<Rightarrow> (limit, 1, n))") auto

definition decode :: "nat \<Rightarrow> bytes \<Rightarrow> exn + pyval" where
  "decode limit blob =
     bindR (get_uint blob) (\<lambda>(version, bs).
     if version \<noteq> FORMAT_VERSION then Inl CodecError
     else bindR (load_strings bs) (\<lambda>(table, bs). bindR (get limit table bs) (\<lambda>(value, bs).
       if bs \<noteq> [] then Inl CodecError else Inr value)))"

section \<open>Varints and byte strings come back\<close>

lemma or_push_bit: "acc < 2 ^ s \<Longrightarrow> or acc (push_bit s x) = acc + x * 2 ^ s" for acc :: nat
proof -
  assume "acc < 2 ^ s"
  then have t: "take_bit s acc = acc" by (simp add: take_bit_nat_eq_self_iff)
  have "bit (take_bit s acc) n \<Longrightarrow> bit (push_bit s x) n \<Longrightarrow> False" for n
    by (simp add: bit_take_bit_iff bit_push_bit_iff)
  then have "and acc (push_bit s x) = 0" by (metis t bit_eqI bit_and_iff bit_0_eq bot_apply bot_bool_def)
  then show ?thesis by (simp add: disjunctive_add_eq_or [symmetric] push_bit_eq_mult)
qed

lemma get_uint_from_put:
  "acc < 2 ^ s \<Longrightarrow> n * 2 ^ s < 2 ^ 4096 \<Longrightarrow> get_uint_from acc s (put_uint n @ rest) = Inr (acc + n * 2 ^ s, rest)"
proof (induction n arbitrary: acc s rule: put_uint.induct)
  case (1 n)
  show ?case
  proof (cases "n < 128")
    case True
    then have "unat (word_of_nat n :: byte) = n" by (simp add: unat_of_nat)
    then show ?thesis using True 1(2) by (simp add: put_uint.simps [of n] or_push_bit)
  next
    case False
    let ?b = "n mod 128" and ?m = "n div 128" and ?w = "word_of_nat (128 + n mod 128) :: byte"
    have w: "unat ?w = 128 + ?b" unfolding unat_of_nat by simp
    have n: "n = ?b + ?m * 128" by simp
    have "(2::nat) ^ 7 * 2 ^ s \<le> n * 2 ^ s" using False by simp
    then have "(2::nat) ^ (s + 7) < 2 ^ 4096" using 1(3) by (simp only: power_add mult.commute)
    then have s: "\<not> 4096 < s + 7" by (metis nat_neq_iff nat_power_less_imp_less less_asym zero_less_numeral)
    have p: "(2::nat) ^ (s + 7) = 128 * 2 ^ s" by (simp add: power_add)
    have "?b * 2 ^ s \<le> 127 * 2 ^ s" by (intro mult_right_mono) (use mod_less_divisor [of 128 n] in simp_all)
    then have acc: "acc + ?b * 2 ^ s < 2 ^ (s + 7)" using 1(2) p by linarith
    have m: "?m * 2 ^ (s + 7) < 2 ^ 4096" using 1(3) n unfolding p by (metis add_lessD1 add.commute distrib_right mult.assoc)
    have "get_uint_from acc s (put_uint n @ rest) = get_uint_from (acc + ?b * 2 ^ s) (s + 7) (put_uint ?m @ rest)"
      using False w s 1(2) by (simp add: put_uint.simps [of n] Let_def or_push_bit div_eq_0_iff)
    also have "\<dots> = Inr (acc + ?b * 2 ^ s + ?m * 2 ^ (s + 7), rest)"
      by (rule 1(1)) (use False acc m in \<open>simp_all\<close>)
    also have "acc + ?b * 2 ^ s + ?m * 2 ^ (s + 7) = acc + (?b + ?m * 128) * 2 ^ s"
      unfolding p by (simp only: distrib_right mult.assoc add.assoc)
    also have "?b + ?m * 128 = n" by simp
    finally show ?thesis .
  qed
qed

lemma get_put_uint [simp]: "n < 2 ^ 64 \<Longrightarrow> get_uint (put_uint n @ rest) = Inr (n, rest)"
proof -
  assume "n < 2 ^ 64"
  also have "(2::nat) ^ 64 \<le> 2 ^ 4096" by (rule power_increasing) simp_all
  finally show ?thesis using get_uint_from_put [of 0 0 n rest] by (simp add: get_uint_def)
qed

lemma take_bytes_append [simp]: "take_bytes (length xs) (xs @ rest) = Inr (xs, rest)"
  by (simp add: take_bytes_def)

lemma take_bytes_length: "length xs = n \<Longrightarrow> take_bytes n (xs @ rest) = Inr (xs, rest)"
  by (simp add: take_bytes_def)

lemma put_uint_not_Nil [simp]: "put_uint n \<noteq> []"
  by (simp add: put_uint.simps [of n] Let_def)

section \<open>Strings come back\<close>

lemma hex_char_val: "is_hex c \<Longrightarrow> \<exists>n<16. hex_val c = Some n \<and> hex_char n = c \<and> \<not> is_space c"
proof -
  assume h: "is_hex c"
  define n where "n = (of_char c :: nat)"
  have c: "c = char_of n" by (simp add: n_def)
  have n: "48 \<le> n \<and> n \<le> 57 \<or> 97 \<le> n \<and> n \<le> 102" using h by (simp add: is_hex_def n_def Let_def)
  then have "is_space c = False" by (auto simp: is_space_def n_def [symmetric])
  then show ?thesis using n
    by (intro exI [of _ "if n \<le> 57 then n - 48 else n - 87"]) (auto simp: hex_val_def n_def [symmetric] Let_def c hex_char_def)
qed

lemma lower_hex: "list_all is_hex s \<Longrightarrow> even (length s) \<Longrightarrow> \<exists>bs. fromhex s = Some bs \<and> hex_of bs = s"
proof (induction s rule: fromhex.induct)
  case (3 c d cs)
  from "3.prems"(1) obtain a b where a: "a < 16" "hex_val c = Some a" "hex_char a = c" "\<not> is_space c"
    and b: "b < 16" "hex_val d = Some b" "hex_char b = d" using hex_char_val [of c] hex_char_val [of d] by auto
  obtain bs where bs: "fromhex cs = Some bs" "hex_of bs = cs" using "3.IH"(2) [OF a(4) refl a(2) b(2)] "3.prems" by auto
  have "16 * a + b < 256" using a(1) b(1) by simp
  then have "unat (word_of_nat (16 * a + b) :: byte) = 16 * a + b" unfolding unat_of_nat by simp
  then show ?case using a b bs by (simp del: of_nat_add of_nat_mult)
qed simp_all

declare utf8_ok.simps(2) [simp del]

lemma utf8_cases:
  "unat b < 128 \<Longrightarrow> utf8_ok (b # bs) = utf8_ok bs"
  "194 \<le> unat b \<Longrightarrow> unat b \<le> 223 \<Longrightarrow> utf8_ok (b # bs) = (case bs of c # cs \<Rightarrow> cont_byte 128 191 c \<and> utf8_ok cs | _ \<Rightarrow> False)"
  "224 \<le> unat b \<Longrightarrow> unat b \<le> 239 \<Longrightarrow> utf8_ok (b # bs) =
     (case bs of c # d # cs \<Rightarrow> cont_byte (if unat b = 224 then 160 else 128) (if unat b = 237 then 159 else 191) c
        \<and> cont_byte 128 191 d \<and> utf8_ok cs | _ \<Rightarrow> False)"
  "240 \<le> unat b \<Longrightarrow> unat b \<le> 244 \<Longrightarrow> utf8_ok (b # bs) =
     (case bs of c # d # e # cs \<Rightarrow> cont_byte (if unat b = 240 then 144 else 128) (if unat b = 244 then 143 else 191) c
        \<and> cont_byte 128 191 d \<and> cont_byte 128 191 e \<and> utf8_ok cs | _ \<Rightarrow> False)"
  "utf8_ok (b # bs) \<Longrightarrow> unat b < 128 \<or> 194 \<le> unat b \<and> unat b \<le> 223 \<or> 224 \<le> unat b \<and> unat b \<le> 239 \<or> 240 \<le> unat b \<and> unat b \<le> 244"
  by (simp_all add: utf8_ok.simps(2) Let_def split: if_splits)

lemma not_cont: "128 \<le> lo \<Longrightarrow> unat c < 128 \<Longrightarrow> \<not> cont_byte lo hi c"
  by (simp add: cont_byte_def)

lemma utf8_ascii_end: "utf8_ok (bs @ cs) \<Longrightarrow> list_all (\<lambda>c. unat c < 128) cs \<Longrightarrow> utf8_ok bs"
proof (induction bs rule: length_induct)
  case (1 bs)
  note IH = 1(1) [rule_format, OF _ _ 1(3)]
  show ?case
  proof (cases bs)
    case (Cons b bs')
    have ok: "utf8_ok (b # (bs' @ cs))" using 1(2) Cons by simp
    consider "unat b < 128" | "194 \<le> unat b" "unat b \<le> 223" | "224 \<le> unat b" "unat b \<le> 239" | "240 \<le> unat b" "unat b \<le> 244"
      using utf8_cases(5) [OF ok] by blast
    then show ?thesis
    proof cases
      case 1
      then show ?thesis using ok IH [of bs'] by (simp add: Cons utf8_cases(1))
    next
      case 2
      then show ?thesis using ok 1(3) IH [of "tl bs'"]
        by (cases bs'; cases cs) (simp_all add: Cons utf8_cases(2) not_cont)
    next
      case 3
      then show ?thesis using ok 1(3) IH [of "tl (tl bs')"]
        by (cases bs'; cases "tl bs'"; cases cs; cases "tl cs") (simp_all add: Cons utf8_cases(3) not_cont)
    next
      case 4
      then show ?thesis using ok 1(3) IH [of "tl (tl (tl bs'))"]
        by (cases bs'; cases "tl bs'"; cases "tl (tl bs')"; cases cs; cases "tl cs"; cases "tl (tl cs)") (simp_all add: Cons utf8_cases(4) not_cont)
    qed
  qed simp
qed

lemma hex_split_Some:
  assumes "hex_split s = Some (prefix, packed)"
  shows "s = prefix @ hex_of packed" "list_all is_hex (hex_of packed)"
proof -
  let ?t = "takeWhile is_hex (rev s)"
  let ?j = "if odd (length ?t) then length s - length ?t + 1 else length s - length ?t"
  have le: "length ?t \<le> length s" by (metis length_rev length_takeWhile_le)
  have tail: "drop (length s - length ?t) s = rev ?t"
    by (metis append_take_drop_id diff_diff_cancel drop_rev le length_rev length_takeWhile_le rev_rev_ident takeWhile_eq_take take_rev)
  have hex: "list_all is_hex (drop (length s - length ?t) s)" unfolding tail by (auto simp: list_all_iff dest: set_takeWhileD)
  have "set (drop ?j s) \<subseteq> set (drop (length s - length ?t) s)" by (rule set_drop_subset_set_drop) simp
  then have "list_all is_hex (drop ?j s)" using hex by (auto simp: list_all_iff)
  moreover have "even (length (drop ?j s))" using le by auto
  ultimately obtain bs where bs: "fromhex (drop ?j s) = Some bs" "hex_of bs = drop ?j s" using lower_hex by blast
  have "take ?j s = prefix \<and> bs = packed"
    using assms bs(1) unfolding hex_split_def Let_def by (simp split: if_split_asm)
  then show "s = prefix @ hex_of packed" "list_all is_hex (hex_of packed)"
    using bs(2) \<open>list_all is_hex (drop ?j s)\<close> by (metis append_take_drop_id, metis)
qed

definition py_str :: "string \<Rightarrow> bool" where
  "py_str s = (utf8_ok (str_bytes s) \<and> length s < 2 ^ 64)"

lemma hex_is_ascii: "is_hex c \<Longrightarrow> unat (byte_of_char c) < 128"
  by (auto simp: is_hex_def byte_of_char_def unat_of_nat Let_def)

lemma utf8_decode_str: "utf8_ok (str_bytes s) \<Longrightarrow> utf8_decode (str_bytes s) = Inr s"
  by (simp add: utf8_decode_def)

lemma load_dump_string: "py_str s \<Longrightarrow> load_string (dump_string s @ rest) = Inr (s, rest)"
proof (cases "hex_split s")
  case None
  assume "py_str s"
  with None show ?thesis
    by (simp add: dump_string_def load_string_def py_str_def take_bytes_length utf8_decode_str)
next
  case (Some p)
  assume s: "py_str s"
  obtain prefix packed where p: "p = (prefix, packed)" by force
  note h = hex_split_Some [OF Some [unfolded p]]
  have "utf8_ok (str_bytes prefix @ str_bytes (hex_of packed))" using s h(1) by (simp add: py_str_def)
  then have "utf8_ok (str_bytes prefix)"
    by (rule utf8_ascii_end) (use h(2) hex_is_ascii in \<open>auto simp: list_all_iff str_bytes_def\<close>)
  moreover have "length prefix < 2 ^ 64" "length packed < 2 ^ 64"
    using s h(1) by (auto simp: py_str_def)
  ultimately show ?thesis using Some p h(1)
    by (simp add: dump_string_def load_string_def take_bytes_length utf8_decode_str)
qed

lemma load_dump_table: "list_all py_str order \<Longrightarrow> load_table (length order) (concat (map dump_string order) @ rest) = Inr (order, rest)"
  by (induction order) (simp_all add: load_dump_string)

lemma load_dump_strings: "list_all py_str order \<Longrightarrow> length order < 2 ^ 64 \<Longrightarrow> load_strings (dump_strings order @ rest) = Inr (order, rest)"
  by (simp add: load_strings_def dump_strings_def load_dump_table)

section \<open>Values come back\<close>

text \<open>\<open>plain\<close> keys: what can be a key and is the same key after decoding.\<close>

fun plain :: "pyval \<Rightarrow> bool" where
  "plain (VTuple xs) = list_all plain xs"
| "plain (VList xs) = False"
| "plain (VDict kvs) = False"
| "plain (VObj i xs) = (i \<notin> set BY_IDENTITY \<and> list_all plain xs)"
| "plain _ = True"

text \<open>The values a program can hold: sizes below \<open>2 ^ 64\<close>, strings without surrogates, mappings whose
  keys are different keys of Python, objects with the fields of their class.\<close>

fun storable :: "pyval \<Rightarrow> bool" where
  "storable (VInt n) = ((bit_length (nat \<bar>n\<bar>) + 7) div 8 < 2 ^ 64)"
| "storable (VBytes b) = (length b < 2 ^ 64)"
| "storable (VStr s) = py_str s"
| "storable (VTuple xs) = (length xs < 2 ^ 64 \<and> list_all storable xs)"
| "storable (VList xs) = (length xs < 2 ^ 64 \<and> list_all storable xs)"
| "storable (VDict kvs) =
     (length kvs < 2 ^ 64 \<and> distinct (map fst kvs) \<and> (\<forall>a\<in>set (map fst kvs). \<forall>b\<in>set (map fst kvs). a \<noteq> b \<longrightarrow> \<not> py_eq a b)
      \<and> list_all (\<lambda>(k, v). plain k \<and> storable k \<and> storable v) kvs)"
| "storable (VObj i xs) = (i < length FIELDS \<and> length xs = FIELDS ! i \<and> list_all storable xs)"
| "storable _ = True"

text \<open>How deep a value is nested.\<close>

fun depth :: "pyval \<Rightarrow> nat" where
  "depth (VTuple xs) = Suc (Max (insert 0 (depth ` set xs)))"
| "depth (VList xs) = Suc (Max (insert 0 (depth ` set xs)))"
| "depth (VDict kvs) = Suc (Max (insert 0 ((\<lambda>(k, v). max (depth k) (depth v)) ` set kvs)))"
| "depth (VObj i xs) = Suc (Max (insert 0 (depth ` set xs)))"
| "depth _ = 1"

text \<open>The same value up to the order in which mappings, at any depth, list their entries.\<close>

inductive same_val :: "pyval \<Rightarrow> pyval \<Rightarrow> bool" where
  sv_refl: "same_val v v"
| sv_tuple: "list_all2 same_val xs ys \<Longrightarrow> same_val (VTuple xs) (VTuple ys)"
| sv_list: "list_all2 same_val xs ys \<Longrightarrow> same_val (VList xs) (VList ys)"
| sv_obj: "list_all2 same_val xs ys \<Longrightarrow> same_val (VObj i xs) (VObj i ys)"
| sv_dict: "list_all2 (\<lambda>p q. fst p = fst q \<and> same_val (snd p) (snd q)) xs zs \<Longrightarrow> mset zs = mset ys \<Longrightarrow> same_val (VDict xs) (VDict ys)"

lemma bit_length_bound: "n < 2 ^ bit_length n"
proof (induction n rule: bit_length.induct)
  case (1 n)
  show ?case
  proof (cases "n = 0")
    case False
    then have "n div 2 < 2 ^ bit_length (n div 2)" by (rule 1)
    then have "n < 2 * 2 ^ bit_length (n div 2)" by linarith
    then show ?thesis using False by (simp add: bit_length.simps [of n])
  qed simp
qed

lemma get_magnitude:
  assumes "(bit_length n + 7) div 8 < 2 ^ 64"
  shows "bindR (get_uint (put_magnitude n @ rest)) (\<lambda>(l, bs). bindR (take_bytes l bs) (\<lambda>(raw, bs). Inr (f (be_nat raw), bs)))
    = Inr (f n, rest)"
proof -
  let ?l = "max 1 ((bit_length n + 7) div 8)"
  have "bit_length n \<le> 8 * ?l" by linarith
  then have "(2::nat) ^ bit_length n \<le> 2 ^ (8 * ?l)" by (rule power_increasing) simp
  then have "n < 256 ^ ?l" using bit_length_bound [of n] by (simp add: power_mult)
  then have "be_nat (be_bytes ?l n) = n" by (rule be_nat_be_bytes)
  moreover have "?l < 2 ^ 64" using assms by simp
  ultimately show ?thesis by (simp add: put_magnitude_def Let_def take_bytes_length)
qed

lemma FE_MAX_bytes: "FE_MAX = 256 ^ FIELD_BYTES"
  by (simp add: FE_MAX_def FIELD_BYTES_def)

lemma get_put_int:
  assumes "(bit_length (nat \<bar>n\<bar>) + 7) div 8 < 2 ^ 64"
  shows "get (Suc d) order (put_int n @ rest) = Inr (VInt n, rest)"
proof -
  consider "n < 0" | "0 \<le> n" "n < 2 ^ 64" | "\<not> n < 2 ^ 64" "n < int FE_MAX" | "\<not> n < 2 ^ 64" "\<not> n < int FE_MAX" by linarith
  then show ?thesis
  proof cases
    case 1
    then show ?thesis
      using get_magnitude [of "nat (- n)" rest "\<lambda>m. VInt (- int m)"] assms by (simp add: put_int_def get_leaf_def)
  next
    case 2
    then have "nat n < 2 ^ 64" by (simp add: nat_less_iff)
    with 2 show ?thesis by (simp add: put_int_def get_leaf_def)
  next
    case 3
    then have "nat n < 256 ^ FIELD_BYTES" "0 \<le> n" by (auto simp: FE_MAX_bytes nat_less_iff)
    with 3 show ?thesis by (simp add: put_int_def get_leaf_def take_bytes_length be_nat_be_bytes)
  next
    case 4
    then have "0 \<le> n" by simp
    with 4 show ?thesis
      using get_magnitude [of "nat n" rest "\<lambda>m. VInt (int m)"] assms by (simp add: put_int_def get_leaf_def)
  qed
qed

lemma chunks_back:
  assumes "\<forall>x\<in>set xs. length (f x) = w"
  shows "map (\<lambda>i. g (take w (drop (i * w) (concat (map f xs))))) [0..<length xs] = map (\<lambda>x. g (f x)) xs"
proof (rule nth_equalityI)
  fix i assume i: "i < length (map (\<lambda>i. g (take w (drop (i * w) (concat (map f xs))))) [0..<length xs])"
  have "take w (drop (i * w) (concat (map f xs) @ [])) = map f xs ! i"
    by (rule concat_slot) (use assms i in auto)
  then show "map (\<lambda>i. g (take w (drop (i * w) (concat (map f xs))))) [0..<length xs] ! i = map (\<lambda>x. g (f x)) xs ! i" using i by simp
qed simp

lemma get_byte_vec:
  assumes "is_byte_vec xs" "length xs < 2 ^ 64" "list_all storable xs"
  shows "get (Suc d) order (put_vec t xs @ rest) = Inr (if t then VTuple xs else VList xs, rest)"
proof -
  let ?w = "length (bytes_of (hd xs))"
  have xs: "\<forall>x\<in>set xs. x = VBytes (bytes_of x)" "\<forall>x\<in>set xs. length (bytes_of x) = ?w" "xs \<noteq> []"
    using assms(1) by (auto simp: is_byte_vec_def list_all_iff is_bytes_def bytes_of_def split: pyval.splits)
  have "hd xs \<in> set xs" using xs(3) by simp
  then have "storable (VBytes (bytes_of (hd xs)))" using assms(3) xs(1) by (metis list_all_iff)
  then have w: "?w < 2 ^ 64" by simp
  have len: "length (concat (map bytes_of xs)) = length xs * ?w" using xs(2) by (subst length_concat_uniform) auto
  have "map (\<lambda>i. VBytes (take ?w (drop (i * ?w) (concat (map bytes_of xs))))) [0..<length xs] = xs"
    using chunks_back [OF xs(2), of VBytes] xs(1) by (simp add: map_idI)
  then show ?thesis using w assms(2) len
    by (simp add: put_vec_def get_leaf_def Let_def take_bytes_length)
qed

lemma get_fe_vec:
  assumes "is_fe_vec xs" "length xs < 2 ^ 64"
  shows "get (Suc d) order ((if t then 13 else 12) # put_uint (length xs) @ concat (map (\<lambda>x. be_bytes FIELD_BYTES (the (fe_of x))) xs) @ rest)
    = Inr (if t then VTuple xs else VList xs, rest)"
proof -
  let ?f = "\<lambda>x. be_bytes FIELD_BYTES (the (fe_of x))"
  have "VInt (int (be_nat (?f x))) = x" if mem: "x \<in> set xs" for x
  proof -
    obtain m where m: "fe_of x = Some m" using mem assms(1) by (auto simp: is_fe_vec_def list_all_iff)
    then obtain n where n: "x = VInt n" "0 \<le> n" "n < int FE_MAX" "m = nat n" by (auto simp: fe_of_def split: pyval.splits if_splits)
    then have "m < 256 ^ FIELD_BYTES" by (simp add: FE_MAX_bytes nat_less_iff)
    then show ?thesis using m n by (simp add: be_nat_be_bytes)
  qed
  then have items: "map (\<lambda>i. VInt (int (be_nat (take FIELD_BYTES (drop (i * FIELD_BYTES) (concat (map ?f xs))))))) [0..<length xs] = xs"
    by (subst chunks_back) (auto intro: map_idI)
  have "length (concat (map ?f xs)) = length xs * FIELD_BYTES" by (subst length_concat_uniform) auto
  then show ?thesis using items assms(2) by (simp add: get_leaf_def Let_def take_bytes_length)
qed

lemma get_tuple_plain:
  assumes "get_items d order (length xs) (concat encs @ rest) = Inr (ws, rest)" "length xs < 2 ^ 64"
  shows "get (Suc d) order ((if t then 10 else 9) # put_uint (length xs) @ concat encs @ rest) = Inr (if t then VTuple ws else VList ws, rest)"
  using assms by simp

lemma get_items_put:
  assumes "list_all2 (\<lambda>x e. put order x = Inr e) xs encs"
    and "\<And>x e rest. x \<in> set xs \<Longrightarrow> put order x = Inr e \<Longrightarrow> \<exists>w. same_val x w \<and> get d order (e @ rest) = Inr (w, rest)"
  shows "\<exists>ws. list_all2 same_val xs ws \<and> get_items d order (length xs) (concat encs @ rest) = Inr (ws, rest)"
  using assms
proof (induction xs encs rule: list_all2_induct)
  case (Cons x xs e encs)
  obtain w where w: "same_val x w" "get d order (e @ concat encs @ rest) = Inr (w, concat encs @ rest)"
    using Cons.prems [of x e] Cons.hyps(1) by auto
  obtain ws where "list_all2 same_val xs ws" "get_items d order (length xs) (concat encs @ rest) = Inr (ws, rest)"
    using Cons.IH Cons.prems by auto
  then show ?case using w by (intro exI [of _ "w # ws"]) simp
qed simp

lemma plain_hashable: "plain k \<Longrightarrow> hashable k"
  by (induction k) (auto simp: list_all_iff)

lemma plain_same: "same_val k w \<Longrightarrow> plain k \<Longrightarrow> w = k"
proof (induction rule: same_val.induct)
  case (sv_tuple xs ys)
  then have "list_all2 (=) xs ys" by (auto simp: list_all2_conv_all_nth list_all_length)
  then show ?case by (simp add: list.rel_eq)
next
  case (sv_obj xs ys i)
  then have "list_all2 (=) xs ys" by (auto simp: list_all2_conv_all_nth list_all_length)
  then show ?case by (simp add: list.rel_eq)
qed auto

lemma dict_put_fresh: "\<forall>(j, w)\<in>set d. \<not> py_eq j k \<Longrightarrow> dict_put k v d = d @ [(k, v)]"
  by (induction d) auto

definition entry_put :: "string list \<Rightarrow> pyval \<times> pyval \<Rightarrow> bytes \<times> bytes \<Rightarrow> bool" where
  "entry_put order p e = (put order (fst p) = Inr (fst e) \<and> put order (snd p) = Inr (snd e))"

definition entry_same :: "pyval \<times> pyval \<Rightarrow> pyval \<times> pyval \<Rightarrow> bool" where
  "entry_same p q = (fst p = fst q \<and> same_val (snd p) (snd q))"

lemma get_entries_put:
  assumes "list_all2 (entry_put order) kvs items"
    and "\<forall>p\<in>set kvs. \<forall>e rest. put order (fst p) = Inr e \<longrightarrow> get d order (e @ rest) = Inr (fst p, rest)"
    and "\<forall>p\<in>set kvs. \<forall>e rest. put order (snd p) = Inr e \<longrightarrow> (\<exists>w. same_val (snd p) w \<and> get d order (e @ rest) = Inr (w, rest))"
    and "distinct (map fst acc @ map fst kvs)" "\<forall>k\<in>set (map fst kvs). plain k"
    and "\<forall>a\<in>set (map fst acc @ map fst kvs). \<forall>b\<in>set (map fst kvs). a \<noteq> b \<longrightarrow> \<not> py_eq a b"
  shows "\<exists>ds. list_all2 entry_same kvs ds
    \<and> get_entries d order (length kvs) acc (concat (map (\<lambda>(kb, vb). kb @ vb) items) @ rest) = Inr (acc @ ds, rest)"
  using assms
proof (induction kvs items arbitrary: acc rule: list_all2_induct)
  case (Cons p kvs e items)
  obtain k v where p: "p = (k, v)" by force
  obtain kb vb where e: "e = (kb, vb)" by force
  let ?r = "concat (map (\<lambda>(kb, vb). kb @ vb) items) @ rest"
  have pe: "put order k = Inr kb" "put order v = Inr vb" using Cons.hyps(1) by (simp_all add: p e entry_put_def)
  have k: "get d order (kb @ vb @ ?r) = Inr (k, vb @ ?r)" using Cons.prems(1) pe(1) by (simp add: p)
  have "\<exists>w. same_val v w \<and> get d order (vb @ ?r) = Inr (w, ?r)" using Cons.prems(2) pe(2) by (simp add: p)
  then obtain w where w: "same_val v w" "get d order (vb @ ?r) = Inr (w, ?r)" by blast
  have "\<not> py_eq j k" if "(j, x) \<in> set acc" for j x
    using that Cons.prems(3,5) by (force simp: p)
  then have put: "dict_put k w acc = acc @ [(k, w)]" by (intro dict_put_fresh) auto
  have "hashable k" using Cons.prems(4) by (simp add: p plain_hashable)
  moreover have "\<exists>ds. list_all2 entry_same kvs ds \<and> get_entries d order (length kvs) (acc @ [(k, w)]) ?r = Inr ((acc @ [(k, w)]) @ ds, rest)"
    by (rule Cons.IH) (use Cons.prems in \<open>auto simp: p\<close>)
  then obtain ds where "list_all2 entry_same kvs ds" "get_entries d order (length kvs) (acc @ [(k, w)]) ?r = Inr (acc @ (k, w) # ds, rest)" by auto
  ultimately show ?case using k w put by (intro exI [of _ "(k, w) # ds"]) (simp add: p e, simp add: entry_same_def)
qed simp

lemma string_id_back: "string_id order s = Inr i \<Longrightarrow> i < length order \<and> order ! i = s"
  using index_in_Some by (fastforce simp: string_id_def split: option.splits)

lemma Max_depth: "Suc (Max (insert 0 (f ` set xs))) \<le> Suc d \<Longrightarrow> x \<in> set xs \<Longrightarrow> f x \<le> (d :: nat)"
  by simp

lemma entries_Inr:
  assumes "mapR (\<lambda>(k, v). bindR (put order k) (\<lambda>kb. bindR (put order v) (\<lambda>vb. Inr (kb, vb)))) kvs = Inr items"
  shows "list_all2 (entry_put order) kvs items"
  using assms unfolding mapR_eq_Inr by (rule list_all2_mono) (auto simp: entry_put_def split: prod.splits)

lemma put_seq_back:
  assumes ih: "\<forall>x\<in>set xs. \<forall>e rest. put order x = Inr e \<longrightarrow> (\<exists>w. same_val x w \<and> get d order (e @ rest) = Inr (w, rest))"
    and ok: "length xs < 2 ^ 64" "list_all storable xs"
    and p: "(if is_byte_vec xs then Inr (put_vec t xs) else bindR (mapR (put order) xs) (\<lambda>encs. Inr (put_items t xs encs))) = Inr bs"
  shows "\<exists>ws. list_all2 same_val xs ws \<and> get (Suc d) order (bs @ rest) = Inr (if t then VTuple ws else VList ws, rest)"
proof -
  have refl: "list_all2 same_val xs xs" by (intro list_all2_refl same_val.sv_refl)
  consider (vec) "is_byte_vec xs" "bs = put_vec t xs"
    | (items) encs where "mapR (put order) xs = Inr encs" "bs = put_items t xs encs"
    using p by (auto split: if_splits)
  then show ?thesis
  proof cases
    case vec
    then show ?thesis using get_byte_vec [OF vec(1) ok] refl by blast
  next
    case items
    let ?plain = "(if t then 10 else 9) # put_uint (length xs) @ concat encs"
    and ?packed = "(if t then 13 else 12) # put_uint (length xs) @ concat (map (\<lambda>x. be_bytes FIELD_BYTES (the (fe_of x))) xs)"
    consider "bs = ?plain" | "is_fe_vec xs" "bs = ?packed" using items(2) by (auto simp: put_items_def Let_def split: if_splits)
    then show ?thesis
    proof cases
      case 1
      obtain ws where "list_all2 same_val xs ws" "get_items d order (length xs) (concat encs @ rest) = Inr (ws, rest)"
        using get_items_put [of order xs encs d rest] items(1) ih by (auto simp: mapR_eq_Inr)
      then show ?thesis using get_tuple_plain [OF _ ok(1)] 1 by (intro exI [of _ ws]) simp
    next
      case 2
      then show ?thesis using get_fe_vec [OF 2(1) ok(1), of d order t rest] refl by auto
    qed
  qed
qed

lemma list_all2_reorder_right:
  assumes "list_all2 R xs ys" "mset ys' = mset ys"
  shows "\<exists>xs'. list_all2 R xs' ys' \<and> mset xs' = mset xs"
proof -
  have "list_all2 (\<lambda>y x. R x y) ys xs" using assms(1) by (simp add: list_all2_conv_all_nth)
  from list_all2_reorder_left_invariance [OF this assms(2)] show ?thesis
    by (auto simp: list_all2_conv_all_nth)
qed

lemma put_dict_back:
  assumes k: "\<forall>p\<in>set kvs. \<forall>e rest. put order (fst p) = Inr e \<longrightarrow> get d order (e @ rest) = Inr (fst p, rest)"
    and v: "\<forall>p\<in>set kvs. \<forall>e rest. put order (snd p) = Inr e \<longrightarrow> (\<exists>w. same_val (snd p) w \<and> get d order (e @ rest) = Inr (w, rest))"
    and ok: "storable (VDict kvs)" and p: "put order (VDict kvs) = Inr bs"
  shows "\<exists>w. same_val (VDict kvs) w \<and> get (Suc d) order (bs @ rest) = Inr (w, rest)"
proof -
  obtain items where items: "list_all2 (entry_put order) kvs items" "bs = put_entries (length kvs) items"
    using p entries_Inr by auto
  obtain kvs' where kvs': "list_all2 (entry_put order) kvs' (sort_key fst items)" "mset kvs' = mset kvs"
    using list_all2_reorder_right [OF items(1), of "sort_key fst items"] by auto
  have same: "set kvs' = set kvs" "length kvs' = length kvs" using kvs'(2) by (metis set_mset_mset, metis size_mset)
  have "distinct (map fst kvs')"
  proof -
    have "mset (map fst kvs') = mset (map fst kvs)" using kvs'(2) by simp
    then show ?thesis using ok by (metis mset_eq_imp_distinct_iff storable.simps(6))
  qed
  moreover have "\<forall>k\<in>set (map fst kvs'). plain k" using ok by (auto simp: same list_all_iff)
  ultimately obtain ds where ds: "list_all2 entry_same kvs' ds"
    "get_entries d order (length kvs') [] (concat (map (\<lambda>(kb, vb). kb @ vb) (sort_key fst items)) @ rest) = Inr ([] @ ds, rest)"
    using get_entries_put [OF kvs'(1), of d "[]" rest] k v ok by (auto simp: same list_all_iff)
  obtain zs where "list_all2 entry_same kvs zs" "mset zs = mset ds"
    using list_all2_reorder_left_invariance [OF ds(1), of kvs] kvs'(2) by auto
  then have "same_val (VDict kvs) (VDict ds)" unfolding entry_same_def by (rule same_val.sv_dict)
  moreover have "get (Suc d) order (bs @ rest) = Inr (VDict ds, rest)"
    using ds(2) ok by (simp add: items(2) put_entries_def same)
  ultimately show ?thesis by blast
qed

lemma get_put:
  assumes "storable v" "depth v \<le> d" "put order v = Inr bs" "length order < 2 ^ 64"
  shows "\<exists>w. same_val v w \<and> get d order (bs @ rest) = Inr (w, rest)"
  using assms(1-3)
proof (induction v arbitrary: d bs rest)
  case VNone
  then show ?case by (cases d) (auto intro: same_val.sv_refl simp: get_leaf_def)
next
  case (VBool b)
  then show ?case by (cases d) (auto intro: same_val.sv_refl simp: get_leaf_def)
next
  case (VInt n)
  then show ?case using get_put_int [of n] same_val.sv_refl by (cases d) auto
next
  case (VBytes b)
  then show ?case by (cases d) (auto intro: same_val.sv_refl simp: get_leaf_def take_bytes_length)
next
  case (VStr s)
  obtain i where i: "string_id order s = Inr i" "bs = 8 # put_uint i" using VStr.prems(3) by auto
  have "i < length order" "order ! i = s" using string_id_back [OF i(1)] by auto
  moreover have "i < 2 ^ 64" using calculation(1) assms(4) by simp
  ultimately show ?case using VStr.prems(2) i(2) by (cases d) (auto intro: same_val.sv_refl simp: get_leaf_def)
next
  case (VTuple xs)
  obtain d' where d: "d = Suc d'" using VTuple.prems(2) by (cases d) simp_all
  have "\<forall>x\<in>set xs. \<forall>e rest. put order x = Inr e \<longrightarrow> (\<exists>w. same_val x w \<and> get d' order (e @ rest) = Inr (w, rest))"
    using VTuple.IH VTuple.prems(1,2) by (simp add: d list_all_iff)
  from put_seq_back [OF this, of True bs rest] VTuple.prems show ?case by (auto simp: d intro: same_val.sv_tuple)
next
  case (VList xs)
  obtain d' where d: "d = Suc d'" using VList.prems(2) by (cases d) simp_all
  have "\<forall>x\<in>set xs. \<forall>e rest. put order x = Inr e \<longrightarrow> (\<exists>w. same_val x w \<and> get d' order (e @ rest) = Inr (w, rest))"
    using VList.IH VList.prems(1,2) by (simp add: d list_all_iff)
  from put_seq_back [OF this, of False bs rest] VList.prems show ?case by (auto simp: d intro: same_val.sv_list)
next
  case (VDict kvs)
  obtain d' where d: "d = Suc d'" using VDict.prems(2) by (cases d) simp_all
  have st: "storable k" "plain k" "storable v" "depth k \<le> d'" "depth v \<le> d'" if "(k, v) \<in> set kvs" for k v
    using VDict.prems(1,2) that by (force simp: d list_all_iff)+
  have keys: "\<forall>p\<in>set kvs. \<forall>e rest. put order (fst p) = Inr e \<longrightarrow> get d' order (e @ rest) = Inr (fst p, rest)"
  proof (intro ballI allI impI)
    fix p e rest assume p: "p \<in> set kvs" and e: "put order (fst p) = Inr e"
    have "fst p \<in> Basic_BNFs.fsts p" by (simp add: fsts.simps)
    then obtain w where "same_val (fst p) w" "get d' order (e @ rest) = Inr (w, rest)"
      using VDict.IH(1) [OF p _ _ _ e] st [of "fst p" "snd p"] p by auto
    then show "get d' order (e @ rest) = Inr (fst p, rest)" using plain_same st(2) [of "fst p" "snd p"] p by fastforce
  qed
  have vals: "\<forall>p\<in>set kvs. \<forall>e rest. put order (snd p) = Inr e \<longrightarrow> (\<exists>w. same_val (snd p) w \<and> get d' order (e @ rest) = Inr (w, rest))"
  proof (intro ballI allI impI)
    fix p e rest assume p: "p \<in> set kvs" and e: "put order (snd p) = Inr e"
    have "snd p \<in> Basic_BNFs.snds p" by (simp add: snds.simps)
    then show "\<exists>w. same_val (snd p) w \<and> get d' order (e @ rest) = Inr (w, rest)"
      using VDict.IH(2) [OF p _ _ _ e] st [of "fst p" "snd p"] p by auto
  qed
  show ?case unfolding d by (rule put_dict_back [OF keys vals VDict.prems(1,3)])
next
  case (VObj i xs)
  obtain d' where d: "d = Suc d'" using VObj.prems(2) by (cases d) simp_all
  obtain encs where encs: "mapR (put order) xs = Inr encs" "bs = 16 # put_uint i @ concat encs" using VObj.prems(3) by auto
  have ih: "\<exists>w. same_val x w \<and> get d' order (e @ rest) = Inr (w, rest)" if "x \<in> set xs" "put order x = Inr e" for x e rest
    using VObj.IH [OF that(1) _ _ that(2)] VObj.prems(1,2) that(1) by (simp add: d list_all_iff)
  obtain ws where "list_all2 same_val xs ws" "get_items d' order (length xs) (concat encs @ rest) = Inr (ws, rest)"
    using get_items_put [of order xs encs d' rest] encs(1) ih by (auto simp: mapR_eq_Inr)
  moreover have "i < 2 ^ 64" using VObj.prems(1) by (simp add: FIELDS_def)
  ultimately show ?case using VObj.prems(1) by (intro exI [of _ "VObj i ws"]) (simp add: d encs(2) same_val.sv_obj)
qed

section \<open>An encoding always exists\<close>

lemma string_id_mem: "s \<in> set order \<Longrightarrow> \<exists>i. string_id order s = Inr i"
  using index_in_mem by (fastforce simp: string_id_def)

lemma mapR_total: "\<forall>x\<in>set xs. \<exists>y. f x = Inr y \<Longrightarrow> \<exists>ys. mapR f xs = Inr ys"
  by (induction xs) auto

lemma put_ok: "set (collect v) \<subseteq> set order \<Longrightarrow> \<exists>bs. put order v = Inr bs"
proof (induction v)
  case (VStr s)
  then show ?case using string_id_mem by fastforce
next
  case (VTuple xs)
  then have "\<exists>encs. mapR (put order) xs = Inr encs" by (intro mapR_total) auto
  then show ?case by auto
next
  case (VList xs)
  then have "\<exists>encs. mapR (put order) xs = Inr encs" by (intro mapR_total) auto
  then show ?case by auto
next
  case (VDict kvs)
  have "\<exists>r. (case p of (k, v) \<Rightarrow> bindR (put order k) (\<lambda>kb. bindR (put order v) (\<lambda>vb. Inr (kb, vb)))) = Inr r" if p: "p \<in> set kvs" for p
  proof -
    obtain k v where kv: "p = (k, v)" by force
    have "\<exists>bs. put order k = Inr bs" by (rule VDict.IH(1) [OF p]) (use VDict.prems p in \<open>auto simp: kv fsts.simps\<close>)
    moreover have "\<exists>bs. put order v = Inr bs" by (rule VDict.IH(2) [OF p]) (use VDict.prems p in \<open>auto simp: kv snds.simps\<close>)
    ultimately show ?thesis by (auto simp: kv)
  qed
  then have "\<exists>items. mapR (\<lambda>(k, v). bindR (put order k) (\<lambda>kb. bindR (put order v) (\<lambda>vb. Inr (kb, vb)))) kvs = Inr items"
    by (intro mapR_total) blast
  then show ?case by auto
next
  case (VObj i xs)
  then have "\<exists>encs. mapR (put order) xs = Inr encs" by (intro mapR_total) auto
  then show ?case by auto
qed simp_all

lemma collect_strings: "storable v \<Longrightarrow> s \<in> set (collect v) \<Longrightarrow> py_str s"
proof (induction v)
  case (VDict kvs)
  then obtain k v where kv: "(k, v) \<in> set kvs" "s \<in> set (collect k) \<or> s \<in> set (collect v)" by auto
  moreover have "storable k" "storable v" using VDict.prems(1) kv(1) by (auto simp: list_all_iff)
  ultimately show ?case using VDict.IH [OF kv(1)] by (auto simp: fsts.simps snds.simps)
qed (auto simp: list_all_iff)

section \<open>Equal values have equal encodings\<close>

lemma same_leaf: "same_val x y \<Longrightarrow> fe_of x = fe_of y \<and> is_bytes x = is_bytes y \<and> bytes_of x = bytes_of y"
  by (cases rule: same_val.cases) (auto simp: fe_of_def is_bytes_def bytes_of_def)

lemma is_byte_vec_map:
  "is_byte_vec zs = (2 \<le> length zs \<and> list_all id (map is_bytes zs) \<and> 0 < length (hd (map bytes_of zs))
     \<and> list_all (\<lambda>b. length b = length (hd (map bytes_of zs))) (map bytes_of zs))"
  by (cases zs) (auto simp: is_byte_vec_def list_all_iff)

lemma put_items_map:
  "put_items t zs encs =
     (let plain = (if t then 10 else 9) # put_uint (length zs) @ concat encs
      in if 2 \<le> length zs \<and> list_all (\<lambda>x. x \<noteq> None) (map fe_of zs) then
           (let packed = (if t then 13 else 12) # put_uint (length zs) @ concat (map (\<lambda>x. be_bytes FIELD_BYTES (the x)) (map fe_of zs))
            in if length packed < length plain then packed else plain)
         else plain)"
  by (simp add: put_items_def is_fe_vec_def list_all_iff o_def Let_def)

lemma same_vec:
  assumes "list_all2 same_val xs ys"
  shows "is_byte_vec ys = is_byte_vec xs" "put_items t ys encs = put_items t xs encs" "put_vec t ys = put_vec t xs"
proof -
  have maps: "map fe_of ys = map fe_of xs" "map is_bytes ys = map is_bytes xs" "map bytes_of ys = map bytes_of xs"
    using assms same_leaf by (induction rule: list_all2_induct) auto
  have len: "length ys = length xs" using assms by (simp add: list_all2_lengthD)
  show "is_byte_vec ys = is_byte_vec xs" unfolding is_byte_vec_map maps len ..
  show "put_items t ys encs = put_items t xs encs" unfolding put_items_map maps len ..
  show "put_vec t ys = put_vec t xs" using maps(3) len by (cases xs; cases ys) (auto simp: put_vec_def)
qed

lemma mset_single_eq: "mset as = mset bs \<Longrightarrow> length bs \<le> 1 \<Longrightarrow> as = bs"
  by (cases bs; cases as) auto

lemma length_filter_distinct: "distinct (map f xs) \<Longrightarrow> length (filter (\<lambda>x. k = f x) xs) \<le> 1"
proof (induction xs)
  case (Cons x xs)
  then show ?case by (cases "k = f x") (auto simp: filter_empty_conv image_iff)
qed simp

lemma sort_key_perm:
  assumes "mset xs = mset ys" "distinct (map f ys)"
  shows "sort_key f xs = sort_key f ys"
proof (rule properties_for_sort_key)
  show "mset (sort_key f ys) = mset xs" using assms(1) by simp
  fix k
  have "length (filter (\<lambda>x. f k = f x) (sort_key f ys)) \<le> 1"
    using length_filter_distinct [OF assms(2), of "f k"] by (simp add: filter_sort)
  moreover have "length (filter (\<lambda>x. f k = f x) xs) = length (filter (\<lambda>x. f k = f x) (sort_key f ys))"
    using assms(1) by (metis mset_filter mset_sort size_mset)
  ultimately show "filter (\<lambda>x. f k = f x) (sort_key f ys) = filter (\<lambda>x. f k = f x) xs"
    using assms(1) by (intro mset_single_eq) simp_all
qed simp

lemma mapR_perm:
  assumes "mapR f xs = Inr as" "mset ys = mset xs"
  shows "\<exists>bs. mapR f ys = Inr bs \<and> mset bs = mset as"
  using list_all2_reorder_left_invariance [of "\<lambda>x y. f x = Inr y" xs as ys] assms by (auto simp: mapR_eq_Inr)

lemma put_key_inj:
  assumes "storable a" "storable b" "plain a" "plain b" "put order a = Inr e" "put order b = Inr e" "length order < 2 ^ 64"
  shows "a = b"
proof -
  let ?d = "max (depth a) (depth b)"
  obtain x where "same_val a x" "get ?d order (e @ []) = Inr (x, [])" using get_put [OF assms(1) _ assms(5,7)] by (metis max.cobounded1)
  moreover obtain y where "same_val b y" "get ?d order (e @ []) = Inr (y, [])" using get_put [OF assms(2) _ assms(6,7)] by (metis max.cobounded2)
  ultimately show ?thesis using plain_same [of a x] plain_same [of b y] assms(3,4) by simp
qed

lemma mapR_same:
  assumes "list_all2 (\<lambda>x y. put order y = put order x) xs ys"
  shows "mapR (put order) ys = mapR (put order) xs"
  using assms by (induction rule: list_all2_induct) simp_all

definition put_entry :: "string list \<Rightarrow> pyval \<times> pyval \<Rightarrow> exn + bytes \<times> bytes" where
  "put_entry order p = bindR (put order (fst p)) (\<lambda>kb. bindR (put order (snd p)) (\<lambda>vb. Inr (kb, vb)))"

lemma put_dict: "put order (VDict kvs) = bindR (mapR (put_entry order) kvs) (\<lambda>items. Inr (put_entries (length kvs) items))"
proof -
  have "(\<lambda>(k, v). bindR (put order k) (\<lambda>kb. bindR (put order v) (\<lambda>vb. Inr (kb, vb)))) = put_entry order"
    by (auto simp: put_entry_def)
  then show ?thesis by simp
qed

lemma put_dict_perm:
  assumes ok: "storable (VDict kvs)" and p: "mset ys = mset kvs" and o: "length order < 2 ^ 64" "set (collect (VDict kvs)) \<subseteq> set order"
  shows "put order (VDict ys) = put order (VDict kvs)"
proof -
  obtain bs where "put order (VDict kvs) = Inr bs" using put_ok [OF o(2)] ..
  then obtain items where items: "mapR (put_entry order) kvs = Inr items" "put order (VDict kvs) = Inr (put_entries (length kvs) items)"
    unfolding put_dict by auto
  obtain items' where items': "mapR (put_entry order) ys = Inr items'" "mset items' = mset items"
    using mapR_perm [OF items(1) p] by blast
  have rel: "list_all2 (entry_put order) kvs items"
    using items(1) unfolding mapR_eq_Inr by (rule list_all2_mono) (auto simp: put_entry_def entry_put_def)
  have len: "length items = length kvs" using rel by (simp add: list_all2_lengthD)
  have "distinct (map fst items)"
  proof (rule distinct_conv_nth [THEN iffD2], intro allI impI)
    fix i j assume ij: "i < length (map fst items)" "j < length (map fst items)" "i \<noteq> j"
    have st: "storable (fst (kvs ! n))" "plain (fst (kvs ! n))" "put order (fst (kvs ! n)) = Inr (fst (items ! n))" if n: "n < length kvs" for n
    proof -
      have "kvs ! n \<in> set kvs" using n by simp
      then have "case kvs ! n of (k, v) \<Rightarrow> plain k \<and> storable k \<and> storable v" using ok by (metis (no_types, lifting) list_all_iff storable.simps(6))
      then show "storable (fst (kvs ! n))" "plain (fst (kvs ! n))" by (auto split: prod.splits)
      show "put order (fst (kvs ! n)) = Inr (fst (items ! n))" using list_all2_nthD [OF rel n] by (simp add: entry_put_def)
    qed
    have "fst (kvs ! i) \<noteq> fst (kvs ! j)" using ij ok len by (simp add: distinct_conv_nth)
    then show "map fst items ! i \<noteq> map fst items ! j"
      using ij len put_key_inj [OF st(1) [of i] st(1) [of j] st(2) [of i] st(2) [of j] st(3) [of i] _ o(1)] st(3) [of j] by auto
  qed
  then have "sort_key fst items' = sort_key fst items" by (rule sort_key_perm [OF items'(2)])
  moreover have "length ys = length kvs" using p by (metis size_mset)
  ultimately show ?thesis unfolding put_dict using items(1) items'(1) by (simp add: put_entries_def)
qed

lemma same_dict_entries:
  assumes "list_all2 (\<lambda>p q. fst p = fst q \<and> put order (snd q) = put order (snd p)) xs zs"
  shows "put order (VDict zs) = put order (VDict xs)"
proof -
  have "mapR (put_entry order) zs = mapR (put_entry order) xs"
    using assms by (induction rule: list_all2_induct) (auto simp: put_entry_def)
  moreover have "length zs = length xs" using assms by (simp add: list_all2_lengthD)
  ultimately show ?thesis unfolding put_dict by simp
qed

lemma UN_same: "list_all2 (\<lambda>x y. f y = f x) xs ys \<Longrightarrow> (\<Union>x\<in>set ys. f x) = (\<Union>x\<in>set xs. f x)"
  by (induction rule: list_all2_induct) auto

lemma same_collect: "same_val v w \<Longrightarrow> set (collect w) = set (collect v)"
proof (induction rule: same_val.induct)
  case (sv_tuple xs ys)
  then have "list_all2 (\<lambda>x y. set (collect y) = set (collect x)) xs ys" by (auto elim: list_all2_mono)
  from UN_same [OF this] show ?case by simp
next
  case (sv_list xs ys)
  then have "list_all2 (\<lambda>x y. set (collect y) = set (collect x)) xs ys" by (auto elim: list_all2_mono)
  from UN_same [OF this] show ?case by simp
next
  case (sv_obj xs ys i)
  then have "list_all2 (\<lambda>x y. set (collect y) = set (collect x)) xs ys" by (auto elim: list_all2_mono)
  from UN_same [OF this] show ?case by simp
next
  case (sv_dict xs zs ys)
  let ?f = "\<lambda>p. set (collect (fst p)) \<union> set (collect (snd p))"
  have "list_all2 (\<lambda>p q. ?f q = ?f p) xs zs" using sv_dict(1) by (rule list_all2_mono) auto
  moreover have "set zs = set ys" using sv_dict(2) by (metis set_mset_mset)
  moreover have "set (collect (VDict kvs)) = (\<Union>p\<in>set kvs. ?f p)" for kvs by auto
  ultimately show ?case using UN_same [of ?f xs zs] by simp
qed simp

lemma list_all_same: "list_all2 (\<lambda>x y. P x \<longrightarrow> P y) xs ys \<Longrightarrow> list_all P xs \<Longrightarrow> list_all P ys"
  by (induction rule: list_all2_induct) auto

lemma same_storable: "same_val v w \<Longrightarrow> storable v \<Longrightarrow> storable w"
proof (induction rule: same_val.induct)
  case (sv_tuple xs ys)
  then have "list_all2 (\<lambda>x y. storable x \<longrightarrow> storable y) xs ys" by (auto elim: list_all2_mono)
  from list_all_same [OF this] sv_tuple show ?case by (auto dest: list_all2_lengthD)
next
  case (sv_list xs ys)
  then have "list_all2 (\<lambda>x y. storable x \<longrightarrow> storable y) xs ys" by (auto elim: list_all2_mono)
  from list_all_same [OF this] sv_list show ?case by (auto dest: list_all2_lengthD)
next
  case (sv_obj xs ys i)
  then have "list_all2 (\<lambda>x y. storable x \<longrightarrow> storable y) xs ys" by (auto elim: list_all2_mono)
  from list_all_same [OF this] sv_obj show ?case by (auto dest: list_all2_lengthD)
next
  case (sv_dict xs zs ys)
  let ?ok = "\<lambda>(k, v). plain k \<and> storable k \<and> storable v"
  have rel: "list_all2 (\<lambda>p q. ?ok p \<longrightarrow> ?ok q) xs zs" using sv_dict(1) by (rule list_all2_mono) auto
  have keys: "map fst zs = map fst xs" using sv_dict(1) by (induction rule: list_all2_induct) auto
  have "list_all ?ok zs" using list_all_same [OF rel] sv_dict.prems by simp
  moreover have "set zs = set ys" "length zs = length ys" using sv_dict(2) by (metis set_mset_mset, metis size_mset)
  moreover have "distinct (map fst ys) = distinct (map fst zs)"
    using sv_dict(2) by (intro mset_eq_imp_distinct_iff) simp
  moreover have "length zs = length xs" using keys by (metis length_map)
  moreover have "set (map fst ys) = set (map fst xs)" using calculation(2) keys by (metis list.set_map)
  ultimately show ?case using sv_dict.prems keys by (simp add: list_all_iff)
qed

lemma put_same:
  assumes "same_val v w" "storable v" "set (collect v) \<subseteq> set order" "length order < 2 ^ 64"
  shows "put order w = put order v"
  using assms(1-3)
proof (induction rule: same_val.induct)
  case (sv_tuple xs ys)
  have "list_all2 (\<lambda>x y. put order y = put order x) xs ys"
    using sv_tuple by (fastforce simp: list_all2_conv_all_nth list_all_length)
  then have "mapR (put order) ys = mapR (put order) xs" by (rule mapR_same)
  moreover have "list_all2 same_val xs ys" using sv_tuple(1) by (rule list_all2_mono) simp
  ultimately show ?case using same_vec by simp
next
  case (sv_list xs ys)
  have "list_all2 (\<lambda>x y. put order y = put order x) xs ys"
    using sv_list by (fastforce simp: list_all2_conv_all_nth list_all_length)
  then have "mapR (put order) ys = mapR (put order) xs" by (rule mapR_same)
  moreover have "list_all2 same_val xs ys" using sv_list(1) by (rule list_all2_mono) simp
  ultimately show ?case using same_vec by simp
next
  case (sv_obj xs ys i)
  have "list_all2 (\<lambda>x y. put order y = put order x) xs ys"
    using sv_obj by (fastforce simp: list_all2_conv_all_nth list_all_length)
  then show ?case using mapR_same by simp
next
  case (sv_dict xs zs ys)
  have sub: "storable v" "set (collect v) \<subseteq> set order" if "(k, v) \<in> set xs" for k v
    using that sv_dict.prems by (fastforce simp: list_all_iff)+
  have "list_all2 (\<lambda>p q. fst p = fst q \<and> put order (snd q) = put order (snd p)) xs zs"
    unfolding list_all2_conv_all_nth
  proof (intro conjI allI impI)
    show "length xs = length zs" using sv_dict(1) by (simp add: list_all2_lengthD)
    fix i assume i: "i < length xs"
    have e: "fst (xs ! i) = fst (zs ! i) \<and> same_val (snd (xs ! i)) (snd (zs ! i)) \<and>
        (storable (snd (xs ! i)) \<longrightarrow> set (collect (snd (xs ! i))) \<subseteq> set order \<longrightarrow> put order (snd (zs ! i)) = put order (snd (xs ! i)))"
      using list_all2_nthD [OF sv_dict(1) i] by simp
    show "fst (xs ! i) = fst (zs ! i)" using e by simp
    show "put order (snd (zs ! i)) = put order (snd (xs ! i))"
      using e sub [of "fst (xs ! i)" "snd (xs ! i)"] i by simp
  qed
  then have "put order (VDict zs) = put order (VDict xs)" by (rule same_dict_entries)
  moreover have "same_val (VDict xs) (VDict zs)" using sv_dict(1) by (intro same_val.sv_dict [of _ zs]) (auto elim: list_all2_mono)
  then have "storable (VDict zs)" "set (collect (VDict zs)) \<subseteq> set order"
    using same_storable same_collect sv_dict.prems by blast+
  from put_dict_perm [OF this(1) sv_dict(2) [symmetric] assms(4) this(2)] have "put order (VDict ys) = put order (VDict zs)" .
  ultimately show ?case by simp
qed simp

section \<open>Decoding ends\<close>

lemma get_uint_from_less: "get_uint_from a s bs = Inr (n, r) \<Longrightarrow> length r < length bs"
  by (induction a s bs rule: get_uint_from.induct) (auto simp: Let_def split: if_splits)

lemma get_uint_from_error: "get_uint_from a s bs = Inl e \<Longrightarrow> e = CodecError"
  by (induction a s bs rule: get_uint_from.induct) (auto simp: Let_def split: if_splits)

lemma get_uint_less: "get_uint bs = Inr (n, r) \<Longrightarrow> length r < length bs"
  unfolding get_uint_def by (rule get_uint_from_less)

lemma get_uint_error: "get_uint bs = Inl e \<Longrightarrow> e = CodecError"
  unfolding get_uint_def by (rule get_uint_from_error)

lemma take_bytes_less: "take_bytes n bs = Inr (x, r) \<Longrightarrow> length r \<le> length bs"
  by (auto simp: take_bytes_def split: if_splits)

lemma take_bytes_error: "take_bytes n bs = Inl e \<Longrightarrow> e = CodecError"
  by (auto simp: take_bytes_def split: if_splits)

lemmas reads_less = get_uint_less take_bytes_less
lemmas reads_error = get_uint_error take_bytes_error

lemma get_leaf_less: "get_leaf t tag bs = Inr (x, r) \<Longrightarrow> length r \<le> length bs"
  by (auto simp: get_leaf_def Let_def split: if_splits dest!: reads_less)

lemma get_leaf_error: "get_leaf t tag bs = Inl e \<Longrightarrow> e = CodecError"
  by (auto simp: get_leaf_def Let_def bindR_eq_Inl split: if_splits prod.splits dest!: reads_error)

lemma get_seq: "unat b = 9 \<or> unat b = 10 \<Longrightarrow> get (Suc d) t (b # bs) =
    bindR (get_uint bs) (\<lambda>(n, bs). bindR (get_items d t n bs) (\<lambda>(items, bs). Inr (if unat b = 10 then VTuple items else VList items, bs)))"
  by (simp add: Let_def)

lemma get_dict: "unat b = 11 \<Longrightarrow> get (Suc d) t (b # bs) =
    bindR (get_uint bs) (\<lambda>(n, bs). bindR (get_entries d t n [] bs) (\<lambda>(m, bs). Inr (VDict m, bs)))"
  by (simp add: Let_def)

lemma get_obj: "unat b = 16 \<Longrightarrow> get (Suc d) t (b # bs) =
    bindR (get_uint bs) (\<lambda>(i, bs). if length FIELDS \<le> i then Inl CodecError
      else bindR (get_items d t (FIELDS ! i) bs) (\<lambda>(items, bs). Inr (VObj i items, bs)))"
  by (simp add: Let_def)

lemma get_other: "\<not> (unat b = 9 \<or> unat b = 10) \<Longrightarrow> unat b \<noteq> 11 \<Longrightarrow> unat b \<noteq> 16 \<Longrightarrow> get (Suc d) t (b # bs) = get_leaf t (unat b) bs"
  by (simp add: Let_def)

declare get.simps(3) [simp del]

lemma get_less:
  "get d t bs = Inr (x, r) \<Longrightarrow> length r < length bs"
  "get_items d t n bs = Inr (xs, r) \<Longrightarrow> length r \<le> length bs"
  "get_entries d t n acc bs = Inr (ys, r) \<Longrightarrow> length r \<le> length bs"
proof (induction d t bs and d t n bs and d t n acc bs arbitrary: x r and xs r and ys r rule: get_get_items_get_entries.induct)
  case (3 d t b bs)
  consider (seq) "unat b = 9 \<or> unat b = 10" | (dict) "unat b = 11" | (obj) "unat b = 16"
    | (other) "\<not> (unat b = 9 \<or> unat b = 10)" "unat b \<noteq> 11" "unat b \<noteq> 16" by blast
  then show ?case
  proof cases
    case seq
    then obtain n r1 zs where "get_uint bs = Inr (n, r1)" "get_items d t n r1 = Inr (zs, r)"
      using "3.prems" by (auto simp: get_seq)
    then show ?thesis using "3.IH"(1) [OF refl seq] get_uint_less by fastforce
  next
    case dict
    then obtain n r1 m where "get_uint bs = Inr (n, r1)" "get_entries d t n [] r1 = Inr (m, r)"
      using "3.prems" by (auto simp: get_dict)
    then show ?thesis using "3.IH"(2) [OF refl _ dict] dict get_uint_less by fastforce
  next
    case obj
    then obtain i r1 zs where i: "get_uint bs = Inr (i, r1)" "\<not> length FIELDS \<le> i" "get_items d t (FIELDS ! i) r1 = Inr (zs, r)"
      using "3.prems" by (auto simp: get_obj split: if_splits)
    then show ?thesis using "3.IH"(3) [OF refl _ _ obj i(2)] obj get_uint_less by fastforce
  next
    case other
    then have "get_leaf t (unat b) bs = Inr (x, r)" using "3.prems" by (simp add: get_other)
    from get_leaf_less [OF this] show ?thesis by simp
  qed
next
  case (5 d t n bs)
  then obtain x1 r1 zs where x: "get d t bs = Inr (x1, r1)" "get_items d t n r1 = Inr (zs, r)" by auto
  from "5.IH"(1) [OF x(1)] "5.IH"(2) [OF x(2)] show ?case by simp
next
  case (7 d t n acc bs)
  then obtain k r1 v r2 where x: "get d t bs = Inr (k, r1)" "get d t r1 = Inr (v, r2)" "hashable k"
    "get_entries d t n (dict_put k v acc) r2 = Inr (ys, r)" by (auto split: if_splits)
  from "7.IH"(1) [OF x(1)] "7.IH"(2) [OF x(2)] "7.IH"(3) [OF x(3,4)] show ?case by simp
qed auto

lemma get_error:
  "length bs < d \<Longrightarrow> get d t bs = Inl e \<Longrightarrow> e = CodecError \<or> e = TypeError"
  "length bs < d \<Longrightarrow> get_items d t n bs = Inl e \<Longrightarrow> e = CodecError \<or> e = TypeError"
  "length bs < d \<Longrightarrow> get_entries d t n acc bs = Inl e \<Longrightarrow> e = CodecError \<or> e = TypeError"
proof (induction d t bs and d t n bs and d t n acc bs arbitrary: e and e and e rule: get_get_items_get_entries.induct)
  case (3 d t b bs)
  have d: "length r < d" if "get_uint bs = Inr (n, r)" for n r
    using that get_uint_less "3.prems"(1) by fastforce
  consider (seq) "unat b = 9 \<or> unat b = 10" | (dict) "unat b = 11" | (obj) "unat b = 16"
    | (other) "\<not> (unat b = 9 \<or> unat b = 10)" "unat b \<noteq> 11" "unat b \<noteq> 16" by blast
  then show ?case
  proof cases
    case seq
    then consider "get_uint bs = Inl e" | n r where "get_uint bs = Inr (n, r)" "get_items d t n r = Inl e"
      using "3.prems"(2) by (auto simp: get_seq bindR_eq_Inl)
    then show ?thesis using "3.IH"(1) [OF refl seq] d get_uint_error by cases blast+
  next
    case dict
    then consider "get_uint bs = Inl e" | n r where "get_uint bs = Inr (n, r)" "get_entries d t n [] r = Inl e"
      using "3.prems"(2) by (auto simp: get_dict bindR_eq_Inl)
    then show ?thesis using "3.IH"(2) [OF refl _ dict] dict d get_uint_error by cases fastforce+
  next
    case obj
    then consider "get_uint bs = Inl e" | "e = CodecError"
      | i r where "get_uint bs = Inr (i, r)" "\<not> length FIELDS \<le> i" "get_items d t (FIELDS ! i) r = Inl e"
      using "3.prems"(2) by (auto simp: get_obj bindR_eq_Inl split: if_splits)
    then show ?thesis using "3.IH"(3) [OF refl _ _ obj] obj d get_uint_error by cases fastforce+
  next
    case other
    then have "get_leaf t (unat b) bs = Inl e" using "3.prems"(2) by (simp add: get_other)
    from get_leaf_error [OF this] show ?thesis by simp
  qed
next
  case (5 d t n bs)
  then consider "get d t bs = Inl e" | x r where "get d t bs = Inr (x, r)" "get_items d t n r = Inl e"
    by (auto simp: bindR_eq_Inl)
  then show ?case
  proof cases
    case 1
    then show ?thesis using "5.IH"(1) "5.prems"(1) by blast
  next
    case 2
    then show ?thesis using "5.IH"(2) [of r] "5.prems"(1) get_less(1) [OF 2(1)] by simp
  qed
next
  case (7 d t n acc bs)
  then consider "get d t bs = Inl e" | k r where "get d t bs = Inr (k, r)" "get d t r = Inl e" | "e = TypeError"
    | k r v s where "get d t bs = Inr (k, r)" "get d t r = Inr (v, s)" "hashable k" "get_entries d t n (dict_put k v acc) s = Inl e"
    by (auto simp: bindR_eq_Inl split: if_splits)
  then show ?case
  proof cases
    case 1
    then show ?thesis using "7.IH"(1) "7.prems"(1) by blast
  next
    case 2
    then show ?thesis using "7.IH"(2) [of r] "7.prems"(1) get_less(1) [OF 2(1)] by simp
  next
    case 4
    then show ?thesis using "7.IH"(3) [OF 4(3) _ 4(4)] "7.prems"(1) get_less(1) [OF 4(1)] get_less(1) [OF 4(2)] by simp
  qed simp
qed auto

lemma load_string_less: "load_string bs = Inr (s, r) \<Longrightarrow> length r < length bs"
  by (auto simp: load_string_def split: list.splits if_splits dest!: reads_less)

lemma load_string_error: "load_string bs = Inl e \<Longrightarrow> e = CodecError \<or> e = UnicodeDecodeError"
  by (auto simp: load_string_def bindR_eq_Inl utf8_decode_def split: list.splits if_splits prod.splits dest!: reads_error)

lemma load_table_less: "load_table n bs = Inr (ss, r) \<Longrightarrow> length r \<le> length bs"
  by (induction n bs arbitrary: ss r rule: load_table.induct) (fastforce dest: load_string_less)+

lemma load_table_error: "load_table n bs = Inl e \<Longrightarrow> e = CodecError \<or> e = UnicodeDecodeError"
  by (induction n bs rule: load_table.induct) (auto simp: bindR_eq_Inl split: prod.splits dest: load_string_error)

text \<open>C23: Decoding ends with a value or an exception, whatever the bytes are. With more levels of
  recursion than there are bytes the limit is never reached; what is raised is \<open>CodecError\<close>,
  \<open>UnicodeDecodeError\<close> for a string table that is not UTF-8, or \<open>TypeError\<close> for a mapping with a
  key that has no hash. The last two are not what the callers that read from strangers catch.\<close>

theorem decode_ends:
  assumes "length blob < limit"
  shows "(\<exists>v. decode limit blob = Inr v) \<or> decode limit blob \<in> {Inl CodecError, Inl UnicodeDecodeError, Inl TypeError}"
proof (cases "decode limit blob")
  case (Inl e)
  have "e = CodecError \<or> e = UnicodeDecodeError \<or> e = TypeError"
  proof (cases "get_uint blob")
    case (Inl e')
    then show ?thesis using \<open>decode limit blob = Inl e\<close> get_uint_error by (auto simp: decode_def)
  next
    case (Inr p)
    obtain version bs where v: "get_uint blob = Inr (version, bs)" using Inr by (cases p) simp
    show ?thesis
    proof (cases "load_strings bs")
      case (Inl e')
      then have "e' = CodecError \<or> e' = UnicodeDecodeError"
        by (auto simp: load_strings_def bindR_eq_Inl split: prod.splits dest: get_uint_error load_table_error)
      then show ?thesis using \<open>decode limit blob = Inl e\<close> v Inl by (auto simp: decode_def split: if_splits)
    next
      case (Inr q)
      obtain table rest where t: "load_strings bs = Inr (table, rest)" using Inr by (cases q) simp
      then have "length rest < limit" using assms get_uint_less [OF v]
        by (auto simp: load_strings_def dest!: get_uint_less load_table_less)
      then show ?thesis using \<open>decode limit blob = Inl e\<close> v t get_error(1)
        by (fastforce simp: decode_def bindR_eq_Inl split: if_splits prod.splits)
    qed
  qed
  then show ?thesis using Inl by auto
qed simp

lemma unhashable_key: "decode 4 [1, 0, 11, 1, 9, 0, 0] = Inl TypeError"
  by code_simp

theorem decode_ends_witness: "decode 8 [1, 0, 11, 1, 9, 0, 0] = Inl TypeError"
proof -
  have "decode 8 [1, 0, 11, 1, 9, 0, 0] = Inl TypeError" by code_simp
  then show ?thesis using decode_ends [of "[1, 0, 11, 1, 9, 0, 0]" 8] by simp
qed

section \<open>Properties\<close>

lemma length_sorted_set_le: "length (sorted_set xs) \<le> length xs"
  by (simp add: length_sorted_set card_length)

lemma encode_decode:
  assumes "storable v" "depth v \<le> limit" "length (collect v) < 2 ^ 64"
  shows "\<exists>bs w. encode v = Inr bs \<and> decode limit bs = Inr w \<and> same_val v w"
proof -
  let ?order = "sorted_set (collect v)"
  have len: "length ?order < 2 ^ 64" using assms(3) length_sorted_set_le [of "collect v"] by linarith
  have strs: "list_all py_str ?order" using collect_strings [OF assms(1)] by (simp add: list_all_iff)
  obtain body where body: "put ?order v = Inr body" using put_ok [of v ?order] by auto
  obtain w where w: "same_val v w" "get limit ?order (body @ []) = Inr (w, [])" using get_put [OF assms(1,2) body len] by blast
  have "encode v = Inr (put_uint FORMAT_VERSION @ dump_strings ?order @ body)" using body by (simp add: encode_def)
  moreover have "decode limit (put_uint FORMAT_VERSION @ dump_strings ?order @ body) = Inr w"
    using w(2) len strs by (simp add: decode_def load_dump_strings FORMAT_VERSION_def)
  ultimately show ?thesis using w(1) by blast
qed

lemma encode_same:
  assumes "same_val v w" "storable v" "length (collect v) < 2 ^ 64"
  shows "encode w = encode v"
proof -
  have c: "sorted_set (collect w) = sorted_set (collect v)" by (rule sorted_set_cong) (rule same_collect [OF assms(1)])
  have "length (sorted_set (collect v)) < 2 ^ 64" using assms(3) length_sorted_set_le [of "collect v"] by linarith
  with put_same [OF assms(1,2), of "sorted_set (collect v)"] show ?thesis by (simp add: encode_def c)
qed

text \<open>C21: What is encoded comes back. Every value a program can hold, nested no deeper than the
  recursion limit, has an encoding; decoding it gives the same value up to the order in which
  mappings list their entries; and encoding what was decoded gives the same bytes again.\<close>

theorem codec_roundtrip:
  assumes "storable v" "depth v \<le> limit" "length (collect v) < 2 ^ 64"
  shows "\<exists>bs w. encode v = Inr bs \<and> decode limit bs = Inr w \<and> same_val v w \<and> encode w = Inr bs"
  using encode_decode [OF assms] encode_same [OF _ assms(1,3)] by metis

definition demo_val :: pyval where
  "demo_val = VDict [(VStr ''kind'', VStr ''tx''), (VInt 300, VList [VInt 1, VInt (- 7), VBool True]),
     (VStr ''a'', VTuple [VBytes [1, 2], VBytes [3, 4]]), (VTuple [VNone], VObj 20 [VInt (2 ^ 70), VNone])]"

lemma demo_val_ok: "storable demo_val" "depth demo_val = 3" "length (collect demo_val) = 3"
proof -
  have "bit_length 1 = 1" "bit_length 7 = 3" "bit_length 300 = 9" "bit_length (2 ^ 70) = 71" by (simp_all add: bit_length.simps)
  moreover have "py_str ''kind''" "py_str ''tx''" "py_str ''a''" by (simp_all add: py_str_def byte_of_char_def utf8_cases(1))
  ultimately show "storable demo_val" by (simp add: demo_val_def FIELDS_def)
qed (simp_all add: demo_val_def)

theorem codec_roundtrip_witness:
  "\<exists>bs w. encode demo_val = Inr bs \<and> decode 3 bs = Inr w \<and> same_val demo_val w \<and> encode w = Inr bs"
  by (rule codec_roundtrip) (simp_all add: demo_val_ok)

text \<open>C22: The encoding is canonical. Two values have the same encoding exactly when one reordering of
  the entries of their mappings, at any depth, makes them the same value: the bytes depend
  neither on the order a mapping was built in nor on the node that built it.\<close>

theorem encode_canonical:
  assumes "storable v" "length (collect v) < 2 ^ 64" "storable w" "length (collect w) < 2 ^ 64"
  shows "encode v = encode w \<longleftrightarrow> (\<exists>u. same_val v u \<and> same_val w u)"
proof
  assume e: "encode v = encode w"
  let ?l = "max (depth v) (depth w)"
  obtain bs u where "encode v = Inr bs" "decode ?l bs = Inr u" "same_val v u" using encode_decode [OF assms(1) _ assms(2), of ?l] by auto
  moreover obtain bs' u' where "encode w = Inr bs'" "decode ?l bs' = Inr u'" "same_val w u'" using encode_decode [OF assms(3) _ assms(4), of ?l] by auto
  ultimately show "\<exists>u. same_val v u \<and> same_val w u" using e by auto
next
  assume "\<exists>u. same_val v u \<and> same_val w u"
  then show "encode v = encode w" using encode_same assms by metis
qed

theorem encode_canonical_witness:
  "encode (VDict [(VInt 1, VNone), (VInt 2, VBool True)]) = encode (VDict [(VInt 2, VBool True), (VInt 1, VNone)])
    \<and> encode (VInt 1) \<noteq> encode (VBool True)"
proof -
  let ?v = "VDict [(VInt 1, VNone), (VInt 2, VBool True)]" and ?w = "VDict [(VInt 2, VBool True), (VInt 1, VNone)]"
  have b: "bit_length 1 = 1" "bit_length 2 = 2" by (simp_all add: bit_length.simps)
  have "same_val ?v ?w" by (rule same_val.sv_dict [of _ "[(VInt 1, VNone), (VInt 2, VBool True)]"]) (simp_all add: same_val.sv_refl)
  then have "encode ?v = encode ?w" using encode_canonical [of ?v ?w] same_val.sv_refl b by (auto simp: same_val.sv_refl)
  moreover have "\<not> same_val (VInt 1) u \<or> \<not> same_val (VBool True) u" for u by (auto elim: same_val.cases)
  then have "encode (VInt 1) \<noteq> encode (VBool True)" using encode_canonical [of "VInt 1" "VBool True"] b by auto
  ultimately show ?thesis by blast
qed

lemma length_put_uint: "n < 128 ^ Suc k \<Longrightarrow> length (put_uint n) \<le> Suc k"
proof (induction k arbitrary: n)
  case (Suc k)
  then have "n div 128 < 128 ^ Suc k" by (simp add: less_mult_imp_div_less)
  from Suc.IH [OF this] show ?case by (simp add: put_uint.simps [of n] Let_def)
qed (simp add: put_uint.simps Let_def)

text \<open>C40: A body of at most fourteen bytes decodes to a list of any length. A packed byte vector is
  read as its number of items and their width, and a width of nought needs no bytes at all: the
  decoder, which is to refuse what a stranger sends rather than hang, builds the whole list.\<close>

theorem empty_vectors_are_free:
  assumes "n < 2 ^ 64"
  shows "\<exists>blob. length blob \<le> 14 \<and> decode 1 blob = Inr (VList (replicate n (VBytes [])))"
proof (intro exI conjI)
  let ?blob = "put_uint 1 @ put_uint 0 @ [14] @ put_uint n @ put_uint 0"
  have "n < 128 ^ Suc 9" using assms by simp
  then show "length ?blob \<le> 14" using length_put_uint [of n 9] length_put_uint [of 1 0] length_put_uint [of 0 0] by simp
  have z: "get_uint (put_uint 0) = Inr (0, [])" using get_put_uint [of 0 "[]"] by simp
  have "get 1 [] ([14] @ put_uint n @ put_uint 0) = Inr (VList (map (\<lambda>i. VBytes []) [0..<n]), [])"
    using assms z by (simp add: get_other get_leaf_def take_bytes_def)
  moreover have "load_strings (put_uint 0 @ bs) = Inr ([], bs)" for bs by (simp add: load_strings_def)
  ultimately show "decode 1 ?blob = Inr (VList (replicate n (VBytes [])))"
    by (simp add: decode_def FORMAT_VERSION_def map_replicate_const)
qed

theorem empty_vectors_are_free_witness:
  "\<exists>blob. length blob \<le> 14 \<and> decode 1 blob = Inr (VList (replicate (10 ^ 12) (VBytes [])))"
  by (rule empty_vectors_are_free) simp

end
