(* ===== verification/Wire.thy ===== *)
theory Wire
  imports Codec Crypto
begin

text \<open>
  What crosses a connection: frames (\<open>chain/net/frame.py\<close>), the handshake that opens one and the
  seal that keeps it bound to the peer that opened it (\<open>chain/net/handshake.py\<close>).

  A payload is a \<open>pyval\<close>; the keys the code looks up are strings, and no other value equals a
  string, so \<open>dict_get\<close> is the lookup of an association list. The clock, the limiter's gate, the
  private signing key and Python's \<open>int\<close> of a string are arguments. A generator that raises has
  yielded what it yielded: \<open>feed\<close> returns the frames beside the outcome.
  The lemmas show that what is packed and sealed arrives, whatever the pieces it arrives in, that
  neither a hello nor a sealed frame is accepted twice, and what a stranger can still do.
\<close>

section \<open>Frames\<close>

definition MAGIC :: bytes where "MAGIC = [70, 54]"
definition VERSION :: byte where "VERSION = 1"
definition MAX_FRAME :: nat where "MAX_FRAME = 8 * 2 ^ 20"
definition CLIENT_MAX_FRAME :: nat where "CLIENT_MAX_FRAME = 2 ^ 20"

definition KINDS :: "string list" where
  "KINDS = [''hello'', ''tx'', ''env'', ''getblock'', ''block'', ''getblocks'', ''blocks'', ''getsnapshot'', ''snapshot'',
     ''getchunk'', ''chunk'', ''addrs'', ''status'', ''status_reply'', ''getoutputs'', ''outputs_reply'', ''txstatus'',
     ''txstatus_reply'', ''submit_reply'', ''params'', ''params_reply'', ''tip'', ''tip_reply'', ''headers'', ''headers_reply'',
     ''ancestry'', ''ancestry_reply'', ''inclusion'', ''inclusion_reply'', ''register'', ''register_reply'', ''tags'',
     ''tags_reply'', ''weight'', ''weight_reply'', ''refused'', ''stamps'']"

definition CLIENT_KINDS :: "string list" where
  "CLIENT_KINDS = [''status'', ''getoutputs'', ''txstatus'', ''params'', ''tip'', ''headers'', ''ancestry'', ''inclusion'',
     ''register'', ''tags'', ''weight'']"

definition OPEN_KINDS :: "string list" where "OPEN_KINDS = CLIENT_KINDS @ [''hello'', ''tx'']"
definition PEER_KINDS :: "string list" where "PEER_KINDS = filter (\<lambda>k. k \<notin> set OPEN_KINDS) KINDS"

definition sealed_digest :: "prims \<Rightarrow> bytes \<Rightarrow> bytes" where
  "sealed_digest P body = sha256 P body"

text \<open>The sending half of a seal: the session and the last sequence number.\<close>

record sealer =
  sl_session :: string
  sl_seq :: int

definition FRAME_TAG :: string where "FRAME_TAG = ''f6-frame''"
definition SESSION_TAG :: string where "SESSION_TAG = ''f6-session''"

definition session_id :: "prims \<Rightarrow> string \<Rightarrow> string \<Rightarrow> string \<Rightarrow> int \<Rightarrow> string \<Rightarrow> exn + string" where
  "session_id P chain_id from_id to_id epoch nonce =
     bindR (h_bytes P SESSION_TAG [PStr chain_id, PStr from_id, PStr to_id, PInt epoch, PStr nonce] 32) (\<lambda>d. Inr (hex_of d))"

definition frame_message :: "prims \<Rightarrow> string \<Rightarrow> int \<Rightarrow> bytes \<Rightarrow> exn + bytes" where
  "frame_message P session seq digest = h_bytes P FRAME_TAG [PStr session, PInt seq, PBytes digest] 32"

definition next_seq :: "sealer \<Rightarrow> sealer" where
  "next_seq s = s\<lparr>sl_seq := sl_seq s + 1\<rparr>"

definition seal_sign :: "prims \<Rightarrow> (bytes \<Rightarrow> string) \<Rightarrow> sealer \<Rightarrow> int \<Rightarrow> bytes \<Rightarrow> exn + string" where
  "seal_sign P sign s seq digest = bindR (frame_message P (sl_session s) seq digest) (\<lambda>m. Inr (sign m))"

definition base_frame :: "string \<Rightarrow> string \<Rightarrow> pyval \<Rightarrow> int \<Rightarrow> (pyval \<times> pyval) list" where
  "base_frame kind chain_id payload epoch =
     [(VStr ''kind'', VStr kind), (VStr ''chain_id'', VStr chain_id), (VStr ''epoch'', VInt epoch), (VStr ''payload'', payload)]"

definition framed :: "bytes \<Rightarrow> exn + bytes" where
  "framed body = (if MAX_FRAME < length body then Inl FrameError else Inr (MAGIC @ [VERSION] @ put_uint (length body) @ body))"

definition pack :: "prims \<Rightarrow> (bytes \<Rightarrow> string) \<Rightarrow> sealer option \<Rightarrow> string \<Rightarrow> string \<Rightarrow> pyval \<Rightarrow> int \<Rightarrow> (exn + bytes) \<times> sealer option" where
  "pack P sign sealer kind chain_id payload epoch =
     (if kind \<notin> set KINDS then (Inl FrameError, sealer)
      else let frame = base_frame kind chain_id payload epoch in
        case sealer of
          None \<Rightarrow> (bindR (encode (VDict frame)) framed, None)
        | Some s0 \<Rightarrow>
            let s = next_seq s0; frame1 = frame @ [(VStr ''seq'', VInt (sl_seq s))] in
            (bindR (encode (VDict frame1)) (\<lambda>body.
             bindR (seal_sign P sign s (sl_seq s) (sealed_digest P body)) (\<lambda>sig.
             bindR (encode (VDict (frame1 @ [(VStr ''sig'', VStr sig)]))) framed)), Some s))"

definition dict_get :: "string \<Rightarrow> (pyval \<times> pyval) list \<Rightarrow> pyval option" where
  "dict_get k d = map_of d (VStr k)"

text \<open>A key that is missing is read as \<open>None\<close> by \<open>msg.get\<close>.\<close>

definition dict_or_none :: "string \<Rightarrow> (pyval \<times> pyval) list \<Rightarrow> pyval" where
  "dict_or_none k d = (case dict_get k d of None \<Rightarrow> VNone | Some v \<Rightarrow> v)"

definition seal_of :: "prims \<Rightarrow> (pyval \<times> pyval) list \<Rightarrow> exn + pyval \<times> pyval \<times> bytes" where
  "seal_of P msg =
     bindR (encode (VDict (filter (\<lambda>(k, v). k \<noteq> VStr ''sig'') msg))) (\<lambda>body.
       Inr (dict_or_none ''seq'' msg, dict_or_none ''sig'' msg, sealed_digest P body))"

definition unpack :: "nat \<Rightarrow> string option \<Rightarrow> bytes \<Rightarrow> exn + (pyval \<times> pyval) list" where
  "unpack limit expect_chain body =
     (case decode limit body of
        Inl e \<Rightarrow> Inl (if e = CodecError then FrameError else e)
      | Inr (VDict msg) \<Rightarrow>
          (case (dict_get ''kind'' msg, dict_get ''chain_id'' msg, dict_get ''epoch'' msg, dict_get ''payload'' msg) of
             (Some kind, Some chain, Some _, Some _) \<Rightarrow>
               if kind \<notin> VStr ` set KINDS then Inl FrameError
               else if (case expect_chain of None \<Rightarrow> False | Some c \<Rightarrow> chain \<noteq> VStr c) then Inl FrameError
               else Inr msg
           | _ \<Rightarrow> Inl FrameError)
      | Inr _ \<Rightarrow> Inl FrameError)"

section \<open>Reading a stream\<close>

record reader =
  rd_chain :: "string option"
  rd_max :: nat
  rd_skipped :: nat
  rd_buf :: bytes

definition new_reader :: "string option \<Rightarrow> nat \<Rightarrow> reader" where
  "new_reader chain mx = \<lparr>rd_chain = chain, rd_max = mx, rd_skipped = 0, rd_buf = []\<rparr>"

definition buffered :: "reader \<Rightarrow> nat" where
  "buffered r = length (rd_buf r)"

datatype taken = NotYet | Skipped | Frame "(pyval \<times> pyval) list"

definition take_frame :: "nat \<Rightarrow> (nat \<Rightarrow> bool) option \<Rightarrow> reader \<Rightarrow> exn + taken \<times> reader" where
  "take_frame limit gate r =
     (let buf = rd_buf r in
      if length buf < length MAGIC + 1 then Inr (NotYet, r)
      else if take (length MAGIC) buf \<noteq> MAGIC then Inl FrameError
      else if buf ! length MAGIC \<noteq> VERSION then Inl FrameError
      else case get_uint (drop (length MAGIC + 1) buf) of
        Inl _ \<Rightarrow> Inr (NotYet, r)
      | Inr (n, rest) \<Rightarrow>
          if rd_max r < n then Inl FrameError
          else if length rest < n then Inr (NotYet, r)
          else let r1 = r\<lparr>rd_buf := drop n rest\<rparr> in
            if (case gate of None \<Rightarrow> False | Some g \<Rightarrow> \<not> g n) then Inr (Skipped, r1\<lparr>rd_skipped := rd_skipped r1 + 1\<rparr>)
            else bindR (unpack limit (rd_chain r) (take n rest)) (\<lambda>msg. Inr (Frame msg, r1)))"

lemma take_frame_shrinks: "take_frame limit gate r = Inr (t, r') \<Longrightarrow> t \<noteq> NotYet \<Longrightarrow> length (rd_buf r') < length (rd_buf r)"
  by (auto simp: take_frame_def Let_def MAGIC_def split: if_splits sum.splits dest!: get_uint_less)

function drain_frames :: "nat \<Rightarrow> (nat \<Rightarrow> bool) option \<Rightarrow> reader \<Rightarrow> (pyval \<times> pyval) list list \<times> (exn + reader)" where
  "drain_frames limit gate r =
     (case take_frame limit gate r of
        Inl e \<Rightarrow> ([], Inl e)
      | Inr (NotYet, r') \<Rightarrow> ([], Inr r')
      | Inr (Skipped, r') \<Rightarrow> drain_frames limit gate r'
      | Inr (Frame msg, r') \<Rightarrow> (let (msgs, outcome) = drain_frames limit gate r' in (msg # msgs, outcome)))"
  by pat_completeness auto
termination
  by (relation "measure (\<lambda>(_, _, r). length (rd_buf r))") (auto dest: take_frame_shrinks)

declare drain_frames.simps [simp del]

definition feed :: "nat \<Rightarrow> (nat \<Rightarrow> bool) option \<Rightarrow> reader \<Rightarrow> bytes \<Rightarrow> (pyval \<times> pyval) list list \<times> (exn + reader)" where
  "feed limit gate r data = drain_frames limit gate (r\<lparr>rd_buf := rd_buf r @ data\<rparr>)"

section \<open>The seal of a connection\<close>

record seal_check =
  sc_session :: string
  sc_public_hex :: string
  sc_last_seq :: int
  sc_refused :: nat

definition new_seal_check :: "string \<Rightarrow> string \<Rightarrow> seal_check" where
  "new_seal_check session public_hex = \<lparr>sc_session = session, sc_public_hex = public_hex, sc_last_seq = 0, sc_refused = 0\<rparr>"

datatype seal_refusal = NoSequence | NotAfter int int | NoSealSignature | SealFails

text \<open>\<open>int(v)\<close>; what it makes of a string or of bytes is the argument \<open>parse\<close>.\<close>

definition int_of :: "(bytes \<Rightarrow> int option) \<Rightarrow> pyval \<Rightarrow> int option" where
  "int_of parse v = (case v of VInt n \<Rightarrow> Some n | VBool b \<Rightarrow> Some (if b then 1 else 0)
     | VStr s \<Rightarrow> parse (str_bytes s) | VBytes b \<Rightarrow> parse b | _ \<Rightarrow> None)"

definition check_seal ::
    "prims \<Rightarrow> (bytes \<Rightarrow> int option) \<Rightarrow> pyval \<Rightarrow> pyval \<Rightarrow> bytes \<Rightarrow> seal_check \<Rightarrow> (seal_refusal + unit) \<times> seal_check" where
  "check_seal P parse seq signature digest sc =
     (let no = (\<lambda>e. (Inl e, sc\<lparr>sc_refused := sc_refused sc + 1\<rparr>)) in
      case int_of parse seq of None \<Rightarrow> no NoSequence
      | Some n \<Rightarrow>
        if n \<le> sc_last_seq sc then no (NotAfter n (sc_last_seq sc))
        else case signature of
          VStr s \<Rightarrow>
            if s = [] then no NoSealSignature
            else if \<not> verify_msg P (sc_public_hex sc) (frame_message P (sc_session sc) n digest) s then no SealFails
            else (Inr (), sc\<lparr>sc_last_seq := n\<rparr>)
        | _ \<Rightarrow> no NoSealSignature)"

section \<open>The handshake\<close>

definition TAG :: string where "TAG = ''f6-hello''"
definition EPOCH_SLACK :: int where "EPOCH_SLACK = 1"
definition MAX_SEEN :: nat where "MAX_SEEN = 4096"

definition hello_message :: "prims \<Rightarrow> string \<Rightarrow> string \<Rightarrow> string \<Rightarrow> int \<Rightarrow> string \<Rightarrow> int \<Rightarrow> exn + bytes" where
  "hello_message P chain_id from_id to_id epoch nonce protocol =
     h_bytes P TAG [PStr chain_id, PStr from_id, PStr to_id, PInt epoch, PStr nonce, PInt protocol] 32"

definition as_int :: "pyval \<Rightarrow> int option" where
  "as_int v = (case v of VInt n \<Rightarrow> Some n | VBool b \<Rightarrow> Some (if b then 1 else 0) | _ \<Rightarrow> None)"

definition protocol_of :: "(pyval \<times> pyval) list \<Rightarrow> int" where
  "protocol_of payload = (case dict_get ''protocol'' payload of None \<Rightarrow> 1
     | Some v \<Rightarrow> (case as_int v of None \<Rightarrow> 1 | Some n \<Rightarrow> n))"

definition build_hello :: "prims \<Rightarrow> (bytes \<Rightarrow> string) \<Rightarrow> string \<Rightarrow> string \<Rightarrow> string \<Rightarrow> int \<Rightarrow> string \<Rightarrow> int \<Rightarrow> exn + (pyval \<times> pyval) list" where
  "build_hello P sign chain_id from_id to_id epoch nonce protocol =
     bindR (hello_message P chain_id from_id to_id epoch nonce protocol) (\<lambda>m.
       Inr [(VStr ''node_id'', VStr from_id), (VStr ''to'', VStr to_id), (VStr ''epoch'', VInt epoch), (VStr ''nonce'', VStr nonce),
            (VStr ''protocol'', VInt protocol), (VStr ''signature'', VStr (sign m))])"

record verifier =
  vf_chain_id :: string
  vf_node_id :: string
  vf_validators :: "(string \<times> string) list"
  vf_slack :: int
  vf_max_seen :: nat
  vf_seen :: "((string \<times> string) \<times> int) list"
  vf_peer_protocol :: "(string \<times> int) list"
  vf_accepted :: nat
  vf_refused :: nat

definition new_verifier :: "string \<Rightarrow> string \<Rightarrow> (string \<times> string) list \<Rightarrow> int \<Rightarrow> nat \<Rightarrow> verifier" where
  "new_verifier chain_id node_id validators slack max_seen =
     \<lparr>vf_chain_id = chain_id, vf_node_id = node_id, vf_validators = validators, vf_slack = slack, vf_max_seen = max_seen,
      vf_seen = [], vf_peer_protocol = [], vf_accepted = 0, vf_refused = 0\<rparr>"

text \<open>\<open>validators.get(claimed)\<close>, where the claim is whatever was sent.\<close>

definition key_of :: "verifier \<Rightarrow> pyval \<Rightarrow> exn + string option" where
  "key_of vf claimed =
     (if \<not> hashable claimed then Inl TypeError
      else Inr (case claimed of VStr s \<Rightarrow> map_of (vf_validators vf) s | _ \<Rightarrow> None))"

definition claims_a_seat :: "verifier \<Rightarrow> pyval \<Rightarrow> exn + bool" where
  "claims_a_seat vf payload =
     (case payload of VDict d \<Rightarrow> bindR (key_of vf (dict_or_none ''node_id'' d)) (\<lambda>k. Inr (k \<noteq> None)) | _ \<Rightarrow> Inr False)"

definition sweep_seen :: "int \<Rightarrow> verifier \<Rightarrow> verifier" where
  "sweep_seen now vf = vf\<lparr>vf_seen := filter (\<lambda>(k, e). \<not> vf_slack vf < \<bar>now - e\<bar>) (vf_seen vf)\<rparr>"

definition seen_full :: "int \<Rightarrow> verifier \<Rightarrow> bool \<times> verifier" where
  "seen_full now vf =
     (if length (vf_seen vf) < vf_max_seen vf then (False, vf)
      else let vf1 = sweep_seen now vf in (vf_max_seen vf1 \<le> length (vf_seen vf1), vf1))"

definition remember_nonce :: "string \<times> string \<Rightarrow> int \<Rightarrow> int \<Rightarrow> verifier \<Rightarrow> verifier" where
  "remember_nonce key epoch now vf =
     (let vf1 = vf\<lparr>vf_seen := AList.update key epoch (vf_seen vf)\<rparr>
      in if vf_max_seen vf1 < length (vf_seen vf1) then sweep_seen now vf1 else vf1)"

datatype hello_refusal =
    HelloNotMapping
  | NotInRoster
  | AddressedElsewhere
  | WrongEpoch
  | NoNonce
  | NonceUsed
  | WindowFull
  | NoHelloSignature
  | HelloNotSigned

text \<open>The clock is read twice, \<open>now\<close> for the epoch and \<open>now2\<close> when the window is swept.\<close>

definition check_hello :: "prims \<Rightarrow> int \<Rightarrow> int \<Rightarrow> pyval \<Rightarrow> verifier \<Rightarrow> exn + (hello_refusal + string) \<times> verifier" where
  "check_hello P now now2 payload vf =
     (let no = (\<lambda>e vf. Inr (Inl e, vf\<lparr>vf_refused := vf_refused vf + 1\<rparr>)) in
      case payload of
        VDict d \<Rightarrow>
          bindR (key_of vf (dict_or_none ''node_id'' d)) (\<lambda>expected.
          case (expected, dict_or_none ''node_id'' d) of
            (Some public_hex, VStr claimed) \<Rightarrow>
              if dict_or_none ''to'' d \<noteq> VStr (vf_node_id vf) then no AddressedElsewhere vf
              else (case as_int (dict_or_none ''epoch'' d) of
                None \<Rightarrow> no WrongEpoch vf
              | Some epoch \<Rightarrow>
                  if vf_slack vf < \<bar>epoch - now\<bar> then no WrongEpoch vf
                  else (case dict_or_none ''nonce'' d of
                    VStr nonce \<Rightarrow>
                      if nonce = [] then no NoNonce vf
                      else if (claimed, nonce) \<in> set (keys (vf_seen vf)) then no NonceUsed vf
                      else let (full, vf1) = seen_full now2 vf in
                        if full then no WindowFull vf1
                        else (case dict_or_none ''signature'' d of
                          VStr s \<Rightarrow>
                            if \<not> verify_msg P public_hex (hello_message P (vf_chain_id vf) claimed (vf_node_id vf) epoch nonce (protocol_of d)) s
                            then no HelloNotSigned vf1
                            else let vf2 = remember_nonce (claimed, nonce) epoch now vf1 in
                              Inr (Inr claimed, vf2\<lparr>vf_peer_protocol := AList.update claimed (protocol_of d) (vf_peer_protocol vf2),
                                                    vf_accepted := vf_accepted vf2 + 1\<rparr>)
                        | _ \<Rightarrow> no NoHelloSignature vf1)
                  | _ \<Rightarrow> no NoNonce vf))
          | _ \<Rightarrow> no NotInRoster vf)
      | _ \<Rightarrow> no HelloNotMapping vf)"

section \<open>Pieces\<close>

lemma get_uint_from_append: "get_uint_from a s bs = Inr (n, r) \<Longrightarrow> get_uint_from a s (bs @ c) = Inr (n, r @ c)"
  by (induction a s bs rule: get_uint_from.induct) (auto simp: Let_def split: if_splits)

lemma get_uint_append: "get_uint bs = Inr (n, r) \<Longrightarrow> get_uint (bs @ c) = Inr (n, r @ c)"
  unfolding get_uint_def by (rule get_uint_from_append)

lemma take_frame_NotYet: "take_frame limit gate r = Inr (NotYet, r') \<Longrightarrow> r' = r"
  by (auto simp: take_frame_def Let_def split: if_splits sum.splits option.splits)

lemma take_frame_ready:
  assumes "\<not> length (rd_buf r) < length MAGIC + 1" "take (length MAGIC) (rd_buf r) = MAGIC" "rd_buf r ! length MAGIC = VERSION"
    "get_uint (drop (length MAGIC + 1) (rd_buf r)) = Inr (n, rest)" "rd_max r < n \<or> \<not> length rest < n"
  shows "take_frame limit gate r = (if rd_max r < n then Inl FrameError
        else let r1 = r\<lparr>rd_buf := drop n rest\<rparr> in
          if (case gate of None \<Rightarrow> False | Some g \<Rightarrow> \<not> g n) then Inr (Skipped, r1\<lparr>rd_skipped := rd_skipped r1 + 1\<rparr>)
          else bindR (unpack limit (rd_chain r) (take n rest)) (\<lambda>msg. Inr (Frame msg, r1)))"
  using assms by (cases "rd_max r < n") (simp_all add: take_frame_def Let_def)

lemma take_frame_append:
  assumes "\<nexists>r'. take_frame limit gate r = Inr (NotYet, r')"
  shows "take_frame limit gate (r\<lparr>rd_buf := rd_buf r @ c\<rparr>) =
    (case take_frame limit gate r of Inl e \<Rightarrow> Inl e | Inr (t, r') \<Rightarrow> Inr (t, r'\<lparr>rd_buf := rd_buf r' @ c\<rparr>))"
proof -
  let ?buf = "rd_buf r" and ?rc = "r\<lparr>rd_buf := rd_buf r @ c\<rparr>"
  have len: "\<not> length ?buf < length MAGIC + 1" using assms by (auto simp: take_frame_def Let_def)
  have pre: "take (length MAGIC) (?buf @ c) = take (length MAGIC) ?buf" "(?buf @ c) ! length MAGIC = ?buf ! length MAGIC"
    "drop (length MAGIC + 1) (?buf @ c) = drop (length MAGIC + 1) ?buf @ c" "\<not> length (?buf @ c) < length MAGIC + 1"
    using len by (simp_all add: nth_append)
  show ?thesis
  proof (cases "take (length MAGIC) ?buf \<noteq> MAGIC \<or> ?buf ! length MAGIC \<noteq> VERSION")
    case True
    then show ?thesis using len pre(4) by (auto simp: take_frame_def Let_def pre(1,2))
  next
    case ok: False
    then obtain n rest where u: "get_uint (drop (length MAGIC + 1) ?buf) = Inr (n, rest)"
      using assms len by (cases "get_uint (drop (length MAGIC + 1) ?buf)") (auto simp: take_frame_def Let_def)
    note u' = get_uint_append [OF u, of c]
    have fits: "rd_max r < n \<or> \<not> length rest < n" using assms len ok u by (auto simp: take_frame_def Let_def)
    have fits': "rd_max ?rc < n \<or> \<not> length (rest @ c) < n" and tk: "\<not> rd_max r < n \<Longrightarrow> take n (rest @ c) = take n rest \<and> drop n (rest @ c) = drop n rest @ c"
      using fits by auto
    have s: "take_frame limit gate r = (if rd_max r < n then Inl FrameError
        else let r1 = r\<lparr>rd_buf := drop n rest\<rparr> in
          if (case gate of None \<Rightarrow> False | Some g \<Rightarrow> \<not> g n) then Inr (Skipped, r1\<lparr>rd_skipped := rd_skipped r1 + 1\<rparr>)
          else bindR (unpack limit (rd_chain r) (take n rest)) (\<lambda>msg. Inr (Frame msg, r1)))"
      by (rule take_frame_ready [OF len _ _ u fits]) (use ok in simp_all)
    have rc: "rd_buf ?rc = ?buf @ c" by simp
    have l: "take_frame limit gate ?rc = (if rd_max ?rc < n then Inl FrameError
        else let r1 = ?rc\<lparr>rd_buf := drop n (rest @ c)\<rparr> in
          if (case gate of None \<Rightarrow> False | Some g \<Rightarrow> \<not> g n) then Inr (Skipped, r1\<lparr>rd_skipped := rd_skipped r1 + 1\<rparr>)
          else bindR (unpack limit (rd_chain ?rc) (take n (rest @ c))) (\<lambda>msg. Inr (Frame msg, r1)))"
      by (rule take_frame_ready) (use ok pre u' fits' in \<open>simp_all only: rc, auto\<close>)
    show ?thesis
    proof (cases "rd_max r < n")
      case True
      then show ?thesis unfolding l s by simp
    next
      case False
      then have tk': "take n (rest @ c) = take n rest" "drop n (rest @ c) = drop n rest @ c" using tk by simp_all
      show ?thesis unfolding l s tk' using False by (cases "unpack limit (rd_chain r) (take n rest)") (simp_all add: Let_def)
    qed
  qed
qed

lemma drain_append:
  "drain_frames limit gate (r\<lparr>rd_buf := rd_buf r @ c\<rparr>) =
    (case drain_frames limit gate r of
       (ms, Inl e) \<Rightarrow> (ms, Inl e)
     | (ms, Inr r') \<Rightarrow> (let (ms', out) = drain_frames limit gate (r'\<lparr>rd_buf := rd_buf r' @ c\<rparr>) in (ms @ ms', out)))"
proof (induction limit gate r rule: drain_frames.induct)
  case (1 limit gate r)
  let ?rc = "r\<lparr>rd_buf := rd_buf r @ c\<rparr>"
  show ?case
  proof (cases "take_frame limit gate r")
    case (Inl e)
    then show ?thesis using take_frame_append [of limit gate r c] by (simp add: drain_frames.simps [of _ _ r] drain_frames.simps [of _ _ ?rc])
  next
    case (Inr p)
    obtain t r' where p: "p = (t, r')" by force
    show ?thesis
    proof (cases t)
      case NotYet
      then show ?thesis using Inr p take_frame_NotYet [of limit gate r r'] by (simp add: drain_frames.simps [of _ _ r])
    next
      case Skipped
      then have "take_frame limit gate ?rc = Inr (Skipped, r'\<lparr>rd_buf := rd_buf r' @ c\<rparr>)"
        using take_frame_append [of limit gate r c] Inr p by simp
      then show ?thesis using 1(1) [OF Inr p [symmetric] Skipped] Inr p Skipped
        by (simp add: drain_frames.simps [of _ _ r] drain_frames.simps [of _ _ ?rc])
    next
      case (Frame msg)
      then have "take_frame limit gate ?rc = Inr (Frame msg, r'\<lparr>rd_buf := rd_buf r' @ c\<rparr>)"
        using take_frame_append [of limit gate r c] Inr p by simp
      then show ?thesis using 1(2) [OF Inr p [symmetric] Frame] Inr p Frame
        by (simp add: drain_frames.simps [of _ _ r] drain_frames.simps [of _ _ ?rc] split: prod.split sum.split)
    qed
  qed
qed

fun feed_all :: "nat \<Rightarrow> (nat \<Rightarrow> bool) option \<Rightarrow> reader \<Rightarrow> bytes list \<Rightarrow> (pyval \<times> pyval) list list \<times> (exn + reader)" where
  "feed_all limit gate r [] = ([], Inr r)"
| "feed_all limit gate r (c # cs) =
     (case feed limit gate r c of
        (ms, Inl e) \<Rightarrow> (ms, Inl e)
      | (ms, Inr r') \<Rightarrow> (let (ms', out) = feed_all limit gate r' cs in (ms @ ms', out)))"

lemma feed_all_concat:
  assumes "chunks \<noteq> []"
  shows "feed_all limit gate r chunks = feed limit gate r (concat chunks)"
  using assms
proof (induction chunks arbitrary: r)
  case (Cons c cs)
  show ?case
  proof (cases cs)
    case Nil
    then show ?thesis by (simp split: prod.split sum.split)
  next
    case (Cons c' cs')
    then have ih: "feed_all limit gate r' cs = feed limit gate r' (concat cs)" for r' using Cons.IH by simp
    have "feed limit gate r (c @ concat cs) = (case feed limit gate r c of (ms, Inl e) \<Rightarrow> (ms, Inl e)
      | (ms, Inr r') \<Rightarrow> (let (ms', out) = feed limit gate r' (concat cs) in (ms @ ms', out)))"
      using drain_append [of limit gate "r\<lparr>rd_buf := rd_buf r @ c\<rparr>" "concat cs"] unfolding feed_def by simp
    then show ?thesis unfolding concat.simps feed_all.simps ih by (simp only:)
  qed
qed simp

text \<open>C24: It does not matter how a stream is cut. Feeding a reader any pieces yields the same frames,
  ends in the same state or raises the same exception as feeding it all the bytes at once.\<close>

theorem pieces_do_not_matter:
  assumes "chunks \<noteq> []"
  shows "feed_all limit gate r chunks = feed limit gate r (concat chunks)"
  using assms by (rule feed_all_concat)

theorem pieces_do_not_matter_witness:
  "feed_all 3 None (new_reader None 100) [[70, 54, 1], [128], [1]] = feed 3 None (new_reader None 100) [70, 54, 1, 128, 1]"
  using pieces_do_not_matter [of "[[70, 54, 1], [128], [1]]" 3 None "new_reader None 100"] by simp

section \<open>A sealed frame\<close>

lemma ascii_str: "list_all (\<lambda>c. unat (byte_of_char c) < 128) s \<Longrightarrow> utf8_ok (str_bytes s)"
  by (induction s) (simp_all add: utf8_cases(1))

lemma kind_str: "kind \<in> set KINDS \<Longrightarrow> py_str kind"
  unfolding py_str_def by (auto simp: KINDS_def byte_of_char_def intro!: ascii_str)

lemma same_dict:
  assumes "same_val (VDict xs) w"
  obtains zs ys where "w = VDict ys" "list_all2 (\<lambda>p q. fst p = fst q \<and> same_val (snd p) (snd q)) xs zs" "mset zs = mset ys"
  using assms
proof (cases rule: same_val.cases)
  case sv_refl
  have "list_all2 (\<lambda>p q. fst p = fst q \<and> same_val (snd p) (snd q)) xs xs" by (simp add: list_all2_same same_val.sv_refl)
  then show ?thesis using that sv_refl by blast
qed (use that in blast)+

lemma fst_same: "list_all2 (\<lambda>p q. fst p = fst q \<and> R p q) xs zs \<Longrightarrow> map fst zs = map fst xs"
  by (induction rule: list_all2_induct) simp_all

lemma list_all2_member: "list_all2 R xs zs \<Longrightarrow> x \<in> set xs \<Longrightarrow> \<exists>z\<in>set zs. R x z"
  by (induction rule: list_all2_induct) auto

lemma same_get:
  assumes "list_all2 (\<lambda>p q. fst p = fst q \<and> same_val (snd p) (snd q)) xs zs" "mset zs = mset ys" "distinct (map fst xs)"
    "dict_get k xs = Some v"
  shows "\<exists>w. dict_get k ys = Some w \<and> same_val v w"
proof -
  have "map fst zs = map fst xs" using fst_same [OF assms(1)] .
  moreover have "mset (map fst ys) = mset (map fst zs)" using assms(2) by simp
  ultimately have d: "distinct (map fst ys)" using assms(3) mset_eq_imp_distinct_iff by metis
  have "(VStr k, v) \<in> set xs" using assms(4) unfolding dict_get_def by (rule map_of_SomeD)
  then obtain q where "q \<in> set zs" "fst q = VStr k" "same_val v (snd q)" using list_all2_member [OF assms(1)] by fastforce
  moreover have "set zs = set ys" using assms(2) by (rule mset_eq_setD)
  ultimately have "(VStr k, snd q) \<in> set ys" by (metis prod.collapse)
  then show ?thesis using d \<open>same_val v (snd q)\<close> by (auto simp: dict_get_def)
qed

lemma same_filter:
  assumes "same_val (VDict xs) (VDict ys)"
  shows "same_val (VDict (filter (\<lambda>(k, v). k \<noteq> j) xs)) (VDict (filter (\<lambda>(k, v). k \<noteq> j) ys))"
proof -
  obtain zs where z: "list_all2 (\<lambda>p q. fst p = fst q \<and> same_val (snd p) (snd q)) xs zs" "mset zs = mset ys"
    using same_dict [OF assms] by blast
  have "list_all2 (\<lambda>p q. fst p = fst q \<and> same_val (snd p) (snd q)) (filter (\<lambda>(k, v). k \<noteq> j) xs) (filter (\<lambda>(k, v). k \<noteq> j) zs)"
    using z(1) by (induction rule: list_all2_induct) auto
  moreover have "mset (filter (\<lambda>(k, v). k \<noteq> j) zs) = mset (filter (\<lambda>(k, v). k \<noteq> j) ys)" using z(2) by simp
  ultimately show ?thesis by (rule same_val.sv_dict)
qed

definition sealed_entries :: "string \<Rightarrow> string \<Rightarrow> pyval \<Rightarrow> int \<Rightarrow> int \<Rightarrow> string \<Rightarrow> (pyval \<times> pyval) list" where
  "sealed_entries kind chain_id payload epoch seq sig =
     base_frame kind chain_id payload epoch @ [(VStr ''seq'', VInt seq), (VStr ''sig'', VStr sig)]"

lemmas frame_defs = sealed_entries_def base_frame_def

lemma sealed_entries_storable:
  assumes "kind \<in> set KINDS" "py_str chain_id" "storable payload" "storable (VInt epoch)" "storable (VInt seq)" "py_str sig"
  shows "storable (VDict (sealed_entries kind chain_id payload epoch seq sig))"
    "storable (VDict (base_frame kind chain_id payload epoch @ [(VStr ''seq'', VInt seq)]))"
proof -
  have "py_str ''kind''" "py_str ''chain_id''" "py_str ''epoch''" "py_str ''payload''" "py_str ''seq''" "py_str ''sig''"
    by (simp_all add: py_str_def byte_of_char_def utf8_cases(1))
  then show "storable (VDict (sealed_entries kind chain_id payload epoch seq sig))"
    "storable (VDict (base_frame kind chain_id payload epoch @ [(VStr ''seq'', VInt seq)]))"
    using assms kind_str [OF assms(1)] by (simp_all add: frame_defs)
qed

lemma sealed_entries_depth:
  "depth (VDict (sealed_entries kind chain_id payload epoch seq sig)) = Suc (max 1 (depth payload))"
  by (simp add: frame_defs)

lemma sealed_entries_get:
  "dict_get ''kind'' (sealed_entries kind chain_id payload epoch seq sig) = Some (VStr kind)"
  "dict_get ''chain_id'' (sealed_entries kind chain_id payload epoch seq sig) = Some (VStr chain_id)"
  "dict_get ''epoch'' (sealed_entries kind chain_id payload epoch seq sig) = Some (VInt epoch)"
  "dict_get ''payload'' (sealed_entries kind chain_id payload epoch seq sig) = Some payload"
  "dict_get ''seq'' (sealed_entries kind chain_id payload epoch seq sig) = Some (VInt seq)"
  "dict_get ''sig'' (sealed_entries kind chain_id payload epoch seq sig) = Some (VStr sig)"
  by (simp_all add: frame_defs dict_get_def)

lemma sealed_entries_unsigned:
  "filter (\<lambda>(k, v). k \<noteq> VStr ''sig'') (sealed_entries kind chain_id payload epoch seq sig)
     = base_frame kind chain_id payload epoch @ [(VStr ''seq'', VInt seq)]"
  by (simp add: frame_defs)

lemma unpack_sealed:
  assumes "kind \<in> set KINDS" "same_val (VDict (sealed_entries kind chain_id payload epoch seq sig)) (VDict msg)"
    "decode limit body = Inr (VDict msg)" "expect = None \<or> expect = Some chain_id"
  shows "unpack limit expect body = Inr msg"
    "dict_get ''kind'' msg = Some (VStr kind)" "dict_get ''seq'' msg = Some (VInt seq)" "dict_get ''sig'' msg = Some (VStr sig)"
    "\<exists>w. dict_get ''payload'' msg = Some w \<and> same_val payload w"
proof -
  let ?xs = "sealed_entries kind chain_id payload epoch seq sig"
  obtain zs where z: "list_all2 (\<lambda>p q. fst p = fst q \<and> same_val (snd p) (snd q)) ?xs zs" "mset zs = mset msg"
    using same_dict [OF assms(2)] by blast
  have d: "distinct (map fst ?xs)" by (simp add: frame_defs)
  note got = same_get [OF z d]
  have leaf: "\<exists>w. dict_get k msg = Some w \<and> same_val v w \<Longrightarrow> plain v \<Longrightarrow> dict_get k msg = Some v" for k v
    using plain_same by auto
  show kind: "dict_get ''kind'' msg = Some (VStr kind)" by (rule leaf [OF got]) (simp_all add: sealed_entries_get)
  show "dict_get ''seq'' msg = Some (VInt seq)" by (rule leaf [OF got]) (simp_all add: sealed_entries_get)
  show "dict_get ''sig'' msg = Some (VStr sig)" by (rule leaf [OF got]) (simp_all add: sealed_entries_get)
  have chain: "dict_get ''chain_id'' msg = Some (VStr chain_id)" by (rule leaf [OF got]) (simp_all add: sealed_entries_get)
  have epoch: "dict_get ''epoch'' msg = Some (VInt epoch)" by (rule leaf [OF got]) (simp_all add: sealed_entries_get)
  show p: "\<exists>w. dict_get ''payload'' msg = Some w \<and> same_val payload w" by (rule got) (simp add: sealed_entries_get)
  show "unpack limit expect body = Inr msg" using p kind chain epoch assms(1,3,4) by (auto simp: unpack_def)
qed

lemma pack_sealed:
  assumes "pack P sign (Some s) kind chain_id payload epoch = (Inr bs, s')"
  obtains body1 m body where "kind \<in> set KINDS" "encode (VDict (base_frame kind chain_id payload epoch @ [(VStr ''seq'', VInt (sl_seq s + 1))])) = Inr body1"
    "frame_message P (sl_session s) (sl_seq s + 1) (sha256 P body1) = Inr m"
    "encode (VDict (sealed_entries kind chain_id payload epoch (sl_seq s + 1) (sign m))) = Inr body"
    "length body \<le> MAX_FRAME" "bs = MAGIC @ [VERSION] @ put_uint (length body) @ body"
  using assms
  by (auto simp: pack_def Let_def next_seq_def seal_sign_def sealed_digest_def sealed_entries_def framed_def split: if_splits)

lemma take_one:
  assumes "rd_buf r = MAGIC @ [VERSION] @ put_uint (length body) @ body @ rest" "length body \<le> rd_max r" "length body < 2 ^ 64"
    "case gate of None \<Rightarrow> True | Some g \<Rightarrow> g (length body)" "unpack limit (rd_chain r) body = Inr msg"
  shows "take_frame limit gate r = Inr (Frame msg, r\<lparr>rd_buf := rest\<rparr>)"
  using assms get_put_uint [OF assms(3), of "body @ rest"] by (cases gate) (simp_all add: take_frame_def Let_def MAGIC_def)

lemma feed_one:
  assumes "rd_buf r = []" "length body \<le> rd_max r" "length body < 2 ^ 64" "case gate of None \<Rightarrow> True | Some g \<Rightarrow> g (length body)"
    "unpack limit (rd_chain r) body = Inr msg"
  shows "feed limit gate r (MAGIC @ [VERSION] @ put_uint (length body) @ body) = ([msg], Inr r)"
proof -
  let ?r = "r\<lparr>rd_buf := rd_buf r @ MAGIC @ [VERSION] @ put_uint (length body) @ body\<rparr>"
  have "take_frame limit gate ?r = Inr (Frame msg, r)"
    using take_one [of ?r body "[]" gate limit msg] assms by simp
  moreover have "take_frame limit gate r = Inr (NotYet, r)" using assms(1) by (simp add: take_frame_def Let_def)
  ultimately show ?thesis unfolding feed_def drain_frames.simps [of _ _ ?r] by (simp add: drain_frames.simps [of _ _ r])
qed

text \<open>What becomes of a sealed frame at a reader of the same chain.\<close>

lemma sealed_body:
  assumes "pack P sign (Some s) kind chain_id payload epoch = (Inr bs, s')"
    and "storable payload" "py_str chain_id" "storable (VInt epoch)" "storable (VInt (sl_seq s + 1))"
    and "depth payload < limit" "2 \<le> limit" "length (collect payload) < 2 ^ 63"
    and "\<And>m. py_str (sign m) \<and> sign m \<noteq> [] \<and> verify_sig P public_hex m (sign m)"
  obtains body msg sig digest where "kind \<in> set KINDS" "bs = MAGIC @ [VERSION] @ put_uint (length body) @ body" "length body \<le> MAX_FRAME"
    "unpack limit (Some chain_id) body = Inr msg" "dict_get ''kind'' msg = Some (VStr kind)"
    "\<exists>w. dict_get ''payload'' msg = Some w \<and> same_val payload w" "seal_of P msg = Inr (VInt (sl_seq s + 1), sig, digest)"
    "\<forall>sc parse. sc_public_hex sc = public_hex \<and> sc_session sc = sl_session s \<and> sc_last_seq sc \<le> sl_seq s \<longrightarrow>
       check_seal P parse (VInt (sl_seq s + 1)) sig digest sc = (Inr (), sc\<lparr>sc_last_seq := sl_seq s + 1\<rparr>)"
proof -
  let ?seq = "sl_seq s + 1"
  obtain body1 m body where b: "kind \<in> set KINDS" "encode (VDict (base_frame kind chain_id payload epoch @ [(VStr ''seq'', VInt ?seq)])) = Inr body1"
    "frame_message P (sl_session s) ?seq (sha256 P body1) = Inr m"
    "encode (VDict (sealed_entries kind chain_id payload epoch ?seq (sign m))) = Inr body"
    "length body \<le> MAX_FRAME" "bs = MAGIC @ [VERSION] @ put_uint (length body) @ body" by (rule pack_sealed [OF assms(1)])
  let ?xs = "sealed_entries kind chain_id payload epoch ?seq (sign m)"
  have sig: "py_str (sign m)" "sign m \<noteq> []" "verify_sig P public_hex m (sign m)" using assms(9) by simp_all
  note st = sealed_entries_storable [OF b(1) assms(3,2,4,5) sig(1)]
  have lim: "depth (VDict ?xs) \<le> limit" using assms(6,7) unfolding sealed_entries_depth by linarith
  have len: "length (collect (VDict ?xs)) < 2 ^ 64" "length (collect (VDict (base_frame kind chain_id payload epoch @ [(VStr ''seq'', VInt ?seq)]))) < 2 ^ 64"
    using assms(8) by (simp_all add: frame_defs)
  obtain msg where msg: "decode limit body = Inr (VDict msg)" "same_val (VDict ?xs) (VDict msg)"
    using encode_decode [OF st(1) lim len(1)] b(4) same_dict by (metis sum.inject(2))
  have "Some chain_id = None \<or> Some chain_id = Some chain_id" by simp
  note up = unpack_sealed [OF b(1) msg(2,1) this]
  have "encode (VDict (filter (\<lambda>(k, v). k \<noteq> VStr ''sig'') msg)) = Inr body1"
    using encode_same [OF same_filter [OF msg(2), of "VStr ''sig''", unfolded sealed_entries_unsigned] st(2) len(2)] b(2) by simp
  then have so: "seal_of P msg = Inr (VInt ?seq, VStr (sign m), sha256 P body1)"
    using up(3,4) by (simp add: seal_of_def dict_or_none_def sealed_digest_def)
  have "\<forall>sc parse. sc_public_hex sc = public_hex \<and> sc_session sc = sl_session s \<and> sc_last_seq sc \<le> sl_seq s \<longrightarrow>
      check_seal P parse (VInt ?seq) (VStr (sign m)) (sha256 P body1) sc = (Inr (), sc\<lparr>sc_last_seq := ?seq\<rparr>)"
    using sig b(3) by (auto simp: check_seal_def int_of_def verify_msg_def)
  then show ?thesis using that [OF b(1,6,5) up(1,2,5) so] by blast
qed

text \<open>What a peer packs and seals arrives. When the sender's frame fits, a reader fed its bytes yields
  exactly one message, of the same kind and with the same payload up to the order of mappings;
  re-encoding it without its signature gives the bytes the sender signed, so the receiver's check
  of the seal accepts it and moves on to its sequence number.\<close>

theorem sealed_frame_arrives:
  assumes "pack P sign (Some s) kind chain_id payload epoch = (Inr bs, s')"
    and "storable payload" "py_str chain_id" "storable (VInt epoch)" "storable (VInt (sl_seq s + 1))"
    and "depth payload < limit" "2 \<le> limit" "length (collect payload) < 2 ^ 63"
    and "\<And>m. py_str (sign m) \<and> sign m \<noteq> [] \<and> verify_sig P (sc_public_hex sc) m (sign m)"
    and "rd_buf r = []" "MAX_FRAME \<le> rd_max r" "rd_chain r = Some chain_id" "case gate of None \<Rightarrow> True | Some g \<Rightarrow> \<forall>n. g n"
    and "sc_session sc = sl_session s" "sc_last_seq sc \<le> sl_seq s"
  shows "\<exists>msg sig digest. feed limit gate r bs = ([msg], Inr r)
    \<and> dict_get ''kind'' msg = Some (VStr kind) \<and> (\<exists>w. dict_get ''payload'' msg = Some w \<and> same_val payload w)
    \<and> seal_of P msg = Inr (VInt (sl_seq s + 1), sig, digest)
    \<and> check_seal P parse (VInt (sl_seq s + 1)) sig digest sc = (Inr (), sc\<lparr>sc_last_seq := sl_seq s + 1\<rparr>)"
proof -
  obtain body msg sig digest where b: "kind \<in> set KINDS" "bs = MAGIC @ [VERSION] @ put_uint (length body) @ body" "length body \<le> MAX_FRAME"
    "unpack limit (Some chain_id) body = Inr msg" "dict_get ''kind'' msg = Some (VStr kind)"
    "\<exists>w. dict_get ''payload'' msg = Some w \<and> same_val payload w" "seal_of P msg = Inr (VInt (sl_seq s + 1), sig, digest)"
    "\<forall>c parse. sc_public_hex c = sc_public_hex sc \<and> sc_session c = sl_session s \<and> sc_last_seq c \<le> sl_seq s \<longrightarrow>
       check_seal P parse (VInt (sl_seq s + 1)) sig digest c = (Inr (), c\<lparr>sc_last_seq := sl_seq s + 1\<rparr>)"
    by (rule sealed_body [OF assms(1-9)])
  have "feed limit gate r bs = ([msg], Inr r)" unfolding b(2)
    by (rule feed_one [OF assms(10)]) (use assms(11-13) b(3,4) in \<open>auto simp: MAX_FRAME_def split: option.splits\<close>)
  then show ?thesis using b(5-8) assms(14,15) by blast
qed

definition wire_prims :: prims where
  "wire_prims = sample_prims\<lparr>ed_verify := (\<lambda>pk sig m. sig = [171])\<rparr>"

lemma dump_short: "length s < 32 \<Longrightarrow> dump_string s = 0 # put_uint (length s) @ str_bytes s"
  by (simp add: dump_string_def hex_split_def Let_def)

lemma wire_order: "sorted_set [''kind'', ''status'', ''chain_id'', ''c'', ''epoch'', ''payload'', ''seq'', ''sig'', ''ab''] =
   [''ab'', ''c'', ''chain_id'', ''epoch'', ''kind'', ''payload'', ''seq'', ''sig'', ''status'']"
  by (simp add: sorted_set_def less_eq_char_def less_char_def)

lemma put_uint_small: "n < 128 \<Longrightarrow> put_uint n = [of_nat n]"
  by (simp add: put_uint.simps Let_def)

lemma length_put_entries: "length (put_entries n items) = 1 + length (put_uint n) + sum_list (map (\<lambda>(k, v). length k + length v) items)"
proof -
  have "sum_mset (mset (map (\<lambda>(k, v). length k + length v) (sort_key fst items))) = sum_mset (mset (map (\<lambda>(k, v). length k + length v) items))"
    by simp
  then have "sum_list (map (\<lambda>(k, v). length k + length v) (sort_key fst items)) = sum_list (map (\<lambda>(k, v). length k + length v) items)"
    by (simp only: sum_mset_sum_list)
  moreover have "length (concat (map (\<lambda>(k, v). k @ v) xs)) = sum_list (map (\<lambda>(k, v). length k + length v) xs)" for xs :: "(bytes \<times> bytes) list"
    by (induction xs) auto
  ultimately show ?thesis by (simp add: put_entries_def)
qed

lemma wire_body: "\<exists>body. encode (VDict (sealed_entries ''status'' ''c'' VNone 3 5 ''ab'')) = Inr body \<and> length body < 128"
proof -
  let ?o = "[''ab'', ''c'', ''chain_id'', ''epoch'', ''kind'', ''payload'', ''seq'', ''sig'', ''status'']"
  let ?v = "VDict (sealed_entries ''status'' ''c'' VNone 3 5 ''ab'')"
  have "collect ?v = [''kind'', ''status'', ''chain_id'', ''c'', ''epoch'', ''payload'', ''seq'', ''sig'', ''ab'']" by (simp add: frame_defs)
  then have o: "sorted_set (collect ?v) = ?o" by (simp only: wire_order)
  have ids: "string_id ?o ''kind'' = Inr 4" "string_id ?o ''status'' = Inr 8" "string_id ?o ''chain_id'' = Inr 2" "string_id ?o ''c'' = Inr 1"
    "string_id ?o ''epoch'' = Inr 3" "string_id ?o ''payload'' = Inr 5" "string_id ?o ''seq'' = Inr 6" "string_id ?o ''sig'' = Inr 7"
    "string_id ?o ''ab'' = Inr 0" by (simp_all add: string_id_def)
  have "length (dump_strings ?o) < 80" by (simp add: dump_strings_def dump_short put_uint_small)
  moreover obtain body where "put ?o ?v = Inr body" "length body < 30"
    by (simp add: frame_defs ids put_int_def put_uint_small length_put_entries)
  ultimately show ?thesis unfolding encode_def o by (simp add: put_uint_small FORMAT_VERSION_def del: put.simps)
qed

theorem sealed_frame_arrives_witness:
  "\<exists>bs s' msg sig digest.
     pack wire_prims (\<lambda>_. ''ab'') (Some \<lparr>sl_session = ''s'', sl_seq = 4\<rparr>) ''status'' ''c'' VNone 3 = (Inr bs, s')
     \<and> feed 3 None (new_reader (Some ''c'') MAX_FRAME) bs = ([msg], Inr (new_reader (Some ''c'') MAX_FRAME))
     \<and> check_seal wire_prims (\<lambda>_. None) (VInt 5) sig digest (new_seal_check ''s'' []) = (Inr (), new_seal_check ''s'' []\<lparr>sc_last_seq := 5\<rparr>)"
proof -
  let ?s = "\<lparr>sl_session = ''s'', sl_seq = 4\<rparr>" and ?r = "new_reader (Some ''c'') MAX_FRAME" and ?sc = "new_seal_check ''s'' []"
  obtain body where body: "encode (VDict (sealed_entries ''status'' ''c'' VNone 3 5 ''ab'')) = Inr body" "length body < 128" using wire_body by blast
  have ab: "py_str ''ab''" "py_str ''c''" by (simp_all add: py_str_def byte_of_char_def utf8_cases(1))
  have num: "storable (VInt 3)" "storable (VInt 5)" by (simp_all add: bit_length.simps)
  have "storable (VDict (base_frame ''status'' ''c'' VNone 3 @ [(VStr ''seq'', VInt 5)]))"
    by (rule sealed_entries_storable [OF _ ab(2) _ num ab(1)]) (simp_all add: KINDS_def)
  from encode_decode [OF this, of 3] obtain body1 where body1: "encode (VDict (base_frame ''status'' ''c'' VNone 3 @ [(VStr ''seq'', VInt 5)])) = Inr body1"
    by (auto simp: frame_defs)
  obtain m where m: "frame_message wire_prims ''s'' 5 (sha256 wire_prims body1) = Inr m"
    by (simp add: frame_message_def h_bytes_def h_preimage_def len_prefixed_def wire_prims_def sample_prims_def str_int_def chain_domain_def FRAME_TAG_def str_nat.simps [of 5])
  obtain bs s' where p: "pack wire_prims (\<lambda>_. ''ab'') (Some ?s) ''status'' ''c'' VNone 3 = (Inr bs, s')"
    using body body1 m by (simp add: pack_def KINDS_def next_seq_def seal_sign_def sealed_digest_def sealed_entries_def framed_def MAX_FRAME_def Let_def)
  have sig: "verify_sig wire_prims [] m ''ab''" for m
    by (simp add: verify_sig_def wire_prims_def is_space_def hex_val_def Let_def)
  show ?thesis
    using sealed_frame_arrives [OF p, of 3 ?sc ?r None "\<lambda>_. None"] p ab num sig
    by (fastforce simp: new_reader_def new_seal_check_def)
qed

section \<open>Accepted once\<close>

text \<open>What \<open>check\<close> accepted: who, the nonce and the epoch, oldest last. The clock does not run backwards.\<close>

definition hello_key :: "string \<Rightarrow> pyval \<Rightarrow> (string \<times> string \<times> int) option" where
  "hello_key claimed payload = (case payload of
     VDict d \<Rightarrow> (case (dict_or_none ''nonce'' d, as_int (dict_or_none ''epoch'' d)) of
       (VStr nonce, Some epoch) \<Rightarrow> Some (claimed, nonce, epoch) | _ \<Rightarrow> None)
   | _ \<Rightarrow> None)"

inductive hello_run :: "prims \<Rightarrow> verifier \<Rightarrow> int \<Rightarrow> verifier \<Rightarrow> (string \<times> string \<times> int) option list \<Rightarrow> bool" for P vf0 where
  open_door: "hello_run P vf0 t vf0 []"
| hello_raises: "hello_run P vf0 t vf log \<Longrightarrow> t \<le> now \<Longrightarrow> now \<le> now2 \<Longrightarrow> check_hello P now now2 payload vf = Inl e \<Longrightarrow> hello_run P vf0 now2 vf log"
| hello_refused: "hello_run P vf0 t vf log \<Longrightarrow> t \<le> now \<Longrightarrow> now \<le> now2 \<Longrightarrow> check_hello P now now2 payload vf = Inr (Inl e, vf')
    \<Longrightarrow> hello_run P vf0 now2 vf' log"
| hello_accepted: "hello_run P vf0 t vf log \<Longrightarrow> t \<le> now \<Longrightarrow> now \<le> now2 \<Longrightarrow> check_hello P now now2 payload vf = Inr (Inr claimed, vf')
    \<Longrightarrow> hello_run P vf0 now2 vf' (hello_key claimed payload # log)"

definition same_door :: "verifier \<Rightarrow> verifier \<Rightarrow> bool" where
  "same_door vf vf' = (vf_validators vf' = vf_validators vf \<and> vf_slack vf' = vf_slack vf \<and> vf_node_id vf' = vf_node_id vf
     \<and> vf_chain_id vf' = vf_chain_id vf \<and> vf_max_seen vf' = vf_max_seen vf)"

lemma same_door_sweep [simp]: "same_door vf (sweep_seen now vf) = same_door vf vf"
  by (simp add: same_door_def sweep_seen_def)

definition swept :: "int \<Rightarrow> verifier \<Rightarrow> verifier \<Rightarrow> bool" where
  "swept now vf vf' = (same_door vf vf' \<and> (vf_seen vf' = vf_seen vf \<or> vf_seen vf' = vf_seen (sweep_seen now vf)))"

lemma seen_full_swept: "seen_full now vf = (full, vf') \<Longrightarrow> swept now vf vf' \<and> (\<not> full \<longrightarrow> length (vf_seen vf') < vf_max_seen vf')"
  by (auto simp: seen_full_def swept_def same_door_def sweep_seen_def Let_def split: if_splits)

text \<open>Where a call that does not raise can end: refused before the window was looked at, refused after,
  or accepted.\<close>

definition counted :: "verifier \<Rightarrow> verifier" where
  "counted vf = vf\<lparr>vf_refused := vf_refused vf + 1\<rparr>"

definition admitted :: "prims \<Rightarrow> int \<Rightarrow> int \<Rightarrow> pyval \<Rightarrow> verifier \<Rightarrow> string \<Rightarrow> verifier \<Rightarrow> bool" where
  "admitted P now now2 payload vf claimed vf' \<longleftrightarrow>
     (\<exists>d nonce epoch public_hex sig vf1. payload = VDict d \<and> hello_key claimed payload = Some (claimed, nonce, epoch)
      \<and> map_of (vf_validators vf) claimed = Some public_hex
      \<and> verify_msg P public_hex (hello_message P (vf_chain_id vf) claimed (vf_node_id vf) epoch nonce (protocol_of d)) sig
      \<and> \<bar>epoch - now\<bar> \<le> vf_slack vf \<and> (claimed, nonce) \<notin> set (keys (vf_seen vf))
      \<and> seen_full now2 vf = (False, vf1)
      \<and> vf' = (let vf2 = remember_nonce (claimed, nonce) epoch now vf1 in
                vf2\<lparr>vf_peer_protocol := AList.update claimed (protocol_of d) (vf_peer_protocol vf2), vf_accepted := vf_accepted vf2 + 1\<rparr>))"

lemma check_hello_shape:
  assumes "check_hello P now now2 payload vf = Inr (res, vf')"
  shows "(\<exists>e. res = Inl e \<and> (vf' = counted vf \<or> vf' = counted (snd (seen_full now2 vf)))) \<or> (\<exists>c. res = Inr c \<and> admitted P now now2 payload vf c vf')"
proof (cases "\<exists>d claimed public_hex. payload = VDict d \<and> key_of vf (VStr claimed) = Inr (Some public_hex) \<and> dict_or_none ''node_id'' d = VStr claimed")
  case no: False
  show ?thesis
  proof (cases payload)
    case (VDict d)
    let ?v = "dict_or_none ''node_id'' d"
    obtain k where k: "key_of vf ?v = Inr k" using assms VDict by (cases "key_of vf ?v") (simp_all add: check_hello_def Let_def)
    have "k = None"
    proof (rule ccontr)
      assume "k \<noteq> None"
      then obtain s where "?v = VStr s" using k by (cases ?v) (auto simp: key_of_def split: if_splits)
      then show False using no VDict k \<open>k \<noteq> None\<close> by auto
    qed
    then show ?thesis using assms VDict k by (auto simp: check_hello_def Let_def counted_def)
  qed (use assms in \<open>auto simp: check_hello_def Let_def counted_def\<close>)
next
  case True
  then obtain d claimed public_hex where d: "payload = VDict d" "key_of vf (VStr claimed) = Inr (Some public_hex)" "dict_or_none ''node_id'' d = VStr claimed"
    by blast
  have pub: "map_of (vf_validators vf) claimed = Some public_hex" using d(2) by (simp add: key_of_def)
  show ?thesis
  proof (cases "dict_or_none ''to'' d \<noteq> VStr (vf_node_id vf) \<or> as_int (dict_or_none ''epoch'' d) = None")
    case True
    then show ?thesis using assms d by (auto simp: check_hello_def Let_def counted_def split: if_splits option.splits)
  next
    case False
    then obtain epoch where ep: "dict_or_none ''to'' d = VStr (vf_node_id vf)" "as_int (dict_or_none ''epoch'' d) = Some epoch" by auto
    show ?thesis
    proof (cases "\<bar>epoch - now\<bar> \<le> vf_slack vf \<and> (\<exists>nonce. dict_or_none ''nonce'' d = VStr nonce \<and> nonce \<noteq> [] \<and> (claimed, nonce) \<notin> set (keys (vf_seen vf)))")
      case False
      then show ?thesis using assms d ep by (auto simp: check_hello_def Let_def counted_def split: if_splits pyval.splits)
    next
      case True
      then obtain nonce where n: "\<bar>epoch - now\<bar> \<le> vf_slack vf" "dict_or_none ''nonce'' d = VStr nonce" "nonce \<noteq> []" "(claimed, nonce) \<notin> set (keys (vf_seen vf))"
        by blast
      obtain full vf1 where f: "seen_full now2 vf = (full, vf1)" by force
      show ?thesis
      proof (cases "\<not> full \<and> (\<exists>s. dict_or_none ''signature'' d = VStr s \<and>
          verify_msg P public_hex (hello_message P (vf_chain_id vf) claimed (vf_node_id vf) epoch nonce (protocol_of d)) s)")
        case False
        then show ?thesis using assms d ep n f by (auto simp: check_hello_def Let_def counted_def split: if_splits pyval.splits)
      next
        case True
        then obtain s where "\<not> full" "dict_or_none ''signature'' d = VStr s"
          "verify_msg P public_hex (hello_message P (vf_chain_id vf) claimed (vf_node_id vf) epoch nonce (protocol_of d)) s" by blast
        then show ?thesis using assms d ep n f pub by (fastforce simp: check_hello_def Let_def admitted_def hello_key_def)
      qed
    qed
  qed
qed

lemma swept_counted: "swept now vf (counted w) = swept now vf w"
  by (simp add: swept_def same_door_def counted_def)

lemma swept_keys: "swept now vf w \<Longrightarrow> set (keys (vf_seen w)) \<subseteq> set (keys (vf_seen vf)) \<and> (distinct (keys (vf_seen vf)) \<longrightarrow> distinct (keys (vf_seen w)))
    \<and> length (vf_seen w) \<le> length (vf_seen vf)"
  by (auto simp: swept_def sweep_seen_def keys_def intro: distinct_map_filter)

lemma swept_keeps: "swept now vf w \<Longrightarrow> x \<in> set (vf_seen vf) \<Longrightarrow> \<bar>now - snd x\<bar> \<le> vf_slack vf \<Longrightarrow> x \<in> set (vf_seen w)"
  by (auto simp: swept_def sweep_seen_def)

definition hello_signed :: "prims \<Rightarrow> verifier \<Rightarrow> string \<times> string \<times> int \<Rightarrow> bool" where
  "hello_signed P vf = (\<lambda>(c, nonce, epoch). \<exists>public_hex protocol sig. map_of (vf_validators vf) c = Some public_hex
     \<and> verify_msg P public_hex (hello_message P (vf_chain_id vf) c (vf_node_id vf) epoch nonce protocol) sig)"

definition logged_ok :: "prims \<Rightarrow> verifier \<Rightarrow> int \<Rightarrow> verifier \<Rightarrow> (string \<times> string \<times> int) option \<Rightarrow> bool" where
  "logged_ok P vf0 t vf x = (\<exists>c nonce epoch. x = Some (c, nonce, epoch) \<and> hello_signed P vf0 (c, nonce, epoch)
     \<and> epoch \<le> t + vf_slack vf0 \<and> (((c, nonce), epoch) \<in> set (vf_seen vf) \<or> epoch + vf_slack vf0 < t))"

definition door_inv :: "prims \<Rightarrow> verifier \<Rightarrow> int \<Rightarrow> verifier \<Rightarrow> (string \<times> string \<times> int) option list \<Rightarrow> bool" where
  "door_inv P vf0 t vf log = (same_door vf0 vf \<and> distinct (keys (vf_seen vf)) \<and> length (vf_seen vf) \<le> vf_max_seen vf0
     \<and> distinct log \<and> (\<forall>x\<in>set log. logged_ok P vf0 t vf x))"

lemma logged_later:
  assumes "logged_ok P vf0 t vf x" "t \<le> now2" "swept now2 vf w" "same_door vf0 vf"
  shows "logged_ok P vf0 now2 w x"
proof -
  obtain c nonce epoch where x: "x = Some (c, nonce, epoch)" "hello_signed P vf0 (c, nonce, epoch)" "epoch \<le> t + vf_slack vf0"
    "((c, nonce), epoch) \<in> set (vf_seen vf) \<or> epoch + vf_slack vf0 < t" using assms(1) by (auto simp: logged_ok_def)
  have s: "vf_slack vf = vf_slack vf0" using assms(4) by (simp add: same_door_def)
  have "((c, nonce), epoch) \<in> set (vf_seen w) \<or> epoch + vf_slack vf0 < now2"
  proof (cases "epoch + vf_slack vf0 < now2")
    case False
    then have "((c, nonce), epoch) \<in> set (vf_seen vf)" "\<bar>now2 - epoch\<bar> \<le> vf_slack vf" using x(3,4) assms(2) s by auto
    then show ?thesis using swept_keeps [OF assms(3)] by fastforce
  qed simp
  then show ?thesis using x(1,2,3) assms(2) by (auto simp: logged_ok_def)
qed

lemma door_later:
  assumes "door_inv P vf0 t vf log" "t \<le> now2" "swept now2 vf w"
  shows "door_inv P vf0 now2 w log"
  using assms swept_keys [OF assms(3)] logged_later [OF _ assms(2,3)]
  by (auto simp: door_inv_def swept_def same_door_def)

lemma admitted_door:
  assumes "door_inv P vf0 t vf log" "t \<le> now" "now \<le> now2" "admitted P now now2 payload vf c vf'"
  shows "door_inv P vf0 now2 vf' (hello_key c payload # log)"
proof -
  obtain d nonce epoch public_hex sig vf1 where a: "payload = VDict d" "hello_key c payload = Some (c, nonce, epoch)"
      "map_of (vf_validators vf) c = Some public_hex"
      "verify_msg P public_hex (hello_message P (vf_chain_id vf) c (vf_node_id vf) epoch nonce (protocol_of d)) sig"
      "\<bar>epoch - now\<bar> \<le> vf_slack vf" "(c, nonce) \<notin> set (keys (vf_seen vf))" "seen_full now2 vf = (False, vf1)"
      "vf' = (let vf2 = remember_nonce (c, nonce) epoch now vf1 in
                vf2\<lparr>vf_peer_protocol := AList.update c (protocol_of d) (vf_peer_protocol vf2), vf_accepted := vf_accepted vf2 + 1\<rparr>)"
    using assms(4) unfolding admitted_def by blast
  have sw: "swept now2 vf vf1" "length (vf_seen vf1) < vf_max_seen vf1" using seen_full_swept [OF a(7)] by simp_all
  have inv1: "door_inv P vf0 now2 vf1 log" by (rule door_later [OF assms(1) _ sw(1)]) (use assms(2,3) in simp)
  have fresh: "(c, nonce) \<notin> set (keys (vf_seen vf1))" using a(6) swept_keys [OF sw(1)] by blast
  have seen: "vf_seen vf' = vf_seen vf1 @ [((c, nonce), epoch)]" "same_door vf1 vf'"
    using sw(2) fresh unfolding a(8) remember_nonce_def Let_def by (simp_all add: update_fresh same_door_def)
  have door: "same_door vf0 vf" "same_door vf0 vf1" using assms(1) inv1 by (simp_all add: door_inv_def)
  have new: "Some (c, nonce, epoch) \<notin> set log"
  proof
    assume "Some (c, nonce, epoch) \<in> set log"
    then have "logged_ok P vf0 t vf (Some (c, nonce, epoch))" using assms(1) by (simp add: door_inv_def)
    then have "((c, nonce), epoch) \<in> set (vf_seen vf) \<or> epoch + vf_slack vf0 < t" by (simp add: logged_ok_def)
    then show False
    proof
      assume "((c, nonce), epoch) \<in> set (vf_seen vf)"
      then have "(c, nonce) \<in> set (keys (vf_seen vf))" by (force simp: keys_def)
      then show False using a(6) by simp
    qed (use a(5) assms(2) door(1) in \<open>auto simp: same_door_def\<close>)
  qed
  have "logged_ok P vf0 now2 vf' (Some (c, nonce, epoch))"
    using a(3,4,5) assms(3) door(1) by (auto simp: logged_ok_def hello_signed_def same_door_def seen(1))
  moreover have "logged_ok P vf0 now2 vf' x" if "x \<in> set log" for x
    using inv1 that seen(1) by (force simp: door_inv_def logged_ok_def)
  ultimately show ?thesis
    using inv1 new fresh sw(2) seen door unfolding a(2) by (auto simp: door_inv_def same_door_def)
qed

lemma hello_run_inv:
  assumes "hello_run P vf0 t vf log" "vf_seen vf0 = []"
  shows "door_inv P vf0 t vf log"
  using assms(1)
proof (induction rule: hello_run.induct)
  case (open_door t)
  then show ?case using assms(2) by (simp add: door_inv_def same_door_def)
next
  case (hello_raises t vf log now now2 payload e)
  then show ?case using door_later [of P vf0 t vf log now2 vf] by (simp add: swept_def same_door_def)
next
  case (hello_refused t vf log now now2 payload e vf')
  have "swept now2 vf vf'"
  proof -
    have "vf' = counted vf \<or> vf' = counted (snd (seen_full now2 vf))" using check_hello_shape [OF hello_refused(4)] by auto
    moreover have "swept now2 vf vf" by (simp add: swept_def same_door_def)
    moreover have "swept now2 vf (snd (seen_full now2 vf))" using seen_full_swept [of now2 vf] by (cases "seen_full now2 vf") auto
    ultimately show ?thesis by (auto simp: swept_counted)
  qed
  then show ?case using door_later hello_refused(2,3,5) by force
next
  case (hello_accepted t vf log now now2 payload claimed vf')
  then show ?case using check_hello_shape [OF hello_accepted(4)] admitted_door by blast
qed

text \<open>C19: A hello is accepted once. Whatever is presented to a fresh verifier, in whatever order, while the
  clock does not run backwards, no name, nonce and epoch are accepted twice, each that was accepted
  was signed for this chain and this listener by the roster key of the name it claims, and the
  replay window never holds more than \<open>max_seen\<close> nonces.\<close>

theorem hello_accepted_once:
  assumes "hello_run P (new_verifier chain_id node_id validators slack max_seen) t vf log"
  shows "distinct log \<and> (\<forall>x\<in>set log. \<exists>c nonce epoch public_hex protocol sig.
      x = Some (c, nonce, epoch) \<and> map_of validators c = Some public_hex
      \<and> verify_msg P public_hex (hello_message P chain_id c node_id epoch nonce protocol) sig)
    \<and> length (vf_seen vf) \<le> max_seen"
  using hello_run_inv [OF assms] by (fastforce simp: new_verifier_def door_inv_def logged_ok_def hello_signed_def)

definition demo_hello :: pyval where
  "demo_hello = VDict [(VStr ''node_id'', VStr ''v1''), (VStr ''to'', VStr ''v2''), (VStr ''epoch'', VInt 3), (VStr ''nonce'', VStr ''n''),
     (VStr ''protocol'', VInt 1), (VStr ''signature'', VStr ''ab'')]"

definition demo_door :: verifier where
  "demo_door = new_verifier ''c'' ''v2'' [(''v1'', [])] 1 2"

lemma demo_hello_message: "\<exists>m. hello_message wire_prims ''c'' ''v1'' ''v2'' 3 ''n'' 1 = Inr m"
  by (simp add: hello_message_def h_bytes_def h_preimage_def len_prefixed_def wire_prims_def sample_prims_def str_int_def
      chain_domain_def TAG_def str_nat.simps [of 3] str_nat.simps [of "Suc 0"])

lemma demo_hello_checks:
  obtains vf vf' where "check_hello wire_prims 3 3 demo_hello demo_door = Inr (Inr ''v1'', vf)"
    "check_hello wire_prims 3 3 demo_hello vf = Inr (Inl NonceUsed, vf')" "hello_key ''v1'' demo_hello = Some (''v1'', ''n'', 3)"
proof -
  have "\<And>m. verify_sig wire_prims [] m ''ab''"
    by (simp add: verify_sig_def wire_prims_def is_space_def hex_val_def Let_def)
  then have "verify_msg wire_prims [] (hello_message wire_prims ''c'' ''v1'' ''v2'' 3 ''n'' 1) ''ab''"
    using demo_hello_message by (auto simp: verify_msg_def)
  then show ?thesis using that
    by (simp add: check_hello_def demo_hello_def demo_door_def new_verifier_def dict_or_none_def dict_get_def key_of_def as_int_def
        protocol_of_def hello_key_def seen_full_def remember_nonce_def Let_def)
qed

theorem hello_accepted_once_witness:
  "\<exists>vf vf'. hello_run wire_prims (new_verifier ''c'' ''v2'' [(''v1'', [])] 1 2) 3 vf' [Some (''v1'', ''n'', 3)]
     \<and> check_hello wire_prims 3 3 demo_hello vf = Inr (Inl NonceUsed, vf') \<and> length (vf_seen vf') \<le> 2"
proof -
  obtain vf vf' where c: "check_hello wire_prims 3 3 demo_hello demo_door = Inr (Inr ''v1'', vf)"
    "check_hello wire_prims 3 3 demo_hello vf = Inr (Inl NonceUsed, vf')" "hello_key ''v1'' demo_hello = Some (''v1'', ''n'', 3)"
    by (rule demo_hello_checks)
  have "hello_run wire_prims demo_door 3 vf [Some (''v1'', ''n'', 3)]"
    using hello_run.hello_accepted [OF hello_run.open_door [of _ _ 3] _ _ c(1)] c(3) by simp
  then have run: "hello_run wire_prims demo_door 3 vf' [Some (''v1'', ''n'', 3)]" by (rule hello_run.hello_refused [OF _ _ _ c(2)]) simp_all
  then show ?thesis using hello_accepted_once [OF run [unfolded demo_door_def]] c(2) unfolding demo_door_def by blast
qed

section \<open>In order\<close>

text \<open>What one connection's seal accepts of the frames presented to it, each as it was re-read.\<close>

fun sealed_run :: "prims \<Rightarrow> (bytes \<Rightarrow> int option) \<Rightarrow> seal_check \<Rightarrow> (pyval \<times> pyval \<times> bytes) list \<Rightarrow> (int \<times> bytes) list \<times> seal_check" where
  "sealed_run P parse sc [] = ([], sc)"
| "sealed_run P parse sc ((seq, signature, digest) # rest) =
     (case check_seal P parse seq signature digest sc of
        (Inl _, sc') \<Rightarrow> sealed_run P parse sc' rest
      | (Inr _, sc') \<Rightarrow> (let (acc, out) = sealed_run P parse sc' rest in ((sc_last_seq sc', digest) # acc, out)))"

lemma check_seal_result:
  assumes "check_seal P parse seq signature digest sc = (res, sc')"
  shows "sc_session sc' = sc_session sc \<and> sc_public_hex sc' = sc_public_hex sc"
    "case res of Inl _ \<Rightarrow> sc_last_seq sc' = sc_last_seq sc \<and> sc_refused sc' = sc_refused sc + 1
      | Inr _ \<Rightarrow> sc_last_seq sc < sc_last_seq sc' \<and> sc_refused sc' = sc_refused sc
          \<and> (\<exists>s. signature = VStr s \<and> verify_msg P (sc_public_hex sc) (frame_message P (sc_session sc) (sc_last_seq sc') digest) s)"
  using assms by (auto simp: check_seal_def Let_def split: option.splits pyval.splits if_splits)

lemma sealed_run_inv:
  assumes "sealed_run P parse sc frames = (acc, out)"
  shows "sorted_wrt (<) (sc_last_seq sc # map fst acc)
    \<and> (\<forall>(n, digest)\<in>set acc. \<exists>s seq. (seq, VStr s, digest) \<in> set frames
        \<and> verify_msg P (sc_public_hex sc) (frame_message P (sc_session sc) n digest) s)
    \<and> sc_refused out + length acc = sc_refused sc + length frames"
  using assms
proof (induction frames arbitrary: sc acc)
  case (Cons f rest)
  obtain seq signature digest where f: "f = (seq, signature, digest)" by (cases f)
  obtain res sc' where c: "check_seal P parse seq signature digest sc = (res, sc')" by force
  note r = check_seal_result [OF c]
  show ?case
  proof (cases res)
    case (Inl e)
    then have "sealed_run P parse sc' rest = (acc, out)" using Cons.prems by (simp add: f c)
    note ih = Cons.IH [OF this]
    have same: "sc_last_seq sc' = sc_last_seq sc" "sc_refused sc' = sc_refused sc + 1" using r(2) by (simp_all add: Inl)
    show ?thesis using ih unfolding same conjunct1 [OF r(1)] conjunct2 [OF r(1)] f by fastforce
  next
    case (Inr u)
    then obtain acc' where a: "sealed_run P parse sc' rest = (acc', out)" "acc = (sc_last_seq sc', digest) # acc'"
      using Cons.prems by (auto simp: f c split: prod.splits)
    note ih = Cons.IH [OF a(1)]
    have new: "sc_last_seq sc < sc_last_seq sc'" "sc_refused sc' = sc_refused sc"
      "\<exists>s. signature = VStr s \<and> verify_msg P (sc_public_hex sc) (frame_message P (sc_session sc) (sc_last_seq sc') digest) s"
      using r(2) by (simp_all add: Inr)
    have "sorted_wrt (<) (sc_last_seq sc # map fst acc)" using ih new(1) by (auto simp: a(2))
    moreover have "sc_refused out + length acc = sc_refused sc + length (f # rest)" using ih new(2) by (simp add: a(2))
    moreover have "\<forall>(n, digest)\<in>set acc'. \<exists>s seq. (seq, VStr s, digest) \<in> set (f # rest)
        \<and> verify_msg P (sc_public_hex sc) (frame_message P (sc_session sc) n digest) s"
      using ih unfolding conjunct1 [OF r(1)] conjunct2 [OF r(1)] by fastforce
    ultimately show ?thesis using new(3) by (auto simp: a(2) f)
  qed
qed simp


lemma sealed_run_demo:
  "sealed_run wire_prims (\<lambda>_. None) (new_seal_check ''s'' []) [(VInt 5, VStr ''ab'', [1]), (VInt 5, VStr ''ab'', [1]), (VInt 2, VStr ''ab'', [1])]
     = ([(5, [1])], \<lparr>sc_session = ''s'', sc_public_hex = [], sc_last_seq = 5, sc_refused = 2\<rparr>)"
proof -
  have "\<exists>m. frame_message wire_prims ''s'' 5 [1] = Inr m"
    by (simp add: frame_message_def h_bytes_def h_preimage_def len_prefixed_def wire_prims_def sample_prims_def str_int_def
        chain_domain_def FRAME_TAG_def str_nat.simps [of 5])
  then have "verify_msg wire_prims [] (frame_message wire_prims ''s'' 5 [1]) ''ab''"
    by (auto simp: verify_msg_def verify_sig_def wire_prims_def is_space_def hex_val_def Let_def)
  then show ?thesis by (simp add: check_seal_def new_seal_check_def int_of_def Let_def)
qed


section \<open>What a stranger can make a reader hold\<close>

definition stall :: bytes where
  "stall = MAGIC @ [VERSION] @ replicate 586 128"

lemma get_uint_stalls: "k = (4096 - shift) div 7 + 1 \<Longrightarrow> shift \<le> 4096 \<Longrightarrow> get_uint_from n shift (replicate k 128 @ bs) = Inl CodecError"
proof (induction k arbitrary: n shift)
  case (Suc k)
  show ?case
  proof (cases "4096 < shift + 7")
    case False
    have "(4096 - shift) div 7 = Suc ((4096 - shift - 7) div 7)" by (rule le_div_geq) (use False in simp_all)
    then have "k = (4096 - (shift + 7)) div 7 + 1" using Suc.prems(1) by simp
    then have "get_uint_from n' (shift + 7) (replicate k 128 @ bs) = Inl CodecError" for n' using Suc.IH [of "shift + 7"] False by simp
    then show ?thesis using False by (simp add: Let_def)
  qed (simp add: Let_def)
qed simp

text \<open>A stranger can make a reader hold any number of bytes. A length written with more than 585
  continuation bytes is refused by the codec, and the reader takes the refusal for a length that
  has not arrived yet: after 589 such bytes no frame is ever yielded and nothing is ever refused,
  whatever the largest frame it would accept, and every further byte is kept.\<close>

theorem reader_buffer_unbounded:
  "feed_all limit gate (new_reader chain mx) (stall # chunks)
     = ([], Inr (new_reader chain mx\<lparr>rd_buf := stall @ concat chunks\<rparr>))"
proof -
  let ?r = "new_reader chain mx\<lparr>rd_buf := stall @ concat chunks\<rparr>"
  have "get_uint (drop (length MAGIC + 1) (stall @ concat chunks)) = Inl CodecError"
    using get_uint_stalls [of 586 0 0 "concat chunks"] by (simp add: stall_def MAGIC_def get_uint_def)
  then have "take_frame limit gate ?r = Inr (NotYet, ?r)"
    by (simp add: take_frame_def Let_def stall_def MAGIC_def)
  then have d: "drain_frames limit gate ?r = ([], Inr ?r)" unfolding drain_frames.simps [of _ _ ?r] by simp
  have r: "new_reader chain mx\<lparr>rd_buf := rd_buf (new_reader chain mx) @ concat (stall # chunks)\<rparr> = ?r" by (simp add: new_reader_def)
  show ?thesis unfolding feed_all_concat [OF list.distinct(2)] feed_def r by (rule d)
qed

end
