(* ===== verification/Doors.thy ===== *)
theory Doors
  imports Complex_Main "HOL-Library.Product_Lexorder" Wire
begin

text \<open>
  What a stranger may cost a node: token buckets per source (\<open>chain/net/limits.py\<close>), admission of
  connections, the penalty box and the deadlines of a connection (\<open>chain/net/gate.py\<close>).

  Token counts, prices and times are floats in the code and exact rationals here. The clock is an
  argument of every call. A heap of the code is a sorted list: only its least entry is read, and
  \<open>heappush\<close>, \<open>heappop\<close> and \<open>heapify\<close> keep the least entry first. The lemmas bound what a source
  gets, what the tables hold and what the doors let in, and show where the penalty box ends.
\<close>

section \<open>Prices\<close>

definition COSTS :: "(string \<times> rat) list" where
  "COSTS = [(''hello'', 5), (''status'', 1), (''params'', 1), (''tip'', 1), (''txstatus'', 1), (''register'', 2), (''ancestry'', 2),
     (''inclusion'', 2), (''headers'', 5), (''weight'', 5), (''getoutputs'', 10), (''tags'', 20), (''tx'', 50), (''frame'', 0)]"

definition DEFAULT_COST :: rat where "DEFAULT_COST = 5"
definition BYTES_PER_TOKEN :: rat where "BYTES_PER_TOKEN = 8192"
definition PRICED_AT_MS :: rat where "PRICED_AT_MS = 254 / 10"
definition METERED_KINDS :: "string list" where "METERED_KINDS = [''tx'']"
definition MAX_PRICE_MULTIPLE :: rat where "MAX_PRICE_MULTIPLE = 40"
definition CLIENT_CAPACITY :: rat where "CLIENT_CAPACITY = 240"
definition CLIENT_RATE :: rat where "CLIENT_RATE = 20"
definition PEER_CAPACITY :: rat where "PEER_CAPACITY = 6000"
definition PEER_RATE :: rat where "PEER_RATE = 2000"

definition bytes_cost :: "nat \<Rightarrow> rat" where
  "bytes_cost nbytes = of_nat nbytes / BYTES_PER_TOKEN"

definition price_multiple :: "rat \<Rightarrow> rat" where
  "price_multiple unit_ms = (if unit_ms = 0 then 1 else min MAX_PRICE_MULTIPLE (max 1 (unit_ms / PRICED_AT_MS)))"

section \<open>Buckets\<close>

record bucket =
  bk_capacity :: rat
  bk_rate :: rat
  bk_tokens :: rat
  bk_last :: rat
  bk_refused :: nat
  bk_spent :: rat

definition new_bucket :: "rat \<Rightarrow> rat \<Rightarrow> rat \<Rightarrow> bucket" where
  "new_bucket capacity rate now =
     \<lparr>bk_capacity = capacity, bk_rate = rate, bk_tokens = capacity, bk_last = now, bk_refused = 0, bk_spent = 0\<rparr>"

text \<open>\<open>take\<close>: a refusal says how long until the cost would fit, or \<open>None\<close> at a rate of nought.\<close>

definition take_tokens :: "rat \<Rightarrow> rat \<Rightarrow> bucket \<Rightarrow> (rat option + unit) \<times> bucket" where
  "take_tokens cost now b =
     (let b1 = b\<lparr>bk_tokens := min (bk_capacity b) (bk_tokens b + (now - bk_last b) * bk_rate b), bk_last := now\<rparr> in
      if cost \<le> bk_tokens b1 then (Inr (), b1\<lparr>bk_tokens := bk_tokens b1 - cost, bk_spent := bk_spent b1 + cost\<rparr>)
      else (Inl (if bk_rate b1 = 0 then None else Some ((cost - bk_tokens b1) / bk_rate b1)), b1\<lparr>bk_refused := bk_refused b1 + 1\<rparr>))"

section \<open>The limiter\<close>

text \<open>A source is a keyspace and a name in it. The least recently used source is first.\<close>

type_synonym source = "string \<times> string"

record limiter =
  lm_capacity :: rat
  lm_rate :: rat
  lm_peer_capacity :: rat
  lm_peer_rate :: rat
  lm_idle_after :: rat
  lm_max_sources :: nat
  lm_unit_ms :: rat
  lm_buckets :: "(source \<times> bucket) list"
  lm_allowed :: nat
  lm_refused :: nat

definition new_limiter :: "rat \<Rightarrow> rat \<Rightarrow> rat \<Rightarrow> rat \<Rightarrow> rat \<Rightarrow> nat \<Rightarrow> limiter" where
  "new_limiter capacity rate peer_capacity peer_rate idle_after max_sources =
     \<lparr>lm_capacity = capacity, lm_rate = rate, lm_peer_capacity = peer_capacity, lm_peer_rate = peer_rate,
      lm_idle_after = idle_after, lm_max_sources = max_sources, lm_unit_ms = 0, lm_buckets = [], lm_allowed = 0, lm_refused = 0\<rparr>"

definition cost_of :: "limiter \<Rightarrow> string \<Rightarrow> rat" where
  "cost_of lm kind =
     (let base = (case map_of COSTS kind of None \<Rightarrow> DEFAULT_COST | Some c \<Rightarrow> c)
      in if kind \<in> set METERED_KINDS then base * price_multiple (lm_unit_ms lm) else base)"

definition observe_unit :: "rat \<Rightarrow> limiter \<Rightarrow> limiter" where
  "observe_unit unit_ms lm = lm\<lparr>lm_unit_ms := unit_ms\<rparr>"

definition floor_capacity :: "limiter \<Rightarrow> rat" where
  "floor_capacity lm = cost_of lm ''tx'' + bytes_cost CLIENT_MAX_FRAME"

text \<open>The second loop of \<open>_sweep\<close>; \<open>popitem\<close> of an empty table raises.\<close>

fun pop_over :: "nat \<Rightarrow> 'a list \<Rightarrow> exn + 'a list" where
  "pop_over mx [] = (if mx = 0 then Inl KeyError else Inr [])"
| "pop_over mx (x # xs) = (if mx \<le> length (x # xs) then pop_over mx xs else Inr (x # xs))"

definition sweep_sources :: "rat \<Rightarrow> limiter \<Rightarrow> exn + limiter" where
  "sweep_sources now lm =
     bindR (pop_over (lm_max_sources lm) (dropWhile (\<lambda>(k, b). lm_idle_after lm < now - bk_last b) (lm_buckets lm)))
       (\<lambda>bs. Inr (lm\<lparr>lm_buckets := bs\<rparr>))"

text \<open>What a refusal says: the kind, its cost, what is left and how long to wait.\<close>

datatype rate_limit = RateLimit string rat rat "rat option"

definition bucket_for :: "source \<Rightarrow> bool \<Rightarrow> rat \<Rightarrow> limiter \<Rightarrow> exn + bucket \<times> limiter" where
  "bucket_for source peer now lm =
     (case map_of (lm_buckets lm) source of
        None \<Rightarrow> bindR (sweep_sources now lm) (\<lambda>lm1.
          let b = new_bucket (if peer then lm_peer_capacity lm1 else max (lm_capacity lm1) (floor_capacity lm1))
                    (if peer then lm_peer_rate lm1 else lm_rate lm1) now
          in Inr (b, lm1\<lparr>lm_buckets := lm_buckets lm1 @ [(source, b)]\<rparr>))
      | Some b \<Rightarrow> Inr (b, lm\<lparr>lm_buckets := AList.delete source (lm_buckets lm) @ [(source, b)]\<rparr>))"

definition rescaled :: "limiter \<Rightarrow> bool \<Rightarrow> bucket \<Rightarrow> bucket" where
  "rescaled lm peer b =
     (let b1 = (if \<not> peer \<and> bk_capacity b < floor_capacity lm then b\<lparr>bk_capacity := floor_capacity lm\<rparr> else b)
      in if peer \<and> bk_capacity b1 < lm_peer_capacity lm
         then b1\<lparr>bk_capacity := lm_peer_capacity lm, bk_rate := lm_peer_rate lm\<rparr> else b1)"

definition check_limit :: "source \<Rightarrow> string \<Rightarrow> bool \<Rightarrow> rat \<Rightarrow> nat \<Rightarrow> limiter \<Rightarrow> exn + (rate_limit + unit) \<times> limiter" where
  "check_limit source kind peer now nbytes lm =
     (let cost = cost_of lm kind + (if nbytes = 0 then 0 else bytes_cost nbytes) in
      bindR (bucket_for source peer now lm) (\<lambda>(b, lm1).
        let (res, b1) = take_tokens cost now (rescaled lm1 peer b);
            lm2 = lm1\<lparr>lm_buckets := AList.update source b1 (lm_buckets lm1)\<rparr> in
        (case res of
           Inr _ \<Rightarrow> Inr (Inr (), lm2\<lparr>lm_allowed := lm_allowed lm2 + 1\<rparr>)
         | Inl wait \<Rightarrow> Inr (Inl (RateLimit kind cost (bk_tokens b1) wait), lm2\<lparr>lm_refused := lm_refused lm2 + 1\<rparr>))))"

section \<open>The gate\<close>

definition MAX_CONNECTIONS :: nat where "MAX_CONNECTIONS = 256"
definition MAX_PER_ADDRESS :: nat where "MAX_PER_ADDRESS = 24"
definition IDLE_SECONDS :: rat where "IDLE_SECONDS = 60"
definition PARTIAL_SECONDS :: rat where "PARTIAL_SECONDS = 10"
definition PENALTY_SECONDS :: rat where "PENALTY_SECONDS = 2"
definition PENALTY_MAX :: rat where "PENALTY_MAX = 60"
definition MAX_PENALISED :: nat where "MAX_PENALISED = 4096"

record gate =
  gt_max_connections :: nat
  gt_max_per_address :: nat
  gt_penalty_seconds :: rat
  gt_penalty_max :: rat
  gt_max_penalised :: nat
  gt_open :: "(string \<times> nat) list"
  gt_penalty :: "(string \<times> rat \<times> nat) list"
  gt_order :: "(rat \<times> string) list"
  gt_total :: nat
  gt_admitted :: nat
  gt_refused_total :: nat
  gt_refused_address :: nat
  gt_refused_penalty :: nat

definition new_gate :: "nat \<Rightarrow> nat \<Rightarrow> rat \<Rightarrow> rat \<Rightarrow> nat \<Rightarrow> gate" where
  "new_gate max_connections max_per_address penalty_seconds penalty_max max_penalised =
     \<lparr>gt_max_connections = max_connections, gt_max_per_address = max_per_address, gt_penalty_seconds = penalty_seconds,
      gt_penalty_max = penalty_max, gt_max_penalised = max_penalised, gt_open = [], gt_penalty = [], gt_order = [],
      gt_total = 0, gt_admitted = 0, gt_refused_total = 0, gt_refused_address = 0, gt_refused_penalty = 0\<rparr>"

datatype door_refusal = InPenaltyBox rat | TooManyConnections nat | TooManyFromAddress nat

definition held_by :: "gate \<Rightarrow> string \<Rightarrow> nat" where
  "held_by g address = (case map_of (gt_open g) address of None \<Rightarrow> 0 | Some n \<Rightarrow> n)"

definition penalised :: "gate \<Rightarrow> string \<Rightarrow> rat \<Rightarrow> bool" where
  "penalised g address now = (case map_of (gt_penalty g) address of None \<Rightarrow> False | Some (until, _) \<Rightarrow> now < until)"

definition admit :: "rat \<Rightarrow> string \<Rightarrow> gate \<Rightarrow> (door_refusal + unit) \<times> gate" where
  "admit now address g =
     (case (case map_of (gt_penalty g) address of None \<Rightarrow> None | Some (until, _) \<Rightarrow> if now < until then Some (until - now) else None) of
        Some wait \<Rightarrow> (Inl (InPenaltyBox wait), g\<lparr>gt_refused_penalty := gt_refused_penalty g + 1\<rparr>)
      | None \<Rightarrow>
          if gt_max_connections g \<le> gt_total g then (Inl (TooManyConnections (gt_total g)), g\<lparr>gt_refused_total := gt_refused_total g + 1\<rparr>)
          else let held = held_by g address in
            if gt_max_per_address g \<le> held then (Inl (TooManyFromAddress held), g\<lparr>gt_refused_address := gt_refused_address g + 1\<rparr>)
            else (Inr (), g\<lparr>gt_open := AList.update address (held + 1) (gt_open g), gt_total := gt_total g + 1,
                           gt_admitted := gt_admitted g + 1\<rparr>))"

definition release :: "string \<Rightarrow> gate \<Rightarrow> gate" where
  "release address g =
     (case map_of (gt_open g) address of
        None \<Rightarrow> g
      | Some held \<Rightarrow> g\<lparr>gt_open := (if held \<le> 1 then AList.delete address (gt_open g) else AList.update address (held - 1) (gt_open g)),
                       gt_total := gt_total g - 1\<rparr>)"

text \<open>The loop of \<open>_sweep\<close> over the heap and the box: what was superseded goes, what has expired goes,
  and the next to expire goes while the box is too full.\<close>

fun sweep_box :: "rat \<Rightarrow> nat \<Rightarrow> (rat \<times> string) list \<Rightarrow> (string \<times> rat \<times> nat) list \<Rightarrow> (rat \<times> string) list \<times> (string \<times> rat \<times> nat) list" where
  "sweep_box now mx [] box = ([], box)"
| "sweep_box now mx ((until, a) # order) box =
     (case map_of box a of
        None \<Rightarrow> sweep_box now mx order box
      | Some (u, _) \<Rightarrow>
          if u \<noteq> until then sweep_box now mx order box
          else if until \<le> now then sweep_box now mx order (AList.delete a box)
          else if mx < length box then sweep_box now mx order (AList.delete a box)
          else ((until, a) # order, box))"

definition sweep_gate :: "rat \<Rightarrow> gate \<Rightarrow> gate" where
  "sweep_gate now g =
     (let (order, box) = sweep_box now (gt_max_penalised g) (gt_order g) (gt_penalty g);
          order1 = (if 2 * (length box + 16) < length order then sort (map (\<lambda>(a, (until, _)). (until, a)) box) else order)
      in g\<lparr>gt_penalty := box, gt_order := order1\<rparr>)"

text \<open>\<open>2 ** (strikes - 1)\<close> is an integer that the multiplication by a float converts, and a float ends
  below \<open>2 ** 1024\<close>. The call that raises has changed nothing.\<close>

definition penalise :: "rat \<Rightarrow> string \<Rightarrow> gate \<Rightarrow> (exn + rat) \<times> gate" where
  "penalise now address g =
     (let strikes = (case map_of (gt_penalty g) address of None \<Rightarrow> 0 | Some (_, n) \<Rightarrow> n) + 1 in
      if 1024 < strikes then (Inl OverflowError, g)
      else let wait = min (gt_penalty_max g) (gt_penalty_seconds g * 2 ^ (strikes - 1)); until = now + wait in
        (Inr wait, sweep_gate now (g\<lparr>gt_penalty := AList.update address (until, strikes) (gt_penalty g),
                                   gt_order := insort (until, address) (gt_order g)\<rparr>)))"

section \<open>Deadlines\<close>

record deadlines =
  dl_idle :: rat
  dl_partial :: rat
  dl_last :: rat
  dl_partial_since :: "rat option"

definition new_deadlines :: "rat \<Rightarrow> rat \<Rightarrow> rat \<Rightarrow> deadlines" where
  "new_deadlines idle partial now = \<lparr>dl_idle = idle, dl_partial = partial, dl_last = now, dl_partial_since = None\<rparr>"

definition saw_data :: "rat \<Rightarrow> deadlines \<Rightarrow> deadlines" where
  "saw_data now d = d\<lparr>dl_last := now\<rparr>"

definition saw_frame :: "rat \<Rightarrow> deadlines \<Rightarrow> deadlines" where
  "saw_frame now d = (saw_data now d)\<lparr>dl_partial_since := None\<rparr>"

definition saw_partial :: "rat \<Rightarrow> deadlines \<Rightarrow> deadlines" where
  "saw_partial now d = d\<lparr>dl_last := now, dl_partial_since := Some (case dl_partial_since d of None \<Rightarrow> now | Some t \<Rightarrow> t)\<rparr>"

definition expired :: "rat \<Rightarrow> deadlines \<Rightarrow> bool" where
  "expired now d = ((case dl_partial_since d of None \<Rightarrow> False | Some t \<Rightarrow> dl_partial d < now - t) \<or> dl_idle d < now - dl_last d)"

section \<open>What a source gets\<close>

fun take_run :: "(rat \<times> rat) list \<Rightarrow> bucket \<Rightarrow> rat list \<times> bucket" where
  "take_run [] b = ([], b)"
| "take_run ((cost, now) # reqs) b =
     (let (res, b1) = take_tokens cost now b; (granted, b2) = take_run reqs b1
      in ((case res of Inr _ \<Rightarrow> cost # granted | Inl _ \<Rightarrow> granted), b2))"

lemma take_tokens_bound:
  assumes "take_tokens cost now b = (res, b')" "0 \<le> cost" "0 \<le> bk_rate b" "0 \<le> bk_tokens b" "bk_tokens b \<le> bk_capacity b" "bk_last b \<le> now"
  shows "bk_capacity b' = bk_capacity b" "bk_rate b' = bk_rate b" "bk_last b' = now" "0 \<le> bk_tokens b'" "bk_tokens b' \<le> bk_capacity b'"
    "bk_tokens b' + (case res of Inr _ \<Rightarrow> cost | Inl _ \<Rightarrow> 0) \<le> bk_tokens b + (now - bk_last b) * bk_rate b"
proof -
  have "0 \<le> (now - bk_last b) * bk_rate b" using assms(3,6) by simp
  then show "bk_capacity b' = bk_capacity b" "bk_rate b' = bk_rate b" "bk_last b' = now" "0 \<le> bk_tokens b'" "bk_tokens b' \<le> bk_capacity b'"
    "bk_tokens b' + (case res of Inr _ \<Rightarrow> cost | Inl _ \<Rightarrow> 0) \<le> bk_tokens b + (now - bk_last b) * bk_rate b"
    using assms by (auto simp: take_tokens_def Let_def split: if_splits)
qed

lemma take_run_bound:
  assumes "take_run reqs b = (granted, b')" "\<forall>(cost, _)\<in>set reqs. 0 \<le> cost" "0 \<le> bk_rate b" "0 \<le> bk_tokens b" "bk_tokens b \<le> bk_capacity b"
    "sorted (bk_last b # map snd reqs)"
  shows "0 \<le> bk_tokens b' \<and> bk_tokens b' \<le> bk_capacity b \<and> sum_list granted + bk_tokens b' \<le> bk_tokens b + bk_rate b * (bk_last b' - bk_last b)"
  using assms
proof (induction reqs arbitrary: b granted)
  case (Cons req reqs)
  obtain cost now where req: "req = (cost, now)" by force
  obtain res b1 where t: "take_tokens cost now b = (res, b1)" by force
  obtain g where g: "take_run reqs b1 = (g, b')" "granted = (case res of Inr _ \<Rightarrow> cost # g | Inl _ \<Rightarrow> g)"
    using Cons.prems(1) by (auto simp: req t split: prod.splits)
  have "0 \<le> cost" "bk_last b \<le> now" using Cons.prems by (simp_all add: req)
  note step = take_tokens_bound [OF t this(1) Cons.prems(3,4,5) this(2)]
  have "0 \<le> bk_tokens b' \<and> bk_tokens b' \<le> bk_capacity b1 \<and> sum_list g + bk_tokens b' \<le> bk_tokens b1 + bk_rate b1 * (bk_last b' - bk_last b1)"
    by (rule Cons.IH [OF g(1)]) (use Cons.prems step(1-5) in \<open>auto simp: req\<close>)
  moreover have "sum_list granted = (case res of Inr _ \<Rightarrow> cost | Inl _ \<Rightarrow> 0) + sum_list g" by (simp add: g(2) split: sum.split)
  moreover have "(now - bk_last b) * bk_rate b + bk_rate b * (bk_last b' - now) = bk_rate b * (bk_last b' - bk_last b)" by (simp add: algebra_simps)
  ultimately show ?case using step(1,2,3,6) by auto
qed simp

text \<open>C35: A source gets its burst and its rate and no more. Whatever is asked of a bucket, in requests that
  cost nothing or more while the clock does not run backwards, what it grants costs at most its
  capacity and its rate times the time since it was made, and it never holds more than its
  capacity nor owes anything.\<close>

theorem bucket_rate_bound:
  assumes "take_run reqs (new_bucket capacity rate start) = (granted, b)"
    and "\<forall>(cost, _)\<in>set reqs. 0 \<le> cost" "0 \<le> rate" "0 \<le> capacity" "sorted (start # map snd reqs)"
  shows "sum_list granted \<le> capacity + rate * (bk_last b - start) \<and> 0 \<le> bk_tokens b \<and> bk_tokens b \<le> capacity"
  using take_run_bound [OF assms(1)] assms(2-5) by (fastforce simp: new_bucket_def)

lemma demo_takes: "take_run [(50, 0), (40, 1), (30, 2)] (new_bucket 60 10 0) = ([50, 30], \<lparr>bk_capacity = 60, bk_rate = 10, bk_tokens = 0, bk_last = 2, bk_refused = 1, bk_spent = 80\<rparr>)"
  by (simp add: new_bucket_def take_tokens_def)

theorem bucket_rate_bound_witness:
  "\<exists>granted b. take_run [(50, 0), (40, 1), (30, 2)] (new_bucket 60 10 0) = (granted, b) \<and> sum_list granted = 80
     \<and> sum_list granted \<le> 60 + 10 * (bk_last b - 0)"
  using bucket_rate_bound [OF demo_takes] demo_takes by simp

section \<open>The ceiling is not a decoy\<close>

lemma price_multiple_pos: "1 \<le> price_multiple u"
  by (simp add: price_multiple_def MAX_PRICE_MULTIPLE_def)

lemma cost_of_same: "lm_unit_ms lm' = lm_unit_ms lm \<Longrightarrow> cost_of lm' kind = cost_of lm kind"
  by (simp add: cost_of_def Let_def)

lemma pop_over_ok: "0 < mx \<Longrightarrow> \<exists>ys as. pop_over mx xs = Inr ys \<and> length ys < mx \<and> xs = as @ ys"
proof (induction mx xs rule: pop_over.induct)
  case (2 mx x xs)
  show ?case
  proof (cases "mx \<le> length (x # xs)")
    case True
    then obtain ys as where "pop_over mx xs = Inr ys" "length ys < mx" "xs = as @ ys" using 2 by blast
    then have "pop_over mx (x # xs) = Inr ys \<and> length ys < mx \<and> x # xs = (x # as) @ ys" using True by simp
    then show ?thesis by blast
  next
    case False
    then have "pop_over mx (x # xs) = Inr (x # xs) \<and> length (x # xs) < mx \<and> x # xs = [] @ (x # xs)" by simp
    then show ?thesis by blast
  qed
qed simp

lemma sweep_sources_ok:
  assumes "0 < lm_max_sources lm"
  obtains bs as where "sweep_sources now lm = Inr (lm\<lparr>lm_buckets := bs\<rparr>)" "length bs < lm_max_sources lm" "lm_buckets lm = as @ bs"
proof -
  let ?P = "\<lambda>(k, b). lm_idle_after lm < now - bk_last b"
  obtain bs as where bs: "pop_over (lm_max_sources lm) (dropWhile ?P (lm_buckets lm)) = Inr bs" "length bs < lm_max_sources lm"
    "dropWhile ?P (lm_buckets lm) = as @ bs" using pop_over_ok [OF assms] by metis
  have split: "lm_buckets lm = (takeWhile ?P (lm_buckets lm) @ as) @ bs" using bs(3) by (metis append.assoc takeWhile_dropWhile_id)
  show ?thesis by (rule that [OF _ bs(2) split]) (simp add: sweep_sources_def bs(1))
qed

text \<open>What the limiter keeps of a call, whatever is asked.\<close>

definition limiter_ok :: "limiter \<Rightarrow> bool" where
  "limiter_ok lm = (distinct (keys (lm_buckets lm)) \<and> length (lm_buckets lm) \<le> lm_max_sources lm)"

lemma update_last: "k \<notin> set (keys al) \<Longrightarrow> AList.update k v (al @ [(k, w)]) = al @ [(k, v)]"
  by (induction al) auto

lemma length_delete_member: "distinct (keys al) \<Longrightarrow> map_of al k = Some v \<Longrightarrow> Suc (length (AList.delete k al)) = length al"
proof -
  assume d: "distinct (keys al)" and k: "map_of al k = Some v"
  have mem: "k \<in> set (map fst al)" using k by (metis domI dom_map_of_conv_image_fst set_map)
  have "map fst (AList.delete k al) = remove1 k (map fst al)"
    using d by (simp add: delete_keys keys_def distinct_remove1_removeAll)
  then have "length (AList.delete k al) = length (remove1 k (map fst al))" by (metis length_map)
  then show ?thesis using mem by (simp add: length_remove1) (metis Suc_pred length_map length_pos_if_in_set mem)
qed

lemma bucket_for_ok:
  assumes "limiter_ok lm" "0 < lm_max_sources lm"
  obtains b rest where "bucket_for source peer now lm = Inr (b, lm\<lparr>lm_buckets := rest @ [(source, b)]\<rparr>)"
    "source \<notin> set (keys rest)" "distinct (keys rest)" "length rest < lm_max_sources lm"
    "b = (case map_of (lm_buckets lm) source of Some c \<Rightarrow> c
       | None \<Rightarrow> new_bucket (if peer then lm_peer_capacity lm else max (lm_capacity lm) (floor_capacity lm)) (if peer then lm_peer_rate lm else lm_rate lm) now)"
proof (cases "map_of (lm_buckets lm) source")
  case None
  let ?b = "new_bucket (if peer then lm_peer_capacity lm else max (lm_capacity lm) (floor_capacity lm)) (if peer then lm_peer_rate lm else lm_rate lm) now"
  obtain bs as where s: "sweep_sources now lm = Inr (lm\<lparr>lm_buckets := bs\<rparr>)" "length bs < lm_max_sources lm" "lm_buckets lm = as @ bs"
    by (rule sweep_sources_ok [OF assms(2)])
  have "floor_capacity (lm\<lparr>lm_buckets := bs\<rparr>) = floor_capacity lm" by (simp add: floor_capacity_def cost_of_def Let_def)
  moreover have "source \<notin> set (keys bs)" using None s(3) by (simp add: set_keys domIff)
  moreover have "distinct (keys bs)" using assms(1) s(3) by (simp add: limiter_ok_def keys_def)
  moreover have "bucket_for source peer now lm = Inr (?b, lm\<lparr>lm_buckets := bs @ [(source, ?b)]\<rparr>)"
    using None by (simp add: bucket_for_def Let_def s(1) calculation(1))
  ultimately show ?thesis using that [of ?b bs] None s(2) by simp
next
  case (Some c)
  let ?rest = "AList.delete source (lm_buckets lm)"
  have "distinct (keys (lm_buckets lm))" "length (lm_buckets lm) \<le> lm_max_sources lm" using assms(1) by (simp_all add: limiter_ok_def)
  then have rest: "source \<notin> set (keys ?rest)" "distinct (keys ?rest)" "length ?rest < lm_max_sources lm"
    using length_delete_member [OF _ Some] by (simp_all add: keys_def delete_keys distinct_removeAll)
  show ?thesis by (rule that [OF _ rest, of c]) (simp_all add: bucket_for_def Some)
qed

lemma check_limit_ok:
  assumes "limiter_ok lm" "0 < lm_max_sources lm"
  obtains b rest where "bucket_for source peer now lm = Inr (b, lm\<lparr>lm_buckets := rest @ [(source, b)]\<rparr>)"
    "check_limit source kind peer now nbytes lm =
      (let cost = cost_of lm kind + (if nbytes = 0 then 0 else bytes_cost nbytes);
           (res, b1) = take_tokens cost now (rescaled lm peer b); lm2 = lm\<lparr>lm_buckets := rest @ [(source, b1)]\<rparr> in
       Inr (case res of Inr _ \<Rightarrow> (Inr (), lm2\<lparr>lm_allowed := lm_allowed lm2 + 1\<rparr>)
         | Inl wait \<Rightarrow> (Inl (RateLimit kind cost (bk_tokens b1) wait), lm2\<lparr>lm_refused := lm_refused lm2 + 1\<rparr>)))"
    "source \<notin> set (keys rest)" "distinct (keys rest)" "length rest < lm_max_sources lm"
proof -
  obtain b rest where b: "bucket_for source peer now lm = Inr (b, lm\<lparr>lm_buckets := rest @ [(source, b)]\<rparr>)"
    "source \<notin> set (keys rest)" "distinct (keys rest)" "length rest < lm_max_sources lm"
    by (rule bucket_for_ok [OF assms])
  have r: "rescaled (lm\<lparr>lm_buckets := x\<rparr>) peer b = rescaled lm peer b" for x by (simp add: rescaled_def floor_capacity_def cost_of_def Let_def)
  show ?thesis
    by (rule that [OF b(1) _ b(2-4)]) (simp add: check_limit_def b(1) r Let_def update_last [OF b(2)] split: prod.split sum.split)
qed

lemma check_limit_keeps:
  assumes "limiter_ok lm" "0 < lm_max_sources lm"
  shows "\<exists>res lm'. check_limit source kind peer now nbytes lm = Inr (res, lm') \<and> limiter_ok lm' \<and> lm_max_sources lm' = lm_max_sources lm
    \<and> lm_allowed lm' + lm_refused lm' = lm_allowed lm + lm_refused lm + 1"
  by (rule check_limit_ok [OF assms, of source peer now kind nbytes])
    (auto simp: limiter_ok_def Let_def keys_def split: prod.splits sum.splits)

text \<open>A request is a source, a kind, whether it is a seated peer, the time and the bytes.\<close>

fun limit_run :: "(source \<times> string \<times> bool \<times> rat \<times> nat) list \<Rightarrow> limiter \<Rightarrow> exn + limiter" where
  "limit_run [] lm = Inr lm"
| "limit_run ((source, kind, peer, now, nbytes) # reqs) lm =
     bindR (check_limit source kind peer now nbytes lm) (\<lambda>(_, lm1). limit_run reqs lm1)"

lemma limit_run_keeps:
  "limiter_ok lm \<Longrightarrow> 0 < lm_max_sources lm \<Longrightarrow> \<exists>lm'. limit_run reqs lm = Inr lm' \<and> limiter_ok lm' \<and> lm_max_sources lm' = lm_max_sources lm
    \<and> lm_allowed lm' + lm_refused lm' = lm_allowed lm + lm_refused lm + length reqs"
proof (induction reqs arbitrary: lm)
  case (Cons req reqs)
  obtain source kind peer now nbytes where req: "req = (source, kind, peer, now, nbytes)" by (cases req) auto
  obtain res lm1 where c: "check_limit source kind peer now nbytes lm = Inr (res, lm1)" "limiter_ok lm1" "lm_max_sources lm1 = lm_max_sources lm"
    "lm_allowed lm1 + lm_refused lm1 = lm_allowed lm + lm_refused lm + 1"
    using check_limit_keeps [OF Cons.prems, of source kind peer now nbytes] by blast
  show ?case using Cons.IH [OF c(2)] c Cons.prems(2) by (auto simp: req)
qed simp

text \<open>Metering never fails and never grows. Whatever is asked of a limiter that may remember at least one
  source, no request raises, each is either allowed or counted as refused, and it never remembers
  more sources than \<open>max_sources\<close> nor one twice.\<close>

theorem limiter_never_raises:
  assumes "0 < max_sources"
  shows "\<exists>lm. limit_run reqs (new_limiter capacity rate peer_capacity peer_rate idle_after max_sources) = Inr lm
    \<and> length (lm_buckets lm) \<le> max_sources \<and> distinct (map fst (lm_buckets lm)) \<and> lm_allowed lm + lm_refused lm = length reqs"
  using limit_run_keeps [of "new_limiter capacity rate peer_capacity peer_rate idle_after max_sources" reqs] assms
  by (auto simp: new_limiter_def limiter_ok_def keys_def)

theorem limiter_never_raises_witness:
  "\<exists>lm. limit_run [((''client'', ''a''), ''tip'', False, 0, 60), ((''client'', ''b''), ''tags'', False, 1, 60)] (new_limiter 240 20 6000 2000 300 1) = Inr lm
    \<and> length (lm_buckets lm) \<le> 1 \<and> lm_allowed lm + lm_refused lm = 2"
  using limiter_never_raises [of 1 "[((''client'', ''a''), ''tip'', False, 0, 60), ((''client'', ''b''), ''tags'', False, 1, 60)]" 240 20 6000 2000 300] by auto

lemma floor_covers:
  assumes "nbytes \<le> CLIENT_MAX_FRAME"
  shows "cost_of lm ''frame'' + bytes_cost nbytes + cost_of lm ''tx'' \<le> floor_capacity lm" "0 \<le> cost_of lm ''tx''" "0 \<le> bytes_cost nbytes"
proof -
  have "bytes_cost nbytes \<le> bytes_cost CLIENT_MAX_FRAME" using assms by (simp add: bytes_cost_def BYTES_PER_TOKEN_def divide_right_mono)
  then show "cost_of lm ''frame'' + bytes_cost nbytes + cost_of lm ''tx'' \<le> floor_capacity lm"
    by (simp add: floor_capacity_def cost_of_def COSTS_def METERED_KINDS_def)
  show "0 \<le> cost_of lm ''tx''" using price_multiple_pos [of "lm_unit_ms lm"] by (simp add: cost_of_def COSTS_def METERED_KINDS_def)
  show "0 \<le> bytes_cost nbytes" by (simp add: bytes_cost_def BYTES_PER_TOKEN_def)
qed


section \<open>What the gate lets in\<close>

definition open_total :: "(string \<times> nat) list \<Rightarrow> nat" where
  "open_total d = sum_list (map snd d)"

lemma open_total_update:
  "distinct (keys d) \<Longrightarrow> open_total (AList.update k v d) + (case map_of d k of None \<Rightarrow> 0 | Some n \<Rightarrow> n) = open_total d + v"
  by (induction d) (auto simp: open_total_def keys_def split: option.split dest: map_of_SomeD)

lemma open_total_delete: "distinct (keys d) \<Longrightarrow> map_of d k = Some n \<Longrightarrow> open_total (AList.delete k d) + n = open_total d"
proof (induction d)
  case (Cons p d)
  show ?case
  proof (cases "fst p = k")
    case True
    then have "AList.delete k d = d" using Cons.prems(1) by (auto simp: keys_def)
    then show ?thesis using True Cons.prems by (simp add: open_total_def)
  qed (use Cons in \<open>auto simp: open_total_def keys_def\<close>)
qed simp

definition box_ok :: "(rat \<times> string) list \<Rightarrow> (string \<times> rat \<times> nat) list \<Rightarrow> bool" where
  "box_ok order box = (distinct (keys box) \<and> (\<forall>(a, until, n)\<in>set box. (until, a) \<in> set order))"

definition gate_ok :: "gate \<Rightarrow> bool" where
  "gate_ok g = (distinct (keys (gt_open g)) \<and> gt_total g = open_total (gt_open g) \<and> gt_total g \<le> gt_max_connections g
     \<and> (\<forall>(a, n)\<in>set (gt_open g). 0 < n \<and> n \<le> gt_max_per_address g)
     \<and> box_ok (gt_order g) (gt_penalty g) \<and> length (gt_penalty g) \<le> gt_max_penalised g \<and> sorted (gt_order g)
     \<and> length (gt_order g) \<le> 2 * (length (gt_penalty g) + 16))"

lemma box_drop:
  assumes "box_ok ((until, a) # order) box" "map_of box a = None \<or> (\<exists>u n. map_of box a = Some (u, n) \<and> u \<noteq> until)"
  shows "box_ok order box"
proof -
  have "(u, b) \<in> set order" if m: "(b, u, n) \<in> set box" for b u n
  proof -
    have "map_of box b = Some (u, n)" using m assms(1) by (simp add: box_ok_def keys_def)
    then have "(u, b) \<noteq> (until, a)" using assms(2) by auto
    then show ?thesis using m assms(1) by (auto simp: box_ok_def)
  qed
  then show ?thesis using assms(1) by (auto simp: box_ok_def)
qed

lemma box_delete: "box_ok ((until, a) # order) box \<Longrightarrow> box_ok order (AList.delete a box)"
  using distinct_keys_delete [of box a] by (auto simp: box_ok_def AList.delete_eq)

lemma sweep_box_ok:
  assumes "sweep_box now mx order box = (order', box')" "box_ok order box" "sorted order"
  shows "box_ok order' box' \<and> length box' \<le> mx \<and> sorted order' \<and> set box' \<subseteq> set box \<and> length order' \<le> length order"
  using assms
proof (induction now mx order box rule: sweep_box.induct)
  case (1 now mx box)
  then have "box = []" by (cases box) (force simp: box_ok_def)+
  then show ?case using 1 by simp
next
  case (2 now mx until a order box)
  have keep: "set (AList.delete a box) \<subseteq> set box" by (rule set_delete_subset)
  have s: "sorted order" using 2(7) by simp
  show ?case
  proof (cases "map_of box a")
    case None
    then show ?thesis using 2(1) [OF None] 2(5) box_drop [OF 2(6)] s by fastforce
  next
    case (Some p)
    obtain u n where p: "p = (u, n)" by force
    show ?thesis
    proof (cases "u \<noteq> until")
      case True
      then show ?thesis using 2(2) [OF Some p [symmetric]] 2(5) Some p box_drop [OF 2(6)] s by fastforce
    next
      case False
      show ?thesis
      proof (cases "until \<le> now \<or> mx < length box")
        case out: True
        then have d: "sweep_box now mx order (AList.delete a box) = (order', box')" using 2(5) Some p False by (auto split: if_splits)
        have ih: "box_ok order' box' \<and> length box' \<le> mx \<and> sorted order' \<and> set box' \<subseteq> set (AList.delete a box) \<and> length order' \<le> length order"
        proof (cases "until \<le> now")
          case True
          then show ?thesis using 2(3) [OF Some p [symmetric] False] d box_delete [OF 2(6)] s by blast
        next
          case late: False
          then show ?thesis using 2(4) [OF Some p [symmetric] False late] out d box_delete [OF 2(6)] s by blast
        qed
        then show ?thesis using keep by auto
      next
        case live: False
        then show ?thesis using 2(5-7) Some p False by auto
      qed
    qed
  qed
qed

lemma sweep_gate_ok:
  assumes "box_ok (gt_order g) (gt_penalty g)" "sorted (gt_order g)"
  shows "box_ok (gt_order (sweep_gate now g)) (gt_penalty (sweep_gate now g))" "sorted (gt_order (sweep_gate now g))"
    "length (gt_penalty (sweep_gate now g)) \<le> gt_max_penalised g"
    "length (gt_order (sweep_gate now g)) \<le> 2 * (length (gt_penalty (sweep_gate now g)) + 16)"
proof -
  obtain order box where s: "sweep_box now (gt_max_penalised g) (gt_order g) (gt_penalty g) = (order, box)" by force
  note ok = sweep_box_ok [OF s assms]
  have "box_ok (sort (map (\<lambda>(a, (until, _)). (until, a)) box)) box" using ok by (force simp: box_ok_def)
  then show "box_ok (gt_order (sweep_gate now g)) (gt_penalty (sweep_gate now g))" "sorted (gt_order (sweep_gate now g))"
    "length (gt_penalty (sweep_gate now g)) \<le> gt_max_penalised g"
    "length (gt_order (sweep_gate now g)) \<le> 2 * (length (gt_penalty (sweep_gate now g)) + 16)"
    using ok by (simp_all add: sweep_gate_def s Let_def)
qed

lemma sweep_gate_same: "gt_open (sweep_gate now g) = gt_open g" "gt_total (sweep_gate now g) = gt_total g"
  "gt_max_connections (sweep_gate now g) = gt_max_connections g" "gt_max_per_address (sweep_gate now g) = gt_max_per_address g"
  "gt_max_penalised (sweep_gate now g) = gt_max_penalised g" "gt_penalty_seconds (sweep_gate now g) = gt_penalty_seconds g"
  "gt_penalty_max (sweep_gate now g) = gt_penalty_max g"
  by (simp_all add: sweep_gate_def split: prod.split)

lemma penalise_ok: "gate_ok g \<Longrightarrow> gate_ok (snd (penalise now a g))"
proof -
  assume g: "gate_ok g"
  let ?strikes = "(case map_of (gt_penalty g) a of None \<Rightarrow> 0 | Some (_, n) \<Rightarrow> n) + 1"
  let ?until = "now + min (gt_penalty_max g) (gt_penalty_seconds g * 2 ^ (?strikes - 1))"
  let ?g = "g\<lparr>gt_penalty := AList.update a (?until, ?strikes) (gt_penalty g), gt_order := insort (?until, a) (gt_order g)\<rparr>"
  have "box_ok (gt_order ?g) (gt_penalty ?g)" "sorted (gt_order ?g)"
    using g set_update_subset [of a "(?until, ?strikes)" "gt_penalty g"]
    by (auto simp: gate_ok_def box_ok_def distinct_keys_update set_insort_key sorted_insort)
  note ok = sweep_gate_ok [OF this, of now]
  have "gate_ok (sweep_gate now ?g)" using ok g unfolding gate_ok_def sweep_gate_same by simp
  then show ?thesis using g by (simp add: penalise_def Let_def)
qed

lemma gate_admit_ok: "gate_ok g \<Longrightarrow> gate_ok (snd (admit now a g))"
proof -
  assume g: "gate_ok g"
  have u: "gate_ok (g\<lparr>gt_refused_penalty := n\<rparr>) = gate_ok g" "gate_ok (g\<lparr>gt_refused_total := n\<rparr>) = gate_ok g"
    "gate_ok (g\<lparr>gt_refused_address := n\<rparr>) = gate_ok g" for n by (simp_all add: gate_ok_def)
  let ?g = "g\<lparr>gt_open := AList.update a (held_by g a + 1) (gt_open g), gt_total := gt_total g + 1, gt_admitted := gt_admitted g + 1\<rparr>"
  have "gate_ok ?g" if "\<not> gt_max_connections g \<le> gt_total g" "\<not> gt_max_per_address g \<le> held_by g a"
  proof -
    have "open_total (AList.update a (held_by g a + 1) (gt_open g)) = open_total (gt_open g) + 1"
      using open_total_update [of "gt_open g" a "held_by g a + 1"] g by (simp add: gate_ok_def held_by_def)
    then show ?thesis using g that set_update_subset [of a "held_by g a + 1" "gt_open g"]
      by (fastforce simp: gate_ok_def distinct_keys_update)
  qed
  then show ?thesis using g by (auto simp: admit_def u Let_def split: option.split)
qed

lemma release_ok: "gate_ok g \<Longrightarrow> gate_ok (release a g)"
proof -
  assume g: "gate_ok g"
  show ?thesis
  proof (cases "map_of (gt_open g) a")
    case (Some held)
    have pos: "0 < held" "held \<le> gt_max_per_address g" using map_of_SomeD [OF Some] g by (auto simp: gate_ok_def)
    have d: "distinct (keys (gt_open g))" using g by (simp add: gate_ok_def)
    show ?thesis
    proof (cases "held \<le> 1")
      case True
      then have "open_total (AList.delete a (gt_open g)) + 1 = open_total (gt_open g)" using open_total_delete [OF d Some] pos by simp
      then show ?thesis using g True Some set_delete_subset [of a "gt_open g"]
        by (fastforce simp: gate_ok_def release_def distinct_keys_delete)
    next
      case False
      then have "open_total (AList.update a (held - 1) (gt_open g)) + 1 = open_total (gt_open g)" using open_total_update [OF d, of a "held - 1"] Some by simp
      then show ?thesis using g False Some pos set_update_subset [of a "held - 1" "gt_open g"]
        by (fastforce simp: gate_ok_def release_def distinct_keys_update)
    qed
  qed (use g in \<open>simp add: release_def\<close>)
qed

datatype gate_op = Admit rat string | Release string | Penalise rat string

primrec gate_step :: "gate_op \<Rightarrow> gate \<Rightarrow> gate" where
  "gate_step (Admit now a) g = snd (admit now a g)"
| "gate_step (Release a) g = release a g"
| "gate_step (Penalise now a) g = snd (penalise now a g)"

lemma gate_fold_ok: "gate_ok g \<Longrightarrow> gate_ok (fold gate_step ops g) \<and> gt_max_connections (fold gate_step ops g) = gt_max_connections g
    \<and> gt_max_per_address (fold gate_step ops g) = gt_max_per_address g \<and> gt_max_penalised (fold gate_step ops g) = gt_max_penalised g"
proof (induction ops arbitrary: g)
  case (Cons op ops)
  have "gate_ok (gate_step op g)" using Cons.prems by (cases op) (simp_all add: gate_admit_ok release_ok penalise_ok)
  moreover have "gt_max_connections (gate_step op g) = gt_max_connections g \<and> gt_max_per_address (gate_step op g) = gt_max_per_address g
      \<and> gt_max_penalised (gate_step op g) = gt_max_penalised g"
    by (cases op) (auto simp: admit_def release_def penalise_def Let_def sweep_gate_same split: option.split)
  ultimately show ?case using Cons.IH by simp
qed simp

text \<open>C34: The doors hold. Whatever is admitted, released and penalised in whatever order, a gate never counts
  more connections than \<open>max_connections\<close> nor more from one address than \<open>max_per_address\<close>, its total
  is the sum over the addresses, the penalty box never remembers more than \<open>max_penalised\<close>
  addresses, every one of them can still be found in the expiry order, and that order is never
  longer than twice the box and thirty-two.\<close>

theorem gate_never_overflows:
  fixes max_connections max_per_address max_penalised :: nat
  shows "let g = fold gate_step ops (new_gate max_connections max_per_address penalty_seconds penalty_max max_penalised) in
     gt_total g = sum_list (map snd (gt_open g)) \<and> gt_total g \<le> max_connections \<and> list_all (\<lambda>(a, n). n \<le> max_per_address) (gt_open g)
     \<and> length (gt_penalty g) \<le> max_penalised \<and> list_all (\<lambda>(a, until, n). (until, a) \<in> set (gt_order g)) (gt_penalty g)
     \<and> length (gt_order g) \<le> 2 * (length (gt_penalty g) + 16)"
proof -
  let ?fresh = "new_gate max_connections max_per_address penalty_seconds penalty_max max_penalised"
  have "gate_ok ?fresh" by (simp add: gate_ok_def new_gate_def open_total_def box_ok_def)
  from gate_fold_ok [OF this, of ops] show ?thesis
    by (auto simp: Let_def gate_ok_def open_total_def box_ok_def list_all_iff new_gate_def)
qed

section \<open>Where the penalty box ends\<close>

text \<open>One address offends at given times; the gate after the offences that were recorded.\<close>

fun offend :: "string \<Rightarrow> rat list \<Rightarrow> gate \<Rightarrow> gate" where
  "offend a [] g = g"
| "offend a (now # ts) g = offend a ts (snd (penalise now a g))"

lemma sweep_box_alone: "now < u \<Longrightarrow> 1 \<le> mx \<Longrightarrow> snd (sweep_box now mx order [(a, u, n)]) = [(a, u, n)]"
  by (induction order) auto

definition only_offender :: "string \<Rightarrow> nat \<Rightarrow> gate \<Rightarrow> bool" where
  "only_offender a n g = (0 < gt_penalty_seconds g \<and> 0 < gt_penalty_max g \<and> 1 \<le> gt_max_penalised g
     \<and> (if n = 0 then gt_penalty g = [] else \<exists>u. gt_penalty g = [(a, u, n)]))"

lemma offend_once:
  assumes "only_offender a n g" "n < 1024"
  shows "only_offender a (Suc n) (snd (penalise now a g))" "fst (penalise now a g) = Inr (min (gt_penalty_max g) (gt_penalty_seconds g * 2 ^ n))"
    "\<exists>u. gt_penalty (snd (penalise now a g)) = [(a, u, Suc n)] \<and> u \<le> now + gt_penalty_max g"
proof -
  let ?wait = "min (gt_penalty_max g) (gt_penalty_seconds g * 2 ^ n)"
  have pos: "0 < ?wait" using assms(1) by (simp add: only_offender_def)
  have strikes: "(case map_of (gt_penalty g) a of None \<Rightarrow> 0 | Some (_, k) \<Rightarrow> k) = n" "AList.update a (now + ?wait, Suc n) (gt_penalty g) = [(a, now + ?wait, Suc n)]"
    using assms(1) by (auto simp: only_offender_def split: if_splits)
  show "fst (penalise now a g) = Inr ?wait" using assms(2) by (simp add: penalise_def strikes Let_def)
  let ?g = "g\<lparr>gt_penalty := [(a, now + ?wait, Suc n)], gt_order := insort (now + ?wait, a) (gt_order g)\<rparr>"
  have "snd (penalise now a g) = sweep_gate now ?g" using assms(2) by (simp add: penalise_def strikes Let_def)
  moreover have "gt_penalty (sweep_gate now ?g) = [(a, now + ?wait, Suc n)]"
    using sweep_box_alone [of now "now + ?wait" "gt_max_penalised g" "gt_order ?g" a "Suc n"] pos assms(1)
    by (auto simp: sweep_gate_def only_offender_def split: prod.split)
  ultimately show "only_offender a (Suc n) (snd (penalise now a g))" "\<exists>u. gt_penalty (snd (penalise now a g)) = [(a, u, Suc n)] \<and> u \<le> now + gt_penalty_max g"
    using assms(1) by (auto simp: only_offender_def sweep_gate_same)
qed

lemma offend_counts: "only_offender a n g \<Longrightarrow> n + length ts \<le> 1024 \<Longrightarrow> only_offender a (n + length ts) (offend a ts g)"
proof (induction ts arbitrary: n g)
  case (Cons now ts)
  have "only_offender a (Suc n) (snd (penalise now a g))" using offend_once(1) [OF Cons.prems(1)] Cons.prems(2) by simp
  from Cons.IH [OF this] Cons.prems(2) show ?case by simp
qed simp

text \<open>C39: The penalty box gives up. An address that has offended 1024 times, at any times, while nobody else
  did is never penalised again: the next offence raises \<open>OverflowError\<close> and changes nothing, so once
  the wait it already has is over it is admitted for as long as it goes on offending.\<close>

theorem penalty_box_gives_up:
  assumes "length ts = 1023" "0 < penalty_seconds" "0 < penalty_max" "0 < max_penalised" "0 < max_connections" "0 < max_per_address"
  shows "let g = offend a (ts @ [t]) (new_gate max_connections max_per_address penalty_seconds penalty_max max_penalised) in
     penalise now a g = (Inl OverflowError, g) \<and> (t + penalty_max \<le> now \<longrightarrow> fst (admit now a g) = Inr ())"
proof -
  let ?fresh = "new_gate max_connections max_per_address penalty_seconds penalty_max max_penalised"
  have "only_offender a 0 ?fresh" using assms by (simp add: only_offender_def new_gate_def)
  then have o: "only_offender a 1023 (offend a ts ?fresh)" using offend_counts [of a 0 ?fresh ts] assms(1) by simp
  have snoc: "offend a (ts @ [t]) g = snd (penalise t a (offend a ts g))" for g by (induction ts arbitrary: g) simp_all
  have same: "gt_open (offend a ts g) = gt_open g \<and> gt_total (offend a ts g) = gt_total g \<and> gt_max_connections (offend a ts g) = gt_max_connections g
      \<and> gt_max_per_address (offend a ts g) = gt_max_per_address g \<and> gt_penalty_max (offend a ts g) = gt_penalty_max g" for ts g
    by (induction ts arbitrary: g) (simp_all add: penalise_def Let_def sweep_gate_same)
  obtain u where u: "gt_penalty (offend a (ts @ [t]) ?fresh) = [(a, u, 1024)]" "u \<le> t + penalty_max"
    using offend_once(1,3) [OF o, of t] same [of ts ?fresh] by (auto simp: snoc only_offender_def new_gate_def)
  have "penalise now a (offend a (ts @ [t]) ?fresh) = (Inl OverflowError, offend a (ts @ [t]) ?fresh)" by (simp add: penalise_def u(1) Let_def)
  moreover have "fst (admit now a (offend a (ts @ [t]) ?fresh)) = Inr ()" if "t + penalty_max \<le> now"
    using that u assms(5,6) same [of "ts @ [t]" ?fresh] by (simp add: admit_def held_by_def new_gate_def Let_def)
  ultimately show ?thesis by (simp add: Let_def)
qed

theorem penalty_box_gives_up_witness:
  "let g = offend ''x'' (replicate 1023 0 @ [0]) (new_gate 256 24 2 60 4096) in
     penalise 60 ''x'' g = (Inl OverflowError, g) \<and> fst (admit 60 ''x'' g) = Inr ()"
  using penalty_box_gives_up [of "replicate 1023 0" 2 60 4096 256 24 "''x''" 0 60] by (simp add: Let_def)

end
