(* ===== verification/Mesh.thy ===== *)
theory Mesh
  imports Doors
begin

text \<open>
  The transport of a seat (\<open>chain/net/peer.py\<close>): what a node says when it dials, what it sends
  sealed, and the reading loop of one accepted connection, where the frames, the handshake, the
  seals, the meter, the gate and the deadlines meet.

  Modelled with a signer and a roster, as every node has; a bare \<open>Mesh\<close> that believes what a
  connection says is not. The clock, the epoch and the answers of the node are functions of how
  often they have been asked (\<open>surroundings\<close>); sockets are what they delivered (\<open>arrival\<close>) and
  whether they took a write. The lemmas show who is heard: a message only a seat may send is
  delivered only if it was sealed by the seat's own key for the session its hello opened.
\<close>

section \<open>State\<close>

definition PROTOCOL_VERSION :: int where "PROTOCOL_VERSION = 1"
definition MAX_HELLOS :: nat where "MAX_HELLOS = 4"

type_synonym msg = "(pyval \<times> pyval) list"

record surroundings =
  su_prims :: prims
  su_limit :: nat
  su_parse :: "bytes \<Rightarrow> int option"
  su_tick :: "nat \<Rightarrow> rat"
  su_epoch :: "nat \<Rightarrow> int"
  su_request :: "nat \<Rightarrow> msg \<Rightarrow> (string \<times> pyval) option"

record mesh =
  me_node_id :: string
  me_chain_id :: string
  me_peers :: "(string \<times> string \<times> int) list"
  me_handshake :: verifier
  me_limiter :: "limiter option"
  me_gate :: gate
  me_idle_seconds :: rat
  me_partial_seconds :: rat
  me_last_refusal :: "rate_limit option"
  me_unsealed :: nat
  me_out :: "string list"
  me_sealers :: "(string \<times> sealer) list"
  me_inbox :: "(string \<times> msg) list"
  me_asked :: nat

text \<open>What \<open>reply\<close> is given to write: an answer of the node, or a refusal and the last reason for one.\<close>

datatype reply = Answer string pyval | Refused string "rate_limit option"

text \<open>The locals of \<open>_read_loop\<close>, and the replies written to the connection.\<close>

record conn =
  co_source :: string
  co_who :: "string option"
  co_hellos :: nat
  co_seal :: "seal_check option"
  co_reader :: reader
  co_clock :: deadlines
  co_replies :: "reply list"

section \<open>Dialling and sending\<close>

definition hello_for :: "prims \<Rightarrow> (bytes \<Rightarrow> string) \<Rightarrow> int \<Rightarrow> string \<Rightarrow> string \<Rightarrow> mesh \<Rightarrow> exn + pyval \<times> mesh" where
  "hello_for P sign epoch nonce peer me =
     bindR (build_hello P sign (me_chain_id me) (me_node_id me) peer epoch nonce PROTOCOL_VERSION) (\<lambda>hello.
     bindR (session_id P (me_chain_id me) (me_node_id me) peer epoch nonce) (\<lambda>session.
       Inr (VDict hello, me\<lparr>me_sealers := AList.update peer \<lparr>sl_session = session, sl_seq = 0\<rparr> (me_sealers me)\<rparr>)))"

text \<open>One turn of \<open>_dial_loop\<close> whose connection was made: what it writes, and whether the write was taken.\<close>

definition dial :: "prims \<Rightarrow> (bytes \<Rightarrow> string) \<Rightarrow> int \<Rightarrow> string \<Rightarrow> bool \<Rightarrow> string \<Rightarrow> mesh \<Rightarrow> (exn + bytes) \<times> mesh" where
  "dial P sign epoch nonce taken peer me =
     (case hello_for P sign epoch nonce peer me of
        Inl e \<Rightarrow> (Inl e, me)
      | Inr (hello, me1) \<Rightarrow>
          let res = fst (pack P sign None ''hello'' (me_chain_id me) hello (- 1)) in
          (res, if taken \<and> \<not> isl res then me1\<lparr>me_out := List.insert peer (me_out me1)\<rparr> else me1))"

definition send :: "prims \<Rightarrow> (bytes \<Rightarrow> string) \<Rightarrow> bool \<Rightarrow> string \<Rightarrow> string \<Rightarrow> pyval \<Rightarrow> int \<Rightarrow> mesh \<Rightarrow> (exn + bytes option) \<times> mesh" where
  "send P sign taken peer kind payload epoch me =
     (if peer \<notin> set (me_out me) then (Inr None, me)
      else let (res, sl) = pack P sign (map_of (me_sealers me) peer) kind (me_chain_id me) payload epoch;
               me1 = (case sl of None \<Rightarrow> me | Some s \<Rightarrow> me\<lparr>me_sealers := AList.update peer s (me_sealers me)\<rparr>) in
        case res of
          Inl e \<Rightarrow> (if e = FrameError then Inr None else Inl e, me1)
        | Inr blob \<Rightarrow> if taken then (Inr (Some blob), me1) else (Inr None, me1\<lparr>me_out := removeAll peer (me_out me1)\<rparr>))"

text \<open>\<open>learn\<close>: what it does to the dial list, and whether it did.\<close>

definition learn :: "string \<Rightarrow> string \<Rightarrow> int \<Rightarrow> mesh \<Rightarrow> bool \<times> mesh" where
  "learn peer host port me =
     (if peer = [] \<or> peer = me_node_id me then (False, me)
      else case map_of (me_peers me) peer of
        None \<Rightarrow> (True, me\<lparr>me_peers := AList.update peer (host, port) (me_peers me)\<rparr>)
      | Some place \<Rightarrow> if place = (host, port) \<or> peer \<in> set (me_out me) then (False, me)
                   else (True, me\<lparr>me_peers := AList.update peer (host, port) (me_peers me)\<rparr>))"

section \<open>Reading\<close>

definition seated :: "string option \<Rightarrow> bool" where
  "seated who = (who \<noteq> None)"

text \<open>Every reading of the clock, the epoch or the node is another one.\<close>

definition asked :: "mesh \<Rightarrow> mesh" where
  "asked me = me\<lparr>me_asked := me_asked me + 1\<rparr>"

definition afford :: "surroundings \<Rightarrow> source \<Rightarrow> string \<Rightarrow> bool \<Rightarrow> nat \<Rightarrow> mesh \<Rightarrow> exn + bool \<times> mesh" where
  "afford su source kind peer nbytes me =
     (case me_limiter me of
        None \<Rightarrow> Inr (True, me)
      | Some lm \<Rightarrow>
          bindR (check_limit source kind peer (su_tick su (me_asked me)) nbytes lm) (\<lambda>(res, lm1).
            let me1 = (asked me)\<lparr>me_limiter := Some lm1\<rparr> in
            case res of Inr _ \<Rightarrow> Inr (True, me1) | Inl why \<Rightarrow> Inr (False, me1\<lparr>me_last_refusal := Some why\<rparr>)))"

definition keyspace :: "conn \<Rightarrow> source" where
  "keyspace co = (case co_who co of Some who \<Rightarrow> (''peer'', who) | None \<Rightarrow> (''client'', co_source co))"

text \<open>The handshake has just accepted this hello, so its epoch is an \<open>int\<close> and its nonce a \<open>str\<close>.\<close>

definition seal_check_for :: "prims \<Rightarrow> string \<Rightarrow> msg \<Rightarrow> mesh \<Rightarrow> exn + seal_check option" where
  "seal_check_for P who hello me =
     (case map_of (vf_validators (me_handshake me)) who of
        None \<Rightarrow> Inr None
      | Some public_hex \<Rightarrow>
          (case (as_int (dict_or_none ''epoch'' hello), dict_or_none ''nonce'' hello) of
             (Some epoch, VStr nonce) \<Rightarrow>
               (case session_id P (me_chain_id me) who (me_node_id me) epoch nonce of
                  Inl e \<Rightarrow> if e = TypeError \<or> e = ValueError then Inr None else Inl e
                | Inr session \<Rightarrow> Inr (Some (new_seal_check session public_hex)))
           | _ \<Rightarrow> Inr None))"

definition greet :: "surroundings \<Rightarrow> pyval \<Rightarrow> mesh \<Rightarrow> (exn + string option) \<times> mesh" where
  "greet su payload me =
     (case claims_a_seat (me_handshake me) payload of
        Inl e \<Rightarrow> (Inl e, me)
      | Inr False \<Rightarrow> (Inr None, me)
      | Inr True \<Rightarrow>
          (case check_hello (su_prims su) (su_epoch su (me_asked me)) (su_epoch su (me_asked me + 1)) payload (me_handshake me) of
             Inl e \<Rightarrow> (Inl e, me)
           | Inr (res, vf) \<Rightarrow>
               ((case res of Inl _ \<Rightarrow> Inl FrameError | Inr who \<Rightarrow> Inr (Some who)), (asked (asked me))\<lparr>me_handshake := vf\<rparr>)))"

text \<open>\<open>msg["payload"] or {}\<close>.\<close>

definition or_empty :: "pyval \<Rightarrow> pyval" where
  "or_empty v = (if v \<in> {VNone, VBool False, VInt 0, VStr [], VBytes [], VTuple [], VList []} then VDict [] else v)"

definition dict_of :: "pyval \<Rightarrow> msg" where
  "dict_of v = (case v of VDict d \<Rightarrow> d | _ \<Rightarrow> [])"

text \<open>A frame of kind \<open>hello\<close>. A seated peer's hello is a mapping, since the handshake accepted it.\<close>

definition on_hello :: "surroundings \<Rightarrow> msg \<Rightarrow> mesh \<Rightarrow> conn \<Rightarrow> (exn + unit) \<times> mesh \<times> conn" where
  "on_hello su msg me co =
     (let co1 = co\<lparr>co_hellos := co_hellos co + 1\<rparr> in
      if MAX_HELLOS < co_hellos co1 then (Inl FrameError, me, co1)
      else case (if 1 < co_hellos co1 then afford su (''hello'', co_source co) ''hello'' False 0 me else Inr (True, me)) of
        Inl e \<Rightarrow> (Inl e, me, co1)
      | Inr (False, me1) \<Rightarrow> (Inr (), me1, co1)
      | Inr (True, me1) \<Rightarrow>
          let payload = or_empty (dict_or_none ''payload'' msg) in
          (case greet su payload me1 of
             (Inl e, me2) \<Rightarrow> (Inl e, me2, co1)
           | (Inr None, me2) \<Rightarrow> (Inr (), me2, co1\<lparr>co_who := None\<rparr>)
           | (Inr (Some who), me2) \<Rightarrow>
               let co2 = co1\<lparr>co_who := Some who, co_reader := (co_reader co1)\<lparr>rd_max := MAX_FRAME\<rparr>\<rparr> in
               (case seal_check_for (su_prims su) who (dict_of payload) me2 of
                  Inl e \<Rightarrow> (Inl e, me2, co2)
                | Inr seal \<Rightarrow> (Inr (), me2, co2\<lparr>co_seal := seal\<rparr>))))"

text \<open>The check of a seal, when the connection has a seat and a session.\<close>

definition on_seal :: "surroundings \<Rightarrow> msg \<Rightarrow> mesh \<Rightarrow> conn \<Rightarrow> (exn + unit) \<times> mesh \<times> conn" where
  "on_seal su msg me co =
     (case (co_who co, co_seal co) of
        (Some _, Some sc) \<Rightarrow>
          (case seal_of (su_prims su) msg of
             Inl e \<Rightarrow> (Inl e, me, co)
           | Inr (seq, signature, digest) \<Rightarrow>
               (case check_seal (su_prims su) (su_parse su) seq signature digest sc of
                  (Inl _, sc') \<Rightarrow> (Inl FrameError, me\<lparr>me_unsealed := me_unsealed me + 1\<rparr>, co\<lparr>co_seal := Some sc'\<rparr>)
                | (Inr _, sc') \<Rightarrow> (Inr (), me, co\<lparr>co_seal := Some sc'\<rparr>)))
      | _ \<Rightarrow> (Inr (), me, co))"

text \<open>Who a message comes from, in the inbox.\<close>

definition sender_name :: "string option \<Rightarrow> string" where
  "sender_name who = (case who of None \<Rightarrow> ''?'' | Some name \<Rightarrow> if name = [] then ''?'' else name)"

definition deliver :: "surroundings \<Rightarrow> string \<Rightarrow> msg \<Rightarrow> mesh \<Rightarrow> conn \<Rightarrow> (exn + unit) \<times> mesh \<times> conn" where
  "deliver su kind msg me co =
     (case afford su (keyspace co) kind (seated (co_who co)) 0 me of
        Inl e \<Rightarrow> (Inl e, me, co)
      | Inr (False, me1) \<Rightarrow>
          (Inr (), me1, if kind \<in> set CLIENT_KINDS then co\<lparr>co_replies := co_replies co @ [Refused kind (me_last_refusal me1)]\<rparr> else co)
      | Inr (True, me1) \<Rightarrow>
          if kind \<in> set CLIENT_KINDS
          then (Inr (), asked me1, case su_request su (me_asked me1) msg of None \<Rightarrow> co | Some (k, payload) \<Rightarrow> co\<lparr>co_replies := co_replies co @ [Answer k payload]\<rparr>)
          else (Inr (), me1\<lparr>me_inbox := me_inbox me1 @ [(sender_name (co_who co), msg)]\<rparr>, co))"

definition kind_of :: "msg \<Rightarrow> string" where
  "kind_of msg = (case dict_or_none ''kind'' msg of VStr k \<Rightarrow> k | _ \<Rightarrow> [])"

definition on_frame :: "surroundings \<Rightarrow> msg \<Rightarrow> mesh \<Rightarrow> conn \<Rightarrow> (exn + unit) \<times> mesh \<times> conn" where
  "on_frame su msg me co =
     (if kind_of msg = ''hello'' then on_hello su msg me co
      else case on_seal su msg me co of
        (Inl e, me1, co1) \<Rightarrow> (Inl e, me1, co1)
      | (Inr _, me1, co1) \<Rightarrow>
          if \<not> seated (co_who co1) \<and> kind_of msg \<notin> set OPEN_KINDS then (Inl FrameError, me1, co1)
          else deliver su (kind_of msg) msg me1 co1)"

text \<open>The size a reader hands to its gate: that of the body it is about to take off the buffer.\<close>

definition announced :: "reader \<Rightarrow> nat option" where
  "announced r =
     (let buf = rd_buf r in
      if length buf < length MAGIC + 1 \<or> take (length MAGIC) buf \<noteq> MAGIC \<or> buf ! length MAGIC \<noteq> VERSION then None
      else case get_uint (drop (length MAGIC + 1) buf) of
        Inl _ \<Rightarrow> None
      | Inr (n, rest) \<Rightarrow> if rd_max r < n \<or> length rest < n then None else Some n)"

text \<open>\<open>reader._take()\<close> with the gate of the connection, which pays for the bytes of the frame.\<close>

definition take_paid :: "surroundings \<Rightarrow> mesh \<Rightarrow> conn \<Rightarrow> (exn + taken) \<times> mesh \<times> conn" where
  "take_paid su me co =
     (let paid = (case announced (co_reader co) of None \<Rightarrow> Inr (True, me)
                  | Some n \<Rightarrow> afford su (keyspace co) ''frame'' (seated (co_who co)) n me) in
      case paid of
        Inl e \<Rightarrow> (Inl e, me, co)
      | Inr (ok, me1) \<Rightarrow>
          (case take_frame (su_limit su) (Some (\<lambda>_. ok)) (co_reader co) of
             Inl e \<Rightarrow> (Inl e, me1, co)
           | Inr (t, r) \<Rightarrow> (Inr t, me1, co\<lparr>co_reader := r\<rparr>)))"

lemma on_frame_buf: "rd_buf (co_reader (snd (snd (on_frame su msg me co)))) = rd_buf (co_reader co)"
proof -
  have "rd_buf (co_reader (snd (snd (on_hello su msg me co)))) = rd_buf (co_reader co)"
    unfolding on_hello_def Let_def by (simp split: sum.split prod.split bool.split option.split)
  moreover have seal: "co_reader (snd (snd (on_seal su msg me co))) = co_reader co"
    by (simp add: on_seal_def split: sum.split prod.split option.split)
  moreover have "co_reader (snd (snd (deliver su kind msg me' co'))) = co_reader co'" for kind me' co'
    by (simp add: deliver_def split: sum.split prod.split option.split bool.split)
  ultimately show ?thesis unfolding on_frame_def by (auto split: sum.split prod.split)
qed

lemma on_frame_same_buf: "on_frame su msg me co = (res, me1, co1) \<Longrightarrow> rd_buf (co_reader co1) = rd_buf (co_reader co)"
  using on_frame_buf [of su msg me co] by simp

lemma take_paid_shrinks: "take_paid su me co = (Inr t, me1, co1) \<Longrightarrow> t \<noteq> NotYet \<Longrightarrow> length (rd_buf (co_reader co1)) < length (rd_buf (co_reader co))"
  by (auto simp: take_paid_def Let_def dest: take_frame_shrinks split: sum.splits prod.splits)

text \<open>The loop over \<open>reader.feed\<close>: whether a message came out of it.\<close>

function (sequential) serve :: "surroundings \<Rightarrow> bool \<Rightarrow> mesh \<Rightarrow> conn \<Rightarrow> (exn + bool) \<times> mesh \<times> conn" where
  "serve su had me co =
     (case take_paid su me co of
        (Inl e, me1, co1) \<Rightarrow> (Inl e, me1, co1)
      | (Inr NotYet, me1, co1) \<Rightarrow> (Inr had, me1, co1)
      | (Inr Skipped, me1, co1) \<Rightarrow> serve su had me1 co1
      | (Inr (Frame msg), me1, co1) \<Rightarrow>
          (case on_frame su msg (asked me1) (co1\<lparr>co_clock := saw_frame (su_tick su (me_asked me1)) (co_clock co1)\<rparr>) of
             (Inl e, me2, co2) \<Rightarrow> (Inl e, me2, co2)
           | (Inr _, me2, co2) \<Rightarrow> serve su True me2 co2))"
  by pat_completeness auto
termination
  by (relation "measure (\<lambda>(_, _, _, co). length (rd_buf (co_reader co)))")
    (auto dest!: take_paid_shrinks [OF sym] on_frame_same_buf [OF sym])

declare serve.simps [simp del]

text \<open>One turn of the loop around \<open>conn.recv\<close>: bytes, a second without any, or the end.\<close>

datatype arrival = Chunk bytes | Quiet | Gone

datatype ending = Broke | Raised exn

definition on_arrival :: "surroundings \<Rightarrow> arrival \<Rightarrow> mesh \<Rightarrow> conn \<Rightarrow> ending option \<times> mesh \<times> conn" where
  "on_arrival su arrival me co =
     (case arrival of
        Gone \<Rightarrow> (Some Broke, me, co)
      | Quiet \<Rightarrow> (if expired (su_tick su (me_asked me)) (co_clock co) then Some Broke else None, asked me, co)
      | Chunk data \<Rightarrow>
          if data = [] then (Some Broke, me, co)
          else let r = co_reader co;
                   co1 = co\<lparr>co_clock := saw_data (su_tick su (me_asked me)) (co_clock co), co_reader := r\<lparr>rd_buf := rd_buf r @ data\<rparr>\<rparr> in
            (case serve su False (asked me) co1 of
               (Inl e, me1, co2) \<Rightarrow> (Some (Raised e), me1, co2)
             | (Inr had, me1, co2) \<Rightarrow>
                 if \<not> had \<and> 0 < buffered (co_reader co2)
                 then (None, asked me1, co2\<lparr>co_clock := saw_partial (su_tick su (me_asked me1)) (co_clock co2)\<rparr>)
                 else (None, me1, co2)))"

text \<open>The handlers of the loop: a frame that breaks the protocol buys its address a wait, and however the
  connection ended its place is free. The outcome is the exception that leaves the thread.\<close>

definition end_connection :: "surroundings \<Rightarrow> ending \<Rightarrow> mesh \<Rightarrow> conn \<Rightarrow> exn option \<times> mesh" where
  "end_connection su how me co =
     (let (leaves, me1) =
        (case how of
           Broke \<Rightarrow> (None, me)
         | Raised e \<Rightarrow>
             if e = FrameError
             then (case penalise (su_tick su (me_asked me)) (co_source co) (me_gate me) of
                     (Inl e', g) \<Rightarrow> (Some e', (asked me)\<lparr>me_gate := g\<rparr>)
                   | (Inr _, g) \<Rightarrow> (None, (asked me)\<lparr>me_gate := g\<rparr>))
             else (Some e, me))
      in (leaves, me1\<lparr>me_gate := release (co_source co) (me_gate me1)\<rparr>))"

fun read_loop :: "surroundings \<Rightarrow> arrival list \<Rightarrow> mesh \<Rightarrow> conn \<Rightarrow> ending option \<times> mesh \<times> conn" where
  "read_loop su [] me co = (None, me, co)"
| "read_loop su (a # arrivals) me co =
     (case on_arrival su a me co of
        (None, me1, co1) \<Rightarrow> read_loop su arrivals me1 co1
      | (Some how, me1, co1) \<Rightarrow> (Some how, snd (end_connection su how me1 co1), co1))"

definition new_conn :: "surroundings \<Rightarrow> string \<Rightarrow> mesh \<Rightarrow> conn" where
  "new_conn su source me =
     \<lparr>co_source = source, co_who = None, co_hellos = 0, co_seal = None, co_reader = new_reader (Some (me_chain_id me)) CLIENT_MAX_FRAME,
      co_clock = new_deadlines (me_idle_seconds me) (me_partial_seconds me) (su_tick su (me_asked me)), co_replies = []\<rparr>"

text \<open>\<open>_accept_loop\<close> for one connection: whether a thread reads from it, from which state.\<close>

definition accept_from :: "surroundings \<Rightarrow> string \<Rightarrow> mesh \<Rightarrow> conn option \<times> mesh" where
  "accept_from su source me =
     (case admit (su_tick su (me_asked me)) source (me_gate me) of
        (Inl _, g) \<Rightarrow> (None, (asked me)\<lparr>me_gate := g\<rparr>)
      | (Inr _, g) \<Rightarrow> let me1 = (asked me)\<lparr>me_gate := g\<rparr> in (Some (new_conn su source me1), asked me1))"

section \<open>Who is heard\<close>

lemma join_prefixed_error: "join_prefixed rs = Inl e \<Longrightarrow> \<forall>r\<in>set rs. \<forall>e. r = Inl e \<longrightarrow> e = OverflowError \<Longrightarrow> e = OverflowError"
  by (induction rs) (auto simp: bindR_eq_Inl len_prefixed_def split: if_splits)

lemma encode_part_error: "encode_part p = Inl e \<Longrightarrow> e = OverflowError"
proof (induction p arbitrary: e)
  case (PList ps)
  then show ?case by (auto simp: bindR_eq_Inl dest!: join_prefixed_error)
qed simp_all

lemma h_bytes_error: "h_bytes P tag parts len = Inl e \<Longrightarrow> e = OverflowError"
  unfolding h_bytes_def h_preimage_def
  by (auto simp: bindR_eq_Inl len_prefixed_def dest!: join_prefixed_error dest: encode_part_error encode_part_error [OF sym] split: if_splits)

text \<open>A hello of the roster key of \<open>who\<close> that opened the session \<open>session\<close> with this node.\<close>

definition opened :: "prims \<Rightarrow> mesh \<Rightarrow> string \<Rightarrow> string \<Rightarrow> string \<Rightarrow> bool" where
  "opened P me who public_hex session =
     (map_of (vf_validators (me_handshake me)) who = Some public_hex
      \<and> (\<exists>epoch nonce protocol sig. session_id P (me_chain_id me) who (me_node_id me) epoch nonce = Inr session
          \<and> verify_msg P public_hex (hello_message P (vf_chain_id (me_handshake me)) who (vf_node_id (me_handshake me)) epoch nonce protocol) sig))"

text \<open>A message the owner of that key sealed for that session.\<close>

definition sealed_by :: "prims \<Rightarrow> mesh \<Rightarrow> string \<Rightarrow> msg \<Rightarrow> bool" where
  "sealed_by P me name msg =
     (\<exists>who public_hex session n seq digest s. name = sender_name (Some who) \<and> opened P me who public_hex session
        \<and> seal_of P msg = Inr (seq, VStr s, digest) \<and> verify_msg P public_hex (frame_message P session n digest) s)"

definition same_mesh :: "mesh \<Rightarrow> mesh \<Rightarrow> bool" where
  "same_mesh me me' = (same_door (me_handshake me) (me_handshake me') \<and> me_chain_id me' = me_chain_id me \<and> me_node_id me' = me_node_id me)"

definition conn_ok :: "prims \<Rightarrow> mesh \<Rightarrow> conn \<Rightarrow> bool" where
  "conn_ok P me co = (\<forall>who. co_who co = Some who \<longrightarrow> (\<exists>sc. co_seal co = Some sc \<and> opened P me who (sc_public_hex sc) (sc_session sc)))"

lemma same_mesh_refl [simp]: "same_mesh me me"
  by (simp add: same_mesh_def same_door_def)

lemma same_mesh_trans: "same_mesh a b \<Longrightarrow> same_mesh b c \<Longrightarrow> same_mesh a c"
  by (simp add: same_mesh_def same_door_def)

lemma opened_same: "same_mesh a b \<Longrightarrow> opened P b = opened P a"
  by (intro ext) (simp add: opened_def same_mesh_def same_door_def)

lemma conn_ok_same: "same_mesh a b \<Longrightarrow> conn_ok P b = conn_ok P a"
  by (intro ext) (simp add: conn_ok_def opened_same)

lemma asked_same [simp]: "same_mesh me (asked me)" "me_inbox (asked me) = me_inbox me" "me_handshake (asked me) = me_handshake me"
    "me_chain_id (asked me) = me_chain_id me" "me_node_id (asked me) = me_node_id me"
  by (simp_all add: asked_def same_mesh_def same_door_def)

lemma afford_same:
  assumes "afford su src kind peer n me = Inr (ok, me')"
  shows "same_mesh me me' \<and> me_inbox me' = me_inbox me \<and> me_handshake me' = me_handshake me
    \<and> me_chain_id me' = me_chain_id me \<and> me_node_id me' = me_node_id me"
proof (cases "me_limiter me")
  case None
  then show ?thesis using assms by (simp add: afford_def)
next
  case (Some lm)
  note a = assms
  then obtain res lm1 where c: "check_limit src kind peer (su_tick su (me_asked me)) n lm = Inr (res, lm1)" by (auto simp: afford_def Some)
  then show ?thesis using a by (cases res) (auto simp: afford_def Some asked_def Let_def same_mesh_def same_door_def)
qed

lemma swept_same: "swept now vf vf' \<Longrightarrow> same_door vf vf'"
  by (simp add: swept_def)

lemma remember_same: "same_door vf (remember_nonce key epoch now vf)"
  by (simp add: remember_nonce_def sweep_seen_def same_door_def Let_def)

lemma check_hello_door:
  assumes "check_hello P now now2 payload vf = Inr (res, vf')"
  shows "same_door vf vf'"
proof -
  have full: "same_door vf (snd (seen_full now2 vf))" using seen_full_swept [of now2 vf] by (cases "seen_full now2 vf") (auto dest: swept_same)
  from check_hello_shape [OF assms] show ?thesis
  proof
    assume "\<exists>e. res = Inl e \<and> (vf' = counted vf \<or> vf' = counted (snd (seen_full now2 vf)))"
    then show ?thesis using full by (auto simp: counted_def same_door_def)
  next
    assume "\<exists>c. res = Inr c \<and> admitted P now now2 payload vf c vf'"
    then show ?thesis using full remember_same unfolding admitted_def by (fastforce simp: same_door_def Let_def)
  qed
qed

lemma greet_same:
  assumes "greet su payload me = (res, me')"
  shows "same_mesh me me' \<and> me_inbox me' = me_inbox me"
  using assms check_hello_door
  by (auto simp: greet_def same_mesh_def same_door_def asked_def split: sum.splits bool.splits prod.splits) 

lemma greet_opens:
  assumes "greet su payload me = (Inr (Some who), me')" "seal_check_for (su_prims su) who (dict_of payload) me' = Inr seal"
  shows "\<exists>sc. seal = Some sc \<and> opened (su_prims su) me who (sc_public_hex sc) (sc_session sc)"
proof -
  obtain now now2 where c: "check_hello (su_prims su) now now2 payload (me_handshake me) = Inr (Inr who, me_handshake me')"
    "me_chain_id me' = me_chain_id me" "me_node_id me' = me_node_id me"
    using assms(1) by (auto simp: greet_def split: sum.splits bool.splits prod.splits)
  then obtain d nonce epoch public_hex sig where a: "payload = VDict d" "hello_key who payload = Some (who, nonce, epoch)"
      "map_of (vf_validators (me_handshake me)) who = Some public_hex"
      "verify_msg (su_prims su) public_hex (hello_message (su_prims su) (vf_chain_id (me_handshake me)) who (vf_node_id (me_handshake me)) epoch nonce (protocol_of d)) sig"
    using check_hello_shape [OF c(1)] unfolding admitted_def by blast
  have n: "as_int (dict_or_none ''epoch'' d) = Some epoch" "dict_or_none ''nonce'' d = VStr nonce"
    using a(1,2) by (auto simp: hello_key_def split: pyval.splits option.splits)
  have v: "map_of (vf_validators (me_handshake me')) who = Some public_hex" using check_hello_door [OF c(1)] a(3) by (simp add: same_door_def)
  show ?thesis
  proof (cases "session_id (su_prims su) (me_chain_id me) who (me_node_id me) epoch nonce")
    case (Inl e)
    then have "e = OverflowError" by (auto simp: session_id_def bindR_eq_Inl dest: h_bytes_error)
    then show ?thesis using assms(2) v n Inl c(2,3) by (simp add: seal_check_for_def a(1) dict_of_def)
  next
    case (Inr session)
    then have "opened (su_prims su) me who public_hex session" using a(3,4) unfolding opened_def by blast
    then show ?thesis using assms(2) v n c(2,3) Inr by (auto simp: seal_check_for_def a(1) dict_of_def new_seal_check_def)
  qed
qed

definition hears :: "prims \<Rightarrow> mesh \<Rightarrow> mesh \<Rightarrow> bool" where
  "hears P me me' = (same_mesh me me' \<and> (\<exists>heard. me_inbox me' = me_inbox me @ heard
     \<and> (\<forall>(name, msg)\<in>set heard. kind_of msg \<in> set OPEN_KINDS \<or> sealed_by P me name msg)))"

lemma sealed_by_same: "same_mesh a b \<Longrightarrow> sealed_by P b = sealed_by P a"
  by (intro ext) (simp add: sealed_by_def opened_same)

lemma hears_quiet: "same_mesh me me' \<Longrightarrow> me_inbox me' = me_inbox me \<Longrightarrow> hears P me me'"
  by (simp add: hears_def)

lemma hears_trans:
  assumes "hears P a b" "hears P b c"
  shows "hears P a c"
proof -
  have ab: "same_mesh a b" and bc: "same_mesh b c" using assms by (simp_all add: hears_def)
  obtain h where h: "me_inbox b = me_inbox a @ h" "\<forall>(name, msg)\<in>set h. kind_of msg \<in> set OPEN_KINDS \<or> sealed_by P a name msg"
    using assms(1) by (auto simp: hears_def)
  obtain k where k: "me_inbox c = me_inbox b @ k" "\<forall>(name, msg)\<in>set k. kind_of msg \<in> set OPEN_KINDS \<or> sealed_by P a name msg"
    using assms(2) by (auto simp: hears_def sealed_by_same [OF ab])
  have "me_inbox c = me_inbox a @ (h @ k)" using h(1) k(1) by simp
  moreover have "\<forall>(name, msg)\<in>set (h @ k). kind_of msg \<in> set OPEN_KINDS \<or> sealed_by P a name msg" using h(2) k(2) by auto
  ultimately show ?thesis using same_mesh_trans [OF ab bc] unfolding hears_def by blast
qed

lemma on_hello_hears:
  assumes "on_hello su msg me co = (res, me', co')" "conn_ok (su_prims su) me co"
  shows "same_mesh me me' \<and> me_inbox me' = me_inbox me \<and> (res = Inr () \<longrightarrow> conn_ok (su_prims su) me co')"
proof (cases "MAX_HELLOS < co_hellos co + 1")
  case True
  then show ?thesis using assms(1) by (auto simp: on_hello_def Let_def)
next
  case few: False
  let ?paid = "if 1 < co_hellos co + 1 then afford su (''hello'', co_source co) ''hello'' False 0 me else Inr (True, me)"
  have known: "conn_ok (su_prims su) me (co\<lparr>co_hellos := n\<rparr>)" for n using assms(2) by (simp add: conn_ok_def)
  show ?thesis
  proof (cases ?paid)
    case (Inl e)
    then show ?thesis using assms(1) few by (auto simp: on_hello_def Let_def)
  next
    case (Inr p)
    obtain ok me1 where p: "p = (ok, me1)" by force
    have me1: "same_mesh me me1" "me_inbox me1 = me_inbox me" using Inr p afford_same by (auto split: if_splits)
    show ?thesis
    proof (cases ok)
      case False
      then show ?thesis using assms(1) few Inr p me1 known by (auto simp: on_hello_def Let_def)
    next
      case True
      let ?payload = "or_empty (dict_or_none ''payload'' msg)"
      obtain gr me2 where g: "greet su ?payload me1 = (gr, me2)" by force
      have me2: "same_mesh me me2" "me_inbox me2 = me_inbox me" using greet_same [OF g] me1 same_mesh_trans by auto
      show ?thesis
      proof (cases gr)
        case (Inl e)
        then show ?thesis using assms(1) few Inr p True g me2 by (auto simp: on_hello_def Let_def)
      next
        case w: (Inr who)
        show ?thesis
        proof (cases who)
          case None
          then show ?thesis using assms(1) few Inr p True g me2 w by (auto simp: on_hello_def Let_def conn_ok_def)
        next
          case (Some name)
          have opens: "\<exists>sc. seal = Some sc \<and> opened (su_prims su) me name (sc_public_hex sc) (sc_session sc)"
            if "seal_check_for (su_prims su) name (dict_of ?payload) me2 = Inr seal" for seal
            using greet_opens [of su ?payload me1 name me2 seal] g w Some that opened_same [OF me1(1)] by simp
          show ?thesis using assms(1) few Inr p True g me2 w Some opens
            by (auto simp: on_hello_def Let_def conn_ok_def split: sum.splits)
        qed
      qed
    qed
  qed
qed

lemma on_seal_hears:
  assumes "on_seal su msg me co = (res, me', co')" "conn_ok (su_prims su) me co"
  shows "same_mesh me me' \<and> me_inbox me' = me_inbox me \<and> co_who co' = co_who co \<and>
    (res = Inr () \<longrightarrow> conn_ok (su_prims su) me co' \<and> (\<forall>who. co_who co = Some who \<longrightarrow> sealed_by (su_prims su) me (sender_name (Some who)) msg))"
proof (cases "co_who co")
  case None
  then show ?thesis using assms(1) by (auto simp: on_seal_def conn_ok_def)
next
  case (Some who)
  then obtain sc where sc: "co_seal co = Some sc" "opened (su_prims su) me who (sc_public_hex sc) (sc_session sc)"
    using assms(2) by (auto simp: conn_ok_def)
  show ?thesis
  proof (cases "seal_of (su_prims su) msg")
    case (Inl e)
    then show ?thesis using assms(1) Some sc by (auto simp: on_seal_def)
  next
    case (Inr q)
    obtain seq signature digest where q: "q = (seq, signature, digest)" by (cases q)
    obtain cres sc' where c: "check_seal (su_prims su) (su_parse su) seq signature digest sc = (cres, sc')" by force
    show ?thesis
    proof (cases cres)
      case l: (Inl e)
      have "same_mesh me (me\<lparr>me_unsealed := n\<rparr>)" for n by (simp add: same_mesh_def same_door_def)
      then show ?thesis using assms(1) Some sc Inr q c l by (auto simp: on_seal_def)
    next
      case r: (Inr u)
      note res = check_seal_result [OF c]
      obtain s where s: "signature = VStr s"
        "verify_msg (su_prims su) (sc_public_hex sc) (frame_message (su_prims su) (sc_session sc) (sc_last_seq sc') digest) s"
        using res(2) r by auto
      have "seal_of (su_prims su) msg = Inr (seq, VStr s, digest)" using Inr q s(1) by simp
      then have "sealed_by (su_prims su) me (sender_name (Some who)) msg" using sc(2) s(2) unfolding sealed_by_def by blast
      then show ?thesis using assms(1) Some sc Inr q c r res(1) by (auto simp: on_seal_def conn_ok_def)
    qed
  qed
qed

lemma deliver_hears:
  assumes "deliver su kind msg me co = (res, me', co')" "kind = kind_of msg"
    "co_who co = None \<Longrightarrow> kind \<in> set OPEN_KINDS" "\<And>who. co_who co = Some who \<Longrightarrow> sealed_by P me (sender_name (Some who)) msg"
  shows "hears P me me' \<and> co_who co' = co_who co \<and> co_seal co' = co_seal co"
proof (cases "afford su (keyspace co) kind (seated (co_who co)) 0 me")
  case (Inl e)
  then show ?thesis using assms(1) by (auto simp: deliver_def hears_def)
next
  case (Inr p)
  obtain ok me1 where p: "p = (ok, me1)" by force
  have me1: "same_mesh me me1" "me_inbox me1 = me_inbox me" using Inr p afford_same by auto
  have same: "same_mesh me (asked me1)" using same_mesh_trans [OF me1(1)] by simp
  have heard: "hears P me (me1\<lparr>me_inbox := me_inbox me1 @ [(sender_name (co_who co), msg)]\<rparr>)"
    using me1 assms(2-4) by (cases "co_who co") (auto simp: hears_def same_mesh_def same_door_def)
  show ?thesis
    using assms(1) Inr p me1 same heard by (auto simp: deliver_def hears_quiet split: bool.splits if_splits option.splits prod.splits)
qed

lemma on_frame_hears:
  assumes "on_frame su msg me co = (res, me', co')" "conn_ok (su_prims su) me co"
  shows "hears (su_prims su) me me' \<and> (res = Inr () \<longrightarrow> conn_ok (su_prims su) me co')"
proof (cases "kind_of msg = ''hello''")
  case True
  then show ?thesis using assms on_hello_hears [of su msg me co res me' co'] by (auto simp: on_frame_def intro: hears_quiet)
next
  case False
  obtain sres me1 co1 where s: "on_seal su msg me co = (sres, me1, co1)" by (cases "on_seal su msg me co")
  note sl = on_seal_hears [OF s assms(2)]
  have q: "hears (su_prims su) me me1" using sl by (simp add: hears_quiet)
  show ?thesis
  proof (cases "\<exists>e. sres = Inl e")
    case True
    then show ?thesis using assms(1) False s q by (auto simp: on_frame_def)
  next
    case ok: False
    then have sres: "sres = Inr ()" by (cases sres) simp_all
    have same: "same_mesh me me1" using sl by simp
    show ?thesis
    proof (cases "\<not> seated (co_who co1) \<and> kind_of msg \<notin> set OPEN_KINDS")
      case True
      then show ?thesis using assms(1) False s q sres by (auto simp: on_frame_def)
    next
      case open_or: False
      have d: "deliver su (kind_of msg) msg me1 co1 = (res, me', co')" using assms(1) False s sres open_or by (auto simp: on_frame_def)
      have "hears (su_prims su) me1 me' \<and> co_who co' = co_who co1 \<and> co_seal co' = co_seal co1"
      proof (rule deliver_hears [OF d refl])
        show "co_who co1 = None \<Longrightarrow> kind_of msg \<in> set OPEN_KINDS" using open_or by (simp add: seated_def)
        show "co_who co1 = Some who \<Longrightarrow> sealed_by (su_prims su) me1 (sender_name (Some who)) msg" for who
          using sl sres by (simp add: sealed_by_same [OF same])
      qed
      moreover have "conn_ok (su_prims su) me co1" using sl sres by simp
      ultimately show ?thesis using hears_trans [OF q] by (auto simp: conn_ok_def)
    qed
  qed
qed

lemma take_paid_hears: "take_paid su me co = (res, me', co') \<Longrightarrow> same_mesh me me' \<and> me_inbox me' = me_inbox me \<and> co_who co' = co_who co \<and> co_seal co' = co_seal co"
proof (cases "announced (co_reader co)")
  case None
  then show "take_paid su me co = (res, me', co') \<Longrightarrow> ?thesis" by (auto simp: take_paid_def Let_def split: sum.splits prod.splits)
next
  case (Some n)
  assume t: "take_paid su me co = (res, me', co')"
  show ?thesis
  proof (cases "afford su (keyspace co) ''frame'' (seated (co_who co)) n me")
    case (Inl e)
    then show ?thesis using t Some by (auto simp: take_paid_def Let_def)
  next
    case (Inr p)
    obtain ok me1 where "p = (ok, me1)" by force
    then show ?thesis using t Some Inr afford_same [of su "keyspace co" "''frame''" "seated (co_who co)" n me ok me1]
      by (auto simp: take_paid_def Let_def split: sum.splits)
  qed
qed

lemma serve_hears:
  "serve su had me co = (res, me', co') \<Longrightarrow> conn_ok (su_prims su) me co \<Longrightarrow>
    hears (su_prims su) me me' \<and> (isl res \<or> conn_ok (su_prims su) me co')"
proof (induction su had me co rule: serve.induct)
  case (1 su had me co)
  obtain t me1 co1 where t: "take_paid su me co = (t, me1, co1)" by (cases "take_paid su me co")
  note same = take_paid_hears [OF t]
  have s1: "same_mesh me me1" using same by simp
  have "conn_ok (su_prims su) me co1" using 1(4) same by (simp add: conn_ok_def)
  then have ok: "conn_ok (su_prims su) me1 co1" "conn_ok (su_prims su) me co1" by (simp_all add: conn_ok_same [OF s1])
  have q: "hears (su_prims su) me me1" using same by (simp add: hears_quiet)
  show ?case
  proof (cases t)
    case (Inl e)
    then show ?thesis using 1(3) t q by (auto simp: serve.simps [of su had me co])
  next
    case (Inr tk)
    show ?thesis
    proof (cases tk)
      case NotYet
      then show ?thesis using 1(3) t Inr q ok by (auto simp: serve.simps [of su had me co])
    next
      case Skipped
      then have "serve su had me1 co1 = (res, me', co')" using 1(3) t Inr by (simp add: serve.simps [of su had me co])
      then have "hears (su_prims su) me1 me' \<and> (isl res \<or> conn_ok (su_prims su) me1 co')"
        using 1(1) [OF t [symmetric] Inr Skipped refl] ok(1) by simp
      then show ?thesis using hears_trans [OF q] same conn_ok_same by auto
    next
      case (Frame msg)
      let ?co = "co1\<lparr>co_clock := saw_frame (su_tick su (me_asked me1)) (co_clock co1)\<rparr>"
      obtain fres me2 co2 where f: "on_frame su msg (asked me1) ?co = (fres, me2, co2)" by (cases "on_frame su msg (asked me1) ?co")
      have a: "same_mesh me (asked me1)" using same same_mesh_trans by auto
      have "conn_ok (su_prims su) (asked me1) ?co" using ok(2) by (simp add: conn_ok_same [OF a]) (simp add: conn_ok_def)
      note fh = on_frame_hears [OF f this]
      have "hears (su_prims su) me (asked me1)" using q a by (simp add: hears_def same_mesh_def)
      then have q2: "hears (su_prims su) me me2" using fh hears_trans by blast
      then have s2: "same_mesh me me2" by (simp add: hears_def)
      show ?thesis
      proof (cases "\<exists>e. fres = Inl e")
        case True
        then show ?thesis using 1(3) t Inr Frame f q2 by (auto simp: serve.simps [of su had me co])
      next
        case False
        then have fr: "fres = Inr ()" by (cases fres) simp_all
        have ok2: "conn_ok (su_prims su) me2 co2" using fh fr by (simp add: conn_ok_same [OF a] conn_ok_same [OF s2])
        have "serve su True me2 co2 = (res, me', co')" using 1(3) t Inr Frame f fr by (simp add: serve.simps [of su had me co])
        then have "hears (su_prims su) me2 me' \<and> (isl res \<or> conn_ok (su_prims su) me2 co')"
          using 1(2) [OF t [symmetric] Inr Frame refl f [symmetric] fr refl] ok2 by simp
        then show ?thesis using hears_trans [OF q2] conn_ok_same [OF s2] by auto
      qed
    qed
  qed
qed

lemma on_arrival_hears:
  assumes "on_arrival su arrival me co = (how, me', co')" "conn_ok (su_prims su) me co"
  shows "hears (su_prims su) me me' \<and> (how = None \<longrightarrow> conn_ok (su_prims su) me co')"
proof (cases arrival)
  case (Chunk data)
  show ?thesis
  proof (cases "data = []")
    case True
    then show ?thesis using assms(1) Chunk by (auto simp: on_arrival_def hears_def)
  next
    case False
    let ?co = "co\<lparr>co_clock := saw_data (su_tick su (me_asked me)) (co_clock co), co_reader := (co_reader co)\<lparr>rd_buf := rd_buf (co_reader co) @ data\<rparr>\<rparr>"
    obtain res me1 co1 where s: "serve su False (asked me) ?co = (res, me1, co1)" by (cases "serve su False (asked me) ?co")
    have a: "same_mesh me (asked me)" by simp
    have "conn_ok (su_prims su) (asked me) ?co" using assms(2) by (simp add: conn_ok_same [OF a]) (simp add: conn_ok_def)
    note sh = serve_hears [OF s this]
    have q: "hears (su_prims su) me me1" using sh hears_trans [OF hears_quiet [OF a]] by simp
    then have s1: "same_mesh me me1" by (simp add: hears_def)
    have q': "hears (su_prims su) me (asked me1)" using hears_trans [OF q hears_quiet [OF asked_same(1)]] by simp
    have ok1: "isl res \<or> conn_ok (su_prims su) me co1" using sh by (simp add: conn_ok_same [OF a])
    have clocked: "conn_ok (su_prims su) me (co1\<lparr>co_clock := x\<rparr>) = conn_ok (su_prims su) me co1" for x by (simp add: conn_ok_def)
    show ?thesis using assms(1) Chunk False s q q' ok1 clocked by (auto simp: on_arrival_def Let_def split: sum.splits if_splits)
  qed
qed (use assms in \<open>auto simp: on_arrival_def intro: hears_quiet\<close>)

lemma end_connection_hears: "hears P me (snd (end_connection su how me co))"
  by (rule hears_quiet) (auto simp: end_connection_def Let_def asked_def same_mesh_def same_door_def split: ending.split prod.split sum.split)

lemma read_loop_hears:
  assumes "read_loop su arrivals me co = (how, me', co')" "conn_ok (su_prims su) me co"
  shows "hears (su_prims su) me me'"
  using assms
proof (induction arrivals arbitrary: me co)
  case (Cons a arrivals)
  obtain h me1 co1 where s: "on_arrival su a me co = (h, me1, co1)" by (cases "on_arrival su a me co")
  note ah = on_arrival_hears [OF s Cons.prems(2)]
  then have s1: "same_mesh me me1" by (simp add: hears_def)
  show ?case
  proof (cases h)
    case None
    then have "hears (su_prims su) me1 me'" using Cons.IH [of me1 co1] Cons.prems(1) s ah conn_ok_same [OF s1] by auto
    then show ?thesis using ah hears_trans by blast
  next
    case (Some w)
    then have "me' = snd (end_connection su w me1 co1)" using Cons.prems(1) s by auto
    then show ?thesis using ah hears_trans end_connection_hears by blast
  qed
qed (auto simp: hears_def)

text \<open>C12: Participation follows identity. Whatever bytes arrive on a connection, in whatever pieces and for
  however long, every message it adds to the inbox that only a seat may send comes under the name
  of a roster seat whose key signed a hello to this node on this chain and sealed that very
  message for the session the hello opened.\<close>

theorem participation_follows_identity:
  assumes "read_loop su arrivals me (new_conn su source me) = (how, me', co)"
  shows "\<exists>heard. me_inbox me' = me_inbox me @ heard \<and> (\<forall>(name, msg)\<in>set heard. kind_of msg \<notin> set OPEN_KINDS \<longrightarrow>
     (\<exists>who public_hex epoch nonce protocol hello_sig session n seq s digest.
        name = sender_name (Some who) \<and> map_of (vf_validators (me_handshake me)) who = Some public_hex
        \<and> verify_msg (su_prims su) public_hex
             (hello_message (su_prims su) (vf_chain_id (me_handshake me)) who (vf_node_id (me_handshake me)) epoch nonce protocol) hello_sig
        \<and> session_id (su_prims su) (me_chain_id me) who (me_node_id me) epoch nonce = Inr session
        \<and> seal_of (su_prims su) msg = Inr (seq, VStr s, digest)
        \<and> verify_msg (su_prims su) public_hex (frame_message (su_prims su) session n digest) s))"
proof -
  have "conn_ok (su_prims su) me (new_conn su source me)" by (simp add: conn_ok_def new_conn_def)
  from read_loop_hears [OF assms this] obtain heard where h: "me_inbox me' = me_inbox me @ heard"
    "\<forall>(name, msg)\<in>set heard. kind_of msg \<in> set OPEN_KINDS \<or> sealed_by (su_prims su) me name msg" by (auto simp: hears_def)
  show ?thesis
  proof (intro exI conjI ballI)
    show "me_inbox me' = me_inbox me @ heard" by (rule h(1))
  next
    fix x assume x: "x \<in> set heard"
    obtain name msg where nm: "x = (name, msg)" by force
    show "case x of (name, msg) \<Rightarrow> kind_of msg \<notin> set OPEN_KINDS \<longrightarrow>
     (\<exists>who public_hex epoch nonce protocol hello_sig session n seq s digest.
        name = sender_name (Some who) \<and> map_of (vf_validators (me_handshake me)) who = Some public_hex
        \<and> verify_msg (su_prims su) public_hex
             (hello_message (su_prims su) (vf_chain_id (me_handshake me)) who (vf_node_id (me_handshake me)) epoch nonce protocol) hello_sig
        \<and> session_id (su_prims su) (me_chain_id me) who (me_node_id me) epoch nonce = Inr session
        \<and> seal_of (su_prims su) msg = Inr (seq, VStr s, digest)
        \<and> verify_msg (su_prims su) public_hex (frame_message (su_prims su) session n digest) s)"
      using bspec [OF h(2) x] unfolding nm prod.case sealed_by_def opened_def by blast
  qed
qed

section \<open>What a stranger can still do\<close>

lemma stall_taken:
  "take_frame limit gate (r\<lparr>rd_buf := stall @ bs\<rparr>) = Inr (NotYet, r\<lparr>rd_buf := stall @ bs\<rparr>)" "announced (r\<lparr>rd_buf := stall @ bs\<rparr>) = None"
proof -
  have "get_uint (drop (length MAGIC + 1) (stall @ bs)) = Inl CodecError"
    using get_uint_stalls [of 586 0 0 bs] by (simp add: stall_def MAGIC_def get_uint_def)
  then show "take_frame limit gate (r\<lparr>rd_buf := stall @ bs\<rparr>) = Inr (NotYet, r\<lparr>rd_buf := stall @ bs\<rparr>)"
    "announced (r\<lparr>rd_buf := stall @ bs\<rparr>) = None"
    by (simp_all add: take_frame_def announced_def Let_def stall_def MAGIC_def)
qed

lemma stall_arrives:
  assumes "rd_buf (co_reader co) @ data = stall @ bs" "data \<noteq> []"
  shows "\<exists>clk. on_arrival su (Chunk data) me co =
    (None, asked (asked me), co\<lparr>co_clock := clk, co_reader := (co_reader co)\<lparr>rd_buf := stall @ bs\<rparr>\<rparr>)"
proof -
  let ?co = "co\<lparr>co_clock := saw_data (su_tick su (me_asked me)) (co_clock co), co_reader := (co_reader co)\<lparr>rd_buf := stall @ bs\<rparr>\<rparr>"
  have "take_paid su (asked me) ?co = (Inr NotYet, asked me, ?co)"
    by (simp add: take_paid_def stall_taken)
  then have "serve su False (asked me) ?co = (Inr False, asked me, ?co)" by (simp add: serve.simps [of su False "asked me"])
  moreover have "0 < length (stall @ bs)" by (simp add: stall_def)
  ultimately have "on_arrival su (Chunk data) me co = (None, asked (asked me),
      ?co\<lparr>co_clock := saw_partial (su_tick su (me_asked (asked me))) (saw_data (su_tick su (me_asked me)) (co_clock co))\<rparr>)"
    using assms by (simp add: on_arrival_def Let_def buffered_def)
  moreover have "?co\<lparr>co_clock := clk\<rparr> = co\<lparr>co_clock := clk, co_reader := (co_reader co)\<lparr>rd_buf := stall @ bs\<rparr>\<rparr>" for clk by simp
  ultimately show ?thesis by metis
qed

lemma stall_goes_on:
  assumes "rd_buf (co_reader co) = stall @ bs" "[] \<notin> set chunks"
  shows "\<exists>n clk. read_loop su (map Chunk chunks) me co = (None, me\<lparr>me_asked := n\<rparr>, co\<lparr>co_clock := clk, co_reader := (co_reader co)\<lparr>rd_buf := stall @ bs @ concat chunks\<rparr>\<rparr>)"
  using assms
proof (induction chunks arbitrary: me co bs)
  case Nil
  have "me = me\<lparr>me_asked := me_asked me\<rparr>" "co = co\<lparr>co_clock := co_clock co, co_reader := (co_reader co)\<lparr>rd_buf := stall @ bs @ concat []\<rparr>\<rparr>"
    using Nil by simp_all
  then show ?case by (metis list.simps(8) read_loop.simps(1))
next
  case (Cons c cs)
  obtain clk where a: "on_arrival su (Chunk c) me co =
    (None, asked (asked me), co\<lparr>co_clock := clk, co_reader := (co_reader co)\<lparr>rd_buf := stall @ (bs @ c)\<rparr>\<rparr>)"
    using stall_arrives [of co c "bs @ c" su me] Cons.prems by auto
  show ?case using Cons.IH [of "co\<lparr>co_clock := clk, co_reader := (co_reader co)\<lparr>rd_buf := stall @ (bs @ c)\<rparr>\<rparr>" "bs @ c" "asked (asked me)"] Cons.prems(2)
    by (simp add: a asked_def)
qed

text \<open>C37: A stranger can make a node hold any number of bytes for any time. A connection that opens with
  589 bytes, a length of more continuation bytes than the codec reads, and never falls silent for a
  second is never closed, never metered and never penalised: the deadline for a partial frame is
  only looked at when a read times out, no frame is ever complete, the refusal of the codec is
  taken for a length that has not arrived, and everything received is kept.\<close>

theorem stalled_reader_is_never_closed:
  assumes "[] \<notin> set chunks"
  shows "\<exists>n co. read_loop su (map Chunk (stall # chunks)) me (new_conn su source me) = (None, me\<lparr>me_asked := n\<rparr>, co)
    \<and> buffered (co_reader co) = 589 + length (concat chunks)"
proof -
  let ?co = "new_conn su source me"
  have r: "rd_buf (co_reader ?co) = []" by (simp add: new_conn_def new_reader_def)
  have l: "length stall = 589" by (simp add: stall_def MAGIC_def)
  obtain clk where a: "on_arrival su (Chunk stall) me ?co = (None, asked (asked me), ?co\<lparr>co_clock := clk, co_reader := (co_reader ?co)\<lparr>rd_buf := stall @ []\<rparr>\<rparr>)"
    using stall_arrives [of ?co stall "[]" su me] r l by (cases "stall = []") auto
  obtain n clk' where g: "read_loop su (map Chunk chunks) (asked (asked me)) (?co\<lparr>co_clock := clk, co_reader := (co_reader ?co)\<lparr>rd_buf := stall @ []\<rparr>\<rparr>)
    = (None, (asked (asked me))\<lparr>me_asked := n\<rparr>, ?co\<lparr>co_clock := clk', co_reader := (co_reader ?co)\<lparr>rd_buf := stall @ [] @ concat chunks\<rparr>\<rparr>)"
    using stall_goes_on [of "?co\<lparr>co_clock := clk, co_reader := (co_reader ?co)\<lparr>rd_buf := stall @ []\<rparr>\<rparr>" "[]" chunks su "asked (asked me)"] assms by auto
  have "read_loop su (map Chunk (stall # chunks)) me ?co
    = (None, me\<lparr>me_asked := n\<rparr>, ?co\<lparr>co_clock := clk', co_reader := (co_reader ?co)\<lparr>rd_buf := stall @ concat chunks\<rparr>\<rparr>)"
    using a g by (simp add: asked_def)
  then show ?thesis using l by (auto simp: buffered_def)
qed

theorem stalled_reader_is_never_closed_witness:
  "\<forall>su me source. \<exists>n co. read_loop su (map Chunk (stall # [[0], [1, 2]])) me (new_conn su source me) = (None, me\<lparr>me_asked := n\<rparr>, co)
    \<and> buffered (co_reader co) = 592"
  using stalled_reader_is_never_closed [of "[[0], [1, 2]]"] by simp

text \<open>C38: An unsigned hello unseats a peer. A hello is not checked against the seal of the connection: one
  that names nobody in the roster, from anyone who can write into the stream, makes the connection
  a stranger's, and the next frame that only a seat may send, sealed by the peer as it should be,
  ends the connection as a breach of the protocol for which the peer's address is penalised.\<close>

theorem unsigned_hello_unseats:
  assumes "kind_of injected = ''hello''" "dict_or_none ''payload'' injected = VDict d" "d \<noteq> []"
    and "claims_a_seat (me_handshake me) (VDict d) = Inr False"
    and "0 < co_hellos co" "co_hellos co < MAX_HELLOS" "afford su (''hello'', co_source co) ''hello'' False 0 me = Inr (True, me1)"
    and "kind_of msg \<in> set PEER_KINDS"
  shows "\<exists>co'. on_frame su injected me co = (Inr (), me1, co') \<and> co_seal co' = co_seal co \<and> on_frame su msg me1 co' = (Inl FrameError, me1, co')
    \<and> snd (end_connection su (Raised FrameError) me1 co') = (asked me1)\<lparr>me_gate :=
        release (co_source co) (snd (penalise (su_tick su (me_asked me1)) (co_source co) (me_gate me1)))\<rparr>"
proof -
  let ?co = "co\<lparr>co_hellos := co_hellos co + 1, co_who := None\<rparr>"
  have "claims_a_seat (me_handshake me1) (VDict d) = Inr False" using assms(4) afford_same [OF assms(7)] by simp
  then have "greet su (VDict d) me1 = (Inr None, me1)" by (simp add: greet_def)
  then have "on_frame su injected me co = (Inr (), me1, ?co)"
    using assms by (simp add: on_frame_def on_hello_def or_empty_def Let_def)
  moreover have "kind_of msg \<notin> set OPEN_KINDS" "kind_of msg \<noteq> ''hello''" using assms(8) by (auto simp: PEER_KINDS_def OPEN_KINDS_def)
  then have "on_frame su msg me1 ?co = (Inl FrameError, me1, ?co)" by (simp add: on_frame_def on_seal_def seated_def)
  moreover have "snd (end_connection su (Raised FrameError) me1 ?co) = (asked me1)\<lparr>me_gate :=
        release (co_source co) (snd (penalise (su_tick su (me_asked me1)) (co_source co) (me_gate me1)))\<rparr>"
    by (simp add: end_connection_def split: prod.split sum.split)
  ultimately show ?thesis by (intro exI [of _ ?co]) simp
qed

definition demo_mesh :: mesh where
  "demo_mesh = \<lparr>me_node_id = ''v2'', me_chain_id = ''c'', me_peers = [], me_handshake = demo_door, me_limiter = None,
     me_gate = new_gate MAX_CONNECTIONS MAX_PER_ADDRESS PENALTY_SECONDS PENALTY_MAX MAX_PENALISED, me_idle_seconds = IDLE_SECONDS,
     me_partial_seconds = PARTIAL_SECONDS, me_last_refusal = None, me_unsealed = 0, me_out = [], me_sealers = [], me_inbox = [], me_asked = 0\<rparr>"

definition demo_around :: surroundings where
  "demo_around = \<lparr>su_prims = wire_prims, su_limit = 100, su_parse = (\<lambda>_. None), su_tick = (\<lambda>n. of_nat n), su_epoch = (\<lambda>_. 3), su_request = (\<lambda>_ _. None)\<rparr>"

theorem unsigned_hello_unseats_witness:
  "let co = (new_conn demo_around ''h'' demo_mesh)\<lparr>co_who := Some ''v1'', co_seal := Some (new_seal_check ''s'' []), co_hellos := 1\<rparr>;
       injected = [(VStr ''kind'', VStr ''hello''), (VStr ''payload'', VDict [(VStr ''node_id'', VStr ''x'')])];
       msg = [(VStr ''kind'', VStr ''env'')] in
     \<exists>co'. on_frame demo_around injected demo_mesh co = (Inr (), demo_mesh, co') \<and> on_frame demo_around msg demo_mesh co' = (Inl FrameError, demo_mesh, co')"
proof -
  let ?co = "(new_conn demo_around ''h'' demo_mesh)\<lparr>co_who := Some ''v1'', co_seal := Some (new_seal_check ''s'' []), co_hellos := 1\<rparr>"
  have "\<exists>co'. on_frame demo_around [(VStr ''kind'', VStr ''hello''), (VStr ''payload'', VDict [(VStr ''node_id'', VStr ''x'')])] demo_mesh ?co = (Inr (), demo_mesh, co')
      \<and> co_seal co' = co_seal ?co \<and> on_frame demo_around [(VStr ''kind'', VStr ''env'')] demo_mesh co' = (Inl FrameError, demo_mesh, co')
    \<and> snd (end_connection demo_around (Raised FrameError) demo_mesh co') = (asked demo_mesh)\<lparr>me_gate :=
        release (co_source ?co) (snd (penalise (su_tick demo_around (me_asked demo_mesh)) (co_source ?co) (me_gate demo_mesh)))\<rparr>"
    by (rule unsigned_hello_unseats [where d = "[(VStr ''node_id'', VStr ''x'')]"])
      (simp_all add: kind_of_def dict_or_none_def dict_get_def claims_a_seat_def key_of_def demo_mesh_def demo_door_def new_verifier_def
        MAX_HELLOS_def afford_def PEER_KINDS_def OPEN_KINDS_def CLIENT_KINDS_def KINDS_def)
  then show ?thesis by (auto simp: Let_def)
qed

section \<open>A seat is heard\<close>

definition hello_entries :: "string \<Rightarrow> string \<Rightarrow> int \<Rightarrow> string \<Rightarrow> string \<Rightarrow> msg" where
  "hello_entries from to epoch nonce sig =
     [(VStr ''node_id'', VStr from), (VStr ''to'', VStr to), (VStr ''epoch'', VInt epoch), (VStr ''nonce'', VStr nonce),
      (VStr ''protocol'', VInt PROTOCOL_VERSION), (VStr ''signature'', VStr sig)]"

lemma hello_entries_get:
  "dict_get ''node_id'' (hello_entries from to epoch nonce sig) = Some (VStr from)"
  "dict_get ''to'' (hello_entries from to epoch nonce sig) = Some (VStr to)"
  "dict_get ''epoch'' (hello_entries from to epoch nonce sig) = Some (VInt epoch)"
  "dict_get ''nonce'' (hello_entries from to epoch nonce sig) = Some (VStr nonce)"
  "dict_get ''protocol'' (hello_entries from to epoch nonce sig) = Some (VInt PROTOCOL_VERSION)"
  "dict_get ''signature'' (hello_entries from to epoch nonce sig) = Some (VStr sig)"
  by (simp_all add: hello_entries_def dict_get_def)

lemma short_strings: "py_str ''kind''" "py_str ''chain_id''" "py_str ''epoch''" "py_str ''payload''" "py_str ''node_id''" "py_str ''to''"
    "py_str ''nonce''" "py_str ''protocol''" "py_str ''signature''" "py_str ''hello''"
  by (simp_all add: py_str_def byte_of_char_def utf8_cases(1))

lemma base_frame_storable:
  assumes "py_str kind" "py_str chain_id" "storable payload" "storable (VInt epoch)"
  shows "storable (VDict (base_frame kind chain_id payload epoch))"
  using assms short_strings by (simp add: base_frame_def)

text \<open>What a frame that is not sealed becomes at a reader of the same chain.\<close>

lemma plain_body:
  assumes "pack P sign None kind chain_id payload epoch = (Inr bs, s')"
    and "storable payload" "py_str chain_id" "storable (VInt epoch)" "depth payload < limit" "2 \<le> limit" "length (collect payload) < 2 ^ 63"
  obtains body msg w where "kind \<in> set KINDS" "bs = MAGIC @ [VERSION] @ put_uint (length body) @ body" "length body \<le> MAX_FRAME"
    "unpack limit (Some chain_id) body = Inr msg" "dict_get ''kind'' msg = Some (VStr kind)"
    "dict_get ''payload'' msg = Some w" "same_val payload w"
proof -
  let ?xs = "base_frame kind chain_id payload epoch"
  obtain body where b: "kind \<in> set KINDS" "encode (VDict ?xs) = Inr body" "length body \<le> MAX_FRAME" "bs = MAGIC @ [VERSION] @ put_uint (length body) @ body"
    using assms(1) by (auto simp: pack_def framed_def Let_def split: if_splits)
  have st: "storable (VDict ?xs)" by (rule base_frame_storable [OF kind_str [OF b(1)] assms(3,2,4)])
  have "depth (VDict ?xs) = Suc (max 1 (depth payload))" by (simp add: base_frame_def)
  then have lim: "depth (VDict ?xs) \<le> limit" using assms(5,6) by linarith
  have len: "length (collect (VDict ?xs)) < 2 ^ 64" using assms(7) by (simp add: base_frame_def)
  obtain v where v: "decode limit body = Inr v" "same_val (VDict ?xs) v" using encode_decode [OF st lim len] b(2) by auto
  obtain zs msg where msg: "v = VDict msg" "list_all2 (\<lambda>p q. fst p = fst q \<and> same_val (snd p) (snd q)) ?xs zs" "mset zs = mset msg"
    by (rule same_dict [OF v(2)])
  have d: "distinct (map fst ?xs)" by (simp add: base_frame_def)
  note got = same_get [OF msg(2,3) d]
  have leaf: "\<exists>w. dict_get k msg = Some w \<and> same_val v w \<Longrightarrow> plain v \<Longrightarrow> dict_get k msg = Some v" for k v
    using plain_same by auto
  have g: "dict_get ''kind'' ?xs = Some (VStr kind)" "dict_get ''chain_id'' ?xs = Some (VStr chain_id)" "dict_get ''epoch'' ?xs = Some (VInt epoch)"
    "dict_get ''payload'' ?xs = Some payload" by (simp_all add: base_frame_def dict_get_def)
  have kind: "dict_get ''kind'' msg = Some (VStr kind)" by (rule leaf [OF got [OF g(1)]]) simp
  have chain: "dict_get ''chain_id'' msg = Some (VStr chain_id)" by (rule leaf [OF got [OF g(2)]]) simp
  have epoch: "dict_get ''epoch'' msg = Some (VInt epoch)" by (rule leaf [OF got [OF g(3)]]) simp
  obtain w where w: "dict_get ''payload'' msg = Some w" "same_val payload w" using got [OF g(4)] by blast
  have "unpack limit (Some chain_id) body = Inr msg" using v(1) msg(1) kind chain epoch w(1) b(1) by (simp add: unpack_def)
  then show ?thesis using that b(1,3,4) kind w by blast
qed

lemma hello_arrives:
  assumes "same_val (VDict (hello_entries from to epoch nonce sig)) w"
  obtains d where "w = VDict d" "d \<noteq> []" "dict_or_none ''node_id'' d = VStr from" "dict_or_none ''to'' d = VStr to" "dict_or_none ''epoch'' d = VInt epoch"
    "dict_or_none ''nonce'' d = VStr nonce" "protocol_of d = PROTOCOL_VERSION" "dict_or_none ''signature'' d = VStr sig"
proof -
  let ?xs = "hello_entries from to epoch nonce sig"
  obtain zs d where d: "w = VDict d" "list_all2 (\<lambda>p q. fst p = fst q \<and> same_val (snd p) (snd q)) ?xs zs" "mset zs = mset d"
    by (rule same_dict [OF assms])
  have dist: "distinct (map fst ?xs)" by (simp add: hello_entries_def)
  have leaf: "plain v \<Longrightarrow> dict_get k ?xs = Some v \<Longrightarrow> dict_get k d = Some v" for k v
    using same_get [OF d(2,3) dist] plain_same by fastforce
  have g: "dict_get ''node_id'' d = Some (VStr from)" "dict_get ''to'' d = Some (VStr to)" "dict_get ''epoch'' d = Some (VInt epoch)"
    "dict_get ''nonce'' d = Some (VStr nonce)" "dict_get ''protocol'' d = Some (VInt PROTOCOL_VERSION)" "dict_get ''signature'' d = Some (VStr sig)"
    by (rule leaf; simp add: hello_entries_get)+
  have "d \<noteq> []" using g(1) by (auto simp: dict_get_def)
  then show ?thesis using that d(1) g by (simp add: dict_or_none_def protocol_of_def as_int_def)
qed

lemma take_paid_free:
  assumes "me_limiter me = None" "rd_buf (co_reader co) = MAGIC @ [VERSION] @ put_uint (length body) @ body @ rest"
    "length body \<le> rd_max (co_reader co)" "length body < 2 ^ 64" "unpack (su_limit su) (rd_chain (co_reader co)) body = Inr msg"
  shows "take_paid su me co = (Inr (Frame msg), me, co\<lparr>co_reader := (co_reader co)\<lparr>rd_buf := rest\<rparr>\<rparr>)"
proof -
  have "take_frame (su_limit su) (Some (\<lambda>_. True)) (co_reader co) = Inr (Frame msg, (co_reader co)\<lparr>rd_buf := rest\<rparr>)"
    by (rule take_one [OF assms(2,3,4) _ assms(5)]) simp
  moreover have "afford su x y z n me = Inr (True, me)" for x y z n using assms(1) by (simp add: afford_def)
  ultimately show ?thesis by (cases "announced (co_reader co)") (simp_all add: take_paid_def Let_def)
qed

lemma greet_accepts:
  assumes "map_of (vf_validators (me_handshake me)) from = Some public_hex" "dict_or_none ''node_id'' d = VStr from"
    "dict_or_none ''to'' d = VStr (vf_node_id (me_handshake me))" "dict_or_none ''epoch'' d = VInt epoch" "dict_or_none ''nonce'' d = VStr nonce"
    "protocol_of d = protocol" "dict_or_none ''signature'' d = VStr sig"
    "\<And>n. \<bar>epoch - su_epoch su n\<bar> \<le> vf_slack (me_handshake me)" "nonce \<noteq> []" "(from, nonce) \<notin> set (keys (vf_seen (me_handshake me)))"
    "length (vf_seen (me_handshake me)) < vf_max_seen (me_handshake me)"
    "verify_msg (su_prims su) public_hex (hello_message (su_prims su) (vf_chain_id (me_handshake me)) from (vf_node_id (me_handshake me)) epoch nonce protocol) sig"
  shows "\<exists>vf. greet su (VDict d) me = (Inr (Some from), (asked (asked me))\<lparr>me_handshake := vf\<rparr>) \<and> same_door (me_handshake me) vf"
proof -
  have "\<exists>vf. check_hello (su_prims su) now now2 (VDict d) (me_handshake me) = Inr (Inr from, vf)" if "\<bar>epoch - now\<bar> \<le> vf_slack (me_handshake me)" for now now2
    using assms that by (simp add: check_hello_def key_of_def as_int_def seen_full_def Let_def)
  then obtain vf where vf: "check_hello (su_prims su) (su_epoch su (me_asked me)) (su_epoch su (me_asked me + 1)) (VDict d) (me_handshake me) = Inr (Inr from, vf)"
    using assms(8) by blast
  have "claims_a_seat (me_handshake me) (VDict d) = Inr True" using assms(1,2) by (simp add: claims_a_seat_def key_of_def)
  then show ?thesis using vf check_hello_door [OF vf] by (intro exI [of _ vf]) (simp add: greet_def)
qed

lemma dialled:
  assumes "dial P sign epoch nonce True to a0 = (Inr bs, a1)"
  obtains m session s' where "hello_message P (me_chain_id a0) (me_node_id a0) to epoch nonce PROTOCOL_VERSION = Inr m"
    "session_id P (me_chain_id a0) (me_node_id a0) to epoch nonce = Inr session"
    "pack P sign None ''hello'' (me_chain_id a0) (VDict (hello_entries (me_node_id a0) to epoch nonce (sign m))) (- 1) = (Inr bs, s')"
    "to \<in> set (me_out a1)" "map_of (me_sealers a1) to = Some \<lparr>sl_session = session, sl_seq = 0\<rparr>" "me_chain_id a1 = me_chain_id a0"
proof -
  obtain hello a where h: "hello_for P sign epoch nonce to a0 = Inr (hello, a)"
    using assms by (cases "hello_for P sign epoch nonce to a0") (auto simp: dial_def)
  obtain m session where m: "hello_message P (me_chain_id a0) (me_node_id a0) to epoch nonce PROTOCOL_VERSION = Inr m"
    "session_id P (me_chain_id a0) (me_node_id a0) to epoch nonce = Inr session"
    "hello = VDict (hello_entries (me_node_id a0) to epoch nonce (sign m))"
    "a = a0\<lparr>me_sealers := AList.update to \<lparr>sl_session = session, sl_seq = 0\<rparr> (me_sealers a0)\<rparr>"
    using h by (auto simp: hello_for_def build_hello_def hello_entries_def)
  have "fst (pack P sign None ''hello'' (me_chain_id a0) hello (- 1)) = Inr bs \<and> a1 = a\<lparr>me_out := List.insert to (me_out a)\<rparr>"
    using assms by (auto simp: dial_def h Let_def split: if_splits)
  then show ?thesis
    by (intro that [OF m(1,2), of "snd (pack P sign None ''hello'' (me_chain_id a0) hello (- 1))"])
      (simp_all add: m(3,4) update_conv' prod_eq_iff)
qed

lemma hello_opens:
  assumes "kind_of msg = ''hello''" "dict_or_none ''payload'' msg = VDict d" "d \<noteq> []" "co_hellos co = 0"
    "greet su (VDict d) me = (Inr (Some from), me1)" "seal_check_for (su_prims su) from d me1 = Inr (Some sc)"
  shows "on_frame su msg me co = (Inr (), me1, co\<lparr>co_hellos := 1, co_who := Some from, co_reader := (co_reader co)\<lparr>rd_max := MAX_FRAME\<rparr>, co_seal := Some sc\<rparr>)"
  using assms by (simp add: on_frame_def on_hello_def or_empty_def dict_of_def MAX_HELLOS_def Let_def)

lemma sealed_delivered:
  assumes "kind_of msg = kind" "kind \<noteq> ''hello''" "kind \<notin> set CLIENT_KINDS" "co_who co = Some from" "co_seal co = Some sc" "me_limiter me = None"
    "seal_of (su_prims su) msg = Inr (seq, sig, digest)" "check_seal (su_prims su) (su_parse su) seq sig digest sc = (Inr (), sc')"
  shows "on_frame su msg me co = (Inr (), me\<lparr>me_inbox := me_inbox me @ [(sender_name (Some from), msg)]\<rparr>, co\<lparr>co_seal := Some sc'\<rparr>)"
  using assms by (simp add: on_frame_def on_seal_def deliver_def afford_def seated_def)

lemma seat_heard:
  assumes "dial (su_prims su) sign epoch nonce True to a0 = (Inr hello_bytes, a1)"
    and "send (su_prims su) sign True to kind payload e a1 = (Inr (Some frame_bytes), a2)"
    and "me_node_id b = to" "vf_node_id (me_handshake b) = to" "me_chain_id b = me_chain_id a0" "vf_chain_id (me_handshake b) = me_chain_id a0"
    and "map_of (vf_validators (me_handshake b)) (me_node_id a0) = Some public_hex" "me_limiter b = None"
    and "\<And>n. \<bar>epoch - su_epoch su n\<bar> \<le> vf_slack (me_handshake b)" "nonce \<noteq> []"
    and "(me_node_id a0, nonce) \<notin> set (keys (vf_seen (me_handshake b)))" "length (vf_seen (me_handshake b)) < vf_max_seen (me_handshake b)"
    and "\<And>m. py_str (sign m) \<and> sign m \<noteq> [] \<and> verify_sig (su_prims su) public_hex m (sign m)"
    and "list_all py_str [me_chain_id a0, me_node_id a0, to, nonce]" "list_all storable [VInt epoch, VInt e, payload]"
    and "depth payload < su_limit su" "3 \<le> su_limit su" "length (collect payload) < 2 ^ 63" "length hello_bytes \<le> CLIENT_MAX_FRAME"
    and "kind \<notin> set OPEN_KINDS"
  shows "\<exists>b' co msg w. read_loop su [Chunk (hello_bytes @ frame_bytes)] b (new_conn su source b) = (None, b', co)
    \<and> me_inbox b' = me_inbox b @ [(sender_name (Some (me_node_id a0)), msg)]
    \<and> kind_of msg = kind \<and> dict_get ''payload'' msg = Some w \<and> same_val payload w"
proof -
  let ?P = "su_prims su" and ?from = "me_node_id a0" and ?chain = "me_chain_id a0" and ?co = "new_conn su source b"
  obtain m session s' where m: "hello_message ?P ?chain ?from to epoch nonce PROTOCOL_VERSION = Inr m"
    "session_id ?P ?chain ?from to epoch nonce = Inr session"
    "pack ?P sign None ''hello'' ?chain (VDict (hello_entries ?from to epoch nonce (sign m))) (- 1) = (Inr hello_bytes, s')"
    "to \<in> set (me_out a1)" "map_of (me_sealers a1) to = Some \<lparr>sl_session = session, sl_seq = 0\<rparr>" "me_chain_id a1 = ?chain"
    by (rule dialled [OF assms(1)])
  have sent: "fst (pack ?P sign (Some \<lparr>sl_session = session, sl_seq = 0\<rparr>) kind ?chain payload e) = Inr frame_bytes"
    using assms(2) m(4-6) by (auto simp: send_def Let_def split: prod.splits sum.splits if_splits)
  have strs: "py_str ?chain" "py_str ?from" "py_str to" "py_str nonce" "storable (VInt epoch)" "storable (VInt e)" "storable payload"
    using assms(14,15) by simp_all
  have sig: "py_str (sign m)" "verify_sig ?P public_hex m (sign m)" using assms(13) by simp_all
  have one: "storable (VInt (- 1))" "storable (VInt 1)" "storable (VInt PROTOCOL_VERSION)" by (simp_all add: bit_length.simps PROTOCOL_VERSION_def)
  let ?hello = "VDict (hello_entries ?from to epoch nonce (sign m))"
  have hs: "storable ?hello" "depth ?hello = 2" "length (collect ?hello) < 2 ^ 63"
    using strs sig(1) one(3) short_strings by (simp_all add: hello_entries_def)
  have lim: "depth ?hello < su_limit su" "2 \<le> su_limit su" using hs(2) assms(17) by linarith+
  obtain body msg w where h: "hello_bytes = MAGIC @ [VERSION] @ put_uint (length body) @ body" "length body \<le> MAX_FRAME"
    "unpack (su_limit su) (Some ?chain) body = Inr msg" "dict_get ''kind'' msg = Some (VStr ''hello'')"
    "dict_get ''payload'' msg = Some w" "same_val ?hello w"
    by (rule plain_body [OF m(3) hs(1) strs(1) one(1) lim hs(3)])
  obtain d where d: "w = VDict d" "d \<noteq> []" "dict_or_none ''node_id'' d = VStr ?from" "dict_or_none ''to'' d = VStr to" "dict_or_none ''epoch'' d = VInt epoch"
    "dict_or_none ''nonce'' d = VStr nonce" "protocol_of d = PROTOCOL_VERSION" "dict_or_none ''signature'' d = VStr (sign m)"
    by (rule hello_arrives [OF h(6)])
  obtain fbody fmsg fsig digest where f: "frame_bytes = MAGIC @ [VERSION] @ put_uint (length fbody) @ fbody" "length fbody \<le> MAX_FRAME"
    "unpack (su_limit su) (Some ?chain) fbody = Inr fmsg" "dict_get ''kind'' fmsg = Some (VStr kind)"
    "\<exists>w. dict_get ''payload'' fmsg = Some w \<and> same_val payload w" "seal_of ?P fmsg = Inr (VInt 1, fsig, digest)"
    "check_seal ?P (su_parse su) (VInt 1) fsig digest (new_seal_check session public_hex) = (Inr (), (new_seal_check session public_hex)\<lparr>sc_last_seq := 1\<rparr>)"
    by (rule sealed_body [of ?P sign "\<lparr>sl_session = session, sl_seq = 0\<rparr>" kind ?chain payload e frame_bytes
          "snd (pack ?P sign (Some \<lparr>sl_session = session, sl_seq = 0\<rparr>) kind ?chain payload e)" "su_limit su" public_hex])
      (use sent strs one(2) assms(13,16-18) in \<open>auto simp: prod_eq_iff new_seal_check_def\<close>)
  let ?r1 = "(co_reader ?co)\<lparr>rd_buf := hello_bytes @ frame_bytes\<rparr>"
  let ?co1 = "?co\<lparr>co_clock := saw_data (su_tick su (me_asked b)) (co_clock ?co), co_reader := ?r1\<rparr>"
  let ?co2 = "?co1\<lparr>co_reader := (co_reader ?co1)\<lparr>rd_buf := frame_bytes\<rparr>\<rparr>"
  have lens: "length body \<le> CLIENT_MAX_FRAME" "length body < 2 ^ 64" "length fbody < 2 ^ 64"
    using assms(19) h(1,2) f(2) by (simp_all add: MAX_FRAME_def)
  have t1: "take_paid su (asked b) ?co1 = (Inr (Frame msg), asked b, ?co2)"
    by (rule take_paid_free [where body = body]) (use assms(5,8) h lens in \<open>simp_all add: new_conn_def new_reader_def asked_def\<close>)
  let ?b1 = "asked (asked b)"
  let ?co3 = "?co2\<lparr>co_clock := saw_frame (su_tick su (me_asked (asked b))) (co_clock ?co2)\<rparr>"
  have kinds: "kind_of msg = ''hello''" "dict_or_none ''payload'' msg = VDict d" "kind_of fmsg = kind" "kind \<noteq> ''hello''" "kind \<notin> set CLIENT_KINDS"
    using h(4,5) f(4) d(1) assms(20) by (auto simp: kind_of_def dict_or_none_def OPEN_KINDS_def)
  obtain vf where g: "greet su (VDict d) ?b1 = (Inr (Some ?from), (asked (asked ?b1))\<lparr>me_handshake := vf\<rparr>)" "same_door (me_handshake b) vf"
    using greet_accepts [of ?b1 ?from public_hex d epoch nonce PROTOCOL_VERSION "sign m" su] assms(4,6,7,9-12) d m(1) sig(2)
    by (auto simp: verify_msg_def)
  let ?b2 = "(asked (asked ?b1))\<lparr>me_handshake := vf\<rparr>" and ?sc = "new_seal_check session public_hex"
  have "seal_check_for ?P ?from d ?b2 = Inr (Some ?sc)"
    using g(2) assms(3,5,7) d(5,6) m(2) by (simp add: seal_check_for_def same_door_def as_int_def asked_def)
  from hello_opens [OF kinds(1,2) d(2) _ g(1) this, of ?co3]
  have o1: "on_frame su msg ?b1 ?co3 = (Inr (), ?b2, ?co3\<lparr>co_hellos := 1, co_who := Some ?from, co_reader := (co_reader ?co3)\<lparr>rd_max := MAX_FRAME\<rparr>, co_seal := Some ?sc\<rparr>)"
    by (simp add: new_conn_def)
  let ?co4 = "?co3\<lparr>co_hellos := 1, co_who := Some ?from, co_reader := (co_reader ?co3)\<lparr>rd_max := MAX_FRAME\<rparr>, co_seal := Some ?sc\<rparr>"
  let ?co5 = "?co4\<lparr>co_reader := (co_reader ?co4)\<lparr>rd_buf := []\<rparr>\<rparr>"
  have t2: "take_paid su ?b2 ?co4 = (Inr (Frame fmsg), ?b2, ?co5)"
    by (rule take_paid_free [where body = fbody]) (use assms(5,8) f lens in \<open>simp_all add: new_conn_def new_reader_def asked_def\<close>)
  let ?co6 = "?co5\<lparr>co_clock := saw_frame (su_tick su (me_asked ?b2)) (co_clock ?co5)\<rparr>" and ?sc' = "?sc\<lparr>sc_last_seq := 1\<rparr>"
  let ?b3 = "(asked ?b2)\<lparr>me_inbox := me_inbox (asked ?b2) @ [(sender_name (Some ?from), fmsg)]\<rparr>"
  have o2: "on_frame su fmsg (asked ?b2) ?co6 = (Inr (), ?b3, ?co6\<lparr>co_seal := Some ?sc'\<rparr>)"
    by (rule sealed_delivered [OF kinds(3-5) _ _ _ f(6,7)]) (use assms(8) in \<open>simp_all add: asked_def\<close>)
  have t3: "take_paid su ?b3 (?co6\<lparr>co_seal := Some ?sc'\<rparr>) = (Inr NotYet, ?b3, ?co6\<lparr>co_seal := Some ?sc'\<rparr>)"
    by (simp add: take_paid_def take_frame_def announced_def Let_def)
  have "serve su False (asked b) ?co1 = (Inr True, ?b3, ?co6\<lparr>co_seal := Some ?sc'\<rparr>)"
    unfolding serve.simps [of su False] t1 prod.case sum.case taken.case o1
    unfolding serve.simps [of su True ?b2] t2 prod.case sum.case taken.case o2
    unfolding serve.simps [of su True ?b3] t3 prod.case sum.case taken.case ..
  then have "read_loop su [Chunk (hello_bytes @ frame_bytes)] b ?co = (None, ?b3, ?co6\<lparr>co_seal := Some ?sc'\<rparr>)"
    using h(1) by (simp add: on_arrival_def Let_def new_conn_def new_reader_def MAGIC_def)
  moreover have "me_inbox ?b3 = me_inbox b @ [(sender_name (Some ?from), fmsg)]" by (simp add: asked_def)
  ultimately show ?thesis using kinds(3) f(5) by blast
qed


text \<open>Two seats, \<open>v1\<close> and \<open>v2\<close>, and what the first writes to the second.\<close>

definition demo_dialler :: mesh where
  "demo_dialler = demo_mesh\<lparr>me_node_id := ''v1''\<rparr>"

lemma demo_orders:
  "sorted_set [''kind'', ''hello'', ''chain_id'', ''c'', ''epoch'', ''payload'', ''node_id'', ''v1'', ''to'', ''v2'', ''epoch'', ''nonce'', ''n'', ''protocol'', ''signature'', ''ab'']
    = [''ab'', ''c'', ''chain_id'', ''epoch'', ''hello'', ''kind'', ''n'', ''node_id'', ''nonce'', ''payload'', ''protocol'', ''signature'', ''to'', ''v1'', ''v2'']"
  "sorted_set [''kind'', ''env'', ''chain_id'', ''c'', ''epoch'', ''payload'', ''seq'', ''sig'', ''ab'']
    = [''ab'', ''c'', ''chain_id'', ''env'', ''epoch'', ''kind'', ''payload'', ''seq'', ''sig'']"
  by (simp_all add: sorted_set_def less_eq_char_def less_char_def)

lemma demo_hello_body: "\<exists>body. encode (VDict (base_frame ''hello'' ''c'' (VDict (hello_entries ''v1'' ''v2'' 3 ''n'' ''ab'')) (- 1))) = Inr body \<and> length body < 300"
proof -
  let ?o = "[''ab'', ''c'', ''chain_id'', ''epoch'', ''hello'', ''kind'', ''n'', ''node_id'', ''nonce'', ''payload'', ''protocol'', ''signature'', ''to'', ''v1'', ''v2'']"
  let ?h = "VDict (hello_entries ''v1'' ''v2'' 3 ''n'' ''ab'')"
  let ?v = "VDict (base_frame ''hello'' ''c'' ?h (- 1))"
  have o: "sorted_set (collect ?v) = ?o" using demo_orders(1) by (simp add: base_frame_def hello_entries_def)
  have ids: "string_id ?o ''ab'' = Inr 0" "string_id ?o ''c'' = Inr 1" "string_id ?o ''chain_id'' = Inr 2" "string_id ?o ''epoch'' = Inr 3"
    "string_id ?o ''hello'' = Inr 4" "string_id ?o ''kind'' = Inr 5" "string_id ?o ''n'' = Inr 6" "string_id ?o ''node_id'' = Inr 7"
    "string_id ?o ''nonce'' = Inr 8" "string_id ?o ''payload'' = Inr 9" "string_id ?o ''protocol'' = Inr 10" "string_id ?o ''signature'' = Inr 11"
    "string_id ?o ''to'' = Inr 12" "string_id ?o ''v1'' = Inr 13" "string_id ?o ''v2'' = Inr 14" by (simp_all add: string_id_def)
  have b: "bit_length (Suc 0) = Suc 0" by (simp add: bit_length.simps)
  have "length (dump_strings ?o) < 150" by (simp add: dump_strings_def dump_short put_uint_small)
  moreover obtain hb where hb: "put ?o ?h = Inr hb" "length hb < 60"
    by (simp add: hello_entries_def ids put_int_def put_uint_small length_put_entries PROTOCOL_VERSION_def)
  moreover obtain body where "put ?o ?v = Inr body" "length body < 100"
    using hb(2) by (subst (asm) put_dict, simp add: base_frame_def put_entry_def hb(1) ids put_int_def put_magnitude_def Let_def b put_uint_small length_put_entries del: put.simps(8))
  ultimately show ?thesis unfolding encode_def o by (simp add: put_uint_small FORMAT_VERSION_def del: put.simps)
qed

lemma demo_env_body: "\<exists>body. encode (VDict (sealed_entries ''env'' ''c'' VNone 3 1 ''ab'')) = Inr body \<and> length body < 128"
proof -
  let ?o = "[''ab'', ''c'', ''chain_id'', ''env'', ''epoch'', ''kind'', ''payload'', ''seq'', ''sig'']"
  let ?v = "VDict (sealed_entries ''env'' ''c'' VNone 3 1 ''ab'')"
  have o: "sorted_set (collect ?v) = ?o" using demo_orders(2) by (simp add: frame_defs)
  have ids: "string_id ?o ''ab'' = Inr 0" "string_id ?o ''c'' = Inr 1" "string_id ?o ''chain_id'' = Inr 2" "string_id ?o ''env'' = Inr 3"
    "string_id ?o ''epoch'' = Inr 4" "string_id ?o ''kind'' = Inr 5" "string_id ?o ''payload'' = Inr 6" "string_id ?o ''seq'' = Inr 7"
    "string_id ?o ''sig'' = Inr 8" by (simp_all add: string_id_def)
  have "length (dump_strings ?o) < 80" by (simp add: dump_strings_def dump_short put_uint_small)
  moreover obtain body where "put ?o ?v = Inr body" "length body < 30"
    by (simp add: frame_defs ids put_int_def put_uint_small length_put_entries)
  ultimately show ?thesis unfolding encode_def o by (simp add: put_uint_small FORMAT_VERSION_def del: put.simps)
qed

lemma demo_strings: "py_str ''ab''" "py_str ''c''" "py_str ''n''" "py_str ''v1''" "py_str ''v2''" "py_str ''env''"
  by (simp_all add: py_str_def byte_of_char_def utf8_cases(1))

lemma demo_signs: "verify_sig wire_prims [] m ''ab''"
  by (simp add: verify_sig_def wire_prims_def is_space_def hex_val_def Let_def)

lemma demo_hashes:
  "\<exists>d. session_id wire_prims ''c'' ''v1'' ''v2'' 3 ''n'' = Inr d" "\<exists>m. frame_message wire_prims (hex_of (pad_to 32 b)) 1 (sha256 wire_prims x) = Inr m"
  by (simp_all add: session_id_def frame_message_def h_bytes_def h_preimage_def len_prefixed_def wire_prims_def sample_prims_def str_int_def
      chain_domain_def FRAME_TAG_def SESSION_TAG_def str_nat.simps [of 3] str_nat.simps [of "Suc 0"])

lemma demo_session: "session_id wire_prims ''c'' ''v1'' ''v2'' 3 ''n'' = Inr session \<Longrightarrow> \<exists>b. session = hex_of (pad_to 32 b)"
  by (auto simp: session_id_def h_bytes_def wire_prims_def sample_prims_def)

lemma demo_written:
  obtains hello_bytes a1 frame_bytes a2 where "dial wire_prims (\<lambda>_. ''ab'') 3 ''n'' True ''v2'' demo_dialler = (Inr hello_bytes, a1)"
    "send wire_prims (\<lambda>_. ''ab'') True ''v2'' ''env'' VNone 3 a1 = (Inr (Some frame_bytes), a2)" "length hello_bytes \<le> CLIENT_MAX_FRAME"
proof -
  obtain m where m: "hello_message wire_prims ''c'' ''v1'' ''v2'' 3 ''n'' 1 = Inr m" using demo_hello_message by blast
  obtain session where s: "session_id wire_prims ''c'' ''v1'' ''v2'' 3 ''n'' = Inr session" using demo_hashes(1) by blast
  obtain sb where sb: "session = hex_of (pad_to 32 sb)" using demo_session [OF s] by blast
  obtain body where body: "encode (VDict (base_frame ''hello'' ''c'' (VDict (hello_entries ''v1'' ''v2'' 3 ''n'' ''ab'')) (- 1))) = Inr body" "length body < 300"
    using demo_hello_body by blast
  obtain fbody where fbody: "encode (VDict (sealed_entries ''env'' ''c'' VNone 3 1 ''ab'')) = Inr fbody" "length fbody < 128" using demo_env_body by blast
  have num: "storable (VInt 3)" "storable (VInt 1)" by (simp_all add: bit_length.simps)
  have "storable (VDict (base_frame ''env'' ''c'' VNone 3 @ [(VStr ''seq'', VInt 1)]))"
    by (rule sealed_entries_storable [OF _ demo_strings(2) _ num demo_strings(1)]) (simp_all add: KINDS_def)
  from encode_decode [OF this, of 3] obtain body1 where body1: "encode (VDict (base_frame ''env'' ''c'' VNone 3 @ [(VStr ''seq'', VInt 1)])) = Inr body1"
    by (auto simp: frame_defs)
  obtain fm where fm: "frame_message wire_prims session 1 (sha256 wire_prims body1) = Inr fm" using demo_hashes(2) [of sb body1] sb by blast
  let ?a = "demo_dialler\<lparr>me_sealers := [(''v2'', \<lparr>sl_session = session, sl_seq = 0\<rparr>)], me_out := [''v2'']\<rparr>"
  let ?bytes = "MAGIC @ [VERSION] @ put_uint (length body) @ body" and ?fbytes = "MAGIC @ [VERSION] @ put_uint (length fbody) @ fbody"
  have "hello_for wire_prims (\<lambda>_. ''ab'') 3 ''n'' ''v2'' demo_dialler
      = Inr (VDict (hello_entries ''v1'' ''v2'' 3 ''n'' ''ab''), demo_dialler\<lparr>me_sealers := [(''v2'', \<lparr>sl_session = session, sl_seq = 0\<rparr>)]\<rparr>)"
    using m s by (simp add: hello_for_def build_hello_def hello_entries_def demo_dialler_def demo_mesh_def PROTOCOL_VERSION_def)
  moreover have "pack wire_prims (\<lambda>_. ''ab'') None ''hello'' ''c'' (VDict (hello_entries ''v1'' ''v2'' 3 ''n'' ''ab'')) (- 1) = (Inr ?bytes, None)"
    using body by (simp add: pack_def KINDS_def framed_def MAX_FRAME_def Let_def)
  ultimately have d: "dial wire_prims (\<lambda>_. ''ab'') 3 ''n'' True ''v2'' demo_dialler = (Inr ?bytes, ?a)"
    by (simp add: dial_def demo_dialler_def demo_mesh_def List.insert_def)
  have "pack wire_prims (\<lambda>_. ''ab'') (Some \<lparr>sl_session = session, sl_seq = 0\<rparr>) ''env'' ''c'' VNone 3 = (Inr ?fbytes, Some \<lparr>sl_session = session, sl_seq = 1\<rparr>)"
    using fbody body1 fm by (simp add: pack_def KINDS_def next_seq_def seal_sign_def sealed_digest_def sealed_entries_def framed_def MAX_FRAME_def Let_def)
  then obtain a2 where f: "send wire_prims (\<lambda>_. ''ab'') True ''v2'' ''env'' VNone 3 ?a = (Inr (Some ?fbytes), a2)"
    by (simp add: send_def demo_dialler_def demo_mesh_def)
  have "length (put_uint (length body)) \<le> 2" using length_put_uint [of "length body" 1] body(2) by simp
  then have "length ?bytes \<le> CLIENT_MAX_FRAME" using body(2) by (simp add: MAGIC_def CLIENT_MAX_FRAME_def)
  then show ?thesis by (rule that [OF d f])
qed

lemma demo_heard:
  "\<exists>bytes b' co msg. read_loop demo_around [Chunk bytes] demo_mesh (new_conn demo_around ''h'' demo_mesh) = (None, b', co)
     \<and> me_inbox b' = [(''v1'', msg)] \<and> kind_of msg = ''env''"
proof -
  obtain hello_bytes a1 frame_bytes a2 where w: "dial wire_prims (\<lambda>_. ''ab'') 3 ''n'' True ''v2'' demo_dialler = (Inr hello_bytes, a1)"
    "send wire_prims (\<lambda>_. ''ab'') True ''v2'' ''env'' VNone 3 a1 = (Inr (Some frame_bytes), a2)" "length hello_bytes \<le> CLIENT_MAX_FRAME"
    by (rule demo_written)
  have "\<exists>b' co msg w. read_loop demo_around [Chunk (hello_bytes @ frame_bytes)] demo_mesh (new_conn demo_around ''h'' demo_mesh) = (None, b', co)
    \<and> me_inbox b' = me_inbox demo_mesh @ [(sender_name (Some (me_node_id demo_dialler)), msg)]
    \<and> kind_of msg = ''env'' \<and> dict_get ''payload'' msg = Some w \<and> same_val VNone w"
    by (rule seat_heard [of demo_around "\<lambda>_. ''ab''" 3 "''n''" "''v2''" demo_dialler hello_bytes a1 "''env''" VNone 3 frame_bytes a2 demo_mesh "[]"])
      (use w demo_strings demo_signs in \<open>simp_all add: demo_around_def demo_mesh_def demo_dialler_def demo_door_def new_verifier_def
        OPEN_KINDS_def CLIENT_KINDS_def bit_length.simps\<close>)
  then show ?thesis by (fastforce simp: demo_mesh_def demo_dialler_def sender_name_def)
qed



theorem participation_follows_identity_witness:
  "\<exists>bytes b' co msg. read_loop demo_around [Chunk bytes] demo_mesh (new_conn demo_around ''h'' demo_mesh) = (None, b', co)
     \<and> me_inbox b' = [(''v1'', msg)]
     \<and> (\<exists>session n seq s digest. seal_of wire_prims msg = Inr (seq, VStr s, digest) \<and> verify_msg wire_prims [] (frame_message wire_prims session n digest) s)"
proof -
  obtain bytes b' co msg where h: "read_loop demo_around [Chunk bytes] demo_mesh (new_conn demo_around ''h'' demo_mesh) = (None, b', co)"
    "me_inbox b' = [(''v1'', msg)]" "kind_of msg = ''env''" using demo_heard by blast
  have "kind_of msg \<notin> set OPEN_KINDS" using h(3) by (simp add: OPEN_KINDS_def CLIENT_KINDS_def)
  then show ?thesis using participation_follows_identity [OF h(1)] h
    by (fastforce simp: demo_mesh_def demo_door_def new_verifier_def demo_around_def sender_name_def split: if_splits)
qed

end
